(* ===== verification/Prelude.thy ===== *)
theory Prelude
  imports
    Complex_Main
    "HOL-Library.AList"
    "HOL-Library.Char_ord"
    "HOL-Library.List_Lexorder"
    "HOL-Library.Product_Lexorder"
    "HOL-Library.Multiset"
begin

text \<open>
  What the components share.  The programs under \<^verbatim>\<open>src/vericcl\<close> are Python:
  \<^item> an exception is a value of \<open>error\<close>, a call that may raise returns \<open>'a res\<close>;
    \<open>bnd\<close> sequences two such calls, \<open>ensure c e k\<close> is
    \<^verbatim>\<open>if not c: raise e\<close> followed by \<open>k\<close>, and \<open>for_each\<close> is a
    \<^verbatim>\<open>for\<close> loop whose body may raise;
  \<^item> a \<^verbatim>\<open>dict\<close> is an association list in insertion order (\<open>AList.update\<close> keeps the
    position of a key it overwrites and appends a new one, as Python does);
  \<^item> a \<^verbatim>\<open>float\<close> handed in by a caller is a \<open>pyfloat\<close>: a finite value, kept
    exactly as a rational, or one of the non-finite values.  The components modelled here
    only compare floats and take maxima, which is exact on finite values;
  \<^item> \<^verbatim>\<open>str\<close> of an integer and the two binary searches of the \<^verbatim>\<open>bisect\<close>
    module are defined by their own recursions and related to their specifications.
\<close>

named_theorems res_simps \<open>inversion of computations that may raise\<close>

section \<open>Results\<close>

datatype error =
    SemanticError string
  | ValueError string
  | KeyError string
  | IndexError
  | TypeError
  | ZeroDivisionError
  | BudgetExhausted string
  | ResourceBusy string

type_synonym 'a res = "error + 'a"

definition bnd :: "'a res \<Rightarrow> ('a \<Rightarrow> 'b res) \<Rightarrow> 'b res" where
  "bnd m f = (case m of Inl e \<Rightarrow> Inl e | Inr x \<Rightarrow> f x)"

definition ensure :: "bool \<Rightarrow> error \<Rightarrow> 'a res \<Rightarrow> 'a res" where
  "ensure c e k = (if c then k else Inl e)"

fun for_each :: "('s \<Rightarrow> 'x \<Rightarrow> 's res) \<Rightarrow> 's \<Rightarrow> 'x list \<Rightarrow> 's res" where
  "for_each f s [] = Inr s"
| "for_each f s (x # xs) = bnd (f s x) (\<lambda>s'. for_each f s' xs)"

fun map_res :: "('x \<Rightarrow> 'y res) \<Rightarrow> 'x list \<Rightarrow> 'y list res" where
  "map_res f [] = Inr []"
| "map_res f (x # xs) = bnd (f x) (\<lambda>y. bnd (map_res f xs) (\<lambda>ys. Inr (y # ys)))"

definition check_each :: "('x \<Rightarrow> unit res) \<Rightarrow> 'x list \<Rightarrow> unit res" where
  "check_each f xs = for_each (\<lambda>_ x. f x) () xs"

fun is_ok :: "'a res \<Rightarrow> bool" where
  "is_ok (Inr _) = True"
| "is_ok (Inl _) = False"

lemma bnd_simps [simp]: "bnd (Inr x) f = f x" "bnd (Inl e) f = Inl e"
  by (simp_all add: bnd_def)

lemma bnd_Inr_iff [res_simps]: "bnd m f = Inr y \<longleftrightarrow> (\<exists>x. m = Inr x \<and> f x = Inr y)"
  by (cases m) auto

lemma bnd_Inl_iff: "bnd m f = Inl e \<longleftrightarrow> m = Inl e \<or> (\<exists>x. m = Inr x \<and> f x = Inl e)"
  by (cases m) auto

lemma ensure_simps [simp]: "ensure True e k = k" "ensure False e k = Inl e"
  by (simp_all add: ensure_def)

lemma ensure_Inr_iff [res_simps]: "ensure c e k = Inr y \<longleftrightarrow> c \<and> k = Inr y"
  by (simp add: ensure_def)

lemma ensure_cong [cong]: "c = c' \<Longrightarrow> ensure c e k = ensure c' e k"
  by simp

lemma is_ok_iff: "is_ok m \<longleftrightarrow> (\<exists>x. m = Inr x)"
  by (cases m) auto

lemma is_ok_bnd [simp]: "is_ok (bnd m f) \<longleftrightarrow> (\<exists>x. m = Inr x \<and> is_ok (f x))"
  by (cases m) auto

lemma is_ok_ensure [simp]: "is_ok (ensure c e k) \<longleftrightarrow> c \<and> is_ok k"
  by (simp add: ensure_def)

lemma for_each_append:
  "for_each f s (xs @ ys) = bnd (for_each f s xs) (\<lambda>s'. for_each f s' ys)"
proof (induction xs arbitrary: s)
  case (Cons x xs)
  then show ?case by (cases "f s x") simp_all
qed simp

text \<open>The loop rule: an invariant that every successful body keeps.\<close>

lemma for_each_inv:
  assumes "for_each f s xs = Inr s'" and "I s"
    and "\<And>s x s'. x \<in> set xs \<Longrightarrow> I s \<Longrightarrow> f s x = Inr s' \<Longrightarrow> I s'"
  shows "I s'"
  using assms
proof (induction xs arbitrary: s)
  case (Cons x xs)
  then obtain t where t: "f s x = Inr t" "for_each f t xs = Inr s'"
    by (auto simp: res_simps)
  have "I t" by (rule Cons.prems(3) [OF _ Cons.prems(2) t(1)]) simp
  show ?case
  proof (rule Cons.IH [OF t(2) \<open>I t\<close>])
    fix s y s' assume "y \<in> set xs" "I s" "f s y = Inr s'"
    then show "I s'" by (intro Cons.prems(3) [of y s s']) simp_all
  qed
qed simp

text \<open>The same with the list of the elements already visited.\<close>

lemma for_each_each:
  "for_each f s xs = Inr s' \<Longrightarrow> x \<in> set xs \<Longrightarrow> \<exists>t t'. f t x = Inr t'"
proof (induction xs arbitrary: s)
  case (Cons y ys)
  then show ?case by (cases "f s y") auto
qed simp

lemma for_each_inv_prefix:
  assumes "for_each f s xs = Inr s'" and "I [] s"
    and "\<And>pre x rest s s'. xs = pre @ x # rest \<Longrightarrow> I pre s \<Longrightarrow> f s x = Inr s' \<Longrightarrow> I (pre @ [x]) s'"
  shows "I xs s'"
proof -
  have "for_each f t ys = Inr s' \<Longrightarrow> I pre t \<Longrightarrow> xs = pre @ ys \<Longrightarrow> I xs s'" for pre ys t
  proof (induction ys arbitrary: pre t)
    case (Cons y ys)
    then obtain u where u: "f t y = Inr u" "for_each f u ys = Inr s'"
      by (auto simp: res_simps)
    have "I (pre @ [y]) u"
      using assms(3) [of pre y ys t u] Cons.prems u(1) by simp
    with Cons.IH [OF u(2), of "pre @ [y]"] Cons.prems(3) show ?case by simp
  qed simp
  from this [OF assms(1,2)] show ?thesis by simp
qed

lemma check_each_Inr_iff [res_simps]:
  "check_each f xs = Inr u \<longleftrightarrow> (\<forall>x\<in>set xs. f x = Inr ())"
proof (induction xs)
  case (Cons x xs)
  then show ?case by (auto simp: check_each_def res_simps)
qed (simp add: check_each_def)

lemma check_each_ok [simp]: "is_ok (check_each f xs) \<longleftrightarrow> (\<forall>x\<in>set xs. is_ok (f x))"
  by (simp add: is_ok_iff res_simps)

lemma split_last:
  assumes "c \<notin> set ys" "c \<notin> set ys'" "xs @ c # ys = xs' @ c # ys'"
  shows "xs = xs'" "ys = ys'"
proof -
  have *: "takeWhile (\<lambda>d. d \<noteq> c) (rev (zs @ c # ws)) = rev ws" if "c \<notin> set ws" for zs ws
    using takeWhile_append2 [of "rev ws" "\<lambda>d. d \<noteq> c" "c # rev zs"] that by auto
  have "rev ys = rev ys'" using *[OF assms(1), of xs] *[OF assms(2), of xs'] assms(3) by simp
  then show "ys = ys'" by simp
  with assms(3) show "xs = xs'" by simp
qed

lemma map_res_Inr_iff:
  "map_res f xs = Inr ys \<longleftrightarrow> list_all2 (\<lambda>x y. f x = Inr y) xs ys"
  by (induction xs arbitrary: ys) (auto simp: res_simps list_all2_Cons1)

lemma list_all2_mem2: "list_all2 P xs ys \<Longrightarrow> y \<in> set ys \<Longrightarrow> \<exists>x\<in>set xs. P x y"
  by (induction rule: list_all2_induct) auto

lemma list_all2_mem1: "list_all2 P xs ys \<Longrightarrow> x \<in> set xs \<Longrightarrow> \<exists>y\<in>set ys. P x y"
  by (induction rule: list_all2_induct) auto

lemma map_res_total: "(\<And>x. x \<in> set xs \<Longrightarrow> f x = Inr (g x)) \<Longrightarrow> map_res f xs = Inr (map g xs)"
  by (induction xs) auto

section \<open>Floating-point arguments\<close>

datatype pyfloat = Finite rat | PosInf | NegInf | NaN

fun time_value :: "string \<Rightarrow> pyfloat \<Rightarrow> rat res" where
  "time_value msg (Finite r) = ensure (0 \<le> r) (SemanticError msg) (Inr r)"
| "time_value msg _ = Inl (SemanticError msg)"

lemma time_value_Inr_iff [res_simps]: "time_value msg v = Inr r \<longleftrightarrow> v = Finite r \<and> 0 \<le> r"
  by (cases v) (auto simp: res_simps)

section \<open>Dictionaries\<close>

type_synonym ('k, 'v) dict = "('k \<times> 'v) list"

abbreviation dict_keys :: "('k, 'v) dict \<Rightarrow> 'k list" where
  "dict_keys d \<equiv> map fst d"

abbreviation wf_dict :: "('k, 'v) dict \<Rightarrow> bool" where
  "wf_dict d \<equiv> distinct (map fst d)"

definition dict_get :: "('k, 'v) dict \<Rightarrow> 'k \<Rightarrow> 'v \<Rightarrow> 'v" where
  "dict_get d k v = (case map_of d k of None \<Rightarrow> v | Some x \<Rightarrow> x)"

lemma dict_get_update [simp]:
  "dict_get (AList.update k v d) k' w = (if k = k' then v else dict_get d k' w)"
  by (simp add: dict_get_def update_conv')

lemma wf_dict_update [simp]: "wf_dict d \<Longrightarrow> wf_dict (AList.update k v d)"
  by (rule distinct_update)

lemma map_of_update [simp]: "map_of (AList.update k v d) = (map_of d)(k \<mapsto> v)"
  by (rule update_conv')

lemma keys_update [simp]: "fst ` set (AList.update k v d) = insert k (fst ` set d)"
  by (induction d) auto

lemma length_update_new:
  "k \<notin> fst ` set d \<Longrightarrow> AList.update k v d = d @ [(k, v)]"
  by (induction d) auto

text \<open>\<^verbatim>\<open>d[k] = v\<close> for each pair, in order.\<close>

definition dict_of :: "('k \<times> 'v) list \<Rightarrow> ('k, 'v) dict" where
  "dict_of kvs = foldl (\<lambda>d (k, v). AList.update k v d) [] kvs"

lemma dict_of_acc:
  "wf_dict (d @ kvs) \<Longrightarrow> foldl (\<lambda>d (k, v). AList.update k v d) d kvs = d @ kvs"
proof (induction kvs arbitrary: d)
  case (Cons kv kvs)
  obtain k v where kv: "kv = (k, v)" by (cases kv)
  have "k \<notin> fst ` set d" using Cons.prems kv by auto
  then have "AList.update k v d = d @ [(k, v)]" by (rule length_update_new)
  moreover have "foldl (\<lambda>d (k, v). AList.update k v d) (d @ [(k, v)]) kvs = (d @ [(k, v)]) @ kvs"
    by (rule Cons.IH) (use Cons.prems kv in auto)
  ultimately show ?case using kv by simp
qed simp

text \<open>A dictionary filled with distinct keys is the list of its pairs: nothing is overwritten.\<close>

lemma dict_of_distinct: "wf_dict kvs \<Longrightarrow> dict_of kvs = kvs"
  using dict_of_acc [of "[]" kvs] by (simp add: dict_of_def)

lemma wf_dict_fold: "wf_dict d \<Longrightarrow> wf_dict (foldl (\<lambda>d (k, v). AList.update k v d) d kvs)"
  by (induction kvs arbitrary: d) auto

lemma wf_dict_of [simp]: "wf_dict (dict_of kvs)"
  by (simp add: dict_of_def wf_dict_fold)

lemma map_of_dict_of: "map_of (dict_of kvs) = map_of (rev kvs)"
proof -
  have "map_of (foldl (\<lambda>d (k, v). AList.update k v d) d kvs) = map_of (rev kvs @ d)" for d
    by (induction kvs arbitrary: d) (auto simp: update_conv' map_add_def fun_eq_iff split: option.splits)
  then show ?thesis by (simp add: dict_of_def)
qed

lemma dict_of_mem: "map_of (dict_of kvs) k = Some v \<Longrightarrow> (k, v) \<in> set kvs"
  using map_of_SomeD [of "rev kvs"] by (simp add: map_of_dict_of)

lemma dict_of_unique:
  assumes "(k, v) \<in> set kvs" "\<And>v'. (k, v') \<in> set kvs \<Longrightarrow> v' = v"
  shows "map_of (dict_of kvs) k = Some v"
proof (cases "map_of (dict_of kvs) k")
  case None
  then show ?thesis using assms(1) by (auto simp: map_of_dict_of map_of_eq_None_iff image_iff)
next
  case (Some v')
  from assms(2) [OF dict_of_mem [OF Some]] Some show ?thesis by simp
qed

lemma length_dict_of:
  "length (foldl (\<lambda>d (k, v). AList.update k v d) d kvs) \<le> length d + length kvs
    \<and> (length (foldl (\<lambda>d (k, v). AList.update k v d) d kvs) = length d + length kvs
        \<longrightarrow> distinct (map fst kvs) \<and> fst ` set kvs \<inter> fst ` set d = {})"
proof (induction kvs arbitrary: d)
  case (Cons kv kvs)
  obtain k v where kv: "kv = (k, v)" by (cases kv)
  have len: "length (AList.update k v d) = (if k \<in> fst ` set d then length d else Suc (length d))"
    by (induction d) auto
  from Cons.IH [of "AList.update k v d"] show ?case
    by (auto simp: kv len split: if_splits)
qed simp

text \<open>\<^verbatim>\<open>dict(sorted(d.items()))\<close>: the keys are distinct, so only they are compared.\<close>

lemma distinct_keys_sort: "distinct (map fst (sort_key fst xs)) \<longleftrightarrow> distinct (map fst xs)"
  by (metis distinct_map distinct_sort set_sort)

lemma map_of_sort_key: "wf_dict d \<Longrightarrow> map_of (sort_key fst d) = map_of d"
  using map_of_inject_set [of "sort_key fst d" d] by (simp add: distinct_keys_sort)

lemma sorted_wrt_less_iff: "sorted_wrt (<) xs \<longleftrightarrow> sorted xs \<and> distinct xs" for xs :: "'a::linorder list"
  by (induction xs) (auto simp: le_less)

section \<open>Integer ranges\<close>

abbreviation py_range :: "int \<Rightarrow> int \<Rightarrow> int list" where
  "py_range a b \<equiv> [a..b - 1]"

lemma distinct_concat_map:
  assumes "distinct xs" "\<And>x. x \<in> set xs \<Longrightarrow> distinct (f x)"
    and "\<And>x y. x \<in> set xs \<Longrightarrow> y \<in> set xs \<Longrightarrow> x \<noteq> y \<Longrightarrow> set (f x) \<inter> set (f y) = {}"
  shows "distinct (concat (map f xs))"
  using assms by (induction xs) auto

lemma div_mult_add [simp]: "0 \<le> a \<Longrightarrow> a < n \<Longrightarrow> (r * n + a) div n = r" for a n r :: int
  by simp

lemma mod_mult_add [simp]: "0 \<le> a \<Longrightarrow> a < n \<Longrightarrow> (r * n + a) mod n = a" for a n r :: int
  by simp

text \<open>A pair of a block number below \<open>m\<close> and a position below \<open>n\<close> is one number below \<open>m * n\<close>.\<close>

lemma block_bound: "0 \<le> r \<Longrightarrow> r < m \<Longrightarrow> 0 \<le> a \<Longrightarrow> a < n \<Longrightarrow> r * n + a < m * n" for r m a n :: int
proof -
  assume "0 \<le> r" "r < m" "0 \<le> a" "a < n"
  then have "r * n + a < (r + 1) * n" by (simp add: distrib_right)
  also have "\<dots> \<le> m * n" using \<open>r < m\<close> \<open>0 \<le> a\<close> \<open>a < n\<close> by (intro mult_right_mono) auto
  finally show ?thesis .
qed

lemma int_le_div_iff: "0 < q \<Longrightarrow> m \<le> x div q \<longleftrightarrow> m * q \<le> x" for m x q :: int
proof
  assume q: "0 < q" and "m \<le> x div q"
  then have "m * q \<le> x div q * q" by (intro mult_right_mono) auto
  also have "\<dots> \<le> x" using q div_mult_mod_eq [of x q] pos_mod_sign [of q x] by linarith
  finally show "m * q \<le> x" .
next
  assume "0 < q" and "m * q \<le> x"
  then show "m \<le> x div q" using zdiv_mono1 [of "m * q" x q] by simp
qed

lemma int_div_less_iff: "0 < q \<Longrightarrow> x div q < m \<longleftrightarrow> x < m * q" for m x q :: int
  using int_le_div_iff [of q m x] by linarith

lemma block_split:
  "0 < n \<Longrightarrow> 0 \<le> x \<Longrightarrow> x < m * n \<Longrightarrow> 0 \<le> x div n \<and> x div n < m \<and> 0 \<le> x mod n \<and> x mod n < n"
  for x m n :: int
  by (simp add: pos_imp_zdiv_nonneg_iff int_div_less_iff)

section \<open>Decimal strings\<close>

definition digit_char :: "nat \<Rightarrow> char" where
  "digit_char d = char_of (48 + d)"

fun str_nat :: "nat \<Rightarrow> string" where
  "str_nat n = (if n < 10 then [digit_char n] else str_nat (n div 10) @ [digit_char (n mod 10)])"

declare str_nat.simps [simp del]

definition str_int :: "int \<Rightarrow> string" where
  "str_int i = (if i < 0 then ''-'' @ str_nat (nat (- i)) else str_nat (nat i))"

definition parse_nat :: "string \<Rightarrow> nat" where
  "parse_nat s = foldl (\<lambda>a c. 10 * a + (of_char c - 48)) 0 s"

lemma of_char_digit [simp]: "d < 10 \<Longrightarrow> of_char (digit_char d) = (48 + d :: nat)"
  by (simp add: digit_char_def)

text \<open>Reading back the decimal representation gives the number: printing is injective.\<close>

lemma parse_str_nat: "parse_nat (str_nat n) = n"
proof (induction n rule: str_nat.induct)
  case (1 n)
  show ?case
  proof (cases "n < 10")
    case True
    then show ?thesis by (subst str_nat.simps) (simp add: parse_nat_def)
  next
    case False
    with "1.IH" have "parse_nat (str_nat (n div 10)) = n div 10" by simp
    with False show ?thesis
      by (subst str_nat.simps) (simp add: parse_nat_def)
  qed
qed

lemma str_nat_inject [simp]: "str_nat m = str_nat n \<longleftrightarrow> m = n"
  by (metis parse_str_nat)

lemma str_nat_digits: "c \<in> set (str_nat n) \<Longrightarrow> 48 \<le> (of_char c :: nat) \<and> (of_char c :: nat) \<le> 57"
proof (induction n rule: str_nat.induct)
  case (1 n)
  have digit: "48 \<le> (of_char (digit_char d) :: nat) \<and> (of_char (digit_char d) :: nat) \<le> 57"
    if "d < 10" for d
    using that by simp
  show ?case
  proof (cases "n < 10")
    case True
    with "1.prems" digit [of n] show ?thesis by (subst (asm) str_nat.simps) simp
  next
    case False
    have "c \<in> set (str_nat (n div 10)) \<or> c = digit_char (n mod 10)"
      using "1.prems" False by (subst (asm) str_nat.simps) auto
    with "1.IH" [OF False] digit [of "n mod 10"] show ?thesis by auto
  qed
qed

lemma str_int_inject [simp]: "str_int i = str_int j \<longleftrightarrow> i = j"
proof -
  have "CHR ''-'' \<notin> set (str_nat n)" for n
    using str_nat_digits [of "CHR ''-''" n] by (auto simp: of_char_def)
  then have "str_nat n \<noteq> CHR ''-'' # xs" for n xs by (metis list.set_intros(1))
  then show ?thesis by (auto simp: str_int_def split: if_splits dest: sym)
qed

text \<open>Identifiers are printed with dashes between the numbers: they can be taken apart again.\<close>

lemma str_int_no_dash: "0 \<le> i \<Longrightarrow> CHR ''-'' \<notin> set (str_int i)"
  using str_nat_digits [of "CHR ''-''" "nat i"] by (auto simp: str_int_def of_char_def)

lemma split_at_dash:
  assumes "CHR ''-'' \<notin> set xs" "CHR ''-'' \<notin> set xs'" "xs @ CHR ''-'' # ys = xs' @ CHR ''-'' # ys'"
  shows "xs = xs'" "ys = ys'"
proof -
  have "takeWhile (\<lambda>c. c \<noteq> CHR ''-'') (zs @ CHR ''-'' # ws) = zs" if "CHR ''-'' \<notin> set zs" for zs ws :: string
    using that by (induction zs) auto
  with assms show "xs = xs'" by metis
  with assms(3) show "ys = ys'" by simp
qed

section \<open>Binary search\<close>

text \<open>\<^verbatim>\<open>bisect.bisect_left\<close> and \<^verbatim>\<open>bisect.bisect_right\<close>, as the standard library runs them.\<close>

function bisect_left_loop :: "'a::linorder list \<Rightarrow> 'a \<Rightarrow> nat \<Rightarrow> nat \<Rightarrow> nat" where
  "bisect_left_loop xs x lo hi =
     (if lo < hi then
        (let mid = (lo + hi) div 2
         in if xs ! mid < x then bisect_left_loop xs x (Suc mid) hi
            else bisect_left_loop xs x lo mid)
      else lo)"
  by pat_completeness auto
termination
  by (relation "measure (\<lambda>(xs, x, lo, hi). hi - lo)") auto

function bisect_right_loop :: "'a::linorder list \<Rightarrow> 'a \<Rightarrow> nat \<Rightarrow> nat \<Rightarrow> nat" where
  "bisect_right_loop xs x lo hi =
     (if lo < hi then
        (let mid = (lo + hi) div 2
         in if x < xs ! mid then bisect_right_loop xs x lo mid
            else bisect_right_loop xs x (Suc mid) hi)
      else lo)"
  by pat_completeness auto
termination
  by (relation "measure (\<lambda>(xs, x, lo, hi). hi - lo)") auto

declare bisect_left_loop.simps [simp del] bisect_right_loop.simps [simp del]

definition bisect_left :: "'a::linorder list \<Rightarrow> 'a \<Rightarrow> nat" where
  "bisect_left xs x = bisect_left_loop xs x 0 (length xs)"

definition bisect_right :: "'a::linorder list \<Rightarrow> 'a \<Rightarrow> nat" where
  "bisect_right xs x = bisect_right_loop xs x 0 (length xs)"

lemma bisect_left_loop_spec:
  assumes "sorted xs" "lo \<le> hi" "hi \<le> length xs"
    and "\<And>i. i < lo \<Longrightarrow> xs ! i < x" "\<And>i. hi \<le> i \<Longrightarrow> i < length xs \<Longrightarrow> x \<le> xs ! i"
  shows "bisect_left_loop xs x lo hi \<le> length xs
    \<and> (\<forall>i < bisect_left_loop xs x lo hi. xs ! i < x)
    \<and> (\<forall>i. bisect_left_loop xs x lo hi \<le> i \<longrightarrow> i < length xs \<longrightarrow> x \<le> xs ! i)"
  using assms
proof (induction xs x lo hi rule: bisect_left_loop.induct)
  case (1 xs x lo hi)
  show ?case
  proof (cases "lo < hi")
    case False
    then have "bisect_left_loop xs x lo hi = lo" by (subst bisect_left_loop.simps) simp
    moreover have "lo = hi" using False "1.prems"(2) by simp
    ultimately show ?thesis using "1.prems" by auto
  next
    case True
    let ?mid = "(lo + hi) div 2"
    have mid: "lo \<le> ?mid" "?mid < hi" using True by auto
    show ?thesis
    proof (cases "xs ! ?mid < x")
      case less: True
      have below: "xs ! i < x" if "i < Suc ?mid" for i
      proof -
        have "xs ! i \<le> xs ! ?mid"
          using that mid "1.prems"(3) by (intro sorted_nth_mono [OF "1.prems"(1)]) linarith+
        with less show ?thesis by order
      qed
      have eq: "bisect_left_loop xs x lo hi = bisect_left_loop xs x (Suc ?mid) hi"
        using True less by (subst bisect_left_loop.simps) (simp add: Let_def)
      have "Suc ?mid \<le> hi" using mid by simp
      then show ?thesis unfolding eq
        by (rule "1.IH"(1) [OF True refl less "1.prems"(1) _ "1.prems"(3) below "1.prems"(5)])
    next
      case ge: False
      have above: "x \<le> xs ! i" if "?mid \<le> i" "i < length xs" for i
        using ge sorted_nth_mono [OF "1.prems"(1) that] by order
      have eq: "bisect_left_loop xs x lo hi = bisect_left_loop xs x lo ?mid"
        using True ge by (subst bisect_left_loop.simps) (simp add: Let_def)
      have "?mid \<le> length xs" using mid "1.prems"(3) by simp
      then show ?thesis unfolding eq
        by (rule "1.IH"(2) [OF True refl ge "1.prems"(1) mid(1) _ "1.prems"(4) above])
    qed
  qed
qed

lemma bisect_right_loop_spec:
  assumes "sorted xs" "lo \<le> hi" "hi \<le> length xs"
    and "\<And>i. i < lo \<Longrightarrow> xs ! i \<le> x" "\<And>i. hi \<le> i \<Longrightarrow> i < length xs \<Longrightarrow> x < xs ! i"
  shows "bisect_right_loop xs x lo hi \<le> length xs
    \<and> (\<forall>i < bisect_right_loop xs x lo hi. xs ! i \<le> x)
    \<and> (\<forall>i. bisect_right_loop xs x lo hi \<le> i \<longrightarrow> i < length xs \<longrightarrow> x < xs ! i)"
  using assms
proof (induction xs x lo hi rule: bisect_right_loop.induct)
  case (1 xs x lo hi)
  show ?case
  proof (cases "lo < hi")
    case False
    then have "bisect_right_loop xs x lo hi = lo" by (subst bisect_right_loop.simps) simp
    moreover have "lo = hi" using False "1.prems"(2) by simp
    ultimately show ?thesis using "1.prems" by auto
  next
    case True
    let ?mid = "(lo + hi) div 2"
    have mid: "lo \<le> ?mid" "?mid < hi" using True by auto
    show ?thesis
    proof (cases "x < xs ! ?mid")
      case less: True
      have above: "x < xs ! i" if "?mid \<le> i" "i < length xs" for i
        using less sorted_nth_mono [OF "1.prems"(1) that] by order
      have eq: "bisect_right_loop xs x lo hi = bisect_right_loop xs x lo ?mid"
        using True less by (subst bisect_right_loop.simps) (simp add: Let_def)
      have "?mid \<le> length xs" using mid "1.prems"(3) by simp
      then show ?thesis unfolding eq
        by (rule "1.IH"(1) [OF True refl less "1.prems"(1) mid(1) _ "1.prems"(4) above])
    next
      case ge: False
      have below: "xs ! i \<le> x" if "i < Suc ?mid" for i
      proof -
        have "xs ! i \<le> xs ! ?mid"
          using that mid "1.prems"(3) by (intro sorted_nth_mono [OF "1.prems"(1)]) linarith+
        with ge show ?thesis by order
      qed
      have eq: "bisect_right_loop xs x lo hi = bisect_right_loop xs x (Suc ?mid) hi"
        using True ge by (subst bisect_right_loop.simps) (simp add: Let_def)
      have "Suc ?mid \<le> hi" using mid by simp
      then show ?thesis unfolding eq
        by (rule "1.IH"(2) [OF True refl ge "1.prems"(1) _ "1.prems"(3) below "1.prems"(5)])
    qed
  qed
qed

lemma bisect_left_spec:
  assumes "sorted xs"
  shows "bisect_left xs x \<le> length xs" "i < bisect_left xs x \<Longrightarrow> xs ! i < x"
    and "bisect_left xs x \<le> i \<Longrightarrow> i < length xs \<Longrightarrow> x \<le> xs ! i"
  using bisect_left_loop_spec [OF assms, of 0 "length xs" x] by (auto simp: bisect_left_def)

lemma bisect_right_spec:
  assumes "sorted xs"
  shows "bisect_right xs x \<le> length xs" "i < bisect_right xs x \<Longrightarrow> xs ! i \<le> x"
    and "bisect_right xs x \<le> i \<Longrightarrow> i < length xs \<Longrightarrow> x < xs ! i"
  using bisect_right_loop_spec [OF assms, of 0 "length xs" x] by (auto simp: bisect_right_def)

text \<open>A sorted list without duplicates, used as an index: lookup, insertion and removal by position.\<close>

lemma bisect_left_mem:
  assumes "sorted xs" "distinct xs" "x \<in> set xs"
  shows "bisect_left xs x < length xs" "xs ! bisect_left xs x = x"
proof -
  obtain i where i: "i < length xs" "xs ! i = x" using assms(3) by (auto simp: in_set_conv_nth)
  let ?b = "bisect_left xs x"
  have "?b \<le> i" using bisect_left_spec(2) [OF assms(1), of i x] i by (metis leI less_irrefl)
  with i(1) show lt: "?b < length xs" by simp
  have "x \<le> xs ! ?b" using bisect_left_spec(3) [OF assms(1), of x ?b] lt by simp
  moreover have "xs ! ?b \<le> x" using sorted_nth_mono [OF assms(1) \<open>?b \<le> i\<close> i(1)] i(2) by simp
  ultimately show "xs ! ?b = x" by simp
qed

lemma bisect_insert:
  fixes xs :: "'a::linorder list"
  assumes "sorted xs" "distinct xs" "x \<notin> set xs"
  defines "ys \<equiv> take (bisect_left xs x) xs @ x # drop (bisect_left xs x) xs"
  shows "sorted ys" "distinct ys" "set ys = insert x (set xs)"
proof -
  let ?b = "bisect_left xs x"
  have split: "xs = take ?b xs @ drop ?b xs" by simp
  have "y \<le> x" if y: "y \<in> set (take ?b xs)" for y
  proof -
    obtain j where "j < ?b" "y = xs ! j" using y by (auto simp: in_set_conv_nth)
    then show ?thesis using bisect_left_spec(2) [OF assms(1), where i = j and x = x] by simp
  qed
  moreover have "x \<le> y" if y: "y \<in> set (drop ?b xs)" for y
  proof -
    obtain j where "j < length (drop ?b xs)" "y = drop ?b xs ! j" using y by (auto simp: in_set_conv_nth)
    then show ?thesis using bisect_left_spec(3) [OF assms(1), of x "?b + j"] by simp
  qed
  moreover have "sorted (take ?b xs @ drop ?b xs)" using assms(1) by simp
  then have "sorted (take ?b xs)" "sorted (drop ?b xs)" by (simp_all add: sorted_wrt_append)
  moreover have "y \<le> z" if "y \<in> set (take ?b xs)" "z \<in> set (drop ?b xs)" for y z
    using calculation(1,2) that by (meson order_trans)
  ultimately show "sorted ys" by (auto simp: ys_def sorted_append)
  show set: "set ys = insert x (set xs)"
  proof -
    have "set xs = set (take ?b xs) \<union> set (drop ?b xs)" using split by (metis set_append)
    then show ?thesis by (simp add: ys_def)
  qed
  have "length ys = Suc (length xs)" by (simp add: ys_def)
  then show "distinct ys" using set assms(2,3) by (simp add: card_distinct distinct_card)
qed

lemma remove_nth:
  assumes "sorted xs" "distinct xs" "i < length xs"
  defines "ys \<equiv> take i xs @ drop (Suc i) xs"
  shows "sorted ys" "distinct ys" "set ys = set xs - {xs ! i}"
proof -
  have split: "xs = take i xs @ xs ! i # drop (Suc i) xs" using assms(3) by (rule id_take_nth_drop)
  have "sorted (take i xs @ xs ! i # drop (Suc i) xs)" "distinct (take i xs @ xs ! i # drop (Suc i) xs)"
    using split assms(1,2) by simp_all
  then show "sorted ys" "distinct ys" by (auto simp: ys_def sorted_append simp del: append_take_drop_id)
  have "set xs = set (take i xs @ xs ! i # drop (Suc i) xs)" using split by simp
  moreover have "xs ! i \<notin> set (take i xs)" "xs ! i \<notin> set (drop (Suc i) xs)"
    using \<open>distinct (take i xs @ xs ! i # drop (Suc i) xs)\<close> by auto
  ultimately show "set ys = set xs - {xs ! i}" by (auto simp: ys_def)
qed

lemma bisect_right_loop_le: "lo \<le> hi \<Longrightarrow> bisect_right_loop xs x lo hi \<le> hi"
proof (induction xs x lo hi rule: bisect_right_loop.induct)
  case (1 xs x lo hi)
  show ?case
  proof (cases "lo < hi")
    case False
    with "1.prems" show ?thesis by (subst bisect_right_loop.simps) simp
  next
    case True
    let ?mid = "(lo + hi) div 2"
    have mid: "lo \<le> ?mid" "Suc ?mid \<le> hi" "?mid \<le> hi" using True by auto
    show ?thesis
    proof (cases "x < xs ! ?mid")
      case less: True
      have "bisect_right_loop xs x lo hi = bisect_right_loop xs x lo ?mid"
        using True less by (subst bisect_right_loop.simps) (simp add: Let_def)
      with "1.IH"(1) [OF True refl less mid(1)] mid(3) show ?thesis by simp
    next
      case ge: False
      have "bisect_right_loop xs x lo hi = bisect_right_loop xs x (Suc ?mid) hi"
        using True ge by (subst bisect_right_loop.simps) (simp add: Let_def)
      with "1.IH"(2) [OF True refl ge mid(2)] show ?thesis by simp
    qed
  qed
qed

lemma bisect_right_le: "bisect_right xs x \<le> length xs"
  unfolding bisect_right_def by (rule bisect_right_loop_le) simp

section \<open>Loops over operations that may be refused\<close>

text \<open>
  \<open>alongside\<close> carries a second state through such a loop: at each accepted operation it is
  updated from the component's state before the operation.
\<close>

fun alongside :: "('l \<Rightarrow> 'x \<Rightarrow> 'l res) \<Rightarrow> ('l \<Rightarrow> 'x \<Rightarrow> 'a \<Rightarrow> 'a) \<Rightarrow> 'l \<Rightarrow> 'a \<Rightarrow> 'x list \<Rightarrow> 'a" where
  "alongside step f l a [] = a"
| "alongside step f l a (x # xs) =
     (case step l x of Inl _ \<Rightarrow> a | Inr l' \<Rightarrow> alongside step f l' (f l x a) xs)"

text \<open>
  The contract between a component that processes operations one by one (and may refuse one) and
  the lemmas about whole runs: an accepted operation keeps \<open>ok\<close> and has the \<open>effect\<close> promised.
\<close>

locale guarded_run =
  fixes ok :: "'l \<Rightarrow> bool" and step :: "'l \<Rightarrow> 'op \<Rightarrow> 'l res" and effect :: "'l \<Rightarrow> 'op \<Rightarrow> 'l \<Rightarrow> bool"
  assumes step_ok: "ok l \<Longrightarrow> step l x = Inr l' \<Longrightarrow> ok l'"
    and step_effect: "ok l \<Longrightarrow> step l x = Inr l' \<Longrightarrow> effect l x l'"
begin

lemma run_ok: "for_each step l xs = Inr l' \<Longrightarrow> ok l \<Longrightarrow> ok l'"
  by (erule for_each_inv) (auto intro: step_ok)

text \<open>
  A relation between the operations processed so far, the state and an abstract run, kept by every
  effect, holds at the end of the run.
\<close>

lemma run_simulation_prefix:
  assumes "for_each step l xs = Inr l'" "ok l" "R [] l a"
    and sim: "\<And>pre x rest l l' a. xs = pre @ x # rest \<Longrightarrow> ok l \<Longrightarrow> effect l x l' \<Longrightarrow> R pre l a \<Longrightarrow> R (pre @ [x]) l' (f l x a)"
  shows "R xs l' (alongside step f l a xs)"
proof -
  have "for_each step m ys = Inr l' \<Longrightarrow> ok m \<Longrightarrow> R pre m b \<Longrightarrow> xs = pre @ ys
    \<Longrightarrow> R xs l' (alongside step f m b ys)" for pre ys m b
  proof (induction ys arbitrary: pre m b)
    case (Cons y ys)
    then obtain m' where m: "step m y = Inr m'" "for_each step m' ys = Inr l'"
      by (auto simp: res_simps)
    have "R (pre @ [y]) m' (f m y b)"
      using sim [OF Cons.prems(4,2) step_effect [OF Cons.prems(2) m(1)] Cons.prems(3)] .
    from Cons.IH [OF m(2) step_ok [OF Cons.prems(2) m(1)] this] Cons.prems(4) m(1) show ?case by simp
  qed simp
  from this [where m = l and pre = "[]" and b = a and ys = xs] assms(1-3) show ?thesis by simp
qed

lemma run_simulation:
  assumes "for_each step l xs = Inr l'" "ok l" "R l a"
    and "\<And>l x l' a. x \<in> set xs \<Longrightarrow> ok l \<Longrightarrow> effect l x l' \<Longrightarrow> R l a \<Longrightarrow> R l' (f l x a)"
  shows "R l' (alongside step f l a xs)"
  using assms by (intro run_simulation_prefix [where R = "\<lambda>_. R"]) auto

end

section \<open>Runs that commute\<close>

text \<open>
  A step relation with the diamond property: two different steps from one state can be joined by
  one step each.  Whatever order the steps are taken in, a state without successors that can be
  reached is the end of every run.
\<close>

locale diamond_system =
  fixes step :: "'a \<Rightarrow> 'a \<Rightarrow> bool"
  assumes diamond: "step a b \<Longrightarrow> step a c \<Longrightarrow> b = c \<or> (\<exists>d. step b d \<and> step c d)"
begin

lemma strip: "step\<^sup>*\<^sup>* a n \<Longrightarrow> (\<And>x. \<not> step n x) \<Longrightarrow> step a b \<Longrightarrow> step\<^sup>*\<^sup>* b n"
proof (induction arbitrary: b rule: converse_rtranclp_induct)
  case (step a c)
  from diamond [OF step.hyps(1) step.prems(2)] show ?case
  proof
    assume "c = b"
    with step.hyps(2) show ?thesis by simp
  next
    assume "\<exists>d. step c d \<and> step b d"
    then obtain d where d: "step c d" "step b d" by blast
    from step.IH [OF step.prems(1) d(1)] d(2) show ?thesis by (rule converse_rtranclp_into_rtranclp [rotated])
  qed
qed blast

lemma ends_together: "step\<^sup>*\<^sup>* a b \<Longrightarrow> step\<^sup>*\<^sup>* a n \<Longrightarrow> (\<And>x. \<not> step n x) \<Longrightarrow> step\<^sup>*\<^sup>* b n"
proof (induction rule: rtranclp_induct)
  case (step b c)
  then show ?case using strip by blast
qed

lemma unique_end:
  assumes "step\<^sup>*\<^sup>* a b" "\<And>x. \<not> step b x" "step\<^sup>*\<^sup>* a n" "\<And>x. \<not> step n x"
  shows "b = n"
proof -
  have "step\<^sup>*\<^sup>* b n" by (rule ends_together [OF assms(1,3,4)])
  then show ?thesis using assms(2) by (metis converse_rtranclpE)
qed

end

end
