(* ===== verification/Collective.thy ===== *)
theory Collective
  imports Prelude
begin

text \<open>
  \<^verbatim>\<open>src/vericcl/semantics/slice.py\<close> and \<^verbatim>\<open>src/vericcl/semantics/collective.py\<close>: the identity
  of a slice (its source rank and its position inside that rank's input), the collectives and,
  for each of them, the contributors every output slot must hold (\<open>required_outputs\<close>).
  A \<^verbatim>\<open>frozenset\<close> of slice identifiers is an \<open>int set\<close>.
\<close>

section \<open>Slice identities\<close>

definition validate_slice_identity_input :: "int \<Rightarrow> string \<Rightarrow> int \<Rightarrow> int res" where
  "validate_slice_identity_input v field minimum =
     ensure (minimum \<le> v) (ValueError (field @ '' must be at least '' @ str_int minimum)) (Inr v)"

definition source_rank :: "int \<Rightarrow> int \<Rightarrow> int res" where
  "source_rank slice_id slice_count =
     bnd (validate_slice_identity_input slice_id ''slice_id'' 0) (\<lambda>i.
     bnd (validate_slice_identity_input slice_count ''slice_count'' 1) (\<lambda>n.
     Inr (i div n)))"

definition logical_slice_index :: "int \<Rightarrow> int \<Rightarrow> int res" where
  "logical_slice_index slice_id slice_count =
     bnd (validate_slice_identity_input slice_id ''slice_id'' 0) (\<lambda>i.
     bnd (validate_slice_identity_input slice_count ''slice_count'' 1) (\<lambda>n.
     Inr (i mod n)))"

section \<open>Collectives\<close>

datatype collective_kind =
    BROADCAST | REDUCE | SCATTER | GATHER | ALL_GATHER | ALL_REDUCE | ALL_TO_ALL | REDUCE_SCATTER

record collective_spec =
  kind :: collective_kind
  datatype_name :: string
  reduction_op :: "string option"
  root :: "int option"
  inplace :: bool

datatype output_slot = OutputSlot (slot_rank: int) (slot_offset: int)

instantiation output_slot :: linorder
begin

definition less_eq_output_slot :: "output_slot \<Rightarrow> output_slot \<Rightarrow> bool" where
  "less_eq_output_slot a b \<longleftrightarrow> (slot_rank a, slot_offset a) \<le> (slot_rank b, slot_offset b)"

definition less_output_slot :: "output_slot \<Rightarrow> output_slot \<Rightarrow> bool" where
  "less_output_slot a b \<longleftrightarrow> (slot_rank a, slot_offset a) < (slot_rank b, slot_offset b)"

instance
proof
  fix a b c :: output_slot
  show "a < b \<longleftrightarrow> a \<le> b \<and> \<not> b \<le> a"
    by (auto simp: less_eq_output_slot_def less_output_slot_def)
  show "a \<le> a" by (simp add: less_eq_output_slot_def)
  show "a \<le> b \<Longrightarrow> b \<le> c \<Longrightarrow> a \<le> c"
    unfolding less_eq_output_slot_def by (rule order_trans)
  show "a \<le> b \<Longrightarrow> b \<le> a \<Longrightarrow> a = b"
    unfolding less_eq_output_slot_def by (cases a; cases b) auto
  show "a \<le> b \<or> b \<le> a" unfolding less_eq_output_slot_def by (rule linear)
qed

end

fun output_slot_post_init :: "output_slot \<Rightarrow> output_slot res" where
  "output_slot_post_init (OutputSlot rank offset) =
     ensure (0 \<le> rank) (SemanticError ''output_slot.rank must be non-negative'')
    (ensure (0 \<le> offset) (SemanticError ''output_slot.offset must be non-negative'')
    (Inr (OutputSlot rank offset)))"

definition positive_int :: "int \<Rightarrow> string \<Rightarrow> int res" where
  "positive_int v field =
     ensure (0 \<le> v) (SemanticError (field @ '' must be non-negative''))
    (ensure (v \<noteq> 0) (SemanticError (field @ '' must be positive'')) (Inr v))"

definition rooted :: "collective_kind set" where
  "rooted = {BROADCAST, REDUCE, SCATTER, GATHER}"

definition kind_value :: "collective_kind \<Rightarrow> string" where
  "kind_value k = (case k of
     BROADCAST \<Rightarrow> ''broadcast'' | REDUCE \<Rightarrow> ''reduce'' | SCATTER \<Rightarrow> ''scatter''
   | GATHER \<Rightarrow> ''gather'' | ALL_GATHER \<Rightarrow> ''allgather'' | ALL_REDUCE \<Rightarrow> ''allreduce''
   | ALL_TO_ALL \<Rightarrow> ''alltoall'' | REDUCE_SCATTER \<Rightarrow> ''reduce_scatter'')"

definition validate_output_problem :: "collective_spec \<Rightarrow> int \<Rightarrow> int \<Rightarrow> unit res" where
  "validate_output_problem spec rank_count slice_count =
     bnd (positive_int rank_count ''rank_count'') (\<lambda>_.
     bnd (positive_int slice_count ''slice_count'') (\<lambda>_.
     bnd (if kind spec \<in> rooted then
            (case root spec of
               None \<Rightarrow> Inl (SemanticError (kind_value (kind spec) @ '' requires an integer root''))
             | Some r \<Rightarrow> ensure (\<not> (r < 0 \<or> rank_count \<le> r))
                 (SemanticError ''collective root is outside the rank range'') (Inr ()))
          else ensure (root spec = None)
                 (SemanticError (kind_value (kind spec) @ '' must not define root'')) (Inr ())) (\<lambda>_.
     if kind spec \<in> {SCATTER, ALL_TO_ALL, REDUCE_SCATTER} then
       ensure (slice_count mod rank_count = 0)
         (SemanticError ''slice count must be divisible by rank count'') (Inr ())
     else Inr ())))"

definition aggregate_contributors :: "int \<Rightarrow> int \<Rightarrow> int \<Rightarrow> int set" where
  "aggregate_contributors logical_address rank_count slice_count =
     set (map (\<lambda>rank. rank * slice_count + logical_address) (py_range 0 rank_count))"

text \<open>The assignments \<^verbatim>\<open>outputs[slot] = contributors\<close> of each branch, in loop order.\<close>

definition output_assignments ::
    "collective_kind \<Rightarrow> int \<Rightarrow> int \<Rightarrow> int \<Rightarrow> (output_slot \<times> int set) list" where
  "output_assignments k rt rank_count slice_count =
    (let quotient = slice_count div rank_count; ranks = py_range 0 rank_count;
         addresses = py_range 0 slice_count in
     case k of
       BROADCAST \<Rightarrow>
         concat (map (\<lambda>rank. map (\<lambda>a. (OutputSlot rank a, {rt * slice_count + a})) addresses) ranks)
     | REDUCE \<Rightarrow>
         map (\<lambda>a. (OutputSlot rt a, aggregate_contributors a rank_count slice_count)) addresses
     | SCATTER \<Rightarrow>
         map (\<lambda>a. (OutputSlot (a div quotient) (a mod quotient), {rt * slice_count + a})) addresses
     | GATHER \<Rightarrow>
         concat (map (\<lambda>src. map (\<lambda>a. (OutputSlot rt (src * slice_count + a),
             {src * slice_count + a})) addresses) ranks)
     | ALL_GATHER \<Rightarrow>
         concat (map (\<lambda>rank. concat (map (\<lambda>src. map (\<lambda>a.
             (OutputSlot rank (src * slice_count + a), {src * slice_count + a})) addresses) ranks)) ranks)
     | ALL_REDUCE \<Rightarrow>
         concat (map (\<lambda>rank. map (\<lambda>a. (OutputSlot rank a,
             aggregate_contributors a rank_count slice_count)) addresses) ranks)
     | ALL_TO_ALL \<Rightarrow>
         concat (map (\<lambda>src. map (\<lambda>a. (OutputSlot (a div quotient) (src * quotient + a mod quotient),
             {src * slice_count + a})) addresses) ranks)
     | REDUCE_SCATTER \<Rightarrow>
         map (\<lambda>a. (OutputSlot (a div quotient) (a mod quotient),
             aggregate_contributors a rank_count slice_count)) addresses)"

definition root_value :: "collective_spec \<Rightarrow> int" where
  "root_value spec = (case root spec of Some r \<Rightarrow> r | None \<Rightarrow> -1)"

definition required_outputs ::
    "collective_spec \<Rightarrow> int \<Rightarrow> int \<Rightarrow> (output_slot, int set) dict res" where
  "required_outputs spec rank_count slice_count =
     bnd (validate_output_problem spec rank_count slice_count) (\<lambda>_.
     Inr (dict_of (output_assignments (kind spec) (root_value spec) rank_count slice_count)))"

section \<open>Slice identities are positions in a grid\<close>

lemma source_rank_Inr_iff [res_simps]:
  "source_rank i n = Inr r \<longleftrightarrow> 0 \<le> i \<and> 1 \<le> n \<and> r = i div n"
  by (auto simp: source_rank_def validate_slice_identity_input_def res_simps)

lemma logical_slice_index_Inr_iff [res_simps]:
  "logical_slice_index i n = Inr a \<longleftrightarrow> 0 \<le> i \<and> 1 \<le> n \<and> a = i mod n"
  by (auto simp: logical_slice_index_def validate_slice_identity_input_def res_simps)

section \<open>What the validation accepts\<close>

definition valid_problem :: "collective_spec \<Rightarrow> int \<Rightarrow> int \<Rightarrow> bool" where
  "valid_problem spec ranks n \<longleftrightarrow> 0 < ranks \<and> 0 < n
     \<and> (if kind spec \<in> rooted then \<exists>r. root spec = Some r \<and> 0 \<le> r \<and> r < ranks else root spec = None)
     \<and> (kind spec \<in> {SCATTER, ALL_TO_ALL, REDUCE_SCATTER} \<longrightarrow> n mod ranks = 0)"

lemma validate_output_problem_iff [res_simps]:
  "validate_output_problem spec ranks n = Inr u \<longleftrightarrow> valid_problem spec ranks n"
proof (cases "0 < ranks \<and> 0 < n")
  case True
  then show ?thesis
    by (cases "root spec")
       (auto simp: validate_output_problem_def valid_problem_def positive_int_def res_simps)
next
  case False
  then show ?thesis
    by (auto simp: validate_output_problem_def valid_problem_def positive_int_def res_simps)
qed

lemma required_outputs_Inr_iff:
  "required_outputs spec ranks n = Inr d \<longleftrightarrow> valid_problem spec ranks n
     \<and> d = dict_of (output_assignments (kind spec) (root_value spec) ranks n)"
  by (auto simp: required_outputs_def res_simps)

lemma valid_problem_root:
  "valid_problem spec ranks n \<Longrightarrow> kind spec \<in> rooted \<Longrightarrow> 0 \<le> root_value spec \<and> root_value spec < ranks"
  by (auto simp: valid_problem_def root_value_def)

lemma quotient_facts:
  assumes "valid_problem spec ranks n" "kind spec \<in> {SCATTER, ALL_TO_ALL, REDUCE_SCATTER}"
  shows "0 < n div ranks" "ranks * (n div ranks) = n"
proof -
  have *: "0 < ranks" "0 < n" "n mod ranks = 0"
    using assms by (auto simp: valid_problem_def)
  then show "ranks * (n div ranks) = n" by (simp add: mult_div_mod_eq minus_mod_eq_mult_div [symmetric])
  with * show "0 < n div ranks" by (metis zero_less_mult_pos)
qed

section \<open>Every slot is assigned once\<close>

lemma keys_product:
  "map fst (concat (map (\<lambda>r. map (\<lambda>a. (f r a, g r a)) as) rs))
     = map (\<lambda>(r, a). f r a) (List.product rs as)"
  by (induction rs) auto

lemma concat_map_product:
  "concat (map (\<lambda>r. map (h r) as) rs) = map (\<lambda>(r, a). h r a) (List.product rs as)"
  by (induction rs) auto

lemma distinct_map_product:
  assumes "distinct rs" "distinct as" "inj_on (\<lambda>(r, a). f r a) (set rs \<times> set as)"
  shows "distinct (map (\<lambda>(r, a). f r a) (List.product rs as))"
  using assms by (simp add: distinct_map distinct_product)

lemma div_mod_inj: "a div q = b div q \<Longrightarrow> a mod q = b mod q \<Longrightarrow> a = b" for a b q :: int
  by (metis div_mult_mod_eq)

lemma block_inj:
  "r * n + a = r' * n + a' \<Longrightarrow> 0 \<le> a \<Longrightarrow> a < n \<Longrightarrow> 0 \<le> a' \<Longrightarrow> a' < n \<Longrightarrow> r = r' \<and> a = a'"
  for r n a r' a' :: int
  by (metis div_mult_add mod_mult_add)

lemma output_assignments_wf:
  assumes valid: "valid_problem spec ranks n"
  shows "wf_dict (output_assignments (kind spec) rt ranks n)"
proof (cases "kind spec")
  case SCATTER
  then show ?thesis
    by (auto simp: output_assignments_def Let_def comp_def distinct_map inj_on_def intro: div_mod_inj)
next
  case REDUCE_SCATTER
  then show ?thesis
    by (auto simp: output_assignments_def Let_def comp_def distinct_map inj_on_def intro: div_mod_inj)
next
  case REDUCE
  then show ?thesis
    by (auto simp: output_assignments_def Let_def comp_def distinct_map inj_on_def)
next
  case BROADCAST
  then show ?thesis
    by (auto simp: output_assignments_def Let_def keys_product
        intro!: distinct_map_product inj_onI)
next
  case ALL_REDUCE
  then show ?thesis
    by (auto simp: output_assignments_def Let_def keys_product
        intro!: distinct_map_product inj_onI)
next
  case GATHER
  then show ?thesis
    by (auto simp: output_assignments_def Let_def keys_product
        intro!: distinct_map_product inj_onI dest: block_inj)
next
  case ALL_TO_ALL
  then have "0 < n div ranks" using valid by (intro quotient_facts) auto
  then have "a = b \<and> r = s"
    if "a div (n div ranks) = b div (n div ranks)"
      "r * (n div ranks) + a mod (n div ranks) = s * (n div ranks) + b mod (n div ranks)" for a b r s
    using that block_inj [of r "n div ranks" "a mod (n div ranks)" s "b mod (n div ranks)"]
    by (auto intro: div_mod_inj)
  with ALL_TO_ALL show ?thesis
    by (auto simp: output_assignments_def Let_def keys_product
        intro!: distinct_map_product inj_onI)
next
  case ALL_GATHER
  have "distinct (concat (map (\<lambda>rank. map (\<lambda>(src, a). OutputSlot rank (src * n + a))
      (List.product (py_range 0 ranks) (py_range 0 n))) (py_range 0 ranks)))"
    by (intro distinct_concat_map distinct_map_product inj_onI) (auto dest: block_inj)
  with ALL_GATHER show ?thesis
    by (simp add: output_assignments_def Let_def map_concat comp_def concat_map_product case_prod_unfold)
qed

lemma required_outputs_assignments:
  "required_outputs spec ranks n = Inr d
    \<Longrightarrow> d = output_assignments (kind spec) (root_value spec) ranks n \<and> wf_dict d"
  using output_assignments_wf by (auto simp: required_outputs_Inr_iff dict_of_distinct)

section \<open>What the slots hold\<close>

text \<open>
  The set of slices \<open>src * n + a\<close> that share the position \<open>a\<close> and whose source ranks are
  \<open>srcs\<close>: the shape of every contributor set of a collective.
\<close>

definition column :: "int \<Rightarrow> int set \<Rightarrow> int \<Rightarrow> int set" where
  "column n srcs a = (\<lambda>src. src * n + a) ` srcs"

lemma aggregate_contributors_column:
  "aggregate_contributors a ranks n = column n {0..<ranks} a"
  by (auto simp: aggregate_contributors_def column_def)

lemma singleton_column: "{src * n + a} = column n {src} a"
  by (simp add: column_def)

lemma column_mod: "0 \<le> a \<Longrightarrow> a < n \<Longrightarrow> x \<in> column n srcs a \<Longrightarrow> x mod n = a"
  by (auto simp: column_def)

lemma column_div_image:
  assumes "0 \<le> a" "a < n"
  shows "(\<lambda>x. x div n) ` column n srcs a = srcs"
proof -
  have "(r * n + a) div n = r" for r using assms by simp
  then show ?thesis by (simp add: column_def image_image)
qed

lemma column_inj:
  "0 \<le> a \<Longrightarrow> a < n \<Longrightarrow> 0 \<le> b \<Longrightarrow> b < n \<Longrightarrow> srcs \<noteq> {} \<Longrightarrow>
    column n srcs a = column n srcs' b \<longleftrightarrow> srcs = srcs' \<and> a = b"
  by (metis column_div_image column_mod all_not_in_conv image_is_empty column_def)

lemma column_bounds:
  "0 \<le> a \<Longrightarrow> a < n \<Longrightarrow> srcs \<subseteq> {0..<ranks} \<Longrightarrow> column n srcs a \<subseteq> {0..<ranks * n}"
proof -
  assume a: "0 \<le> a" "a < n" and srcs: "srcs \<subseteq> {0..<ranks}"
  have "0 \<le> src * n + a \<and> src * n + a < ranks * n" if "src \<in> srcs" for src
  proof -
    have "0 \<le> src" "src < ranks" using srcs that by auto
    with a show ?thesis using block_bound [of src ranks a n] by simp
  qed
  then show ?thesis by (auto simp: column_def)
qed

text \<open>
  The logical position and the source ranks that the slot \<open>(rank, offset)\<close> of a collective
  has to hold, written per slot instead of per loop iteration.
\<close>

definition slot_demand :: "collective_kind \<Rightarrow> int \<Rightarrow> int \<Rightarrow> int \<Rightarrow> output_slot \<Rightarrow> (int \<times> int set) option" where
  "slot_demand k rt ranks n slot =
    (let r = slot_rank slot; off = slot_offset slot; q = n div ranks; everyone = {0..<ranks} in
     if r < 0 \<or> ranks \<le> r \<or> off < 0 then None
     else case k of
       BROADCAST \<Rightarrow> if off < n then Some (off, {rt}) else None
     | REDUCE \<Rightarrow> if r = rt \<and> off < n then Some (off, everyone) else None
     | SCATTER \<Rightarrow> if off < q then Some (r * q + off, {rt}) else None
     | GATHER \<Rightarrow> if r = rt \<and> off < ranks * n then Some (off mod n, {off div n}) else None
     | ALL_GATHER \<Rightarrow> if off < ranks * n then Some (off mod n, {off div n}) else None
     | ALL_REDUCE \<Rightarrow> if off < n then Some (off, everyone) else None
     | ALL_TO_ALL \<Rightarrow> if off < n then Some (r * q + off mod q, {off div q}) else None
     | REDUCE_SCATTER \<Rightarrow> if off < q then Some (r * q + off, everyone) else None)"

text \<open>A slot \<open>(x div q, x mod q)\<close> of a position below \<open>m * q\<close>, and back.\<close>

lemma ex_block_iff:
  assumes "0 < (q::int)" "m * q = n"
  shows "(\<exists>x. 0 \<le> x \<and> x < n \<and> r = x div q \<and> off = x mod q \<and> P x)
    \<longleftrightarrow> 0 \<le> r \<and> r < m \<and> 0 \<le> off \<and> off < q \<and> P (r * q + off)" (is "?L \<longleftrightarrow> ?R")
proof
  assume ?L
  then obtain x where x: "0 \<le> x" "x < n" "r = x div q" "off = x mod q" "P x" by blast
  moreover have "r * q + off = x" using x by simp
  ultimately show ?R using block_split [of q x m] assms by simp
next
  assume ?R
  then show ?L using block_bound [of r m off q] assms
    by (intro exI [of _ "r * q + off"]) auto
qed

lemma ex_block_sum_iff:
  assumes "0 < (n::int)"
  shows "(\<exists>src a. 0 \<le> src \<and> src < m \<and> 0 \<le> a \<and> a < n \<and> off = src * n + a \<and> P src a)
    \<longleftrightarrow> 0 \<le> off \<and> off < m * n \<and> P (off div n) (off mod n)" (is "?L \<longleftrightarrow> ?R")
proof
  assume ?L
  then obtain src a where x: "0 \<le> src" "src < m" "0 \<le> a" "a < n" "off = src * n + a" "P src a" by blast
  then have "off div n = src" "off mod n = a" by simp_all
  moreover have "0 \<le> off" using x by simp
  ultimately show ?R using block_bound [of src m a n] x by simp
next
  assume ?R
  then show ?L using block_split [of n off m] assms
    by (intro exI [of _ "off div n"] exI [of _ "off mod n"]) simp
qed

lemma mem_pairs:
  "(k, v) \<in> set (concat (map (\<lambda>r. map (\<lambda>a. (f r a, g r a)) as) rs))
    \<longleftrightarrow> (\<exists>r\<in>set rs. \<exists>a\<in>set as. k = f r a \<and> v = g r a)"
  by auto

lemma mem_pairs3:
  "(k, v) \<in> set (concat (map (\<lambda>r. concat (map (\<lambda>s. map (\<lambda>a. (f r s a, g r s a)) as) ss)) rs))
    \<longleftrightarrow> (\<exists>r\<in>set rs. \<exists>s\<in>set ss. \<exists>a\<in>set as. k = f r s a \<and> v = g r s a)"
  by auto

lemma bex_upto: "(\<exists>x\<in>set (py_range 0 m). P x) \<longleftrightarrow> (\<exists>x. 0 \<le> x \<and> x < m \<and> P x)"
  by auto

lemma output_assignments_mem:
  assumes valid: "valid_problem spec ranks n"
  shows "(OutputSlot r off, C) \<in> set (output_assignments (kind spec) (root_value spec) ranks n)
    \<longleftrightarrow> (\<exists>a srcs. slot_demand (kind spec) (root_value spec) ranks n (OutputSlot r off) = Some (a, srcs)
          \<and> C = column n srcs a)"
proof -
  have pos: "0 < ranks" "0 < n" using valid by (auto simp: valid_problem_def)
  have rt: "kind spec \<in> rooted \<Longrightarrow> 0 \<le> root_value spec \<and> root_value spec < ranks"
    by (rule valid_problem_root [OF valid])
  note q = quotient_facts [OF valid]
  show ?thesis
  proof (cases "kind spec")
    case BROADCAST
    have "(OutputSlot r off, C) \<in> set (output_assignments (kind spec) (root_value spec) ranks n)
      \<longleftrightarrow> 0 \<le> r \<and> r < ranks \<and> 0 \<le> off \<and> off < n \<and> C = column n {root_value spec} off"
      using BROADCAST by (simp only: output_assignments_def Let_def singleton_column mem_pairs bex_upto
          collective_kind.case output_slot.inject) blast
    then show ?thesis using BROADCAST by (auto simp: slot_demand_def Let_def)
  next
    case REDUCE
    with pos rt show ?thesis
      by (auto simp: output_assignments_def slot_demand_def Let_def aggregate_contributors_column rooted_def)
  next
    case ALL_REDUCE
    have "(OutputSlot r off, C) \<in> set (output_assignments (kind spec) (root_value spec) ranks n)
      \<longleftrightarrow> 0 \<le> r \<and> r < ranks \<and> 0 \<le> off \<and> off < n \<and> C = column n {0..<ranks} off"
      using ALL_REDUCE by (simp only: output_assignments_def Let_def aggregate_contributors_column mem_pairs bex_upto
          collective_kind.case output_slot.inject) blast
    then show ?thesis using ALL_REDUCE by (auto simp: slot_demand_def Let_def)
  next
    case SCATTER
    have "(OutputSlot r off, C) \<in> set (output_assignments (kind spec) (root_value spec) ranks n)
      \<longleftrightarrow> (\<exists>x. 0 \<le> x \<and> x < n \<and> r = x div (n div ranks) \<and> off = x mod (n div ranks)
            \<and> C = column n {root_value spec} x)"
      using SCATTER by (auto simp: output_assignments_def Let_def singleton_column)
    also have "\<dots> \<longleftrightarrow> 0 \<le> r \<and> r < ranks \<and> 0 \<le> off \<and> off < n div ranks
            \<and> C = column n {root_value spec} (r * (n div ranks) + off)"
      by (rule ex_block_iff) (use q SCATTER in auto)
    finally show ?thesis using SCATTER by (auto simp: slot_demand_def Let_def)
  next
    case REDUCE_SCATTER
    have "(OutputSlot r off, C) \<in> set (output_assignments (kind spec) (root_value spec) ranks n)
      \<longleftrightarrow> (\<exists>x. 0 \<le> x \<and> x < n \<and> r = x div (n div ranks) \<and> off = x mod (n div ranks)
            \<and> C = column n {0..<ranks} x)"
      using REDUCE_SCATTER by (auto simp: output_assignments_def Let_def aggregate_contributors_column)
    also have "\<dots> \<longleftrightarrow> 0 \<le> r \<and> r < ranks \<and> 0 \<le> off \<and> off < n div ranks
            \<and> C = column n {0..<ranks} (r * (n div ranks) + off)"
      by (rule ex_block_iff) (use q REDUCE_SCATTER in auto)
    finally show ?thesis using REDUCE_SCATTER by (auto simp: slot_demand_def Let_def)
  next
    case GATHER
    have "(OutputSlot r off, C) \<in> set (output_assignments (kind spec) (root_value spec) ranks n)
      \<longleftrightarrow> (\<exists>src a. 0 \<le> src \<and> src < ranks \<and> 0 \<le> a \<and> a < n \<and> off = src * n + a
            \<and> (r = root_value spec \<and> C = column n {src} a))"
      using GATHER by (simp only: output_assignments_def Let_def singleton_column mem_pairs bex_upto
          collective_kind.case output_slot.inject) blast
    also have "\<dots> \<longleftrightarrow> 0 \<le> off \<and> off < ranks * n
            \<and> (r = root_value spec \<and> C = column n {off div n} (off mod n))"
      by (rule ex_block_sum_iff) (use pos in auto)
    finally show ?thesis using GATHER rt by (auto simp: slot_demand_def Let_def rooted_def)
  next
    case ALL_GATHER
    have "(OutputSlot r off, C) \<in> set (output_assignments (kind spec) (root_value spec) ranks n)
      \<longleftrightarrow> (\<exists>src a. 0 \<le> src \<and> src < ranks \<and> 0 \<le> a \<and> a < n \<and> off = src * n + a
            \<and> ((0 \<le> r \<and> r < ranks) \<and> C = column n {src} a))"
      using ALL_GATHER by (simp only: output_assignments_def Let_def singleton_column mem_pairs3 bex_upto
          collective_kind.case output_slot.inject) blast
    also have "\<dots> \<longleftrightarrow> 0 \<le> off \<and> off < ranks * n
            \<and> ((0 \<le> r \<and> r < ranks) \<and> C = column n {off div n} (off mod n))"
      by (rule ex_block_sum_iff) (use pos in auto)
    finally show ?thesis using ALL_GATHER by (auto simp: slot_demand_def Let_def)
  next
    case ALL_TO_ALL
    let ?q = "n div ranks"
    have qq: "0 < ?q" "ranks * ?q = n" using q ALL_TO_ALL by auto
    have "(OutputSlot r off, C) \<in> set (output_assignments (kind spec) (root_value spec) ranks n)
      \<longleftrightarrow> (\<exists>src. 0 \<le> src \<and> src < ranks \<and> (\<exists>x. 0 \<le> x \<and> x < n \<and> r = x div ?q
            \<and> off = src * ?q + x mod ?q \<and> C = column n {src} x))"
      using ALL_TO_ALL by (simp only: output_assignments_def Let_def singleton_column mem_pairs bex_upto
          collective_kind.case output_slot.inject) blast
    also have "\<dots> \<longleftrightarrow> (\<exists>src. 0 \<le> src \<and> src < ranks \<and> (\<exists>x. 0 \<le> x \<and> x < n \<and> r = x div ?q
            \<and> off - src * ?q = x mod ?q \<and> C = column n {src} x))"
      by (simp only: diff_eq_eq add.commute)
    also have "\<dots> \<longleftrightarrow> (\<exists>src b. 0 \<le> src \<and> src < ranks \<and> 0 \<le> b \<and> b < ?q \<and> off = src * ?q + b
            \<and> ((0 \<le> r \<and> r < ranks) \<and> C = column n {src} (r * ?q + b)))"
    proof -
      have step: "(0 \<le> r \<and> r < ranks \<and> 0 \<le> off - src * ?q \<and> off - src * ?q < ?q
          \<and> C = column n {src} (r * ?q + (off - src * ?q)))
        \<longleftrightarrow> (\<exists>b. 0 \<le> b \<and> b < ?q \<and> off = src * ?q + b
          \<and> ((0 \<le> r \<and> r < ranks) \<and> C = column n {src} (r * ?q + b)))" for src
        by (auto intro: exI [of _ "off - src * ?q"])
      show ?thesis unfolding ex_block_iff [OF qq] step by simp
    qed
    also have "\<dots> \<longleftrightarrow> 0 \<le> off \<and> off < ranks * ?q
            \<and> ((0 \<le> r \<and> r < ranks) \<and> C = column n {off div ?q} (r * ?q + off mod ?q))"
      by (rule ex_block_sum_iff) (use qq in auto)
    finally show ?thesis using ALL_TO_ALL qq by (auto simp: slot_demand_def Let_def)
  qed
qed

lemma required_outputs_lookup:
  assumes "required_outputs spec ranks n = Inr d"
  shows "map_of d slot
    = map_option (\<lambda>(a, srcs). column n srcs a) (slot_demand (kind spec) (root_value spec) ranks n slot)"
proof -
  obtain r off where slot: "slot = OutputSlot r off" by (cases slot)
  have valid: "valid_problem spec ranks n"
    and d: "d = output_assignments (kind spec) (root_value spec) ranks n" "wf_dict d"
    using assms required_outputs_assignments [OF assms] by (auto simp: required_outputs_Inr_iff)
  have *: "map_of d slot = Some C \<longleftrightarrow> (\<exists>a srcs. slot_demand (kind spec) (root_value spec) ranks n slot
      = Some (a, srcs) \<and> C = column n srcs a)" for C
    using output_assignments_mem [OF valid, of r off C] d slot
    by (simp add: map_of_eq_Some_iff)
  show ?thesis
  proof (cases "slot_demand (kind spec) (root_value spec) ranks n slot")
    case None
    with * show ?thesis by (cases "map_of d slot") auto
  next
    case (Some p)
    with * show ?thesis by (cases p) auto
  qed
qed

lemma slot_demand_bounds:
  assumes "valid_problem spec ranks n"
    and "slot_demand (kind spec) (root_value spec) ranks n slot = Some (a, srcs)"
  shows "0 \<le> a" "a < n" "srcs \<noteq> {}" "srcs \<subseteq> {0..<ranks}"
    "0 \<le> slot_rank slot" "slot_rank slot < ranks" "0 \<le> slot_offset slot"
proof -
  have pos: "0 < ranks" "0 < n" using assms by (auto simp: valid_problem_def)
  note rt = valid_problem_root [OF assms(1)] and q = quotient_facts [OF assms(1)]
  note facts = pos rt q assms(2)
  have "0 \<le> a \<and> a < n \<and> srcs \<noteq> {} \<and> srcs \<subseteq> {0..<ranks}"
  proof (cases "kind spec")
    case SCATTER
    with facts block_bound [of "slot_rank slot" ranks "slot_offset slot" "n div ranks"] show ?thesis
      by (auto simp: slot_demand_def Let_def rooted_def split: if_splits)
  next
    case REDUCE_SCATTER
    with facts block_bound [of "slot_rank slot" ranks "slot_offset slot" "n div ranks"] show ?thesis
      by (auto simp: slot_demand_def Let_def split: if_splits)
  next
    case ALL_TO_ALL
    with facts block_bound [of "slot_rank slot" ranks "slot_offset slot mod (n div ranks)" "n div ranks"]
      block_split [of "n div ranks" "slot_offset slot" ranks]
    show ?thesis by (auto simp: slot_demand_def Let_def split: if_splits)
  next
    case GATHER
    with facts block_split [of n "slot_offset slot" ranks] show ?thesis
      by (auto simp: slot_demand_def Let_def split: if_splits)
  next
    case ALL_GATHER
    with facts block_split [of n "slot_offset slot" ranks] show ?thesis
      by (auto simp: slot_demand_def Let_def split: if_splits)
  qed (use facts in \<open>auto simp: slot_demand_def Let_def rooted_def split: if_splits\<close>)
  moreover have "0 \<le> slot_rank slot \<and> slot_rank slot < ranks \<and> 0 \<le> slot_offset slot"
    using assms(2) by (auto simp: slot_demand_def Let_def split: if_splits)
  ultimately show "0 \<le> a" "a < n" "srcs \<noteq> {}" "srcs \<subseteq> {0..<ranks}"
    "0 \<le> slot_rank slot" "slot_rank slot < ranks" "0 \<le> slot_offset slot" by auto
qed

text \<open>A rank's output slots have different contents: what a slot demands determines its offset.\<close>

lemma slot_demand_inj:
  assumes "valid_problem spec ranks n" "slot_demand (kind spec) (root_value spec) ranks n slot = Some d"
    and "slot_demand (kind spec) (root_value spec) ranks n slot' = Some d" "slot_rank slot = slot_rank slot'"
  shows "slot = slot'"
proof -
  note facts = quotient_facts [OF assms(1)] assms(2,3,4)
  have "slot_offset slot = slot_offset slot'"
  proof (cases "kind spec")
    case GATHER
    with facts show ?thesis by (auto simp: slot_demand_def Let_def split: if_splits) (metis div_mult_mod_eq)
  next
    case ALL_GATHER
    with facts show ?thesis by (auto simp: slot_demand_def Let_def split: if_splits) (metis div_mult_mod_eq)
  next
    case ALL_TO_ALL
    with facts show ?thesis by (auto simp: slot_demand_def Let_def split: if_splits) (metis div_mult_mod_eq)
  qed (use facts in \<open>auto simp: slot_demand_def Let_def split: if_splits\<close>)
  with assms(4) show ?thesis by (cases slot; cases slot') simp
qed

lemma column_content_inj:
  assumes "0 \<le> a" "a < n" "0 \<le> a'" "a' < n" "srcs \<noteq> {}" "column n srcs a = column n srcs' a'"
  shows "a = a'" "srcs = srcs'"
proof -
  have mem: "x \<in> column n S b \<longleftrightarrow> x mod n = b \<and> x div n \<in> S" if "0 \<le> b" "b < n" for x b S
    using that by (auto simp: column_def image_iff) (metis div_mult_mod_eq)
  obtain r where "r \<in> srcs" using assms(5) by blast
  then have "r * n + a \<in> column n srcs a" using assms(1,2) by (simp add: mem)
  then have "(r * n + a) mod n = a'" using assms(3,4,6) by (simp add: mem)
  with assms(1,2) show a: "a = a'" by simp
  show "srcs = srcs'"
  proof (intro set_eqI)
    fix r
    have "r \<in> srcs \<longleftrightarrow> r * n + a \<in> column n srcs a" "r \<in> srcs' \<longleftrightarrow> r * n + a \<in> column n srcs' a'"
      using assms(1-4) a by (simp_all add: mem)
    with assms(6) show "r \<in> srcs \<longleftrightarrow> r \<in> srcs'" by simp
  qed
qed

lemma required_outputs_inj:
  assumes "required_outputs spec ranks n = Inr d" "map_of d slot = Some C" "map_of d slot' = Some C" "slot_rank slot = slot_rank slot'"
  shows "slot = slot'"
proof -
  have valid: "valid_problem spec ranks n" using assms(1) by (auto simp: required_outputs_Inr_iff)
  obtain a srcs a' srcs' where dem: "slot_demand (kind spec) (root_value spec) ranks n slot = Some (a, srcs)"
    "slot_demand (kind spec) (root_value spec) ranks n slot' = Some (a', srcs')" "C = column n srcs a" "C = column n srcs' a'"
    using assms(2,3) unfolding required_outputs_lookup [OF assms(1)] by auto
  note b = slot_demand_bounds [OF valid dem(1)] slot_demand_bounds [OF valid dem(2)]
  have "column n srcs a = column n srcs' a'" using dem(3,4) by simp
  note eq = column_content_inj [OF b(1,2,8,9,3) this]
  show ?thesis using slot_demand_inj [OF valid dem(1)] dem(2) eq assms(4) by simp
qed

lemma required_outputs_content:
  assumes "required_outputs spec ranks n = Inr d" "map_of d slot = Some C"
  shows "finite C" "C \<noteq> {}" "0 \<le> slot_rank slot" "slot_rank slot < ranks" "0 \<le> slot_offset slot"
proof -
  have valid: "valid_problem spec ranks n" using assms(1) by (auto simp: required_outputs_Inr_iff)
  obtain a srcs where dem: "slot_demand (kind spec) (root_value spec) ranks n slot = Some (a, srcs)" "C = column n srcs a"
    using assms(2) unfolding required_outputs_lookup [OF assms(1)] by auto
  note b = slot_demand_bounds [OF valid dem(1)]
  have "finite srcs" using b(4) by (rule finite_subset) simp
  with b dem(2) show "finite C" "C \<noteq> {}" "0 \<le> slot_rank slot" "slot_rank slot < ranks" "0 \<le> slot_offset slot"
    by (auto simp: column_def)
qed

end
