(* ===== verification/Ranges.thy ===== *)
theory Ranges
  imports Collective
begin

text \<open>
  \<^verbatim>\<open>src/vericcl/input/models.py\<close> (the fields of a resolved request that the modelled components
  read) and \<^verbatim>\<open>src/vericcl/semantics/ranges.py\<close>: byte ranges of the original inputs, the directed-edge
  constraints bound to them, and how they survive another slice size or another numbering of the
  logical stages.

  Of \<^verbatim>\<open>ResolvedInput\<close>, the documents \<^verbatim>\<open>resolved_topology\<close> and \<^verbatim>\<open>request_config\<close> are
  represented by the entries the components look up: \<^verbatim>\<open>directed_links\<close> (source, destination
  and channel limit of each link) and the runtime's \<^verbatim>\<open>scratch_bytes_per_rank\<close> and
  \<^verbatim>\<open>tb_layout\<close>.
\<close>

section \<open>The resolved request\<close>

record hyperparameters =
  total_size_bytes :: int
  slice_size_bytes :: "int option"
  reference_slice_size_bytes :: "int option"

definition slice_count :: "hyperparameters \<Rightarrow> int option" where
  "slice_count h = map_option (\<lambda>s. total_size_bytes h div s) (slice_size_bytes h)"

record forbidden_transfer =
  ft_slice_id :: int
  ft_src_rank :: int
  ft_dst_rank :: int
  ft_stage_id :: int

record atom_constraints =
  stage_num :: "int option"
  forbidden_transfers :: "forbidden_transfer list"

record directed_link =
  link_src :: int
  link_dst :: int
  link_max_channels :: int

record resolved_input =
  collective :: collective_spec
  hyper :: hyperparameters
  atom_cons :: atom_constraints
  rank_count :: int
  solver_max_channels :: int
  directed_links :: "directed_link list"
  scratch_bytes_per_rank :: int
  tb_layout :: string

section \<open>Byte ranges\<close>

definition nonnegative :: "int \<Rightarrow> string \<Rightarrow> int res" where
  "nonnegative v name = ensure (0 \<le> v) (SemanticError (name @ '' must be a nonnegative integer'')) (Inr v)"

datatype data_range = DataRange (range_source: int) (range_start: int) (range_end: int)

instantiation data_range :: linorder
begin

definition less_eq_data_range :: "data_range \<Rightarrow> data_range \<Rightarrow> bool" where
  "less_eq_data_range a b \<longleftrightarrow>
     (range_source a, range_start a, range_end a) \<le> (range_source b, range_start b, range_end b)"

definition less_data_range :: "data_range \<Rightarrow> data_range \<Rightarrow> bool" where
  "less_data_range a b \<longleftrightarrow>
     (range_source a, range_start a, range_end a) < (range_source b, range_start b, range_end b)"

instance
proof
  fix a b c :: data_range
  show "a < b \<longleftrightarrow> a \<le> b \<and> \<not> b \<le> a"
    by (auto simp: less_eq_data_range_def less_data_range_def)
  show "a \<le> a" by (simp add: less_eq_data_range_def)
  show "a \<le> b \<Longrightarrow> b \<le> c \<Longrightarrow> a \<le> c"
    unfolding less_eq_data_range_def by (rule order_trans)
  show "a \<le> b \<Longrightarrow> b \<le> a \<Longrightarrow> a = b"
    unfolding less_eq_data_range_def by (cases a; cases b) auto
  show "a \<le> b \<or> b \<le> a" unfolding less_eq_data_range_def by (rule linear)
qed

end

definition data_range_post_init :: "data_range \<Rightarrow> data_range res" where
  "data_range_post_init d =
     bnd (nonnegative (range_source d) ''source_rank'') (\<lambda>_.
     bnd (nonnegative (range_start d) ''start'') (\<lambda>_.
     bnd (nonnegative (range_end d) ''end'') (\<lambda>_.
     ensure (range_start d < range_end d) (SemanticError ''source data range must be nonempty'') (Inr d))))"

definition intersects :: "data_range \<Rightarrow> data_range \<Rightarrow> bool" where
  "intersects a b \<longleftrightarrow> range_source a = range_source b
     \<and> max (range_start a) (range_start b) < min (range_end a) (range_end b)"

definition reference_slice_ids :: "data_range \<Rightarrow> int \<Rightarrow> int \<Rightarrow> int list res" where
  "reference_slice_ids data input_bytes reference_slice_bytes =
     bnd (nonnegative input_bytes ''input_bytes'') (\<lambda>_.
     ensure (input_bytes \<noteq> 0) (SemanticError ''input_bytes must be positive'') (
     bnd (nonnegative reference_slice_bytes ''reference_slice_bytes'') (\<lambda>_.
     ensure (reference_slice_bytes \<noteq> 0) (SemanticError ''reference_slice_bytes must be positive'') (
     ensure (\<not> (input_bytes mod reference_slice_bytes \<noteq> 0 \<or> input_bytes < range_end data))
       (SemanticError ''range is outside a legal reference partition'') (
     let count = input_bytes div reference_slice_bytes in
     Inr (map (\<lambda>index. range_source data * count + index)
       (py_range (range_start data div reference_slice_bytes)
                 ((range_end data - 1) div reference_slice_bytes + 1))))))))"

section \<open>Constraints\<close>

record edge_ban =
  ban_data :: data_range
  ban_src_rank :: int
  ban_dst_rank :: int
  ban_stage_id :: int
  ban_original_stage_id :: int

record constraint_set =
  bans :: "edge_ban list"
  cs_rank_count :: int
  fixed_stage_count :: "int option"

definition allows :: "constraint_set \<Rightarrow> data_range list \<Rightarrow> int \<Rightarrow> int \<Rightarrow> int \<Rightarrow> bool res" where
  "allows cs contributors src_rank dst_rank stage_id =
     bnd (nonnegative src_rank ''src_rank'') (\<lambda>_.
     bnd (nonnegative dst_rank ''dst_rank'') (\<lambda>_.
     bnd (nonnegative stage_id ''stage_id'') (\<lambda>_.
     if cs_rank_count cs \<le> src_rank \<or> cs_rank_count cs \<le> dst_rank \<or> src_rank = dst_rank then Inr False
     else if (case fixed_stage_count cs of None \<Rightarrow> False | Some k \<Rightarrow> k \<le> stage_id) then Inr False
     else ensure (contributors \<noteq> []) (SemanticError ''constraint check needs nonempty source ranges'') (
       Inr (\<not> (\<exists>ban\<in>set (bans cs).
         (ban_src_rank ban, ban_dst_rank ban, ban_stage_id ban) = (src_rank, dst_rank, stage_id)
         \<and> (\<exists>piece\<in>set contributors. intersects (ban_data ban) piece)))))))"

definition check_stage_entry :: "int \<Rightarrow> int \<times> int list \<Rightarrow> unit res" where
  "check_stage_entry new_stage_count entry =
     (case entry of (old, targets) \<Rightarrow>
       bnd (nonnegative old ''old stage'') (\<lambda>_.
       ensure (targets \<noteq> [] \<and> distinct targets)
         (SemanticError ''stage mapping targets must be nonempty and unique'') (
       check_each (\<lambda>target. bnd (nonnegative target ''target stage'') (\<lambda>_.
         ensure (target < new_stage_count)
           (SemanticError ''stage mapping target is outside new stage count'') (Inr ()))) targets)))"

definition stage_targets :: "(int, int list) dict \<Rightarrow> int \<Rightarrow> int list" where
  "stage_targets mapping stage = dict_get mapping stage []"

definition remap_stages :: "constraint_set \<Rightarrow> (int, int list) dict \<Rightarrow> int \<Rightarrow> constraint_set res" where
  "remap_stages cs mapping new_stage_count =
     bnd (nonnegative new_stage_count ''new_stage_count'') (\<lambda>_.
     ensure (\<not> (new_stage_count = 0 \<or> (case fixed_stage_count cs of None \<Rightarrow> False | Some k \<Rightarrow> k \<noteq> new_stage_count)))
       (SemanticError ''user-fixed stage count cannot change'') (
     bnd (check_each (\<lambda>ban. ensure (\<not> (map_of mapping (ban_stage_id ban) = None
             \<or> stage_targets mapping (ban_stage_id ban) = []))
           (SemanticError ''stage mapping does not cover a restricted logical stage'') (Inr ())) (bans cs)) (\<lambda>_.
     bnd (check_each (check_stage_entry new_stage_count) mapping) (\<lambda>_.
     Inr (cs\<lparr>bans := concat (map (\<lambda>ban. map (\<lambda>stage. ban\<lparr>ban_stage_id := stage\<rparr>)
       (stage_targets mapping (ban_stage_id ban))) (bans cs))\<rparr>)))))"

text \<open>Python's \<^verbatim>\<open>a or b\<close> on optional integers: zero counts as absent.\<close>

definition int_or :: "int option \<Rightarrow> int option \<Rightarrow> int option" where
  "int_or a b = (case a of Some v \<Rightarrow> if v = 0 then b else a | None \<Rightarrow> b)"

definition bind_ban :: "resolved_input \<Rightarrow> int \<Rightarrow> forbidden_transfer \<Rightarrow> edge_ban res" where
  "bind_ban inputs reference item =
     (let count = total_size_bytes (hyper inputs) div reference in
      ensure (count \<noteq> 0) ZeroDivisionError (
      let rank = ft_slice_id item div count; index = ft_slice_id item mod count in
      ensure (rank < rank_count inputs)
        (SemanticError ''constraint source slice is outside the reference partition'') (
      bnd (data_range_post_init (DataRange rank (index * reference) ((index + 1) * reference))) (\<lambda>data.
      Inr \<lparr>ban_data = data, ban_src_rank = ft_src_rank item, ban_dst_rank = ft_dst_rank item,
           ban_stage_id = ft_stage_id item, ban_original_stage_id = ft_stage_id item\<rparr>))))"

definition bind_constraints :: "resolved_input \<Rightarrow> constraint_set res" where
  "bind_constraints inputs =
     (let h = hyper inputs; forbidden = forbidden_transfers (atom_cons inputs);
          reference = int_or (reference_slice_size_bytes h) (slice_size_bytes h) in
      ensure (\<not> (forbidden \<noteq> [] \<and> reference = None))
        (SemanticError ''reference slice size is required to bind hard constraints'') (
      ensure (reference \<noteq> Some 0) ZeroDivisionError (
      bnd (map_res (bind_ban inputs (case reference of Some r \<Rightarrow> r | None \<Rightarrow> 0)) forbidden) (\<lambda>bs.
      Inr \<lparr>bans = bs, cs_rank_count = rank_count inputs,
           fixed_stage_count = stage_num (atom_cons inputs)\<rparr>))))"

section \<open>Ranges as sets of bytes\<close>

definition range_bytes :: "data_range \<Rightarrow> (int \<times> int) set" where
  "range_bytes d = {(range_source d, b) | b. range_start d \<le> b \<and> b < range_end d}"

lemma nonnegative_Inr_iff [res_simps]: "nonnegative v name = Inr w \<longleftrightarrow> 0 \<le> v \<and> w = v"
  by (auto simp: nonnegative_def res_simps)

lemma data_range_post_init_iff [res_simps]:
  "data_range_post_init d = Inr d' \<longleftrightarrow>
     0 \<le> range_source d \<and> 0 \<le> range_start d \<and> range_start d < range_end d \<and> d' = d"
  by (auto simp: data_range_post_init_def res_simps)

lemma intersects_bytes: "intersects a b \<longleftrightarrow> range_bytes a \<inter> range_bytes b \<noteq> {}"
proof
  assume "intersects a b"
  then have "(range_source a, max (range_start a) (range_start b)) \<in> range_bytes a \<inter> range_bytes b"
    by (auto simp: intersects_def range_bytes_def)
  then show "range_bytes a \<inter> range_bytes b \<noteq> {}" by blast
qed (auto simp: intersects_def range_bytes_def)

text \<open>The range of original bytes that slice \<open>i\<close> of a partition into slices of \<open>S\<close> bytes names.\<close>

definition slice_range :: "int \<Rightarrow> int \<Rightarrow> int \<Rightarrow> data_range" where
  "slice_range M S i = (let n = M div S in DataRange (i div n) (i mod n * S) ((i mod n + 1) * S))"

lemma interval_meets_block:
  assumes "0 < (S::int)" "a < b"
  shows "max a (k * S) < min b ((k + 1) * S) \<longleftrightarrow> a div S \<le> k \<and> k \<le> (b - 1) div S"
proof -
  have "a div S \<le> k \<longleftrightarrow> a < (k + 1) * S"
    using int_div_less_iff [OF assms(1), of a "k + 1"] by simp
  moreover have "k \<le> (b - 1) div S \<longleftrightarrow> k * S < b"
    using int_le_div_iff [OF assms(1), of k "b - 1"] by simp
  moreover have "k * S < (k + 1) * S" using assms(1) by simp
  ultimately show ?thesis using assms(2) by auto
qed

lemma reference_slice_ids_Inr_iff:
  "reference_slice_ids d M S = Inr ids \<longleftrightarrow> 0 < M \<and> 0 < S \<and> M mod S = 0 \<and> range_end d \<le> M
     \<and> ids = map (\<lambda>i. range_source d * (M div S) + i) (py_range (range_start d div S) ((range_end d - 1) div S + 1))"
  by (auto simp: reference_slice_ids_def res_simps Let_def)

text \<open>The reference slices of a range are exactly the slices that share a byte with it.\<close>

lemma reference_slice_ids_mem:
  assumes ids: "reference_slice_ids d M S = Inr ids" and d: "data_range_post_init d = Inr d"
    and i: "0 \<le> i"
  shows "i \<in> set ids \<longleftrightarrow> intersects (slice_range M S i) d"
proof -
  let ?n = "M div S"
  have *: "0 < M" "0 < S" "M mod S = 0" "range_end d \<le> M" "range_start d < range_end d"
    "0 \<le> range_start d"
    and eq: "ids = map (\<lambda>i. range_source d * ?n + i)
      (py_range (range_start d div S) ((range_end d - 1) div S + 1))"
    using ids d by (simp_all add: reference_slice_ids_Inr_iff res_simps)
  have M: "?n * S = M" using * by (metis add.right_neutral div_mult_mod_eq)
  have last: "(range_end d - 1) div S < ?n" using * M by (simp add: int_div_less_iff)
  have first: "0 \<le> range_start d div S" using * by (simp add: pos_imp_zdiv_nonneg_iff)
  have n: "0 < ?n" using M * by (metis zero_less_mult_pos2)
  have "i \<in> set ids \<longleftrightarrow> (\<exists>k. range_start d div S \<le> k \<and> k \<le> (range_end d - 1) div S
      \<and> i = range_source d * ?n + k)"
    by (auto simp: eq intro: exI [of _ "i - range_source d * ?n"])
  also have "\<dots> \<longleftrightarrow> range_source d = i div ?n \<and> range_start d div S \<le> i mod ?n
      \<and> i mod ?n \<le> (range_end d - 1) div S"
  proof
    assume "\<exists>k. range_start d div S \<le> k \<and> k \<le> (range_end d - 1) div S \<and> i = range_source d * ?n + k"
    then obtain k where k: "range_start d div S \<le> k" "k \<le> (range_end d - 1) div S" "i = range_source d * ?n + k"
      by blast
    then have "0 \<le> k" "k < ?n" using first last by linarith+
    then have "i div ?n = range_source d" "i mod ?n = k" by (simp_all add: k(3))
    with k show "range_source d = i div ?n \<and> range_start d div S \<le> i mod ?n
      \<and> i mod ?n \<le> (range_end d - 1) div S" by simp
  next
    assume "range_source d = i div ?n \<and> range_start d div S \<le> i mod ?n \<and> i mod ?n \<le> (range_end d - 1) div S"
    then show "\<exists>k. range_start d div S \<le> k \<and> k \<le> (range_end d - 1) div S \<and> i = range_source d * ?n + k"
      by (metis div_mult_mod_eq)
  qed
  also have "\<dots> \<longleftrightarrow> intersects (slice_range M S i) d"
    using interval_meets_block [of S "range_start d" "range_end d" "i mod ?n"] *
    by (auto simp: intersects_def slice_range_def Let_def max.commute min.commute)
  finally show ?thesis .
qed

section \<open>What a constraint set forbids\<close>

definition banned :: "edge_ban list \<Rightarrow> data_range list \<Rightarrow> int \<Rightarrow> int \<Rightarrow> int \<Rightarrow> bool" where
  "banned bs payload src dst stage \<longleftrightarrow> (\<exists>ban\<in>set bs. ban_src_rank ban = src \<and> ban_dst_rank ban = dst
     \<and> ban_stage_id ban = stage \<and> (\<exists>piece\<in>set payload. intersects (ban_data ban) piece))"

definition edge_in_scope :: "constraint_set \<Rightarrow> int \<Rightarrow> int \<Rightarrow> int \<Rightarrow> bool" where
  "edge_in_scope cs src dst stage \<longleftrightarrow> src < cs_rank_count cs \<and> dst < cs_rank_count cs \<and> src \<noteq> dst
     \<and> (case fixed_stage_count cs of None \<Rightarrow> True | Some k \<Rightarrow> stage < k)"

lemma allows_Inr_iff:
  "allows cs payload src dst stage = Inr b \<longleftrightarrow> 0 \<le> src \<and> 0 \<le> dst \<and> 0 \<le> stage
     \<and> (edge_in_scope cs src dst stage \<longrightarrow> payload \<noteq> [])
     \<and> b = (edge_in_scope cs src dst stage \<and> \<not> banned (bans cs) payload src dst stage)"
  by (cases "fixed_stage_count cs")
     (auto simp: allows_def edge_in_scope_def banned_def res_simps)

lemma stage_targets_mem: "t \<in> set (stage_targets m s) \<Longrightarrow> \<exists>ts. map_of m s = Some ts \<and> t \<in> set ts"
  by (cases "map_of m s") (simp_all add: stage_targets_def dict_get_def)

lemma remap_stages_Inr:
  assumes "remap_stages cs m k = Inr cs'"
  shows "bans cs' = concat (map (\<lambda>ban. map (\<lambda>stage. ban\<lparr>ban_stage_id := stage\<rparr>)
       (stage_targets m (ban_stage_id ban))) (bans cs))"
    and "cs_rank_count cs' = cs_rank_count cs" "fixed_stage_count cs' = fixed_stage_count cs"
    and "ban \<in> set (bans cs) \<Longrightarrow> stage_targets m (ban_stage_id ban) \<noteq> []"
    and "map_of m s = Some ts \<Longrightarrow> t \<in> set ts \<Longrightarrow> 0 \<le> t \<and> t < k"
    and "fixed_stage_count cs = Some f \<Longrightarrow> f = k"
  using assms by (auto simp: remap_stages_def res_simps check_stage_entry_def
      split: option.splits dest!: map_of_SomeD)

lemma banned_remap:
  assumes "remap_stages cs m k = Inr cs'"
  shows "banned (bans cs') payload src dst stage
    \<longleftrightarrow> (\<exists>old. stage \<in> set (stage_targets m old) \<and> banned (bans cs) payload src dst old)"
  by (auto simp: banned_def remap_stages_Inr(1) [OF assms])

lemma bind_constraints_Inr:
  assumes "bind_constraints inputs = Inr cs"
    and "int_or (reference_slice_size_bytes (hyper inputs)) (slice_size_bytes (hyper inputs)) = Some S"
    and "0 < S" "S \<le> total_size_bytes (hyper inputs)"
  shows "bans cs = map (\<lambda>item. \<lparr>ban_data = slice_range (total_size_bytes (hyper inputs)) S (ft_slice_id item),
      ban_src_rank = ft_src_rank item, ban_dst_rank = ft_dst_rank item,
      ban_stage_id = ft_stage_id item, ban_original_stage_id = ft_stage_id item\<rparr>)
      (forbidden_transfers (atom_cons inputs))"
    and "cs_rank_count cs = rank_count inputs" "fixed_stage_count cs = stage_num (atom_cons inputs)"
    and "item \<in> set (forbidden_transfers (atom_cons inputs)) \<Longrightarrow> 0 \<le> ft_slice_id item"
proof -
  obtain bs where bs: "map_res (bind_ban inputs S) (forbidden_transfers (atom_cons inputs)) = Inr bs"
    and cs: "cs = \<lparr>bans = bs, cs_rank_count = rank_count inputs, fixed_stage_count = stage_num (atom_cons inputs)\<rparr>"
  proof -
    have "bind_constraints inputs = bnd (map_res (bind_ban inputs S) (forbidden_transfers (atom_cons inputs)))
      (\<lambda>bs. Inr \<lparr>bans = bs, cs_rank_count = rank_count inputs, fixed_stage_count = stage_num (atom_cons inputs)\<rparr>)"
      using assms(2,3) by (simp add: bind_constraints_def)
    with assms(1) that show ?thesis by (auto simp only: bnd_Inr_iff sum.inject)
  qed
  have one: "y = \<lparr>ban_data = slice_range (total_size_bytes (hyper inputs)) S (ft_slice_id item),
      ban_src_rank = ft_src_rank item, ban_dst_rank = ft_dst_rank item,
      ban_stage_id = ft_stage_id item, ban_original_stage_id = ft_stage_id item\<rparr> \<and> 0 \<le> ft_slice_id item"
    if "bind_ban inputs S item = Inr y" for item y
  proof -
    have "0 < total_size_bytes (hyper inputs) div S"
      using assms(3,4) by (simp add: pos_imp_zdiv_pos_iff)
    then show ?thesis
      using that by (auto simp: bind_ban_def slice_range_def Let_def res_simps pos_imp_zdiv_nonneg_iff)
  qed
  have all: "list_all2 (\<lambda>x y. bind_ban inputs S x = Inr y) (forbidden_transfers (atom_cons inputs)) bs"
    using bs by (simp add: map_res_Inr_iff)
  show "bans cs = map (\<lambda>item. \<lparr>ban_data = slice_range (total_size_bytes (hyper inputs)) S (ft_slice_id item),
      ban_src_rank = ft_src_rank item, ban_dst_rank = ft_dst_rank item,
      ban_stage_id = ft_stage_id item, ban_original_stage_id = ft_stage_id item\<rparr>)
      (forbidden_transfers (atom_cons inputs))"
    using all one by (auto simp: cs list_eq_iff_nth_eq list_all2_conv_all_nth)
  show "item \<in> set (forbidden_transfers (atom_cons inputs)) \<Longrightarrow> 0 \<le> ft_slice_id item"
    using all one by (auto simp: list_all2_conv_all_nth in_set_conv_nth)
  show "cs_rank_count cs = rank_count inputs" "fixed_stage_count cs = stage_num (atom_cons inputs)"
    by (simp_all add: cs)
qed

text \<open>
  C4.  Renumbering the logical stages neither drops nor adds a restriction: in the new numbering a
  payload is banned on a link in a stage exactly when some old stage mapped to it banned it, every
  old ban survives in some new stage, and the new stages are in range.
\<close>

theorem remap_stages_preserves_bans:
  assumes "remap_stages cs mapping k = Inr cs'"
  shows "(banned (bans cs') payload src dst stage
      \<longleftrightarrow> (\<exists>old. stage \<in> set (stage_targets mapping old) \<and> banned (bans cs) payload src dst old))
    \<and> (banned (bans cs) payload src dst old \<longrightarrow> (\<exists>new. 0 \<le> new \<and> new < k \<and> banned (bans cs') payload src dst new))"
proof -
  have "\<exists>new. 0 \<le> new \<and> new < k \<and> banned (bans cs') payload src dst new" if ban: "banned (bans cs) payload src dst old"
  proof -
    have "stage_targets mapping old \<noteq> []"
      using ban remap_stages_Inr(4) [OF assms] by (auto simp: banned_def)
    then obtain new where new: "new \<in> set (stage_targets mapping old)" by (cases "stage_targets mapping old") auto
    then have "0 \<le> new \<and> new < k"
      using stage_targets_mem [OF new] remap_stages_Inr(5) [OF assms] by blast
    with new ban show ?thesis unfolding banned_remap [OF assms] by blast
  qed
  then show ?thesis using banned_remap [OF assms] by blast
qed

theorem remap_stages_preserves_bans_witness:
  "\<exists>cs'. remap_stages \<lparr>bans = [\<lparr>ban_data = DataRange 0 0 4, ban_src_rank = 0, ban_dst_rank = 1, ban_stage_id = 1,
        ban_original_stage_id = 1\<rparr>], cs_rank_count = 2, fixed_stage_count = None\<rparr> [(0, [0]), (1, [2, 1])] 3 = Inr cs'
    \<and> (\<exists>new. 0 \<le> new \<and> new < 3 \<and> banned (bans cs') [DataRange 0 2 3] 0 1 new)"
proof -
  let ?cs = "\<lparr>bans = [\<lparr>ban_data = DataRange 0 0 4, ban_src_rank = 0, ban_dst_rank = 1, ban_stage_id = 1,
        ban_original_stage_id = 1\<rparr>], cs_rank_count = 2, fixed_stage_count = None\<rparr>"
  have "is_ok (remap_stages ?cs [(0, [0]), (1, [2, 1])] 3)" by code_simp
  then obtain cs' where run: "remap_stages ?cs [(0, [0]), (1, [2, 1])] 3 = Inr cs'" by (auto simp: is_ok_iff)
  have "banned (bans ?cs) [DataRange 0 2 3] 0 1 1" by (simp add: banned_def intersects_def)
  with remap_stages_preserves_bans [OF run] have "\<exists>new. 0 \<le> new \<and> new < 3 \<and> banned (bans cs') [DataRange 0 2 3] 0 1 new"
    by blast
  with run show ?thesis by blast
qed


end
