(* ===== verification/Versions.thy ===== *)
theory Versions
  imports Ranges
begin

text \<open>
  \<^verbatim>\<open>src/vericcl/semantics/versions.py\<close>: buffer regions, state versions (which original bytes a
  piece of storage stands for) and the \<^verbatim>\<open>VersionLedger\<close> that tracks which versions are valid,
  who reads them until when, and how much scratch is live.

  The ledger is the record \<open>version_ledger\<close>, one field per attribute; each method returns the
  updated record.  The set that \<^verbatim>\<open>_overlapping\<close> returns is the list of its members in the
  order of the index (Python iterates a set of strings in an unspecified order, which only
  decides which of several violations is reported).
\<close>

section \<open>Regions and state versions\<close>

definition ledger_time :: "pyfloat \<Rightarrow> rat res" where
  "ledger_time v = time_value ''time must be finite and nonnegative'' v"

record buffer_region =
  region_rank :: int
  buffer_id :: string
  region_offset :: int
  region_size :: int
  region_kind :: string

definition buffer_region_post_init :: "buffer_region \<Rightarrow> buffer_region res" where
  "buffer_region_post_init r =
     bnd (nonnegative (region_rank r) ''rank'') (\<lambda>_.
     bnd (nonnegative (region_offset r) ''offset'') (\<lambda>_.
     bnd (nonnegative (region_size r) ''size'') (\<lambda>_.
     ensure (\<not> (region_size r = 0 \<or> buffer_id r = ''''))
       (SemanticError ''buffer region needs an identity and positive size'') (
     ensure (region_kind r \<in> {''data'', ''input'', ''output'', ''scratch''})
       (SemanticError ''invalid buffer storage kind'') (Inr r)))))"

definition overlaps :: "buffer_region \<Rightarrow> buffer_region \<Rightarrow> bool" where
  "overlaps a b \<longleftrightarrow> (region_rank a, buffer_id a) = (region_rank b, buffer_id b)
     \<and> max (region_offset a) (region_offset b)
        < min (region_offset a + region_size a) (region_offset b + region_size b)"

record state_version =
  state_id :: string
  state_rank :: int
  logical_start :: int
  logical_end :: int
  contributors :: "data_range list"
  storage :: buffer_region
  ready_us :: rat

text \<open>The inner loop over the sorted pieces of one source; it returns the final cursor.\<close>

fun piece_cursor :: "int \<Rightarrow> int \<Rightarrow> data_range list \<Rightarrow> int res" where
  "piece_cursor lend cursor [] = Inr cursor"
| "piece_cursor lend cursor (piece # pieces) =
     ensure (\<not> (range_start piece \<noteq> cursor \<or> lend < range_end piece))
       (SemanticError ''contribution has a duplicate, gap or different logical range'')
       (piece_cursor lend (range_end piece) pieces)"

definition canonical_contribution :: "int \<Rightarrow> int \<Rightarrow> data_range list \<Rightarrow> int \<Rightarrow> data_range res" where
  "canonical_contribution lstart lend pieces source =
     bnd (piece_cursor lend lstart (sort (filter (\<lambda>p. range_source p = source) pieces))) (\<lambda>cursor.
     ensure (cursor = lend) (SemanticError ''contribution does not cover the full logical range'') (
     data_range_post_init (DataRange source lstart lend)))"

definition state_version_init ::
    "string \<Rightarrow> int \<Rightarrow> int \<Rightarrow> int \<Rightarrow> data_range list \<Rightarrow> buffer_region \<Rightarrow> pyfloat \<Rightarrow> state_version res" where
  "state_version_init sid rank lstart lend pieces region ready =
     ensure (sid \<noteq> '''') (SemanticError ''state version needs a nonempty identity'') (
     bnd (nonnegative rank ''rank'') (\<lambda>_.
     bnd (nonnegative lstart ''logical_start'') (\<lambda>_.
     bnd (nonnegative lend ''logical_end'') (\<lambda>_.
     ensure (lstart < lend) (SemanticError ''logical range must be nonempty'') (
     ensure (\<not> (region_rank region \<noteq> rank \<or> region_size region \<noteq> lend - lstart))
       (SemanticError ''state storage and logical payload sizes must agree'') (
     ensure (pieces \<noteq> []) (SemanticError ''state needs source contribution ranges'') (
     bnd (map_res (canonical_contribution lstart lend pieces) (sort (remdups (map range_source pieces)))) (\<lambda>canonical.
     bnd (ledger_time ready) (\<lambda>t.
     Inr \<lparr>state_id = sid, state_rank = rank, logical_start = lstart, logical_end = lend,
          contributors = canonical, storage = region, ready_us = t\<rparr>)))))))))"

section \<open>The ledger\<close>

datatype reader_key = External string | Operation string nat

record version_ledger =
  scratch_budgets :: "(int, int) dict"
  states :: "(string, state_version) dict"
  active :: "string set"
  readers :: "(reader_key, string \<times> rat) dict"
  buffer_kinds :: "(int \<times> string, string) dict"
  regions :: "(int \<times> string, (int \<times> string) list) dict"
  reader_end :: "(string, rat) dict"
  scratch_live :: "(int, int) dict"

definition version_ledger_init :: "(int, int) dict \<Rightarrow> version_ledger res" where
  "version_ledger_init budgets =
     bnd (check_each (\<lambda>(rank, budget).
       bnd (nonnegative rank ''scratch rank'') (\<lambda>_.
       bnd (nonnegative budget ''scratch budget'') (\<lambda>_. Inr ()))) budgets) (\<lambda>_.
     Inr \<lparr>scratch_budgets = budgets, states = [], active = {}, readers = [], buffer_kinds = [],
          regions = [], reader_end = [], scratch_live = []\<rparr>)"

definition region_key :: "buffer_region \<Rightarrow> int \<times> string" where
  "region_key r = (region_rank r, buffer_id r)"

text \<open>The property \<^verbatim>\<open>states\<close>: the versions sorted by identity.\<close>

definition ledger_states :: "version_ledger \<Rightarrow> state_version list" where
  "ledger_states l = map snd (sort_key fst (states l))"

definition state :: "version_ledger \<Rightarrow> string \<Rightarrow> state_version res" where
  "state l sid = (case map_of (states l) sid of
     None \<Rightarrow> Inl (SemanticError (''unknown state version: '' @ sid))
   | Some s \<Rightarrow> Inr s)"

definition is_active :: "version_ledger \<Rightarrow> string \<Rightarrow> bool" where
  "is_active l sid \<longleftrightarrow> sid \<in> active l"

definition readable :: "version_ledger \<Rightarrow> string \<Rightarrow> pyfloat \<Rightarrow> state_version res" where
  "readable l sid at_us =
     bnd (state l sid) (\<lambda>s.
     ensure (sid \<in> active l) (SemanticError (''state version is no longer valid: '' @ sid)) (
     bnd (ledger_time at_us) (\<lambda>t.
     ensure (\<not> t < ready_us s) (SemanticError (''state is read before it is ready: '' @ sid)) (Inr s))))"

definition note_reader :: "string \<Rightarrow> rat \<Rightarrow> version_ledger \<Rightarrow> version_ledger" where
  "note_reader sid end_us l =
     l\<lparr>reader_end := AList.update sid (max (dict_get (reader_end l) sid 0) end_us) (reader_end l)\<rparr>"

definition reserve_read :: "version_ledger \<Rightarrow> string \<Rightarrow> string \<Rightarrow> pyfloat \<Rightarrow> pyfloat \<Rightarrow> version_ledger res" where
  "reserve_read l sid reader_id start_us end_us =
     bnd (readable l sid start_us) (\<lambda>_.
     bnd (ledger_time end_us) (\<lambda>e.
     bnd (ledger_time start_us) (\<lambda>s.
     ensure (\<not> e < s) (SemanticError ''reader ends before it starts'') (
     ensure (reader_id \<noteq> '''' \<and> map_of (readers l) (External reader_id) = None)
       (SemanticError ''reader identity must be nonempty and unique'') (
     Inr (note_reader sid e (l\<lparr>readers := AList.update (External reader_id) (sid, e) (readers l)\<rparr>)))))))"

definition no_readers_after :: "version_ledger \<Rightarrow> string \<Rightarrow> rat \<Rightarrow> unit res" where
  "no_readers_after l sid at_us =
     ensure (\<not> at_us < dict_get (reader_end l) sid 0)
       (SemanticError (''state has an unfinished reader: '' @ sid)) (Inr ())"

text \<open>\<^verbatim>\<open>self._states[key]\<close>, which raises \<^verbatim>\<open>KeyError\<close> on a missing key.\<close>

definition states_item :: "version_ledger \<Rightarrow> string \<Rightarrow> state_version res" where
  "states_item l sid = (case map_of (states l) sid of None \<Rightarrow> Inl (KeyError sid) | Some s \<Rightarrow> Inr s)"

definition overlapping :: "version_ledger \<Rightarrow> buffer_region \<Rightarrow> string list res" where
  "overlapping l region =
     (let entries = dict_get (regions l) (region_key region) [];
          first0 = bisect_left entries (region_offset region, '''')
      in bnd (if first0 \<noteq> 0 then
                bnd (states_item l (snd (entries ! (first0 - 1)))) (\<lambda>prev.
                Inr (if region_offset region < region_offset (storage prev) + region_size (storage prev)
                     then first0 - 1 else first0))
              else Inr first0) (\<lambda>first.
         let last = bisect_left entries (region_offset region + region_size region, '''')
         in Inr (map snd (drop first (take last entries)))))"

definition remove_active :: "version_ledger \<Rightarrow> string \<Rightarrow> version_ledger res" where
  "remove_active l sid =
     bnd (states_item l sid) (\<lambda>s.
     let region = storage s in
     case map_of (regions l) (region_key region) of
       None \<Rightarrow> Inl (KeyError (buffer_id region))
     | Some entries \<Rightarrow>
         let i = bisect_left entries (region_offset region, sid) in
         ensure (i < length entries) IndexError (
         ensure (sid \<in> active l) (KeyError sid) (
         let l' = l\<lparr>regions := AList.update (region_key region) (take i entries @ drop (Suc i) entries) (regions l),
                    active := active l - {sid}\<rparr> in
         if region_kind region = ''scratch'' then
           (case map_of (scratch_live l) (region_rank region) of
              None \<Rightarrow> Inl (KeyError (str_int (region_rank region)))
            | Some v \<Rightarrow> Inr (l'\<lparr>scratch_live :=
                AList.update (region_rank region) (v - region_size region) (scratch_live l)\<rparr>))
         else Inr l')))"

definition check_overwritten :: "version_ledger \<Rightarrow> rat \<Rightarrow> string \<Rightarrow> unit res" where
  "check_overwritten l start_us sid =
     bnd (states_item l sid) (\<lambda>s.
     ensure (\<not> start_us < ready_us s) (SemanticError (''buffer still has an unfinished write: '' @ sid)) (
     no_readers_after l sid start_us))"

definition check_scratch :: "version_ledger \<Rightarrow> buffer_region \<Rightarrow> string list \<Rightarrow> unit res" where
  "check_scratch l region overwritten =
     (if region_kind region = ''scratch'' then
        bnd (map_res (\<lambda>sid. bnd (states_item l sid) (\<lambda>s. Inr (region_size (storage s)))) overwritten) (\<lambda>sizes.
        let live = dict_get (scratch_live l) (region_rank region) 0 - sum_list sizes in
        case map_of (scratch_budgets l) (region_rank region) of
          None \<Rightarrow> Inl (SemanticError ''scratch storage budget exceeded'')
        | Some budget \<Rightarrow> ensure (\<not> budget < live + region_size region)
            (SemanticError ''scratch storage budget exceeded'') (Inr ()))
      else Inr ())"

definition record_reads :: "string \<Rightarrow> rat \<Rightarrow> state_version list \<Rightarrow> version_ledger \<Rightarrow> version_ledger" where
  "record_reads sid end_us reads l =
     foldl (\<lambda>l (index, v). note_reader (state_id v) end_us
              (l\<lparr>readers := AList.update (Operation sid index) (state_id v, end_us) (readers l)\<rparr>))
       l (enumerate 0 reads)"

definition insert_state :: "state_version \<Rightarrow> version_ledger \<Rightarrow> version_ledger" where
  "insert_state s l =
     (let region = storage s; key = region_key region;
          entries = dict_get (regions l) key [];
          i = bisect_left entries (region_offset region, state_id s)
      in l\<lparr>states := AList.update (state_id s) s (states l),
           active := insert (state_id s) (active l),
           regions := AList.update key (take i entries @ (region_offset region, state_id s) # drop i entries) (regions l),
           scratch_live := (if region_kind region = ''scratch''
             then AList.update (region_rank region)
                    (dict_get (scratch_live l) (region_rank region) 0 + region_size region) (scratch_live l)
             else scratch_live l),
           buffer_kinds := AList.update key (region_kind region) (buffer_kinds l)\<rparr>)"

definition store :: "version_ledger \<Rightarrow> state_version \<Rightarrow> pyfloat \<Rightarrow> pyfloat \<Rightarrow> string list \<Rightarrow> bool \<Rightarrow> version_ledger res" where
  "store l s start finish read_ids initial =
     bnd (ledger_time start) (\<lambda>start_us.
     bnd (ledger_time finish) (\<lambda>end_us.
     ensure (\<not> (end_us < start_us \<or> ready_us s \<noteq> end_us))
       (SemanticError ''write interval and output ready time must agree'') (
     ensure (map_of (states l) (state_id s) = None) (SemanticError ''state version identity already exists'') (
     bnd (map_res (\<lambda>key. readable l key (Finite start_us)) read_ids) (\<lambda>reads.
     let region = storage s in
     ensure (case map_of (buffer_kinds l) (region_key region) of None \<Rightarrow> True | Some k \<Rightarrow> k = region_kind region)
       (SemanticError ''buffer alias cannot change its storage kind'') (
     bnd (check_each (\<lambda>v. ensure (\<not> (overlaps region (storage v) \<and> region \<noteq> storage v))
       (SemanticError ''partial overlap with a read input requires separate storage'') (Inr ())) reads) (\<lambda>_.
     bnd (overlapping l region) (\<lambda>overwritten.
     ensure (\<not> (initial \<and> overwritten \<noteq> [])) (SemanticError ''initial states overlap storage'') (
     bnd (check_each (check_overwritten l start_us) overwritten) (\<lambda>_.
     bnd (check_scratch l region overwritten) (\<lambda>_.
     bnd (for_each remove_active (record_reads (state_id s) end_us reads l) overwritten) (\<lambda>l'.
     Inr (insert_state s l')))))))))))))"

definition add_initial :: "version_ledger \<Rightarrow> state_version \<Rightarrow> version_ledger res" where
  "add_initial l s = store l s (Finite (ready_us s)) (Finite (ready_us s)) [] True"

definition copy :: "version_ledger \<Rightarrow> string \<Rightarrow> string \<Rightarrow> buffer_region \<Rightarrow> pyfloat \<Rightarrow> pyfloat \<Rightarrow> version_ledger res" where
  "copy l source_id sid destination start_us end_us =
     bnd (readable l source_id start_us) (\<lambda>source.
     bnd (state_version_init sid (region_rank destination) (logical_start source) (logical_end source)
            (contributors source) destination end_us) (\<lambda>result.
     store l result start_us end_us [source_id] False))"

definition reduce :: "version_ledger \<Rightarrow> string \<Rightarrow> string \<Rightarrow> string \<Rightarrow> buffer_region \<Rightarrow> pyfloat \<Rightarrow> pyfloat \<Rightarrow> version_ledger res" where
  "reduce l left_id right_id sid destination start_us end_us =
     bnd (readable l left_id start_us) (\<lambda>left.
     bnd (readable l right_id start_us) (\<lambda>right.
     ensure ((logical_start left, logical_end left) = (logical_start right, logical_end right))
       (SemanticError ''reduction inputs must have the same logical range'') (
     ensure (set (map range_source (contributors left)) \<inter> set (map range_source (contributors right)) = {})
       (SemanticError ''reduction contribution is counted more than once'') (
     ensure (region_rank destination \<in> {state_rank left, state_rank right})
       (SemanticError ''reduction destination must own an input'') (
     bnd (state_version_init sid (region_rank destination) (logical_start left) (logical_end left)
            (contributors left @ contributors right) destination end_us) (\<lambda>result.
     store l result start_us end_us [left_id, right_id] False))))))"

definition release :: "version_ledger \<Rightarrow> string \<Rightarrow> pyfloat \<Rightarrow> version_ledger res" where
  "release l sid at_us =
     bnd (readable l sid at_us) (\<lambda>_.
     bnd (ledger_time at_us) (\<lambda>t.
     bnd (no_readers_after l sid t) (\<lambda>_.
     remove_active l sid)))"

end
