(* ===== verification/Ledger_Invariant.thy ===== *)
theory Ledger_Invariant
  imports Versions
begin

text \<open>
  The invariant of the \<^verbatim>\<open>VersionLedger\<close>: active versions occupy disjoint storage, the sorted
  per-buffer index lists exactly the active versions, a buffer never changes its storage kind and
  the live scratch bytes are counted exactly and stay inside the budget.  Every operation keeps
  it, the binary searches of the index find exactly the versions a write overwrites, and none of
  the dictionary accesses inside the ledger can fail.
\<close>

section \<open>The invariant\<close>

definition active_state :: "version_ledger \<Rightarrow> string \<Rightarrow> state_version \<Rightarrow> bool" where
  "active_state l sid s \<longleftrightarrow> sid \<in> active l \<and> map_of (states l) sid = Some s"

definition scratch_bytes :: "version_ledger \<Rightarrow> int \<Rightarrow> string \<Rightarrow> int" where
  "scratch_bytes l r sid = (case map_of (states l) sid of
     None \<Rightarrow> 0
   | Some s \<Rightarrow> if region_kind (storage s) = ''scratch'' \<and> region_rank (storage s) = r
       then region_size (storage s) else 0)"

definition scratch_used :: "version_ledger \<Rightarrow> int \<Rightarrow> int" where
  "scratch_used l r = (\<Sum>sid\<in>active l. scratch_bytes l r sid)"

definition states_ok :: "version_ledger \<Rightarrow> bool" where
  "states_ok l \<longleftrightarrow> finite (active l) \<and> active l \<subseteq> dom (map_of (states l))
     \<and> (\<forall>sid s. map_of (states l) sid = Some s \<longrightarrow> state_id s = sid \<and> 0 < region_size (storage s))"

definition index_entries :: "version_ledger \<Rightarrow> int \<times> string \<Rightarrow> (int \<times> string) list" where
  "index_entries l k = dict_get (regions l) k []"

definition index_ok :: "version_ledger \<Rightarrow> bool" where
  "index_ok l \<longleftrightarrow> (\<forall>k. sorted (index_entries l k) \<and> distinct (index_entries l k)
     \<and> set (index_entries l k) = {(region_offset (storage s), sid) | sid s.
          active_state l sid s \<and> region_key (storage s) = k})"

definition disjoint_ok :: "version_ledger \<Rightarrow> bool" where
  "disjoint_ok l \<longleftrightarrow> (\<forall>sid s sid' s'. active_state l sid s \<longrightarrow> active_state l sid' s' \<longrightarrow> sid \<noteq> sid'
     \<longrightarrow> \<not> overlaps (storage s) (storage s'))"

definition kinds_ok :: "version_ledger \<Rightarrow> bool" where
  "kinds_ok l \<longleftrightarrow> (\<forall>sid s. map_of (states l) sid = Some s
     \<longrightarrow> map_of (buffer_kinds l) (region_key (storage s)) = Some (region_kind (storage s)))"

definition scratch_ok :: "version_ledger \<Rightarrow> bool" where
  "scratch_ok l \<longleftrightarrow> (\<forall>r. dict_get (scratch_live l) r 0 = scratch_used l r
     \<and> (0 < scratch_used l r \<longrightarrow> (\<exists>b. map_of (scratch_budgets l) r = Some b \<and> scratch_used l r \<le> b)))"

definition ledger_inv :: "version_ledger \<Rightarrow> bool" where
  "ledger_inv l \<longleftrightarrow> states_ok l \<and> index_ok l \<and> disjoint_ok l \<and> kinds_ok l \<and> scratch_ok l"

lemma active_state_functional:
  "active_state l sid s \<Longrightarrow> active_state l sid s' \<Longrightarrow> s = s'"
  by (simp add: active_state_def)

lemma states_ok_facts:
  assumes "states_ok l"
  shows "finite (active l)" "sid \<in> active l \<Longrightarrow> \<exists>s. active_state l sid s"
    "active_state l sid s \<Longrightarrow> state_id s = sid" "active_state l sid s \<Longrightarrow> 0 < region_size (storage s)"
  using assms by (auto simp: states_ok_def active_state_def)

lemma scratch_bytes_nonneg: "states_ok l \<Longrightarrow> 0 \<le> scratch_bytes l r sid"
  by (auto simp: scratch_bytes_def states_ok_def split: option.splits intro: order_less_imp_le)

section \<open>The index finds exactly the overlapping versions\<close>

lemma pair_less_empty [simp]: "(x, s) < (y, ([] :: string)) \<longleftrightarrow> x < y" for x y :: int
  by (auto simp: less_prod_def)

lemma overlaps_iff:
  assumes "0 < region_size a" "0 < region_size b" "region_key a = region_key b"
  shows "overlaps a b \<longleftrightarrow> region_offset b < region_offset a + region_size a
    \<and> region_offset a < region_offset b + region_size b"
  using assms by (auto simp: overlaps_def region_key_def)

lemma overlaps_key: "overlaps a b \<Longrightarrow> region_key a = region_key b"
  by (simp add: overlaps_def region_key_def)

lemma overlaps_sym: "overlaps a b = overlaps b a"
  by (auto simp: overlaps_def max.commute min.commute)

lemma index_okD:
  assumes "index_ok l"
  shows "sorted (index_entries l k)" "distinct (index_entries l k)"
    "set (index_entries l k) = {(region_offset (storage s), sid) | sid s.
       active_state l sid s \<and> region_key (storage s) = k}"
  using assms unfolding index_ok_def by blast+

text \<open>Consecutive index entries: where one version ends, the next has not begun.\<close>

lemma index_entry_state:
  assumes "index_ok l" "i < length (index_entries l k)"
  obtains s where "active_state l (snd (index_entries l k ! i)) s" "region_key (storage s) = k"
    "fst (index_entries l k ! i) = region_offset (storage s)"
proof -
  have "index_entries l k ! i \<in> {(region_offset (storage s), sid) | sid s.
      active_state l sid s \<and> region_key (storage s) = k}"
    using nth_mem [OF assms(2)] by (simp only: index_okD(3) [OF assms(1)])
  with that show ?thesis by auto
qed

lemma index_ids_distinct:
  assumes "index_ok l" shows "distinct (map snd (index_entries l k))"
proof -
  have "inj_on snd (set (index_entries l k))"
    by (auto simp: index_okD(3) [OF assms] inj_on_def dest: active_state_functional)
  with index_okD(2) [OF assms] show ?thesis by (simp add: distinct_map)
qed

lemma index_spaced:
  assumes inv: "states_ok l" "index_ok l" "disjoint_ok l"
    and ij: "i < j" "j < length (index_entries l k)"
    and s: "active_state l (snd (index_entries l k ! i)) s" "region_key (storage s) = k"
  shows "region_offset (storage s) + region_size (storage s) \<le> fst (index_entries l k ! j)"
proof -
  let ?es = "index_entries l k"
  obtain t where t: "active_state l (snd (?es ! j)) t" "region_key (storage t) = k"
    "fst (?es ! j) = region_offset (storage t)"
    using index_entry_state [OF inv(2) ij(2)] by blast
  obtain s' where s': "active_state l (snd (?es ! i)) s'" "fst (?es ! i) = region_offset (storage s')"
    using index_entry_state [OF inv(2), of i k] ij by (metis less_trans)
  have "s' = s" using s(1) s'(1) by (simp add: active_state_def)
  have "?es ! i \<le> ?es ! j"
    using ij by (intro sorted_nth_mono index_okD(1) [OF inv(2)]) auto
  then have "region_offset (storage s) \<le> region_offset (storage t)"
    using s'(2) t(3) \<open>s' = s\<close> by (auto simp: less_eq_prod_def)
  moreover have "snd (?es ! i) \<noteq> snd (?es ! j)"
    using index_ids_distinct [OF inv(2), of k] ij by (auto simp: distinct_conv_nth)
  then have "\<not> overlaps (storage s) (storage t)"
    using inv(3) s(1) t(1) by (auto simp: disjoint_ok_def)
  moreover have "0 < region_size (storage s)" "0 < region_size (storage t)"
    using s(1) t(1) by (auto intro: states_ok_facts(4) [OF inv(1)])
  ultimately show ?thesis
    using s(2) t(2,3) by (auto simp: overlaps_iff)
qed

lemma set_drop_take:
  "x \<in> set (drop a (take b xs)) \<longleftrightarrow> (\<exists>i. a \<le> i \<and> i < b \<and> i < length xs \<and> x = xs ! i)"
proof
  assume "x \<in> set (drop a (take b xs))"
  then obtain j where j: "j < length (drop a (take b xs))" "x = drop a (take b xs) ! j"
    by (auto simp: in_set_conv_nth)
  then have "a + j < length (take b xs)" unfolding length_drop by linarith
  with j show "\<exists>i. a \<le> i \<and> i < b \<and> i < length xs \<and> x = xs ! i"
    by (intro exI [of _ "a + j"]) auto
next
  assume "\<exists>i. a \<le> i \<and> i < b \<and> i < length xs \<and> x = xs ! i"
  then obtain i where i: "a \<le> i" "i < b" "i < length xs" "x = xs ! i" by blast
  then have "drop a (take b xs) ! (i - a) = x" "i - a < length (drop a (take b xs))" by auto
  then show "x \<in> set (drop a (take b xs))" by (metis nth_mem)
qed

text \<open>Where the two searches land: the entries that start before an offset.\<close>

lemma bisect_offset:
  assumes "index_ok l" "i < length (index_entries l k)"
  shows "i < bisect_left (index_entries l k) (off, '''') \<longleftrightarrow> fst (index_entries l k ! i) < off"
proof -
  let ?es = "index_entries l k"
  note spec = bisect_left_spec [OF index_okD(1) [OF assms(1), of k], where x = "(off, [])"]
  have less: "e < (off, [] :: string) \<longleftrightarrow> fst e < off" for e by (cases e) simp
  show ?thesis
  proof
    assume "i < bisect_left ?es (off, '''')"
    from spec(2) [OF this] show "fst (?es ! i) < off" by (simp only: less)
  next
    assume "fst (?es ! i) < off"
    then have "\<not> (off, '''') \<le> ?es ! i" using less [of "?es ! i"] by (simp only: linorder_not_le)
    with spec(3) [of i] assms(2) show "i < bisect_left ?es (off, '''')" by (metis linorder_not_le)
  qed
qed

lemma overlapping_correct:
  assumes inv: "ledger_inv l" and size: "0 < region_size region"
  obtains ids where "overlapping l region = Inr ids" "distinct ids"
    "set ids = {sid. \<exists>s. active_state l sid s \<and> overlaps region (storage s)}"
proof -
  define k where "k = region_key region"
  define es where "es = index_entries l k"
  define off where "off = region_offset region"
  define n0 where "n0 = bisect_left es (off, '''')"
  define n1 where "n1 = bisect_left es (off + region_size region, '''')"
  have ok: "states_ok l" "index_ok l" "disjoint_ok l" using inv by (auto simp: ledger_inv_def)
  have n0: "i < n0 \<longleftrightarrow> fst (es ! i) < off" and n1: "i < n1 \<longleftrightarrow> fst (es ! i) < off + region_size region"
    if "i < length es" for i
    using bisect_offset [OF ok(2)] that by (simp_all add: n0_def n1_def es_def)
  have n0_le: "n0 \<le> length es"
    unfolding n0_def es_def by (rule bisect_left_spec(1)) (rule index_okD(1) [OF ok(2)])
  define first where "first = (if n0 \<noteq> 0 \<and> (\<exists>s. active_state l (snd (es ! (n0 - 1))) s
      \<and> off < region_offset (storage s) + region_size (storage s)) then n0 - 1 else n0)"
  have eq: "overlapping l region = Inr (map snd (drop first (take n1 es)))"
  proof (cases "n0 = 0")
    case True
    then show ?thesis
      by (simp add: overlapping_def first_def Let_def n0_def n1_def es_def k_def off_def index_entries_def)
  next
    case False
    then have "n0 - 1 < length es" using n0_le by simp
    then obtain s where s: "active_state l (snd (es ! (n0 - 1))) s"
      using index_entry_state [OF ok(2)] unfolding es_def by metis
    then have "states_item l (snd (es ! (n0 - 1))) = Inr s"
      by (simp add: states_item_def active_state_def)
    moreover have "first = (if off < region_offset (storage s) + region_size (storage s) then n0 - 1 else n0)"
      using False s by (auto simp: first_def dest: active_state_functional)
    ultimately show ?thesis using False
      by (simp add: overlapping_def Let_def n0_def n1_def es_def k_def off_def index_entries_def)
  qed
  have mem: "first \<le> i \<and> i < n1 \<longleftrightarrow> overlaps region (storage s)"
    if i: "i < length es" and s: "active_state l (snd (es ! i)) s" "region_key (storage s) = k"
      "fst (es ! i) = region_offset (storage s)" for i s
  proof -
    have pos: "0 < region_size (storage s)" using states_ok_facts(4) [OF ok(1)] s(1) .
    have ov: "overlaps region (storage s) \<longleftrightarrow> i < n1 \<and> off < region_offset (storage s) + region_size (storage s)"
      using overlaps_iff [OF size pos] s(2,3) n1 [OF i] by (simp add: k_def off_def)
    have "first \<le> i \<longleftrightarrow> off < region_offset (storage s) + region_size (storage s)"
    proof (cases "n0 \<le> i")
      case True
      then have "off \<le> region_offset (storage s)" using n0 [OF i] s(3) by simp
      with pos True show ?thesis by (auto simp: first_def)
    next
      case False
      then have i0: "i < n0" by simp
      show ?thesis
      proof (cases "i = n0 - 1")
        case True
        with i0 s(1) show ?thesis
          by (auto simp: first_def dest: active_state_functional)
      next
        case neq: False
        then have lt: "i < n0 - 1" "n0 - 1 < length es" using i0 n0_le by auto
        have "region_offset (storage s) + region_size (storage s) \<le> fst (es ! (n0 - 1))"
          using index_spaced [OF ok lt(1), of k s] lt(2) s(1,2) by (simp add: es_def)
        also have "\<dots> < off" using n0 [OF lt(2)] i0 by simp
        finally show ?thesis using lt(1) by (auto simp: first_def)
      qed
    qed
    with ov show ?thesis by auto
  qed
  have "set (map snd (drop first (take n1 es)))
      = {sid. \<exists>s. active_state l sid s \<and> overlaps region (storage s)}" (is "?A = ?B")
  proof (intro set_eqI iffI)
    fix sid assume "sid \<in> ?A"
    then obtain e where "e \<in> set (drop first (take n1 es))" "sid = snd e" by auto
    then obtain i where i: "first \<le> i" "i < n1" "i < length es" "sid = snd (es ! i)"
      by (auto simp only: set_drop_take)
    obtain s where "active_state l (snd (es ! i)) s" "region_key (storage s) = k"
      "fst (es ! i) = region_offset (storage s)"
      using index_entry_state [OF ok(2), of i k] i(3) unfolding es_def by blast
    with mem [OF i(3)] i show "sid \<in> ?B" by auto
  next
    fix sid assume "sid \<in> ?B"
    then obtain s where s: "active_state l sid s" "overlaps region (storage s)" by blast
    then have key: "region_key (storage s) = k" using overlaps_key k_def by metis
    then have "(region_offset (storage s), sid) \<in> set es"
      using s(1) unfolding es_def index_okD(3) [OF ok(2)] by blast
    then obtain i where i: "i < length es" "es ! i = (region_offset (storage s), sid)"
      by (auto simp: in_set_conv_nth)
    with mem [OF i(1), of s] s key have "first \<le> i" "i < n1" by auto
    with i have "(region_offset (storage s), sid) \<in> set (drop first (take n1 es))"
      unfolding set_drop_take by metis
    then show "sid \<in> ?A" by force
  qed
  moreover have "distinct (map snd (drop first (take n1 es)))"
    using index_ids_distinct [OF ok(2), of k]
    by (simp add: es_def drop_map [symmetric] take_map [symmetric] distinct_drop distinct_take)
  ultimately show ?thesis using that eq by blast
qed

section \<open>Removal and insertion keep the invariant\<close>

text \<open>The invariant reads only these fields.\<close>

lemma ledger_inv_frame:
  assumes "ledger_inv l" "states l' = states l" "active l' = active l" "regions l' = regions l"
    "buffer_kinds l' = buffer_kinds l" "scratch_live l' = scratch_live l"
    "scratch_budgets l' = scratch_budgets l"
  shows "ledger_inv l'"
  using assms
  by (simp add: ledger_inv_def states_ok_def index_ok_def disjoint_ok_def kinds_ok_def scratch_ok_def
      active_state_def index_entries_def scratch_used_def scratch_bytes_def)

lemma index_entries_update:
  "index_entries (l\<lparr>regions := AList.update k es (regions l)\<rparr>) k' = (if k = k' then es else index_entries l k')"
  by (simp add: index_entries_def)

lemma scratch_used_remove:
  assumes "finite (active l)" "sid \<in> active l" "active l' = active l - {sid}" "states l' = states l"
  shows "scratch_used l' r = scratch_used l r - scratch_bytes l r sid"
proof -
  have "scratch_bytes l' r = scratch_bytes l r" by (simp add: scratch_bytes_def assms(4) fun_eq_iff)
  then show ?thesis using assms(1-3) by (simp add: scratch_used_def sum.remove [OF assms(1,2)])
qed

definition same_history :: "version_ledger \<Rightarrow> version_ledger \<Rightarrow> bool" where
  "same_history l l' \<longleftrightarrow> states l' = states l \<and> readers l' = readers l \<and> reader_end l' = reader_end l
     \<and> buffer_kinds l' = buffer_kinds l \<and> scratch_budgets l' = scratch_budgets l"

text \<open>The ledger after a successful removal of the active version \<open>s\<close>.\<close>

definition removed :: "version_ledger \<Rightarrow> string \<Rightarrow> state_version \<Rightarrow> version_ledger" where
  "removed l sid s =
     (let region = storage s; es = index_entries l (region_key region);
          i = bisect_left es (region_offset region, sid)
      in l\<lparr>regions := AList.update (region_key region) (take i es @ drop (Suc i) es) (regions l),
           active := active l - {sid},
           scratch_live := (if region_kind region = ''scratch''
             then AList.update (region_rank region)
               (dict_get (scratch_live l) (region_rank region) 0 - region_size region) (scratch_live l)
             else scratch_live l)\<rparr>)"

lemma removed_simps [simp]:
  "states (removed l sid s) = states l" "active (removed l sid s) = active l - {sid}"
  "buffer_kinds (removed l sid s) = buffer_kinds l" "scratch_budgets (removed l sid s) = scratch_budgets l"
  "readers (removed l sid s) = readers l" "reader_end (removed l sid s) = reader_end l"
  by (simp_all add: removed_def Let_def)

lemma scratch_live_removed:
  "dict_get (scratch_live (removed l sid s)) r 0 = dict_get (scratch_live l) r 0
    - (if region_kind (storage s) = ''scratch'' \<and> region_rank (storage s) = r then region_size (storage s) else 0)"
  by (simp add: removed_def Let_def)

lemma active_state_removed: "active_state (removed l sid s) x y \<longleftrightarrow> x \<noteq> sid \<and> active_state l x y"
  by (auto simp: active_state_def)

lemma index_mem:
  "index_ok l \<Longrightarrow> active_state l sid s
    \<Longrightarrow> (region_offset (storage s), sid) \<in> set (index_entries l (region_key (storage s)))"
  by (auto simp: index_okD(3))

lemma index_entries_removed:
  assumes "index_ok l" "active_state l sid s"
  shows "sorted (index_entries (removed l sid s) k)" "distinct (index_entries (removed l sid s) k)"
    "set (index_entries (removed l sid s) k) = set (index_entries l k) - {(region_offset (storage s), sid)}"
proof -
  let ?k = "region_key (storage s)"
  have idx: "index_entries (removed l sid s) k = (if ?k = k then
      take (bisect_left (index_entries l ?k) (region_offset (storage s), sid)) (index_entries l ?k)
      @ drop (Suc (bisect_left (index_entries l ?k) (region_offset (storage s), sid))) (index_entries l ?k)
    else index_entries l k)"
    by (simp add: removed_def Let_def index_entries_def)
  note mem = bisect_left_mem [OF index_okD(1,2) [OF assms(1)] index_mem [OF assms]]
  have other: "(region_offset (storage s), sid) \<notin> set (index_entries l k)" if "?k \<noteq> k"
    using that assms by (auto simp: index_okD(3) dest: active_state_functional)
  show "sorted (index_entries (removed l sid s) k)" "distinct (index_entries (removed l sid s) k)"
    "set (index_entries (removed l sid s) k) = set (index_entries l k) - {(region_offset (storage s), sid)}"
    using remove_nth [OF index_okD(1,2) [OF assms(1)] mem(1)] mem(2) other
      index_okD(1,2) [OF assms(1), of k] by (auto simp: idx)
qed

lemma index_ok_removed:
  assumes "index_ok l" "active_state l sid s"
  shows "index_ok (removed l sid s)"
  unfolding index_ok_def
proof
  fix k
  have "set (index_entries (removed l sid s) k)
      = {(region_offset (storage y), x) | x y. active_state (removed l sid s) x y \<and> region_key (storage y) = k}"
    unfolding index_entries_removed(3) [OF assms] index_okD(3) [OF assms(1)] active_state_removed
    using assms(2) by (auto dest: active_state_functional)
  then show "sorted (index_entries (removed l sid s) k) \<and> distinct (index_entries (removed l sid s) k)
      \<and> set (index_entries (removed l sid s) k) = {(region_offset (storage y), x) | x y.
        active_state (removed l sid s) x y \<and> region_key (storage y) = k}"
    using index_entries_removed(1,2) [OF assms] by simp
qed

lemma scratch_bytes_active:
  "active_state l sid s \<Longrightarrow> scratch_bytes l r sid
    = (if region_kind (storage s) = ''scratch'' \<and> region_rank (storage s) = r then region_size (storage s) else 0)"
  by (simp add: scratch_bytes_def active_state_def)

lemma scratch_used_removed:
  "states_ok l \<Longrightarrow> active_state l sid s
    \<Longrightarrow> scratch_used (removed l sid s) r = scratch_used l r - scratch_bytes l r sid"
  by (rule scratch_used_remove) (auto simp: active_state_def states_ok_def)

lemma scratch_used_nonneg: "states_ok l \<Longrightarrow> 0 \<le> scratch_used l r"
  unfolding scratch_used_def by (intro sum_nonneg scratch_bytes_nonneg)

lemma states_ok_removed: "states_ok l \<Longrightarrow> states_ok (removed l sid s)"
  by (auto simp: states_ok_def)

lemma scratch_ok_removed:
  assumes "states_ok l" "scratch_ok l" "active_state l sid s"
  shows "scratch_ok (removed l sid s)"
  unfolding scratch_ok_def
proof
  fix r
  have "dict_get (scratch_live (removed l sid s)) r 0 = scratch_used (removed l sid s) r"
    using assms(2) by (simp add: scratch_used_removed [OF assms(1,3)] scratch_bytes_active [OF assms(3)]
        scratch_ok_def scratch_live_removed)
  moreover have "scratch_used (removed l sid s) r \<le> scratch_used l r"
    using scratch_used_removed [OF assms(1,3), of r] scratch_bytes_nonneg [OF assms(1), of r sid] by simp
  moreover have "\<exists>b. map_of (scratch_budgets l) r = Some b \<and> scratch_used l r \<le> b" if "0 < scratch_used l r"
    using assms(2) that by (auto simp: scratch_ok_def)
  ultimately show "dict_get (scratch_live (removed l sid s)) r 0 = scratch_used (removed l sid s) r
      \<and> (0 < scratch_used (removed l sid s) r \<longrightarrow> (\<exists>b. map_of (scratch_budgets (removed l sid s)) r = Some b
          \<and> scratch_used (removed l sid s) r \<le> b))"
    by force
qed

lemma removed_inv:
  "ledger_inv l \<Longrightarrow> active_state l sid s \<Longrightarrow> ledger_inv (removed l sid s)"
  unfolding ledger_inv_def
  by (auto simp: states_ok_removed index_ok_removed scratch_ok_removed kinds_ok_def disjoint_ok_def
      active_state_removed)

text \<open>Under the invariant the removal of an active version does not raise.\<close>

lemma remove_active_eq:
  assumes inv: "ledger_inv l" and s: "active_state l sid s"
  shows "remove_active l sid = Inr (removed l sid s)"
proof -
  have ok: "states_ok l" "index_ok l" "scratch_ok l" using inv by (auto simp: ledger_inv_def)
  let ?k = "region_key (storage s)" and ?r = "region_rank (storage s)"
  note mem = bisect_left_mem [OF index_okD(1,2) [OF ok(2)] index_mem [OF ok(2) s]]
  have lookup: "map_of (regions l) ?k = Some (index_entries l ?k)"
    using index_mem [OF ok(2) s] by (cases "map_of (regions l) ?k") (simp_all add: index_entries_def dict_get_def)
  have counted: "map_of (scratch_live l) ?r = Some (dict_get (scratch_live l) ?r 0)"
    if "region_kind (storage s) = ''scratch''"
  proof -
    have "0 < scratch_used l ?r"
      using scratch_used_removed [OF ok(1) s, of ?r] scratch_bytes_active [OF s, of ?r] that
        scratch_used_nonneg [OF states_ok_removed [OF ok(1)], of sid s ?r]
        states_ok_facts(4) [OF ok(1) s] by simp
    then have "dict_get (scratch_live l) ?r 0 \<noteq> 0" using ok(3) by (simp add: scratch_ok_def)
    then show ?thesis by (cases "map_of (scratch_live l) ?r") (simp_all add: dict_get_def)
  qed
  have "states_item l sid = Inr s" "sid \<in> active l"
    using s by (auto simp: states_item_def active_state_def)
  then show ?thesis
    using lookup mem(1) counted by (simp add: remove_active_def removed_def Let_def)
qed

lemma remove_active_correct:
  assumes "ledger_inv l" "active_state l sid s"
  obtains l' where "remove_active l sid = Inr l'" "ledger_inv l'" "active l' = active l - {sid}" "same_history l l'"
  using remove_active_eq [OF assms] removed_inv [OF assms] that by (simp add: same_history_def)

text \<open>Removing several distinct active versions, as a write does.\<close>

lemma remove_all:
  assumes "ledger_inv l" "distinct ids" "set ids \<subseteq> active l"
  obtains l' where "for_each remove_active l ids = Inr l'" "ledger_inv l'" "active l' = active l - set ids"
    "same_history l l'"
  using assms
proof (induction ids arbitrary: l thesis)
  case Nil
  then show ?case by (simp add: same_history_def)
next
  case (Cons sid ids)
  have "states_ok l" "sid \<in> active l" using Cons.prems by (simp_all add: ledger_inv_def)
  then obtain s where "active_state l sid s" using states_ok_facts(2) by blast
  then obtain l1 where l1: "remove_active l sid = Inr l1" "ledger_inv l1" "active l1 = active l - {sid}" "same_history l l1"
    using remove_active_correct [OF Cons.prems(2)] by blast
  have "distinct ids" "set ids \<subseteq> active l1" using Cons.prems(3,4) l1(3) by auto
  then obtain l2 where l2: "for_each remove_active l1 ids = Inr l2" "ledger_inv l2" "active l2 = active l1 - set ids"
    "same_history l1 l2"
    using Cons.IH [OF _ l1(2)] by blast
  have "for_each remove_active l (sid # ids) = Inr l2" using l1(1) l2(1) by simp
  moreover have "active l2 = active l - set (sid # ids)" using l1(3) l2(3) by auto
  moreover have "same_history l l2" using l1(4) l2(4) by (simp add: same_history_def)
  ultimately show ?case using Cons.prems(1) l2(2) by blast
qed

lemma insert_state_simps [simp]:
  "states (insert_state s l) = AList.update (state_id s) s (states l)"
  "active (insert_state s l) = insert (state_id s) (active l)"
  "buffer_kinds (insert_state s l) = AList.update (region_key (storage s)) (region_kind (storage s)) (buffer_kinds l)"
  "scratch_budgets (insert_state s l) = scratch_budgets l"
  "readers (insert_state s l) = readers l" "reader_end (insert_state s l) = reader_end l"
  by (simp_all add: insert_state_def Let_def)

lemma scratch_live_insert:
  "dict_get (scratch_live (insert_state s l)) r 0 = dict_get (scratch_live l) r 0
    + (if region_kind (storage s) = ''scratch'' \<and> region_rank (storage s) = r then region_size (storage s) else 0)"
  by (simp add: insert_state_def Let_def)

lemma active_state_insert:
  "map_of (states l) (state_id s) = None \<Longrightarrow> active_state (insert_state s l) x y
    \<longleftrightarrow> (x = state_id s \<and> y = s) \<or> active_state l x y"
  by (auto simp: active_state_def)

lemma index_ok_insert:
  assumes "index_ok l" and new: "map_of (states l) (state_id s) = None"
  shows "index_ok (insert_state s l)"
  unfolding index_ok_def
proof
  fix k
  let ?x = "(region_offset (storage s), state_id s)" and ?es = "index_entries l (region_key (storage s))"
  define ys where "ys = take (bisect_left ?es ?x) ?es @ ?x # drop (bisect_left ?es ?x) ?es"
  have idx: "index_entries (insert_state s l) k = (if region_key (storage s) = k then ys else index_entries l k)"
    by (simp add: insert_state_def Let_def index_entries_def ys_def)
  have "?x \<notin> set ?es" using new by (auto simp: index_okD(3) [OF assms(1)] active_state_def)
  note ins = bisect_insert [OF index_okD(1,2) [OF assms(1)] this, folded ys_def]
  have "set (index_entries (insert_state s l) k) = {(region_offset (storage y), x) | x y.
      active_state (insert_state s l) x y \<and> region_key (storage y) = k}"
  proof (cases "region_key (storage s) = k")
    case True
    then have "set (index_entries (insert_state s l) k) = insert ?x (set (index_entries l k))"
      using idx ins(3) by simp
    with True show ?thesis
      unfolding index_okD(3) [OF assms(1)] active_state_insert [OF new] by auto
  next
    case False
    then show ?thesis
      unfolding idx active_state_insert [OF new] by (auto simp: index_okD(3) [OF assms(1)])
  qed
  moreover have "sorted (index_entries (insert_state s l) k)" "distinct (index_entries (insert_state s l) k)"
    unfolding idx using ins(1,2) index_okD(1,2) [OF assms(1), of k] by simp_all
  ultimately show "sorted (index_entries (insert_state s l) k) \<and> distinct (index_entries (insert_state s l) k)
      \<and> set (index_entries (insert_state s l) k) = {(region_offset (storage y), x) | x y.
        active_state (insert_state s l) x y \<and> region_key (storage y) = k}"
    by blast
qed

lemma scratch_used_insert:
  assumes "states_ok l" "map_of (states l) (state_id s) = None"
  shows "scratch_used (insert_state s l) r = scratch_used l r
    + (if region_kind (storage s) = ''scratch'' \<and> region_rank (storage s) = r then region_size (storage s) else 0)"
proof -
  have "state_id s \<notin> active l" using assms by (auto simp: states_ok_def)
  moreover have "scratch_bytes (insert_state s l) r x = scratch_bytes l r x" if "x \<in> active l" for x
    using that calculation by (auto simp: scratch_bytes_def)
  ultimately show ?thesis
    using assms(1) by (simp add: scratch_used_def states_ok_def scratch_bytes_def)
qed

lemma insert_state_inv:
  assumes inv: "ledger_inv l" and new: "map_of (states l) (state_id s) = None"
    and size: "0 < region_size (storage s)"
    and free: "\<And>x y. active_state l x y \<Longrightarrow> \<not> overlaps (storage s) (storage y)"
    and kind: "\<And>k. map_of (buffer_kinds l) (region_key (storage s)) = Some k \<Longrightarrow> k = region_kind (storage s)"
    and budget: "region_kind (storage s) = ''scratch'' \<Longrightarrow> \<exists>b. map_of (scratch_budgets l) (region_rank (storage s)) = Some b
      \<and> scratch_used l (region_rank (storage s)) + region_size (storage s) \<le> b"
  shows "ledger_inv (insert_state s l)"
  unfolding ledger_inv_def
proof (intro conjI)
  have ok: "states_ok l" "index_ok l" "disjoint_ok l" "kinds_ok l" "scratch_ok l"
    using inv by (auto simp: ledger_inv_def)
  show "states_ok (insert_state s l)" using ok(1) size by (auto simp: states_ok_def)
  show "index_ok (insert_state s l)" by (rule index_ok_insert [OF ok(2) new])
  show "disjoint_ok (insert_state s l)"
    using ok(3) free unfolding disjoint_ok_def active_state_insert [OF new] by (auto simp: overlaps_sym)
  show "kinds_ok (insert_state s l)"
    using ok(4) kind by (fastforce simp: kinds_ok_def split: if_splits)
  show "scratch_ok (insert_state s l)"
    using ok(5) budget unfolding scratch_ok_def scratch_live_insert scratch_used_insert [OF ok(1) new]
    by auto
qed

section \<open>Writes\<close>

definition same_storage :: "version_ledger \<Rightarrow> version_ledger \<Rightarrow> bool" where
  "same_storage l l' \<longleftrightarrow> states l' = states l \<and> active l' = active l \<and> regions l' = regions l
     \<and> buffer_kinds l' = buffer_kinds l \<and> scratch_live l' = scratch_live l
     \<and> scratch_budgets l' = scratch_budgets l"

lemma record_reads_fold:
  defines "f \<equiv> \<lambda>sid end_us l (index, v). note_reader (state_id v) end_us
    (l\<lparr>readers := AList.update (Operation sid index) (state_id v, end_us) (readers l)\<rparr>)"
  shows "same_storage l (foldl (f sid e) l ps)"
    and "dict_get (reader_end (foldl (f sid e) l ps)) x 0
      = (if x \<in> (state_id \<circ> snd) ` set ps then max (dict_get (reader_end l) x 0) e
         else dict_get (reader_end l) x 0)"
proof (induction ps arbitrary: l)
  case (Cons p ps)
  { case 1
    have "same_storage l (f sid e l p)"
      by (cases p) (simp add: f_def note_reader_def same_storage_def)
    with Cons.IH(1) [of "f sid e l p"] show ?case by (simp add: same_storage_def) }
  { case 2
    have "dict_get (reader_end (f sid e l p)) x 0
      = (if x = state_id (snd p) then max (dict_get (reader_end l) x 0) e else dict_get (reader_end l) x 0)"
      by (cases p) (auto simp: f_def note_reader_def)
    with Cons.IH(2) [of "f sid e l p"] show ?case by auto }
qed (simp_all add: same_storage_def)

lemma record_reads_storage: "same_storage l (record_reads sid e reads l)"
  unfolding record_reads_def by (rule record_reads_fold(1))

lemma record_reads_end:
  "dict_get (reader_end (record_reads sid e reads l)) x 0
    = (if x \<in> state_id ` set reads then max (dict_get (reader_end l) x 0) e else dict_get (reader_end l) x 0)"
proof -
  have "(state_id \<circ> snd) ` set (enumerate 0 reads) = state_id ` set reads"
    by (metis image_comp list.set_map map_snd_enumerate)
  then show ?thesis unfolding record_reads_def record_reads_fold(2) by simp
qed

lemma readable_Inr_iff:
  "readable l sid v = Inr s \<longleftrightarrow> active_state l sid s \<and> (\<exists>t. v = Finite t \<and> 0 \<le> t \<and> ready_us s \<le> t)"
  by (auto simp: readable_def state_def active_state_def ledger_time_def res_simps not_less split: option.splits)

lemma reads_ids:
  assumes "states_ok l" "list_all2 (\<lambda>k v. readable l k t = Inr v) ks vs"
  shows "map state_id vs = ks"
  using assms(2)
  by (induction rule: list_all2_induct) (auto simp: readable_Inr_iff states_ok_facts(3) [OF assms(1)])

lemma reads_active:
  assumes "states_ok l" "list_all2 (\<lambda>k v. readable l k (Finite t) = Inr v) ks vs" "v \<in> set vs"
  shows "active_state l (state_id v) v \<and> ready_us v \<le> t"
  using assms(2,3)
  by (induction rule: list_all2_induct) (auto simp: readable_Inr_iff states_ok_facts(3) [OF assms(1)])

lemma scratch_used_diff:
  assumes "states_ok l" "ids \<subseteq> active l" "states l' = states l" "active l' = active l - ids"
  shows "scratch_used l' r = scratch_used l r - (\<Sum>sid\<in>ids. scratch_bytes l r sid)"
proof -
  have "scratch_bytes l' r = scratch_bytes l r" by (simp add: scratch_bytes_def assms(3) fun_eq_iff)
  then show ?thesis
    using assms(1,2,4) sum_diff [of "active l" ids "scratch_bytes l r"] by (simp add: scratch_used_def states_ok_def)
qed

lemma check_scratch_Inr:
  assumes inv: "ledger_inv l" and ids: "distinct ids" "\<And>x. x \<in> set ids \<Longrightarrow> \<exists>y. active_state l x y \<and> overlaps region (storage y)"
    and ok: "check_scratch l region ids = Inr ()" "region_kind region = ''scratch''"
    and kinds: "\<And>k. map_of (buffer_kinds l) (region_key region) = Some k \<Longrightarrow> k = region_kind region"
  obtains b where "map_of (scratch_budgets l) (region_rank region) = Some b"
    "scratch_used l (region_rank region) - (\<Sum>sid\<in>set ids. scratch_bytes l (region_rank region) sid) + region_size region \<le> b"
proof -
  let ?r = "region_rank region"
  obtain sizes b where sizes: "map_res (\<lambda>sid. bnd (states_item l sid) (\<lambda>s. Inr (region_size (storage s)))) ids = Inr sizes"
    and b: "map_of (scratch_budgets l) ?r = Some b" "dict_get (scratch_live l) ?r 0 - sum_list sizes + region_size region \<le> b"
    using ok by (auto simp: check_scratch_def Let_def res_simps split: option.splits)
  have "(bnd (states_item l x) (\<lambda>s. Inr (region_size (storage s))) :: int res) = Inr (scratch_bytes l ?r x)"
    if x: "x \<in> set ids" for x
  proof -
    obtain y where y: "active_state l x y" "overlaps region (storage y)" using ids(2) [OF x] by blast
    then have "region_key (storage y) = region_key region" using overlaps_key by metis
    moreover have "map_of (buffer_kinds l) (region_key (storage y)) = Some (region_kind (storage y))"
      using inv y(1) unfolding ledger_inv_def kinds_ok_def active_state_def by blast
    ultimately have "region_rank (storage y) = ?r" "region_kind (storage y) = ''scratch''"
      using kinds [of "region_kind (storage y)"] ok(2) by (auto simp: region_key_def)
    with y(1) show ?thesis by (simp add: states_item_def active_state_def scratch_bytes_def)
  qed
  then have "sizes = map (scratch_bytes l ?r) ids"
    using sizes map_res_total [of ids _ "scratch_bytes l ?r"] by force
  then have "sum_list sizes = (\<Sum>sid\<in>set ids. scratch_bytes l ?r sid)"
    using ids(1) by (simp add: sum_list_distinct_conv_sum_set)
  moreover have "dict_get (scratch_live l) ?r 0 = scratch_used l ?r"
    using inv by (simp add: ledger_inv_def scratch_ok_def)
  ultimately show ?thesis using that b by simp
qed

text \<open>
  What a successful write did: the versions whose storage it overlaps are no longer valid (none
  of them was still being written or read), every version it read was valid and ready, and the
  invariant holds again.
\<close>

definition overwritten_by :: "version_ledger \<Rightarrow> buffer_region \<Rightarrow> string set" where
  "overwritten_by l region = {x. \<exists>y. active_state l x y \<and> overlaps region (storage y)}"

definition write_effect ::
    "version_ledger \<Rightarrow> state_version \<Rightarrow> rat \<Rightarrow> rat \<Rightarrow> state_version list \<Rightarrow> version_ledger \<Rightarrow> bool" where
  "write_effect l s start_us end_us reads l' \<longleftrightarrow>
     map_of (states l) (state_id s) = None \<and> states l' = states l @ [(state_id s, s)]
     \<and> active l' = insert (state_id s) (active l - overwritten_by l (storage s))
     \<and> 0 \<le> start_us \<and> start_us \<le> end_us \<and> ready_us s = end_us
     \<and> (\<forall>v\<in>set reads. active_state l (state_id v) v \<and> ready_us v \<le> start_us
          \<and> (overlaps (storage s) (storage v) \<longrightarrow> storage s = storage v))
     \<and> (\<forall>x y. active_state l x y \<longrightarrow> overlaps (storage s) (storage y)
          \<longrightarrow> ready_us y \<le> start_us \<and> dict_get (reader_end l) x 0 \<le> start_us)
     \<and> (\<forall>x. dict_get (reader_end l') x 0 = (if x \<in> state_id ` set reads
          then max (dict_get (reader_end l) x 0) end_us else dict_get (reader_end l) x 0))
     \<and> scratch_budgets l' = scratch_budgets l"

lemma store_effect:
  assumes inv: "ledger_inv l" and size: "0 < region_size (storage s)"
    and run: "store l s start finish read_ids initial = Inr l'"
  obtains start_us end_us reads where "start = Finite start_us" "finish = Finite end_us"
    "map state_id reads = read_ids" "write_effect l s start_us end_us reads l'" "ledger_inv l'"
    "initial \<longrightarrow> overwritten_by l (storage s) = {}"
proof -
  have ok: "states_ok l" "kinds_ok l" using inv by (auto simp: ledger_inv_def)
  obtain start_us end_us where times: "start = Finite start_us" "finish = Finite end_us" "0 \<le> start_us" "0 \<le> end_us"
    using run by (auto simp: store_def ledger_time_def res_simps Let_def)
  obtain ids where ids: "overlapping l (storage s) = Inr ids" "distinct ids" "set ids = overwritten_by l (storage s)"
    using overlapping_correct [OF inv size] unfolding overwritten_by_def by blast
  obtain reads l1 where facts: "start_us \<le> end_us" "ready_us s = end_us" "map_of (states l) (state_id s) = None"
    and reads: "list_all2 (\<lambda>k v. readable l k (Finite start_us) = Inr v) read_ids reads"
    and kind: "case map_of (buffer_kinds l) (region_key (storage s)) of None \<Rightarrow> True | Some k \<Rightarrow> k = region_kind (storage s)"
    and sep: "\<And>v. v \<in> set reads \<Longrightarrow> overlaps (storage s) (storage v) \<Longrightarrow> storage s = storage v"
    and old: "\<And>x. x \<in> set ids \<Longrightarrow> check_overwritten l start_us x = Inr ()" "initial \<longrightarrow> ids = []"
    and scratch: "check_scratch l (storage s) ids = Inr ()"
    and l1: "for_each remove_active (record_reads (state_id s) end_us reads l) ids = Inr l1"
    and l': "l' = insert_state s l1"
    using run ids(1) unfolding times
    by (auto simp: store_def ledger_time_def res_simps Let_def map_res_Inr_iff not_less)
  define l0 where "l0 = record_reads (state_id s) end_us reads l"
  have st0: "same_storage l l0" unfolding l0_def by (rule record_reads_storage)
  have inv0: "ledger_inv l0" by (rule ledger_inv_frame [OF inv]) (use st0 in \<open>auto simp: same_storage_def\<close>)
  have "set ids \<subseteq> active l0" using ids(3) st0 by (auto simp: overwritten_by_def active_state_def same_storage_def)
  then obtain l1' where "for_each remove_active l0 ids = Inr l1'" "ledger_inv l1'"
    "active l1' = active l0 - set ids" "same_history l0 l1'"
    using remove_all [OF inv0 ids(2)] by blast
  then have r: "ledger_inv l1" "active l1 = active l - set ids" "states l1 = states l"
    "buffer_kinds l1 = buffer_kinds l" "scratch_budgets l1 = scratch_budgets l" "reader_end l1 = reader_end l0"
    using l1 st0 by (auto simp: l0_def same_storage_def same_history_def)
  have "ledger_inv l'"
    unfolding l'
  proof (rule insert_state_inv [OF r(1) _ size])
    show "map_of (states l1) (state_id s) = None" using facts r by simp
    show "\<not> overlaps (storage s) (storage y)" if "active_state l1 x y" for x y
      using that ids(3) r(2,3) by (auto simp: active_state_def overwritten_by_def)
    show "k = region_kind (storage s)" if "map_of (buffer_kinds l1) (region_key (storage s)) = Some k" for k
      using that kind r(4) by simp
    show "\<exists>b. map_of (scratch_budgets l1) (region_rank (storage s)) = Some b
      \<and> scratch_used l1 (region_rank (storage s)) + region_size (storage s) \<le> b"
      if "region_kind (storage s) = ''scratch''"
      using check_scratch_Inr [OF inv ids(2) _ scratch that] ids(3) kind r
        scratch_used_diff [OF ok(1), of "set ids" l1] \<open>set ids \<subseteq> active l0\<close> st0
      by (force simp: overwritten_by_def same_storage_def)
  qed
  moreover have names: "map state_id reads = read_ids" by (rule reads_ids [OF ok(1) reads])
  moreover have "active_state l (state_id v) v \<and> ready_us v \<le> start_us" if "v \<in> set reads" for v
    by (rule reads_active [OF ok(1) reads that])
  moreover have "ready_us y \<le> start_us \<and> dict_get (reader_end l) x 0 \<le> start_us"
    if "active_state l x y" "overlaps (storage s) (storage y)" for x y
  proof -
    have "x \<in> set ids" using that ids(3) by (auto simp: overwritten_by_def)
    from old(1) [OF this] show ?thesis using that(1)
      by (simp add: check_overwritten_def states_item_def active_state_def no_readers_after_def res_simps not_less)
  qed
  moreover have "states l' = states l @ [(state_id s, s)]"
  proof -
    have "state_id s \<notin> fst ` set (states l)" using facts(3) by (simp add: map_of_eq_None_iff)
    then show ?thesis using l' r(3) by (simp add: length_update_new)
  qed
  ultimately have "write_effect l s start_us end_us reads l'"
    using facts times sep r l' ids(3) record_reads_end [of "state_id s" end_us reads l]
    by (auto simp: write_effect_def l0_def)
  with times names \<open>ledger_inv l'\<close> old(2) ids(3) that show ?thesis by auto
qed

section \<open>State versions in canonical form\<close>

definition sources :: "state_version \<Rightarrow> int set" where
  "sources s = range_source ` set (contributors s)"

text \<open>What the constructor of \<^verbatim>\<open>StateVersion\<close> establishes: one full-range entry per source, in order.\<close>

definition canonical_state :: "state_version \<Rightarrow> bool" where
  "canonical_state s \<longleftrightarrow> 0 \<le> logical_start s \<and> logical_start s < logical_end s
     \<and> region_size (storage s) = logical_end s - logical_start s \<and> region_rank (storage s) = state_rank s
     \<and> sources s \<noteq> {} \<and> (\<forall>src\<in>sources s. 0 \<le> src) \<and> 0 \<le> ready_us s
     \<and> contributors s = map (\<lambda>src. DataRange src (logical_start s) (logical_end s)) (sorted_list_of_set (sources s))"

definition canon_ok :: "version_ledger \<Rightarrow> bool" where
  "canon_ok l \<longleftrightarrow> (\<forall>sid s. map_of (states l) sid = Some s \<longrightarrow> canonical_state s)"

lemma canonical_size: "canonical_state s \<Longrightarrow> 0 < region_size (storage s)"
  by (simp add: canonical_state_def)

lemma canonical_contribution_Inr:
  "canonical_contribution lstart lend pieces src = Inr d \<Longrightarrow> d = DataRange src lstart lend \<and> 0 \<le> src"
  by (auto simp: canonical_contribution_def res_simps)

lemma sort_remdups: "sort (remdups xs) = sorted_list_of_set (set xs)" for xs :: "'a::linorder list"
  by (simp add: sorted_list_of_set_sort_remdups)

lemma list_all2_map_eq:
  "list_all2 (\<lambda>x y. y = f x \<and> P x) xs ys \<Longrightarrow> ys = map f xs \<and> (\<forall>x\<in>set xs. P x)"
  by (induction rule: list_all2_induct) auto

lemma state_version_init_Inr:
  assumes "state_version_init sid rank lstart lend pieces region ready = Inr s"
  shows "canonical_state s" "state_id s = sid" "state_rank s = rank" "logical_start s = lstart"
    "logical_end s = lend" "storage s = region" "ready = Finite (ready_us s)"
    "sources s = range_source ` set pieces"
proof -
  let ?srcs = "sorted_list_of_set (range_source ` set pieces)"
  obtain canonical t where can: "map_res (canonical_contribution lstart lend pieces) ?srcs = Inr canonical"
    and t: "ready = Finite t" "0 \<le> t"
    and s: "s = \<lparr>state_id = sid, state_rank = rank, logical_start = lstart, logical_end = lend,
          contributors = canonical, storage = region, ready_us = t\<rparr>"
    and facts: "0 \<le> lstart" "lstart < lend" "region_rank region = rank" "region_size region = lend - lstart" "pieces \<noteq> []"
    using assms by (auto simp: state_version_init_def res_simps ledger_time_def sort_remdups)
  have "list_all2 (\<lambda>src d. d = DataRange src lstart lend \<and> 0 \<le> src) ?srcs canonical"
    using can unfolding map_res_Inr_iff
    by (rule list_all2_mono) (rule canonical_contribution_Inr)
  then have c: "canonical = map (\<lambda>src. DataRange src lstart lend) ?srcs \<and> (\<forall>src\<in>set ?srcs. 0 \<le> src)"
    by (rule list_all2_map_eq)
  then have src: "sources s = range_source ` set pieces" by (simp add: sources_def s image_image)
  then show "canonical_state s" using c facts t by (auto simp: canonical_state_def s)
  show "state_id s = sid" "state_rank s = rank" "logical_start s = lstart" "logical_end s = lend"
    "storage s = region" "ready = Finite (ready_us s)" using t by (simp_all add: s)
  show "sources s = range_source ` set pieces" by (rule src)
qed

section \<open>Every operation keeps the invariant\<close>

definition ledger_ok :: "version_ledger \<Rightarrow> bool" where
  "ledger_ok l \<longleftrightarrow> ledger_inv l \<and> canon_ok l"

lemma version_ledger_init_ok: "version_ledger_init budgets = Inr l \<Longrightarrow> ledger_ok l"
  by (auto simp: version_ledger_init_def res_simps ledger_ok_def ledger_inv_def states_ok_def index_ok_def
      disjoint_ok_def kinds_ok_def scratch_ok_def canon_ok_def active_state_def index_entries_def
      scratch_used_def dict_get_def)

lemma write_effect_canon:
  "canon_ok l \<Longrightarrow> write_effect l s t t' reads l' \<Longrightarrow> canonical_state s \<Longrightarrow> canon_ok l'"
  by (auto simp: canon_ok_def write_effect_def map_add_Some_iff split: if_splits)

lemma store_ok:
  assumes "ledger_ok l" "canonical_state s" "store l s start finish read_ids initial = Inr l'"
  obtains start_us end_us reads where "start = Finite start_us" "finish = Finite end_us"
    "map state_id reads = read_ids" "write_effect l s start_us end_us reads l'" "ledger_ok l'"
    "initial \<longrightarrow> overwritten_by l (storage s) = {}"
  using assms store_effect [OF _ canonical_size assms(3)] write_effect_canon
  unfolding ledger_ok_def by metis

lemma add_initial_ok:
  assumes "ledger_ok l" "canonical_state s" "add_initial l s = Inr l'"
  shows "write_effect l s (ready_us s) (ready_us s) [] l'" "ledger_ok l'" "overwritten_by l (storage s) = {}"
  using store_ok [OF assms(1,2) assms(3) [unfolded add_initial_def]] by (metis map_is_Nil_conv pyfloat.inject)+

lemma reads_single:
  assumes "states_ok l" "map state_id reads = [a]" "write_effect l s t t' reads l'" "active_state l a v"
  shows "reads = [v]"
  using assms by (auto simp: write_effect_def map_eq_Cons_conv active_state_def)

lemma reads_pair:
  assumes "states_ok l" "map state_id reads = [a, b]" "write_effect l s t t' reads l'"
    "active_state l a v" "active_state l b w"
  shows "reads = [v, w]"
  using assms by (auto simp: write_effect_def map_eq_Cons_conv active_state_def)

lemma copy_ok:
  assumes l: "ledger_ok l" and run: "copy l source_id sid dest start finish = Inr l'"
  obtains source s t t' where "start = Finite t" "finish = Finite t'" "active_state l source_id source"
    "canonical_state s" "state_id s = sid" "storage s = dest"
    "logical_start s = logical_start source" "logical_end s = logical_end source" "sources s = sources source"
    "write_effect l s t t' [source] l'" "ledger_ok l'"
proof -
  obtain source s where src: "readable l source_id start = Inr source"
    and s: "state_version_init sid (region_rank dest) (logical_start source) (logical_end source)
            (contributors source) dest finish = Inr s"
    and st: "store l s start finish [source_id] False = Inr l'"
    using run by (auto simp: copy_def res_simps)
  note init = state_version_init_Inr [OF s]
  have act: "active_state l source_id source" using src by (simp add: readable_Inr_iff)
  obtain t t' reads where w: "start = Finite t" "finish = Finite t'" "map state_id reads = [source_id]"
    "write_effect l s t t' reads l'" "ledger_ok l'"
    by (rule store_ok [OF l init(1) st])
  have "reads = [source]"
    using reads_single [OF _ w(3,4) act] l by (simp add: ledger_ok_def ledger_inv_def)
  moreover have "sources s = sources source" using init(8) by (simp add: sources_def)
  ultimately show ?thesis
    using that [OF w(1,2) act init(1,2,6,4,5)] w(4,5) by simp
qed

lemma reduce_ok:
  assumes l: "ledger_ok l" and run: "reduce l left_id right_id sid dest start finish = Inr l'"
  obtains left right s t t' where "start = Finite t" "finish = Finite t'"
    "active_state l left_id left" "active_state l right_id right"
    "canonical_state s" "state_id s = sid" "storage s = dest"
    "logical_start s = logical_start left" "logical_end s = logical_end left"
    "logical_start right = logical_start left" "logical_end right = logical_end left"
    "sources left \<inter> sources right = {}" "sources s = sources left \<union> sources right"
    "region_rank dest \<in> {state_rank left, state_rank right}"
    "write_effect l s t t' [left, right] l'" "ledger_ok l'"
proof -
  obtain left right s where act: "readable l left_id start = Inr left" "readable l right_id start = Inr right"
    and eq: "logical_start right = logical_start left" "logical_end right = logical_end left"
      "sources left \<inter> sources right = {}" "region_rank dest \<in> {state_rank left, state_rank right}"
    and s: "state_version_init sid (region_rank dest) (logical_start left) (logical_end left)
            (contributors left @ contributors right) dest finish = Inr s"
    and st: "store l s start finish [left_id, right_id] False = Inr l'"
    using run by (auto simp: reduce_def res_simps sources_def)
  note init = state_version_init_Inr [OF s]
  have act: "active_state l left_id left" "active_state l right_id right"
    using act by (simp_all add: readable_Inr_iff)
  obtain t t' reads where w: "start = Finite t" "finish = Finite t'" "map state_id reads = [left_id, right_id]"
    "write_effect l s t t' reads l'" "ledger_ok l'"
    by (rule store_ok [OF l init(1) st])
  have "reads = [left, right]"
    using reads_pair [OF _ w(3,4) act] l by (simp add: ledger_ok_def ledger_inv_def)
  moreover have "sources s = sources left \<union> sources right" using init(8) by (simp add: sources_def image_Un)
  ultimately show ?thesis
    using that [OF w(1,2) act init(1,2,6,4,5) eq(1-3) _ eq(4)] w(4,5) by simp
qed

lemma release_ok:
  assumes "ledger_ok l" "release l sid v = Inr l'"
  obtains s t where "v = Finite t" "active_state l sid s" "ready_us s \<le> t" "dict_get (reader_end l) sid 0 \<le> t"
    "active l' = active l - {sid}" "same_history l l'" "ledger_ok l'"
proof -
  obtain s t where s: "active_state l sid s" "v = Finite t" "ready_us s \<le> t" "dict_get (reader_end l) sid 0 \<le> t"
    and run: "remove_active l sid = Inr l'"
    using assms(2) by (auto simp: release_def res_simps readable_Inr_iff ledger_time_def no_readers_after_def not_less)
  have inv: "ledger_inv l" using assms(1) by (simp add: ledger_ok_def)
  obtain l1 where "remove_active l sid = Inr l1" "ledger_inv l1" "active l1 = active l - {sid}" "same_history l l1"
    using remove_active_correct [OF inv s(1)] by blast
  with that s run assms(1) show ?thesis by (auto simp: ledger_ok_def canon_ok_def same_history_def)
qed

lemma reserve_read_ok:
  assumes "ledger_ok l" "reserve_read l sid rid v w = Inr l'"
  shows "ledger_ok l'" "same_storage l l'"
    "\<exists>t. w = Finite t \<and> t \<le> dict_get (reader_end l') sid 0"
proof -
  show st: "same_storage l l'"
    using assms(2) by (auto simp: reserve_read_def res_simps note_reader_def same_storage_def)
  show "ledger_ok l'"
    using assms(1) st ledger_inv_frame [of l l'] by (auto simp: ledger_ok_def canon_ok_def same_storage_def)
  show "\<exists>t. w = Finite t \<and> t \<le> dict_get (reader_end l') sid 0"
    using assms(2) by (auto simp: reserve_read_def res_simps note_reader_def ledger_time_def)
qed

end
