(* ===== verification/Version_Schedule.thy ===== *)
theory Version_Schedule
  imports Ledger_Invariant
begin

text \<open>
  \<^verbatim>\<open>src/vericcl/semantics/version_schedule.py\<close>: schedules over state versions, their replay
  through the ledger and the check of the collective's outputs.  The replay is modelled for the
  call with \<^verbatim>\<open>lease=None\<close>: a lease only reads the clock and can end the call with
  \<^verbatim>\<open>BudgetExhausted\<close>.
\<close>

section \<open>Schedules\<close>

record output_binding =
  ob_rank :: int
  offset_bytes :: int
  ob_state_id :: string

definition output_binding_post_init :: "output_binding \<Rightarrow> output_binding res" where
  "output_binding_post_init b =
     bnd (nonnegative (ob_rank b) ''output rank'') (\<lambda>_.
     bnd (nonnegative (offset_bytes b) ''output offset'') (\<lambda>_.
     ensure (ob_state_id b \<noteq> '''') (SemanticError ''output needs a state identity'') (Inr b)))"

record version_operation =
  operation_id :: string
  op_kind :: string
  input_states :: "string list"
  output_state :: "string option"
  destination :: "buffer_region option"
  start_us :: rat
  end_us :: rat
  op_stage_id :: int
  dependencies :: "string list"
  participants :: "int list"

definition version_operation_init ::
    "string \<Rightarrow> string \<Rightarrow> string list \<Rightarrow> string option \<Rightarrow> buffer_region option \<Rightarrow> pyfloat \<Rightarrow> pyfloat
      \<Rightarrow> int \<Rightarrow> string list \<Rightarrow> int list \<Rightarrow> version_operation res" where
  "version_operation_init oid k ins out dest start finish stage deps parts =
     ensure (oid \<noteq> '''') (SemanticError ''operation needs a stable identity'') (
     ensure (k \<in> {''copy'', ''reduce'', ''release''}) (SemanticError ''unknown version operation kind'') (
     ensure (length ins = (if k = ''reduce'' then 2 else 1) \<and> distinct ins)
       (SemanticError ''operation has invalid input state identities'') (
     bnd (nonnegative stage ''operation stage'') (\<lambda>_.
     bnd (ledger_time finish) (\<lambda>e.
     bnd (ledger_time start) (\<lambda>s.
     ensure (\<not> e < s) (SemanticError ''operation ends before it starts'') (
     bnd (if k = ''release'' then
            ensure (out = None \<and> dest = None) (SemanticError ''release does not create a state'') (Inr ())
          else ensure (out \<noteq> None \<and> out \<noteq> Some '''' \<and> dest \<noteq> None)
            (SemanticError ''write operation needs output state and storage'') (Inr ())) (\<lambda>_.
     ensure (distinct deps) (SemanticError ''duplicate operation dependency'') (
     ensure (distinct parts) (SemanticError ''duplicate participant rank'') (
     bnd (check_each (\<lambda>r. bnd (nonnegative r ''participant rank'') (\<lambda>_. Inr ())) parts) (\<lambda>_.
     Inr \<lparr>operation_id = oid, op_kind = k, input_states = ins, output_state = out, destination = dest,
          start_us = s, end_us = e, op_stage_id = stage, dependencies = deps, participants = parts\<rparr>)))))))))))"

record version_schedule =
  vs_rank_count :: int
  input_bytes :: int
  vs_slice_size_bytes :: int
  stage_count :: int
  initial_states :: "state_version list"
  operations :: "version_operation list"
  outputs :: "output_binding list"

definition positive_field :: "string \<Rightarrow> int \<Rightarrow> unit res" where
  "positive_field name v =
     bnd (nonnegative v name) (\<lambda>_. ensure (v \<noteq> 0) (SemanticError (name @ '' must be positive'')) (Inr ()))"

definition version_schedule_post_init :: "version_schedule \<Rightarrow> version_schedule res" where
  "version_schedule_post_init sch =
     bnd (positive_field ''rank_count'' (vs_rank_count sch)) (\<lambda>_.
     bnd (positive_field ''input_bytes'' (input_bytes sch)) (\<lambda>_.
     bnd (positive_field ''slice_size_bytes'' (vs_slice_size_bytes sch)) (\<lambda>_.
     bnd (positive_field ''stage_count'' (stage_count sch)) (\<lambda>_.
     ensure (input_bytes sch mod vs_slice_size_bytes sch = 0)
       (SemanticError ''schedule slice size must divide input size'') (
     ensure (distinct (map operation_id (operations sch))) (SemanticError ''operation identities must be unique'') (
     ensure (\<not> (\<exists>op\<in>set (operations sch). stage_count sch \<le> op_stage_id op))
       (SemanticError ''operation stage exceeds logical stage count'') (Inr sch)))))))"

section \<open>Interval covers\<close>

fun interval_cursor :: "string \<Rightarrow> int \<Rightarrow> int \<Rightarrow> (int \<times> int) list \<Rightarrow> int res" where
  "interval_cursor label end_at cursor [] = Inr cursor"
| "interval_cursor label end_at cursor ((left, right) # rest) =
     ensure (\<not> (left \<noteq> cursor \<or> right \<le> left \<or> end_at < right))
       (SemanticError (label @ '' has a gap, duplicate or out-of-range interval''))
       (interval_cursor label end_at right rest)"

definition check_interval_cover :: "(int \<times> int) list \<Rightarrow> int \<Rightarrow> int \<Rightarrow> string \<Rightarrow> unit res" where
  "check_interval_cover intervals start end_at label =
     bnd (interval_cursor label end_at start (sort intervals)) (\<lambda>cursor.
     ensure (cursor = end_at) (SemanticError (label @ '' is incomplete'')) (Inr ()))"

section \<open>Initial states\<close>

text \<open>A broadcast without a root has the impossible source rank \<open>-1\<close> (Python: \<^verbatim>\<open>None\<close>).\<close>

definition source_ranks :: "resolved_input \<Rightarrow> int \<Rightarrow> int list" where
  "source_ranks inputs ranks =
     (if kind (collective inputs) = BROADCAST then [root_value (collective inputs)] else py_range 0 ranks)"

definition add_initial_state ::
    "version_schedule \<Rightarrow> resolved_input \<Rightarrow> (int, (int \<times> int) list) dict \<times> version_ledger \<Rightarrow> state_version
      \<Rightarrow> ((int, (int \<times> int) list) dict \<times> version_ledger) res" where
  "add_initial_state sch inputs acc s =
     (case acc of (covered, l) \<Rightarrow>
       ensure (\<not> (state_rank s \<notin> set (source_ranks inputs (vs_rank_count sch)) \<or> ready_us s \<noteq> 0
           \<or> length (contributors s) \<noteq> 1 \<or> range_source (hd (contributors s)) \<noteq> state_rank s))
         (SemanticError ''initial state must contain only its rank's original input'') (
       ensure (\<not> (logical_end s - logical_start s \<noteq> vs_slice_size_bytes sch
           \<or> logical_start s mod vs_slice_size_bytes sch \<noteq> 0))
         (SemanticError ''initial state does not match the resolved slice partition'') (
       bnd (add_initial l s) (\<lambda>l'.
       Inr (AList.update (state_rank s) (dict_get covered (state_rank s) [] @ [(logical_start s, logical_end s)]) covered,
            l')))))"

definition add_initial_states :: "version_schedule \<Rightarrow> resolved_input \<Rightarrow> version_ledger \<Rightarrow> version_ledger res" where
  "add_initial_states sch inputs l =
     bnd (for_each (add_initial_state sch inputs)
            (map (\<lambda>rank. (rank, [])) (source_ranks inputs (vs_rank_count sch)), l) (initial_states sch)) (\<lambda>(covered, l').
     bnd (check_each (\<lambda>(rank, intervals).
            check_interval_cover intervals 0 (input_bytes sch) (''initial input for rank '' @ str_int rank)) covered) (\<lambda>_.
     Inr l'))"

section \<open>Outputs\<close>

record segment =
  seg_rank :: int
  seg_start :: int
  seg_end :: int
  seg_logical :: int
  seg_sources :: "int set"

definition expected_segments :: "collective_spec \<Rightarrow> int \<Rightarrow> int \<Rightarrow> segment list res" where
  "expected_segments spec ranks nbytes =
     (let k = kind spec; all_sources = set (py_range 0 ranks) in
      if k \<in> {BROADCAST, REDUCE, ALL_REDUCE} then
        (let dests = (if k = REDUCE then [root_value spec] else py_range 0 ranks);
             srcs = (if k = BROADCAST then {root_value spec} else all_sources)
         in Inr (map (\<lambda>rank. \<lparr>seg_rank = rank, seg_start = 0, seg_end = nbytes, seg_logical = 0, seg_sources = srcs\<rparr>) dests))
      else if k = ALL_GATHER then
        Inr (concat (map (\<lambda>rank. map (\<lambda>source. \<lparr>seg_rank = rank, seg_start = source * nbytes,
          seg_end = (source + 1) * nbytes, seg_logical = 0, seg_sources = {source}\<rparr>) (py_range 0 ranks)) (py_range 0 ranks)))
      else if k \<in> {ALL_TO_ALL, REDUCE_SCATTER} then
        ensure (ranks \<noteq> 0) ZeroDivisionError (
        ensure (nbytes mod ranks = 0) (SemanticError ''partitioned collective input must divide by rank count'') (
        let part = nbytes div ranks in
        if k = REDUCE_SCATTER then
          Inr (map (\<lambda>rank. \<lparr>seg_rank = rank, seg_start = 0, seg_end = part, seg_logical = rank * part,
            seg_sources = all_sources\<rparr>) (py_range 0 ranks))
        else
          Inr (concat (map (\<lambda>rank. map (\<lambda>source. \<lparr>seg_rank = rank, seg_start = source * part,
            seg_end = (source + 1) * part, seg_logical = rank * part, seg_sources = {source}\<rparr>)
            (py_range 0 ranks)) (py_range 0 ranks)))))
      else Inl (SemanticError ''unsupported external output semantics''))"

definition segments_by_rank :: "segment list \<Rightarrow> (int, (int \<times> int) list) dict" where
  "segments_by_rank expected =
     foldl (\<lambda>d (index, seg). AList.update (seg_rank seg)
              (dict_get d (seg_rank seg) [] @ [(seg_start seg, int index)]) d) [] (enumerate 0 expected)"

definition place_output ::
    "segment list \<Rightarrow> version_ledger \<Rightarrow> pyfloat \<Rightarrow> string set \<times> (nat, (int \<times> int) list) dict \<Rightarrow> output_binding
      \<Rightarrow> (string set \<times> (nat, (int \<times> int) list) dict) res" where
  "place_output expected l at_us acc out =
     (case acc of (used_states, coverage) \<Rightarrow>
       bnd (readable l (ob_state_id out) at_us) (\<lambda>s.
       ensure (\<not> (ob_state_id out \<in> used_states \<or> state_rank s \<noteq> ob_rank out))
         (SemanticError ''duplicate output state or wrong output rank'') (
       let out_end = offset_bytes out + logical_end s - logical_start s;
           segments = dict_get (segments_by_rank expected) (ob_rank out) [];
           position = bisect_right segments (offset_bytes out, int (length expected)) in
       ensure (position \<noteq> 0) (SemanticError ''output range does not belong to an expected result segment'') (
       let index = nat (snd (segments ! (position - 1))); seg = expected ! index in
       ensure (\<not> seg_end seg < out_end) (SemanticError ''output range does not belong to an expected result segment'') (
       ensure (\<not> (logical_start s \<noteq> seg_logical seg + offset_bytes out - seg_start seg
           \<or> set (map range_source (contributors s)) \<noteq> seg_sources seg))
         (SemanticError ''output has missing, repeated or wrong original contributions'') (
       Inr (insert (ob_state_id out) used_states,
            AList.update index (dict_get coverage index [] @ [(offset_bytes out, out_end)]) coverage)))))))"

definition add_total :: "(int, int) dict \<Rightarrow> segment \<Rightarrow> (int, int) dict res" where
  "add_total totals seg = (case map_of totals (seg_rank seg) of
     None \<Rightarrow> Inl (KeyError (str_int (seg_rank seg)))
   | Some v \<Rightarrow> Inr (AList.update (seg_rank seg) (v + (seg_end seg - seg_start seg)) totals))"

definition check_version_outputs ::
    "collective_spec \<Rightarrow> int \<Rightarrow> int \<Rightarrow> output_binding list \<Rightarrow> version_ledger \<Rightarrow> pyfloat \<Rightarrow> (int, int) dict res" where
  "check_version_outputs spec ranks nbytes outs l at_us =
     bnd (expected_segments spec ranks nbytes) (\<lambda>expected.
     bnd (for_each (place_output expected l at_us)
            ({}, map (\<lambda>index. (index, [])) [0..<length expected]) outs) (\<lambda>(_, coverage).
     for_each (\<lambda>totals (index, seg).
         bnd (check_interval_cover (dict_get coverage index []) (seg_start seg) (seg_end seg)
               (''output for rank '' @ str_int (seg_rank seg))) (\<lambda>_.
         add_total totals seg))
       (map (\<lambda>rank. (rank, 0)) (py_range 0 ranks)) (enumerate 0 expected)))"

section \<open>Replay\<close>

definition check_dependency :: "(string, rat) dict \<Rightarrow> rat \<Rightarrow> string \<Rightarrow> unit res" where
  "check_dependency finished start dep =
     (case map_of finished dep of
        None \<Rightarrow> Inl (SemanticError ''explicit dependency is not complete'')
      | Some t \<Rightarrow> ensure (\<not> start < t) (SemanticError ''explicit dependency is not complete'') (Inr ()))"

definition check_transfer ::
    "constraint_set \<Rightarrow> (int \<times> int) set \<Rightarrow> version_operation \<Rightarrow> buffer_region \<Rightarrow> state_version \<Rightarrow> unit res" where
  "check_transfer cs links op dest s =
     ensure (\<not> (participants op \<noteq> [] \<and> (state_rank s \<notin> set (participants op)
         \<or> region_rank dest \<notin> set (participants op))))
       (SemanticError ''operation uses a GPU outside its explicit participant group'') (
     if state_rank s \<noteq> region_rank dest then
       ensure ((state_rank s, region_rank dest) \<in> links) (SemanticError ''operation uses an absent directed link'') (
       bnd (allows cs (contributors s) (state_rank s) (region_rank dest) (op_stage_id op)) (\<lambda>ok.
       ensure ok (SemanticError ''operation violates a source-range directed-edge constraint'') (Inr ())))
     else Inr ())"

definition run_method :: "version_ledger \<Rightarrow> version_operation \<Rightarrow> buffer_region \<Rightarrow> version_ledger res" where
  "run_method l op dest =
     (case output_state op of
        None \<Rightarrow> Inl TypeError
      | Some out \<Rightarrow>
          if op_kind op = ''reduce'' then
            (case input_states op of
               [a, b] \<Rightarrow> reduce l a b out dest (Finite (start_us op)) (Finite (end_us op))
             | _ \<Rightarrow> Inl TypeError)
          else
            (case input_states op of
               [a] \<Rightarrow> copy l a out dest (Finite (start_us op)) (Finite (end_us op))
             | _ \<Rightarrow> Inl TypeError))"

definition replay_body ::
    "version_schedule \<Rightarrow> constraint_set \<Rightarrow> (int \<times> int) set \<Rightarrow> version_ledger \<Rightarrow> (string, rat) dict
      \<Rightarrow> version_operation \<Rightarrow> version_ledger res" where
  "replay_body sch cs links l finished op =
     bnd (check_each (check_dependency finished (start_us op)) (dependencies op)) (\<lambda>_.
     bnd (map_res (\<lambda>key. readable l key (Finite (start_us op))) (input_states op)) (\<lambda>ins.
     if op_kind op = ''release'' then
       (case ins of [] \<Rightarrow> Inl IndexError | s # _ \<Rightarrow> release l (state_id s) (Finite (start_us op)))
     else
       (case destination op of
          None \<Rightarrow> Inl TypeError
        | Some dest \<Rightarrow>
            ensure (region_rank dest < vs_rank_count sch) (SemanticError ''destination rank is outside the group'') (
            bnd (check_each (check_transfer cs links op dest) ins) (\<lambda>_.
            run_method l op dest)))))"

definition wrap_error :: "string \<Rightarrow> 'a res \<Rightarrow> 'a res" where
  "wrap_error oid r = (case r of
     Inl (SemanticError m) \<Rightarrow> Inl (SemanticError (''operation '' @ oid @ '': '' @ m))
   | Inl e \<Rightarrow> Inl e
   | Inr x \<Rightarrow> Inr x)"

definition replay_step ::
    "version_schedule \<Rightarrow> constraint_set \<Rightarrow> (int \<times> int) set \<Rightarrow> version_ledger \<times> (string, rat) dict
      \<Rightarrow> version_operation \<Rightarrow> (version_ledger \<times> (string, rat) dict) res" where
  "replay_step sch cs links acc op =
     (case acc of (l, finished) \<Rightarrow>
       bnd (wrap_error (operation_id op) (replay_body sch cs links l finished op)) (\<lambda>l'.
       Inr (l', AList.update (operation_id op) (end_us op) finished)))"

definition replay_order :: "version_schedule \<Rightarrow> version_operation list" where
  "replay_order sch = sort_key (\<lambda>op. (start_us op, end_us op, operation_id op)) (operations sch)"

record replay_summary =
  output_bytes :: "(int, int) dict"
  state_versions :: nat
  operation_count :: nat

definition replay_version_schedule ::
    "version_schedule \<Rightarrow> resolved_input \<Rightarrow> (version_ledger \<times> replay_summary) res" where
  "replay_version_schedule sch inputs =
     ensure (\<not> (vs_rank_count sch \<noteq> rank_count inputs \<or> input_bytes sch \<noteq> total_size_bytes (hyper inputs)
         \<or> Some (vs_slice_size_bytes sch) \<noteq> slice_size_bytes (hyper inputs)))
       (SemanticError ''schedule dimensions differ from the resolved partition'') (
     ensure (case stage_num (atom_cons inputs) of None \<Rightarrow> True | Some k \<Rightarrow> stage_count sch = k)
       (SemanticError ''schedule does not preserve fixed stage count'') (
     bnd (version_ledger_init (map (\<lambda>rank. (rank, scratch_bytes_per_rank inputs)) (py_range 0 (vs_rank_count sch)))) (\<lambda>l0.
     bnd (add_initial_states sch inputs l0) (\<lambda>l1.
     bnd (bind_constraints inputs) (\<lambda>cs.
     let links = set (map (\<lambda>e. (link_src e, link_dst e)) (directed_links inputs)) in
     bnd (for_each (replay_step sch cs links) (l1, []) (replay_order sch)) (\<lambda>(l2, finished).
     let at_us = fold max (map snd finished) 0 in
     bnd (check_version_outputs (collective inputs) (vs_rank_count sch) (input_bytes sch) (outputs sch) l2 (Finite at_us)) (\<lambda>totals.
     Inr (l2, \<lparr>output_bytes = totals, state_versions = length (ledger_states l2),
               operation_count = length (operations sch)\<rparr>))))))))"

end
