(* ===== verification/Replay.thy ===== *)
theory Replay
  imports Version_Schedule
begin

text \<open>
  What an accepted replay means for the bytes that are moved.  \<open>memory\<close> maps every byte of every
  buffer to the multiset of original input bytes summed into it; \<open>mem_step\<close> performs the data
  movement of one operation on the storage its inputs occupy.  The ledger's bookkeeping is a
  simulation: each valid state version describes exactly what its storage holds.  Also here:
  accepted operations that touch a common byte, one of them writing, do not overlap in time.
\<close>

section \<open>Memory\<close>

type_synonym cell = "int \<times> string \<times> int"
type_synonym memory = "cell \<Rightarrow> (int \<times> int) multiset"

definition cell_of :: "buffer_region \<Rightarrow> int \<Rightarrow> cell" where
  "cell_of r i = (region_rank r, buffer_id r, region_offset r + i)"

definition write_region :: "buffer_region \<Rightarrow> (int \<Rightarrow> (int \<times> int) multiset) \<Rightarrow> memory \<Rightarrow> memory" where
  "write_region r f mem = (\<lambda>(rank, buf, b).
     if rank = region_rank r \<and> buf = buffer_id r \<and> region_offset r \<le> b \<and> b < region_offset r + region_size r
     then f (b - region_offset r) else mem (rank, buf, b))"

definition input_byte :: "version_ledger \<Rightarrow> memory \<Rightarrow> int \<Rightarrow> string \<Rightarrow> (int \<times> int) multiset" where
  "input_byte l mem i sid =
     (case map_of (states l) sid of None \<Rightarrow> {#} | Some s \<Rightarrow> mem (cell_of (storage s) i))"

definition mem_step :: "version_ledger \<Rightarrow> version_operation \<Rightarrow> memory \<Rightarrow> memory" where
  "mem_step l op mem =
     (if op_kind op = ''release'' then mem
      else case destination op of
        None \<Rightarrow> mem
      | Some dest \<Rightarrow> write_region dest (\<lambda>i. \<Sum>sid\<leftarrow>input_states op. input_byte l mem i sid) mem)"

text \<open>The bytes a state version stands for: one original byte per source rank, each counted once.\<close>

definition payload_byte :: "int set \<Rightarrow> int \<Rightarrow> (int \<times> int) multiset" where
  "payload_byte srcs b = image_mset (\<lambda>src. (src, b)) (mset_set srcs)"

definition holds :: "memory \<Rightarrow> state_version \<Rightarrow> bool" where
  "holds mem s \<longleftrightarrow> (\<forall>i. 0 \<le> i \<longrightarrow> i < region_size (storage s)
     \<longrightarrow> mem (cell_of (storage s) i) = payload_byte (sources s) (logical_start s + i))"

definition agrees :: "version_ledger \<Rightarrow> memory \<Rightarrow> bool" where
  "agrees l mem \<longleftrightarrow> (\<forall>sid s. active_state l sid s \<longrightarrow> holds mem s)"

section \<open>What an accepted operation did\<close>

definition transfer_checked :: "constraint_set \<Rightarrow> (int \<times> int) set \<Rightarrow> version_operation \<Rightarrow> buffer_region \<Rightarrow> state_version \<Rightarrow> bool" where
  "transfer_checked cs links op dest v \<longleftrightarrow> (state_rank v \<noteq> region_rank dest \<longrightarrow>
     (state_rank v, region_rank dest) \<in> links
     \<and> allows cs (contributors v) (state_rank v) (region_rank dest) (op_stage_id op) = Inr True)
     \<and> (participants op \<noteq> [] \<longrightarrow> state_rank v \<in> set (participants op) \<and> region_rank dest \<in> set (participants op))"

definition release_effect :: "version_ledger \<Rightarrow> version_operation \<Rightarrow> version_ledger \<Rightarrow> bool" where
  "release_effect l op l' \<longleftrightarrow> op_kind op = ''release'' \<and> (\<exists>sid s. active_state l sid s
     \<and> ready_us s \<le> start_us op \<and> dict_get (reader_end l) sid 0 \<le> start_us op
     \<and> active l' = active l - {sid} \<and> same_history l l')"

definition move_effect :: "constraint_set \<Rightarrow> (int \<times> int) set \<Rightarrow> version_ledger \<Rightarrow> version_operation \<Rightarrow> version_ledger \<Rightarrow> bool" where
  "move_effect cs links l op l' \<longleftrightarrow> op_kind op \<noteq> ''release'' \<and> (\<exists>s reads. destination op = Some (storage s)
     \<and> canonical_state s \<and> map state_id reads = input_states op
     \<and> write_effect l s (start_us op) (end_us op) reads l'
     \<and> (\<forall>v\<in>set reads. logical_start v = logical_start s \<and> logical_end v = logical_end s
          \<and> transfer_checked cs links op (storage s) v)
     \<and> mset_set (sources s) = (\<Sum>v\<leftarrow>reads. mset_set (sources v)))"

definition replay_effect :: "constraint_set \<Rightarrow> (int \<times> int) set \<Rightarrow> version_ledger \<times> (string, rat) dict
    \<Rightarrow> version_operation \<Rightarrow> version_ledger \<times> (string, rat) dict \<Rightarrow> bool" where
  "replay_effect cs links acc op acc' \<longleftrightarrow>
     (release_effect (fst acc) op (fst acc') \<or> move_effect cs links (fst acc) op (fst acc'))
     \<and> snd acc' = AList.update (operation_id op) (end_us op) (snd acc)
     \<and> (\<forall>dep\<in>set (dependencies op). \<exists>t. map_of (snd acc) dep = Some t \<and> t \<le> start_us op)"

lemma sources_finite [simp]: "finite (sources s)"
  by (simp add: sources_def)

lemma wrap_error_Inr_iff [res_simps]: "wrap_error oid r = Inr x \<longleftrightarrow> r = Inr x"
  by (auto simp: wrap_error_def split: sum.splits error.splits)

lemma check_transfer_checked:
  "check_transfer cs links op dest v = Inr () \<Longrightarrow> transfer_checked cs links op dest v"
  by (auto simp: check_transfer_def transfer_checked_def res_simps split: if_splits)

lemma run_method_effect:
  assumes "ledger_ok l" "run_method l op dest = Inr l'" "destination op = Some dest" "op_kind op \<noteq> ''release''"
    and reads: "list_all2 (\<lambda>k v. readable l k (Finite (start_us op)) = Inr v) (input_states op) ins"
    and checked: "\<And>v. v \<in> set ins \<Longrightarrow> transfer_checked cs links op dest v"
  shows "ledger_ok l' \<and> move_effect cs links l op l'"
proof -
  obtain out where out: "output_state op = Some out"
    using assms(2) by (auto simp: run_method_def split: option.splits)
  show ?thesis
  proof (cases "op_kind op = ''reduce''")
    case True
    obtain a b where ab: "input_states op = [a, b]"
      and run: "reduce l a b out dest (Finite (start_us op)) (Finite (end_us op)) = Inr l'"
      using assms(2) True out by (auto simp: run_method_def split: list.splits)
    obtain left right s where acts: "active_state l a left" "active_state l b right"
      and s: "canonical_state s" "storage s = dest" "logical_start s = logical_start left"
        "logical_end s = logical_end left" "logical_start right = logical_start left"
        "logical_end right = logical_end left" "sources left \<inter> sources right = {}"
        "sources s = sources left \<union> sources right"
      and w: "write_effect l s (start_us op) (end_us op) [left, right] l'" "ledger_ok l'"
      using reduce_ok [OF assms(1) run] by (metis pyfloat.inject)
    have ids: "state_id left = a" "state_id right = b"
      using acts assms(1) by (auto simp: ledger_ok_def ledger_inv_def dest: states_ok_facts(3))
    have "ins = [left, right]"
      using reads acts by (auto simp: ab list_all2_Cons1 readable_Inr_iff active_state_def)
    with checked have "\<forall>v\<in>set [left, right]. transfer_checked cs links op (storage s) v" by (simp add: s(2))
    moreover have "mset_set (sources s) = mset_set (sources left) + mset_set (sources right)"
      using s(7,8) by (simp add: mset_set_Union)
    ultimately have "move_effect cs links l op l'"
      unfolding move_effect_def using assms(3,4) s w ids ab
      by (intro conjI exI [of _ s] exI [of _ "[left, right]"]) auto
    with w(2) show ?thesis by simp
  next
    case False
    obtain a where a: "input_states op = [a]"
      and run: "copy l a out dest (Finite (start_us op)) (Finite (end_us op)) = Inr l'"
      using assms(2) False out by (auto simp: run_method_def split: list.splits)
    obtain source s where acts: "active_state l a source"
      and s: "canonical_state s" "storage s = dest" "logical_start s = logical_start source"
        "logical_end s = logical_end source" "sources s = sources source"
      and w: "write_effect l s (start_us op) (end_us op) [source] l'" "ledger_ok l'"
      using copy_ok [OF assms(1) run] by (metis pyfloat.inject)
    have ids: "state_id source = a"
      using acts assms(1) by (auto simp: ledger_ok_def ledger_inv_def dest: states_ok_facts(3))
    have "ins = [source]"
      using reads acts by (auto simp: a list_all2_Cons1 readable_Inr_iff active_state_def)
    with checked have "transfer_checked cs links op (storage s) source" by (simp add: s(2))
    then have "move_effect cs links l op l'"
      unfolding move_effect_def using assms(3,4) s w ids a
      by (intro conjI exI [of _ s] exI [of _ "[source]"]) auto
    with w(2) show ?thesis by simp
  qed
qed

lemma replay_body_effect:
  assumes l: "ledger_ok l" and run: "replay_body sch cs links l finished op = Inr l'"
  shows "ledger_ok l' \<and> (release_effect l op l' \<or> move_effect cs links l op l')"
proof -
  obtain ins where ins: "list_all2 (\<lambda>k v. readable l k (Finite (start_us op)) = Inr v) (input_states op) ins"
    and rest: "(if op_kind op = ''release'' then
       (case ins of [] \<Rightarrow> Inl IndexError | s # _ \<Rightarrow> release l (state_id s) (Finite (start_us op)))
     else
       (case destination op of
          None \<Rightarrow> Inl TypeError
        | Some dest \<Rightarrow>
            ensure (region_rank dest < vs_rank_count sch) (SemanticError ''destination rank is outside the group'') (
            bnd (check_each (check_transfer cs links op dest) ins) (\<lambda>_. run_method l op dest)))) = Inr l'"
    using run unfolding replay_body_def by (auto simp: res_simps map_res_Inr_iff)
  show ?thesis
  proof (cases "op_kind op = ''release''")
    case True
    obtain s ss where "ins = s # ss" using rest True by (cases ins) simp_all
    with rest True have "release l (state_id s) (Finite (start_us op)) = Inr l'" by simp
    from release_ok [OF l this] True show ?thesis unfolding release_effect_def by (metis pyfloat.inject)
  next
    case False
    then obtain dest where dest: "destination op = Some dest" "run_method l op dest = Inr l'"
      "\<And>v. v \<in> set ins \<Longrightarrow> check_transfer cs links op dest v = Inr ()"
      using rest by (auto simp: res_simps split: option.splits)
    with run_method_effect [OF l dest(2,1) False ins] check_transfer_checked show ?thesis by blast
  qed
qed

lemma replay_body_dependencies:
  "replay_body sch cs links l finished op = Inr l'
    \<Longrightarrow> \<forall>dep\<in>set (dependencies op). \<exists>t. map_of finished dep = Some t \<and> t \<le> start_us op"
  by (auto simp: replay_body_def check_dependency_def res_simps not_less split: option.splits)

lemma replay_step_effect:
  assumes "ledger_ok (fst acc)" "replay_step sch cs links acc op = Inr acc'"
  shows "ledger_ok (fst acc') \<and> replay_effect cs links acc op acc'"
proof -
  obtain l finished where acc: "acc = (l, finished)" by (cases acc)
  then obtain l' where body: "replay_body sch cs links l finished op = Inr l'"
    and acc': "acc' = (l', AList.update (operation_id op) (end_us op) finished)"
    using assms(2) by (auto simp: replay_step_def res_simps)
  show ?thesis
    using replay_body_effect [OF _ body] replay_body_dependencies [OF body] assms(1)
    by (simp add: acc acc' replay_effect_def)
qed

interpretation replaying: guarded_run "\<lambda>acc. ledger_ok (fst acc)" "replay_step sch cs links" "replay_effect cs links"
  for sch cs links
  by unfold_locales (blast dest: replay_step_effect)+

section \<open>The ledger simulates the memory\<close>

lemma write_region_inside:
  "0 \<le> i \<Longrightarrow> i < region_size r \<Longrightarrow> write_region r f mem (cell_of r i) = f i"
  by (simp add: write_region_def cell_of_def)

lemma write_region_outside:
  assumes "\<not> overlaps r r'" "0 < region_size r" "0 < region_size r'" "0 \<le> i" "i < region_size r'"
  shows "write_region r f mem (cell_of r' i) = mem (cell_of r' i)"
  using assms by (auto simp: write_region_def cell_of_def overlaps_def)

lemma holds_write_outside:
  "holds mem y \<Longrightarrow> \<not> overlaps r (storage y) \<Longrightarrow> 0 < region_size r \<Longrightarrow> 0 < region_size (storage y)
    \<Longrightarrow> holds (write_region r f mem) y"
  by (simp add: holds_def write_region_outside)

lemma payload_byte_sum:
  "mset_set srcs = (\<Sum>v\<leftarrow>vs. mset_set (f v)) \<Longrightarrow> payload_byte srcs b = (\<Sum>v\<leftarrow>vs. payload_byte (f v) b)"
proof -
  assume "mset_set srcs = (\<Sum>v\<leftarrow>vs. mset_set (f v))"
  moreover have "image_mset g (\<Sum>v\<leftarrow>vs. mset_set (f v)) = (\<Sum>v\<leftarrow>vs. image_mset g (mset_set (f v)))"
    for g :: "int \<Rightarrow> int \<times> int"
    by (induction vs) auto
  ultimately show ?thesis by (simp add: payload_byte_def)
qed

lemma write_effect_active:
  assumes "write_effect l s t t' reads l'" "active_state l' x y" "x \<noteq> state_id s"
  shows "active_state l x y \<and> \<not> overlaps (storage s) (storage y)"
  using assms by (auto simp: write_effect_def active_state_def overwritten_by_def map_add_Some_iff
      split: if_splits)

lemma write_effect_new:
  assumes "write_effect l s t t' reads l'"
  shows "active_state l' (state_id s) s"
  using assms by (auto simp: write_effect_def active_state_def map_add_def)

lemma move_agrees:
  assumes l: "ledger_ok l" and move: "move_effect cs links l op l'" and mem: "agrees l mem"
  shows "agrees l' (mem_step l op mem)"
proof -
  obtain s reads where s: "op_kind op \<noteq> ''release''" "destination op = Some (storage s)" "canonical_state s"
    "map state_id reads = input_states op" "write_effect l s (start_us op) (end_us op) reads l'"
    and same: "\<And>v. v \<in> set reads \<Longrightarrow> logical_start v = logical_start s \<and> logical_end v = logical_end s"
    and sum: "mset_set (sources s) = (\<Sum>v\<leftarrow>reads. mset_set (sources v))"
    using move unfolding move_effect_def by blast
  let ?f = "\<lambda>i. \<Sum>sid\<leftarrow>input_states op. input_byte l mem i sid"
  have step: "mem_step l op mem = write_region (storage s) ?f mem"
    using s by (simp add: mem_step_def)
  have canon: "canonical_state y" if "active_state l x y" for x y
    using that l by (auto simp: ledger_ok_def canon_ok_def active_state_def)
  have reads: "active_state l (state_id v) v" if "v \<in> set reads" for v
    using s(5) that by (simp add: write_effect_def)
  have byte: "input_byte l mem i (state_id v) = payload_byte (sources v) (logical_start s + i)"
    if v: "v \<in> set reads" and i: "0 \<le> i" "i < region_size (storage s)" for v i
  proof -
    have "region_size (storage v) = region_size (storage s)"
      using canon [OF reads [OF v]] s(3) same [OF v] by (simp add: canonical_state_def)
    moreover have "holds mem v" using mem reads [OF v] by (auto simp: agrees_def)
    ultimately show ?thesis
      using reads [OF v] same [OF v] i by (simp add: holds_def input_byte_def active_state_def)
  qed
  have "holds (write_region (storage s) ?f mem) s"
    unfolding holds_def
  proof (intro allI impI)
    fix i assume i: "0 \<le> i" "i < region_size (storage s)"
    have "?f i = (\<Sum>v\<leftarrow>reads. input_byte l mem i (state_id v))" by (simp add: s(4) [symmetric] comp_def)
    also have "\<dots> = (\<Sum>v\<leftarrow>reads. payload_byte (sources v) (logical_start s + i))"
      using byte [OF _ i] by (intro arg_cong [where f = sum_list] map_cong) auto
    finally show "write_region (storage s) ?f mem (cell_of (storage s) i) = payload_byte (sources s) (logical_start s + i)"
      using payload_byte_sum [OF sum] i by (simp add: write_region_inside)
  qed
  moreover have "holds (write_region (storage s) ?f mem) y" if "active_state l' x y" "x \<noteq> state_id s" for x y
    using write_effect_active [OF s(5) that] mem canon s(3)
    by (intro holds_write_outside) (auto simp: agrees_def intro: canonical_size)
  moreover have "y = s" if "active_state l' (state_id s) y" for y
    using that write_effect_new [OF s(5)] by (rule active_state_functional)
  ultimately show ?thesis unfolding agrees_def step by metis
qed

lemma release_agrees:
  assumes "release_effect l op l'" "agrees l mem"
  shows "agrees l' (mem_step l op mem)"
proof -
  have "op_kind op = ''release''" "active l' \<subseteq> active l" "states l' = states l"
    using assms(1) by (auto simp: release_effect_def same_history_def)
  with assms(2) show ?thesis by (auto simp: agrees_def mem_step_def active_state_def)
qed

lemma replay_agrees:
  assumes "for_each (replay_step sch cs links) acc ops = Inr acc'" "ledger_ok (fst acc)" "agrees (fst acc) mem"
  shows "agrees (fst acc') (alongside (replay_step sch cs links) (\<lambda>a. mem_step (fst a)) acc mem ops)"
  using assms
  by (rule replaying.run_simulation [where R = "\<lambda>a. agrees (fst a)"])
     (auto simp: replay_effect_def intro: move_agrees release_agrees)

section \<open>Initial states\<close>

lemma add_initial_agrees:
  assumes "ledger_ok l" "canonical_state s" "add_initial l s = Inr l'" "agrees l mem" "holds mem s"
  shows "ledger_ok l' \<and> agrees l' mem"
proof -
  note w = add_initial_ok [OF assms(1-3)]
  have "holds mem y" if "active_state l' x y" for x y
  proof (cases "x = state_id s")
    case True
    with that active_state_functional [OF write_effect_new [OF w(1)]] assms(5) show ?thesis by blast
  next
    case False
    with write_effect_active [OF w(1) that] assms(4) show ?thesis by (auto simp: agrees_def)
  qed
  with w(2) show ?thesis by (auto simp: agrees_def)
qed

lemma add_initial_states_keeps:
  assumes run: "add_initial_states sch inputs l = Inr l'" and "I l"
    and keep: "\<And>s l l'. s \<in> set (initial_states sch) \<Longrightarrow> I l \<Longrightarrow> add_initial l s = Inr l' \<Longrightarrow> I l'"
  shows "I l'"
proof -
  obtain covered where "for_each (add_initial_state sch inputs)
      (map (\<lambda>rank. (rank, [])) (source_ranks inputs (vs_rank_count sch)), l) (initial_states sch) = Inr (covered, l')"
    using run by (auto simp: add_initial_states_def res_simps)
  then have "I (snd (covered, l'))"
  proof (rule for_each_inv [where I = "\<lambda>acc. I (snd acc)"])
    fix acc s acc' assume s: "s \<in> set (initial_states sch)" "I (snd acc)" "add_initial_state sch inputs acc s = Inr acc'"
    then have "add_initial (snd acc) s = Inr (snd acc')"
      by (cases acc) (auto simp: add_initial_state_def res_simps)
    with keep s(1,2) show "I (snd acc')" by blast
  qed (use assms(2) in simp)
  then show ?thesis by simp
qed

lemma add_initial_states_ok:
  assumes "add_initial_states sch inputs l = Inr l'" "ledger_ok l"
    and "\<And>s. s \<in> set (initial_states sch) \<Longrightarrow> canonical_state s"
  shows "ledger_ok l'"
  using assms(1,2) by (rule add_initial_states_keeps) (use assms(3) add_initial_ok(2) in blast)

lemma add_initial_states_agrees:
  assumes "add_initial_states sch inputs l = Inr l'" "ledger_ok l" "agrees l mem"
    and init: "\<And>s. s \<in> set (initial_states sch) \<Longrightarrow> canonical_state s \<and> holds mem s"
  shows "ledger_ok l' \<and> agrees l' mem"
  using assms(1)
  by (rule add_initial_states_keeps [where I = "\<lambda>l. ledger_ok l \<and> agrees l mem"])
     (use assms(2,3) init add_initial_agrees in blast)+

section \<open>Interval covers\<close>

lemma interval_cursor_count:
  assumes "interval_cursor label e cursor ivs = Inr c"
  shows "cursor \<le> c" "c \<le> max cursor e"
    "length (filter (\<lambda>(a, b). a \<le> x \<and> x < b) ivs) = (if cursor \<le> x \<and> x < c then 1 else 0)"
  using assms
proof (induction label e cursor ivs rule: interval_cursor.induct)
  case (2 label e cursor left right rest)
  { case 1 from 1 "2.IH"(1) show ?case by (auto simp: res_simps) }
  { case 2 from 2 "2.IH"(2) show ?case by (auto simp: res_simps) }
  { case 3 from 3 "2.IH"(1,3) show ?case by (auto simp: res_simps) }
qed simp_all

text \<open>An accepted cover contains every point of the interval exactly once and no other point.\<close>

lemma check_interval_cover_count:
  assumes "check_interval_cover ivs start e label = Inr u"
  shows "length (filter (\<lambda>(a, b). a \<le> x \<and> x < b) ivs) = (if start \<le> x \<and> x < e then 1 else 0)"
proof -
  have "interval_cursor label e start (sort ivs) = Inr e"
    using assms by (auto simp: check_interval_cover_def res_simps)
  from interval_cursor_count(3) [OF this]
  have "length (filter (\<lambda>(a, b). a \<le> x \<and> x < b) (sort ivs)) = (if start \<le> x \<and> x < e then 1 else 0)" .
  moreover have "length (filter P (sort ivs)) = length (filter P ivs)" for P
    by (metis mset_filter mset_sort size_mset)
  ultimately show ?thesis by metis
qed

lemma check_interval_cover_mem:
  assumes "check_interval_cover ivs start e label = Inr u" "start \<le> x" "x < e"
  shows "\<exists>a b. (a, b) \<in> set ivs \<and> a \<le> x \<and> x < b"
proof -
  have "filter (\<lambda>(a, b). a \<le> x \<and> x < b) ivs \<noteq> []"
    using check_interval_cover_count [OF assms(1), of x] assms(2,3) by auto
  then show ?thesis by (auto simp: filter_empty_conv)
qed

section \<open>Outputs\<close>

lemma segments_by_rank_mem:
  assumes "(st, i) \<in> set (dict_get (segments_by_rank expected) r [])"
  shows "\<exists>j<length expected. i = int j \<and> seg_rank (expected ! j) = r \<and> seg_start (expected ! j) = st"
proof -
  let ?f = "\<lambda>d (index, seg). AList.update (seg_rank seg)
    (dict_get d (seg_rank seg) [] @ [(seg_start seg, int index)]) d"
  have "(st, i) \<in> set (dict_get (foldl ?f d ps) r [])
    \<Longrightarrow> (st, i) \<in> set (dict_get d r []) \<or> (\<exists>(j, seg)\<in>set ps. i = int j \<and> seg_rank seg = r \<and> seg_start seg = st)" for d ps
  proof (induction ps arbitrary: d)
    case (Cons p ps)
    obtain j seg where p: "p = (j, seg)" by (cases p)
    from Cons.IH [of "?f d p"] Cons.prems show ?case by (auto simp: p split: if_splits)
  qed simp
  from this [of "[]" "enumerate 0 expected"] assms show ?thesis
    by (auto simp: segments_by_rank_def dict_get_def in_set_enumerate_eq)
qed

text \<open>An output binding placed in segment \<open>seg\<close> carries the interval \<open>[lo, hi)\<close> of it.\<close>

definition placed :: "version_ledger \<Rightarrow> output_binding list \<Rightarrow> segment \<Rightarrow> int \<Rightarrow> int \<Rightarrow> bool" where
  "placed l outs seg lo hi \<longleftrightarrow> (\<exists>out\<in>set outs. \<exists>s. active_state l (ob_state_id out) s \<and> lo = offset_bytes out
     \<and> hi = offset_bytes out + logical_end s - logical_start s \<and> state_rank s = seg_rank seg \<and> ob_rank out = seg_rank seg
     \<and> logical_start s = seg_logical seg + lo - seg_start seg \<and> sources s = seg_sources seg)"

lemma place_output_placed:
  assumes "place_output expected l at_us (used, coverage) out = Inr (used', coverage')" "out \<in> set outs"
    and old: "\<And>index lo hi. (lo, hi) \<in> set (dict_get coverage index []) \<Longrightarrow> placed l outs (expected ! index) lo hi"
    and new: "(lo, hi) \<in> set (dict_get coverage' index [])"
  shows "placed l outs (expected ! index) lo hi"
proof -
  define segs where "segs = dict_get (segments_by_rank expected) (ob_rank out) []"
  define p where "p = bisect_right segs (offset_bytes out, int (length expected))"
  define ix where "ix = nat (snd (segs ! (p - 1)))"
  obtain s where s: "active_state l (ob_state_id out) s" "state_rank s = ob_rank out" "p \<noteq> 0"
    "logical_start s = seg_logical (expected ! ix) + offset_bytes out - seg_start (expected ! ix)"
    "sources s = seg_sources (expected ! ix)"
    "coverage' = AList.update ix (dict_get coverage ix [] @
       [(offset_bytes out, offset_bytes out + logical_end s - logical_start s)]) coverage"
    using assms(1)
    by (auto simp: place_output_def res_simps Let_def readable_Inr_iff sources_def ix_def p_def segs_def)
  have "p - 1 < length segs" using bisect_right_le [of segs] s(3) unfolding p_def by (meson diff_less le_trans
        less_le_trans linorder_not_less not_less_zero zero_less_one neq0_conv)
  then have "segs ! (p - 1) \<in> set segs" by simp
  then have rank: "seg_rank (expected ! ix) = ob_rank out"
    using segments_by_rank_mem [of "fst (segs ! (p - 1))" "snd (segs ! (p - 1))" expected "ob_rank out"]
    by (auto simp: segs_def ix_def)
  show ?thesis
  proof (cases "index = ix \<and> (lo, hi) = (offset_bytes out, offset_bytes out + logical_end s - logical_start s)")
    case True
    with s rank assms(2) show ?thesis
      unfolding placed_def by (intro bexI [of _ out] exI [of _ s]) simp_all
  next
    case False
    with new s(6) have "(lo, hi) \<in> set (dict_get coverage index [])" by (auto split: if_splits)
    then show ?thesis by (rule old)
  qed
qed

lemma place_outputs_placed:
  assumes "for_each (place_output expected l at_us) acc outs' = Inr acc'" "set outs' \<subseteq> set outs"
    and "\<And>index lo hi. (lo, hi) \<in> set (dict_get (snd acc) index []) \<Longrightarrow> placed l outs (expected ! index) lo hi"
    and "(lo, hi) \<in> set (dict_get (snd acc') index [])"
  shows "placed l outs (expected ! index) lo hi"
proof -
  let ?I = "\<lambda>a. \<forall>index lo hi. (lo, hi) \<in> set (dict_get (snd a) index []) \<longrightarrow> placed l outs (expected ! index) lo hi"
  have "?I acc'"
    using assms(1)
  proof (rule for_each_inv [where I = ?I])
    fix a out a' assume out: "out \<in> set outs'" and a: "?I a" and step: "place_output expected l at_us a out = Inr a'"
    have step': "place_output expected l at_us (fst a, snd a) out = Inr (fst a', snd a')" using step by simp
    show "?I a'"
    proof (intro allI impI)
      fix index lo hi assume "(lo, hi) \<in> set (dict_get (snd a') index [])"
      with place_output_placed [OF step'] out assms(2) a
      show "placed l outs (expected ! index) lo hi" by blast
    qed
  qed (use assms(3) in blast)
  with assms(4) show ?thesis by blast
qed

lemma dict_get_map_Nil: "dict_get (map (\<lambda>k. (k, [])) xs) k [] = []"
  by (auto simp: dict_get_def dest!: map_of_SomeD split: option.splits)

text \<open>Every byte of every expected segment is carried by an output binding.\<close>

lemma check_version_outputs_placed:
  assumes "check_version_outputs spec ranks nbytes outs l at_us = Inr totals"
    and "expected_segments spec ranks nbytes = Inr expected"
    and "j < length expected" "seg_start (expected ! j) \<le> b" "b < seg_end (expected ! j)"
  shows "\<exists>lo hi. placed l outs (expected ! j) lo hi \<and> lo \<le> b \<and> b < hi"
proof -
  obtain used coverage where place: "for_each (place_output expected l at_us)
      ({}, map (\<lambda>index. (index, [])) [0..<length expected]) outs = Inr (used, coverage)"
    and covers: "for_each (\<lambda>totals (index, seg).
         bnd (check_interval_cover (dict_get coverage index []) (seg_start seg) (seg_end seg)
               (''output for rank '' @ str_int (seg_rank seg))) (\<lambda>_. add_total totals seg))
       (map (\<lambda>rank. (rank, 0)) (py_range 0 ranks)) (enumerate 0 expected) = Inr totals"
    using assms(1,2) by (auto simp: check_version_outputs_def res_simps)
  have "(j, expected ! j) \<in> set (enumerate 0 expected)"
    using assms(3) by (simp add: in_set_enumerate_eq)
  from for_each_each [OF covers this] obtain u where
    "check_interval_cover (dict_get coverage j []) (seg_start (expected ! j)) (seg_end (expected ! j))
       (''output for rank '' @ str_int (seg_rank (expected ! j))) = Inr u"
    by (auto simp: res_simps)
  from check_interval_cover_mem [OF this assms(4,5)] obtain lo hi where
    iv: "(lo, hi) \<in> set (dict_get coverage j [])" "lo \<le> b" "b < hi" by blast
  have "placed l outs (expected ! j) lo hi"
    by (rule place_outputs_placed [OF place order_refl])
       (use iv(1) in \<open>simp_all add: dict_get_map_Nil\<close>)
  with iv show ?thesis by blast
qed

lemma expected_segments_demand:
  assumes "expected_segments spec ranks nbytes = Inr expected" "0 < ranks"
    and "slot_demand (kind spec) (root_value spec) ranks nbytes (OutputSlot r b) = Some (a, srcs)"
  shows "\<exists>seg\<in>set expected. seg_rank seg = r \<and> seg_start seg \<le> b \<and> b < seg_end seg
    \<and> a = seg_logical seg + b - seg_start seg \<and> srcs = seg_sources seg"
proof -
  have everyone: "set (py_range 0 ranks) = {0..<ranks}" by auto
  have block: "x div q * q \<le> x \<and> x < (x div q + 1) * q \<and> x mod q = x - x div q * q" if "0 < q" for x q :: int
    using div_mult_mod_eq [of x q] pos_mod_bound [OF that, of x] pos_mod_sign [OF that, of x]
    unfolding distrib_right by linarith
  note defs = expected_segments_def slot_demand_def Let_def everyone
  show ?thesis
  proof (cases "kind spec")
    case ALL_GATHER
    then have d: "0 \<le> r" "r < ranks" "0 \<le> b" "b < ranks * nbytes" "a = b mod nbytes" "srcs = {b div nbytes}"
      using assms(3) by (auto simp: defs split: if_splits)
    have pos: "0 < nbytes" using d(3,4) assms(2) by (smt (verit) zero_less_mult_pos)
    have q: "0 \<le> b div nbytes" "b div nbytes < ranks"
      using d pos by (auto simp: pos_imp_zdiv_nonneg_iff int_div_less_iff)
    show ?thesis
      using assms(1) ALL_GATHER d q block [OF pos, of b]
      by (auto simp: defs intro!: bexI [of _ r] bexI [of _ "b div nbytes"])
  next
    case ALL_TO_ALL
    let ?q = "nbytes div ranks"
    have m: "nbytes mod ranks = 0" using assms(1) ALL_TO_ALL by (auto simp: defs res_simps)
    have d: "0 \<le> r" "r < ranks" "0 \<le> b" "b < nbytes" "a = r * ?q + b mod ?q" "srcs = {b div ?q}"
      using assms(3) ALL_TO_ALL by (auto simp: defs split: if_splits)
    have n: "ranks * ?q = nbytes" using m by auto
    then have pos: "0 < ?q" using d(3,4) assms(2) by (smt (verit) zero_less_mult_pos)
    have q: "0 \<le> b div ?q" "b div ?q < ranks"
      using d pos n by (auto simp: pos_imp_zdiv_nonneg_iff int_div_less_iff)
    show ?thesis
      using assms(1) ALL_TO_ALL d q block [OF pos, of b]
      by (auto simp: defs res_simps intro!: bexI [of _ r] bexI [of _ "b div ?q"])
  qed (use assms in \<open>auto simp: defs res_simps split: if_splits\<close>)
qed


section \<open>Accepted schedules deliver the collective\<close>

definition memory_after :: "version_schedule \<Rightarrow> resolved_input \<Rightarrow> memory \<Rightarrow> memory" where
  "memory_after sch inputs mem =
     (case (bnd (version_ledger_init (map (\<lambda>rank. (rank, scratch_bytes_per_rank inputs)) (py_range 0 (vs_rank_count sch))))
              (add_initial_states sch inputs), bind_constraints inputs) of
        (Inr l, Inr cs) \<Rightarrow>
          alongside (replay_step sch cs (set (map (\<lambda>e. (link_src e, link_dst e)) (directed_links inputs))))
            (\<lambda>a. mem_step (fst a)) (l, []) mem (replay_order sch)
      | _ \<Rightarrow> mem)"

lemma replay_version_schedule_phases:
  assumes "replay_version_schedule sch inputs = Inr (l, summary)"
  obtains l0 l1 cs finished totals where
    "version_ledger_init (map (\<lambda>rank. (rank, scratch_bytes_per_rank inputs)) (py_range 0 (vs_rank_count sch))) = Inr l0"
    "add_initial_states sch inputs l0 = Inr l1"
    "bind_constraints inputs = Inr cs"
    "for_each (replay_step sch cs (set (map (\<lambda>e. (link_src e, link_dst e)) (directed_links inputs)))) (l1, [])
       (replay_order sch) = Inr (l, finished)"
    "check_version_outputs (collective inputs) (vs_rank_count sch) (input_bytes sch) (outputs sch) l
       (Finite (fold max (map snd finished) 0)) = Inr totals"
    "vs_rank_count sch = rank_count inputs" "input_bytes sch = total_size_bytes (hyper inputs)"
    "slice_size_bytes (hyper inputs) = Some (vs_slice_size_bytes sch)"
    "summary = \<lparr>output_bytes = totals, state_versions = length (ledger_states l), operation_count = length (operations sch)\<rparr>"
  using assms unfolding replay_version_schedule_def Let_def by (auto simp: res_simps)

lemma no_states_agrees: "version_ledger_init caps = Inr l \<Longrightarrow> agrees l mem"
  by (auto simp: version_ledger_init_def agrees_def active_state_def res_simps)

lemma replay_final_agrees:
  assumes run: "replay_version_schedule sch inputs = Inr (l, summary)"
    and init: "\<And>s. s \<in> set (initial_states sch) \<Longrightarrow> canonical_state s \<and> holds mem s"
  shows "ledger_ok l \<and> agrees l (memory_after sch inputs mem)"
  using run
proof (rule replay_version_schedule_phases)
  fix l0 l1 cs finished totals
  assume l0: "version_ledger_init (map (\<lambda>rank. (rank, scratch_bytes_per_rank inputs)) (py_range 0 (vs_rank_count sch))) = Inr l0"
    and l1: "add_initial_states sch inputs l0 = Inr l1" and cs: "bind_constraints inputs = Inr cs"
    and ops: "for_each (replay_step sch cs (set (map (\<lambda>e. (link_src e, link_dst e)) (directed_links inputs)))) (l1, [])
       (replay_order sch) = Inr (l, finished)"
  have start: "ledger_ok l1 \<and> agrees l1 mem"
    by (rule add_initial_states_agrees [OF l1 version_ledger_init_ok [OF l0] no_states_agrees [OF l0] init])
  have "memory_after sch inputs mem
      = alongside (replay_step sch cs (set (map (\<lambda>e. (link_src e, link_dst e)) (directed_links inputs))))
          (\<lambda>a. mem_step (fst a)) (l1, []) mem (replay_order sch)"
    using l0 l1 cs by (simp add: memory_after_def)
  with replay_agrees [OF ops, of mem] replaying.run_ok [OF ops] start show ?thesis by simp
qed


lemma active_storage:
  assumes "ledger_ok l" "active_state l sid s"
  shows "region_size (storage s) = logical_end s - logical_start s" "region_rank (storage s) = state_rank s"
  using assms by (auto simp: ledger_ok_def canon_ok_def active_state_def canonical_state_def)

text \<open>
  A schedule to evaluate the definitions on: two ranks reduce two bytes.  Rank 1 sends its input to
  scratch of rank 0, which sums both, frees the scratch and sends the sum back.
\<close>

definition example_region :: "int \<Rightarrow> string \<Rightarrow> string \<Rightarrow> buffer_region" where
  "example_region rank buf k = \<lparr>region_rank = rank, buffer_id = buf, region_offset = 0, region_size = 2, region_kind = k\<rparr>"

definition allreduce_inputs :: resolved_input where
  "allreduce_inputs = \<lparr>collective = \<lparr>kind = ALL_REDUCE, datatype_name = ''uint8'', reduction_op = Some ''sum'', root = None, inplace = False\<rparr>,
     hyper = \<lparr>total_size_bytes = 2, slice_size_bytes = Some 2, reference_slice_size_bytes = Some 1\<rparr>,
     atom_cons = \<lparr>stage_num = None, forbidden_transfers = []\<rparr>, rank_count = 2, solver_max_channels = 1,
     directed_links = [\<lparr>link_src = 1, link_dst = 0, link_max_channels = 1\<rparr>, \<lparr>link_src = 0, link_dst = 1, link_max_channels = 1\<rparr>],
     scratch_bytes_per_rank = 2, tb_layout = ''split''\<rparr>"

definition input_state :: "int \<Rightarrow> string \<Rightarrow> state_version" where
  "input_state rank sid = \<lparr>state_id = sid, state_rank = rank, logical_start = 0, logical_end = 2,
     contributors = [DataRange rank 0 2], storage = example_region rank ''in'' ''input'', ready_us = 0\<rparr>"

definition allreduce_schedule :: version_schedule where
  "allreduce_schedule = \<lparr>vs_rank_count = 2, input_bytes = 2, vs_slice_size_bytes = 2, stage_count = 2,
     initial_states = [input_state 0 ''a'', input_state 1 ''b''],
     operations = [
       \<lparr>operation_id = ''send'', op_kind = ''copy'', input_states = [''b''], output_state = Some ''t'',
         destination = Some (example_region 0 ''tmp'' ''scratch''), start_us = 0, end_us = 1, op_stage_id = 0,
         dependencies = [], participants = []\<rparr>,
       \<lparr>operation_id = ''sum'', op_kind = ''reduce'', input_states = [''a'', ''t''], output_state = Some ''s'',
         destination = Some (example_region 0 ''out'' ''output''), start_us = 1, end_us = 2, op_stage_id = 1,
         dependencies = [''send''], participants = []\<rparr>,
       \<lparr>operation_id = ''free'', op_kind = ''release'', input_states = [''t''], output_state = None,
         destination = None, start_us = 2, end_us = 2, op_stage_id = 1,
         dependencies = [''sum''], participants = []\<rparr>,
       \<lparr>operation_id = ''back'', op_kind = ''copy'', input_states = [''s''], output_state = Some ''u'',
         destination = Some (example_region 1 ''out'' ''output''), start_us = 2, end_us = 3, op_stage_id = 1,
         dependencies = [''sum''], participants = []\<rparr>],
     outputs = [\<lparr>ob_rank = 0, offset_bytes = 0, ob_state_id = ''s''\<rparr>, \<lparr>ob_rank = 1, offset_bytes = 0, ob_state_id = ''u''\<rparr>]\<rparr>"
lemma allreduce_accepted:
  obtains l summary where "replay_version_schedule allreduce_schedule allreduce_inputs = Inr (l, summary)"
proof -
  have "is_ok (replay_version_schedule allreduce_schedule allreduce_inputs)" by code_simp
  with that show ?thesis by (cases "replay_version_schedule allreduce_schedule allreduce_inputs") auto
qed

definition example_memory :: memory where
  "example_memory = (\<lambda>(rank, buf, b). if buf = ''in'' then {#(rank, b)#} else {#})"

lemma allreduce_initial:
  "\<forall>s\<in>set (initial_states allreduce_schedule). canonical_state s \<and> holds example_memory s"
  by (simp add: allreduce_schedule_def input_state_def canonical_state_def holds_def example_memory_def
      example_region_def cell_of_def payload_byte_def sources_def)

lemma replay_delivers:
  assumes "replay_version_schedule sch inputs = Inr (l, summary)"
    and "0 < vs_rank_count sch"
    and "\<forall>s\<in>set (initial_states sch). canonical_state s \<and> holds mem s"
    and "slot_demand (kind (collective inputs)) (root_value (collective inputs)) (rank_count inputs)
           (total_size_bytes (hyper inputs)) (OutputSlot r b) = Some (a, srcs)"
  shows "\<exists>out\<in>set (outputs sch). \<exists>s i. ob_rank out = r \<and> offset_bytes out + i = b
    \<and> active_state l (ob_state_id out) s \<and> region_rank (storage s) = r
    \<and> 0 \<le> i \<and> i < region_size (storage s)
    \<and> memory_after sch inputs mem (cell_of (storage s) i) = payload_byte srcs a"
  using assms(1)
proof (rule replay_version_schedule_phases)
  fix l0 l1 cs finished totals
  assume check: "check_version_outputs (collective inputs) (vs_rank_count sch) (input_bytes sch) (outputs sch) l
       (Finite (fold max (map snd finished) 0)) = Inr totals"
    and dims: "vs_rank_count sch = rank_count inputs" "input_bytes sch = total_size_bytes (hyper inputs)"
  obtain expected where exp: "expected_segments (collective inputs) (vs_rank_count sch) (input_bytes sch) = Inr expected"
    using check by (auto simp: check_version_outputs_def res_simps)
  obtain j where j: "j < length expected" and seg: "seg_rank (expected ! j) = r" "seg_start (expected ! j) \<le> b"
    "b < seg_end (expected ! j)" "a = seg_logical (expected ! j) + b - seg_start (expected ! j)"
    "srcs = seg_sources (expected ! j)"
    using expected_segments_demand [OF exp assms(2), of r b a srcs] assms(4) by (auto simp: dims in_set_conv_nth)
  obtain lo hi where lohi: "placed l (outputs sch) (expected ! j) lo hi" "lo \<le> b" "b < hi"
    using check_version_outputs_placed [OF check exp j seg(2,3)] by blast
  obtain out s where out: "out \<in> set (outputs sch)" "active_state l (ob_state_id out) s" "lo = offset_bytes out"
    "hi = offset_bytes out + logical_end s - logical_start s" "state_rank s = r" "ob_rank out = r"
    "logical_start s = seg_logical (expected ! j) + lo - seg_start (expected ! j)" "sources s = srcs"
    using lohi(1) by (auto simp: placed_def seg)
  have fin: "ledger_ok l" "agrees l (memory_after sch inputs mem)"
    using replay_final_agrees [OF assms(1), of mem] assms(3) by auto
  note st = active_storage [OF fin(1) out(2)]
  have "holds (memory_after sch inputs mem) s" using fin(2) out(2) by (auto simp: agrees_def)
  moreover have "a = logical_start s + (b - lo)" using out(7) seg(4) by simp
  ultimately have "memory_after sch inputs mem (cell_of (storage s) (b - lo)) = payload_byte srcs a"
    using out(4,8) lohi(2,3) st(1) unfolding holds_def out(3) by simp
  with out lohi st show ?thesis by (intro bexI [of _ out] exI [of _ s] exI [of _ "b - lo"]) auto
qed

text \<open>
  C1.  If the replay accepts a schedule and the input buffers hold the original inputs, then after
  the data movements of the schedule every byte the collective demands is in the storage of an
  output binding at its rank and offset, and it is exactly the sum of the demanded original
  bytes, each contributed once.
\<close>

theorem replay_delivers_collective:
  assumes "replay_version_schedule sch inputs = Inr (l, summary)"
    and "0 < vs_rank_count sch"
    and "\<forall>s\<in>set (initial_states sch). canonical_state s \<and> holds mem s"
    and "slot_demand (kind (collective inputs)) (root_value (collective inputs)) (rank_count inputs)
           (total_size_bytes (hyper inputs)) (OutputSlot r b) = Some (a, srcs)"
  shows "\<exists>out\<in>set (outputs sch). \<exists>s i. ob_rank out = r \<and> offset_bytes out + i = b
    \<and> active_state l (ob_state_id out) s \<and> region_rank (storage s) = r
    \<and> 0 \<le> i \<and> i < region_size (storage s)
    \<and> memory_after sch inputs mem (cell_of (storage s) i) = payload_byte srcs a"
  by (rule replay_delivers [OF assms])

theorem replay_delivers_collective_witness:
  "\<exists>out\<in>set (outputs allreduce_schedule). \<exists>(s :: state_version) i. ob_rank out = 1 \<and> offset_bytes out + i = 1
    \<and> region_rank (storage s) = 1 \<and> 0 \<le> i \<and> i < region_size (storage s)
    \<and> memory_after allreduce_schedule allreduce_inputs example_memory (cell_of (storage s) i) = payload_byte {0..<2} 1"
proof -
  obtain l summary where run: "replay_version_schedule allreduce_schedule allreduce_inputs = Inr (l, summary)"
    by (rule allreduce_accepted)
  have ranks: "0 < vs_rank_count allreduce_schedule" by (simp add: allreduce_schedule_def)
  have demand: "slot_demand (kind (collective allreduce_inputs)) (root_value (collective allreduce_inputs))
      (rank_count allreduce_inputs) (total_size_bytes (hyper allreduce_inputs)) (OutputSlot 1 1) = Some (1, {0..<2})"
    by (simp add: allreduce_inputs_def slot_demand_def)
  from replay_delivers_collective [OF run ranks allreduce_initial demand] show ?thesis by blast
qed


end
