(* ===== verification/Races.thy ===== *)
theory Races
  imports Replay
begin

text \<open>
  Timing of accepted schedules: operations that touch a common byte, one of them writing it, do
  not overlap in time; dependencies are finished before their operation starts; no transfer
  crosses a missing link, leaves its participant group or moves a forbidden original byte.
\<close>

section \<open>The storage an operation touches\<close>

type_synonym access = "buffer_region \<times> bool"

definition storage_of :: "version_ledger \<Rightarrow> string \<Rightarrow> buffer_region list" where
  "storage_of l sid = (case map_of (states l) sid of None \<Rightarrow> [] | Some s \<Rightarrow> [storage s])"

text \<open>The regions an operation reads (\<open>False\<close>) and the one it writes (\<open>True\<close>).\<close>

definition op_accesses :: "version_ledger \<Rightarrow> version_operation \<Rightarrow> access list" where
  "op_accesses l op =
     (if op_kind op = ''release'' then []
      else map (\<lambda>r. (r, False)) (concat (map (storage_of l) (input_states op)))
        @ (case destination op of None \<Rightarrow> [] | Some dest \<Rightarrow> [(dest, True)]))"

type_synonym access_log = "(version_operation \<times> access list) list"

definition log_step :: "version_ledger \<Rightarrow> version_operation \<Rightarrow> access_log \<Rightarrow> access_log" where
  "log_step l op hist = hist @ [(op, op_accesses l op)]"

text \<open>Two accesses conflict when they share a byte and one of them writes.\<close>

definition conflict :: "access \<Rightarrow> access \<Rightarrow> bool" where
  "conflict a b \<longleftrightarrow> overlaps (fst a) (fst b) \<and> (snd a \<or> snd b)"

definition race_free :: "access_log \<Rightarrow> bool" where
  "race_free hist \<longleftrightarrow> (\<forall>i j a b. i < j \<longrightarrow> j < length hist \<longrightarrow> a \<in> set (snd (hist ! i)) \<longrightarrow> b \<in> set (snd (hist ! j))
     \<longrightarrow> conflict a b \<longrightarrow> end_us (fst (hist ! i)) \<le> start_us (fst (hist ! j)))"

section \<open>Past accesses are finished or guarded by a valid version\<close>

definition guarded :: "version_ledger \<Rightarrow> access \<Rightarrow> rat \<Rightarrow> bool" where
  "guarded l a e \<longleftrightarrow> (\<exists>x y. active_state l x y \<and> storage y = fst a
     \<and> (ready_us y = e \<or> \<not> snd a \<and> e \<le> dict_get (reader_end l) x 0))"

definition settled :: "version_operation list \<Rightarrow> version_ledger \<Rightarrow> access_log \<Rightarrow> bool" where
  "settled pre l hist \<longleftrightarrow> (\<forall>(op, accs)\<in>set hist. \<forall>a\<in>set accs.
     (\<exists>q\<in>set pre. end_us op \<le> start_us q) \<or> guarded l a (end_us op))"

lemma move_effect_accesses:
  assumes "move_effect cs links l op l'"
  obtains s reads where "op_kind op \<noteq> ''release''" "write_effect l s (start_us op) (end_us op) reads l'"
    "op_accesses l op = map (\<lambda>v. (storage v, False)) reads @ [(storage s, True)]" "canonical_state s"
proof -
  obtain s reads where s: "op_kind op \<noteq> ''release''" "destination op = Some (storage s)" "canonical_state s"
    "map state_id reads = input_states op" "write_effect l s (start_us op) (end_us op) reads l'"
    using assms unfolding move_effect_def by blast
  have "storage_of l (state_id v) = [storage v]" if "v \<in> set reads" for v
    using s(5) that by (simp add: write_effect_def active_state_def storage_of_def)
  then have "concat (map (storage_of l) (input_states op)) = map storage reads"
    by (simp add: s(4) [symmetric] comp_def cong: map_cong)
  with s show thesis by (intro that) (simp_all add: op_accesses_def comp_def)
qed

lemma release_effect_accesses: "release_effect l op l' \<Longrightarrow> op_accesses l op = []"
  by (simp add: release_effect_def op_accesses_def)

lemma guarded_release:
  assumes "release_effect l op l'" "guarded l a e"
  shows "e \<le> start_us op \<or> guarded l' a e"
proof -
  obtain sid s where s: "active_state l sid s" "ready_us s \<le> start_us op" "dict_get (reader_end l) sid 0 \<le> start_us op"
    "active l' = active l - {sid}" "states l' = states l" "reader_end l' = reader_end l"
    using assms(1) by (auto simp: release_effect_def same_history_def)
  obtain x y where y: "active_state l x y" "storage y = fst a"
    "ready_us y = e \<or> \<not> snd a \<and> e \<le> dict_get (reader_end l) x 0"
    using assms(2) by (auto simp: guarded_def)
  show ?thesis
  proof (cases "x = sid")
    case True
    then have "y = s" using y(1) s(1) by (simp add: active_state_functional)
    with y(3) s(2,3) True show ?thesis by auto
  next
    case False
    with y s(4-6) have "guarded l' a e" unfolding guarded_def active_state_def by auto
    then show ?thesis ..
  qed
qed

lemma guarded_write:
  assumes "write_effect l s t t' reads l'" "guarded l a e"
  shows "e \<le> t \<or> guarded l' a e"
proof -
  obtain x y where y: "active_state l x y" "storage y = fst a"
    "ready_us y = e \<or> \<not> snd a \<and> e \<le> dict_get (reader_end l) x 0"
    using assms(2) by (auto simp: guarded_def)
  show ?thesis
  proof (cases "overlaps (storage s) (storage y)")
    case True
    then have "ready_us y \<le> t" "dict_get (reader_end l) x 0 \<le> t"
      using assms(1) y(1) by (auto simp: write_effect_def)
    with y(3) show ?thesis by auto
  next
    case False
    then have "active_state l' x y"
      using assms(1) y(1) by (auto simp: write_effect_def active_state_def overwritten_by_def map_add_def)
    moreover have "dict_get (reader_end l) x 0 \<le> dict_get (reader_end l') x 0"
      using assms(1) by (auto simp: write_effect_def)
    ultimately have "guarded l' a e" using y(2,3) unfolding guarded_def by fastforce
    then show ?thesis ..
  qed
qed

lemma guarded_new:
  assumes "write_effect l s t t' reads l'" "a \<in> set (map (\<lambda>v. (storage v, False)) reads @ [(storage s, True)])"
  shows "guarded l' a t'"
proof -
  have new: "active_state l' (state_id s) s" "ready_us s = t'"
    using write_effect_new [OF assms(1)] assms(1) by (auto simp: write_effect_def)
  consider "fst a = storage s" | v where "v \<in> set reads" "a = (storage v, False)" "storage v \<noteq> storage s"
    using assms(2) by (cases "fst a = storage s") auto
  then show ?thesis
  proof cases
    case 1
    with new show ?thesis unfolding guarded_def by metis
  next
    case 2
    then have "active_state l' (state_id v) v" "t' \<le> dict_get (reader_end l') (state_id v) 0"
      using assms(1) by (auto simp: write_effect_def active_state_def overwritten_by_def map_add_def)
    with 2(2) show ?thesis unfolding guarded_def by auto
  qed
qed

text \<open>A guarded access that conflicts with an accepted operation ended before the operation starts.\<close>

lemma guarded_conflict:
  assumes l: "ledger_ok l" and w: "write_effect l s t t' reads l'"
    and b: "b \<in> set (map (\<lambda>v. (storage v, False)) reads @ [(storage s, True)])"
    and g: "guarded l a e" and c: "conflict a b"
  shows "e \<le> t"
proof -
  obtain x y where y: "active_state l x y" "storage y = fst a"
    "ready_us y = e \<or> \<not> snd a \<and> e \<le> dict_get (reader_end l) x 0"
    using g by (auto simp: guarded_def)
  consider "b = (storage s, True)" | v where "v \<in> set reads" "b = (storage v, False)"
    using b by auto
  then show ?thesis
  proof cases
    case 1
    then have "overlaps (storage s) (storage y)" using c y(2) by (simp add: conflict_def overlaps_sym)
    with w y(1,3) show ?thesis by (fastforce simp: write_effect_def)
  next
    case 2
    have v: "active_state l (state_id v) v" "ready_us v \<le> t" using w 2(1) by (auto simp: write_effect_def)
    have "overlaps (storage y) (storage v)" "snd a" using c y(2) 2(2) by (auto simp: conflict_def)
    with l v(1) y(1) have "x = state_id v"
      by (auto simp: ledger_ok_def ledger_inv_def disjoint_ok_def)
    then have "y = v" using y(1) v(1) by (simp add: active_state_functional)
    with y(3) \<open>snd a\<close> v(2) show ?thesis by simp
  qed
qed

section \<open>Accepted schedules are race free\<close>

definition clean :: "version_operation list \<Rightarrow> version_ledger \<Rightarrow> access_log \<Rightarrow> bool" where
  "clean pre l hist \<longleftrightarrow> map fst hist = pre \<and> settled pre l hist \<and> race_free hist"

lemma race_free_snoc:
  assumes "race_free hist"
    and "\<And>p accs a b. (p, accs) \<in> set hist \<Longrightarrow> a \<in> set accs \<Longrightarrow> b \<in> set new \<Longrightarrow> conflict a b \<Longrightarrow> end_us p \<le> start_us op"
  shows "race_free (hist @ [(op, new)])"
  unfolding race_free_def
proof (intro allI impI)
  fix i j a b
  assume ij: "i < j" "j < length (hist @ [(op, new)])" and acc: "a \<in> set (snd ((hist @ [(op, new)]) ! i))"
    "b \<in> set (snd ((hist @ [(op, new)]) ! j))" and c: "conflict a b"
  show "end_us (fst ((hist @ [(op, new)]) ! i)) \<le> start_us (fst ((hist @ [(op, new)]) ! j))"
  proof (cases "j < length hist")
    case True
    with assms(1) [unfolded race_free_def, rule_format, OF ij(1) True _ _ c] ij acc show ?thesis
      by (simp add: nth_append)
  next
    case False
    then have j: "j = length hist" "i < length hist" using ij by auto
    then have "(fst (hist ! i), snd (hist ! i)) \<in> set hist" by simp
    from assms(2) [OF this _ _ c] acc j show ?thesis by (simp add: nth_append)
  qed
qed

lemma clean_step:
  assumes l: "ledger_ok l" and eff: "release_effect l op l' \<or> move_effect cs links l op l'"
    and pre: "\<And>q. q \<in> set pre \<Longrightarrow> start_us q \<le> start_us op" and c: "clean pre l hist"
  shows "clean (pre @ [op]) l' (log_step l op hist)"
proof -
  have old: "(\<exists>q\<in>set pre. end_us p \<le> start_us q) \<or> guarded l a (end_us p)"
    if "(p, accs) \<in> set hist" "a \<in> set accs" for p accs a
    using c that by (fastforce simp: clean_def settled_def)
  have rel: "e \<le> start_us op \<or> guarded l' a e" if g: "guarded l a e" for a e
    using eff
  proof
    assume "move_effect cs links l op l'"
    then show ?thesis using g by (metis move_effect_accesses guarded_write)
  qed (rule guarded_release [OF _ g])
  have new: "guarded l' a (end_us op)" if "a \<in> set (op_accesses l op)" for a
    using eff
  proof
    assume "move_effect cs links l op l'"
    then show ?thesis using that by (metis move_effect_accesses guarded_new)
  qed (use that in \<open>simp add: release_effect_accesses\<close>)
  have race: "end_us p \<le> start_us op"
    if p: "(p, accs) \<in> set hist" "a \<in> set accs" "b \<in> set (op_accesses l op)" "conflict a b" for p accs a b
    using eff
  proof
    assume "move_effect cs links l op l'"
    then have "end_us p \<le> start_us op" if "guarded l a (end_us p)"
      using that p by (metis move_effect_accesses guarded_conflict [OF l])
    with old [OF p(1,2)] pre show ?thesis by fastforce
  qed (use p in \<open>simp add: release_effect_accesses\<close>)
  have "settled (pre @ [op]) l' (log_step l op hist)"
    unfolding settled_def log_step_def
  proof (clarify)
    fix p accs r w assume p: "(p, accs) \<in> set (hist @ [(op, op_accesses l op)])" "(r, w) \<in> set accs"
      and none: "\<not> guarded l' (r, w) (end_us p)"
    have "(p, accs) \<in> set hist" using p none new by auto
    from old [OF this p(2)] rel none show "\<exists>q\<in>set (pre @ [op]). end_us p \<le> start_us q" by auto
  qed
  moreover have "race_free (log_step l op hist)"
    unfolding log_step_def using c race by (intro race_free_snoc) (auto simp: clean_def)
  ultimately show ?thesis using c by (simp add: clean_def log_step_def)
qed

lemma replay_order_sorted: "replay_order sch = pre @ x # rest \<Longrightarrow> q \<in> set pre \<Longrightarrow> start_us q \<le> start_us x"
proof -
  assume a: "replay_order sch = pre @ x # rest" "q \<in> set pre"
  have "sorted (map (\<lambda>op. (start_us op, end_us op, operation_id op)) (replay_order sch))"
    by (simp add: replay_order_def)
  with a have "(start_us q, end_us q, operation_id q) \<le> (start_us x, end_us x, operation_id x)"
    by (simp add: sorted_append)
  then show ?thesis by auto
qed

definition schedule_log :: "version_schedule \<Rightarrow> resolved_input \<Rightarrow> access_log" where
  "schedule_log sch inputs =
     (case (bnd (version_ledger_init (map (\<lambda>rank. (rank, scratch_bytes_per_rank inputs)) (py_range 0 (vs_rank_count sch))))
              (add_initial_states sch inputs), bind_constraints inputs) of
        (Inr l, Inr cs) \<Rightarrow>
          alongside (replay_step sch cs (set (map (\<lambda>e. (link_src e, link_dst e)) (directed_links inputs))))
            (\<lambda>a. log_step (fst a)) (l, []) [] (replay_order sch)
      | _ \<Rightarrow> [])"


lemma replay_log_clean:
  assumes "replay_version_schedule sch inputs = Inr (l, summary)" "\<forall>s\<in>set (initial_states sch). canonical_state s"
  shows "clean (replay_order sch) l (schedule_log sch inputs)"
  using assms(1)
proof (rule replay_version_schedule_phases)
  fix l0 l1 cs finished totals
  assume l0: "version_ledger_init (map (\<lambda>rank. (rank, scratch_bytes_per_rank inputs)) (py_range 0 (vs_rank_count sch))) = Inr l0"
    and l1: "add_initial_states sch inputs l0 = Inr l1" and cs: "bind_constraints inputs = Inr cs"
    and ops: "for_each (replay_step sch cs (set (map (\<lambda>e. (link_src e, link_dst e)) (directed_links inputs)))) (l1, [])
       (replay_order sch) = Inr (l, finished)"
  have ok: "ledger_ok l1"
    by (rule add_initial_states_ok [OF l1 version_ledger_init_ok [OF l0]]) (use assms(2) in blast)
  have "clean (replay_order sch) (fst (l, finished)) (alongside (replay_step sch cs
      (set (map (\<lambda>e. (link_src e, link_dst e)) (directed_links inputs)))) (\<lambda>a. log_step (fst a)) (l1, []) [] (replay_order sch))"
  proof (rule replaying.run_simulation_prefix [where R = "\<lambda>pre a. clean pre (fst a)", OF ops])
    fix pre x rest acc acc' hist
    assume "replay_order sch = pre @ x # rest" "ledger_ok (fst acc)" "clean pre (fst acc) hist"
      "replay_effect cs (set (map (\<lambda>e. (link_src e, link_dst e)) (directed_links inputs))) acc x acc'"
    then show "clean (pre @ [x]) (fst acc') (log_step (fst acc) x hist)"
      by (intro clean_step) (auto simp: replay_effect_def dest: replay_order_sorted)
  qed (use ok in \<open>simp_all add: clean_def settled_def race_free_def\<close>)
  with l0 l1 cs show ?thesis by (simp add: schedule_log_def)
qed

text \<open>
  C2.  Accepted operations do not race: if two operations touch a common byte and one of them
  writes it, the one replayed first has ended when the other starts; and the log covers every
  operation of the schedule.
\<close>

theorem replay_race_free:
  assumes "replay_version_schedule sch inputs = Inr (l, summary)"
    and "\<forall>s\<in>set (initial_states sch). canonical_state s"
  shows "race_free (schedule_log sch inputs) \<and> mset (map fst (schedule_log sch inputs)) = mset (operations sch)"
  using replay_log_clean [OF assms] by (auto simp: clean_def replay_order_def)


theorem replay_race_free_witness:
  "race_free (schedule_log allreduce_schedule allreduce_inputs)
    \<and> mset (map fst (schedule_log allreduce_schedule allreduce_inputs)) = mset (operations allreduce_schedule)"
proof -
  obtain l summary where run: "replay_version_schedule allreduce_schedule allreduce_inputs = Inr (l, summary)"
    by (rule allreduce_accepted)
  show ?thesis by (rule replay_race_free [OF run]) (use allreduce_initial in blast)
qed

section \<open>What accepted transfers respect\<close>

lemma replay_each:
  assumes "for_each (replay_step sch cs links) acc ops = Inr acc'" "ledger_ok (fst acc)" "op \<in> set ops"
  obtains a a' more where "ledger_ok (fst a)" "replay_effect cs links a op a'"
    "states (fst acc') = states (fst a) @ more"
proof -
  obtain pre post where ops: "ops = pre @ op # post" using assms(3) by (meson split_list)
  obtain a a' where a: "for_each (replay_step sch cs links) acc pre = Inr a" "replay_step sch cs links a op = Inr a'"
    "for_each (replay_step sch cs links) a' post = Inr acc'"
    using assms(1) by (auto simp: ops for_each_append res_simps)
  have ok: "ledger_ok (fst a)" by (rule replaying.run_ok [OF a(1) assms(2)])
  note eff = replaying.step_effect [OF ok a(2)] and ok' = replaying.step_ok [OF ok a(2)]
  have grow: "\<exists>more. states (fst y) = states (fst x) @ more" if "replay_effect cs links x q y" for x q y
    using that by (auto simp: replay_effect_def release_effect_def move_effect_def same_history_def write_effect_def)
  let ?ext = "\<lambda>y. \<exists>more. states (fst y) = states (fst a) @ more"
  have "ledger_ok (fst acc') \<and> ?ext acc'"
    using a(3)
  proof (rule for_each_inv [where I = "\<lambda>y. ledger_ok (fst y) \<and> ?ext y"])
    fix x q y assume "ledger_ok (fst x) \<and> ?ext x" "replay_step sch cs links x q = Inr y"
    then show "ledger_ok (fst y) \<and> ?ext y"
      using grow [OF replaying.step_effect [of x sch cs links q y]] replaying.step_ok [of x sch cs links q y] by fastforce
  qed (use ok' grow [OF eff] in blast)
  with ok eff that show ?thesis by blast
qed

text \<open>
  C3.  In an accepted schedule every version an operation moves to another rank crosses a directed
  link of the topology, stays inside the operation's participant group, and shares no original
  byte with a reference slice that the request forbids on that link in that stage.
\<close>

theorem replay_respects_constraints:
  assumes "replay_version_schedule sch inputs = Inr (l, summary)"
    and "\<forall>s\<in>set (initial_states sch). canonical_state s"
    and "int_or (reference_slice_size_bytes (hyper inputs)) (slice_size_bytes (hyper inputs)) = Some S"
    and "0 < S" "S \<le> total_size_bytes (hyper inputs)"
    and "op \<in> set (operations sch)" "op_kind op \<noteq> ''release''" "sid \<in> set (input_states op)"
  shows "\<exists>v dest. map_of (states l) sid = Some v \<and> destination op = Some dest
    \<and> (participants op \<noteq> [] \<longrightarrow> {state_rank v, region_rank dest} \<subseteq> set (participants op))
    \<and> (state_rank v \<noteq> region_rank dest \<longrightarrow>
        (\<exists>e\<in>set (directed_links inputs). link_src e = state_rank v \<and> link_dst e = region_rank dest)
        \<and> (\<forall>item\<in>set (forbidden_transfers (atom_cons inputs)).
             (ft_src_rank item, ft_dst_rank item, ft_stage_id item) = (state_rank v, region_rank dest, op_stage_id op)
             \<longrightarrow> (\<forall>d\<in>set (contributors v).
                   range_bytes (slice_range (total_size_bytes (hyper inputs)) S (ft_slice_id item)) \<inter> range_bytes d = {})))"
  using assms(1)
proof (rule replay_version_schedule_phases)
  let ?links = "set (map (\<lambda>e. (link_src e, link_dst e)) (directed_links inputs))"
  fix l0 l1 cs finished totals
  assume l0: "version_ledger_init (map (\<lambda>rank. (rank, scratch_bytes_per_rank inputs)) (py_range 0 (vs_rank_count sch))) = Inr l0"
    and l1: "add_initial_states sch inputs l0 = Inr l1" and cs: "bind_constraints inputs = Inr cs"
    and ops: "for_each (replay_step sch cs ?links) (l1, []) (replay_order sch) = Inr (l, finished)"
  have ok: "ledger_ok (fst (l1, []))"
    using add_initial_states_ok [OF l1 version_ledger_init_ok [OF l0]] assms(2) by simp
  have "op \<in> set (replay_order sch)" using assms(6) by (simp add: replay_order_def)
  then obtain a a' more where a: "replay_effect cs ?links a op a'" "states l = states (fst a) @ more"
    using replay_each [OF ops ok] by (metis fst_conv)
  obtain s reads where s: "destination op = Some (storage s)" "map state_id reads = input_states op"
    "write_effect (fst a) s (start_us op) (end_us op) reads (fst a')"
    and checked: "\<forall>v\<in>set reads. transfer_checked cs ?links op (storage s) v"
    using a(1) assms(7) by (auto simp: replay_effect_def move_effect_def release_effect_def)
  obtain v where v: "v \<in> set reads" "state_id v = sid" using assms(8) s(2) by (metis imageE image_set)
  have "map_of (states (fst a)) sid = Some v" using s(3) v by (auto simp: write_effect_def active_state_def)
  then have "map_of (states l) sid = Some v"
    by (simp add: a(2) map_add_Some_iff)
  moreover have "transfer_checked cs ?links op (storage s) v" using checked v(1) by blast
  ultimately show ?thesis
    using s(1) bind_constraints_Inr(1) [OF cs assms(3-5)]
    by (auto simp: transfer_checked_def allows_Inr_iff banned_def intersects_bytes)
qed


text \<open>The same schedule under a request that forbids the first byte of rank 0 on the link to rank 1 in stage 0.\<close>

definition constrained_inputs :: resolved_input where
  "constrained_inputs = allreduce_inputs\<lparr>atom_cons := \<lparr>stage_num = Some 2,
     forbidden_transfers = [\<lparr>ft_slice_id = 0, ft_src_rank = 0, ft_dst_rank = 1, ft_stage_id = 0\<rparr>]\<rparr>\<rparr>"

theorem replay_respects_constraints_witness:
  "\<exists>l v dest. map_of (states (l :: version_ledger)) ''s'' = Some v \<and> destination (operations allreduce_schedule ! 3) = Some dest
    \<and> (state_rank v \<noteq> region_rank dest \<longrightarrow>
        (\<forall>item\<in>set (forbidden_transfers (atom_cons constrained_inputs)).
             (ft_src_rank item, ft_dst_rank item, ft_stage_id item) = (state_rank v, region_rank dest, 1)
             \<longrightarrow> (\<forall>d\<in>set (contributors v). range_bytes (slice_range 2 1 (ft_slice_id item)) \<inter> range_bytes d = {})))"
proof -
  have "is_ok (replay_version_schedule allreduce_schedule constrained_inputs)" by code_simp
  then obtain l summary where run: "replay_version_schedule allreduce_schedule constrained_inputs = Inr (l, summary)"
    by (auto simp: is_ok_iff)
  have canon: "\<forall>s\<in>set (initial_states allreduce_schedule). canonical_state s" using allreduce_initial by blast
  let ?op = "operations allreduce_schedule ! 3"
  have op: "?op \<in> set (operations allreduce_schedule)" "op_kind ?op \<noteq> ''release''" "''s'' \<in> set (input_states ?op)"
    and stage: "op_stage_id ?op = 1"
    by (simp_all add: allreduce_schedule_def)
  have S: "int_or (reference_slice_size_bytes (hyper constrained_inputs)) (slice_size_bytes (hyper constrained_inputs)) = Some 1"
    "0 < (1::int)" "1 \<le> total_size_bytes (hyper constrained_inputs)"
    and total: "total_size_bytes (hyper constrained_inputs) = 2"
    by (simp_all add: constrained_inputs_def allreduce_inputs_def int_or_def)
  from replay_respects_constraints [OF run canon S op] show ?thesis unfolding stage total by blast
qed

end
