(* ===== verification/Atom.thy ===== *)
theory Atom
  imports Ranges
begin

text \<open>
  \<^verbatim>\<open>src/vericcl/semantics/atom.py\<close>: symbols (one hop of a slice), path stages, atoms (a slice with
  the path it took), physical transfers and schedules of transfers, each with the validation its
  constructor runs.  Constructor arguments that may be any number are \<open>pyfloat\<close>; the checks that an
  argument has the right Python class are replaced by the types.  Of a schedule's metadata, the
  entries \<^verbatim>\<open>path_scope\<close> and \<^verbatim>\<open>path_roots\<close> are kept: nothing in this file reads the others.
\<close>

section \<open>Argument checks\<close>

definition integer_min :: "int \<Rightarrow> string \<Rightarrow> int \<Rightarrow> int res" where
  "integer_min v field minimum =
     ensure (minimum \<le> v) (SemanticError (field @ '' must be at least '' @ str_int minimum)) (Inr v)"

definition field_time :: "pyfloat \<Rightarrow> string \<Rightarrow> rat res" where
  "field_time v field = time_value (field @ '' must be finite and non-negative'') v"

definition nonempty_id :: "string \<Rightarrow> string \<Rightarrow> string res" where
  "nonempty_id v field = ensure (v \<noteq> '''') (SemanticError (field @ '' must be a non-empty string'')) (Inr v)"

definition transfer_kinds :: "string set" where
  "transfer_kinds = {''REDUCE'', ''SEND''}"

lemma integer_min_Inr_iff [res_simps]: "integer_min v f m = Inr w \<longleftrightarrow> m \<le> v \<and> w = v"
  by (auto simp: integer_min_def res_simps)

lemma nonempty_id_Inr_iff [res_simps]: "nonempty_id v f = Inr w \<longleftrightarrow> v \<noteq> '''' \<and> w = v"
  by (auto simp: nonempty_id_def res_simps)

lemma field_time_Inr_iff [res_simps]: "field_time v f = Inr r \<longleftrightarrow> v = Finite r \<and> 0 \<le> r"
  by (simp add: field_time_def res_simps)

section \<open>Symbols and path stages\<close>

record symbol =
  sym_src_rank :: int
  sym_dst_rank :: int
  sym_ready_time :: rat

definition symbol_init :: "int \<Rightarrow> int \<Rightarrow> pyfloat \<Rightarrow> symbol res" where
  "symbol_init src dst ready =
     bnd (integer_min src ''symbol.src_rank'' 0) (\<lambda>_.
     bnd (integer_min dst ''symbol.dst_rank'' 0) (\<lambda>_.
     ensure (src \<noteq> dst) (SemanticError ''symbol ranks must be distinct'') (
     bnd (field_time ready ''symbol.ready_time'') (\<lambda>t.
     Inr \<lparr>sym_src_rank = src, sym_dst_rank = dst, sym_ready_time = t\<rparr>))))"

record path_stage =
  ps_stage_id :: int
  operator :: string
  symbols :: "symbol list"

definition path_stage_init :: "int \<Rightarrow> string \<Rightarrow> symbol list \<Rightarrow> path_stage res" where
  "path_stage_init stage op syms =
     bnd (integer_min stage ''path_stage.stage_id'' 0) (\<lambda>_.
     ensure (op \<in> transfer_kinds) (SemanticError ''path_stage.operator must be SEND or REDUCE'') (
     ensure (syms \<noteq> []) (SemanticError ''path_stage.symbols must not be empty'') (
     Inr \<lparr>ps_stage_id = stage, operator = op, symbols = syms\<rparr>)))"

definition stage_operation_count :: "path_stage \<Rightarrow> nat" where
  "stage_operation_count st = length (symbols st)"

section \<open>Atoms\<close>

record atom =
  atom_slice_id :: int
  atom_slice_size :: int
  path :: "path_stage list"
  atom_st_time :: rat
  atom_ed_time :: rat

definition atom_stage_num :: "atom \<Rightarrow> nat" where
  "atom_stage_num a = length (path a)"

definition current_symbol :: "atom \<Rightarrow> symbol" where
  "current_symbol a = last (symbols (last (path a)))"

text \<open>\<^verbatim>\<open>_validate_chain\<close>: the state of the loops is the previous stage identifier and symbol.\<close>

definition chain_symbol :: "symbol option \<Rightarrow> symbol \<Rightarrow> symbol option res" where
  "chain_symbol previous hop =
     (case previous of
        None \<Rightarrow> Inr (Some hop)
      | Some p \<Rightarrow>
          ensure (sym_dst_rank p = sym_src_rank hop) (SemanticError ''atom path must be a contiguous rank chain'') (
          ensure (\<not> sym_ready_time hop < sym_ready_time p)
            (SemanticError ''atom path ready_time values must be non-decreasing'') (Inr (Some hop))))"

definition chain_stage :: "int option \<times> symbol option \<Rightarrow> path_stage \<Rightarrow> (int option \<times> symbol option) res" where
  "chain_stage acc stage =
     (case acc of (previous_stage_id, previous_symbol) \<Rightarrow>
       ensure (case previous_stage_id of None \<Rightarrow> True | Some p \<Rightarrow> \<not> ps_stage_id stage \<le> p)
         (SemanticError ''atom path stage IDs must be strictly increasing'') (
       bnd (for_each chain_symbol previous_symbol (symbols stage)) (\<lambda>previous_symbol'.
       Inr (Some (ps_stage_id stage), previous_symbol'))))"

definition validate_chain :: "atom \<Rightarrow> unit res" where
  "validate_chain a = bnd (for_each chain_stage (None, None) (path a)) (\<lambda>_. Inr ())"

definition atom_init :: "int \<Rightarrow> int \<Rightarrow> path_stage list \<Rightarrow> pyfloat \<Rightarrow> pyfloat \<Rightarrow> atom res" where
  "atom_init sid size_bytes stages st ed =
     bnd (integer_min sid ''atom.slice_id'' 0) (\<lambda>_.
     bnd (integer_min size_bytes ''atom.slice_size_bytes'' 1) (\<lambda>_.
     ensure (stages \<noteq> []) (SemanticError ''atom.path must not be empty'') (
     bnd (field_time st ''atom.st_time'') (\<lambda>s.
     bnd (field_time ed ''atom.ed_time'') (\<lambda>e.
     let a = \<lparr>atom_slice_id = sid, atom_slice_size = size_bytes, path = stages, atom_st_time = s, atom_ed_time = e\<rparr> in
     ensure (\<not> e < s) (SemanticError ''atom.st_time must not exceed atom.ed_time'') (
     bnd (validate_chain a) (\<lambda>_.
     ensure (\<not> s < sym_ready_time (current_symbol a))
       (SemanticError ''atom.st_time must not precede the current ready_time'') (Inr a))))))))"

text \<open>\<^verbatim>\<open>source_rank\<close> signals \<^verbatim>\<open>ValueError\<close>, which is turned into \<^verbatim>\<open>SemanticError\<close>.\<close>

definition as_semantic :: "'a res \<Rightarrow> 'a res" where
  "as_semantic r = (case r of Inl (ValueError msg) \<Rightarrow> Inl (SemanticError msg) | _ \<Rightarrow> r)"

definition validate_path_prefix :: "atom \<Rightarrow> int \<Rightarrow> int option \<Rightarrow> unit res" where
  "validate_path_prefix a current_rank slices =
     bnd (integer_min current_rank ''current_rank'' 0) (\<lambda>_.
     bnd (case slices of
            None \<Rightarrow> Inr ()
          | Some n \<Rightarrow> bnd (as_semantic (source_rank (atom_slice_id a) n)) (\<lambda>expected.
              ensure (sym_src_rank (hd (symbols (hd (path a)))) = expected)
                (SemanticError ''atom path does not start at the slice source rank'') (Inr ()))) (\<lambda>_.
     ensure (sym_dst_rank (current_symbol a) = current_rank)
       (SemanticError ''atom path does not end at the current rank'') (Inr ())))"

section \<open>Transfers\<close>

record transfer =
  transfer_id :: string
  transfer_kind :: string
  t_src_rank :: int
  t_dst_rank :: int
  channel :: int
  t_stage_id :: int
  member_slice_ids :: "int set"
  atoms :: "atom list"
  st_time :: rat
  ed_time :: rat
  predecessor_ids :: "string set"

definition validate_atoms :: "transfer \<Rightarrow> unit res" where
  "validate_atoms t =
     check_each (\<lambda>a.
       ensure (atom_slice_size a = atom_slice_size (hd (atoms t)))
         (SemanticError ''transfer atoms must have equal slice sizes'') (
       ensure (\<not> (atom_st_time a \<noteq> st_time t \<or> atom_ed_time a \<noteq> ed_time t))
         (SemanticError ''transfer and atom time intervals must match'') (
       ensure (\<not> (ps_stage_id (last (path a)) \<noteq> t_stage_id t \<or> operator (last (path a)) \<noteq> transfer_kind t
           \<or> sym_src_rank (current_symbol a) \<noteq> t_src_rank t \<or> sym_dst_rank (current_symbol a) \<noteq> t_dst_rank t))
         (SemanticError ''transfer atom must end with the physical operation'') (
       validate_path_prefix a (t_dst_rank t) None)))) (atoms t)"

definition transfer_init ::
    "string \<Rightarrow> string \<Rightarrow> int \<Rightarrow> int \<Rightarrow> int \<Rightarrow> int \<Rightarrow> int set \<Rightarrow> atom list \<Rightarrow> pyfloat \<Rightarrow> pyfloat \<Rightarrow> string set
      \<Rightarrow> transfer res" where
  "transfer_init tid k src dst ch stage members raw_atoms st ed preds =
     bnd (nonempty_id tid ''transfer.transfer_id'') (\<lambda>_.
     ensure (k \<in> transfer_kinds) (SemanticError ''transfer.kind must be SEND or REDUCE'') (
     bnd (integer_min src ''transfer.src_rank'' 0) (\<lambda>_.
     bnd (integer_min dst ''transfer.dst_rank'' 0) (\<lambda>_.
     ensure (src \<noteq> dst) (SemanticError ''transfer ranks must be distinct'') (
     bnd (integer_min ch ''transfer.channel'' 0) (\<lambda>_.
     bnd (integer_min stage ''transfer.stage_id'' 0) (\<lambda>_.
     ensure (members \<noteq> {}) (SemanticError ''transfer.member_slice_ids must not be empty'') (
     ensure (\<forall>i\<in>members. 0 \<le> i) (SemanticError ''transfer.member_slice_ids must be at least 0'') (
     ensure (raw_atoms \<noteq> []) (SemanticError ''transfer.atoms must contain Atom values'') (
     let sorted_atoms = sort_key atom_slice_id raw_atoms; ids = set (map atom_slice_id sorted_atoms) in
     ensure (\<not> (length sorted_atoms \<noteq> card ids \<or> ids \<noteq> members))
       (SemanticError ''transfer atoms must match member_slice_ids exactly'') (
     ensure ('''' \<notin> preds) (SemanticError ''transfer.predecessor_ids must be a non-empty string'') (
     ensure (tid \<notin> preds) (SemanticError ''transfer must not depend on itself'') (
     bnd (field_time st ''transfer.st_time'') (\<lambda>s.
     bnd (field_time ed ''transfer.ed_time'') (\<lambda>e.
     ensure (\<not> e < s) (SemanticError ''transfer.st_time must not exceed transfer.ed_time'') (
     let t = \<lparr>transfer_id = tid, transfer_kind = k, t_src_rank = src, t_dst_rank = dst, channel = ch, t_stage_id = stage,
              member_slice_ids = members, atoms = sorted_atoms, st_time = s, ed_time = e, predecessor_ids = preds\<rparr> in
     bnd (validate_atoms t) (\<lambda>_. Inr t)))))))))))))))))"

definition physical_bytes :: "transfer \<Rightarrow> int" where
  "physical_bytes t = atom_slice_size (hd (atoms t))"

definition is_forbidden :: "transfer \<Rightarrow> forbidden_transfer list \<Rightarrow> bool" where
  "is_forbidden t forbidden \<longleftrightarrow> (\<exists>item\<in>set forbidden. ft_slice_id item \<in> member_slice_ids t
     \<and> ft_src_rank item = t_src_rank t \<and> ft_dst_rank item = t_dst_rank t \<and> ft_stage_id item = t_stage_id t)"

section \<open>Schedules\<close>

datatype path_root = RankRoot int | SliceRoots "(int, int) dict"

record schedule =
  schedule_id :: string
  transfers :: "transfer list"
  final_state_ids :: "string list"
  s_rank_count :: int
  s_slice_count :: int
  s_slice_size :: int
  path_scope :: string
  path_roots :: "(string, path_root) dict option"

fun root_values :: "path_root \<Rightarrow> int list" where
  "root_values (RankRoot r) = [r]"
| "root_values (SliceRoots d) = map snd d"

definition check_path_root :: "schedule \<Rightarrow> string \<times> path_root \<Rightarrow> unit res" where
  "check_path_root s entry =
     (case entry of (tid, rt) \<Rightarrow>
       bnd (nonempty_id tid ''schedule.metadata.path_roots'') (\<lambda>_.
       bnd (case rt of
              RankRoot _ \<Rightarrow> Inr ()
            | SliceRoots d \<Rightarrow> ensure (\<exists>t\<in>set (transfers s). transfer_id t = tid \<and> set (dict_keys d) = member_slice_ids t)
                (SemanticError ''per-atom path roots must cover transfer members'') (Inr ())) (\<lambda>_.
       check_each (\<lambda>v. bnd (integer_min v ''schedule.metadata.path_roots'' 0) (\<lambda>_.
         ensure (\<not> s_rank_count s \<le> v) (SemanticError ''stage_suffix path root is outside the rank range'') (Inr ())))
         (root_values rt))))"

definition checked_path_roots :: "schedule \<Rightarrow> (string, path_root) dict res" where
  "checked_path_roots s =
     (if path_scope s = ''stage_suffix'' then
        (case path_roots s of
           None \<Rightarrow> Inl (SemanticError ''stage_suffix schedule requires path_roots metadata'')
         | Some roots \<Rightarrow>
             ensure (set (dict_keys roots) = set (map transfer_id (transfers s)))
               (SemanticError ''stage_suffix path_roots must cover every transfer exactly'') (
             bnd (check_each (check_path_root s) roots) (\<lambda>_. Inr roots)))
      else Inr [])"

text \<open>\<^verbatim>\<open>path_roots[transfer_id][slice_id]\<close>, or \<^verbatim>\<open>path_roots[transfer_id]\<close> for a common root.\<close>

definition declared_root :: "(string, path_root) dict \<Rightarrow> string \<Rightarrow> int \<Rightarrow> int res" where
  "declared_root roots tid sid =
     (case map_of roots tid of
        None \<Rightarrow> Inl (KeyError tid)
      | Some (RankRoot r) \<Rightarrow> Inr r
      | Some (SliceRoots d) \<Rightarrow> (case map_of d sid of None \<Rightarrow> Inl (KeyError (str_int sid)) | Some r \<Rightarrow> Inr r))"

definition check_atom :: "schedule \<Rightarrow> (string, path_root) dict \<Rightarrow> transfer \<Rightarrow> atom \<Rightarrow> unit res" where
  "check_atom s roots t a =
     ensure (\<not> s_rank_count s * s_slice_count s \<le> atom_slice_id a)
       (SemanticError ''atom slice_id is outside the global slice range'') (
     ensure (atom_slice_size a = s_slice_size s)
       (SemanticError ''atom slice size does not match the schedule slice size'') (
     bnd (if path_scope s = ''stage_suffix'' then
            bnd (declared_root roots (transfer_id t) (atom_slice_id a)) (\<lambda>r.
            ensure (sym_src_rank (hd (symbols (hd (path a)))) = r)
              (SemanticError ''stage_suffix atom does not start at its declared root'') (Inr ()))
          else Inr ()) (\<lambda>_.
     validate_path_prefix a (t_dst_rank t) (if path_scope s = ''global'' then Some (s_slice_count s) else None))))"

definition check_schedule_transfer :: "schedule \<Rightarrow> (string, path_root) dict \<Rightarrow> transfer \<Rightarrow> unit res" where
  "check_schedule_transfer s roots t =
     ensure (\<not> (s_rank_count s \<le> t_src_rank t \<or> s_rank_count s \<le> t_dst_rank t))
       (SemanticError ''transfer rank is outside the schedule rank range'') (
     ensure (predecessor_ids t \<subseteq> set (map transfer_id (transfers s)))
       (SemanticError ''transfer predecessor is missing from the schedule'') (
     check_each (check_atom s roots t) (atoms t)))"

definition validate_transfers :: "schedule \<Rightarrow> unit res" where
  "validate_transfers s =
     ensure (path_scope s \<in> {''global'', ''stage_suffix''})
       (SemanticError ''schedule.metadata.path_scope must be global or stage_suffix'') (
     bnd (checked_path_roots s) (\<lambda>roots.
     check_each (check_schedule_transfer s roots) (transfers s)))"

definition schedule_post_init :: "schedule \<Rightarrow> schedule res" where
  "schedule_post_init s =
     bnd (nonempty_id (schedule_id s) ''schedule.schedule_id'') (\<lambda>_.
     bnd (integer_min (s_rank_count s) ''schedule.rank_count'' 1) (\<lambda>_.
     bnd (integer_min (s_slice_count s) ''schedule.slice_count'' 1) (\<lambda>_.
     bnd (integer_min (s_slice_size s) ''schedule.slice_size_bytes'' 1) (\<lambda>_.
     ensure (distinct (map transfer_id (transfers s))) (SemanticError ''schedule transfer IDs must be unique'') (
     bnd (check_each (\<lambda>i. bnd (nonempty_id i ''schedule.final_state_ids'') (\<lambda>_. Inr ())) (final_state_ids s)) (\<lambda>_.
     ensure (distinct (final_state_ids s)) (SemanticError ''schedule final state IDs must be unique'') (
     bnd (validate_transfers s) (\<lambda>_. Inr s))))))))"

section \<open>What the constructors guarantee\<close>

text \<open>Values that went through their constructor.\<close>

definition built_stage :: "path_stage \<Rightarrow> bool" where
  "built_stage st \<longleftrightarrow> path_stage_init (ps_stage_id st) (operator st) (symbols st) = Inr st"

definition built_atom :: "atom \<Rightarrow> bool" where
  "built_atom a \<longleftrightarrow> atom_init (atom_slice_id a) (atom_slice_size a) (path a) (Finite (atom_st_time a)) (Finite (atom_ed_time a)) = Inr a
     \<and> (\<forall>st\<in>set (path a). built_stage st)"

definition built_transfer :: "transfer \<Rightarrow> bool" where
  "built_transfer t \<longleftrightarrow> transfer_init (transfer_id t) (transfer_kind t) (t_src_rank t) (t_dst_rank t) (channel t) (t_stage_id t)
     (member_slice_ids t) (atoms t) (Finite (st_time t)) (Finite (ed_time t)) (predecessor_ids t) = Inr t
     \<and> (\<forall>a\<in>set (atoms t). built_atom a)"

definition hops :: "atom \<Rightarrow> symbol list" where
  "hops a = concat (map symbols (path a))"

definition linked :: "symbol \<Rightarrow> symbol \<Rightarrow> bool" where
  "linked p q \<longleftrightarrow> sym_dst_rank p = sym_src_rank q \<and> sym_ready_time p \<le> sym_ready_time q"

text \<open>A sequence of hops that takes data from rank \<open>r\<close> to rank \<open>r'\<close>.\<close>

fun route :: "int \<Rightarrow> symbol list \<Rightarrow> int \<Rightarrow> bool" where
  "route r [] r' \<longleftrightarrow> r = r'"
| "route r (h # hs) r' \<longleftrightarrow> sym_src_rank h = r \<and> route (sym_dst_rank h) hs r'"

lemma chain_symbols_iff:
  "for_each chain_symbol prev syms = Inr r \<longleftrightarrow> successively linked ((case prev of None \<Rightarrow> [] | Some p \<Rightarrow> [p]) @ syms)
     \<and> r = (if syms = [] then prev else Some (last syms))"
proof (induction syms arbitrary: prev)
  case (Cons h hs)
  then show ?case
    by (cases prev) (auto simp: chain_symbol_def res_simps linked_def not_less split: if_splits)
qed (auto split: option.splits)

lemma successively_join:
  "successively P (xs @ ys @ zs) \<longleftrightarrow> successively P (xs @ ys) \<and> successively P ((if ys = [] then xs else [last ys]) @ zs)"
  by (auto simp: successively_append_iff successively_Cons)

lemma chain_stages_iff:
  "is_ok (for_each chain_stage (i, prev) stages)
    \<longleftrightarrow> successively linked ((case prev of None \<Rightarrow> [] | Some p \<Rightarrow> [p]) @ concat (map symbols stages))
      \<and> successively (<) ((case i of None \<Rightarrow> [] | Some k \<Rightarrow> [k]) @ map ps_stage_id stages)"
proof (induction stages arbitrary: i prev)
  case (Cons st sts)
  let ?prev = "if symbols st = [] then prev else Some (last (symbols st))"
  let ?pre = "case prev of None \<Rightarrow> [] | Some p \<Rightarrow> [p]"
  have split: "successively linked (?pre @ concat (map symbols (st # sts))) \<longleftrightarrow> successively linked (?pre @ symbols st)
      \<and> successively linked ((case ?prev of None \<Rightarrow> [] | Some p \<Rightarrow> [p]) @ concat (map symbols sts))"
    using successively_join [of linked ?pre "symbols st" "concat (map symbols sts)"] by (auto split: if_splits)
  have "is_ok (for_each chain_stage (i, prev) (st # sts)) \<longleftrightarrow> (case i of None \<Rightarrow> True | Some k \<Rightarrow> k < ps_stage_id st)
      \<and> successively linked (?pre @ symbols st) \<and> is_ok (for_each chain_stage (Some (ps_stage_id st), ?prev) sts)"
    by (auto simp: chain_stage_def chain_symbols_iff is_ok_iff res_simps not_le split: option.splits)
  then show ?case unfolding Cons.IH split by (cases i) auto
qed (auto simp: is_ok_iff split: option.splits)

lemma validate_chain_iff:
  "validate_chain a = Inr () \<longleftrightarrow> successively linked (hops a) \<and> successively (<) (map ps_stage_id (path a))"
  using chain_stages_iff [of None None "path a"]
  by (auto simp: validate_chain_def hops_def is_ok_iff res_simps)

lemma atom_eta [simp]: "\<lparr>atom_slice_id = atom_slice_id a, atom_slice_size = atom_slice_size a, path = path a,
     atom_st_time = atom_st_time a, atom_ed_time = atom_ed_time a\<rparr> = (a :: atom)"
  by simp

lemma built_atomD:
  assumes "built_atom a"
  shows "0 \<le> atom_slice_id a" "1 \<le> atom_slice_size a" "path a \<noteq> []" "\<And>st. st \<in> set (path a) \<Longrightarrow> symbols st \<noteq> []"
    "successively linked (hops a)" "successively (<) (map ps_stage_id (path a))"
    "sym_ready_time (current_symbol a) \<le> atom_st_time a" "atom_st_time a \<le> atom_ed_time a"
  using assms
  by (auto simp: built_atom_def built_stage_def path_stage_init_def atom_init_def Let_def res_simps validate_chain_iff not_less)

lemma hops_ends:
  assumes "built_atom a"
  shows "hops a \<noteq> []" "hd (hops a) = hd (symbols (hd (path a)))" "last (hops a) = current_symbol a"
proof -
  obtain st sts where p: "path a = st # sts" using built_atomD(3) [OF assms] by (cases "path a") auto
  have ne: "symbols st \<noteq> []" using built_atomD(4) [OF assms] p by simp
  then show "hops a \<noteq> []" "hd (hops a) = hd (symbols (hd (path a)))" by (simp_all add: hops_def p)
  obtain sts' st' where q: "path a = sts' @ [st']" using built_atomD(3) [OF assms] by (meson rev_exhaust)
  then have "symbols st' \<noteq> []" using built_atomD(4) [OF assms] by simp
  then show "last (hops a) = current_symbol a" by (simp add: hops_def current_symbol_def q)
qed

lemma route_linked:
  "successively linked hs \<Longrightarrow> hs \<noteq> [] \<Longrightarrow> route (sym_src_rank (hd hs)) hs (sym_dst_rank (last hs))"
proof (induction hs)
  case (Cons h hs)
  then show ?case by (cases hs) (auto simp: linked_def)
qed simp

lemma sorted_le_last: "sorted xs \<Longrightarrow> x \<in> set xs \<Longrightarrow> x \<le> last xs"
  by (cases xs rule: rev_cases) (auto simp: sorted_append)

lemma ready_times_sorted: "successively linked hs \<Longrightarrow> sorted (map sym_ready_time hs)"
proof -
  assume "successively linked hs"
  then have "successively (\<lambda>p q. sym_ready_time p \<le> sym_ready_time q) hs"
    by (rule successively_mono) (simp add: linked_def)
  then show ?thesis
    by (simp add: successively_map [symmetric] successively_conv_sorted_wrt transp_on_le)
qed



text \<open>A slice of rank 1 sent to rank 0 and on to rank 2.\<close>

definition example_atom :: atom where
  "example_atom = \<lparr>atom_slice_id = 3, atom_slice_size = 8,
     path = [\<lparr>ps_stage_id = 0, operator = ''SEND'', symbols = [\<lparr>sym_src_rank = 1, sym_dst_rank = 0, sym_ready_time = 0\<rparr>]\<rparr>,
             \<lparr>ps_stage_id = 2, operator = ''SEND'', symbols = [\<lparr>sym_src_rank = 0, sym_dst_rank = 2, sym_ready_time = 5\<rparr>]\<rparr>],
     atom_st_time = 5, atom_ed_time = 9\<rparr>"

definition example_transfer :: transfer where
  "example_transfer = \<lparr>transfer_id = ''t1'', transfer_kind = ''SEND'', t_src_rank = 0, t_dst_rank = 2, channel = 0,
     t_stage_id = 2, member_slice_ids = {3}, atoms = [example_atom], st_time = 5, ed_time = 9, predecessor_ids = {}\<rparr>"

definition example_schedule :: schedule where
  "example_schedule = \<lparr>schedule_id = ''s'', transfers = [example_transfer], final_state_ids = [], s_rank_count = 3,
     s_slice_count = 2, s_slice_size = 8, path_scope = ''global'', path_roots = None\<rparr>"

lemmas example_schedule_defs = example_schedule_def example_transfer_def example_atom_def



end
