(* ===== verification/Payload.thy ===== *)
theory Payload
  imports Atom
begin

text \<open>
  \<^verbatim>\<open>src/vericcl/semantics/state.py\<close>: payload states (a versioned value at a rank and logical address
  with the slices summed into it) and the \<^verbatim>\<open>PayloadLedger\<close> on which a schedule's reductions and sends
  are checked.  The ledger is a record with one field per attribute; methods return the new record.
\<close>

section \<open>Payload states\<close>

type_synonym member_path = "int \<times> path_stage list"

record payload_state =
  p_state_id :: string
  p_version :: int
  p_rank :: int
  p_address :: int
  p_contributors :: "int set"
  p_ready :: rat
  p_active :: bool
  p_paths :: "member_path list"

definition contributor_set :: "int set \<Rightarrow> string \<Rightarrow> int set res" where
  "contributor_set cs field =
     ensure (cs \<noteq> {}) (SemanticError (field @ '' must not be empty'')) (
     ensure (\<forall>i\<in>cs. 0 \<le> i) (SemanticError (field @ '' must be at least 0'')) (Inr cs))"

definition add_member_path :: "member_path list \<times> int set \<Rightarrow> member_path \<Rightarrow> (member_path list \<times> int set) res" where
  "add_member_path acc item =
     (case (acc, item) of ((normalized, seen), (sid, stages)) \<Rightarrow>
       bnd (integer_min sid ''payload_state.member_paths.slice_id'' 0) (\<lambda>_.
       ensure (sid \<notin> seen) (SemanticError ''payload_state.member_paths slice IDs must be unique'') (
       Inr (normalized @ [(sid, stages)], insert sid seen))))"

definition normalized_member_paths :: "int set \<Rightarrow> member_path list \<Rightarrow> member_path list res" where
  "normalized_member_paths cs raw =
     bnd (for_each add_member_path ([], {}) raw) (\<lambda>(normalized, seen).
     ensure (seen = cs) (SemanticError ''payload_state.member_paths must match contributors exactly'') (
     Inr (sort_key fst normalized)))"

definition payload_state_init ::
    "string \<Rightarrow> int \<Rightarrow> int \<Rightarrow> int \<Rightarrow> int set \<Rightarrow> pyfloat \<Rightarrow> bool \<Rightarrow> member_path list \<Rightarrow> payload_state res" where
  "payload_state_init sid version rank addr cs ready act raw =
     bnd (nonempty_id sid ''payload_state.state_id'') (\<lambda>_.
     bnd (integer_min version ''payload_state.version'' 0) (\<lambda>_.
     bnd (integer_min rank ''payload_state.rank'' 0) (\<lambda>_.
     bnd (integer_min addr ''payload_state.logical_address'' 0) (\<lambda>_.
     bnd (contributor_set cs ''payload_state.contributors'') (\<lambda>_.
     bnd (field_time ready ''payload_state.ready_time'') (\<lambda>t.
     bnd (normalized_member_paths cs raw) (\<lambda>paths.
     Inr \<lparr>p_state_id = sid, p_version = version, p_rank = rank, p_address = addr, p_contributors = cs,
          p_ready = t, p_active = act, p_paths = paths\<rparr>)))))))"

text \<open>The identifier \<^verbatim>\<open>"state-r{}-a{}-v{}"\<close>.\<close>

definition version_id :: "int \<Rightarrow> int \<Rightarrow> int \<Rightarrow> string" where
  "version_id rank addr version =
     ''state-r'' @ str_int rank @ ''-a'' @ str_int addr @ ''-v'' @ str_int version"

definition initial_payload_state :: "int \<Rightarrow> int \<Rightarrow> int \<Rightarrow> payload_state res" where
  "initial_payload_state slices rank addr =
     (let sid = rank * slices + addr in
      bnd (logical_slice_index sid slices) (\<lambda>logical.
      payload_state_init (version_id rank addr 0) 0 rank logical {sid} (Finite 0) True [(sid, [])]))"

definition initial_payload_states :: "int \<Rightarrow> int \<Rightarrow> payload_state list res" where
  "initial_payload_states ranks slices =
     bnd (integer_min ranks ''rank_count'' 1) (\<lambda>_.
     bnd (integer_min slices ''slice_count'' 1) (\<lambda>_.
     map_res (\<lambda>(rank, addr). initial_payload_state slices rank addr)
       (concat (map (\<lambda>rank. map (\<lambda>addr. (rank, addr)) (py_range 0 slices)) (py_range 0 ranks)))))"

section \<open>The ledger\<close>

record payload_ledger =
  pl_states :: "(string, payload_state) dict"
  next_versions :: "(int \<times> int, int) dict"
  active_aggregates :: "(int \<times> int, string) dict"
  inactive_ids :: "string set"
  outbound_counts :: "(string, int) dict"

definition payload_key :: "payload_state \<Rightarrow> int \<times> int" where
  "payload_key s = (p_rank s, p_address s)"

definition register :: "payload_ledger \<Rightarrow> payload_state \<Rightarrow> payload_ledger res" where
  "register l s =
     ensure (map_of (pl_states l) (p_state_id s) = None) (SemanticError ''state IDs must be unique'') (
     bnd (if p_active s \<and> 1 < card (p_contributors s) then
            ensure (map_of (active_aggregates l) (payload_key s) = None)
              (SemanticError ''active aggregate already exists at rank and logical address'') (
            Inr (l\<lparr>active_aggregates := AList.update (payload_key s) (p_state_id s) (active_aggregates l)\<rparr>))
          else Inr l) (\<lambda>l'.
     Inr (l'\<lparr>pl_states := AList.update (p_state_id s) s (pl_states l'),
             next_versions := AList.update (payload_key s)
               (max (dict_get (next_versions l') (payload_key s) 0) (p_version s + 1)) (next_versions l'),
             inactive_ids := (if p_active s then inactive_ids l' else insert (p_state_id s) (inactive_ids l'))\<rparr>)))"

definition payload_ledger_init :: "payload_state list \<Rightarrow> payload_ledger res" where
  "payload_ledger_init ss =
     for_each register \<lparr>pl_states = [], next_versions = [], active_aggregates = [], inactive_ids = {}, outbound_counts = []\<rparr> ss"

definition payload_states :: "payload_ledger \<Rightarrow> payload_state list" where
  "payload_states l = map snd (sort_key fst (pl_states l))"

definition payload_state_of :: "payload_ledger \<Rightarrow> string \<Rightarrow> payload_state res" where
  "payload_state_of l sid =
     bnd (nonempty_id sid ''state_id'') (\<lambda>_.
     case map_of (pl_states l) sid of
       None \<Rightarrow> Inl (SemanticError (''unknown state version: '' @ sid))
     | Some s \<Rightarrow> Inr s)"

definition active_payload :: "payload_ledger \<Rightarrow> string \<Rightarrow> payload_state res" where
  "active_payload l sid =
     bnd (payload_state_of l sid) (\<lambda>s.
     ensure (p_active s) (SemanticError (''state version is inactive: '' @ sid)) (Inr s))"

text \<open>\<^verbatim>\<open>replace(state, active=False)\<close> runs the constructor's checks again.\<close>

definition deactivate :: "payload_ledger \<Rightarrow> payload_state \<Rightarrow> payload_ledger res" where
  "deactivate l s =
     bnd (payload_state_init (p_state_id s) (p_version s) (p_rank s) (p_address s) (p_contributors s)
            (Finite (p_ready s)) False (p_paths s)) (\<lambda>dead.
     Inr (l\<lparr>pl_states := AList.update (p_state_id s) dead (pl_states l),
            inactive_ids := insert (p_state_id s) (inactive_ids l),
            active_aggregates := (if map_of (active_aggregates l) (payload_key s) = Some (p_state_id s)
              then AList.delete (payload_key s) (active_aggregates l) else active_aggregates l)\<rparr>))"

definition target_is_available :: "payload_ledger \<Rightarrow> int \<Rightarrow> int \<Rightarrow> string set \<Rightarrow> unit res" where
  "target_is_available l rank addr consumed =
     ensure (case map_of (active_aggregates l) (rank, addr) of None \<Rightarrow> True | Some e \<Rightarrow> e \<in> consumed)
       (SemanticError ''active aggregate already exists at rank and logical address'') (Inr ())"

text \<open>The \<^verbatim>\<open>while True\<close> loop of \<^verbatim>\<open>_new_state\<close>; the identifiers in use are finitely many.\<close>

lemma version_id_inject [simp]: "version_id r a v = version_id r a w \<longleftrightarrow> v = w"
  by (simp add: version_id_def)

lemma finite_taken_versions: "finite {w. v \<le> w \<and> version_id r a w \<in> fst ` set ss}" for ss :: "(string \<times> 'a) list"
proof -
  have "inj_on (version_id r a) {w. v \<le> w \<and> version_id r a w \<in> fst ` set ss}"
    by (auto simp: inj_on_def)
  then show ?thesis by (rule finite_imageD [rotated]) (rule finite_subset [of _ "fst ` set ss"], auto)
qed

function fresh_version :: "(string, payload_state) dict \<Rightarrow> int \<Rightarrow> int \<Rightarrow> int \<Rightarrow> int" where
  "fresh_version ss rank addr version =
     (if map_of ss (version_id rank addr version) = None then version
      else fresh_version ss rank addr (version + 1))"
  by auto
termination
proof (relation "measure (\<lambda>(ss, r, a, v). card {w. v \<le> w \<and> version_id r a w \<in> fst ` set ss})")
  fix ss :: "(string, payload_state) dict" and r a v :: int
  assume "map_of ss (version_id r a v) \<noteq> None"
  then have "v \<in> {w. v \<le> w \<and> version_id r a w \<in> fst ` set ss}"
    by (simp add: map_of_eq_None_iff)
  moreover have "{w. v + 1 \<le> w \<and> version_id r a w \<in> fst ` set ss} \<subseteq> {w. v \<le> w \<and> version_id r a w \<in> fst ` set ss}" by auto
  moreover have "v \<notin> {w. v + 1 \<le> w \<and> version_id r a w \<in> fst ` set ss}" by simp
  ultimately have "{w. v + 1 \<le> w \<and> version_id r a w \<in> fst ` set ss} \<subset> {w. v \<le> w \<and> version_id r a w \<in> fst ` set ss}"
    by blast
  then show "((ss, r, a, v + 1), (ss, r, a, v)) \<in> measure (\<lambda>(ss, r, a, v). card {w. v \<le> w \<and> version_id r a w \<in> fst ` set ss})"
    by (simp add: psubset_card_mono [OF finite_taken_versions])
qed simp

declare fresh_version.simps [simp del]

definition new_state ::
    "payload_ledger \<Rightarrow> int \<Rightarrow> int \<Rightarrow> int set \<Rightarrow> rat \<Rightarrow> member_path list \<Rightarrow> payload_state res" where
  "new_state l rank addr cs ready paths =
     (let version = fresh_version (pl_states l) rank addr (dict_get (next_versions l) (rank, addr) 0) in
      payload_state_init (version_id rank addr version) version rank addr cs (Finite ready) True paths)"

definition merged_paths :: "member_path list \<Rightarrow> member_path list \<Rightarrow> member_path list" where
  "merged_paths left right = sort_key fst (foldl (\<lambda>d (k, v). AList.update k v d) (dict_of left) (dict_of right))"

definition payload_reduce ::
    "payload_ledger \<Rightarrow> string \<Rightarrow> string \<Rightarrow> int \<Rightarrow> pyfloat \<Rightarrow> (payload_state \<times> payload_ledger) res" where
  "payload_reduce l left_id right_id dst ready =
     ensure (left_id \<noteq> right_id) (SemanticError ''REDUCE requires two distinct state versions'') (
     bnd (active_payload l left_id) (\<lambda>left.
     bnd (active_payload l right_id) (\<lambda>right.
     bnd (integer_min dst ''dst_rank'' 0) (\<lambda>_.
     bnd (field_time ready ''ready_time'') (\<lambda>t.
     ensure (p_address left = p_address right) (SemanticError ''REDUCE inputs must have the same logical address'') (
     ensure (p_contributors left \<inter> p_contributors right = {}) (SemanticError ''REDUCE contributors must be disjoint'') (
     ensure (dst \<in> {p_rank left, p_rank right}) (SemanticError ''REDUCE destination must own one input state'') (
     ensure (\<not> t < max (p_ready left) (p_ready right)) (SemanticError ''REDUCE ready_time precedes an input state'') (
     bnd (target_is_available l dst (p_address left) {p_state_id left, p_state_id right}) (\<lambda>_.
     bnd (new_state l dst (p_address left) (p_contributors left \<union> p_contributors right) t
            (merged_paths (p_paths left) (p_paths right))) (\<lambda>out.
     bnd (deactivate l left) (\<lambda>l1.
     bnd (deactivate l1 right) (\<lambda>l2.
     bnd (register l2 out) (\<lambda>l3. Inr (out, l3)))))))))))))))"

definition payload_send ::
    "payload_ledger \<Rightarrow> string \<Rightarrow> int \<Rightarrow> pyfloat \<Rightarrow> int set \<Rightarrow> (payload_state \<times> payload_ledger) res" where
  "payload_send l sid dst ready required =
     bnd (payload_state_of l sid) (\<lambda>_.
     ensure (\<not> 1 \<le> dict_get (outbound_counts l) sid 0) (SemanticError ''incomplete state already sent'') (
     bnd (active_payload l sid) (\<lambda>s.
     bnd (integer_min dst ''dst_rank'' 0) (\<lambda>_.
     ensure (dst \<noteq> p_rank s) (SemanticError ''SEND source and destination ranks must be distinct'') (
     bnd (field_time ready ''ready_time'') (\<lambda>t.
     ensure (\<not> t < p_ready s) (SemanticError ''SEND ready_time precedes the source state'') (
     bnd (contributor_set required ''required_contributors'') (\<lambda>_.
     ensure (p_contributors s \<subseteq> required)
       (SemanticError ''state contains contributors outside required contributors'') (
     bnd (if 1 < card (p_contributors s) then target_is_available l dst (p_address s) {} else Inr ()) (\<lambda>_.
     bnd (new_state l dst (p_address s) (p_contributors s) t (p_paths s)) (\<lambda>out.
     bnd (if p_contributors s = required then Inr l
          else bnd (deactivate l s) (\<lambda>l1.
            Inr (l1\<lparr>outbound_counts := AList.update sid 1 (outbound_counts l1)\<rparr>))) (\<lambda>l1.
     bnd (register l1 out) (\<lambda>l2. Inr (out, l2))))))))))))))"

definition merge_local :: "payload_ledger \<Rightarrow> string \<Rightarrow> string \<Rightarrow> pyfloat \<Rightarrow> (payload_state \<times> payload_ledger) res" where
  "merge_local l sid local_id ready =
     bnd (active_payload l sid) (\<lambda>s.
     bnd (active_payload l local_id) (\<lambda>local_state.
     ensure (p_rank s = p_rank local_state) (SemanticError ''local merge inputs must be at the same rank'') (
     ensure (card (p_contributors local_state) = 1) (SemanticError ''local contribution must contain one slice'') (
     payload_reduce l sid local_id (p_rank s) ready))))"

section \<open>The ledger invariant\<close>

definition valid_payload :: "payload_state \<Rightarrow> bool" where
  "valid_payload s \<longleftrightarrow> p_state_id s \<noteq> '''' \<and> 0 \<le> p_version s \<and> 0 \<le> p_rank s \<and> 0 \<le> p_address s
     \<and> p_contributors s \<noteq> {} \<and> (\<forall>i\<in>p_contributors s. 0 \<le> i) \<and> 0 \<le> p_ready s
     \<and> distinct (map fst (p_paths s)) \<and> fst ` set (p_paths s) = p_contributors s \<and> sorted (map fst (p_paths s))"

lemma valid_payload_finite: "valid_payload s \<Longrightarrow> finite (p_contributors s)"
  by (metis List.finite_set finite_imageI valid_payload_def)

lemma add_member_paths_iff:
  "for_each add_member_path (done_paths, seen) raw = Inr r \<longleftrightarrow> distinct (map fst raw) \<and> fst ` set raw \<inter> seen = {}
     \<and> (\<forall>i\<in>fst ` set raw. 0 \<le> i) \<and> r = (done_paths @ raw, seen \<union> fst ` set raw)"
proof (induction raw arbitrary: done_paths seen)
  case (Cons item raw)
  obtain sid st where "item = (sid, st)" by (cases item)
  with Cons.IH show ?case by (auto simp: add_member_path_def res_simps)
qed auto

lemma payload_state_init_Inr_iff:
  "payload_state_init sid v r a cs ready act raw = Inr s \<longleftrightarrow> (\<exists>t. ready = Finite t
     \<and> s = \<lparr>p_state_id = sid, p_version = v, p_rank = r, p_address = a, p_contributors = cs, p_ready = t,
          p_active = act, p_paths = sort_key fst raw\<rparr> \<and> valid_payload s)"
proof -
  have nm: "normalized_member_paths cs raw = Inr ps \<longleftrightarrow> distinct (map fst raw) \<and> (\<forall>i\<in>cs. 0 \<le> i) \<and> fst ` set raw = cs
      \<and> ps = sort_key fst raw" for ps
    by (auto simp: normalized_member_paths_def res_simps add_member_paths_iff)
  show ?thesis
    by (auto simp: payload_state_init_def contributor_set_def nm valid_payload_def res_simps distinct_keys_sort)
qed

definition live :: "payload_ledger \<Rightarrow> string \<Rightarrow> payload_state option" where
  "live l sid = (case map_of (pl_states l) sid of None \<Rightarrow> None | Some s \<Rightarrow> if p_active s then Some s else None)"

definition payload_ok :: "payload_ledger \<Rightarrow> bool" where
  "payload_ok l \<longleftrightarrow> wf_dict (pl_states l) \<and> wf_dict (active_aggregates l)
     \<and> (\<forall>sid s. map_of (pl_states l) sid = Some s \<longrightarrow> p_state_id s = sid \<and> valid_payload s
          \<and> p_version s < dict_get (next_versions l) (payload_key s) 0)
     \<and> (\<forall>k sid. map_of (active_aggregates l) k = Some sid
          \<longleftrightarrow> (\<exists>s. live l sid = Some s \<and> payload_key s = k \<and> 1 < card (p_contributors s)))
     \<and> (\<forall>sid. sid \<in> inactive_ids l \<longleftrightarrow> (\<exists>s. map_of (pl_states l) sid = Some s \<and> \<not> p_active s))
     \<and> (\<forall>sid. 1 \<le> dict_get (outbound_counts l) sid 0 \<longrightarrow> sid \<in> inactive_ids l)
     \<and> (\<forall>k. 0 \<le> dict_get (next_versions l) k 0)"

lemma payload_okD:
  assumes "payload_ok l"
  shows "wf_dict (pl_states l)" "wf_dict (active_aggregates l)"
    "map_of (pl_states l) sid = Some s \<Longrightarrow> p_state_id s = sid"
    "map_of (pl_states l) sid = Some s \<Longrightarrow> valid_payload s"
    "map_of (pl_states l) sid = Some s \<Longrightarrow> p_version s < dict_get (next_versions l) (payload_key s) 0"
    "map_of (active_aggregates l) k = Some sid
      \<longleftrightarrow> (\<exists>s. live l sid = Some s \<and> payload_key s = k \<and> 1 < card (p_contributors s))"
    "sid \<in> inactive_ids l \<longleftrightarrow> (\<exists>s. map_of (pl_states l) sid = Some s \<and> \<not> p_active s)"
    "1 \<le> dict_get (outbound_counts l) sid 0 \<Longrightarrow> sid \<in> inactive_ids l" "0 \<le> dict_get (next_versions l) k 0"
  using assms unfolding payload_ok_def by blast+

lemma live_Some_iff: "live l sid = Some s \<longleftrightarrow> map_of (pl_states l) sid = Some s \<and> p_active s"
  by (auto simp: live_def split: option.splits)

lemma liveD:
  assumes "payload_ok l" "live l sid = Some s"
  shows "p_state_id s = sid" "valid_payload s" "p_active s" "map_of (pl_states l) sid = Some s"
  using assms payload_okD(3,4) [OF assms(1)] by (auto simp: live_Some_iff)

lemma active_payload_Inr_iff:
  assumes "payload_ok l"
  shows "active_payload l sid = Inr s \<longleftrightarrow> live l sid = Some s"
proof -
  have "sid \<noteq> ''''" if "map_of (pl_states l) sid = Some s"
    using payload_okD(3,4) [OF assms that] by (auto simp: valid_payload_def)
  then show ?thesis
    by (auto simp: active_payload_def payload_state_of_def live_Some_iff res_simps split: option.splits)
qed

text \<open>At most one active aggregate per rank and address.\<close>

lemma aggregate_unique:
  assumes "payload_ok l" "live l x = Some s" "live l y = Some t" "payload_key s = payload_key t"
    and "1 < card (p_contributors s)" "1 < card (p_contributors t)"
  shows "x = y"
  using payload_okD(6) [OF assms(1)] assms(2-) by (metis option.inject)

section \<open>Registering and deactivating\<close>

lemma register_Inr_iff:
  "payload_ok l \<Longrightarrow> register l s = Inr l' \<longleftrightarrow> map_of (pl_states l) (p_state_id s) = None
     \<and> (p_active s \<and> 1 < card (p_contributors s) \<longrightarrow> map_of (active_aggregates l) (payload_key s) = None)
     \<and> l' = l\<lparr>pl_states := AList.update (p_state_id s) s (pl_states l),
             next_versions := AList.update (payload_key s)
               (max (dict_get (next_versions l) (payload_key s) 0) (p_version s + 1)) (next_versions l),
             inactive_ids := (if p_active s then inactive_ids l else insert (p_state_id s) (inactive_ids l)),
             active_aggregates := (if p_active s \<and> 1 < card (p_contributors s)
               then AList.update (payload_key s) (p_state_id s) (active_aggregates l) else active_aggregates l)\<rparr>"
  by (auto simp: register_def res_simps)

lemma register_fields:
  assumes "payload_ok l" "register l s = Inr l'" "p_active s"
  shows "map_of (pl_states l) (p_state_id s) = None" "live l (p_state_id s) = None"
    "1 < card (p_contributors s) \<Longrightarrow> map_of (active_aggregates l) (payload_key s) = None"
    "wf_dict (pl_states l')" "map_of (pl_states l') = (map_of (pl_states l))(p_state_id s \<mapsto> s)"
    "dict_get (next_versions l') k 0 = (if k = payload_key s
       then max (dict_get (next_versions l) k 0) (p_version s + 1) else dict_get (next_versions l) k 0)"
    "inactive_ids l' = inactive_ids l" "outbound_counts l' = outbound_counts l" "wf_dict (active_aggregates l')"
    "map_of (active_aggregates l') = (if 1 < card (p_contributors s)
       then (map_of (active_aggregates l))(payload_key s \<mapsto> p_state_id s) else map_of (active_aggregates l))"
    "live l' = (live l)(p_state_id s \<mapsto> s)"
proof -
  note r = assms(2) [unfolded register_Inr_iff [OF assms(1)]]
  then show "map_of (pl_states l) (p_state_id s) = None"
    "1 < card (p_contributors s) \<Longrightarrow> map_of (active_aggregates l) (payload_key s) = None" using assms(3) by auto
  show "wf_dict (pl_states l')" "map_of (pl_states l') = (map_of (pl_states l))(p_state_id s \<mapsto> s)"
    "dict_get (next_versions l') k 0 = (if k = payload_key s
       then max (dict_get (next_versions l) k 0) (p_version s + 1) else dict_get (next_versions l) k 0)"
    "inactive_ids l' = inactive_ids l" "outbound_counts l' = outbound_counts l" "wf_dict (active_aggregates l')"
    "map_of (active_aggregates l') = (if 1 < card (p_contributors s)
       then (map_of (active_aggregates l))(payload_key s \<mapsto> p_state_id s) else map_of (active_aggregates l))"
    "live l' = (live l)(p_state_id s \<mapsto> s)" "live l (p_state_id s) = None"
    using r assms(3) payload_okD(1,2) [OF assms(1)] by (simp_all add: live_def fun_eq_iff)
qed

lemma register_ok:
  assumes ok: "payload_ok l" and reg: "register l s = Inr l'" and s: "valid_payload s" "p_active s"
  shows "payload_ok l'"
proof -
  note r = register_fields [OF ok reg s(2)] and o = payload_okD [OF ok]
  have agg: "map_of (active_aggregates l') k = Some sid
      \<longleftrightarrow> (\<exists>t. live l' sid = Some t \<and> payload_key t = k \<and> 1 < card (p_contributors t))" for k sid
  proof (cases "sid = p_state_id s")
    case True
    have "map_of (active_aggregates l) k \<noteq> Some (p_state_id s)" using r(2) by (simp add: o(6))
    with True show ?thesis by (auto simp: r(10,11))
  next
    case False
    then have "(\<exists>t. live l' sid = Some t \<and> payload_key t = k \<and> 1 < card (p_contributors t))
        \<longleftrightarrow> map_of (active_aggregates l) k = Some sid"
      by (simp add: r(11) o(6))
    with False r(3) show ?thesis by (auto simp: r(10))
  qed
  have all: "p_state_id t = sid \<and> valid_payload t \<and> p_version t < dict_get (next_versions l') (payload_key t) 0"
    if "map_of (pl_states l') sid = Some t" for sid t
  proof (cases "sid = p_state_id s")
    case False
    with that have "map_of (pl_states l) sid = Some t" by (simp add: r(5))
    from o(3-5) [OF this] show ?thesis by (auto simp: r(6) max_def)
  qed (use that s in \<open>auto simp: r(5,6)\<close>)
  have "sid \<in> inactive_ids l' \<longleftrightarrow> (\<exists>t. map_of (pl_states l') sid = Some t \<and> \<not> p_active t)" for sid
    using r(1) s(2) by (auto simp: r(5,7) o(7))
  moreover have "0 \<le> dict_get (next_versions l') k 0" for k using o(9) [of k] by (auto simp: r(6))
  ultimately show ?thesis
    unfolding payload_ok_def using r(4,9) all agg o(8) by (auto simp: r(7,8))
qed

lemma deactivate_fields:
  assumes "payload_ok l" "live l (p_state_id s) = Some s"
  obtains l' where "deactivate l s = Inr l'" "payload_ok l'" "live l' = (live l)(p_state_id s := None)"
    "dom (map_of (pl_states l')) = dom (map_of (pl_states l))" "next_versions l' = next_versions l"
    "outbound_counts l' = outbound_counts l" "p_state_id s \<in> inactive_ids l'"
    "\<And>k. map_of (active_aggregates l') k = (if map_of (active_aggregates l) k = Some (p_state_id s)
       then None else map_of (active_aggregates l) k)"
proof -
  note o = payload_okD [OF assms(1)] and sv = liveD [OF assms]
  define dead where "dead = s\<lparr>p_active := False\<rparr>"
  have "sort_key fst (p_paths s) = p_paths s" using sv(2) by (simp add: valid_payload_def sort_key_id_if_sorted)
  then have init: "payload_state_init (p_state_id s) (p_version s) (p_rank s) (p_address s) (p_contributors s)
      (Finite (p_ready s)) False (p_paths s) = Inr dead"
    using sv(2) by (simp add: payload_state_init_Inr_iff dead_def valid_payload_def)
  define l' where "l' = l\<lparr>pl_states := AList.update (p_state_id s) dead (pl_states l),
            inactive_ids := insert (p_state_id s) (inactive_ids l),
            active_aggregates := (if map_of (active_aggregates l) (payload_key s) = Some (p_state_id s)
              then AList.delete (payload_key s) (active_aggregates l) else active_aggregates l)\<rparr>"
  have run: "deactivate l s = Inr l'" by (simp add: deactivate_def init l'_def)
  have f: "wf_dict (pl_states l')" "map_of (pl_states l') = (map_of (pl_states l))(p_state_id s \<mapsto> dead)"
    "next_versions l' = next_versions l" "outbound_counts l' = outbound_counts l"
    "inactive_ids l' = insert (p_state_id s) (inactive_ids l)"
    using o(1) by (simp_all add: l'_def)
  have lv: "live l' = (live l)(p_state_id s := None)"
    by (simp add: live_def f(2) dead_def fun_eq_iff)
  have key: "k = payload_key s" if "map_of (active_aggregates l) k = Some (p_state_id s)" for k
    using that assms(2) by (auto simp: o(6))
  have wf: "wf_dict (active_aggregates l')" using o(2) by (simp add: l'_def distinct_delete)
  have agg: "map_of (active_aggregates l') k = (if map_of (active_aggregates l) k = Some (p_state_id s)
       then None else map_of (active_aggregates l) k)" for k
  proof (cases "map_of (active_aggregates l) (payload_key s) = Some (p_state_id s)")
    case True
    then have "active_aggregates l' = AList.delete (payload_key s) (active_aggregates l)" by (simp add: l'_def)
    with True key [of k] show ?thesis by (cases "k = payload_key s") (auto simp: delete_conv')
  next
    case False
    then have "active_aggregates l' = active_aggregates l" by (simp add: l'_def)
    with False key [of k] show ?thesis by auto
  qed
  have agg': "map_of (active_aggregates l') k = Some sid
      \<longleftrightarrow> (\<exists>t. live l' sid = Some t \<and> payload_key t = k \<and> 1 < card (p_contributors t))" for k sid
    using o(6) [of k sid] by (auto simp: agg lv)
  have all: "p_state_id t = sid \<and> valid_payload t \<and> p_version t < dict_get (next_versions l') (payload_key t) 0"
    if t: "map_of (pl_states l') sid = Some t" for sid t
  proof (cases "sid = p_state_id s")
    case True
    with t have "t = dead" by (simp add: f(2))
    with True sv(2) o(5) [OF sv(4)] show ?thesis by (simp add: f(3) dead_def valid_payload_def payload_key_def)
  next
    case False
    with t have "map_of (pl_states l) sid = Some t" by (simp add: f(2))
    from o(3-5) [OF this] show ?thesis by (simp add: f(3))
  qed
  have dead: "sid \<in> inactive_ids l' \<longleftrightarrow> (\<exists>t. map_of (pl_states l') sid = Some t \<and> \<not> p_active t)" for sid
    by (simp add: f(2,5) o(7) dead_def)
  have cnt: "1 \<le> dict_get (outbound_counts l') sid 0 \<Longrightarrow> sid \<in> inactive_ids l'" for sid
    using o(8) by (simp add: f(4,5))
  have nv: "0 \<le> dict_get (next_versions l') k 0" for k by (simp add: f(3) o(9))
  have "payload_ok l'"
    unfolding payload_ok_def using f(1) wf all agg' dead cnt nv by blast
  moreover have "dom (map_of (pl_states l')) = dom (map_of (pl_states l))" using sv(4) by (auto simp: f(2))
  moreover have "p_state_id s \<in> inactive_ids l'" by (simp add: f(5))
  ultimately show thesis using that [OF run _ lv _ f(3,4) _ agg] by blast
qed

section \<open>Fresh versions\<close>

lemma fresh_version_spec:
  "map_of ss (version_id r a (fresh_version ss r a v)) = None \<and> v \<le> fresh_version ss r a v"
proof (induction ss r a v rule: fresh_version.induct)
  case (1 ss r a v)
  then show ?case by (subst (1 2) fresh_version.simps) auto
qed

text \<open>The version found is the first unused one: no identifier is skipped.\<close>

lemma fresh_version_first: "v \<le> w \<Longrightarrow> w < fresh_version ss r a v \<Longrightarrow> map_of ss (version_id r a w) \<noteq> None"
proof (induction ss r a v rule: fresh_version.induct)
  case (1 ss r a v)
  then show ?case by (cases "w = v") (auto simp: fresh_version.simps [of ss r a v] split: if_splits)
qed

lemma new_state_Inr:
  assumes "payload_ok l" "0 \<le> rank" "0 \<le> addr" "cs \<noteq> {}" "\<forall>i\<in>cs. 0 \<le> i" "0 \<le> t"
    and "distinct (map fst paths)" "fst ` set paths = cs"
  obtains out where "new_state l rank addr cs t paths = Inr out" "valid_payload out" "p_active out"
    "map_of (pl_states l) (p_state_id out) = None" "payload_key out = (rank, addr)" "p_contributors out = cs" "p_ready out = t"
proof -
  let ?v = "fresh_version (pl_states l) rank addr (dict_get (next_versions l) (rank, addr) 0)"
  let ?out = "\<lparr>p_state_id = version_id rank addr ?v, p_version = ?v, p_rank = rank, p_address = addr, p_contributors = cs,
    p_ready = t, p_active = True, p_paths = sort_key fst paths\<rparr>"
  have "distinct (map fst (sort_key fst paths))" using assms(7) by (simp add: distinct_keys_sort)
  moreover have "0 \<le> ?v" using fresh_version_spec payload_okD(9) [OF assms(1)] order_trans by blast
  ultimately have valid: "valid_payload ?out"
    using assms(2-8) by (simp add: valid_payload_def version_id_def)
  then have "new_state l rank addr cs t paths = Inr ?out"
    by (simp add: new_state_def Let_def payload_state_init_Inr_iff)
  with valid fresh_version_spec show thesis by (intro that) (auto simp: payload_key_def)
qed

lemma merged_paths_keys:
  assumes "distinct (map fst ps)" "distinct (map fst qs)"
  shows "distinct (map fst (merged_paths ps qs))" "fst ` set (merged_paths ps qs) = fst ` set ps \<union> fst ` set qs"
proof -
  have keys: "fst ` set (foldl (\<lambda>d (k, v). AList.update k v d) d kvs) = fst ` set d \<union> fst ` set kvs"
    for d kvs :: "member_path list"
  proof (induction kvs arbitrary: d)
    case (Cons kv kvs)
    then show ?case by (cases kv) simp
  qed simp
  show "distinct (map fst (merged_paths ps qs))"
    unfolding merged_paths_def distinct_keys_sort by (rule wf_dict_fold) simp
  show "fst ` set (merged_paths ps qs) = fst ` set ps \<union> fst ` set qs"
    using assms by (simp add: merged_paths_def keys dict_of_distinct)
qed

section \<open>Reductions\<close>

text \<open>When a reduction is accepted.\<close>

definition reduce_allowed :: "payload_ledger \<Rightarrow> string \<Rightarrow> string \<Rightarrow> int \<Rightarrow> rat \<Rightarrow> bool" where
  "reduce_allowed l a b dst t \<longleftrightarrow> a \<noteq> b \<and> (\<exists>left right. live l a = Some left \<and> live l b = Some right
     \<and> p_address left = p_address right \<and> p_contributors left \<inter> p_contributors right = {}
     \<and> dst \<in> {p_rank left, p_rank right} \<and> p_ready left \<le> t \<and> p_ready right \<le> t
     \<and> (\<forall>x s. live l x = Some s \<longrightarrow> payload_key s = (dst, p_address left) \<longrightarrow> 1 < card (p_contributors s) \<longrightarrow> x \<in> {a, b}))"

lemma target_is_available_iff:
  assumes "payload_ok l"
  shows "target_is_available l r a ids = Inr u \<longleftrightarrow> (\<forall>x s. live l x = Some s \<longrightarrow> payload_key s = (r, a)
     \<longrightarrow> 1 < card (p_contributors s) \<longrightarrow> x \<in> ids)"
proof -
  have "(case map_of (active_aggregates l) (r, a) of None \<Rightarrow> True | Some e \<Rightarrow> e \<in> ids)
      \<longleftrightarrow> (\<forall>e. map_of (active_aggregates l) (r, a) = Some e \<longrightarrow> e \<in> ids)"
    by (simp split: option.split)
  then show ?thesis
    by (auto simp: target_is_available_def res_simps payload_okD(6) [OF assms])
qed

lemma payload_reduce_effect:
  assumes ok: "payload_ok l" and allowed: "reduce_allowed l a b dst t"
    and ab: "live l a = Some left" "live l b = Some right"
  obtains out l' where "payload_reduce l a b dst (Finite t) = Inr (out, l')" "payload_ok l'"
    "live l (p_state_id out) = None" "live l' = (live l)(a := None, b := None, p_state_id out \<mapsto> out)"
    "p_contributors out = p_contributors left \<union> p_contributors right" "payload_key out = (dst, p_address left)" "p_ready out = t"
proof -
  have g: "a \<noteq> b" "p_address left = p_address right" "p_contributors left \<inter> p_contributors right = {}"
    "dst \<in> {p_rank left, p_rank right}" "p_ready left \<le> t" "p_ready right \<le> t"
    and free: "\<And>x s. live l x = Some s \<Longrightarrow> payload_key s = (dst, p_address left) \<Longrightarrow> 1 < card (p_contributors s) \<Longrightarrow> x \<in> {a, b}"
    using allowed ab by (auto simp: reduce_allowed_def)
  note L = liveD [OF ok ab(1)] and R = liveD [OF ok ab(2)]
  have v: "valid_payload left" "valid_payload right" using L R by auto
  have "0 \<le> dst" "0 \<le> p_address left" "0 \<le> t" "p_contributors left \<union> p_contributors right \<noteq> {}"
    "\<forall>i\<in>p_contributors left \<union> p_contributors right. 0 \<le> i"
    using v g by (auto simp: valid_payload_def)
  moreover have "distinct (map fst (merged_paths (p_paths left) (p_paths right)))"
    "fst ` set (merged_paths (p_paths left) (p_paths right)) = p_contributors left \<union> p_contributors right"
    using v by (simp_all add: merged_paths_keys valid_payload_def)
  ultimately obtain out where out: "new_state l dst (p_address left) (p_contributors left \<union> p_contributors right) t
      (merged_paths (p_paths left) (p_paths right)) = Inr out" "valid_payload out" "p_active out"
    "map_of (pl_states l) (p_state_id out) = None" "payload_key out = (dst, p_address left)"
    "p_contributors out = p_contributors left \<union> p_contributors right" "p_ready out = t"
    using new_state_Inr [OF ok] by metis
  have "live l (p_state_id left) = Some left" using ab(1) L(1) by simp
  from deactivate_fields [OF ok this] obtain l1 where l1: "deactivate l left = Inr l1" "payload_ok l1"
    "live l1 = (live l)(a := None)" "dom (map_of (pl_states l1)) = dom (map_of (pl_states l))"
    using L(1) by metis
  have "live l1 (p_state_id right) = Some right" using ab(2) R(1) g(1) by (simp add: l1(3))
  from deactivate_fields [OF l1(2) this] obtain l2 where l2: "deactivate l1 right = Inr l2" "payload_ok l2"
    "live l2 = (live l)(a := None, b := None)" "dom (map_of (pl_states l2)) = dom (map_of (pl_states l))"
    using R(1) l1(3,4) by metis
  have "map_of (pl_states l2) (p_state_id out) = None" using out(4) l2(4) by (metis domIff)
  moreover have "map_of (active_aggregates l2) (payload_key out) = None"
    using free by (auto simp: payload_okD(6) [OF l2(2)] l2(3) out(5) not_Some_eq [symmetric] simp del: not_Some_eq split: if_splits)
  ultimately obtain l3 where l3: "register l2 out = Inr l3" by (simp add: register_Inr_iff [OF l2(2)])
  have tgt: "target_is_available l dst (p_address left) {p_state_id left, p_state_id right} = Inr ()"
    using free L(1) R(1) by (auto simp: target_is_available_iff [OF ok])
  have acts: "active_payload l a = Inr left" "active_payload l b = Inr right" using ab by (simp_all add: active_payload_Inr_iff [OF ok])
  have dst: "integer_min dst ''dst_rank'' 0 = Inr dst" "field_time (Finite t) ''ready_time'' = Inr t"
    using \<open>0 \<le> dst\<close> \<open>0 \<le> t\<close> by (simp_all add: res_simps)
  have "\<not> t < max (p_ready left) (p_ready right)" using g(5,6) by auto
  then have run: "payload_reduce l a b dst (Finite t) = Inr (out, l3)"
    unfolding payload_reduce_def acts dst bnd_simps ensure_simps tgt using g(1-4) out(1) l1(1) l2(1) l3
    by simp
  have "live l3 = (live l)(a := None, b := None, p_state_id out \<mapsto> out)"
    using register_fields(11) [OF l2(2) l3 out(3)] by (simp add: l2(3))
  moreover have "live l (p_state_id out) = None" using out(4) by (simp add: live_def)
  ultimately show thesis using that [OF run register_ok [OF l2(2) l3 out(2,3)]] out(5-7) by simp
qed

lemma payload_reduce_allowed:
  assumes "payload_ok l" "payload_reduce l a b dst ready = Inr r"
  obtains t where "ready = Finite t" "reduce_allowed l a b dst t"
proof -
  obtain left right t where g: "a \<noteq> b" "live l a = Some left" "live l b = Some right" "ready = Finite t"
    "p_address left = p_address right" "p_contributors left \<inter> p_contributors right = {}"
    "dst \<in> {p_rank left, p_rank right}" "\<not> t < max (p_ready left) (p_ready right)"
    and tgt: "\<exists>u. target_is_available l dst (p_address left) {p_state_id left, p_state_id right} = Inr u"
    using assms(2) unfolding payload_reduce_def bnd_Inr_iff ensure_Inr_iff active_payload_Inr_iff [OF assms(1)]
      field_time_Inr_iff by blast
  have "p_state_id left = a" "p_state_id right = b" using liveD(1) [OF assms(1)] g(2,3) by auto
  with g tgt have "reduce_allowed l a b dst t"
    unfolding reduce_allowed_def target_is_available_iff [OF assms(1)]
    by (intro conjI exI [of _ left] exI [of _ right]) auto
  with that g(4) show thesis by blast
qed

section \<open>Sends\<close>

definition send_allowed :: "payload_ledger \<Rightarrow> string \<Rightarrow> int \<Rightarrow> rat \<Rightarrow> int set \<Rightarrow> bool" where
  "send_allowed l sid dst t required \<longleftrightarrow> 0 \<le> dst \<and> (\<forall>i\<in>required. 0 \<le> i) \<and> (\<exists>s. live l sid = Some s \<and> dst \<noteq> p_rank s
     \<and> p_ready s \<le> t \<and> p_contributors s \<subseteq> required
     \<and> (1 < card (p_contributors s) \<longrightarrow> (\<forall>x y. live l x = Some y \<longrightarrow> payload_key y = (dst, p_address s)
          \<longrightarrow> \<not> 1 < card (p_contributors y))))"

lemma payload_send_effect:
  assumes ok: "payload_ok l" and allowed: "send_allowed l sid dst t required" and s: "live l sid = Some s"
  obtains out l' where "payload_send l sid dst (Finite t) required = Inr (out, l')" "payload_ok l'"
    "live l (p_state_id out) = None"
    "live l' = (if p_contributors s = required then live l else (live l)(sid := None))(p_state_id out \<mapsto> out)"
    "p_contributors out = p_contributors s" "payload_key out = (dst, p_address s)" "p_ready out = t"
proof -
  have g: "0 \<le> dst" "\<forall>i\<in>required. 0 \<le> i" "dst \<noteq> p_rank s" "p_ready s \<le> t" "p_contributors s \<subseteq> required"
    and free: "\<And>x y. 1 < card (p_contributors s) \<Longrightarrow> live l x = Some y \<Longrightarrow> payload_key y = (dst, p_address s)
      \<Longrightarrow> \<not> 1 < card (p_contributors y)"
    using allowed s by (auto simp: send_allowed_def)
  note S = liveD [OF ok s]
  have v: "0 \<le> p_address s" "p_contributors s \<noteq> {}" "\<forall>i\<in>p_contributors s. 0 \<le> i" "0 \<le> t"
    "distinct (map fst (p_paths s))" "fst ` set (p_paths s) = p_contributors s"
    using S(2) g(4) by (auto simp: valid_payload_def)
  obtain out where out: "new_state l dst (p_address s) (p_contributors s) t (p_paths s) = Inr out" "valid_payload out" "p_active out"
    "map_of (pl_states l) (p_state_id out) = None" "payload_key out = (dst, p_address s)"
    "p_contributors out = p_contributors s" "p_ready out = t"
    using new_state_Inr [OF ok g(1) v] by blast
  obtain l1 where l1: "(if p_contributors s = required then Inr l
          else bnd (deactivate l s) (\<lambda>l1.
            Inr (l1\<lparr>outbound_counts := AList.update sid 1 (outbound_counts l1)\<rparr>))) = Inr l1" "payload_ok l1"
    "live l1 = (if p_contributors s = required then live l else (live l)(sid := None))"
    "dom (map_of (pl_states l1)) = dom (map_of (pl_states l))"
  proof (cases "p_contributors s = required")
    case False
    have "live l (p_state_id s) = Some s" using s S(1) by simp
    from deactivate_fields [OF ok this] obtain m where m: "deactivate l s = Inr m" "payload_ok m"
      "live m = (live l)(sid := None)" "dom (map_of (pl_states m)) = dom (map_of (pl_states l))" "sid \<in> inactive_ids m"
      using S(1) by metis
    let ?m = "m\<lparr>outbound_counts := AList.update sid 1 (outbound_counts m)\<rparr>"
    have lv: "live ?m = live m" by (simp add: live_def fun_eq_iff)
    have same: "pl_states ?m = pl_states m" "active_aggregates ?m = active_aggregates m" "next_versions ?m = next_versions m"
      "inactive_ids ?m = inactive_ids m" by simp_all
    have "1 \<le> dict_get (outbound_counts ?m) x 0 \<Longrightarrow> x \<in> inactive_ids m" for x
      using payload_okD(8) [OF m(2)] m(5) by (auto split: if_splits)
    with m(2) have "payload_ok ?m" unfolding payload_ok_def lv same by blast
    with that [of ?m] False m lv show thesis by simp
  qed (use that [of l] ok in simp)
  have "map_of (pl_states l1) (p_state_id out) = None" using out(4) l1(4) by (metis domIff)
  moreover have "map_of (active_aggregates l1) (payload_key out) = None" if "1 < card (p_contributors out)"
    using free that by (auto simp: payload_okD(6) [OF l1(2)] l1(3) out(5,6) not_Some_eq [symmetric] simp del: not_Some_eq split: if_splits)
  ultimately obtain l2 where l2: "register l1 out = Inr l2" by (auto simp: register_Inr_iff [OF l1(2)])
  have tgt: "(if 1 < card (p_contributors s) then target_is_available l dst (p_address s) {} else Inr ()) = Inr ()"
    using free by (auto simp: target_is_available_iff [OF ok])
  have acts: "active_payload l sid = Inr s" using s by (simp add: active_payload_Inr_iff [OF ok])
  then have st: "payload_state_of l sid = Inr s" by (auto simp: active_payload_def res_simps)
  have "sid \<notin> inactive_ids l" using s by (auto simp: payload_okD(7) [OF ok] live_Some_iff)
  then have cnt: "\<not> 1 \<le> dict_get (outbound_counts l) sid 0" using payload_okD(8) [OF ok] by blast
  have chk: "integer_min dst ''dst_rank'' 0 = Inr dst" "field_time (Finite t) ''ready_time'' = Inr t"
    "contributor_set required ''required_contributors'' = Inr required" "\<not> t < p_ready s"
    using g v by (auto simp: res_simps contributor_set_def)
  have run: "payload_send l sid dst (Finite t) required = Inr (out, l2)"
    unfolding payload_send_def acts st chk bnd_simps tgt out(1) l1(1) using cnt chk(4) g(3,5) l2 by simp
  have "live l2 = (if p_contributors s = required then live l else (live l)(sid := None))(p_state_id out \<mapsto> out)"
    using register_fields(11) [OF l1(2) l2 out(3)] by (simp add: l1(3))
  moreover have "live l (p_state_id out) = None" using out(4) by (simp add: live_def)
  ultimately show thesis using that [OF run register_ok [OF l1(2) l2 out(2,3)]] out(5-7) by simp
qed

lemma payload_send_allowed:
  assumes "payload_ok l" "payload_send l sid dst ready required = Inr r"
  obtains t where "ready = Finite t" "send_allowed l sid dst t required"
proof -
  obtain s t where g: "live l sid = Some s" "0 \<le> dst" "dst \<noteq> p_rank s" "ready = Finite t" "\<not> t < p_ready s"
    "p_contributors s \<subseteq> required"
    and req: "\<exists>u. contributor_set required ''required_contributors'' = Inr u"
    and tgt: "\<exists>u. (if 1 < card (p_contributors s) then target_is_available l dst (p_address s) {} else Inr ()) = Inr u"
    using assms(2) unfolding payload_send_def bnd_Inr_iff ensure_Inr_iff active_payload_Inr_iff [OF assms(1)]
      field_time_Inr_iff integer_min_Inr_iff by blast
  have "\<forall>i\<in>required. 0 \<le> i" using req by (auto simp: contributor_set_def res_simps)
  with g tgt have "send_allowed l sid dst t required"
    unfolding send_allowed_def
    by (intro conjI exI [of _ s]) (auto simp: target_is_available_iff [OF assms(1)])
  with that g(4) show thesis by blast
qed

section \<open>Sequences of operations\<close>

datatype payload_op =
    ReduceOp string string int pyfloat
  | SendOp string int pyfloat
  | MergeLocalOp string string pyfloat

text \<open>\<open>required\<close> gives the complete contributor set of each logical address, as the callers pass it to a send.\<close>

definition payload_step :: "(int \<Rightarrow> int set) \<Rightarrow> payload_ledger \<Rightarrow> payload_op \<Rightarrow> payload_ledger res" where
  "payload_step required l op =
     (case op of
        ReduceOp a b dst t \<Rightarrow> bnd (payload_reduce l a b dst t) (\<lambda>(_, l'). Inr l')
      | SendOp sid dst t \<Rightarrow> bnd (payload_state_of l sid) (\<lambda>s.
          bnd (payload_send l sid dst t (required (p_address s))) (\<lambda>(_, l'). Inr l'))
      | MergeLocalOp a b t \<Rightarrow> bnd (merge_local l a b t) (\<lambda>(_, l'). Inr l'))"

definition merged_effect :: "payload_ledger \<Rightarrow> payload_ledger \<Rightarrow> bool" where
  "merged_effect l l' \<longleftrightarrow> (\<exists>a b left right out. a \<noteq> b \<and> live l a = Some left \<and> live l b = Some right
     \<and> p_address left = p_address right \<and> p_contributors left \<inter> p_contributors right = {}
     \<and> live l (p_state_id out) = None \<and> live l' = (live l)(a := None, b := None, p_state_id out \<mapsto> out)
     \<and> p_contributors out = p_contributors left \<union> p_contributors right \<and> p_address out = p_address left)"

definition sent_effect :: "(int \<Rightarrow> int set) \<Rightarrow> payload_ledger \<Rightarrow> payload_ledger \<Rightarrow> bool" where
  "sent_effect required l l' \<longleftrightarrow> (\<exists>sid s out. live l sid = Some s \<and> p_contributors s \<subseteq> required (p_address s)
     \<and> live l (p_state_id out) = None
     \<and> live l' = (if p_contributors s = required (p_address s) then live l else (live l)(sid := None))(p_state_id out \<mapsto> out)
     \<and> p_contributors out = p_contributors s \<and> p_address out = p_address s)"

lemma payload_reduce_merged:
  assumes ok: "payload_ok l" and run: "payload_reduce l a b dst ready = Inr (out, l')"
  shows "payload_ok l' \<and> merged_effect l l'"
proof -
  obtain t where t: "ready = Finite t" "reduce_allowed l a b dst t" by (rule payload_reduce_allowed [OF assms])
  then obtain left right where lr: "a \<noteq> b" "live l a = Some left" "live l b = Some right"
    "p_address left = p_address right" "p_contributors left \<inter> p_contributors right = {}"
    by (auto simp: reduce_allowed_def)
  show ?thesis
  proof (rule payload_reduce_effect [OF ok t(2) lr(2,3)])
    fix out2 l2
    assume e: "payload_reduce l a b dst (Finite t) = Inr (out2, l2)" "payload_ok l2" "live l (p_state_id out2) = None"
      "live l2 = (live l)(a := None, b := None, p_state_id out2 \<mapsto> out2)"
      "p_contributors out2 = p_contributors left \<union> p_contributors right" "payload_key out2 = (dst, p_address left)"
    have "l2 = l'" using e(1) run t(1) by simp
    moreover have "merged_effect l l2"
      unfolding merged_effect_def using lr e(3-6) by (metis payload_key_def prod.inject)
    ultimately show ?thesis using e(2) by simp
  qed
qed

lemma payload_send_sent:
  assumes ok: "payload_ok l" and s: "payload_state_of l sid = Inr s"
    and run: "payload_send l sid dst ready (required (p_address s)) = Inr (out, l')"
  shows "payload_ok l' \<and> sent_effect required l l'"
proof -
  obtain t where t: "ready = Finite t" "send_allowed l sid dst t (required (p_address s))"
    by (rule payload_send_allowed [OF ok run])
  then obtain s2 where s2: "live l sid = Some s2" "p_contributors s2 \<subseteq> required (p_address s)"
    by (auto simp: send_allowed_def)
  have eq: "s2 = s" using s s2(1) by (auto simp: payload_state_of_def live_Some_iff res_simps)
  show ?thesis
  proof (rule payload_send_effect [OF ok t(2) s2(1)])
    fix out2 l2
    assume e: "payload_send l sid dst (Finite t) (required (p_address s)) = Inr (out2, l2)" "payload_ok l2"
      "live l (p_state_id out2) = None"
      "live l2 = (if p_contributors s2 = required (p_address s) then live l else (live l)(sid := None))(p_state_id out2 \<mapsto> out2)"
      "p_contributors out2 = p_contributors s2" "payload_key out2 = (dst, p_address s2)"
    have "l2 = l'" using e(1) run t(1) by simp
    moreover have "sent_effect required l l2"
      unfolding sent_effect_def using s2 e(3-6) eq by (metis payload_key_def prod.inject)
    ultimately show ?thesis using e(2) by simp
  qed
qed

lemma payload_step_effect:
  assumes "payload_ok l" "payload_step required l op = Inr l'"
  shows "payload_ok l' \<and> (merged_effect l l' \<or> sent_effect required l l')"
proof (cases op)
  case (ReduceOp a b dst t)
  then show ?thesis using assms payload_reduce_merged by (auto simp: payload_step_def res_simps)
next
  case (SendOp sid dst t)
  then show ?thesis using assms payload_send_sent by (fastforce simp: payload_step_def res_simps)
next
  case (MergeLocalOp a b t)
  then show ?thesis using assms payload_reduce_merged by (fastforce simp: payload_step_def merge_local_def res_simps)
qed

interpretation payloads: guarded_run payload_ok "payload_step required"
    "\<lambda>l op l'. merged_effect l l' \<or> sent_effect required l l'" for required
  by unfold_locales (blast dest: payload_step_effect)+


section \<open>No contribution is lost or counted twice\<close>

text \<open>
  \<open>custody required A l\<close>: every slice of \<open>A\<close> is still held by an active state of its address; active
  states hold only required slices; two active states of one address that share a slice are both
  complete copies.
\<close>

definition custody :: "(int \<Rightarrow> int set) \<Rightarrow> payload_ledger \<Rightarrow> bool" where
  "custody required l \<longleftrightarrow>
     (\<forall>x s. live l x = Some s \<longrightarrow> p_contributors s \<subseteq> required (p_address s))
     \<and> (\<forall>x y s t. live l x = Some s \<longrightarrow> live l y = Some t \<longrightarrow> x \<noteq> y \<longrightarrow> p_address s = p_address t
          \<longrightarrow> p_contributors s \<inter> p_contributors t = {}
            \<or> p_contributors s = required (p_address s) \<and> p_contributors t = required (p_address s))"

definition held :: "payload_ledger \<Rightarrow> int \<Rightarrow> int set" where
  "held l addr = \<Union> {p_contributors s | x s. live l x = Some s \<and> p_address s = addr}"

lemma custody_subset: "custody required l \<Longrightarrow> live l x = Some s \<Longrightarrow> p_contributors s \<subseteq> required (p_address s)"
  by (simp add: custody_def)

lemma custody_shared:
  "custody required l \<Longrightarrow> live l x = Some s \<Longrightarrow> live l y = Some t \<Longrightarrow> x \<noteq> y \<Longrightarrow> p_address s = p_address t
    \<Longrightarrow> i \<in> p_contributors s \<Longrightarrow> i \<in> p_contributors t
    \<Longrightarrow> p_contributors s = required (p_address s) \<and> p_contributors t = required (p_address s)"
  unfolding custody_def by blast

lemma held_iff: "i \<in> held l addr \<longleftrightarrow> (\<exists>x s. live l x = Some s \<and> p_address s = addr \<and> i \<in> p_contributors s)"
  by (auto simp: held_def)

lemma custody_extend:
  assumes "\<And>x s. lv x = Some s \<Longrightarrow> p_contributors s \<subseteq> required (p_address s)"
    and "\<And>x y s t. lv x = Some s \<Longrightarrow> lv y = Some t \<Longrightarrow> x \<noteq> y \<Longrightarrow> p_address s = p_address t
          \<Longrightarrow> p_contributors s \<inter> p_contributors t = {}
            \<or> p_contributors s = required (p_address s) \<and> p_contributors t = required (p_address s)"
    and "live l' = lv(n \<mapsto> out)" "lv n = None" "p_contributors out \<subseteq> required (p_address out)"
    and "\<And>x s. lv x = Some s \<Longrightarrow> p_address s = p_address out
          \<Longrightarrow> p_contributors s \<inter> p_contributors out = {}
            \<or> p_contributors s = required (p_address s) \<and> p_contributors out = required (p_address s)"
  shows "custody required l'"
  unfolding custody_def
proof (intro conjI allI impI)
  fix x s assume "live l' x = Some s"
  then show "p_contributors s \<subseteq> required (p_address s)" using assms(1,3,5) by (auto split: if_splits)
next
  fix x y s t
  assume xy: "live l' x = Some s" "live l' y = Some t" "x \<noteq> y" "p_address s = p_address t"
  consider "lv x = Some s" "lv y = Some t" | "lv x = Some s" "t = out" | "lv y = Some t" "s = out"
    using xy(1-3) by (cases "x = n"; cases "y = n") (simp_all add: assms(3))
  then show "p_contributors s \<inter> p_contributors t = {}
      \<or> p_contributors s = required (p_address s) \<and> p_contributors t = required (p_address s)"
  proof cases
    case 3
    with assms(6) [of y t] xy(4) show ?thesis by auto
  qed (use assms(2,6) xy(3,4) in auto)
qed

lemma merged_custody:
  assumes c: "custody required l" and m: "merged_effect l l'"
    and ne: "\<And>x s. live l x = Some s \<Longrightarrow> p_contributors s \<noteq> {}"
  shows "custody required l'" "held l' addr = held l addr"
proof -
  obtain a b left right out where e: "a \<noteq> b" "live l a = Some left" "live l b = Some right"
    "p_address left = p_address right" "p_contributors left \<inter> p_contributors right = {}"
    "live l (p_state_id out) = None" "live l' = (live l)(a := None, b := None, p_state_id out \<mapsto> out)"
    "p_contributors out = p_contributors left \<union> p_contributors right" "p_address out = p_address left"
    using m unfolding merged_effect_def by blast
  have sub: "p_contributors left \<subseteq> required (p_address left)" "p_contributors right \<subseteq> required (p_address left)"
    using custody_subset [OF c] e(2-4) by metis+
  have apart: "p_contributors s \<inter> p_contributors out = {}"
    if s: "live l x = Some s" "x \<notin> {a, b}" "p_address s = p_address out" for x s
  proof (rule ccontr)
    assume "p_contributors s \<inter> p_contributors out \<noteq> {}"
    then obtain i where "i \<in> p_contributors s" "i \<in> p_contributors left \<or> i \<in> p_contributors right"
      using e(8) by blast
    then have "p_contributors left = required (p_address left) \<or> p_contributors right = required (p_address left)"
      using custody_shared [OF c s(1) e(2), of i] custody_shared [OF c s(1) e(3), of i] s(2,3) e(4,9) by auto
    with sub e(5) ne [OF e(2)] ne [OF e(3)] show False by blast
  qed
  show "custody required l'"
    by (rule custody_extend [where lv = "(live l)(a := None, b := None)", OF _ _ e(7)])
       (use c e(6) sub apart e(8,9) in \<open>auto simp: custody_def split: if_splits\<close>)
  show "held l' addr = held l addr"
  proof (rule set_eqI)
    fix i
    have new: "live l' x = Some s \<longleftrightarrow> (if x = p_state_id out then s = out else x \<notin> {a, b} \<and> live l x = Some s)" for x s
      by (auto simp: e(7))
    have "x \<noteq> p_state_id out" if "live l x = Some s" for x s using that e(6) by auto
    then have "i \<in> held l' addr \<longleftrightarrow> p_address out = addr \<and> i \<in> p_contributors out
        \<or> (\<exists>x s. x \<notin> {a, b} \<and> live l x = Some s \<and> p_address s = addr \<and> i \<in> p_contributors s)"
      unfolding held_iff new by metis
    also have "\<dots> \<longleftrightarrow> i \<in> held l addr"
      unfolding held_iff e(8,9) using e(2-4) by (metis (no_types, lifting) UnE UnI1 UnI2 insert_iff option.inject singletonD)
    finally show "i \<in> held l' addr \<longleftrightarrow> i \<in> held l addr" .
  qed
qed

lemma sent_custody:
  assumes c: "custody required l" and m: "sent_effect required l l'"
  shows "custody required l'" "held l' addr = held l addr"
proof -
  obtain sid s out where e: "live l sid = Some s" "p_contributors s \<subseteq> required (p_address s)" "live l (p_state_id out) = None"
    "live l' = (if p_contributors s = required (p_address s) then live l else (live l)(sid := None))(p_state_id out \<mapsto> out)"
    "p_contributors out = p_contributors s" "p_address out = p_address s"
    using m unfolding sent_effect_def by blast
  let ?lv = "if p_contributors s = required (p_address s) then live l else (live l)(sid := None)"
  have old: "live l x = Some t" if "?lv x = Some t" for x t using that by (auto split: if_splits)
  have apart: "p_contributors t \<inter> p_contributors out = {}
      \<or> p_contributors t = required (p_address t) \<and> p_contributors out = required (p_address t)"
    if t: "?lv x = Some t" "p_address t = p_address out" for x t
  proof (cases "x = sid")
    case True
    then show ?thesis using t e(1,5) by (auto split: if_splits)
  next
    case False
    then show ?thesis using custody_shared [OF c old [OF t(1)] e(1) False] t(2) e(5,6) by (metis disjoint_iff)
  qed
  show "custody required l'"
  proof (rule custody_extend [OF _ _ e(4)])
    show "p_contributors out \<subseteq> required (p_address out)" using e(2,5,6) by simp
    show "?lv (p_state_id out) = None" using e(3) by simp
  next
    fix x t assume "?lv x = Some t"
    then show "p_contributors t \<subseteq> required (p_address t)" using custody_subset [OF c] old by blast
  next
    fix x y t u assume "?lv x = Some t" "?lv y = Some u" "x \<noteq> y" "p_address t = p_address u"
    then show "p_contributors t \<inter> p_contributors u = {}
        \<or> p_contributors t = required (p_address t) \<and> p_contributors u = required (p_address t)"
      using c old unfolding custody_def by blast
  qed (rule apart)
  show "held l' addr = held l addr"
  proof (intro set_eqI iffI)
    fix i assume "i \<in> held l' addr"
    then obtain x t where t: "live l' x = Some t" "p_address t = addr" "i \<in> p_contributors t" by (auto simp: held_iff)
    show "i \<in> held l addr"
    proof (cases "x = p_state_id out")
      case True
      with t e(1,4-6) show ?thesis by (auto simp: held_iff)
    next
      case False
      with t(1) have "?lv x = Some t" unfolding e(4) by simp
      with old t(2,3) show ?thesis unfolding held_iff by blast
    qed
  next
    fix i assume "i \<in> held l addr"
    then obtain x t where t: "live l x = Some t" "p_address t = addr" "i \<in> p_contributors t" by (auto simp: held_iff)
    show "i \<in> held l' addr"
    proof (cases "x = sid")
      case True
      with t e(1,5,6) have "p_address out = addr" "i \<in> p_contributors out" by auto
      moreover have "live l' (p_state_id out) = Some out" by (simp add: e(4))
      ultimately show ?thesis unfolding held_iff by blast
    next
      case False
      have "x \<noteq> p_state_id out" using t(1) e(3) by auto
      with False t(1) have "live l' x = Some t" by (simp add: e(4))
      with t(2,3) show ?thesis unfolding held_iff by blast
    qed
  qed
qed


section \<open>The initial ledger\<close>

lemma empty_payload_ok:
  "payload_ok \<lparr>pl_states = [], next_versions = [], active_aggregates = [], inactive_ids = {}, outbound_counts = []\<rparr>"
  by (simp add: payload_ok_def live_def dict_get_def)

lemma register_singles:
  assumes "payload_ok l" "distinct (map p_state_id ss)"
    and "\<And>s. s \<in> set ss \<Longrightarrow> valid_payload s \<and> p_active s \<and> card (p_contributors s) = 1 \<and> map_of (pl_states l) (p_state_id s) = None"
  shows "\<exists>l'. for_each register l ss = Inr l' \<and> payload_ok l'
    \<and> (\<forall>x s. live l' x = Some s \<longleftrightarrow> live l x = Some s \<or> s \<in> set ss \<and> x = p_state_id s)"
  using assms
proof (induction ss arbitrary: l)
  case (Cons s ss)
  have s: "valid_payload s" "p_active s" "card (p_contributors s) = 1" "map_of (pl_states l) (p_state_id s) = None"
    using Cons.prems(3) by auto
  then obtain l1 where l1: "register l s = Inr l1" by (simp add: register_Inr_iff [OF Cons.prems(1)])
  note r = register_fields [OF Cons.prems(1) l1 s(2)]
  have ok1: "payload_ok l1" by (rule register_ok [OF Cons.prems(1) l1 s(1,2)])
  have "\<exists>l'. for_each register l1 ss = Inr l' \<and> payload_ok l'
    \<and> (\<forall>x t. live l' x = Some t \<longleftrightarrow> live l1 x = Some t \<or> t \<in> set ss \<and> x = p_state_id t)"
  proof (rule Cons.IH [OF ok1])
    fix t assume t: "t \<in> set ss"
    then have "p_state_id t \<in> p_state_id ` set ss" by blast
    then have "p_state_id t \<noteq> p_state_id s" using Cons.prems(2) by fastforce
    with Cons.prems(3) [of t] t
    show "valid_payload t \<and> p_active t \<and> card (p_contributors t) = 1 \<and> map_of (pl_states l1) (p_state_id t) = None"
      by (simp add: r(5))
  qed (use Cons.prems(2) in simp)
  then obtain l' where l': "for_each register l1 ss = Inr l'" "payload_ok l'"
    "\<And>x t. live l' x = Some t \<longleftrightarrow> live l1 x = Some t \<or> t \<in> set ss \<and> x = p_state_id t" by blast
  have "live l' x = Some t \<longleftrightarrow> live l x = Some t \<or> t \<in> set (s # ss) \<and> x = p_state_id t" for x t
    unfolding l'(3) r(11) using r(2) by auto
  with l' l1 show ?case by auto
qed simp

lemma version_id_ranks:
  assumes "version_id r a v = version_id r' a' v'" "0 \<le> r" "0 \<le> r'" "0 \<le> a" "0 \<le> a'"
  shows "r = r' \<and> a = a'"
proof -
  have *: "str_int r @ CHR ''-'' # ''a'' @ str_int a @ CHR ''-'' # ''v'' @ str_int v
      = str_int r' @ CHR ''-'' # ''a'' @ str_int a' @ CHR ''-'' # ''v'' @ str_int v'"
    using assms(1) by (simp add: version_id_def)
  note r = split_at_dash [OF str_int_no_dash [OF assms(2)] str_int_no_dash [OF assms(3)] *]
  then have "str_int a @ CHR ''-'' # ''v'' @ str_int v = str_int a' @ CHR ''-'' # ''v'' @ str_int v'" by simp
  from split_at_dash(1) [OF str_int_no_dash [OF assms(4)] str_int_no_dash [OF assms(5)] this] r(1) show ?thesis by simp
qed

definition input_payload :: "int \<Rightarrow> int \<Rightarrow> int \<Rightarrow> payload_state" where
  "input_payload n r a = \<lparr>p_state_id = version_id r a 0, p_version = 0, p_rank = r, p_address = a, p_contributors = {r * n + a},
     p_ready = 0, p_active = True, p_paths = [(r * n + a, [])]\<rparr>"

lemma initial_payload_state_Inr:
  "0 \<le> r \<Longrightarrow> 0 \<le> a \<Longrightarrow> a < n \<Longrightarrow> initial_payload_state n r a = Inr (input_payload n r a) \<and> valid_payload (input_payload n r a)"
  by (auto simp: initial_payload_state_def logical_slice_index_def validate_slice_identity_input_def Let_def
      payload_state_init_Inr_iff input_payload_def valid_payload_def version_id_def)

lemma initial_ledger:
  assumes "1 \<le> ranks" "1 \<le> n"
  obtains ss l where "initial_payload_states ranks n = Inr ss" "payload_ledger_init ss = Inr l" "payload_ok l"
    "\<And>x s. live l x = Some s \<longleftrightarrow> (\<exists>r a. 0 \<le> r \<and> r < ranks \<and> 0 \<le> a \<and> a < n \<and> s = input_payload n r a \<and> x = version_id r a 0)"
proof -
  let ?grid = "concat (map (\<lambda>rank. map (\<lambda>addr. (rank, addr)) (py_range 0 n)) (py_range 0 ranks))"
  let ?ss = "map (\<lambda>(r, a). input_payload n r a) ?grid"
  have grid: "(r, a) \<in> set ?grid \<longleftrightarrow> 0 \<le> r \<and> r < ranks \<and> 0 \<le> a \<and> a < n" for r a
    by (force simp: image_iff)
  have "map_res (\<lambda>(rank, addr). initial_payload_state n rank addr) ?grid = Inr ?ss"
    by (intro map_res_Inr_iff [THEN iffD2]) (auto simp: list_all2_conv_all_nth initial_payload_state_Inr dest!: nth_mem)
  then have init: "initial_payload_states ranks n = Inr ?ss"
    using assms by (simp add: initial_payload_states_def integer_min_def)
  have "distinct ?grid" by (rule distinct_concat_map) (auto simp: distinct_map inj_on_def)
  then have "distinct (map p_state_id ?ss)"
    by (auto simp: distinct_map inj_on_def input_payload_def dest: version_id_ranks)
  moreover have "valid_payload s \<and> p_active s \<and> card (p_contributors s) = 1" if "s \<in> set ?ss" for s
    using that initial_payload_state_Inr by (auto simp: input_payload_def)
  ultimately obtain l where l: "payload_ledger_init ?ss = Inr l" "payload_ok l"
    "\<And>x s. live l x = Some s \<longleftrightarrow> s \<in> set ?ss \<and> x = p_state_id s"
    using register_singles [OF empty_payload_ok, of ?ss] by (auto simp: payload_ledger_init_def live_def)
  have lv: "live l x = Some s \<longleftrightarrow> (\<exists>r a. 0 \<le> r \<and> r < ranks \<and> 0 \<le> a \<and> a < n \<and> s = input_payload n r a \<and> x = version_id r a 0)" for x s
  proof -
    have mem: "s \<in> set ?ss \<longleftrightarrow> (\<exists>r a. (r, a) \<in> set ?grid \<and> s = input_payload n r a)" by auto
    have id: "version_id r a 0 = p_state_id (input_payload n r a)" for r a by (simp add: input_payload_def)
    show ?thesis unfolding l(3) mem grid id by blast
  qed
  show thesis by (rule that [OF init l(1,2) lv])
qed


lemma initial_custody:
  assumes "1 \<le> ranks" "1 \<le> n" "initial_payload_states ranks n = Inr ss" "payload_ledger_init ss = Inr l"
  shows "payload_ok l" "custody (\<lambda>a. aggregate_contributors a ranks n) l"
    "0 \<le> a \<Longrightarrow> a < n \<Longrightarrow> held l a = aggregate_contributors a ranks n"
proof -
  obtain ss2 l2 where l2: "initial_payload_states ranks n = Inr ss2" "payload_ledger_init ss2 = Inr l2" "payload_ok l2"
    "\<And>x s. live l2 x = Some s \<longleftrightarrow> (\<exists>r a. 0 \<le> r \<and> r < ranks \<and> 0 \<le> a \<and> a < n \<and> s = input_payload n r a \<and> x = version_id r a 0)"
    using initial_ledger [OF assms(1,2)] by blast
  have l: "l2 = l" using l2(1,2) assms(3,4) by simp
  then show "payload_ok l" using l2(3) by simp
  have parts: "p_contributors (input_payload n r a) = {r * n + a}" "p_address (input_payload n r a) = a" for r a
    by (simp_all add: input_payload_def)
  have agg: "aggregate_contributors a ranks n = {r * n + a | r. 0 \<le> r \<and> r < ranks}" for a
    by (auto simp: aggregate_contributors_def)
  show "custody (\<lambda>a. aggregate_contributors a ranks n) l"
    unfolding custody_def l2(4) [unfolded l] agg using assms(2) by (auto simp: parts)
  show "0 \<le> a \<Longrightarrow> a < n \<Longrightarrow> held l a = aggregate_contributors a ranks n"
  proof (intro set_eqI iffI)
    fix i assume "0 \<le> a" "a < n" "i \<in> aggregate_contributors a ranks n"
    then obtain r where "0 \<le> r" "r < ranks" "i = r * n + a" by (auto simp: agg)
    with \<open>0 \<le> a\<close> \<open>a < n\<close> show "i \<in> held l a"
      unfolding held_iff l2(4) [unfolded l]
      by (intro exI [of _ "version_id r a 0"] exI [of _ "input_payload n r a"]) (auto simp: parts)
  qed (auto simp: held_iff l2(4) [unfolded l] agg parts)
qed




text \<open>
  C7.  On a well-formed ledger a reduction or a send is accepted exactly when its preconditions hold:
  the inputs are active and ready, addresses agree, contributors are disjoint (or required), and no
  other active aggregate occupies the target.  In particular, once the checks have passed, neither
  the search for a fresh version, the deactivation of the inputs nor the registration of the output
  can fail, so no operation stops half-way through its updates.
\<close>

theorem payload_operations_accept:
  assumes "payload_ok l"
  shows "(is_ok (payload_reduce l a b dst (Finite t)) \<longleftrightarrow> reduce_allowed l a b dst t)
    \<and> (is_ok (payload_send l sid dst (Finite t) required) \<longleftrightarrow> send_allowed l sid dst t required)"
proof (intro conjI iffI)
  assume "reduce_allowed l a b dst t"
  then show "is_ok (payload_reduce l a b dst (Finite t))"
    using payload_reduce_effect [OF assms] by (metis is_ok_iff reduce_allowed_def)
next
  assume "send_allowed l sid dst t required"
  then show "is_ok (payload_send l sid dst (Finite t) required)"
    using payload_send_effect [OF assms] by (metis is_ok_iff send_allowed_def)
next
  assume "is_ok (payload_reduce l a b dst (Finite t))"
  then show "reduce_allowed l a b dst t"
    using payload_reduce_allowed [OF assms] by (metis is_ok_iff pyfloat.inject)
next
  assume "is_ok (payload_send l sid dst (Finite t) required)"
  then show "send_allowed l sid dst t required"
    using payload_send_allowed [OF assms] by (metis is_ok_iff pyfloat.inject)
qed

theorem payload_operations_accept_witness:
  "\<exists>l. send_allowed l (version_id 1 0 0) 0 3 {0, 1} \<and> \<not> reduce_allowed l (version_id 0 0 0) (version_id 0 0 0) 0 3"
proof -
  have "is_ok (bnd (initial_payload_states 2 1) (\<lambda>ss. bnd (payload_ledger_init ss) (\<lambda>l.
      ensure (is_ok (payload_send l (version_id 1 0 0) 0 (Finite 3) {0, 1})
        \<and> \<not> is_ok (payload_reduce l (version_id 0 0 0) (version_id 0 0 0) 0 (Finite 3))) IndexError (Inr ()))))"
    by code_simp
  then obtain ss l where l: "initial_payload_states 2 1 = Inr ss" "payload_ledger_init ss = Inr l"
    and ops: "is_ok (payload_send l (version_id 1 0 0) 0 (Finite 3) {0, 1})"
      "\<not> is_ok (payload_reduce l (version_id 0 0 0) (version_id 0 0 0) 0 (Finite 3))"
    by (auto simp: is_ok_iff res_simps)
  have "payload_ok l" by (rule initial_custody(1) [OF _ _ l]) simp_all
  from payload_operations_accept [OF this] ops show ?thesis by blast
qed


end
