(* ===== verification/Checker.thy ===== *)
theory Checker
  imports Payload
begin

text \<open>
  \<^verbatim>\<open>src/vericcl/semantics/checker.py\<close>: the final payload states of a schedule against the outputs
  its collective requires.
\<close>

section \<open>The check\<close>

definition final_logical_address :: "payload_state \<Rightarrow> int \<Rightarrow> int \<Rightarrow> int res" where
  "final_logical_address s ranks n =
     ensure (\<not> (\<exists>i\<in>p_contributors s. i < 0 \<or> ranks * n \<le> i))
       (SemanticError ''final state contributor is outside the global range'') (
     ensure (n \<noteq> 0 \<or> p_contributors s = {}) ZeroDivisionError (
     let addresses = (\<lambda>i. i mod n) ` p_contributors s in
     ensure (card addresses = 1) (SemanticError ''final state contributors have different logical addresses'') (
     let addr = the_elem addresses in
     ensure (p_address s = addr) (SemanticError ''final state has an incorrect logical address'') (Inr addr))))"

definition actual_output :: "collective_spec \<Rightarrow> payload_state \<Rightarrow> int \<Rightarrow> int \<Rightarrow> (output_slot \<times> int set) res" where
  "actual_output spec s ranks n =
     ensure (p_active s) (SemanticError ''inactive state cannot be a final output'') (
     ensure (\<not> (p_rank s < 0 \<or> ranks \<le> p_rank s)) (SemanticError ''final state rank is outside the rank range'') (
     bnd (final_logical_address s ranks n) (\<lambda>addr.
     bnd (if kind spec \<in> {BROADCAST, REDUCE, ALL_REDUCE} then output_slot_post_init (OutputSlot (p_rank s) addr)
          else if kind spec \<in> {GATHER, ALL_GATHER} then
            ensure (card (p_contributors s) = 1) (SemanticError ''gather final state must contain one contributor'') (
            output_slot_post_init (OutputSlot (p_rank s) (the_elem (p_contributors s))))
          else if kind spec = ALL_TO_ALL then
            ensure (card (p_contributors s) = 1) (SemanticError ''AllToAll final state must contain one contributor'') (
            ensure (n div ranks \<noteq> 0) ZeroDivisionError (
            output_slot_post_init (OutputSlot (p_rank s)
              (the_elem (p_contributors s) div n * (n div ranks) + addr mod (n div ranks)))))
          else
            ensure (\<not> (kind spec = SCATTER \<and> card (p_contributors s) \<noteq> 1))
              (SemanticError ''scatter final state must contain one contributor'') (
            ensure (n div ranks \<noteq> 0) ZeroDivisionError (
            output_slot_post_init (OutputSlot (p_rank s) (addr mod (n div ranks)))))) (\<lambda>slot.
     Inr (slot, p_contributors s)))))"

definition slot_text :: "string \<Rightarrow> output_slot \<Rightarrow> error" where
  "slot_text msg slot =
     SemanticError (msg @ '' at rank '' @ str_int (slot_rank slot) @ '' offset '' @ str_int (slot_offset slot))"

definition add_final_state :: "collective_spec \<Rightarrow> int \<Rightarrow> int \<Rightarrow> (output_slot, int set) dict \<times> string set \<Rightarrow> payload_state
    \<Rightarrow> ((output_slot, int set) dict \<times> string set) res" where
  "add_final_state spec ranks n acc s =
     (case acc of (actual, ids) \<Rightarrow>
       ensure (p_state_id s \<notin> ids) (SemanticError ''final state IDs must be unique'') (
       bnd (actual_output spec s ranks n) (\<lambda>(slot, cs).
       ensure (map_of actual slot = None) (slot_text ''duplicate final output'' slot) (
       Inr (AList.update slot cs actual, insert (p_state_id s) ids)))))"

text \<open>The smallest slot of a set difference decides which error is reported.\<close>

definition check_no_slot :: "string \<Rightarrow> output_slot set \<Rightarrow> unit res" where
  "check_no_slot msg slots = (case sorted_list_of_set slots of [] \<Rightarrow> Inr () | slot # _ \<Rightarrow> Inl (slot_text msg slot))"

definition check_final_states :: "collective_spec \<Rightarrow> int \<Rightarrow> int \<Rightarrow> payload_state list \<Rightarrow> unit res" where
  "check_final_states spec ranks n ss =
     bnd (required_outputs spec ranks n) (\<lambda>expected.
     bnd (for_each (add_final_state spec ranks n) ([], {}) ss) (\<lambda>(actual, _).
     bnd (check_no_slot ''missing final output'' (set (dict_keys expected) - set (dict_keys actual))) (\<lambda>_.
     bnd (check_no_slot ''extra final output'' (set (dict_keys actual) - set (dict_keys expected))) (\<lambda>_.
     check_each (\<lambda>(slot, cs). ensure (map_of actual slot = Some cs)
       (SemanticError (''final contributors do not match rank '' @ str_int (slot_rank slot) @ '' offset '' @ str_int (slot_offset slot)))
       (Inr ())) expected))))"

section \<open>What it accepts\<close>

lemma check_no_slot_Inr_iff [res_simps]: "finite slots \<Longrightarrow> check_no_slot msg slots = Inr u \<longleftrightarrow> slots = {}"
  by (auto simp: check_no_slot_def split: list.splits)

text \<open>The final states, with the slot of each, accumulated by the loop.\<close>

lemma add_final_states_Inr_iff:
  "for_each (add_final_state spec ranks n) (actual, ids) ss = Inr r \<longleftrightarrow>
     (\<exists>slots. list_all2 (\<lambda>s slot. actual_output spec s ranks n = Inr (slot, p_contributors s)) ss slots
       \<and> distinct slots \<and> set slots \<inter> fst ` set actual = {} \<and> distinct (map p_state_id ss) \<and> p_state_id ` set ss \<inter> ids = {}
       \<and> r = (actual @ zip slots (map p_contributors ss), ids \<union> p_state_id ` set ss))"
proof (induction ss arbitrary: actual ids)
  case (Cons s ss)
  have one: "add_final_state spec ranks n (actual, ids) s = Inr acc \<longleftrightarrow> (\<exists>slot. actual_output spec s ranks n = Inr (slot, p_contributors s)
      \<and> slot \<notin> fst ` set actual \<and> p_state_id s \<notin> ids \<and> acc = (actual @ [(slot, p_contributors s)], insert (p_state_id s) ids))" for acc
  proof -
    have "cs = p_contributors s" if "actual_output spec s ranks n = Inr (slot, cs)" for slot cs
      using that by (auto simp: actual_output_def res_simps)
    then show ?thesis
      by (auto simp: add_final_state_def res_simps map_of_eq_None_iff length_update_new)
  qed
  show ?case
    apply (auto simp: res_simps one Cons.IH list_all2_Cons1)
    subgoal for slot slots by (rule exI [of _ "slot # slots"]) auto
    done
qed auto

lemma check_final_states_Inr_iff:
  "check_final_states spec ranks n ss = Inr u \<longleftrightarrow> (\<exists>expected slots. required_outputs spec ranks n = Inr expected
     \<and> distinct (map p_state_id ss) \<and> distinct slots
     \<and> list_all2 (\<lambda>s slot. actual_output spec s ranks n = Inr (slot, p_contributors s)) ss slots
     \<and> map_of (zip slots (map p_contributors ss)) = map_of expected)"
proof -
  have eq: "(fst ` set e - fst ` set a = {} \<and> fst ` set a - fst ` set e = {} \<and> (\<forall>(slot, cs)\<in>set e. map_of a slot = Some cs))
      \<longleftrightarrow> map_of a = map_of e" if "wf_dict e" for e a :: "(output_slot, int set) dict"
  proof
    assume l: "fst ` set e - fst ` set a = {} \<and> fst ` set a - fst ` set e = {} \<and> (\<forall>(slot, cs)\<in>set e. map_of a slot = Some cs)"
    show "map_of a = map_of e"
    proof
      fix k
      show "map_of a k = map_of e k"
      proof (cases "map_of e k")
        case None
        then have "k \<notin> fst ` set a" using l by (auto simp: map_of_eq_None_iff)
        with None show ?thesis by (metis map_of_eq_None_iff)
      next
        case (Some v)
        then have "(k, v) \<in> set e" by (rule map_of_SomeD)
        with l Some show ?thesis by auto
      qed
    qed
  next
    assume r: "map_of a = map_of e"
    then have "fst ` set a = fst ` set e" by (metis dom_map_of_conv_image_fst)
    with r that show "fst ` set e - fst ` set a = {} \<and> fst ` set a - fst ` set e = {} \<and> (\<forall>(slot, cs)\<in>set e. map_of a slot = Some cs)"
      by auto
  qed
  have "check_final_states spec ranks n ss = Inr u \<longleftrightarrow> (\<exists>expected slots. required_outputs spec ranks n = Inr expected
     \<and> list_all2 (\<lambda>s slot. actual_output spec s ranks n = Inr (slot, p_contributors s)) ss slots
     \<and> distinct slots \<and> distinct (map p_state_id ss)
     \<and> fst ` set expected - fst ` set (zip slots (map p_contributors ss)) = {}
     \<and> fst ` set (zip slots (map p_contributors ss)) - fst ` set expected = {}
     \<and> (\<forall>(slot, cs)\<in>set expected. map_of (zip slots (map p_contributors ss)) slot = Some cs))"
    unfolding check_final_states_def bnd_Inr_iff add_final_states_Inr_iff
    by (auto simp: res_simps case_prod_beta)
  also have "\<dots> \<longleftrightarrow> (\<exists>expected slots. required_outputs spec ranks n = Inr expected
     \<and> distinct (map p_state_id ss) \<and> distinct slots
     \<and> list_all2 (\<lambda>s slot. actual_output spec s ranks n = Inr (slot, p_contributors s)) ss slots
     \<and> map_of (zip slots (map p_contributors ss)) = map_of expected)"
  proof (cases "required_outputs spec ranks n")
    case (Inr e)
    then have "wf_dict e" using required_outputs_assignments by blast
    from eq [OF this] have eq': "(fst ` set e - fst ` set a = {} \<and> fst ` set a - fst ` set e = {}
        \<and> (\<forall>(slot, cs)\<in>set e. map_of a slot = Some cs)) \<longleftrightarrow> map_of a = map_of e" for a .
    have one: "(\<exists>x (slots :: output_slot list). Inr e = (Inr x :: (output_slot, int set) dict res) \<and> P x slots) \<longleftrightarrow> (\<exists>slots. P e slots)" for P
      by simp
    show ?thesis unfolding Inr one eq' [symmetric] by (simp only: conj_ac)
  qed simp
  finally show ?thesis .
qed

section \<open>Final states against the per-slot specification\<close>

lemma final_logical_address_column:
  assumes "0 \<le> a" "a < n" "srcs \<noteq> {}" "srcs \<subseteq> {0..<ranks}" "p_contributors s = column n srcs a"
  shows "final_logical_address s ranks n = Inr x \<longleftrightarrow> p_address s = a \<and> x = a"
proof -
  have "(\<lambda>i. i mod n) ` p_contributors s = {a}"
    using assms column_mod [OF assms(1,2)] by (auto simp: column_def)
  moreover have "\<not> (\<exists>i\<in>p_contributors s. i < 0 \<or> ranks * n \<le> i)"
    using column_bounds [OF assms(1,2,4)] assms(5) by (auto simp: not_less not_le)
  ultimately show ?thesis using assms(1,2) by (auto simp: final_logical_address_def Let_def res_simps)
qed

lemma actual_output_demanded:
  assumes valid: "valid_problem spec ranks n"
    and demand: "slot_demand (kind spec) (root_value spec) ranks n slot = Some (a, srcs)"
    and cs: "p_contributors s = column n srcs a"
  shows "actual_output spec s ranks n = Inr (slot, p_contributors s)
    \<longleftrightarrow> p_active s \<and> p_rank s = slot_rank slot \<and> p_address s = a"
proof -
  note b = slot_demand_bounds [OF valid demand]
  obtain r off where slot: "slot = OutputSlot r off" by (cases slot)
  note fa = final_logical_address_column [OF b(1-4) cs]
  have range: "0 \<le> r" "r < ranks" "0 \<le> off" using b(5-7) by (simp_all add: slot)
  have single: "card (p_contributors s) = 1 \<and> the_elem (p_contributors s) = src * n + a" if "srcs = {src}" for src
    using that cs by (simp add: column_def)
  have d: "0 < n" using b(1,2) by simp
  note q = quotient_facts [OF valid]
  note out = actual_output_def res_simps fa slot
  note dem = demand [unfolded slot slot_demand_def Let_def output_slot.sel]
  show ?thesis
  proof (cases "kind spec")
    case BROADCAST
    with dem range show ?thesis by (auto simp: out split: if_splits)
  next
    case REDUCE
    with dem range show ?thesis by (auto simp: out split: if_splits)
  next
    case ALL_REDUCE
    with dem range show ?thesis by (auto simp: out split: if_splits)
  next
    case GATHER
    with dem range have "srcs = {off div n}" "a = off mod n" by (auto split: if_splits)
    with single GATHER range show ?thesis by (auto simp: out)
  next
    case ALL_GATHER
    with dem range have "srcs = {off div n}" "a = off mod n" by (auto split: if_splits)
    with single ALL_GATHER range show ?thesis by (auto simp: out)
  next
    case SCATTER
    with dem range have e: "srcs = {root_value spec}" "a = r * (n div ranks) + off" "off < n div ranks" by (auto split: if_splits)
    then have "a mod (n div ranks) = off" using range by simp
    with single [OF e(1)] SCATTER range q show ?thesis by (auto simp: out)
  next
    case REDUCE_SCATTER
    with dem range have e: "a = r * (n div ranks) + off" "off < n div ranks" by (auto split: if_splits)
    then have "a mod (n div ranks) = off" using range by simp
    with REDUCE_SCATTER range q show ?thesis by (auto simp: out)
  next
    case ALL_TO_ALL
    let ?q = "n div ranks"
    from ALL_TO_ALL dem range have e: "srcs = {off div ?q}" "a = r * ?q + off mod ?q" by (auto split: if_splits)
    have qq: "0 < ?q" using q ALL_TO_ALL by simp
    have "a mod ?q = off mod ?q" by (simp add: e(2))
    moreover have "(off div ?q * n + a) div n = off div ?q" using b(1,2) by simp
    ultimately have "(off div ?q * n + a) div n * ?q + a mod ?q = off" using div_mult_mod_eq by metis
    with single [OF e(1)] ALL_TO_ALL range qq show ?thesis by (auto simp: out)
  qed
qed

text \<open>\<open>s\<close> is the final state that \<open>slot\<close> demands.\<close>

definition fills :: "collective_spec \<Rightarrow> int \<Rightarrow> int \<Rightarrow> payload_state \<Rightarrow> output_slot \<Rightarrow> bool" where
  "fills spec ranks n s slot \<longleftrightarrow> (\<exists>a srcs. slot_demand (kind spec) (root_value spec) ranks n slot = Some (a, srcs)
     \<and> p_active s \<and> p_rank s = slot_rank slot \<and> p_address s = a \<and> p_contributors s = column n srcs a)"

text \<open>
  C8.  The final check accepts exactly the right results: it succeeds if and only if the request is
  a valid collective problem, the state identifiers are distinct, and the final states correspond
  one to one to the demanded output slots, each state being active, at the slot's rank and address,
  with exactly the demanded contributors.
\<close>

theorem check_final_states_exact:
  "check_final_states spec ranks n ss = Inr () \<longleftrightarrow> valid_problem spec ranks n \<and> distinct (map p_state_id ss)
     \<and> (\<exists>slots. distinct slots \<and> set slots = {slot. slot_demand (kind spec) (root_value spec) ranks n slot \<noteq> None}
          \<and> list_all2 (fills spec ranks n) ss slots)"
proof (cases "valid_problem spec ranks n")
  case False
  then show ?thesis by (auto simp: check_final_states_Inr_iff required_outputs_Inr_iff)
next
  case valid: True
  then obtain expected where exp: "required_outputs spec ranks n = Inr expected" by (simp add: required_outputs_Inr_iff)
  let ?dem = "\<lambda>slot. slot_demand (kind spec) (root_value spec) ranks n slot"
  let ?zip = "\<lambda>slots. zip slots (map p_contributors ss)"
  note look = required_outputs_lookup [OF exp]
  have at: "fills spec ranks n s slot \<longleftrightarrow> actual_output spec s ranks n = Inr (slot, p_contributors s)"
    if m: "map_of expected slot = Some (p_contributors s)" for s slot
  proof -
    obtain a srcs where d: "?dem slot = Some (a, srcs)" "p_contributors s = column n srcs a"
      using m by (auto simp: look)
    show ?thesis unfolding fills_def actual_output_demanded [OF valid d] using d by auto
  qed
  have filled: "map_of expected slot = Some (p_contributors s)" if "fills spec ranks n s slot" for s slot
    using that by (auto simp: look fills_def)
  have corr: "map_of (?zip slots) = map_of expected \<and> list_all2 (\<lambda>s slot. actual_output spec s ranks n = Inr (slot, p_contributors s)) ss slots
      \<longleftrightarrow> set slots = {slot. ?dem slot \<noteq> None} \<and> list_all2 (fills spec ranks n) ss slots" (is "?L \<longleftrightarrow> ?R")
    if "distinct slots" for slots
  proof
    assume l: ?L
    then have len: "length slots = length ss" by (auto dest: list_all2_lengthD)
    have "dom (map_of (?zip slots)) = set slots" using len by (simp add: dom_map_of_zip)
    with l have "set slots = {slot. ?dem slot \<noteq> None}" by (auto simp: look dom_def)
    moreover have "map_of expected (slots ! i) = Some (p_contributors (ss ! i))" if "i < length ss" for i
      using map_of_zip_nth [of slots "map p_contributors ss" i] that len \<open>distinct slots\<close> l by simp
    with l at have "list_all2 (fills spec ranks n) ss slots" by (auto simp: list_all2_conv_all_nth)
    ultimately show ?R by blast
  next
    assume r: ?R
    then have len: "length slots = length ss" by (auto dest: list_all2_lengthD)
    have each: "map_of expected (slots ! i) = Some (p_contributors (ss ! i))" if "i < length ss" for i
      using r filled that by (auto simp: list_all2_conv_all_nth)
    have "map_of (?zip slots) k = map_of expected k" for k
    proof (cases "k \<in> set slots")
      case True
      then obtain i where "i < length ss" "k = slots ! i" using len by (metis in_set_conv_nth)
      with each map_of_zip_nth [of slots "map p_contributors ss" i] len that show ?thesis by simp
    next
      case False
      then have "?dem k = None" using r by (cases "?dem k") auto
      then have "map_of expected k = None" by (simp add: look)
      moreover have "map_of (?zip slots) k = None" using False len by (simp add: map_of_zip_is_None)
      ultimately show ?thesis by simp
    qed
    moreover have "list_all2 (\<lambda>s slot. actual_output spec s ranks n = Inr (slot, p_contributors s)) ss slots"
      using r at each by (auto simp: list_all2_conv_all_nth)
    ultimately show ?L by blast
  qed
  have "check_final_states spec ranks n ss = Inr () \<longleftrightarrow> distinct (map p_state_id ss) \<and> (\<exists>slots. distinct slots
      \<and> (map_of (?zip slots) = map_of expected
      \<and> list_all2 (\<lambda>s slot. actual_output spec s ranks n = Inr (slot, p_contributors s)) ss slots))"
    unfolding check_final_states_Inr_iff exp sum.inject by blast
  then show ?thesis using corr valid by (simp cong: conj_cong)
qed


end
