(* ===== verification/Endpoints.thy ===== *)
theory Endpoints
  imports Payload
begin

text \<open>
  \<^verbatim>\<open>src/vericcl/xml/model.py\<close> (values, physical references, local copies, buffer plans) and
  \<^verbatim>\<open>src/vericcl/xml/endpoints.py\<close>: the two endpoints of every transfer, the endpoint of every local
  copy, and their lowering from a schedule.
\<close>

section \<open>Times that may be unbounded\<close>

text \<open>The times of this layer may be infinite (a reference that is never overwritten).\<close>

datatype xtime = At rat | Forever

fun xtime_le :: "xtime \<Rightarrow> xtime \<Rightarrow> bool" where
  "xtime_le _ Forever = True"
| "xtime_le Forever (At _) = False"
| "xtime_le (At a) (At b) = (a \<le> b)"

fun xml_time :: "pyfloat \<Rightarrow> string \<Rightarrow> xtime res" where
  "xml_time (Finite r) field = ensure (0 \<le> r) (SemanticError (field @ '' must be non-negative'')) (Inr (At r))"
| "xml_time PosInf field = Inr Forever"
| "xml_time _ field = Inl (SemanticError (field @ '' must be non-negative''))"

section \<open>Values and references\<close>

datatype value_key = RawValue int | AggregateValue int "int set" int

fun value_key_post_init :: "value_key \<Rightarrow> value_key res" where
  "value_key_post_init (RawValue i) = bnd (integer_min i ''raw_value.slice_id'' 0) (\<lambda>_. Inr (RawValue i))"
| "value_key_post_init (AggregateValue index cs version) =
     bnd (integer_min index ''aggregate_value.logical_slice_index'' 0) (\<lambda>_.
     ensure (\<not> card cs < 2) (SemanticError ''aggregate_value.contributors must contain at least two slices'') (
     ensure (\<forall>c\<in>cs. 0 \<le> c) (SemanticError ''aggregate_value.contributors must be at least 0'') (
     bnd (integer_min version ''aggregate_value.state_version'' 0) (\<lambda>_. Inr (AggregateValue index cs version)))))"

record physical_ref =
  ref_rank :: int
  ref_buffer :: string
  ref_offset :: int
  valid_from :: xtime
  valid_until :: xtime

definition physical_ref_init :: "int \<Rightarrow> string \<Rightarrow> int \<Rightarrow> pyfloat \<Rightarrow> pyfloat \<Rightarrow> physical_ref res" where
  "physical_ref_init rank buf off from_t until =
     bnd (integer_min rank ''physical_ref.rank'' 0) (\<lambda>_.
     ensure (buf \<in> {''i'', ''o'', ''s''}) (SemanticError ''physical_ref.buffer must be i, o, or s'') (
     bnd (integer_min off ''physical_ref.offset'' 0) (\<lambda>_.
     bnd (xml_time from_t ''physical_ref.valid_from'') (\<lambda>a.
     bnd (xml_time until ''physical_ref.valid_until'') (\<lambda>b.
     ensure (xtime_le a b) (SemanticError ''physical_ref.valid_from must not exceed valid_until'') (
     Inr \<lparr>ref_rank = rank, ref_buffer = buf, ref_offset = off, valid_from = a, valid_until = b\<rparr>))))))"

record local_copy =
  copy_id :: string
  copy_rank :: int
  copy_src_ref :: physical_ref
  copy_dst_ref :: physical_ref
  predecessor_state_id :: string
  copy_st_time :: xtime
  copy_ed_time :: xtime
  copy_reason :: string

definition local_copy_init ::
    "string \<Rightarrow> int \<Rightarrow> physical_ref \<Rightarrow> physical_ref \<Rightarrow> string \<Rightarrow> pyfloat \<Rightarrow> pyfloat \<Rightarrow> string \<Rightarrow> local_copy res" where
  "local_copy_init cid rank src dst pred st ed reason =
     bnd (nonempty_id cid ''local_copy.copy_id'') (\<lambda>_.
     bnd (integer_min rank ''local_copy.rank'' 0) (\<lambda>_.
     ensure (\<not> (ref_rank src \<noteq> rank \<or> ref_rank dst \<noteq> rank)) (SemanticError ''local copy references must use the copy rank'') (
     bnd (nonempty_id pred ''local_copy.predecessor_state_id'') (\<lambda>_.
     bnd (xml_time st ''local_copy.st_time'') (\<lambda>a.
     bnd (xml_time ed ''local_copy.ed_time'') (\<lambda>b.
     ensure (xtime_le a b) (SemanticError ''local copy start must not exceed end'') (
     bnd (nonempty_id reason ''local_copy.reason'') (\<lambda>_.
     Inr \<lparr>copy_id = cid, copy_rank = rank, copy_src_ref = src, copy_dst_ref = dst, predecessor_state_id = pred,
          copy_st_time = a, copy_ed_time = b, copy_reason = reason\<rparr>))))))))"

definition buffer_offset :: "physical_ref \<Rightarrow> string \<times> int" where
  "buffer_offset r = (ref_buffer r, ref_offset r)"

record buffer_plan =
  value_locations :: "(value_key, physical_ref list) dict"
  aliases :: "(physical_ref \<times> physical_ref) list"
  local_copies :: "local_copy list"
  i_chunks :: "(int, int) dict"
  o_chunks :: "(int, int) dict"
  s_chunks :: "(int, int) dict"
  bp_slice_count :: int
  initial_refs :: "(int, physical_ref) dict"
  final_output_refs :: "(output_slot, physical_ref) dict"
  final_values :: "(output_slot, value_key) dict"
  final_value_refs :: "(output_slot, physical_ref) dict"
  transfer_src_refs :: "(string, physical_ref) dict"
  transfer_dst_refs :: "(string, physical_ref) dict"
  transfer_accumulator_refs :: "(string, physical_ref) dict"
  transfer_input_values :: "(string, value_key) dict"
  transfer_accumulator_values :: "(string, value_key) dict"
  transfer_output_values :: "(string, value_key) dict"
  transfer_effective_times :: "(string, xtime \<times> xtime) dict"

text \<open>The constructor's other checks are on the Python types of the fields, which the record has by typing.\<close>

definition buffer_plan_post_init :: "buffer_plan \<Rightarrow> buffer_plan res" where
  "buffer_plan_post_init plan = bnd (integer_min (bp_slice_count plan) ''buffer_plan.slice_count'' 1) (\<lambda>_. Inr plan)"

fun holds_contributor :: "int \<Rightarrow> value_key \<Rightarrow> bool" where
  "holds_contributor c (RawValue i) = (i = c)"
| "holds_contributor c (AggregateValue _ cs _) = (c \<in> cs)"

definition output_ref_item :: "buffer_plan \<Rightarrow> output_slot \<Rightarrow> physical_ref res" where
  "output_ref_item plan slot = (case map_of (final_output_refs plan) slot of
     None \<Rightarrow> Inl (KeyError ''final_output_refs'') | Some r \<Rightarrow> Inr r)"

definition final_ref :: "buffer_plan \<Rightarrow> int \<Rightarrow> int \<Rightarrow> int \<Rightarrow> physical_ref res" where
  "final_ref plan rank src index =
     bnd (integer_min rank ''final_ref.rank'' 0) (\<lambda>_.
     bnd (integer_min src ''final_ref.source_rank'' 0) (\<lambda>_.
     bnd (integer_min index ''final_ref.logical_slice_index'' 0) (\<lambda>_.
     let contributor = src * bp_slice_count plan + index in
     bnd (map_res (\<lambda>(slot, v). output_ref_item plan slot)
            (filter (\<lambda>(slot, v). slot_rank slot = rank \<and> holds_contributor contributor v) (final_values plan))) (\<lambda>refs.
     case refs of [r] \<Rightarrow> Inr r
     | _ \<Rightarrow> Inl (SemanticError ''final value does not map to exactly one output'')))))"

section \<open>Endpoints\<close>

datatype endpoint_type = SEND_TYPE | RECV_TYPE | RECV_REDUCE_COPY | COPY_TYPE | NOP_TYPE

record endpoint_atom =
  endpoint_id :: string
  ep_atom :: "atom option"
  member_atoms :: "atom list"
  ep_transfer_id :: string
  ep_transfer_kind :: string
  xml_type :: endpoint_type
  ep_rank :: int
  ep_peer :: int
  ep_channel :: int
  ep_stage_id :: int
  ep_members :: "int set"
  ep_src_ref :: "physical_ref option"
  ep_dst_ref :: "physical_ref option"
  ep_st_time :: rat
  ep_ed_time :: rat

definition check_copy_endpoint :: "endpoint_atom \<Rightarrow> unit res" where
  "check_copy_endpoint e =
     ensure (\<not> (ep_atom e \<noteq> None \<or> member_atoms e \<noteq> [] \<or> ep_members e \<noteq> {}))
       (SemanticError ''copy endpoint must not contain transfer atoms'') (
     ensure (\<not> (ep_peer e \<noteq> -1 \<or> ep_channel e \<noteq> -1 \<or> ep_stage_id e \<noteq> -1))
       (SemanticError ''copy endpoint must use local sentinel fields'') (
     case (ep_src_ref e, ep_dst_ref e) of
       (Some src, Some dst) \<Rightarrow> ensure (\<not> (ref_rank src \<noteq> ep_rank e \<or> ref_rank dst \<noteq> ep_rank e))
         (SemanticError ''copy endpoint references use an incorrect rank'') (Inr ())
     | _ \<Rightarrow> Inl (SemanticError ''copy endpoint requires both references'')))"

definition check_endpoint_refs :: "endpoint_atom \<Rightarrow> unit res" where
  "check_endpoint_refs e =
     (case xml_type e of
        SEND_TYPE \<Rightarrow> (case (ep_src_ref e, ep_dst_ref e) of
            (Some src, None) \<Rightarrow> ensure (ref_rank src = ep_rank e)
              (SemanticError ''send source reference uses an incorrect rank'') (Inr ())
          | _ \<Rightarrow> Inl (SemanticError ''send endpoint references are invalid''))
      | NOP_TYPE \<Rightarrow> Inl (SemanticError ''unsupported communication endpoint type'')
      | COPY_TYPE \<Rightarrow> Inl (SemanticError ''unsupported communication endpoint type'')
      | _ \<Rightarrow> (case (ep_src_ref e, ep_dst_ref e) of
            (None, Some dst) \<Rightarrow> ensure (ref_rank dst = ep_rank e)
              (SemanticError ''receive destination reference uses an incorrect rank'') (Inr ())
          | _ \<Rightarrow> Inl (SemanticError ''receive endpoint references are invalid'')))"

definition check_comm_endpoint :: "endpoint_atom \<Rightarrow> unit res" where
  "check_comm_endpoint e =
     ensure (ep_transfer_kind e \<in> {''SEND'', ''REDUCE''}) (SemanticError ''communication endpoint kind is invalid'') (
     bnd (integer_min (ep_peer e) ''endpoint.peer'' 0) (\<lambda>_.
     bnd (integer_min (ep_channel e) ''endpoint.channel'' 0) (\<lambda>_.
     bnd (integer_min (ep_stage_id e) ''endpoint.stage_id'' 0) (\<lambda>_.
     ensure (ep_peer e \<noteq> ep_rank e) (SemanticError ''communication endpoint peer equals its rank'') (
     ensure (member_atoms e \<noteq> [] \<and> ep_atom e = Some (hd (member_atoms e)))
       (SemanticError ''communication endpoint requires canonical atoms'') (
     ensure (set (map atom_slice_id (member_atoms e)) = ep_members e)
       (SemanticError ''endpoint atoms do not match member slices'') (
     check_endpoint_refs e)))))))"

text \<open>The endpoint's times are checked with the strict \<^verbatim>\<open>_time\<close> of this file: finite and non-negative.\<close>

definition endpoint_post_init :: "endpoint_atom \<Rightarrow> pyfloat \<Rightarrow> pyfloat \<Rightarrow> endpoint_atom res" where
  "endpoint_post_init e st ed =
     bnd (nonempty_id (endpoint_id e) ''endpoint.endpoint_id'') (\<lambda>_.
     bnd (nonempty_id (ep_transfer_id e) ''endpoint.transfer_id'') (\<lambda>_.
     bnd (integer_min (ep_rank e) ''endpoint.rank'' 0) (\<lambda>_.
     bnd (field_time st ''endpoint.st_time'') (\<lambda>a.
     bnd (field_time ed ''endpoint.ed_time'') (\<lambda>b.
     ensure (\<not> b < a) (SemanticError ''endpoint start must not exceed end'') (
     let e' = e\<lparr>ep_st_time := a, ep_ed_time := b\<rparr> in
     bnd (if xml_type e = COPY_TYPE then check_copy_endpoint e' else check_comm_endpoint e') (\<lambda>_.
     Inr e')))))))"

section \<open>Pairs and programs\<close>

definition is_recv :: "endpoint_type \<Rightarrow> bool" where
  "is_recv t \<longleftrightarrow> t = RECV_TYPE \<or> t = RECV_REDUCE_COPY"

definition validate_pair :: "string \<Rightarrow> endpoint_atom list \<Rightarrow> unit res" where
  "validate_pair tid pair =
     ensure (length pair = 2) (SemanticError ''physical transfer must have exactly two endpoints'') (
     case (List.find (\<lambda>e. xml_type e = SEND_TYPE) pair, List.find (\<lambda>e. is_recv (xml_type e)) pair) of
       (Some send, Some recv) \<Rightarrow>
         ensure (\<not> (ep_transfer_id send \<noteq> tid \<or> ep_transfer_id recv \<noteq> tid))
           (SemanticError ''endpoint pair transfer IDs differ'') (
         ensure (\<not> (ep_rank send \<noteq> ep_peer recv \<or> ep_rank recv \<noteq> ep_peer send))
           (SemanticError ''endpoint pair ranks are not opposite'') (
         ensure ((ep_transfer_kind send, ep_channel send, ep_stage_id send, ep_members send, member_atoms send,
                  ep_st_time send, ep_ed_time send)
               = (ep_transfer_kind recv, ep_channel recv, ep_stage_id recv, ep_members recv, member_atoms recv,
                  ep_st_time recv, ep_ed_time recv))
           (SemanticError ''endpoint pair metadata differs'') (
         ensure (xml_type recv = (if ep_transfer_kind send = ''REDUCE'' then RECV_REDUCE_COPY else RECV_TYPE))
           (SemanticError ''endpoint pair receive type is incorrect'') (Inr ()))))
     | _ \<Rightarrow> Inl (SemanticError ''physical transfer endpoint types are incompatible''))"

record endpoint_program =
  endpoints :: "endpoint_atom list"
  by_transfer_id :: "(string, endpoint_atom list) dict"
  local_endpoints :: "(string, endpoint_atom) dict"

definition endpoint_program_post_init :: "endpoint_program \<Rightarrow> endpoint_program res" where
  "endpoint_program_post_init p =
     ensure (distinct (map endpoint_id (endpoints p))) (SemanticError ''endpoint IDs must be unique'') (
     bnd (check_each (\<lambda>(tid, pair). validate_pair tid pair) (by_transfer_id p)) (\<lambda>_.
     ensure (set (dict_keys (by_transfer_id p)) \<inter> set (dict_keys (local_endpoints p)) = {})
       (SemanticError ''transfer and local endpoint IDs must be disjoint'') (
     bnd (check_each (\<lambda>(cid, e). ensure (\<not> (ep_transfer_id e \<noteq> cid \<or> xml_type e \<noteq> COPY_TYPE))
            (SemanticError ''local endpoint mapping is invalid'') (Inr ())) (local_endpoints p)) (\<lambda>_.
     ensure (set (map endpoint_id (endpoints p))
           = set (map endpoint_id (concat (map snd (by_transfer_id p)))) \<union> set (map (\<lambda>(_, e). endpoint_id e) (local_endpoints p)))
       (SemanticError ''endpoint program mappings do not cover endpoints'') (Inr p)))))"

section \<open>Lowering\<close>

fun xtime_arg :: "xtime \<Rightarrow> pyfloat" where
  "xtime_arg (At r) = Finite r"
| "xtime_arg Forever = PosInf"

definition lower_transfer :: "buffer_plan \<Rightarrow> transfer \<Rightarrow> endpoint_atom list res" where
  "lower_transfer plan t =
     (case map_of (transfer_src_refs plan) (transfer_id t) of
        None \<Rightarrow> Inl (SemanticError ''transfer source reference is missing'')
      | Some src \<Rightarrow> (case map_of (transfer_dst_refs plan) (transfer_id t) of
          None \<Rightarrow> Inl (SemanticError ''transfer destination reference is missing'')
        | Some dst \<Rightarrow>
            ensure (atoms t \<noteq> []) IndexError (
            let base = \<lparr>endpoint_id = transfer_id t @ '':s'', ep_atom = Some (hd (atoms t)), member_atoms = atoms t,
                  ep_transfer_id = transfer_id t, ep_transfer_kind = transfer_kind t, xml_type = SEND_TYPE,
                  ep_rank = t_src_rank t, ep_peer = t_dst_rank t, ep_channel = channel t, ep_stage_id = t_stage_id t,
                  ep_members = member_slice_ids t, ep_src_ref = Some src, ep_dst_ref = None, ep_st_time = 0, ep_ed_time = 0\<rparr> in
            bnd (endpoint_post_init base (Finite (st_time t)) (Finite (ed_time t))) (\<lambda>send.
            bnd (endpoint_post_init (base\<lparr>endpoint_id := transfer_id t @ '':recv'',
                   xml_type := (if transfer_kind t = ''REDUCE'' then RECV_REDUCE_COPY else RECV_TYPE),
                   ep_rank := t_dst_rank t, ep_peer := t_src_rank t, ep_src_ref := None, ep_dst_ref := Some dst\<rparr>)
                   (Finite (st_time t)) (Finite (ed_time t))) (\<lambda>recv.
            bnd (validate_pair (transfer_id t) [send, recv]) (\<lambda>_. Inr [send, recv]))))))"

definition lower_copy :: "local_copy \<Rightarrow> endpoint_atom res" where
  "lower_copy c =
     endpoint_post_init \<lparr>endpoint_id = copy_id c @ '':copy'', ep_atom = None, member_atoms = [], ep_transfer_id = copy_id c,
       ep_transfer_kind = ''COPY'', xml_type = COPY_TYPE, ep_rank = copy_rank c, ep_peer = -1, ep_channel = -1,
       ep_stage_id = -1, ep_members = {}, ep_src_ref = Some (copy_src_ref c), ep_dst_ref = Some (copy_dst_ref c),
       ep_st_time = 0, ep_ed_time = 0\<rparr> (xtime_arg (copy_st_time c)) (xtime_arg (copy_ed_time c))"

definition lower_endpoints :: "schedule \<Rightarrow> buffer_plan \<Rightarrow> endpoint_program res" where
  "lower_endpoints s plan =
     bnd (for_each (\<lambda>(pairs, eps) t. bnd (lower_transfer plan t) (\<lambda>pair.
            Inr (AList.update (transfer_id t) pair pairs, eps @ pair))) ([], []) (transfers s)) (\<lambda>(pairs, eps).
     bnd (for_each (\<lambda>(locals, eps) c. bnd (lower_copy c) (\<lambda>e.
            Inr (AList.update (copy_id c) e locals, eps @ [e]))) ([], eps) (local_copies plan)) (\<lambda>(locals, eps').
     endpoint_program_post_init \<lparr>endpoints = eps', by_transfer_id = pairs, local_endpoints = locals\<rparr>))"

section \<open>Lowering a well-formed schedule\<close>

definition send_endpoint :: "transfer \<Rightarrow> physical_ref \<Rightarrow> endpoint_atom" where
  "send_endpoint t src = \<lparr>endpoint_id = transfer_id t @ '':s'', ep_atom = Some (hd (atoms t)), member_atoms = atoms t,
     ep_transfer_id = transfer_id t, ep_transfer_kind = transfer_kind t, xml_type = SEND_TYPE,
     ep_rank = t_src_rank t, ep_peer = t_dst_rank t, ep_channel = channel t, ep_stage_id = t_stage_id t,
     ep_members = member_slice_ids t, ep_src_ref = Some src, ep_dst_ref = None, ep_st_time = st_time t, ep_ed_time = ed_time t\<rparr>"

definition recv_endpoint :: "transfer \<Rightarrow> physical_ref \<Rightarrow> endpoint_atom" where
  "recv_endpoint t dst = (send_endpoint t dst)\<lparr>endpoint_id := transfer_id t @ '':recv'',
     xml_type := (if transfer_kind t = ''REDUCE'' then RECV_REDUCE_COPY else RECV_TYPE),
     ep_rank := t_dst_rank t, ep_peer := t_src_rank t, ep_src_ref := None, ep_dst_ref := Some dst\<rparr>"

definition copy_endpoint :: "local_copy \<Rightarrow> rat \<Rightarrow> rat \<Rightarrow> endpoint_atom" where
  "copy_endpoint c st ed = \<lparr>endpoint_id = copy_id c @ '':copy'', ep_atom = None, member_atoms = [], ep_transfer_id = copy_id c,
       ep_transfer_kind = ''COPY'', xml_type = COPY_TYPE, ep_rank = copy_rank c, ep_peer = -1, ep_channel = -1,
       ep_stage_id = -1, ep_members = {}, ep_src_ref = Some (copy_src_ref c), ep_dst_ref = Some (copy_dst_ref c),
       ep_st_time = st, ep_ed_time = ed\<rparr>"

lemma built_transferD:
  assumes "built_transfer t"
  shows "transfer_id t \<noteq> ''''" "transfer_kind t \<in> {''REDUCE'', ''SEND''}" "0 \<le> t_src_rank t" "0 \<le> t_dst_rank t"
    "t_src_rank t \<noteq> t_dst_rank t" "0 \<le> channel t" "0 \<le> t_stage_id t" "atoms t \<noteq> []"
    "atom_slice_id ` set (atoms t) = member_slice_ids t" "0 \<le> st_time t" "st_time t \<le> ed_time t"
  using assms by (auto simp: built_transfer_def transfer_init_def transfer_kinds_def Let_def res_simps)

lemma lower_transfer_built:
  assumes t: "built_transfer t" and refs: "map_of (transfer_src_refs plan) (transfer_id t) = Some src" "ref_rank src = t_src_rank t"
    "map_of (transfer_dst_refs plan) (transfer_id t) = Some dst" "ref_rank dst = t_dst_rank t"
  shows "lower_transfer plan t = Inr [send_endpoint t src, recv_endpoint t dst]"
proof -
  note b = built_transferD [OF t]
  have times: "field_time (Finite (st_time t)) f = Inr (st_time t)" "field_time (Finite (ed_time t)) f = Inr (ed_time t)" for f
    using b(10,11) by (auto simp: res_simps)
  have ints: "integer_min v f 0 = Inr v" if "0 \<le> v" for v f using that by (simp add: res_simps)
  have ids: "nonempty_id v f = Inr v" if "v \<noteq> ''''" for v f using that by (simp add: res_simps)
  have send: "endpoint_post_init ((send_endpoint t src)\<lparr>ep_st_time := 0, ep_ed_time := 0\<rparr>) (Finite (st_time t)) (Finite (ed_time t))
      = Inr (send_endpoint t src)"
    using b refs(2) by (auto simp: endpoint_post_init_def send_endpoint_def check_comm_endpoint_def check_endpoint_refs_def
        times ints ids Let_def not_less)
  have recv: "endpoint_post_init ((recv_endpoint t dst)\<lparr>ep_st_time := 0, ep_ed_time := 0\<rparr>) (Finite (st_time t)) (Finite (ed_time t))
      = Inr (recv_endpoint t dst)"
    using b refs(4) by (auto simp: endpoint_post_init_def recv_endpoint_def send_endpoint_def check_comm_endpoint_def
        check_endpoint_refs_def times ints ids Let_def not_less)
  have "validate_pair (transfer_id t) [send_endpoint t src, recv_endpoint t dst] = Inr ()"
    by (simp add: validate_pair_def send_endpoint_def recv_endpoint_def is_recv_def)
  with send recv refs(1,3) b(8) show ?thesis
    by (simp add: lower_transfer_def send_endpoint_def recv_endpoint_def Let_def)
qed

lemma lower_copy_finite:
  assumes "copy_st_time c = At a" "copy_ed_time c = At b" "0 \<le> a" "a \<le> b" "copy_id c \<noteq> ''''" "0 \<le> copy_rank c"
    "ref_rank (copy_src_ref c) = copy_rank c" "ref_rank (copy_dst_ref c) = copy_rank c"
  shows "lower_copy c = Inr (copy_endpoint c a b)"
  using assms by (auto simp: lower_copy_def endpoint_post_init_def check_copy_endpoint_def copy_endpoint_def Let_def res_simps
      nonempty_id_def integer_min_def field_time_def not_less)

text \<open>A loop that fills a dictionary with fresh keys and a list, one element per iteration.\<close>

lemma for_each_collect:
  assumes "\<And>x. x \<in> set xs \<Longrightarrow> f x = Inr (v x)" "distinct (map k xs)" "k ` set xs \<inter> fst ` set d = {}"
  shows "for_each (\<lambda>(d, es) x. bnd (f x) (\<lambda>y. Inr (AList.update (k x) y d, es @ g y))) (d, es) xs
    = Inr (d @ map (\<lambda>x. (k x, v x)) xs, es @ concat (map (\<lambda>x. g (v x)) xs))"
  using assms
proof (induction xs arbitrary: d es)
  case (Cons x xs)
  have "AList.update (k x) (v x) d = d @ [(k x, v x)]" using Cons.prems(3) by (intro length_update_new) auto
  moreover have "for_each (\<lambda>(d, es) x. bnd (f x) (\<lambda>y. Inr (AList.update (k x) y d, es @ g y))) (d @ [(k x, v x)], es @ g (v x)) xs
    = Inr ((d @ [(k x, v x)]) @ map (\<lambda>x. (k x, v x)) xs, (es @ g (v x)) @ concat (map (\<lambda>x. g (v x)) xs))"
    using Cons.prems by (intro Cons.IH) auto
  ultimately show ?case using Cons.prems(1) by simp
qed simp

definition copy_times :: "local_copy \<Rightarrow> rat \<times> rat" where
  "copy_times c = (case (copy_st_time c, copy_ed_time c) of (At a, At b) \<Rightarrow> (a, b) | _ \<Rightarrow> (0, 0))"

definition plan_fits :: "schedule \<Rightarrow> buffer_plan \<Rightarrow> bool" where
  "plan_fits s plan \<longleftrightarrow>
     (\<forall>t\<in>set (transfers s). built_transfer t
        \<and> (\<exists>src. map_of (transfer_src_refs plan) (transfer_id t) = Some src \<and> ref_rank src = t_src_rank t)
        \<and> (\<exists>dst. map_of (transfer_dst_refs plan) (transfer_id t) = Some dst \<and> ref_rank dst = t_dst_rank t))
     \<and> distinct (map transfer_id (transfers s) @ map copy_id (local_copies plan))
     \<and> (\<forall>c\<in>set (local_copies plan). copy_id c \<noteq> '''' \<and> 0 \<le> copy_rank c \<and> ref_rank (copy_src_ref c) = copy_rank c
          \<and> ref_rank (copy_dst_ref c) = copy_rank c
          \<and> (\<exists>a b. copy_st_time c = At a \<and> copy_ed_time c = At b \<and> 0 \<le> a \<and> a \<le> b))"

definition transfer_pair :: "buffer_plan \<Rightarrow> transfer \<Rightarrow> endpoint_atom list" where
  "transfer_pair plan t = [send_endpoint t (the (map_of (transfer_src_refs plan) (transfer_id t))),
     recv_endpoint t (the (map_of (transfer_dst_refs plan) (transfer_id t)))]"

text \<open>
  C9.  A valid schedule whose buffer plan gives every transfer a source reference at its source rank
  and a destination reference at its destination rank is always lowered: every transfer becomes
  exactly one send and one matching receive (receive-reduce for a reduction) on the same channel,
  stage, members and times, every local copy one copy endpoint, no endpoint identifier is used
  twice, and nothing else is emitted.
\<close>

theorem lower_endpoints_complete:
  assumes "plan_fits s plan"
  shows "lower_endpoints s plan = Inr \<lparr>
    endpoints = concat (map (transfer_pair plan) (transfers s))
      @ map (\<lambda>c. copy_endpoint c (fst (copy_times c)) (snd (copy_times c))) (local_copies plan),
    by_transfer_id = map (\<lambda>t. (transfer_id t, transfer_pair plan t)) (transfers s),
    local_endpoints = map (\<lambda>c. (copy_id c, copy_endpoint c (fst (copy_times c)) (snd (copy_times c)))) (local_copies plan)\<rparr>"
proof -
  let ?ce = "\<lambda>c. copy_endpoint c (fst (copy_times c)) (snd (copy_times c))"
  let ?eps = "concat (map (transfer_pair plan) (transfers s)) @ map ?ce (local_copies plan)"
  have t: "lower_transfer plan t = Inr (transfer_pair plan t)" if "t \<in> set (transfers s)" for t
    using assms that lower_transfer_built [of t plan] by (fastforce simp: plan_fits_def transfer_pair_def)
  have c: "lower_copy c = Inr (?ce c)" if "c \<in> set (local_copies plan)" for c
    using assms that lower_copy_finite [of c] by (fastforce simp: plan_fits_def copy_times_def)
  have dist: "distinct (map transfer_id (transfers s))" "distinct (map copy_id (local_copies plan))"
    "transfer_id ` set (transfers s) \<inter> copy_id ` set (local_copies plan) = {}"
    using assms by (auto simp: plan_fits_def)
  have ids: "map endpoint_id ?eps = concat (map (\<lambda>t. [transfer_id t @ '':s'', transfer_id t @ '':recv'']) (transfers s))
      @ map (\<lambda>c. copy_id c @ '':copy'') (local_copies plan)"
    by (simp add: map_concat comp_def transfer_pair_def send_endpoint_def recv_endpoint_def copy_endpoint_def)
  have "distinct (map endpoint_id ?eps)"
    unfolding ids using dist(1,2) by (auto simp: distinct_map inj_on_def intro!: distinct_concat_map)
  moreover have "check_each (\<lambda>(tid, pair). validate_pair tid pair) (map (\<lambda>t. (transfer_id t, transfer_pair plan t)) (transfers s)) = Inr ()"
    by (auto simp: check_each_Inr_iff validate_pair_def transfer_pair_def send_endpoint_def recv_endpoint_def is_recv_def)
  ultimately have "endpoint_program_post_init \<lparr>endpoints = ?eps, by_transfer_id = map (\<lambda>t. (transfer_id t, transfer_pair plan t)) (transfers s),
      local_endpoints = map (\<lambda>c. (copy_id c, ?ce c)) (local_copies plan)\<rparr> = Inr \<lparr>endpoints = ?eps,
      by_transfer_id = map (\<lambda>t. (transfer_id t, transfer_pair plan t)) (transfers s),
      local_endpoints = map (\<lambda>c. (copy_id c, ?ce c)) (local_copies plan)\<rparr>"
    using dist(3) by (auto simp: endpoint_program_post_init_def res_simps check_each_Inr_iff copy_endpoint_def comp_def)
  moreover have "concat (map (\<lambda>c. [?ce c]) (local_copies plan)) = map ?ce (local_copies plan)" by (induction "local_copies plan") auto
  ultimately show ?thesis
    unfolding lower_endpoints_def
    using for_each_collect [where f = "lower_transfer plan" and v = "transfer_pair plan" and k = transfer_id
        and g = "\<lambda>y. y" and d = "[]" and es = "[]" and xs = "transfers s", OF t dist(1)]
      for_each_collect [where f = lower_copy and v = ?ce and k = copy_id and g = "\<lambda>y. [y]" and d = "[]"
        and es = "concat (map (transfer_pair plan) (transfers s))" and xs = "local_copies plan", OF c dist(2)]
    by simp
qed


definition example_ref :: "int \<Rightarrow> physical_ref" where
  "example_ref rank = \<lparr>ref_rank = rank, ref_buffer = ''s'', ref_offset = 1, valid_from = At 0, valid_until = Forever\<rparr>"

definition example_plan :: buffer_plan where
  "example_plan = \<lparr>value_locations = [], aliases = [], local_copies = [\<lparr>copy_id = ''c'', copy_rank = 2, copy_src_ref = example_ref 2, copy_dst_ref = example_ref 2,
       predecessor_state_id = ''p'', copy_st_time = At 9, copy_ed_time = At 10, copy_reason = ''output''\<rparr>],
     i_chunks = [], o_chunks = [], s_chunks = [], bp_slice_count = 2, initial_refs = [],
     final_output_refs = [], final_values = [], final_value_refs = [],
     transfer_src_refs = [(''t1'', example_ref 0)], transfer_dst_refs = [(''t1'', example_ref 2)],
     transfer_accumulator_refs = [], transfer_input_values = [], transfer_accumulator_values = [],
     transfer_output_values = [], transfer_effective_times = []\<rparr>"

theorem lower_endpoints_complete_witness:
  "\<exists>p. lower_endpoints example_schedule example_plan = Inr p \<and> length (endpoints p) = 3"
proof -
  have b: "built_transfer example_transfer"
    by (simp add: built_transfer_def built_atom_def built_stage_def transfer_init_def transfer_kinds_def validate_atoms_def
        validate_path_prefix_def atom_init_def validate_chain_def chain_stage_def chain_symbol_def path_stage_init_def
        field_time_def current_symbol_def check_each_def integer_min_def nonempty_id_def example_schedule_defs Let_def)
  have fits: "plan_fits example_schedule example_plan"
    using b by (simp add: plan_fits_def example_plan_def example_schedule_def example_ref_def) (simp add: example_transfer_def)
  show ?thesis
    using lower_endpoints_complete [OF fits] by (simp add: example_schedule_def example_plan_def transfer_pair_def)
qed


end
