(* ===== verification/Threadblocks.thy ===== *)
theory Threadblocks
  imports Endpoints
begin

text \<open>
  \<^verbatim>\<open>src/vericcl/xml/threadblocks.py\<close>: threadblocks (the in-order lanes of a GPU), their steps and the
  validation of a whole threadblock program.
\<close>

datatype threadblock_key = ThreadblockKey (tk_rank: int) (tk_direction: string) (tk_peer: int) (tk_channel: int)

definition threadblock_key_post_init :: "threadblock_key \<Rightarrow> threadblock_key res" where
  "threadblock_key_post_init k =
     ensure (0 \<le> tk_rank k) (SemanticError ''threadblock rank must be a non-negative integer'') (
     ensure (tk_direction k \<in> {''send'', ''recv'', ''copy''}) (SemanticError ''threadblock direction is invalid'') (
     if tk_direction k = ''copy'' then
       ensure (\<not> (tk_peer k \<noteq> -1 \<or> tk_channel k \<noteq> -1)) (SemanticError ''copy threadblock must use local sentinels'') (Inr k)
     else ensure (\<not> (tk_peer k < 0 \<or> tk_channel k < 0 \<or> tk_peer k = tk_rank k))
       (SemanticError ''communication threadblock key is invalid'') (Inr k)))"

record xml_step =
  step_id :: string
  node_id :: string
  step_transfer_id :: string
  step_endpoint_id :: "string option"
  step_type :: endpoint_type
  step_rank :: int
  step_peer :: int
  step_channel :: int
  step_src_ref :: "physical_ref option"
  step_dst_ref :: "physical_ref option"
  dependency_step_id :: "string option"
  has_dependence :: bool
  semantic_predecessor_node_ids :: "string list"
  step_members :: "int set"
  solver_st_time :: rat
  solver_ed_time :: rat
  effective_st_time :: rat
  effective_ed_time :: rat

definition xml_step_post_init :: "xml_step \<Rightarrow> xml_step res" where
  "xml_step_post_init s =
     bnd (nonempty_id (step_id s) ''step_id'') (\<lambda>_.
     bnd (nonempty_id (node_id s) ''node_id'') (\<lambda>_.
     bnd (nonempty_id (step_transfer_id s) ''transfer_id'') (\<lambda>_.
     if step_type s = NOP_TYPE then
       ensure (\<not> (step_endpoint_id s \<noteq> None \<or> step_src_ref s \<noteq> None \<or> step_dst_ref s \<noteq> None))
         (SemanticError ''NOP must not contain an endpoint or buffer reference'') (Inr s)
     else ensure (step_endpoint_id s \<noteq> None) (SemanticError ''non-NOP step requires an endpoint ID'') (Inr s))))"

record threadblock =
  tb_key :: threadblock_key
  tb_id :: int
  tb_steps :: "xml_step list"

definition allowed_types :: "string \<Rightarrow> endpoint_type set" where
  "allowed_types direction =
     (if direction = ''copy'' then {COPY_TYPE, NOP_TYPE}
      else if direction = ''send'' then {SEND_TYPE, NOP_TYPE}
      else {RECV_TYPE, RECV_REDUCE_COPY, NOP_TYPE})"

definition threadblock_post_init :: "threadblock \<Rightarrow> threadblock res" where
  "threadblock_post_init tb =
     ensure (0 \<le> tb_id tb) (SemanticError ''threadblock ID must be a non-negative integer'') (
     ensure (\<not> (\<exists>s\<in>set (tb_steps tb). step_rank s \<noteq> tk_rank (tb_key tb))) (SemanticError ''threadblock step rank is incorrect'') (
     ensure (\<not> (\<exists>s\<in>set (tb_steps tb). step_peer s \<noteq> tk_peer (tb_key tb) \<or> step_channel s \<noteq> tk_channel (tb_key tb)))
       (SemanticError ''threadblock step lane is incorrect'') (
     ensure (\<not> (\<exists>s\<in>set (tb_steps tb). step_type s \<notin> allowed_types (tk_direction (tb_key tb))))
       (SemanticError ''threadblock step direction is incorrect'') (Inr tb))))"

definition send_peer :: "threadblock \<Rightarrow> int" where
  "send_peer tb = (if tk_direction (tb_key tb) = ''send'' then tk_peer (tb_key tb) else -1)"

definition recv_peer :: "threadblock \<Rightarrow> int" where
  "recv_peer tb = (if tk_direction (tb_key tb) = ''recv'' then tk_peer (tb_key tb) else -1)"

record threadblock_program =
  threadblocks :: "threadblock list"
  steps_by_id :: "(string, xml_step) dict"
  transfer_steps :: "(string, string list) dict"
  node_steps :: "(string, string list) dict"
  referenced_step_ids :: "string set"
  inversion_count :: int

definition block_key :: "threadblock \<Rightarrow> int \<times> int" where
  "block_key tb = (tk_rank (tb_key tb), tb_id tb)"

definition all_steps :: "threadblock_program \<Rightarrow> xml_step list" where
  "all_steps p = concat (map tb_steps (threadblocks p))"

definition actual_steps :: "threadblock_program \<Rightarrow> (string, xml_step) dict" where
  "actual_steps p = dict_of (map (\<lambda>s. (step_id s, s)) (all_steps p))"

definition check_step_dependency :: "threadblock_program \<Rightarrow> xml_step \<Rightarrow> unit res" where
  "check_step_dependency p s =
     bnd (case dependency_step_id s of
            None \<Rightarrow> Inr ()
          | Some dep \<Rightarrow> (case map_of (actual_steps p) dep of
              None \<Rightarrow> Inl (SemanticError ''step dependency is missing'')
            | Some d \<Rightarrow> ensure (step_rank d = step_rank s) (SemanticError ''XML dependency crosses ranks'') (Inr ()))) (\<lambda>_.
     ensure (has_dependence s = (step_id s \<in> referenced_step_ids p))
       (SemanticError ''step completion flag metadata is inconsistent'') (Inr ()))"

text \<open>Dictionaries are equal when they map the same keys to the same values, whatever their order.\<close>

definition threadblock_program_post_init :: "threadblock_program \<Rightarrow> threadblock_program res" where
  "threadblock_program_post_init p =
     ensure (distinct (map block_key (threadblocks p))) (SemanticError ''threadblock IDs must be unique per rank'') (
     ensure (length (actual_steps p) = sum_list (map (length \<circ> tb_steps) (threadblocks p))) (SemanticError ''step IDs must be unique'') (
     ensure (set (dict_keys (steps_by_id p)) = set (dict_keys (actual_steps p))
         \<and> (\<forall>(k, v)\<in>set (actual_steps p). map_of (steps_by_id p) k = Some v))
       (SemanticError ''steps_by_id does not match threadblocks'') (
     ensure (\<not> (\<exists>(_, ids)\<in>set (transfer_steps p). length ids \<noteq> 2 \<or> \<not> set ids \<subseteq> set (dict_keys (actual_steps p))))
       (SemanticError ''physical transfer must map to two steps'') (
     ensure (\<not> (\<exists>(_, ids)\<in>set (node_steps p). \<not> set ids \<subseteq> set (dict_keys (actual_steps p))))
       (SemanticError ''node step mapping references a missing step'') (
     ensure (referenced_step_ids p \<subseteq> set (dict_keys (actual_steps p))) (SemanticError ''referenced step is missing'') (
     bnd (check_each (\<lambda>(_, s). check_step_dependency p s) (actual_steps p)) (\<lambda>_.
     ensure (0 \<le> inversion_count p) (SemanticError ''inversion_count must be a non-negative integer'') (
     Inr (p\<lparr>steps_by_id := actual_steps p\<rparr>)))))))))"

definition threadblock_for_step :: "threadblock_program \<Rightarrow> string \<Rightarrow> threadblock res" where
  "threadblock_for_step p sid =
     ensure (map_of (steps_by_id p) sid \<noteq> None) (SemanticError ''unknown step ID'') (
     case List.find (\<lambda>tb. \<exists>s\<in>set (tb_steps tb). step_id s = sid) (threadblocks p) of
       None \<Rightarrow> Inl (KeyError ''StopIteration'')
     | Some tb \<Rightarrow> Inr tb)"

section \<open>Accepted programs\<close>

lemma actual_steps_unique:
  assumes "length (actual_steps p) = sum_list (map (length \<circ> tb_steps) (threadblocks p))"
  shows "distinct (map step_id (all_steps p))" "actual_steps p = map (\<lambda>s. (step_id s, s)) (all_steps p)"
proof -
  have "length (all_steps p) = sum_list (map (length \<circ> tb_steps) (threadblocks p))"
    by (simp add: all_steps_def length_concat comp_def)
  with assms length_dict_of [of "[]" "map (\<lambda>s. (step_id s, s)) (all_steps p)"]
  show d: "distinct (map step_id (all_steps p))" by (simp add: actual_steps_def dict_of_def comp_def)
  then show "actual_steps p = map (\<lambda>s. (step_id s, s)) (all_steps p)"
    by (simp add: actual_steps_def dict_of_distinct comp_def)
qed

end
