(* ===== verification/Deadlock.thy ===== *)
theory Deadlock
  imports Threadblocks
begin

text \<open>
  \<^verbatim>\<open>src/vericcl/xml/deadlock.py\<close>: the simulation that decides whether the threadblocks of a program
  can run to completion.  The loop is a partial function; that it returns is a theorem.
\<close>

section \<open>The simulation\<close>

type_synonym lane = "int \<times> int"

record deadlock_result =
  deadlocked :: bool
  completed_step_ids :: "string set"
  blocked_transfer_ids :: "string set"
  tb_heads :: "(lane, string) dict"

definition lane_blocks :: "threadblock_program \<Rightarrow> (lane, threadblock) dict" where
  "lane_blocks p = dict_of (map (\<lambda>tb. (block_key tb, tb)) (threadblocks p))"

definition heads :: "threadblock_program \<Rightarrow> (lane, nat) dict \<Rightarrow> (lane \<times> xml_step) list" where
  "heads p positions = map (\<lambda>(k, tb). (k, tb_steps tb ! dict_get positions k 0))
     (filter (\<lambda>(k, tb). dict_get positions k 0 < length (tb_steps tb)) (lane_blocks p))"

definition dependency_ready :: "string set \<Rightarrow> xml_step \<Rightarrow> bool" where
  "dependency_ready completed s = (case dependency_step_id s of None \<Rightarrow> True | Some dep \<Rightarrow> dep \<in> completed)"

definition is_local :: "xml_step \<Rightarrow> bool" where
  "is_local s \<longleftrightarrow> step_type s \<in> {COPY_TYPE, NOP_TYPE}"

type_synonym sim_state = "(lane, nat) dict \<times> string set"

definition advance :: "lane \<Rightarrow> xml_step \<Rightarrow> sim_state \<Rightarrow> sim_state" where
  "advance k s st = (AList.update k (dict_get (fst st) k 0 + 1) (fst st), insert (step_id s) (snd st))"

definition local_pass :: "(lane \<times> xml_step) list \<Rightarrow> sim_state \<times> bool \<Rightarrow> sim_state \<times> bool" where
  "local_pass current acc = foldl (\<lambda>(st, progressed) (k, s).
     if is_local s \<and> dependency_ready (snd st) s then (advance k s st, True) else (st, progressed)) acc (sort_key fst current)"

fun all_ready :: "threadblock_program \<Rightarrow> string set \<Rightarrow> string list \<Rightarrow> bool res" where
  "all_ready p completed [] = Inr True"
| "all_ready p completed (i # is) = (case map_of (steps_by_id p) i of
     None \<Rightarrow> Inl (KeyError i)
   | Some s \<Rightarrow> if dependency_ready completed s then all_ready p completed is else Inr False)"

definition fire_transfer :: "(lane \<times> xml_step) list \<Rightarrow> string list \<Rightarrow> sim_state \<Rightarrow> sim_state" where
  "fire_transfer current ids st = foldl (\<lambda>st (k, s). if step_id s \<in> set ids then advance k s st else st) st current"

definition try_transfer :: "threadblock_program \<Rightarrow> (lane \<times> xml_step) list \<Rightarrow> sim_state \<times> bool \<Rightarrow> string \<times> string list
    \<Rightarrow> (sim_state \<times> bool) res" where
  "try_transfer p current acc entry =
     (case (acc, entry) of ((st, progressed), (_, ids)) \<Rightarrow>
       if set ids \<subseteq> set (map (\<lambda>(_, s). step_id s) current) then
         bnd (all_ready p (snd st) ids) (\<lambda>ok. Inr (if ok then (fire_transfer current ids st, True) else (st, progressed)))
       else Inr (st, progressed))"

definition transfer_pass :: "threadblock_program \<Rightarrow> (lane \<times> xml_step) list \<Rightarrow> sim_state \<Rightarrow> (sim_state \<times> bool) res" where
  "transfer_pass p current st = for_each (try_transfer p current) (st, False) (sort_key fst (transfer_steps p))"

definition blocked_result :: "(lane \<times> xml_step) list \<Rightarrow> string set \<Rightarrow> deadlock_result" where
  "blocked_result current completed = \<lparr>deadlocked = True, completed_step_ids = completed,
     blocked_transfer_ids = set (map (\<lambda>(_, s). step_transfer_id s) (filter (\<lambda>(_, s). \<not> is_local s) current)),
     tb_heads = map (\<lambda>(k, s). (k, step_id s)) current\<rparr>"

partial_function (option) simulate_loop :: "threadblock_program \<Rightarrow> sim_state \<Rightarrow> deadlock_result res option" where
  "simulate_loop p st =
     (let current = heads p (fst st) in
      if current = [] then Some (Inr \<lparr>deadlocked = False, completed_step_ids = snd st, blocked_transfer_ids = {}, tb_heads = []\<rparr>)
      else let (st1, progressed) = local_pass current (st, False) in
      if progressed then simulate_loop p st1
      else let current' = heads p (fst st1) in
      case transfer_pass p current' st1 of
        Inl e \<Rightarrow> Some (Inl e)
      | Inr (st2, progressed') \<Rightarrow> if progressed' then simulate_loop p st2 else Some (Inr (blocked_result current' (snd st2))))"

declare simulate_loop.simps [code]

definition simulate_endpoint_execution :: "threadblock_program \<Rightarrow> deadlock_result res option" where
  "simulate_endpoint_execution p = simulate_loop p (map (\<lambda>(k, _). (k, 0)) (lane_blocks p), {})"

section \<open>Asynchronous execution\<close>

text \<open>
  The execution model the simulation is about: a configuration says how many steps every threadblock
  has completed.  A local step at the head of its threadblock, or the two steps of a transfer when
  both are heads, may be taken as soon as the steps they depend on are completed.
\<close>

type_synonym config = "lane \<Rightarrow> nat"

definition head_of :: "threadblock_program \<Rightarrow> config \<Rightarrow> lane \<Rightarrow> xml_step \<Rightarrow> bool" where
  "head_of p f k s \<longleftrightarrow> (\<exists>tb\<in>set (threadblocks p). block_key tb = k \<and> f k < length (tb_steps tb) \<and> tb_steps tb ! f k = s)"

definition done_ids :: "threadblock_program \<Rightarrow> config \<Rightarrow> string set" where
  "done_ids p f = {step_id (tb_steps tb ! i) | tb i. tb \<in> set (threadblocks p) \<and> i < length (tb_steps tb) \<and> i < f (block_key tb)}"

definition actions :: "threadblock_program \<Rightarrow> string set set" where
  "actions p = {{step_id s} | s. s \<in> set (all_steps p) \<and> is_local s} \<union> {set ids | t ids. (t, ids) \<in> set (transfer_steps p)}"

definition enabled :: "threadblock_program \<Rightarrow> config \<Rightarrow> string set \<Rightarrow> bool" where
  "enabled p f A \<longleftrightarrow> A \<in> actions p \<and> (\<forall>i\<in>A. \<exists>k s. head_of p f k s \<and> step_id s = i \<and> dependency_ready (done_ids p f) s)"

definition fire :: "threadblock_program \<Rightarrow> string set \<Rightarrow> config \<Rightarrow> config" where
  "fire p A f = (\<lambda>k. if \<exists>s. head_of p f k s \<and> step_id s \<in> A then f k + 1 else f k)"

inductive exec_step :: "threadblock_program \<Rightarrow> config \<Rightarrow> config \<Rightarrow> bool" for p where
  act: "enabled p f A \<Longrightarrow> exec_step p f (fire p A f)"

definition complete :: "threadblock_program \<Rightarrow> config \<Rightarrow> bool" where
  "complete p f \<longleftrightarrow> (\<forall>tb\<in>set (threadblocks p). f (block_key tb) = length (tb_steps tb))"

text \<open>
  What the simulation relies on: the program passed its constructor, and its transfers own
  their steps (no step belongs to two transfers or is local).
\<close>

definition sound_program :: "threadblock_program \<Rightarrow> bool" where
  "sound_program p \<longleftrightarrow> distinct (map block_key (threadblocks p)) \<and> distinct (map step_id (all_steps p))
     \<and> steps_by_id p = map (\<lambda>s. (step_id s, s)) (all_steps p)
     \<and> (\<forall>(t, ids)\<in>set (transfer_steps p). length ids = 2 \<and> set ids \<subseteq> step_id ` set (all_steps p))
     \<and> distinct (concat (map snd (transfer_steps p)))
     \<and> (\<forall>s\<in>set (all_steps p). is_local s \<longrightarrow> step_id s \<notin> set (concat (map snd (transfer_steps p))))"

section \<open>Every execution order ends in the same configuration\<close>

lemma distinct_concat_owner:
  "distinct (concat (map g xs)) \<Longrightarrow> x \<in> set xs \<Longrightarrow> y \<in> set xs \<Longrightarrow> a \<in> set (g x) \<Longrightarrow> a \<in> set (g y) \<Longrightarrow> x = y"
  by (induction xs) auto

lemma step_position_unique:
  assumes "sound_program p" "tb \<in> set (threadblocks p)" "tb' \<in> set (threadblocks p)"
    and "i < length (tb_steps tb)" "j < length (tb_steps tb')" "step_id (tb_steps tb ! i) = step_id (tb_steps tb' ! j)"
  shows "tb = tb'" "i = j"
proof -
  have d: "distinct (concat (map (\<lambda>tb. map step_id (tb_steps tb)) (threadblocks p)))"
    using assms(1) by (simp add: sound_program_def all_steps_def map_concat comp_def)
  have "step_id (tb_steps tb ! i) \<in> set (map step_id (tb_steps tb))" "step_id (tb_steps tb ! i) \<in> set (map step_id (tb_steps tb'))"
    using imageI [OF nth_mem [OF assms(4)], of step_id] imageI [OF nth_mem [OF assms(5)], of step_id] assms(6) by simp_all
  then show eq: "tb = tb'" by (rule distinct_concat_owner [OF d assms(2,3)])
  have "distinct (map step_id (tb_steps tb))" using d assms(2) by (auto simp: distinct_concat_iff)
  then show "i = j" using assms(4-6) eq by (simp add: distinct_conv_nth) (metis nth_map)
qed

lemma block_unique:
  "sound_program p \<Longrightarrow> tb \<in> set (threadblocks p) \<Longrightarrow> tb' \<in> set (threadblocks p) \<Longrightarrow> block_key tb = block_key tb' \<Longrightarrow> tb = tb'"
  by (auto simp: sound_program_def distinct_map inj_on_def)

lemma head_unique: "sound_program p \<Longrightarrow> head_of p f k s \<Longrightarrow> head_of p f k t \<Longrightarrow> s = t"
  unfolding head_of_def using block_unique by blast

lemma head_id_unique:
  assumes "sound_program p" "head_of p f k s" "head_of p g j t" "step_id s = step_id t"
  shows "k = j" "s = t" "f k = g k"
proof -
  obtain tb where tb: "tb \<in> set (threadblocks p)" "block_key tb = k" "f k < length (tb_steps tb)" "tb_steps tb ! f k = s"
    using assms(2) unfolding head_of_def by blast
  obtain tb' where tb': "tb' \<in> set (threadblocks p)" "block_key tb' = j" "g j < length (tb_steps tb')" "tb_steps tb' ! g j = t"
    using assms(3) unfolding head_of_def by blast
  have "step_id (tb_steps tb ! f k) = step_id (tb_steps tb' ! g j)" using tb(4) tb'(4) assms(4) by simp
  note u = step_position_unique [OF assms(1) tb(1) tb'(1) tb(3) tb'(3) this]
  then show "k = j" "s = t" "f k = g k" using tb(2,4) tb'(2,4) by auto
qed

lemma fire_cases:
  assumes "sound_program p" "head_of p f k s"
  shows "fire p A f k = (if step_id s \<in> A then f k + 1 else f k)"
proof -
  have "(\<exists>t. head_of p f k t \<and> step_id t \<in> A) \<longleftrightarrow> step_id s \<in> A" using head_unique [OF assms] assms(2) by blast
  then show ?thesis by (simp add: fire_def)
qed

lemma fire_ge: "f k \<le> fire p A f k"
  by (simp add: fire_def)

lemma done_ids_mono: "(\<And>k. f k \<le> g k) \<Longrightarrow> done_ids p f \<subseteq> done_ids p g"
  unfolding done_ids_def using less_le_trans by blast

lemma dependency_ready_mono: "dependency_ready A s \<Longrightarrow> A \<subseteq> B \<Longrightarrow> dependency_ready B s"
  by (auto simp: dependency_ready_def split: option.splits)

lemma actions_disjoint:
  assumes p: "sound_program p" and AB: "A \<in> actions p" "B \<in> actions p" "i \<in> A" "i \<in> B"
  shows "A = B"
proof -
  have tr: "set ids \<subseteq> set (concat (map snd (transfer_steps p)))" if "(t, ids) \<in> set (transfer_steps p)" for t ids
    using that by force
  have own: "ids = ids'" if "(t, ids) \<in> set (transfer_steps p)" "(t', ids') \<in> set (transfer_steps p)" "i \<in> set ids" "i \<in> set ids'"
    for t t' ids ids' i
    using distinct_concat_owner [of snd "transfer_steps p" "(t, ids)" "(t', ids')" i] that p by (simp add: sound_program_def)
  have loc: "s = s'" if "s \<in> set (all_steps p)" "s' \<in> set (all_steps p)" "step_id s = step_id s'" for s s'
    using p that by (auto simp: sound_program_def distinct_map inj_on_def)
  have no: "i \<notin> set ids" if "s \<in> set (all_steps p)" "is_local s" "step_id s = i" "(t, ids) \<in> set (transfer_steps p)" for s t ids i
    using p that tr [OF that(4)] unfolding sound_program_def by blast
  have shape: "(\<exists>s\<in>set (all_steps p). is_local s \<and> C = {step_id s}) \<or> (\<exists>t ids. (t, ids) \<in> set (transfer_steps p) \<and> C = set ids)"
    if "C \<in> actions p" for C
    using that unfolding actions_def by blast
  from shape [OF AB(1)] shape [OF AB(2)] show ?thesis
  proof (elim disjE bexE exE conjE)
    fix s s' assume "A = {step_id s}" "B = {step_id s'}"
    with AB(3,4) show ?thesis by simp
  next
    fix s t ids assume "s \<in> set (all_steps p)" "is_local s" "A = {step_id s}" "(t, ids) \<in> set (transfer_steps p)" "B = set ids"
    with no AB(3,4) show ?thesis by blast
  next
    fix s t ids assume "s \<in> set (all_steps p)" "is_local s" "B = {step_id s}" "(t, ids) \<in> set (transfer_steps p)" "A = set ids"
    with no AB(3,4) show ?thesis by blast
  next
    fix t ids t' ids' assume "(t, ids) \<in> set (transfer_steps p)" "A = set ids" "(t', ids') \<in> set (transfer_steps p)" "B = set ids'"
    with own AB(3,4) show ?thesis by blast
  qed
qed

lemma fire_commute:
  assumes p: "sound_program p" and en: "enabled p f A" "enabled p f B" and ne: "A \<noteq> B"
  shows "enabled p (fire p A f) B" "fire p B (fire p A f) = fire p A (fire p B f)"
proof -
  have disj: "i \<notin> A" if "i \<in> B" for i
    using actions_disjoint [OF p] en ne that unfolding enabled_def by blast
  have keep: "head_of p (fire p A f) k s" if "head_of p f k s" "step_id s \<notin> A" for k s A
    using that fire_cases [OF p that(1), of A] unfolding head_of_def by simp
  show "enabled p (fire p A f) B"
    unfolding enabled_def
  proof (intro conjI ballI)
    fix i assume i: "i \<in> B"
    then obtain k s where h: "head_of p f k s" "step_id s = i" "dependency_ready (done_ids p f) s"
      using en(2) unfolding enabled_def by blast
    have "dependency_ready (done_ids p (fire p A f)) s"
      using h(3) done_ids_mono [of f "fire p A f"] fire_ge by (metis dependency_ready_mono)
    with keep [OF h(1)] h(2) disj [OF i] show "\<exists>k s. head_of p (fire p A f) k s \<and> step_id s = i
        \<and> dependency_ready (done_ids p (fire p A f)) s" by blast
  qed (use en(2) in \<open>simp add: enabled_def\<close>)
  have *: "(\<exists>s. head_of p (fire p A f) k s \<and> step_id s \<in> B) \<longleftrightarrow> (\<exists>s. head_of p f k s \<and> step_id s \<in> B)"
    if eb: "enabled p f B" and dj: "\<And>i. i \<in> B \<Longrightarrow> i \<notin> A" for k A B
  proof
    assume "\<exists>s. head_of p (fire p A f) k s \<and> step_id s \<in> B"
    then obtain s where s: "head_of p (fire p A f) k s" "step_id s \<in> B" by blast
    then obtain j t where t: "head_of p f j t" "step_id t = step_id s" using eb unfolding enabled_def by blast
    have "k = j" "s = t" by (rule head_id_unique [OF p s(1) t(1) t(2) [symmetric]])+
    with t s(2) show "\<exists>s. head_of p f k s \<and> step_id s \<in> B" by blast
  next
    assume "\<exists>s. head_of p f k s \<and> step_id s \<in> B"
    then show "\<exists>s. head_of p (fire p A f) k s \<and> step_id s \<in> B" using keep dj by blast
  qed
  have dj2: "i \<notin> B" if "i \<in> A" for i using disj that by blast
  show "fire p B (fire p A f) = fire p A (fire p B f)"
  proof
    fix k
    have "fire p B (fire p A f) k = (if \<exists>s. head_of p f k s \<and> step_id s \<in> B then fire p A f k + 1 else fire p A f k)"
      by (simp only: fire_def [of p B "fire p A f"] * [OF en(2) disj])
    moreover have "fire p A (fire p B f) k = (if \<exists>s. head_of p f k s \<and> step_id s \<in> A then fire p B f k + 1 else fire p B f k)"
      by (simp only: fire_def [of p A "fire p B f"] * [OF en(1) dj2])
    ultimately show "fire p B (fire p A f) k = fire p A (fire p B f) k" by (simp add: fire_def)
  qed
qed

lemma exec_step_diamond:
  assumes "sound_program p" "exec_step p f g" "exec_step p f h"
  shows "g = h \<or> (\<exists>d. exec_step p g d \<and> exec_step p h d)"
proof -
  obtain A B where "enabled p f A" "g = fire p A f" "enabled p f B" "h = fire p B f"
    using assms(2,3) by (auto elim!: exec_step.cases)
  then show ?thesis
    using fire_commute [OF assms(1), of f A B] fire_commute [OF assms(1), of f B A] by (metis exec_step.act)
qed

definition guarded_step :: "threadblock_program \<Rightarrow> config \<Rightarrow> config \<Rightarrow> bool" where
  "guarded_step p f g \<longleftrightarrow> sound_program p \<and> exec_step p f g"

interpretation lanes: diamond_system "guarded_step p" for p
  by unfold_locales (use exec_step_diamond in \<open>auto simp: guarded_step_def\<close>)


section \<open>The simulation follows the execution model\<close>

definition pos :: "sim_state \<Rightarrow> config" where
  "pos st = (\<lambda>k. dict_get (fst st) k 0)"

definition bounded :: "threadblock_program \<Rightarrow> config \<Rightarrow> bool" where
  "bounded p f \<longleftrightarrow> (\<forall>tb\<in>set (threadblocks p). f (block_key tb) \<le> length (tb_steps tb))"

definition consistent :: "threadblock_program \<Rightarrow> sim_state \<Rightarrow> bool" where
  "consistent p st \<longleftrightarrow> snd st = done_ids p (pos st) \<and> bounded p (pos st)"

definition remaining :: "threadblock_program \<Rightarrow> config \<Rightarrow> nat" where
  "remaining p f = (\<Sum>tb\<leftarrow>threadblocks p. length (tb_steps tb) - f (block_key tb))"

lemma head_keep:
  "sound_program p \<Longrightarrow> head_of p f k s \<Longrightarrow> step_id s \<notin> A \<Longrightarrow> head_of p (fire p A f) k s"
  using fire_cases [of p f k s A] unfolding head_of_def by simp

lemma done_ids_fire:
  assumes "sound_program p"
  shows "done_ids p (fire p A f) = done_ids p f \<union> {step_id s | k s. head_of p f k s \<and> step_id s \<in> A}"
proof (intro set_eqI iffI)
  fix x assume "x \<in> done_ids p (fire p A f)"
  then obtain tb i where tb: "tb \<in> set (threadblocks p)" "i < length (tb_steps tb)" "i < fire p A f (block_key tb)"
    "x = step_id (tb_steps tb ! i)" unfolding done_ids_def by blast
  show "x \<in> done_ids p f \<union> {step_id s | k s. head_of p f k s \<and> step_id s \<in> A}"
  proof (cases "i < f (block_key tb)")
    case True
    with tb show ?thesis unfolding done_ids_def by blast
  next
    case False
    then obtain s where s: "head_of p f (block_key tb) s" "step_id s \<in> A" "i = f (block_key tb)"
      using tb(3) by (auto simp: fire_def split: if_splits)
    have "s = tb_steps tb ! i" using s(1,3) tb(1) block_unique [OF assms] unfolding head_of_def by blast
    with s tb(4) show ?thesis by blast
  qed
next
  fix x assume "x \<in> done_ids p f \<union> {step_id s | k s. head_of p f k s \<and> step_id s \<in> A}"
  then show "x \<in> done_ids p (fire p A f)"
  proof
    assume "x \<in> done_ids p f"
    with done_ids_mono [of f "fire p A f" p] fire_ge show ?thesis by blast
  next
    assume "x \<in> {step_id s | k s. head_of p f k s \<and> step_id s \<in> A}"
    then obtain k s where s: "head_of p f k s" "step_id s \<in> A" "x = step_id s" by blast
    then obtain tb where tb: "tb \<in> set (threadblocks p)" "block_key tb = k" "f k < length (tb_steps tb)" "tb_steps tb ! f k = s"
      unfolding head_of_def by blast
    have "f k < fire p A f k" using fire_cases [OF assms s(1), of A] s(2) by simp
    with tb s(3) show ?thesis unfolding done_ids_def by blast
  qed
qed

lemma bounded_fire:
  assumes "sound_program p" "bounded p f"
  shows "bounded p (fire p A f)"
  unfolding bounded_def
proof
  fix tb assume tb: "tb \<in> set (threadblocks p)"
  show "fire p A f (block_key tb) \<le> length (tb_steps tb)"
  proof (cases "\<exists>s. head_of p f (block_key tb) s \<and> step_id s \<in> A")
    case True
    then have "f (block_key tb) < length (tb_steps tb)"
      using block_unique [OF assms(1) tb] unfolding head_of_def by metis
    with True show ?thesis by (simp add: fire_def)
  next
    case False
    then show ?thesis using assms(2) tb by (auto simp: fire_def bounded_def)
  qed
qed

lemma fire_single:
  assumes "sound_program p" "head_of p f k s"
  shows "fire p {step_id s} f = f(k := f k + 1)"
proof
  fix j
  have "(\<exists>t. head_of p f j t \<and> step_id t \<in> {step_id s}) \<longleftrightarrow> j = k"
    using head_id_unique(1) [OF assms(1) _ assms(2)] assms(2) by blast
  then show "fire p {step_id s} f j = (f(k := f k + 1)) j" by (simp add: fire_def)
qed

lemma pos_advance: "pos (advance k s st) = (pos st)(k := pos st k + 1)"
  by (simp add: pos_def advance_def fun_eq_iff)

lemma advance_consistent:
  assumes "sound_program p" "consistent p st" "head_of p (pos st) k s"
  shows "pos (advance k s st) = fire p {step_id s} (pos st)" "consistent p (advance k s st)"
proof -
  show eq: "pos (advance k s st) = fire p {step_id s} (pos st)" by (simp add: pos_advance fire_single [OF assms(1,3)])
  have "{step_id t | j t. head_of p (pos st) j t \<and> step_id t \<in> {step_id s}} = {step_id s}" using assms(3) by blast
  then have "done_ids p (pos (advance k s st)) = insert (step_id s) (snd st)"
    using assms(2) by (simp add: eq done_ids_fire [OF assms(1)] consistent_def)
  moreover have "bounded p (pos (advance k s st))"
    using bounded_fire [OF assms(1)] assms(2) by (simp add: eq consistent_def)
  ultimately show "consistent p (advance k s st)" by (simp add: consistent_def advance_def)
qed

lemma head_in_steps: "head_of p f k s \<Longrightarrow> s \<in> set (all_steps p)"
  unfolding head_of_def all_steps_def by (auto intro: nth_mem)

lemma local_enabled:
  assumes "head_of p f k s" "is_local s" "dependency_ready (done_ids p f) s"
  shows "enabled p f {step_id s}"
  unfolding enabled_def
proof
  show "{step_id s} \<in> actions p" unfolding actions_def using assms(2) head_in_steps [OF assms(1)] by blast
qed (use assms in blast)

lemma local_pass_run:
  assumes "sound_program p" "consistent p st" "\<And>k s. (k, s) \<in> set xs \<Longrightarrow> head_of p (pos st) k s" "distinct (map fst xs)"
    and "foldl (\<lambda>(st, progressed) (k, s). if is_local s \<and> dependency_ready (snd st) s then (advance k s st, True)
           else (st, progressed)) (st, b) xs = (st', b')"
  shows "consistent p st' \<and> (exec_step p)\<^sup>*\<^sup>* (pos st) (pos st') \<and> (b' \<longrightarrow> b \<or> (exec_step p)\<^sup>+\<^sup>+ (pos st) (pos st'))
    \<and> (\<not> b' \<longrightarrow> \<not> b \<and> st' = st \<and> (\<forall>(k, s)\<in>set xs. \<not> (is_local s \<and> dependency_ready (snd st) s)))"
  using assms(2-)
proof (induction xs arbitrary: st b)
  case (Cons x xs)
  obtain k s where x: "x = (k, s)" by (cases x)
  have h: "head_of p (pos st) k s" using Cons.prems(2) [of k s] by (simp add: x)
  show ?case
  proof (cases "is_local s \<and> dependency_ready (snd st) s")
    case True
    note adv = advance_consistent [OF assms(1) Cons.prems(1) h]
    have "enabled p (pos st) {step_id s}"
      using local_enabled [OF h] True Cons.prems(1) by (simp add: consistent_def)
    then have st: "exec_step p (pos st) (pos (advance k s st))" unfolding adv(1) by (rule exec_step.act)
    have heads': "head_of p (pos (advance k s st)) j t" if "(j, t) \<in> set xs" for j t
    proof -
      have "j \<noteq> k" using that Cons.prems(3) by (force simp: x)
      then show ?thesis using Cons.prems(2) [of j t] that by (simp add: pos_advance head_of_def)
    qed
    have run: "foldl (\<lambda>(st, progressed) (k, s). if is_local s \<and> dependency_ready (snd st) s then (advance k s st, True)
           else (st, progressed)) (advance k s st, True) xs = (st', b')" using Cons.prems(4) True by (simp add: x)
    have "distinct (map fst xs)" using Cons.prems(3) by simp
    from Cons.IH [OF adv(2) heads' this run]
    have ih: "consistent p st'" "(exec_step p)\<^sup>*\<^sup>* (pos (advance k s st)) (pos st')" "b'" by auto
    have "(exec_step p)\<^sup>+\<^sup>+ (pos st) (pos st')" using st ih by (simp add: rtranclp_into_tranclp2)
    with ih show ?thesis by (auto dest: tranclp_into_rtranclp)
  next
    case False
    have "foldl (\<lambda>(st, progressed) (k, s). if is_local s \<and> dependency_ready (snd st) s then (advance k s st, True)
           else (st, progressed)) (st, b) xs = (st', b')" using Cons.prems(4) False by (auto simp: x)
    from Cons.IH [OF Cons.prems(1) _ _ this] Cons.prems(2,3) False show ?thesis by (simp add: x)
  qed
qed auto


lemma fire_transfer_fields:
  "distinct (map fst current) \<Longrightarrow>
    (\<forall>k. pos (fire_transfer current ids st) k = pos st k + (if \<exists>s. (k, s) \<in> set current \<and> step_id s \<in> set ids then 1 else 0))
    \<and> snd (fire_transfer current ids st) = snd st \<union> {step_id s | k s. (k, s) \<in> set current \<and> step_id s \<in> set ids}"
proof (induction current arbitrary: st)
  case (Cons x xs)
  obtain j s where x: "x = (j, s)" by (cases x)
  have run: "fire_transfer (x # xs) ids st = fire_transfer xs ids (if step_id s \<in> set ids then advance j s st else st)"
    by (simp add: fire_transfer_def x)
  have j: "(j, t) \<notin> set xs" for t using Cons.prems by (force simp: x)
  have "distinct (map fst xs)" using Cons.prems by simp
  note ih = Cons.IH [OF this, of "if step_id s \<in> set ids then advance j s st else st"]
  show ?case
  proof
    show "\<forall>k. pos (fire_transfer (x # xs) ids st) k
        = pos st k + (if \<exists>s. (k, s) \<in> set (x # xs) \<and> step_id s \<in> set ids then 1 else 0)"
      unfolding run using ih j by (auto simp: x pos_advance)
    have "snd (if step_id s \<in> set ids then advance j s st else st) = snd st \<union> (if step_id s \<in> set ids then {step_id s} else {})"
      by (simp add: advance_def)
    then show "snd (fire_transfer (x # xs) ids st)
        = snd st \<union> {step_id s | k s. (k, s) \<in> set (x # xs) \<and> step_id s \<in> set ids}"
      unfolding run using ih by (cases j) (auto simp: x)
  qed
qed (simp add: fire_transfer_def)

lemma fire_transfer_consistent:
  assumes p: "sound_program p" and st: "consistent p st" and cur: "distinct (map fst current)"
    and heads: "\<And>k s. (k, s) \<in> set current \<Longrightarrow> step_id s \<in> set ids \<Longrightarrow> head_of p (pos st) k s"
    and all: "set ids \<subseteq> set (map (\<lambda>(_, s). step_id s) current)"
  shows "pos (fire_transfer current ids st) = fire p (set ids) (pos st)" "consistent p (fire_transfer current ids st)"
proof -
  have iff: "head_of p (pos st) k s \<and> step_id s \<in> set ids \<longleftrightarrow> (k, s) \<in> set current \<and> step_id s \<in> set ids" for k s
  proof
    assume s: "head_of p (pos st) k s \<and> step_id s \<in> set ids"
    then obtain j t where t: "(j, t) \<in> set current" "step_id t = step_id s" using all by auto
    with heads s have "head_of p (pos st) j t" by simp
    from head_id_unique [OF p _ this t(2) [symmetric], of "pos st" k] s t show "(k, s) \<in> set current \<and> step_id s \<in> set ids" by blast
  qed (use heads in blast)
  show eq: "pos (fire_transfer current ids st) = fire p (set ids) (pos st)"
    using fire_transfer_fields [OF cur, of ids st] by (simp add: fun_eq_iff fire_def iff)
  have "done_ids p (fire p (set ids) (pos st)) = snd (fire_transfer current ids st)"
    using st fire_transfer_fields [OF cur, of ids st] by (simp add: done_ids_fire [OF p] consistent_def iff)
  moreover have "bounded p (fire p (set ids) (pos st))" using bounded_fire [OF p] st by (simp add: consistent_def)
  ultimately show "consistent p (fire_transfer current ids st)" by (simp add: consistent_def eq)
qed

lemma all_ready_Inr:
  assumes "sound_program p" "set ids \<subseteq> step_id ` set (all_steps p)"
  shows "all_ready p c ids = Inr (\<forall>s\<in>set (all_steps p). step_id s \<in> set ids \<longrightarrow> dependency_ready c s)"
  using assms(2)
proof (induction ids)
  case (Cons i ids)
  obtain s where s: "s \<in> set (all_steps p)" "step_id s = i" using Cons.prems by auto
  have d: "distinct (map step_id (all_steps p))" "steps_by_id p = map (\<lambda>s. (step_id s, s)) (all_steps p)"
    using assms(1) by (auto simp: sound_program_def)
  have m: "map_of (steps_by_id p) i = Some s" unfolding d(2) using d(1) s by (auto simp: map_of_eq_Some_iff comp_def)
  have "t = s" if "t \<in> set (all_steps p)" "step_id t = i" for t using d(1) s that by (auto simp: distinct_map inj_on_def)
  then have "(\<forall>t\<in>set (all_steps p). step_id t \<in> set (i # ids) \<longrightarrow> dependency_ready c t)
      \<longleftrightarrow> dependency_ready c s \<and> (\<forall>t\<in>set (all_steps p). step_id t \<in> set ids \<longrightarrow> dependency_ready c t)"
    using s unfolding list.set(2) insert_iff by blast
  moreover have "all_ready p c ids = Inr (\<forall>t\<in>set (all_steps p). step_id t \<in> set ids \<longrightarrow> dependency_ready c t)"
    using Cons.prems by (intro Cons.IH) simp
  ultimately show ?case by (simp add: m)
qed simp

definition transfer_ready :: "threadblock_program \<Rightarrow> (lane \<times> xml_step) list \<Rightarrow> string set \<Rightarrow> string list \<Rightarrow> bool" where
  "transfer_ready p current c ids \<longleftrightarrow> set ids \<subseteq> set (map (\<lambda>(_, s). step_id s) current)
     \<and> (\<forall>s\<in>set (all_steps p). step_id s \<in> set ids \<longrightarrow> dependency_ready c s)"

lemma try_transfer_Inr:
  assumes "sound_program p" "(t, ids) \<in> set (transfer_steps p)"
  shows "try_transfer p current (st, b) (t, ids)
    = Inr (if transfer_ready p current (snd st) ids then (fire_transfer current ids st, True) else (st, b))"
proof -
  have "set ids \<subseteq> step_id ` set (all_steps p)" using assms by (auto simp: sound_program_def)
  then show ?thesis by (simp add: try_transfer_def transfer_ready_def all_ready_Inr [OF assms(1)])
qed

lemma transfer_pass_run:
  assumes p: "sound_program p" and "consistent p st" "distinct (map fst current)"
    and "\<And>t ids k s. (t, ids) \<in> set ts \<Longrightarrow> (k, s) \<in> set current \<Longrightarrow> step_id s \<in> set ids \<Longrightarrow> head_of p (pos st) k s"
    and "set ts \<subseteq> set (transfer_steps p)" "distinct (concat (map snd ts))"
  shows "\<exists>st' b'. for_each (try_transfer p current) (st, b) ts = Inr (st', b') \<and> consistent p st'
    \<and> (exec_step p)\<^sup>*\<^sup>* (pos st) (pos st') \<and> (b' \<longrightarrow> b \<or> (exec_step p)\<^sup>+\<^sup>+ (pos st) (pos st'))
    \<and> (\<not> b' \<longrightarrow> \<not> b \<and> st' = st \<and> (\<forall>(t, ids)\<in>set ts. \<not> transfer_ready p current (snd st) ids))"
  using assms(2-)
proof (induction ts arbitrary: st b)
  case (Cons x ts)
  obtain t ids where x: "x = (t, ids)" by (cases x)
  have mem: "(t, ids) \<in> set (transfer_steps p)" using Cons.prems(4) by (simp add: x)
  note try_eq = try_transfer_Inr [OF p mem, of current st b]
  have ts: "set ts \<subseteq> set (transfer_steps p)" "distinct (concat (map snd ts))" using Cons.prems(4,5) by auto
  show ?case
  proof (cases "transfer_ready p current (snd st) ids")
    case True
    have own: "(k, s) \<in> set current \<Longrightarrow> step_id s \<in> set ids \<Longrightarrow> head_of p (pos st) k s" for k s
      using Cons.prems(3) [of t ids k s] by (simp add: x)
    have sub: "set ids \<subseteq> set (map (\<lambda>(_, s). step_id s) current)" using True by (simp add: transfer_ready_def)
    have f: "pos (fire_transfer current ids st) = fire p (set ids) (pos st)" "consistent p (fire_transfer current ids st)"
      using fire_transfer_consistent [OF p Cons.prems(1,2) own sub] by auto
    have "enabled p (pos st) (set ids)"
      unfolding enabled_def
    proof (intro conjI ballI)
      show "set ids \<in> actions p" unfolding actions_def using mem by blast
      fix i assume i: "i \<in> set ids"
      then obtain k s where s: "(k, s) \<in> set current" "step_id s = i" using sub by auto
      with own i have h: "head_of p (pos st) k s" by simp
      then have "dependency_ready (done_ids p (pos st)) s"
        using True i s(2) head_in_steps [OF h] Cons.prems(1) by (simp add: transfer_ready_def consistent_def)
      with h s(2) show "\<exists>k s. head_of p (pos st) k s \<and> step_id s = i \<and> dependency_ready (done_ids p (pos st)) s" by blast
    qed
    then have step: "exec_step p (pos st) (pos (fire_transfer current ids st))" unfolding f(1) by (rule exec_step.act)
    have keep: "head_of p (pos (fire_transfer current ids st)) k s"
      if "(t', ids') \<in> set ts" "(k, s) \<in> set current" "step_id s \<in> set ids'" for t' ids' k s
    proof -
      have "step_id s \<notin> set ids" using Cons.prems(5) that by (force simp: x)
      moreover have "head_of p (pos st) k s" using Cons.prems(3) [of t' ids' k s] that by simp
      ultimately show ?thesis unfolding f(1) by (intro head_keep [OF p])
    qed
    have "\<exists>st' b'. for_each (try_transfer p current) (fire_transfer current ids st, True) ts = Inr (st', b') \<and> consistent p st'
      \<and> (exec_step p)\<^sup>*\<^sup>* (pos (fire_transfer current ids st)) (pos st')
      \<and> (b' \<longrightarrow> True \<or> (exec_step p)\<^sup>+\<^sup>+ (pos (fire_transfer current ids st)) (pos st'))
      \<and> (\<not> b' \<longrightarrow> \<not> True \<and> st' = fire_transfer current ids st
           \<and> (\<forall>(t, ids')\<in>set ts. \<not> transfer_ready p current (snd (fire_transfer current ids st)) ids'))"
      by (rule Cons.IH [OF f(2) Cons.prems(2) _ ts]) (blast intro: keep)
    then obtain st' b' where
      ih: "for_each (try_transfer p current) (fire_transfer current ids st, True) ts = Inr (st', b')" "consistent p st'"
        "(exec_step p)\<^sup>*\<^sup>* (pos (fire_transfer current ids st)) (pos st')" "b'" by blast
    have "(exec_step p)\<^sup>+\<^sup>+ (pos st) (pos st')" using step ih(3) by (rule rtranclp_into_tranclp2)
    with ih True show ?thesis by (auto simp: x try_eq dest: tranclp_into_rtranclp)
  next
    case False
    have keep: "head_of p (pos st) k s" if "(t', ids') \<in> set ts" "(k, s) \<in> set current" "step_id s \<in> set ids'" for t' ids' k s
      using Cons.prems(3) [of t' ids' k s] that by simp
    have "\<exists>st' b'. for_each (try_transfer p current) (st, b) ts = Inr (st', b') \<and> consistent p st'
      \<and> (exec_step p)\<^sup>*\<^sup>* (pos st) (pos st') \<and> (b' \<longrightarrow> b \<or> (exec_step p)\<^sup>+\<^sup>+ (pos st) (pos st'))
      \<and> (\<not> b' \<longrightarrow> \<not> b \<and> st' = st \<and> (\<forall>(t, ids)\<in>set ts. \<not> transfer_ready p current (snd st) ids))"
      by (rule Cons.IH [OF Cons.prems(1,2) _ ts]) (blast intro: keep)
    with False show ?thesis by (simp add: x try_eq)
  qed
qed simp


lemma lane_blocks_sound: "sound_program p \<Longrightarrow> lane_blocks p = map (\<lambda>tb. (block_key tb, tb)) (threadblocks p)"
  by (simp add: lane_blocks_def sound_program_def dict_of_distinct comp_def)

lemma heads_iff: "sound_program p \<Longrightarrow> (k, s) \<in> set (heads p (fst st)) \<longleftrightarrow> head_of p (pos st) k s"
  by (auto simp: heads_def lane_blocks_sound head_of_def pos_def)

lemma heads_distinct: "sound_program p \<Longrightarrow> distinct (map fst (heads p (fst st)))"
proof -
  assume p: "sound_program p"
  have "map fst (heads p (fst st)) = map fst (filter (\<lambda>(k, tb). dict_get (fst st) k 0 < length (tb_steps tb)) (lane_blocks p))"
    by (simp add: heads_def case_prod_beta comp_def)
  with p show ?thesis by (simp add: lane_blocks_sound sound_program_def distinct_map_filter comp_def)
qed

lemma sum_list_less:
  fixes f g :: "'a \<Rightarrow> nat"
  assumes "\<And>x. x \<in> set xs \<Longrightarrow> f x \<le> g x" "y \<in> set xs" "f y < g y"
  shows "sum_list (map f xs) < sum_list (map g xs)"
  using assms
proof (induction xs)
  case (Cons x xs)
  have le: "sum_list (map f xs) \<le> sum_list (map g xs)" by (rule sum_list_mono) (use Cons.prems(1) in simp)
  have x: "f x \<le> g x" using Cons.prems(1) by simp
  show ?case
  proof (cases "y \<in> set xs")
    case True
    with Cons have "sum_list (map f xs) < sum_list (map g xs)" by simp
    with x show ?thesis by simp
  next
    case False
    with Cons.prems(2,3) have "f x < g x" by auto
    with le show ?thesis by simp
  qed
qed simp

lemma distinct_concat_sort_key: "distinct (concat (map g xs)) \<Longrightarrow> distinct (concat (map g (sort_key f xs)))"
proof -
  assume "distinct (concat (map g xs))"
  moreover have "mset (concat (map g (sort_key f xs))) = mset (concat (map g xs))"
    by (simp add: mset_concat flip: sum_mset_sum_list)
  ultimately show ?thesis using mset_eq_imp_distinct_iff by blast
qed

lemma exec_step_remaining:
  assumes p: "sound_program p" and step: "exec_step p f g"
  shows "remaining p g < remaining p f"
proof -
  obtain A where A: "enabled p f A" "g = fire p A f" using step by (auto elim: exec_step.cases)
  have "A \<noteq> {}"
    using A(1) p unfolding enabled_def actions_def sound_program_def by fastforce
  then obtain i where i: "i \<in> A" by blast
  with A(1) obtain k s where h: "head_of p f k s" "step_id s = i" unfolding enabled_def by blast
  then obtain tb where tb: "tb \<in> set (threadblocks p)" "block_key tb = k" "f k < length (tb_steps tb)"
    unfolding head_of_def by blast
  have "g k = f k + 1" using fire_cases [OF p h(1), of A] h(2) i A(2) by simp
  then have "length (tb_steps tb) - g (block_key tb) < length (tb_steps tb) - f (block_key tb)" using tb by simp
  moreover have "length (tb_steps x) - g (block_key x) \<le> length (tb_steps x) - f (block_key x)" for x
    by (intro diff_le_mono2) (simp add: A(2) fire_ge)
  ultimately show ?thesis unfolding remaining_def using tb(1) by (intro sum_list_less [of _ _ _ tb])
qed

lemma exec_run_remaining:
  assumes "sound_program p" "(exec_step p)\<^sup>+\<^sup>+ f g" shows "remaining p g < remaining p f"
  using assms(2)
proof (induction rule: tranclp_induct)
  case (base g)
  then show ?case by (rule exec_step_remaining [OF assms(1)])
next
  case (step g h)
  then show ?case using exec_step_remaining [OF assms(1) step.hyps(2)] by simp
qed

lemma stuck_without_progress:
  assumes p: "sound_program p" and st: "consistent p st"
    and loc: "\<And>k s. head_of p (pos st) k s \<Longrightarrow> \<not> (is_local s \<and> dependency_ready (snd st) s)"
    and tr: "\<And>t ids. (t, ids) \<in> set (transfer_steps p) \<Longrightarrow> \<not> transfer_ready p (heads p (fst st)) (snd st) ids"
  shows "\<not> exec_step p (pos st) g"
proof
  assume "exec_step p (pos st) g"
  then obtain A where A: "A \<in> actions p"
    "\<And>i. i \<in> A \<Longrightarrow> \<exists>k s. head_of p (pos st) k s \<and> step_id s = i \<and> dependency_ready (snd st) s"
    using st unfolding consistent_def enabled_def by (auto elim!: exec_step.cases simp: enabled_def)
  have uniq: "s = s'" if "s \<in> set (all_steps p)" "s' \<in> set (all_steps p)" "step_id s = step_id s'" for s s'
    using p that by (auto simp: sound_program_def distinct_map inj_on_def)
  from A(1) consider s where "s \<in> set (all_steps p)" "is_local s" "A = {step_id s}"
    | t ids where "(t, ids) \<in> set (transfer_steps p)" "A = set ids"
    unfolding actions_def by blast
  then show False
  proof cases
    case 1
    with A(2) [of "step_id s"] obtain k s' where s': "head_of p (pos st) k s'" "step_id s' = step_id s" "dependency_ready (snd st) s'"
      by auto
    have "s' = s" by (rule uniq [OF head_in_steps [OF s'(1)] 1(1) s'(2)])
    with loc [OF s'(1)] s'(3) 1(2) show False by simp
  next
    case 2
    have "transfer_ready p (heads p (fst st)) (snd st) ids"
      unfolding transfer_ready_def
    proof (intro conjI subsetI ballI impI)
      fix i assume "i \<in> set ids"
      with A(2) 2(2) obtain k s where "head_of p (pos st) k s" "step_id s = i" by blast
      then show "i \<in> set (map (\<lambda>(_, s). step_id s) (heads p (fst st)))" using heads_iff [OF p, of k s st] by force
    next
      fix s assume s: "s \<in> set (all_steps p)" "step_id s \<in> set ids"
      with A(2) 2(2) obtain k s' where s': "head_of p (pos st) k s'" "step_id s' = step_id s" "dependency_ready (snd st) s'" by blast
      have "s' = s" by (rule uniq [OF head_in_steps [OF s'(1)] s(1) s'(2)])
      with s'(3) show "dependency_ready (snd st) s" by simp
    qed
    with tr [OF 2(1)] show False by simp
  qed
qed

definition loop_result :: "threadblock_program \<Rightarrow> sim_state \<Rightarrow> deadlock_result \<Rightarrow> bool" where
  "loop_result p st r \<longleftrightarrow> (\<exists>f. (exec_step p)\<^sup>*\<^sup>* (pos st) f \<and> bounded p f \<and> (\<forall>g. \<not> exec_step p f g)
     \<and> completed_step_ids r = done_ids p f \<and> (deadlocked r \<longleftrightarrow> \<not> complete p f)
     \<and> (\<forall>k i. (k, i) \<in> set (tb_heads r) \<longleftrightarrow> (\<exists>s. head_of p f k s \<and> step_id s = i)))"

lemma loop_result_step: "(exec_step p)\<^sup>*\<^sup>* (pos st) (pos st') \<Longrightarrow> loop_result p st' r \<Longrightarrow> loop_result p st r"
proof -
  assume run: "(exec_step p)\<^sup>*\<^sup>* (pos st) (pos st')" and "loop_result p st' r"
  then obtain f where f: "(exec_step p)\<^sup>*\<^sup>* (pos st') f" "bounded p f" "\<forall>g. \<not> exec_step p f g" "completed_step_ids r = done_ids p f"
    "deadlocked r \<longleftrightarrow> \<not> complete p f" "\<forall>k i. (k, i) \<in> set (tb_heads r) \<longleftrightarrow> (\<exists>s. head_of p f k s \<and> step_id s = i)"
    unfolding loop_result_def by blast
  from rtranclp_trans [OF run f(1)] f(2-) show ?thesis unfolding loop_result_def by blast
qed

lemma no_heads_complete:
  assumes "sound_program p" "bounded p f" shows "complete p f \<longleftrightarrow> (\<forall>k s. \<not> head_of p f k s)"
proof -
  have "(f (block_key tb) = length (tb_steps tb)) \<longleftrightarrow> \<not> f (block_key tb) < length (tb_steps tb)" if "tb \<in> set (threadblocks p)" for tb
    using assms(2) that by (auto simp: bounded_def le_less)
  then show ?thesis unfolding complete_def head_of_def by blast
qed

lemma heads_local_pass:
  assumes p: "sound_program p" and st: "consistent p st" and lp: "local_pass (heads p (fst st)) (st, False) = (st1, b1)"
  shows "consistent p st1" "(exec_step p)\<^sup>*\<^sup>* (pos st) (pos st1)" "b1 \<Longrightarrow> (exec_step p)\<^sup>+\<^sup>+ (pos st) (pos st1)" "\<not> b1 \<Longrightarrow> st1 = st"
    "\<not> b1 \<Longrightarrow> head_of p (pos st) k s \<Longrightarrow> \<not> (is_local s \<and> dependency_ready (snd st) s)"
proof -
  let ?cur = "heads p (fst st)"
  have sorted_heads: "distinct (map fst (sort_key fst ?cur))"
    using heads_distinct [OF p, of st] by (simp add: distinct_keys_sort)
  have run: "consistent p st1 \<and> (exec_step p)\<^sup>*\<^sup>* (pos st) (pos st1) \<and> (b1 \<longrightarrow> False \<or> (exec_step p)\<^sup>+\<^sup>+ (pos st) (pos st1))
    \<and> (\<not> b1 \<longrightarrow> \<not> False \<and> st1 = st \<and> (\<forall>(k, s)\<in>set (sort_key fst ?cur). \<not> (is_local s \<and> dependency_ready (snd st) s)))"
    by (rule local_pass_run [OF p st _ sorted_heads lp [unfolded local_pass_def]]) (use heads_iff [OF p, of _ _ st] in simp)
  then show "consistent p st1" "(exec_step p)\<^sup>*\<^sup>* (pos st) (pos st1)" "b1 \<Longrightarrow> (exec_step p)\<^sup>+\<^sup>+ (pos st) (pos st1)"
    "\<not> b1 \<Longrightarrow> st1 = st" by auto
  show "\<not> (is_local s \<and> dependency_ready (snd st) s)" if nb: "\<not> b1" and mem: "head_of p (pos st) k s"
  proof -
    have "\<forall>(k, s)\<in>set ?cur. \<not> (is_local s \<and> dependency_ready (snd st) s)" using run nb unfolding set_sort by blast
    from bspec [OF this, of "(k, s)"] mem heads_iff [OF p, of k s st] show ?thesis by simp
  qed
qed

lemma heads_transfer_pass:
  assumes p: "sound_program p" and st: "consistent p st"
  obtains st2 b2 where "transfer_pass p (heads p (fst st)) st = Inr (st2, b2)" "consistent p st2"
    "(exec_step p)\<^sup>*\<^sup>* (pos st) (pos st2)" "b2 \<Longrightarrow> (exec_step p)\<^sup>+\<^sup>+ (pos st) (pos st2)" "\<not> b2 \<Longrightarrow> st2 = st"
    "\<And>t ids. \<not> b2 \<Longrightarrow> (t, ids) \<in> set (transfer_steps p) \<Longrightarrow> \<not> transfer_ready p (heads p (fst st)) (snd st) ids"
proof -
  let ?cur = "heads p (fst st)" and ?ts = "sort_key fst (transfer_steps p)"
  have own: "distinct (concat (map snd ?ts))" using p by (simp add: sound_program_def distinct_concat_sort_key)
  have "\<exists>st' b'. for_each (try_transfer p ?cur) (st, False) ?ts = Inr (st', b') \<and> consistent p st'
    \<and> (exec_step p)\<^sup>*\<^sup>* (pos st) (pos st') \<and> (b' \<longrightarrow> False \<or> (exec_step p)\<^sup>+\<^sup>+ (pos st) (pos st'))
    \<and> (\<not> b' \<longrightarrow> \<not> False \<and> st' = st \<and> (\<forall>(t, ids)\<in>set ?ts. \<not> transfer_ready p ?cur (snd st) ids))"
    by (rule transfer_pass_run [OF p st heads_distinct [OF p] _ _ own]) (use heads_iff [OF p, of _ _ st] in auto)
  then obtain st2 b2 where run: "for_each (try_transfer p ?cur) (st, False) ?ts = Inr (st2, b2)" "consistent p st2"
    "(exec_step p)\<^sup>*\<^sup>* (pos st) (pos st2)" "b2 \<longrightarrow> (exec_step p)\<^sup>+\<^sup>+ (pos st) (pos st2)"
    and idle: "\<not> b2 \<longrightarrow> st2 = st \<and> (\<forall>(t, ids)\<in>set ?ts. \<not> transfer_ready p ?cur (snd st) ids)" by blast
  have "\<not> transfer_ready p ?cur (snd st) ids" if "\<not> b2" "(t, ids) \<in> set (transfer_steps p)" for t ids
  proof -
    have "\<forall>(t, ids)\<in>set (transfer_steps p). \<not> transfer_ready p ?cur (snd st) ids" using idle that(1) by simp
    from bspec [OF this that(2)] show ?thesis by simp
  qed
  with run idle show ?thesis by (intro that [of st2 b2]) (simp_all add: transfer_pass_def)
qed

lemma loop_result_end:
  assumes p: "sound_program p" and st: "consistent p st" and stuck: "\<And>g. \<not> exec_step p (pos st) g"
    and r: "completed_step_ids r = snd st" "tb_heads r = map (\<lambda>(k, s). (k, step_id s)) (heads p (fst st))"
      "deadlocked r \<longleftrightarrow> heads p (fst st) \<noteq> []"
  shows "loop_result p st r"
proof -
  have "complete p (pos st) \<longleftrightarrow> heads p (fst st) = []"
    using no_heads_complete [OF p, of "pos st"] st heads_iff [OF p, of _ _ st] unfolding consistent_def
    by (metis empty_iff list.set(1) list.set_intros(1) neq_Nil_conv surj_pair)
  moreover have "(k, i) \<in> set (tb_heads r) \<longleftrightarrow> (\<exists>s. head_of p (pos st) k s \<and> step_id s = i)" for k i
    unfolding heads_iff [OF p, symmetric] r(2) by force
  ultimately show ?thesis
    unfolding loop_result_def using st stuck r(1,3) by (intro exI [of _ "pos st"]) (simp add: consistent_def)
qed

lemma simulate_loop_returns:
  assumes p: "sound_program p"
  shows "consistent p st \<Longrightarrow> \<exists>r. simulate_loop p st = Some (Inr r) \<and> loop_result p st r"
proof (induction "remaining p (pos st)" arbitrary: st rule: less_induct)
  case less
  let ?cur = "heads p (fst st)"
  have next_round: "\<exists>r. simulate_loop p st' = Some (Inr r) \<and> loop_result p st r"
    if "consistent p st'" "(exec_step p)\<^sup>+\<^sup>+ (pos st) (pos st')" for st'
    using less.hyps [of st'] exec_run_remaining [OF p that(2)] that loop_result_step tranclp_into_rtranclp [OF that(2)] by blast
  show ?case
  proof (cases "?cur = []")
    case True
    then have "\<not> head_of p (pos st) k s" for k s using heads_iff [OF p, of k s st] by simp
    moreover have "ids \<noteq> []" if "(t, ids) \<in> set (transfer_steps p)" for t ids using that p by (auto simp: sound_program_def)
    ultimately have "\<not> exec_step p (pos st) g" for g
      using True by (intro stuck_without_progress [OF p less.prems]) (auto simp: transfer_ready_def)
    from loop_result_end [OF p less.prems this] True show ?thesis by (simp add: simulate_loop.simps [of p st])
  next
    case cur: False
    obtain st1 b1 where lp: "local_pass ?cur (st, False) = (st1, b1)" by fastforce
    note l = heads_local_pass [OF p less.prems lp]
    show ?thesis
    proof (cases b1)
      case True
      with next_round [of st1] l cur lp show ?thesis by (simp add: simulate_loop.simps [of p st])
    next
      case False
      obtain st2 b2 where tp: "transfer_pass p ?cur st = Inr (st2, b2)" "consistent p st2" "b2 \<Longrightarrow> (exec_step p)\<^sup>+\<^sup>+ (pos st) (pos st2)"
        "\<not> b2 \<Longrightarrow> st2 = st"
        "\<And>t ids. \<not> b2 \<Longrightarrow> (t, ids) \<in> set (transfer_steps p) \<Longrightarrow> \<not> transfer_ready p ?cur (snd st) ids"
        by (rule heads_transfer_pass [OF p less.prems]) blast
      have run: "simulate_loop p st = (if b2 then simulate_loop p st2 else Some (Inr (blocked_result ?cur (snd st2))))"
        using False cur lp l(4) tp(1) by (simp add: simulate_loop.simps [of p st])
      show ?thesis
      proof (cases b2)
        case True
        with next_round [of st2] tp(2,3) run show ?thesis by simp
      next
        case b2: False
        have "\<not> exec_step p (pos st) g" for g
          by (rule stuck_without_progress [OF p less.prems]) (use l(5) False tp(5) b2 in blast)+
        from loop_result_end [OF p less.prems this] cur b2 tp(4) run show ?thesis by (simp add: blocked_result_def)
      qed
    qed
  qed
qed

section \<open>The verdict\<close>

text \<open>
  The constructor establishes the first four conditions of \<open>sound_program\<close>; that a step belongs to
  one transfer only, and a local step to none, is what lowering guarantees (every transfer has its
  own send and receive endpoint).
\<close>

definition transfers_own_steps :: "threadblock_program \<Rightarrow> bool" where
  "transfers_own_steps p \<longleftrightarrow> distinct (concat (map snd (transfer_steps p)))
     \<and> (\<forall>s\<in>set (all_steps p). is_local s \<longrightarrow> step_id s \<notin> set (concat (map snd (transfer_steps p))))"

lemma accepted_sound:
  assumes "threadblock_program_post_init q = Inr p" "transfers_own_steps p"
  shows "sound_program p"
proof -
  have acc: "length (actual_steps q) = sum_list (map (length \<circ> tb_steps) (threadblocks q))" "distinct (map block_key (threadblocks q))"
    and tr: "\<not> (\<exists>(_, ids)\<in>set (transfer_steps q). length ids \<noteq> 2 \<or> \<not> set ids \<subseteq> set (dict_keys (actual_steps q)))"
    and p: "p = q\<lparr>steps_by_id := actual_steps q\<rparr>"
    using assms(1) by (auto simp: threadblock_program_post_init_def res_simps simp del: not_ex)
  note steps = actual_steps_unique [OF acc(1)]
  have all: "all_steps p = all_steps q" by (simp add: p all_steps_def)
  have "set (dict_keys (actual_steps q)) = step_id ` set (all_steps q)" by (simp add: steps(2) image_comp comp_def)
  with tr have "\<forall>(t, ids)\<in>set (transfer_steps p). length ids = 2 \<and> set ids \<subseteq> step_id ` set (all_steps p)"
    unfolding all by (fastforce simp: p)
  with assms(2) acc(2) steps all show ?thesis by (simp add: sound_program_def transfers_own_steps_def p)
qed

definition reachable_config :: "threadblock_program \<Rightarrow> config \<Rightarrow> bool" where
  "reachable_config p f \<longleftrightarrow> (exec_step p)\<^sup>*\<^sup>* (\<lambda>_. 0) f"

definition stuck :: "threadblock_program \<Rightarrow> config \<Rightarrow> bool" where
  "stuck p f \<longleftrightarrow> (\<forall>g. \<not> exec_step p f g)"

lemma complete_stuck:
  assumes p: "sound_program p" and c: "complete p f"
  shows "stuck p f"
  unfolding stuck_def
proof (intro allI notI)
  fix g assume "exec_step p f g"
  moreover have "remaining p f = 0" using c unfolding remaining_def complete_def sum_list_eq_0_iff by auto
  ultimately show False using exec_step_remaining [OF p, of f g] by simp
qed

lemma end_of_run:
  assumes p: "sound_program p" and f: "reachable_config p f" and n: "reachable_config p n" "stuck p n"
  shows "(exec_step p)\<^sup>*\<^sup>* f n" "stuck p f \<Longrightarrow> f = n"
proof -
  have eq: "guarded_step p = exec_step p" using p by (simp add: guarded_step_def fun_eq_iff)
  show "(exec_step p)\<^sup>*\<^sup>* f n"
    using lanes.ends_together [of p "\<lambda>_. 0" f n] f n unfolding eq reachable_config_def stuck_def by blast
  show "stuck p f \<Longrightarrow> f = n"
    using lanes.unique_end [of p "\<lambda>_. 0" f n] f n unfolding eq reachable_config_def stuck_def by blast
qed

lemma simulation_end:
  assumes p: "sound_program p"
  obtains r f where "simulate_endpoint_execution p = Some (Inr r)" "reachable_config p f" "stuck p f"
    "completed_step_ids r = done_ids p f" "deadlocked r \<longleftrightarrow> \<not> complete p f"
    "\<And>k i. (k, i) \<in> set (tb_heads r) \<longleftrightarrow> (\<exists>s. head_of p f k s \<and> step_id s = i)"
proof -
  let ?st = "(map (\<lambda>(k, _). (k, 0)) (lane_blocks p), {}) :: sim_state"
  have "map_of (map (\<lambda>(k, _). (k, 0)) d) k = map_option (\<lambda>_. 0 :: nat) (map_of d k)" for d :: "(lane, threadblock) dict" and k
    by (induction d) auto
  then have z: "pos ?st = (\<lambda>_. 0)" by (auto simp: pos_def dict_get_def split: option.splits)
  then have "consistent p ?st" by (simp add: consistent_def done_ids_def bounded_def)
  from simulate_loop_returns [OF p this] obtain r where r: "simulate_endpoint_execution p = Some (Inr r)" "loop_result p ?st r"
    by (auto simp: simulate_endpoint_execution_def)
  then show ?thesis using that unfolding loop_result_def z reachable_config_def [symmetric] stuck_def [symmetric] by blast
qed

text \<open>
  C10: the deadlock check is exact.  For every program its constructor accepts and whose transfers own
  their steps, the simulation returns; it reports no deadlock exactly when some order of executing the
  threadblocks completes all steps, and then every partial execution can be continued to completion;
  every execution that cannot be continued has completed exactly the steps the result names, and
  the reported heads are the steps the unfinished threadblocks wait at.
\<close>

theorem deadlock_exact:
  assumes "threadblock_program_post_init q = Inr p" and "transfers_own_steps p"
  shows "\<exists>r. simulate_endpoint_execution p = Some (Inr r)
    \<and> (\<not> deadlocked r \<longleftrightarrow> (\<exists>f. reachable_config p f \<and> complete p f))
    \<and> (\<not> deadlocked r \<longrightarrow> (\<forall>f. reachable_config p f \<longrightarrow> (\<exists>g. (exec_step p)\<^sup>*\<^sup>* f g \<and> complete p g)))
    \<and> (\<forall>f. reachable_config p f \<longrightarrow> (\<exists>g. (exec_step p)\<^sup>*\<^sup>* f g \<and> stuck p g))
    \<and> (\<forall>f. reachable_config p f \<and> stuck p f \<longrightarrow> completed_step_ids r = done_ids p f
        \<and> (\<forall>k i. (k, i) \<in> set (tb_heads r) \<longleftrightarrow> (\<exists>s. head_of p f k s \<and> step_id s = i)))"
proof -
  have p: "sound_program p" by (rule accepted_sound [OF assms])
  obtain r f where r: "simulate_endpoint_execution p = Some (Inr r)" "reachable_config p f" "stuck p f"
    "completed_step_ids r = done_ids p f" "deadlocked r \<longleftrightarrow> \<not> complete p f"
    "\<And>k i. (k, i) \<in> set (tb_heads r) \<longleftrightarrow> (\<exists>s. head_of p f k s \<and> step_id s = i)"
    using simulation_end [OF p] by metis
  have ends: "(exec_step p)\<^sup>*\<^sup>* g f" "stuck p g \<Longrightarrow> g = f" if "reachable_config p g" for g
    using end_of_run [OF p that r(2,3)] .
  have "\<not> deadlocked r \<longleftrightarrow> (\<exists>g. reachable_config p g \<and> complete p g)"
    using r(2,5) ends(2) complete_stuck [OF p] by blast
  moreover have "\<forall>g. reachable_config p g \<and> stuck p g \<longrightarrow> completed_step_ids r = done_ids p g
      \<and> (\<forall>k i. (k, i) \<in> set (tb_heads r) \<longleftrightarrow> (\<exists>s. head_of p g k s \<and> step_id s = i))"
    using ends(2) r(4,6) by blast
  ultimately show ?thesis using r(1,3,5) ends(1) by blast
qed

definition example_step :: "string \<Rightarrow> string \<Rightarrow> endpoint_type \<Rightarrow> int \<Rightarrow> int \<Rightarrow> int \<Rightarrow> string option \<Rightarrow> bool \<Rightarrow> xml_step" where
  "example_step sid tid ty rnk peer chan dep flag = \<lparr>step_id = sid, node_id = sid, step_transfer_id = tid,
     step_endpoint_id = (if ty = NOP_TYPE then None else Some sid), step_type = ty, step_rank = rnk, step_peer = peer,
     step_channel = chan, step_src_ref = None, step_dst_ref = None, dependency_step_id = dep, has_dependence = flag,
     semantic_predecessor_node_ids = [], step_members = {}, solver_st_time = 0, solver_ed_time = 1,
     effective_st_time = 0, effective_ed_time = 1\<rparr>"

text \<open>GPU 0 sends to GPU 1, which answers once its copy of the received value is done.\<close>

definition ping_pong :: threadblock_program where
  "ping_pong =
    (let s0 = example_step ''s0'' ''t0'' SEND_TYPE 0 1 0 None False;
         r0 = example_step ''r0'' ''t0'' RECV_TYPE 1 0 0 None True;
         c1 = example_step ''c1'' ''t1'' COPY_TYPE 1 (-1) (-1) (Some ''r0'') True;
         s1 = example_step ''s1'' ''t2'' SEND_TYPE 1 0 0 (Some ''c1'') False;
         r1 = example_step ''r1'' ''t2'' RECV_REDUCE_COPY 0 1 0 None False
     in \<lparr>threadblocks = [
           \<lparr>tb_key = ThreadblockKey 0 ''send'' 1 0, tb_id = 0, tb_steps = [s0]\<rparr>,
           \<lparr>tb_key = ThreadblockKey 0 ''recv'' 1 0, tb_id = 1, tb_steps = [r1]\<rparr>,
           \<lparr>tb_key = ThreadblockKey 1 ''recv'' 0 0, tb_id = 0, tb_steps = [r0]\<rparr>,
           \<lparr>tb_key = ThreadblockKey 1 ''copy'' (-1) (-1), tb_id = 1, tb_steps = [c1]\<rparr>,
           \<lparr>tb_key = ThreadblockKey 1 ''send'' 0 0, tb_id = 2, tb_steps = [s1]\<rparr>],
         steps_by_id = [(''s0'', s0), (''r1'', r1), (''r0'', r0), (''c1'', c1), (''s1'', s1)],
         transfer_steps = [(''t2'', [''s1'', ''r1'']), (''t0'', [''s0'', ''r0''])],
         node_steps = [(''t0'', [''s0''])],
         referenced_step_ids = {''r0'', ''c1''},
         inversion_count = 0\<rparr>)"

theorem deadlock_exact_witness:
  "threadblock_program_post_init ping_pong = Inr ping_pong \<and> transfers_own_steps ping_pong
   \<and> (\<exists>r. simulate_endpoint_execution ping_pong = Some (Inr r) \<and> \<not> deadlocked r
        \<and> completed_step_ids r = {''s0'', ''r0'', ''c1'', ''s1'', ''r1''}
        \<and> (\<exists>f. reachable_config ping_pong f \<and> complete ping_pong f))"
proof -
  have acc: "threadblock_program_post_init ping_pong = Inr ping_pong" by code_simp
  have own: "transfers_own_steps ping_pong" by code_simp
  have run: "simulate_endpoint_execution ping_pong = Some (Inr \<lparr>deadlocked = False,
      completed_step_ids = {''s0'', ''r0'', ''c1'', ''s1'', ''r1''}, blocked_transfer_ids = {}, tb_heads = []\<rparr>)"
    by code_simp
  from deadlock_exact [OF acc own] run acc own show ?thesis by auto
qed

end
