(* ===== verification/Topo_Order.thy ===== *)
theory Topo_Order
  imports Prelude
begin

text \<open>
  The topological orders of \<^verbatim>\<open>src/vericcl/xml/v5_buffers.py\<close> (\<^verbatim>\<open>_fixed_priority_order\<close>, a heap)
  and \<^verbatim>\<open>src/vericcl/xml/v5_program.py\<close> (\<^verbatim>\<open>_dependency_order\<close>, a queue, and the ancestor
  bit masks computed from it).  Both run the same loop over a different worklist: the loop is
  one definition, and its correctness is proved once from the worklist contract.

  A set of dependencies is visited in increasing order; the order only decides in which sequence
  distinct keys are appended to distinct successor lists, so the result does not depend on it.
  \<^verbatim>\<open>lease.check()\<close> is the call of a budget that has not run out: it has no effect.
\<close>

unbundle bit_operations_syntax

section \<open>The loop\<close>

definition release_follower :: "('k \<Rightarrow> 'w \<Rightarrow> 'w) \<Rightarrow> ('k, int) dict \<times> 'w \<Rightarrow> 'k \<Rightarrow> (('k, int) dict \<times> 'w) res" where
  "release_follower push acc follower =
     (case acc of (remaining, ready) \<Rightarrow>
       case map_of remaining follower of
         None \<Rightarrow> Inl (KeyError ''follower'')
       | Some n \<Rightarrow> Inr (AList.update follower (n - 1) remaining, if n - 1 = 0 then push follower ready else ready))"

partial_function (option) order_loop :: "('w \<Rightarrow> ('k \<times> 'w) option) \<Rightarrow> ('k \<Rightarrow> 'w \<Rightarrow> 'w) \<Rightarrow> ('k, 'k list) dict
    \<Rightarrow> ('k, int) dict \<Rightarrow> 'w \<Rightarrow> 'k list \<Rightarrow> 'k list res option" where
  "order_loop pop push successors remaining ready ordered =
     (case pop ready of
        None \<Rightarrow> Some (Inr ordered)
      | Some (key, ready1) \<Rightarrow>
          (case for_each (release_follower push) (remaining, ready1) (dict_get successors key []) of
             Inl e \<Rightarrow> Some (Inl e)
           | Inr (remaining2, ready2) \<Rightarrow> order_loop pop push successors remaining2 ready2 (ordered @ [key])))"

declare order_loop.simps [code]

definition link_successor :: "'k set \<Rightarrow> string \<Rightarrow> 'k \<Rightarrow> ('k, 'k list) dict \<Rightarrow> 'k \<Rightarrow> ('k, 'k list) dict res" where
  "link_successor known msg key successors d =
     ensure (d \<in> known) (SemanticError msg) (Inr (AList.update d (dict_get successors d [] @ [key]) successors))"

definition link_successors :: "'k::linorder set \<Rightarrow> string \<Rightarrow> ('k, 'k list) dict \<Rightarrow> ('k, 'k set) dict \<Rightarrow> ('k, 'k list) dict res" where
  "link_successors known msg start precedence =
     for_each (\<lambda>successors (key, dependencies). for_each (link_successor known msg key) successors (sorted_list_of_set dependencies))
       start precedence"

section \<open>The heap order\<close>

text \<open>
  \<^verbatim>\<open>heapq\<close>: \<^verbatim>\<open>heappop\<close> removes the least entry.  The heap is kept as the increasing list of its
  entries, a pair of the priority and the key.
\<close>

fun heap_pop :: "('p \<times> 'k) list \<Rightarrow> ('k \<times> ('p \<times> 'k) list) option" where
  "heap_pop [] = None"
| "heap_pop (e # h) = Some (snd e, h)"

definition heap_push :: "('k \<Rightarrow> 'p) \<Rightarrow> 'k \<Rightarrow> ('p::linorder \<times> 'k::linorder) list \<Rightarrow> ('p \<times> 'k) list" where
  "heap_push prio k h = insort (prio k, k) h"

definition dependency_count :: "('k, 'k set) dict \<Rightarrow> 'k \<Rightarrow> ('k \<times> int) res" where
  "dependency_count precedence key =
     (case map_of precedence key of None \<Rightarrow> Inl (KeyError ''precedence'') | Some ds \<Rightarrow> Inr (key, int (card ds)))"

definition fixed_priority_order ::
    "('k::linorder, 'a) dict \<Rightarrow> ('k, 'k set) dict \<Rightarrow> ('a \<Rightarrow> 'p::linorder) \<Rightarrow> string \<Rightarrow> 'a list res option" where
  "fixed_priority_order by_id precedence priority cycle_message =
     (let item = (\<lambda>k. the (map_of by_id k)); prio = (\<lambda>k. priority (item k)) in
      case bnd (map_res (dependency_count precedence) (dict_keys by_id)) (\<lambda>remaining.
           bnd (link_successors (set (dict_keys by_id)) cycle_message [] precedence) (\<lambda>successors.
           Inr (remaining, successors))) of
        Inl e \<Rightarrow> Some (Inl e)
      | Inr (remaining, successors) \<Rightarrow>
          map_option (\<lambda>r. bnd r (\<lambda>ordered.
              ensure (length ordered = length by_id) (SemanticError cycle_message) (Inr (map item ordered))))
            (order_loop heap_pop (heap_push prio) successors remaining
               (sort (map (\<lambda>(k, _). (prio k, k)) (filter (\<lambda>(_, n). n = 0) remaining))) []))"

section \<open>The queue order\<close>

fun deque_pop :: "'k list \<Rightarrow> ('k \<times> 'k list) option" where
  "deque_pop [] = None"
| "deque_pop (k # q) = Some (k, q)"

definition deque_append :: "'k \<Rightarrow> 'k list \<Rightarrow> 'k list" where
  "deque_append k q = q @ [k]"

definition dependency_order :: "('k::linorder, 'k set) dict \<Rightarrow> 'k list res option" where
  "dependency_order dependencies =
     (let degrees = map (\<lambda>(k, ds). (k, int (card ds))) dependencies in
      case link_successors (set (dict_keys dependencies)) ''native dependency names an unknown operation''
             (map (\<lambda>(k, _). (k, [])) dependencies) dependencies of
        Inl e \<Rightarrow> Some (Inl e)
      | Inr successors \<Rightarrow>
          map_option (\<lambda>r. bnd r (\<lambda>order.
              ensure (length order = length degrees) (SemanticError ''native endpoint/TB dependency graph is deadlocked'') (Inr order)))
            (order_loop deque_pop deque_append successors degrees (map fst (filter (\<lambda>(_, n). n = 0) degrees)) []))"

text \<open>
  \<^verbatim>\<open>_dependency_ancestors\<close>: one bit per vertex, by its place in the order.  Python's unbounded
  integers are \<open>int\<close>.
\<close>

definition dict_item :: "('k, 'v) dict \<Rightarrow> 'k \<Rightarrow> 'v res" where
  "dict_item d k = (case map_of d k of None \<Rightarrow> Inl (KeyError ''key'') | Some v \<Rightarrow> Inr v)"

definition add_predecessor :: "('k, int) dict \<Rightarrow> ('k, int) dict \<Rightarrow> int \<Rightarrow> 'k \<Rightarrow> int res" where
  "add_predecessor bits ancestors seen predecessor =
     bnd (dict_item bits predecessor) (\<lambda>b. bnd (dict_item ancestors predecessor) (\<lambda>a. Inr (seen OR (b OR a))))"

definition add_ancestors :: "('k::linorder, 'k set) dict \<Rightarrow> ('k, int) dict \<Rightarrow> ('k, int) dict \<Rightarrow> 'k \<Rightarrow> ('k, int) dict res" where
  "add_ancestors dependencies bits ancestors key =
     bnd (dict_item dependencies key) (\<lambda>ds.
     bnd (for_each (add_predecessor bits ancestors) 0 (sorted_list_of_set ds)) (\<lambda>seen.
     Inr (AList.update key seen ancestors)))"

definition order_bits :: "'k list \<Rightarrow> ('k, int) dict" where
  "order_bits order = dict_of (map (\<lambda>(i, key). (key, push_bit i 1)) (enumerate 0 order))"

definition dependency_ancestors :: "('k::linorder, 'k set) dict \<Rightarrow> (('k, int) dict \<times> ('k, int) dict) res option" where
  "dependency_ancestors dependencies =
     map_option (\<lambda>r. bnd r (\<lambda>order.
       bnd (for_each (add_ancestors dependencies (order_bits order)) [] order) (\<lambda>ancestors.
       Inr (ancestors, order_bits order)))) (dependency_order dependencies)"

section \<open>Worklists\<close>

locale worklist =
  fixes pop :: "'w \<Rightarrow> ('k \<times> 'w) option"
    and push :: "'k \<Rightarrow> 'w \<Rightarrow> 'w"
    and ok :: "'w \<Rightarrow> bool"
    and bag :: "'w \<Rightarrow> 'k multiset"
  assumes pop_None: "ok w \<Longrightarrow> pop w = None \<longleftrightarrow> bag w = {#}"
    and pop_Some: "ok w \<Longrightarrow> pop w = Some (k, w') \<Longrightarrow> bag w = add_mset k (bag w') \<and> ok w'"
    and push: "ok w \<Longrightarrow> bag (push k w) = add_mset k (bag w) \<and> ok (push k w)"

text \<open>What the successor lists and the counters hold when the keys in \<open>done\<close> have been emitted.\<close>

definition ready_keys :: "'k list \<Rightarrow> ('k \<Rightarrow> 'k set) \<Rightarrow> 'k set \<Rightarrow> 'k set" where
  "ready_keys K D emitted = {k \<in> set K. k \<notin> emitted \<and> D k \<subseteq> emitted}"

definition topological :: "('k \<Rightarrow> 'k set) \<Rightarrow> 'k list \<Rightarrow> bool" where
  "topological D order \<longleftrightarrow> distinct order \<and> (\<forall>xs k ys. order = xs @ k # ys \<longrightarrow> D k \<subseteq> set xs)"

lemma topological_Nil [simp]: "topological D []"
  by (simp add: topological_def)

lemma topological_snoc:
  "topological D (order @ [k]) \<longleftrightarrow> topological D order \<and> k \<notin> set order \<and> D k \<subseteq> set order"
proof
  assume t: "topological D (order @ [k])"
  have "D j \<subseteq> set xs" if "order = xs @ j # ys" for xs j ys
    using t that unfolding topological_def by (metis append.assoc append_Cons)
  with t show "topological D order \<and> k \<notin> set order \<and> D k \<subseteq> set order" by (auto simp: topological_def)
next
  assume t: "topological D order \<and> k \<notin> set order \<and> D k \<subseteq> set order"
  have "D j \<subseteq> set xs" if e: "order @ [k] = xs @ j # ys" for xs j ys
  proof (cases ys rule: rev_cases)
    case Nil
    with e t show ?thesis by simp
  next
    case (snoc zs z)
    with e have "order = xs @ j # zs" by simp
    with t show ?thesis unfolding topological_def by blast
  qed
  with t show "topological D (order @ [k])" by (simp add: topological_def)
qed

definition loop_graph :: "'k list \<Rightarrow> ('k \<Rightarrow> 'k set) \<Rightarrow> ('k, 'k list) dict \<Rightarrow> bool" where
  "loop_graph K D successors \<longleftrightarrow> distinct K \<and> (\<forall>k\<in>set K. finite (D k) \<and> D k \<subseteq> set K)
     \<and> (\<forall>d. dict_get successors d [] = filter (\<lambda>k. d \<in> D k) K)"

lemma emitted_count:
  assumes g: "loop_graph K D successors" and f: "f \<in> set K" and key: "key \<notin> set ordered"
  shows "card (D f - set (ordered @ [key])) = (if key \<in> D f then card (D f - set ordered) - 1 else card (D f - set ordered))"
    and "key \<in> D f \<Longrightarrow> 0 < card (D f - set ordered)"
    and "key \<in> D f \<Longrightarrow> card (D f - set ordered) = 1 \<longleftrightarrow> D f \<subseteq> insert key (set ordered)"
proof -
  have fin: "finite (D f)" using g f by (simp add: loop_graph_def)
  have "D f - set (ordered @ [key]) = (D f - set ordered) - {key}" by auto
  then show card: "card (D f - set (ordered @ [key])) = (if key \<in> D f then card (D f - set ordered) - 1 else card (D f - set ordered))"
    using key by (simp add: card_Diff_singleton_if)
  show pos: "0 < card (D f - set ordered)" if "key \<in> D f" using that key fin by (auto simp: card_gt_0_iff)
  have "card (D f - set (ordered @ [key])) = 0 \<longleftrightarrow> D f \<subseteq> insert key (set ordered)" using fin by auto
  with card pos show "key \<in> D f \<Longrightarrow> card (D f - set ordered) = 1 \<longleftrightarrow> D f \<subseteq> insert key (set ordered)" by auto
qed

lemma ready_keys_snoc:
  assumes g: "loop_graph K D successors" and t: "topological D ordered" and key: "key \<in> ready_keys K D (set ordered)"
  shows "ready_keys K D (set (ordered @ [key])) = (ready_keys K D (set ordered) - {key})
    \<union> set (filter (\<lambda>f. int (card (D f - set ordered)) = 1) (filter (\<lambda>k. key \<in> D k) K))" (is "?N = (?R - {key}) \<union> ?S")
proof (intro set_eqI iffI)
  have kn: "key \<notin> set ordered" "D key \<subseteq> set ordered" using key by (auto simp: ready_keys_def)
  note one = emitted_count(3) [OF g _ kn(1)]
  fix f
  {
    assume f: "f \<in> ?N"
    then have "f \<in> set K" "f \<notin> insert key (set ordered)" "D f \<subseteq> insert key (set ordered)" by (auto simp: ready_keys_def)
    then show "f \<in> (?R - {key}) \<union> ?S" using one [of f] by (cases "key \<in> D f") (auto simp: ready_keys_def)
  next
    assume "f \<in> (?R - {key}) \<union> ?S"
    then show "f \<in> ?N"
    proof
      assume s: "f \<in> ?S"
      then have f: "f \<in> set K" "key \<in> D f" "D f \<subseteq> insert key (set ordered)" using one [of f] by auto
      have "f \<noteq> key" using f(2) kn by auto
      moreover have "f \<notin> set ordered"
      proof
        assume "f \<in> set ordered"
        then obtain xs ys where "ordered = xs @ f # ys" by (meson split_list)
        with t have "D f \<subseteq> set xs" "set xs \<subseteq> set ordered" by (auto simp: topological_def)
        with f(2) kn(1) show False by blast
      qed
      ultimately show ?thesis using f by (auto simp: ready_keys_def)
    qed (auto simp: ready_keys_def)
  }
qed

context worklist
begin

lemma release_followers:
  assumes "distinct fs" "ok w" "\<And>f. f \<in> set fs \<Longrightarrow> map_of remaining f = Some (n f)"
  shows "\<exists>w' remaining'. for_each (release_follower push) (remaining, w) fs = Inr (remaining', w') \<and> ok w'
    \<and> bag w' = bag w + mset (filter (\<lambda>f. n f = 1) fs)
    \<and> (\<forall>k. map_of remaining' k = (if k \<in> set fs then Some (n k - 1) else map_of remaining k))"
  using assms
proof (induction fs arbitrary: w remaining)
  case (Cons f fs)
  let ?w = "if n f - 1 = 0 then push f w else w" and ?r = "AList.update f (n f - 1) remaining"
  have w: "ok ?w" "bag ?w = bag w + (if n f = 1 then {#f#} else {#})" using push [OF Cons.prems(2), of f] Cons.prems(2) by auto
  have head: "release_follower push (remaining, w) f = Inr (?r, ?w)" using Cons.prems(3) [of f] by (simp add: release_follower_def)
  have "map_of ?r g = Some (n g)" if "g \<in> set fs" for g using Cons.prems(1,3) that by auto
  from Cons.IH [OF _ w(1) this] Cons.prems(1) obtain w' r' where
    tail: "for_each (release_follower push) (?r, ?w) fs = Inr (r', w')" "ok w'" "bag w' = bag ?w + mset (filter (\<lambda>f. n f = 1) fs)"
    "\<forall>k. map_of r' k = (if k \<in> set fs then Some (n k - 1) else map_of ?r k)" by fastforce
  have "bag w' = bag w + mset (filter (\<lambda>f. n f = 1) (f # fs))" using tail(3) w(2) by simp
  moreover have "\<forall>k. map_of r' k = (if k \<in> set (f # fs) then Some (n k - 1) else map_of remaining k)"
    using tail(4) Cons.prems(1) by simp
  ultimately show ?case using tail(1,2) head by (intro exI [of _ w'] exI [of _ r']) simp
qed simp

definition loop_inv :: "'k list \<Rightarrow> ('k \<Rightarrow> 'k set) \<Rightarrow> ('k, int) dict \<Rightarrow> 'w \<Rightarrow> 'k list \<Rightarrow> bool" where
  "loop_inv K D remaining ready ordered \<longleftrightarrow> ok ready \<and> set ordered \<subseteq> set K \<and> topological D ordered
     \<and> bag ready = mset_set (ready_keys K D (set ordered))
     \<and> (\<forall>k\<in>set K. map_of remaining k = Some (int (card (D k - set ordered))))"

lemma loop_inv_step:
  assumes g: "loop_graph K D successors" and inv: "loop_inv K D remaining ready ordered" and pop: "pop ready = Some (key, ready1)"
  shows "\<exists>remaining2 ready2. for_each (release_follower push) (remaining, ready1) (dict_get successors key []) = Inr (remaining2, ready2)
    \<and> loop_inv K D remaining2 ready2 (ordered @ [key])" "key \<in> ready_keys K D (set ordered)"
proof -
  let ?R = "ready_keys K D (set ordered)" and ?fs = "filter (\<lambda>k. key \<in> D k) K"
  note i = inv [unfolded loop_inv_def]
  have fin: "finite ?R" by (simp add: ready_keys_def)
  have b: "bag ready = add_mset key (bag ready1)" "ok ready1" using pop_Some [OF _ pop] i by auto
  have "key \<in># mset_set ?R" using b(1) i by (metis union_single_eq_member)
  then show key: "key \<in> ?R" using fin by simp
  have fs: "distinct ?fs" "dict_get successors key [] = ?fs" using g by (auto simp: loop_graph_def)
  have cnt: "map_of remaining f = Some (int (card (D f - set ordered)))" if "f \<in> set ?fs" for f using i that by auto
  obtain w r where run: "for_each (release_follower push) (remaining, ready1) ?fs = Inr (r, w)" "ok w"
    "bag w = bag ready1 + mset (filter (\<lambda>f. int (card (D f - set ordered)) = 1) ?fs)"
    "\<forall>k. map_of r k = (if k \<in> set ?fs then Some (int (card (D k - set ordered)) - 1) else map_of remaining k)"
    using release_followers [OF fs(1) b(2) cnt] by blast
  have kn: "key \<in> set K" "key \<notin> set ordered" "D key \<subseteq> set ordered" using key by (auto simp: ready_keys_def)
  note count = emitted_count [OF g _ kn(2)]
  let ?S = "set (filter (\<lambda>f. int (card (D f - set ordered)) = 1) ?fs)"
  have set_new: "ready_keys K D (set (ordered @ [key])) = (?R - {key}) \<union> ?S"
    using i by (intro ready_keys_snoc [OF g _ key]) simp
  have dis: "(?R - {key}) \<inter> ?S = {}" using kn(2) by (auto simp: ready_keys_def)
  have "bag ready1 = mset_set (?R - {key})"
    using b(1) i mset_set.remove [OF fin key] by simp
  moreover have "mset (filter (\<lambda>f. int (card (D f - set ordered)) = 1) ?fs) = mset_set ?S"
    using g by (intro mset_set_set [symmetric]) (simp add: loop_graph_def)
  ultimately have bag: "bag w = mset_set (ready_keys K D (set (ordered @ [key])))" using run(3) fin dis unfolding set_new by (simp add: mset_set_Union)
  have "map_of r k = Some (int (card (D k - set (ordered @ [key]))))" if "k \<in> set K" for k
    using run(4) i that count(1,2) [OF that] by auto
  with bag run(2) i kn have "loop_inv K D r w (ordered @ [key])"
    unfolding loop_inv_def by (simp add: topological_snoc)
  with run(1) fs(2) show "\<exists>remaining2 ready2. for_each (release_follower push) (remaining, ready1) (dict_get successors key []) = Inr (remaining2, ready2)
    \<and> loop_inv K D remaining2 ready2 (ordered @ [key])" by auto
qed

end

definition picked :: "('w \<Rightarrow> ('k \<times> 'w) option) \<Rightarrow> ('w \<Rightarrow> bool) \<Rightarrow> ('w \<Rightarrow> 'k multiset) \<Rightarrow> 'k set \<Rightarrow> 'k \<Rightarrow> bool" where
  "picked pop ok bag S k \<longleftrightarrow> (\<exists>w w'. ok w \<and> bag w = mset_set S \<and> pop w = Some (k, w'))"

context worklist
begin

lemma loop_returns:
  assumes g: "loop_graph K D successors"
  shows "loop_inv K D remaining ready ordered
    \<Longrightarrow> (\<And>xs k ys. ordered = xs @ k # ys \<Longrightarrow> picked pop ok bag (ready_keys K D (set xs)) k)
    \<Longrightarrow> \<exists>order. order_loop pop push successors remaining ready ordered = Some (Inr order) \<and> set order \<subseteq> set K
      \<and> topological D order \<and> ready_keys K D (set order) = {}
      \<and> (\<forall>xs k ys. order = xs @ k # ys \<longrightarrow> picked pop ok bag (ready_keys K D (set xs)) k)"
proof (induction "length K - length ordered" arbitrary: remaining ready ordered rule: less_induct)
  case less
  note inv = less.prems(1) [unfolded loop_inv_def]
  have fin: "finite (ready_keys K D (set ordered))" by (simp add: ready_keys_def)
  show ?case
  proof (cases "pop ready")
    case None
    then have "ready_keys K D (set ordered) = {}"
      using pop_None inv fin by (metis mset_set_empty_iff)
    with None inv less.prems(2) show ?thesis
      by (intro exI [of _ ordered]) (simp add: order_loop.simps [of pop push successors remaining ready ordered])
  next
    case (Some p)
    obtain key ready1 where p: "p = (key, ready1)" by (cases p)
    note st = loop_inv_step [OF g less.prems(1) Some [unfolded p]]
    from st(1) obtain r w where run: "for_each (release_follower push) (remaining, ready1) (dict_get successors key []) = Inr (r, w)"
      and inv': "loop_inv K D r w (ordered @ [key])" by blast
    have "distinct (ordered @ [key])" "set (ordered @ [key]) \<subseteq> set K"
      using inv st(2) by (auto simp: topological_def ready_keys_def)
    from card_mono [OF _ this(2)] distinct_card [OF this(1)] g have "length (ordered @ [key]) \<le> length K"
      by (simp add: loop_graph_def distinct_card)
    then have dec: "length K - length (ordered @ [key]) < length K - length ordered" by simp
    have pick: "picked pop ok bag (ready_keys K D (set xs)) k" if e: "ordered @ [key] = xs @ k # ys" for xs k ys
    proof (cases ys rule: rev_cases)
      case Nil
      with e have "xs = ordered" "k = key" by auto
      with inv Some p show ?thesis unfolding picked_def by blast
    next
      case (snoc zs z)
      with e have "ordered = xs @ k # zs" by simp
      then show ?thesis by (rule less.prems(2))
    qed
    show ?thesis
      using less.hyps [OF dec inv' pick] Some p run
      by (simp add: order_loop.simps [of pop push successors remaining ready ordered])
  qed
qed

end

section \<open>A complete order exists exactly for acyclic dependencies\<close>

definition edges :: "'k list \<Rightarrow> ('k \<Rightarrow> 'k set) \<Rightarrow> ('k \<times> 'k) set" where
  "edges K D = {(d, k). k \<in> set K \<and> d \<in> D k}"

lemma finite_edges: "(\<And>k. k \<in> set K \<Longrightarrow> finite (D k)) \<Longrightarrow> finite (edges K D)"
proof -
  assume fin: "\<And>k. k \<in> set K \<Longrightarrow> finite (D k)"
  have "edges K D \<subseteq> (\<Union>k\<in>set K. D k \<times> {k})" by (auto simp: edges_def)
  moreover have "finite (\<Union>k\<in>set K. D k \<times> {k})" using fin by simp
  ultimately show ?thesis by (rule finite_subset)
qed

definition place :: "'k list \<Rightarrow> 'k \<Rightarrow> nat" where
  "place xs k = length (takeWhile (\<lambda>x. x \<noteq> k) xs)"

lemma place_split: "k \<notin> set xs \<Longrightarrow> place (xs @ k # ys) k = length xs"
  by (induction xs) (auto simp: place_def)

lemma place_less: "d \<in> set xs \<Longrightarrow> place (xs @ ys) d < length xs"
  by (induction xs) (auto simp: place_def)

lemma topological_place:
  assumes "topological D order" "k \<in> set order" "d \<in> D k"
  shows "d \<in> set order" "place order d < place order k"
proof -
  obtain xs ys where o: "order = xs @ k # ys" using assms(2) by (meson split_list)
  with assms have d: "d \<in> set xs" "k \<notin> set xs" by (auto simp: topological_def)
  then show "d \<in> set order" "place order d < place order k"
    using place_less [of d xs "k # ys"] place_split [of k xs ys] by (auto simp: o)
qed

lemma topological_acyclic:
  assumes "topological D order" "set order = set K"
  shows "acyclic (edges K D)"
proof -
  have "edges K D \<subseteq> measure (place order)"
    using topological_place(2) [OF assms(1)] assms(2) by (auto simp: edges_def)
  then show ?thesis by (meson wf_acyclic wf_measure wf_subset)
qed

lemma complete_iff_acyclic:
  assumes g: "loop_graph K D successors" and t: "topological D order" "set order \<subseteq> set K" and stop: "ready_keys K D (set order) = {}"
  shows "length order = length K \<longleftrightarrow> acyclic (edges K D)"
proof
  have card: "length order = card (set order)" "length K = card (set K)"
    using t(1) g by (auto simp: topological_def loop_graph_def distinct_card)
  {
    assume "length order = length K"
    with card t(2) have "set order = set K" by (intro card_subset_eq) auto
    then show "acyclic (edges K D)" by (rule topological_acyclic [OF t(1)])
  next
    assume "acyclic (edges K D)"
    then have wf: "wf (edges K D)" using g by (intro finite_acyclic_wf finite_edges) (auto simp: loop_graph_def)
    have "set K - set order = {}"
    proof (rule ccontr)
      assume "set K - set order \<noteq> {}"
      then obtain x where "x \<in> set K - set order" by blast
      from wfE_min [OF wf this] obtain m where m: "m \<in> set K - set order" "\<And>y. (y, m) \<in> edges K D \<Longrightarrow> y \<notin> set K - set order" by blast
      have "D m \<subseteq> set K" using g m(1) by (simp add: loop_graph_def)
      then have "m \<in> ready_keys K D (set order)" using m by (auto simp: ready_keys_def edges_def)
      with stop show False by simp
    qed
    with t(2) have "set order = set K" by blast
    with card show "length order = length K" by simp
  }
qed

section \<open>The two worklists\<close>

interpretation heap: worklist heap_pop "heap_push prio"
    "\<lambda>h. sorted h \<and> (\<forall>e\<in>set h. fst e = prio (snd e))" "\<lambda>h. image_mset snd (mset h)"
  for prio :: "'k::linorder \<Rightarrow> 'p::linorder"
proof unfold_locales
  fix w :: "('p \<times> 'k) list" and k w'
  show "heap_pop w = None \<longleftrightarrow> image_mset snd (mset w) = {#}" by (cases w) auto
  show "sorted w \<and> (\<forall>e\<in>set w. fst e = prio (snd e)) \<Longrightarrow> heap_pop w = Some (k, w')
    \<Longrightarrow> image_mset snd (mset w) = add_mset k (image_mset snd (mset w')) \<and> sorted w' \<and> (\<forall>e\<in>set w'. fst e = prio (snd e))"
    by (cases w) auto
  show "sorted w \<and> (\<forall>e\<in>set w. fst e = prio (snd e))
    \<Longrightarrow> image_mset snd (mset (heap_push prio k w)) = add_mset k (image_mset snd (mset w))
      \<and> sorted (heap_push prio k w) \<and> (\<forall>e\<in>set (heap_push prio k w). fst e = prio (snd e))"
    by (auto simp: heap_push_def set_insort_key sorted_insort)
qed

interpretation deque: worklist deque_pop deque_append "\<lambda>_. True" mset
proof unfold_locales
  fix w w' :: "'k list" and k
  show "deque_pop w = None \<longleftrightarrow> mset w = {#}" by (cases w) auto
  show "deque_pop w = Some (k, w') \<Longrightarrow> mset w = add_mset k (mset w') \<and> True" by (cases w) auto
  show "mset (deque_append k w) = add_mset k (mset w) \<and> True" by (simp add: deque_append_def)
qed

lemma heap_picks_least:
  assumes "picked heap_pop (\<lambda>h. sorted h \<and> (\<forall>e\<in>set h. fst e = prio (snd e))) (\<lambda>h. image_mset snd (mset h)) S k" "finite S" "j \<in> S"
  shows "(prio k, k) \<le> (prio j, j)"
proof -
  obtain w w' where w: "sorted w" "\<forall>e\<in>set w. fst e = prio (snd e)" "image_mset snd (mset w) = mset_set S" "heap_pop w = Some (k, w')"
    using assms(1) unfolding picked_def by blast
  then obtain e where e: "w = e # w'" "snd e = k" by (cases w) auto
  have "j \<in># image_mset snd (mset w)" using w(3) assms(2,3) by simp
  then obtain e' where e': "e' \<in> set w" "snd e' = j" by auto
  have "e \<le> e'" using w(1) e e'(1) by auto
  moreover have "e = (prio k, k)" "e' = (prio j, j)" using w(2) e e' by (auto intro: prod_eqI)
  ultimately show ?thesis by simp
qed

section \<open>Successor lists\<close>

definition finite_deps :: "('k, 'k set) dict \<Rightarrow> bool" where
  "finite_deps precedence \<longleftrightarrow> (\<forall>(k, ds)\<in>set precedence. finite ds)"

lemma finite_deps_Cons [simp]: "finite_deps ((k, ds) # precedence) \<longleftrightarrow> finite ds \<and> finite_deps precedence"
  by (simp add: finite_deps_def)

lemma link_entry:
  assumes "finite ds"
  shows "for_each (link_successor known msg key) successors (sorted_list_of_set ds) = Inr succ'
      \<longrightarrow> ds \<subseteq> known \<and> (\<forall>d. dict_get succ' d [] = dict_get successors d [] @ (if d \<in> ds then [key] else []))"
    and "ds \<subseteq> known \<Longrightarrow> is_ok (for_each (link_successor known msg key) successors (sorted_list_of_set ds))"
    and "for_each (link_successor known msg key) successors (sorted_list_of_set ds) = Inl e \<Longrightarrow> e = SemanticError msg"
proof -
  have run: "(for_each (link_successor known msg key) successors xs = Inr succ'
      \<longrightarrow> set xs \<subseteq> known \<and> (\<forall>d. dict_get succ' d [] = dict_get successors d [] @ (if d \<in> set xs then [key] else [])))
    \<and> (set xs \<subseteq> known \<longrightarrow> is_ok (for_each (link_successor known msg key) successors xs))
    \<and> (for_each (link_successor known msg key) successors xs = Inl e \<longrightarrow> e = SemanticError msg)" if "distinct xs" for xs successors succ'
    using that
  proof (induction xs arbitrary: successors)
    case (Cons x xs)
    let ?s = "AList.update x (dict_get successors x [] @ [key]) successors"
    have "distinct xs" "x \<notin> set xs" using Cons.prems by auto
    with Cons.IH [of ?s] show ?case
      by (cases "x \<in> known") (auto simp: link_successor_def)
  qed simp
  from assms run [of "sorted_list_of_set ds"]
  show "for_each (link_successor known msg key) successors (sorted_list_of_set ds) = Inr succ'
      \<longrightarrow> ds \<subseteq> known \<and> (\<forall>d. dict_get succ' d [] = dict_get successors d [] @ (if d \<in> ds then [key] else []))"
    and "ds \<subseteq> known \<Longrightarrow> is_ok (for_each (link_successor known msg key) successors (sorted_list_of_set ds))"
    and "for_each (link_successor known msg key) successors (sorted_list_of_set ds) = Inl e \<Longrightarrow> e = SemanticError msg"
    by auto
qed

lemma link_successors_Inr:
  assumes "finite_deps precedence" "link_successors known msg start precedence = Inr successors"
  shows "(\<forall>(k, ds)\<in>set precedence. ds \<subseteq> known)
    \<and> (\<forall>d. dict_get successors d [] = dict_get start d [] @ map fst (filter (\<lambda>(k, ds). d \<in> ds) precedence))"
  using assms unfolding link_successors_def
proof (induction precedence arbitrary: start)
  case (Cons p precedence)
  obtain k ds where p: "p = (k, ds)" by (cases p)
  obtain s where s: "for_each (link_successor known msg k) start (sorted_list_of_set ds) = Inr s"
    "for_each (\<lambda>successors (key, dependencies). for_each (link_successor known msg key) successors (sorted_list_of_set dependencies))
       s precedence = Inr successors"
    using Cons.prems(2) by (auto simp: p res_simps)
  have fin: "finite ds" "finite_deps precedence" using Cons.prems(1) by (simp_all add: p)
  note head = link_entry(1) [OF fin(1), of known msg k start s, rule_format, OF s(1)]
  from Cons.IH [OF fin(2) s(2)] head show ?case by (auto simp: p)
qed simp

lemma link_successors_ok:
  assumes "finite_deps precedence"
  shows "is_ok (link_successors known msg start precedence) \<longleftrightarrow> (\<forall>(k, ds)\<in>set precedence. ds \<subseteq> known)"
    and "link_successors known msg start precedence = Inl e \<Longrightarrow> e = SemanticError msg"
proof -
  have "((\<forall>(k, ds)\<in>set precedence. ds \<subseteq> known) \<longrightarrow> is_ok (link_successors known msg start precedence))
    \<and> (link_successors known msg start precedence = Inl e \<longrightarrow> e = SemanticError msg)"
    unfolding link_successors_def using assms
  proof (induction precedence arbitrary: start)
    case (Cons p precedence)
    obtain k ds where p: "p = (k, ds)" by (cases p)
    have fin: "finite ds" and fins: "finite_deps precedence" using Cons.prems by (simp_all add: p)
    have ih: "((\<forall>(k, ds)\<in>set precedence. ds \<subseteq> known) \<longrightarrow> is_ok (for_each (\<lambda>successors (key, dependencies).
          for_each (link_successor known msg key) successors (sorted_list_of_set dependencies)) s precedence))
      \<and> (for_each (\<lambda>successors (key, dependencies). for_each (link_successor known msg key) successors (sorted_list_of_set dependencies))
           s precedence = Inl e \<longrightarrow> e = SemanticError msg)" for s
      by (rule Cons.IH [OF fins])
    show ?case
    proof (cases "for_each (link_successor known msg k) start (sorted_list_of_set ds)")
      case (Inl e')
      have "\<not> ds \<subseteq> known" using link_entry(2) [OF fin, of known msg k start] Inl by auto
      with Inl link_entry(3) [OF fin Inl] show ?thesis by (auto simp: p)
    next
      case (Inr s)
      with ih [of s] show ?thesis by (simp add: p)
    qed
  qed simp
  then show "is_ok (link_successors known msg start precedence) \<longleftrightarrow> (\<forall>(k, ds)\<in>set precedence. ds \<subseteq> known)"
    and "link_successors known msg start precedence = Inl e \<Longrightarrow> e = SemanticError msg"
    using link_successors_Inr [OF assms] unfolding is_ok_iff by blast+
qed

definition deps_of :: "('k, 'k set) dict \<Rightarrow> 'k \<Rightarrow> 'k set" where
  "deps_of precedence k = dict_get precedence k {}"

lemma successors_graph:
  assumes "finite_deps precedence" "wf_dict precedence" "known = set (dict_keys precedence)"
    and "link_successors known msg start precedence = Inr successors" "\<And>d. dict_get start d [] = []"
  shows "loop_graph (dict_keys precedence) (deps_of precedence) successors"
proof -
  note s = link_successors_Inr [OF assms(1,4)]
  have D: "deps_of precedence k = ds" if "(k, ds) \<in> set precedence" for k ds
    using that assms(2) by (simp add: deps_of_def dict_get_def)
  have "filter (\<lambda>k. d \<in> deps_of precedence k) (map fst ps) = map fst (filter (\<lambda>(k, ds). d \<in> ds) ps)"
    if "set ps \<subseteq> set precedence" for ps d
    using that by (induction ps) (auto simp: D)
  from this [OF subset_refl] show ?thesis
    using s assms(1,2,3,5) D by (fastforce simp: loop_graph_def finite_deps_def)
qed

section \<open>The orders\<close>

definition known_deps :: "('k, 'k set) dict \<Rightarrow> bool" where
  "known_deps precedence \<longleftrightarrow> (\<forall>(k, ds)\<in>set precedence. ds \<subseteq> set (dict_keys precedence))"

lemma deps_of_mem: "wf_dict precedence \<Longrightarrow> (k, ds) \<in> set precedence \<Longrightarrow> deps_of precedence k = ds"
  by (simp add: deps_of_def dict_get_def)

lemma dependency_order_result:
  assumes "wf_dict deps" "finite_deps deps"
  shows "\<exists>r. dependency_order deps = Some r
    \<and> (is_ok r \<longleftrightarrow> known_deps deps \<and> acyclic (edges (dict_keys deps) (deps_of deps)))
    \<and> (\<forall>order. r = Inr order \<longrightarrow> set order = set (dict_keys deps) \<and> topological (deps_of deps) order)"
proof (cases "link_successors (set (dict_keys deps)) ''native dependency names an unknown operation''
    (map (\<lambda>(k, _). (k, [])) deps) deps")
  case (Inl e)
  then have "\<not> known_deps deps" using link_successors_ok(1) [OF assms(2)] unfolding known_deps_def by (metis is_ok.simps(2))
  with Inl show ?thesis by (simp add: dependency_order_def)
next
  case (Inr successors)
  let ?K = "dict_keys deps" and ?D = "deps_of deps" and ?deg = "map (\<lambda>(k, ds). (k, int (card ds))) deps"
  have start: "dict_get (map (\<lambda>(k, _). (k, [])) deps) d [] = []" for d :: 'a
    by (auto simp: dict_get_def split: option.splits dest!: map_of_SomeD)
  have g: "loop_graph ?K ?D successors"
    by (rule successors_graph [OF assms(2,1) refl Inr start])
  have known: "known_deps deps" using Inr link_successors_Inr [OF assms(2) Inr] by (simp add: known_deps_def)
  have init: "deque.loop_inv ?K ?D ?deg (map fst (filter (\<lambda>(_, n). n = 0) ?deg)) []"
  proof -
    let ?q = "map fst (filter (\<lambda>(_, n). n = 0) ?deg)"
    have q: "?q = map fst (filter (\<lambda>(k, ds). ds = {}) deps)"
      using assms(2) by (induction deps) (auto simp: finite_deps_def)
    have "set ?q = ready_keys ?K ?D (set [])"
      unfolding q using deps_of_mem [OF assms(1)] by (force simp: ready_keys_def)
    moreover have "distinct ?q" unfolding q using assms(1) by (simp add: distinct_map_filter)
    ultimately have "mset ?q = mset_set (ready_keys ?K ?D (set []))" by (metis mset_set_set)
    moreover have "map_of ?deg k = Some (int (card (?D k)))" if "k \<in> set ?K" for k
      using that deps_of_mem [OF assms(1)] assms(1) by (auto simp: map_of_eq_Some_iff comp_def case_prod_beta)
    ultimately show ?thesis unfolding deque.loop_inv_def by simp
  qed
  obtain order where o: "order_loop deque_pop deque_append successors ?deg (map fst (filter (\<lambda>(_, n). n = 0) ?deg)) [] = Some (Inr order)"
    "set order \<subseteq> set ?K" "topological ?D order" "ready_keys ?K ?D (set order) = {}"
    using deque.loop_returns [OF g init] by auto
  note full = complete_iff_acyclic [OF g o(3,2,4)]
  have "set order = set ?K" if "length order = length deps"
    using that o(2,3) distinct_card [OF assms(1)] by (intro card_subset_eq) (auto simp: topological_def distinct_card)
  then show ?thesis using Inr o full known
    by (simp add: dependency_order_def Let_def ensure_Inr_iff)
qed

lemma dependency_counts:
  assumes "wf_dict precedence" "set ks \<subseteq> set (dict_keys precedence)"
  shows "map_res (dependency_count precedence) ks = Inr (map (\<lambda>k. (k, int (card (deps_of precedence k)))) ks)"
proof (rule map_res_total)
  fix k assume "k \<in> set ks"
  with assms(2) obtain ds where "map_of precedence k = Some ds" by (metis map_of_eq_None_iff not_Some_eq set_map subsetD)
  then show "dependency_count precedence k = Inr (k, int (card (deps_of precedence k)))"
    by (simp add: dependency_count_def deps_of_def dict_get_def)
qed

definition least_ready :: "('k::linorder, 'k set) dict \<Rightarrow> ('k \<Rightarrow> 'p::linorder) \<Rightarrow> 'k list \<Rightarrow> bool" where
  "least_ready precedence prio order \<longleftrightarrow> (\<forall>xs k ys. order = xs @ k # ys \<longrightarrow>
     (\<forall>j\<in>ready_keys (dict_keys precedence) (deps_of precedence) (set xs). (prio k, k) \<le> (prio j, j)))"

lemma fixed_priority_loop:
  assumes "wf_dict by_id" "wf_dict precedence" "finite_deps precedence" and keys: "set (dict_keys precedence) = set (dict_keys by_id)"
    and link: "link_successors (set (dict_keys by_id)) msg [] precedence = Inr successors"
    and remaining: "remaining = map (\<lambda>k. (k, int (card (deps_of precedence k)))) (dict_keys by_id)"
  shows "\<exists>order. order_loop heap_pop (heap_push prio) successors remaining
        (sort (map (\<lambda>(k, _). (prio k, k)) (filter (\<lambda>(_, n). n = 0) remaining))) [] = Some (Inr order)
      \<and> set order \<subseteq> set (dict_keys precedence) \<and> topological (deps_of precedence) order
      \<and> ready_keys (dict_keys precedence) (deps_of precedence) (set order) = {} \<and> least_ready precedence prio order"
proof -
  let ?K = "dict_keys precedence" and ?D = "deps_of precedence"
  let ?h = "sort (map (\<lambda>(k, _). (prio k, k)) (filter (\<lambda>(_, n). n = 0) remaining))"
  have g: "loop_graph ?K ?D successors"
    by (rule successors_graph [OF assms(3,2) keys [symmetric] link]) (simp add: dict_get_def)
  have zero: "card (?D k) = 0 \<longleftrightarrow> ?D k = {}" if "k \<in> set ?K" for k
    using g that by (auto simp: loop_graph_def)
  have q: "map (\<lambda>(k, _). (prio k, k)) (filter (\<lambda>(_, n). n = 0) remaining)
      = map (\<lambda>k. (prio k, k)) (filter (\<lambda>k. ?D k = {}) (dict_keys by_id))"
    unfolding remaining using zero keys by (simp add: filter_map comp_def cong: filter_cong)
  have "set (filter (\<lambda>k. ?D k = {}) (dict_keys by_id)) = ready_keys ?K ?D (set [])" using keys by (auto simp: ready_keys_def)
  then have bag: "image_mset snd (mset ?h) = mset_set (ready_keys ?K ?D (set []))"
    unfolding mset_sort q using assms(1) by (simp add: comp_def mset_set_set [symmetric] multiset.map_comp flip: mset_map mset_filter)
  have entries: "sorted ?h" "\<forall>e\<in>set ?h. fst e = prio (snd e)" unfolding q by auto
  have counts: "\<forall>k\<in>set ?K. map_of remaining k = Some (int (card (?D k - set [])))"
    using keys assms(1) by (auto simp: remaining map_of_eq_Some_iff comp_def)
  have "heap.loop_inv prio ?K ?D remaining ?h []"
    unfolding heap.loop_inv_def using entries bag counts by (intro conjI) simp_all
  from heap.loop_returns [OF g this] obtain order where o: "order_loop heap_pop (heap_push prio) successors remaining ?h [] = Some (Inr order)"
    "set order \<subseteq> set ?K" "topological ?D order" "ready_keys ?K ?D (set order) = {}"
    "\<forall>xs k ys. order = xs @ k # ys \<longrightarrow> picked heap_pop (\<lambda>h. sorted h \<and> (\<forall>e\<in>set h. fst e = prio (snd e)))
       (\<lambda>h. image_mset snd (mset h)) (ready_keys ?K ?D (set xs)) k"
    by auto
  have "finite (ready_keys ?K ?D S)" for S by (simp add: ready_keys_def)
  with o(5) have "least_ready precedence prio order" unfolding least_ready_def using heap_picks_least by blast
  with o show ?thesis by blast
qed

lemma fixed_priority_order_result:
  assumes "wf_dict by_id" "wf_dict precedence" "finite_deps precedence" "set (dict_keys precedence) = set (dict_keys by_id)"
  shows "\<exists>r. fixed_priority_order by_id precedence priority msg = Some r
    \<and> (is_ok r \<longleftrightarrow> known_deps precedence \<and> acyclic (edges (dict_keys precedence) (deps_of precedence)))
    \<and> (\<forall>e. r = Inl e \<longrightarrow> e = SemanticError msg)
    \<and> (\<forall>items. r = Inr items \<longrightarrow> (\<exists>order. items = map (\<lambda>k. the (map_of by_id k)) order \<and> set order = set (dict_keys by_id)
         \<and> topological (deps_of precedence) order
         \<and> least_ready precedence (\<lambda>k. priority (the (map_of by_id k))) order))"
proof -
  let ?rem = "map (\<lambda>k. (k, int (card (deps_of precedence k)))) (dict_keys by_id)"
  let ?prio = "\<lambda>k. priority (the (map_of by_id k))"
  have cnt: "map_res (dependency_count precedence) (dict_keys by_id) = Inr ?rem"
    using dependency_counts [OF assms(2), of "dict_keys by_id"] assms(4) by simp
  show ?thesis
  proof (cases "link_successors (set (dict_keys by_id)) msg [] precedence")
    case (Inl e)
    then have "\<not> known_deps precedence" "e = SemanticError msg"
      using link_successors_ok [OF assms(3)] assms(4) unfolding known_deps_def by (metis is_ok.simps(2))+
    with Inl cnt show ?thesis by (simp add: fixed_priority_order_def)
  next
    case (Inr successors)
    have g: "loop_graph (dict_keys precedence) (deps_of precedence) successors"
      by (rule successors_graph [OF assms(3,2) assms(4) [symmetric] Inr]) (simp add: dict_get_def)
    have known: "known_deps precedence"
      using link_successors_Inr [OF assms(3) Inr] assms(4) by (simp add: known_deps_def)
    obtain order where o: "order_loop heap_pop (heap_push ?prio) successors ?rem
        (sort (map (\<lambda>(k, _). (?prio k, k)) (filter (\<lambda>(_, n). n = 0) ?rem))) [] = Some (Inr order)"
      "set order \<subseteq> set (dict_keys precedence)" "topological (deps_of precedence) order"
      "ready_keys (dict_keys precedence) (deps_of precedence) (set order) = {}" "least_ready precedence ?prio order"
      using fixed_priority_loop [OF assms Inr refl] by blast
    have len: "length by_id = length precedence"
      using distinct_card [OF assms(1)] distinct_card [OF assms(2)] assms(4) by simp
    note full = complete_iff_acyclic [OF g o(3,2,4)]
    have "set order = set (dict_keys by_id)" if "length order = length by_id"
      using that o(2,3) distinct_card [OF assms(1)] assms(4) by (intro card_subset_eq) (auto simp: topological_def distinct_card)
    then show ?thesis using Inr o full known len cnt
      by (cases "length order = length precedence") (auto simp: fixed_priority_order_def Let_def)
  qed
qed

text \<open>
  C11: \<^verbatim>\<open>_fixed_priority_order\<close> always returns; it succeeds exactly when every dependency names a
  known key and the dependencies are acyclic, and otherwise signals the given message.  On success
  the result lists every item once, after all its dependencies, and at every position it
  takes the least of the (priority, key) pairs whose dependencies are already listed.
\<close>

theorem fixed_priority_order_exact:
  assumes "wf_dict by_id" "wf_dict precedence" "finite_deps precedence" "set (dict_keys precedence) = set (dict_keys by_id)"
  shows "\<exists>r. fixed_priority_order by_id precedence priority msg = Some r
    \<and> (is_ok r \<longleftrightarrow> known_deps precedence \<and> acyclic (edges (dict_keys precedence) (deps_of precedence)))
    \<and> (\<forall>e. r = Inl e \<longrightarrow> e = SemanticError msg)
    \<and> (\<forall>items. r = Inr items \<longrightarrow> (\<exists>order. items = map (\<lambda>k. the (map_of by_id k)) order \<and> set order = set (dict_keys by_id)
         \<and> topological (deps_of precedence) order
         \<and> least_ready precedence (\<lambda>k. priority (the (map_of by_id k))) order))"
  by (rule fixed_priority_order_result [OF assms])

definition diamond_items :: "(string, int) dict" where
  "diamond_items = [(''c'', 3), (''b'', 1), (''a'', 1)]"

definition diamond_deps :: "(string, string set) dict" where
  "diamond_deps = [(''c'', {}), (''b'', {''c''}), (''a'', {''c'', ''b''})]"

theorem fixed_priority_order_exact_witness:
  "\<exists>order. fixed_priority_order diamond_items diamond_deps id ''cycle''
      = Some (Inr (map (\<lambda>k. the (map_of diamond_items k)) order)) \<and> topological (deps_of diamond_deps) order"
proof -
  have hyp: "wf_dict diamond_items" "wf_dict diamond_deps" "finite_deps diamond_deps"
    "set (dict_keys diamond_deps) = set (dict_keys diamond_items)"
    by (simp_all add: finite_deps_def diamond_items_def diamond_deps_def)
  have run: "fixed_priority_order diamond_items diamond_deps id ''cycle'' = Some (Inr [3, 1, 1])" by code_simp
  from fixed_priority_order_exact [OF hyp, of id "''cycle''"] obtain r where r: "fixed_priority_order diamond_items diamond_deps id ''cycle'' = Some r"
    "\<And>items. r = Inr items \<Longrightarrow> \<exists>order. items = map (\<lambda>k. the (map_of diamond_items k)) order \<and> topological (deps_of diamond_deps) order"
    by blast
  with run obtain order where "[3, 1, 1] = map (\<lambda>k. the (map_of diamond_items k)) order" "topological (deps_of diamond_deps) order"
    by (metis option.inject)
  with run show ?thesis by metis
qed

section \<open>Ancestor masks\<close>

lemma bit_order_bits:
  assumes "distinct order" "k \<in> set order"
  shows "map_of (order_bits order) k = Some (push_bit (place order k) 1)"
proof -
  have keys: "map fst (map (\<lambda>(i, key). (key, push_bit i (1::int))) (enumerate n xs)) = xs" for n and xs :: "'a list"
    by (induction xs arbitrary: n) auto
  obtain xs ys where o: "order = xs @ k # ys" using assms(2) by (meson split_list)
  with assms(1) have k: "k \<notin> set xs" by auto
  have "(length xs, k) \<in> set (enumerate 0 order)" by (simp add: o in_set_enumerate_eq)
  then have "(k, push_bit (length xs) 1) \<in> set (map (\<lambda>(i, key). (key, push_bit i (1::int))) (enumerate 0 order))" by force
  then show ?thesis
    unfolding order_bits_def using assms(1) keys [of 0 order] place_split [OF k, of ys]
    by (subst dict_of_distinct) (simp_all add: o)
qed

lemma keys_order_bits: "distinct order \<Longrightarrow> fst ` set (order_bits order) = set order"
proof -
  assume d: "distinct order"
  have keys: "map fst (map (\<lambda>(i, key). (key, push_bit i (1::int))) (enumerate n xs)) = xs" for n and xs :: "'a list"
    by (induction xs arbitrary: n) auto
  show ?thesis
    unfolding order_bits_def using d keys [of 0 order] by (subst dict_of_distinct) (simp_all flip: set_map)
qed

text \<open>What the masks mean: bit \<open>i\<close> of a mask stands for the key at place \<open>i\<close> of the order.\<close>

definition masks_set :: "'k list \<Rightarrow> int \<Rightarrow> 'k set \<Rightarrow> bool" where
  "masks_set order m S \<longleftrightarrow> S \<subseteq> set order \<and> (\<forall>j\<in>set order. bit m (place order j) \<longleftrightarrow> j \<in> S)"

lemma place_inj: "j \<in> set order \<Longrightarrow> k \<in> set order \<Longrightarrow> place order j = place order k \<Longrightarrow> j = k"
proof -
  have nth: "order ! place order j = j" if "j \<in> set order" for j
    using that unfolding place_def by (metis (mono_tags, lifting) nth_length_takeWhile takeWhile_eq_all_conv length_takeWhile_le order_less_le takeWhile_nth takeWhile_eq_take take_all_iff linorder_not_le)
  assume "j \<in> set order" "k \<in> set order" "place order j = place order k"
  then show ?thesis using nth by metis
qed

lemma masks_set_predecessors:
  assumes "distinct order" "\<And>d. d \<in> set ds \<Longrightarrow> d \<in> set order \<and> (\<exists>m. map_of anc d = Some m \<and> masks_set order m (A d))"
    and "masks_set order m0 S0"
  shows "\<exists>m. for_each (add_predecessor (order_bits order) anc) m0 ds = Inr m \<and> masks_set order m (S0 \<union> (\<Union>d\<in>set ds. insert d (A d)))"
  using assms(2,3)
proof (induction ds arbitrary: m0 S0)
  case (Cons d ds)
  obtain m where m: "d \<in> set order" "map_of anc d = Some m" "masks_set order m (A d)" using Cons.prems(1) [of d] by auto
  let ?m = "m0 OR (push_bit (place order d) 1 OR m)"
  have step: "add_predecessor (order_bits order) anc m0 d = Inr ?m"
    using m by (simp add: add_predecessor_def dict_item_def bit_order_bits [OF assms(1)])
  have "masks_set order ?m (S0 \<union> insert d (A d))"
    using Cons.prems(2) m by (auto simp: masks_set_def bit_or_iff bit_exp_iff dest: place_inj [OF _ m(1)])
  from Cons.IH [OF _ this] Cons.prems(1) step show ?case by (simp add: Un_assoc)
qed simp

lemma ancestors_run:
  assumes "wf_dict deps" "finite_deps deps" "topological (deps_of deps) order" "set order = set (dict_keys deps)"
    and "order = pre @ suf" "\<And>j. j \<in> set pre \<Longrightarrow> \<exists>m. map_of anc j = Some m \<and> masks_set order m {i. (i, j) \<in> (edges order (deps_of deps))\<^sup>+}"
    and "fst ` set anc = set pre"
  shows "\<exists>anc'. for_each (add_ancestors deps (order_bits order)) anc suf = Inr anc' \<and> fst ` set anc' = set order
    \<and> (\<forall>j\<in>set order. \<exists>m. map_of anc' j = Some m \<and> masks_set order m {i. (i, j) \<in> (edges order (deps_of deps))\<^sup>+})"
  using assms(5-)
proof (induction suf arbitrary: pre anc)
  case (Cons k suf)
  let ?D = "deps_of deps" and ?E = "edges order (deps_of deps)"
  have dist: "distinct order" using assms(3) by (simp add: topological_def)
  have k: "k \<in> set order" "?D k \<subseteq> set pre" using Cons.prems(1) assms(3) by (auto simp: topological_def)
  obtain ds where ds: "map_of deps k = Some ds" "?D k = ds"
    using k(1) assms(1,4) by (auto simp: deps_of_def dict_get_def split: option.splits simp: map_of_eq_None_iff)
  have fin: "finite ds" using assms(2) map_of_SomeD [OF ds(1)] by (auto simp: finite_deps_def)
  have pre: "set pre \<subseteq> set order" by (auto simp: Cons.prems(1))
  have pred: "d \<in> set order \<and> (\<exists>m. map_of anc d = Some m \<and> masks_set order m {i. (i, d) \<in> ?E\<^sup>+})" if "d \<in> set (sorted_list_of_set ds)" for d
    using that fin k(2) ds(2) pre Cons.prems(2) [of d] by auto
  have "\<exists>m. for_each (add_predecessor (order_bits order) anc) 0 (sorted_list_of_set ds) = Inr m
    \<and> masks_set order m ({} \<union> (\<Union>d\<in>set (sorted_list_of_set ds). insert d {i. (i, d) \<in> ?E\<^sup>+}))"
    by (rule masks_set_predecessors [OF dist]) (use pred in \<open>blast, simp add: masks_set_def\<close>)
  then obtain m where run: "for_each (add_predecessor (order_bits order) anc) 0 (sorted_list_of_set ds) = Inr m"
    and m: "masks_set order m (\<Union>d\<in>ds. insert d {i. (i, d) \<in> ?E\<^sup>+})"
    using fin by auto
  have "(\<Union>d\<in>ds. insert d {i. (i, d) \<in> ?E\<^sup>+}) = {i. (i, k) \<in> ?E\<^sup>+}"
  proof (intro set_eqI iffI)
    fix i assume "i \<in> (\<Union>d\<in>ds. insert d {i. (i, d) \<in> ?E\<^sup>+})"
    then obtain d where d: "d \<in> ds" "i = d \<or> (i, d) \<in> ?E\<^sup>+" by auto
    have "(d, k) \<in> ?E" using d(1) ds(2) k(1) by (simp add: edges_def)
    with d(2) show "i \<in> {i. (i, k) \<in> ?E\<^sup>+}" by (auto intro: trancl_into_trancl)
  next
    fix i assume "i \<in> {i. (i, k) \<in> ?E\<^sup>+}"
    then have "(i, k) \<in> ?E\<^sup>+" by simp
    then obtain d where "(d, k) \<in> ?E" "i = d \<or> (i, d) \<in> ?E\<^sup>+" by (metis tranclE)
    then show "i \<in> (\<Union>d\<in>ds. insert d {i. (i, d) \<in> ?E\<^sup>+})" using ds(2) by (auto simp: edges_def)
  qed
  with m have m': "masks_set order m {i. (i, k) \<in> ?E\<^sup>+}" by simp
  have step: "add_ancestors deps (order_bits order) anc k = Inr (AList.update k m anc)"
    using ds run by (simp add: add_ancestors_def dict_item_def)
  have "\<exists>anc'. for_each (add_ancestors deps (order_bits order)) (AList.update k m anc) suf = Inr anc' \<and> fst ` set anc' = set order
    \<and> (\<forall>j\<in>set order. \<exists>m. map_of anc' j = Some m \<and> masks_set order m {i. (i, j) \<in> ?E\<^sup>+})"
    by (rule Cons.IH [of "pre @ [k]"]) (use Cons.prems m' in auto)
  then show ?case using step by simp
qed simp

lemma dependency_ancestors_result:
  assumes "wf_dict deps" "finite_deps deps"
  shows "\<exists>r. dependency_ancestors deps = Some r
    \<and> (is_ok r \<longleftrightarrow> known_deps deps \<and> acyclic (edges (dict_keys deps) (deps_of deps)))
    \<and> (\<forall>anc bits. r = Inr (anc, bits) \<longrightarrow> (\<forall>k\<in>set (dict_keys deps). \<forall>j\<in>set (dict_keys deps).
         \<exists>m n. map_of anc k = Some m \<and> map_of bits j = Some (2 ^ n)
           \<and> (m AND 2 ^ n \<noteq> 0 \<longleftrightarrow> (j, k) \<in> (edges (dict_keys deps) (deps_of deps))\<^sup>+)
           \<and> (j \<noteq> k \<longrightarrow> map_of bits k \<noteq> map_of bits j)))"
proof -
  obtain r where r: "dependency_order deps = Some r"
    "is_ok r \<longleftrightarrow> known_deps deps \<and> acyclic (edges (dict_keys deps) (deps_of deps))"
    "\<And>order. r = Inr order \<Longrightarrow> set order = set (dict_keys deps) \<and> topological (deps_of deps) order"
    using dependency_order_result [OF assms] by blast
  show ?thesis
  proof (cases r)
    case (Inl e)
    with r show ?thesis by (simp add: dependency_ancestors_def)
  next
    case (Inr order)
    then have o: "set order = set (dict_keys deps)" "topological (deps_of deps) order" using r(3) by auto
    have e: "edges order (deps_of deps) = edges (dict_keys deps) (deps_of deps)" using o(1) by (simp add: edges_def)
    obtain anc where a: "for_each (add_ancestors deps (order_bits order)) [] order = Inr anc"
      "\<forall>j\<in>set order. \<exists>m. map_of anc j = Some m \<and> masks_set order m {i. (i, j) \<in> (edges order (deps_of deps))\<^sup>+}"
      using ancestors_run [OF assms o(2,1), of "[]" order "[]"] by auto
    have dist: "distinct order" using o(2) by (simp add: topological_def)
    have "\<exists>m n. map_of anc k = Some m \<and> map_of (order_bits order) j = Some (2 ^ n)
         \<and> (m AND 2 ^ n \<noteq> 0 \<longleftrightarrow> (j, k) \<in> (edges (dict_keys deps) (deps_of deps))\<^sup>+)
         \<and> (j \<noteq> k \<longrightarrow> map_of (order_bits order) k \<noteq> map_of (order_bits order) j)" if mem: "k \<in> set order" "j \<in> set order" for j k
    proof -
      obtain m where m: "map_of anc k = Some m" "bit m (place order j) \<longleftrightarrow> (j, k) \<in> (edges order (deps_of deps))\<^sup>+"
        using bspec [OF a(2) mem(1)] mem(2) unfolding masks_set_def by blast
      have "m AND 2 ^ place order j \<noteq> 0 \<longleftrightarrow> bit m (place order j)"
        by (metis and_exp_eq_0_iff_not_bit)
      with m e mem place_inj [OF mem] show ?thesis
        by (intro exI [of _ m] exI [of _ "place order j"]) (auto simp: bit_order_bits [OF dist])
    qed
    with Inr a(1) r o(1) show ?thesis by (simp add: dependency_ancestors_def)
  qed
qed

text \<open>
  C12: \<^verbatim>\<open>_dependency_ancestors\<close> computes exact reachability.  When the dependencies name known keys
  and are acyclic it succeeds, every key has its own bit, and the bit of a key is set in the mask of
  another exactly when a chain of dependencies leads from it to that one; on any other input it signals an error.
\<close>

theorem dependency_ancestors_exact:
  assumes "wf_dict deps" "finite_deps deps"
  shows "\<exists>r. dependency_ancestors deps = Some r
    \<and> (is_ok r \<longleftrightarrow> known_deps deps \<and> acyclic (edges (dict_keys deps) (deps_of deps)))
    \<and> (\<forall>anc bits. r = Inr (anc, bits) \<longrightarrow> (\<forall>k\<in>set (dict_keys deps). \<forall>j\<in>set (dict_keys deps).
         \<exists>m n. map_of anc k = Some m \<and> map_of bits j = Some (2 ^ n)
           \<and> (m AND 2 ^ n \<noteq> 0 \<longleftrightarrow> (j, k) \<in> (edges (dict_keys deps) (deps_of deps))\<^sup>+)
           \<and> (j \<noteq> k \<longrightarrow> map_of bits k \<noteq> map_of bits j)))"
  by (rule dependency_ancestors_result [OF assms])

theorem dependency_ancestors_exact_witness:
  "\<exists>anc bits. dependency_ancestors diamond_deps = Some (Inr (anc, bits)) \<and> map_of anc ''a'' = Some 3
    \<and> (''c'', ''a'') \<in> (edges (dict_keys diamond_deps) (deps_of diamond_deps))\<^sup>+"
proof -
  have hyp: "wf_dict diamond_deps" "finite_deps diamond_deps" by (simp_all add: finite_deps_def diamond_deps_def)
  have run: "dependency_ancestors diamond_deps = Some (Inr ([(''c'', 0), (''b'', 1), (''a'', 3)], [(''c'', 1), (''b'', 2), (''a'', 4)]))"
    by code_simp
  from dependency_ancestors_exact [OF hyp] obtain r where r: "dependency_ancestors diamond_deps = Some r"
    "\<forall>anc bits. r = Inr (anc, bits) \<longrightarrow> (\<forall>k\<in>set (dict_keys diamond_deps). \<forall>j\<in>set (dict_keys diamond_deps).
       \<exists>m n. map_of anc k = Some m \<and> map_of bits j = Some (2 ^ n)
         \<and> (m AND 2 ^ n \<noteq> 0 \<longleftrightarrow> (j, k) \<in> (edges (dict_keys diamond_deps) (deps_of diamond_deps))\<^sup>+)
         \<and> (j \<noteq> k \<longrightarrow> map_of bits k \<noteq> map_of bits j))" by (elim exE conjE)
  have ks: "''a'' \<in> set (dict_keys diamond_deps)" "''c'' \<in> set (dict_keys diamond_deps)" by (simp_all add: diamond_deps_def)
  have "Some r = Some (Inr ([(''c'', 0), (''b'', 1), (''a'', 3)], [(''c'', 1), (''b'', 2), (''a'', 4)]))"
    by (rule trans [OF r(1) [symmetric] run])
  then have "r = Inr ([(''c'', 0), (''b'', 1), (''a'', 3)], [(''c'', 1), (''b'', 2), (''a'', 4)])" by (rule option.inject [THEN iffD1])
  from r(2) [rule_format, OF this ks] obtain m n where "map_of [(''c'', 0), (''b'', 1), (''a'', 3)] ''a'' = Some (m :: int)"
    "map_of [(''c'', 1), (''b'', 2), (''a'', 4)] ''c'' = Some (2 ^ n :: int)"
    and reach: "m AND 2 ^ n \<noteq> 0 \<longleftrightarrow> (''c'', ''a'') \<in> (edges (dict_keys diamond_deps) (deps_of diamond_deps))\<^sup>+" by blast
  then have "m = 3" "(2 ^ n :: int) = 1" by simp_all
  with reach have "(''c'', ''a'') \<in> (edges (dict_keys diamond_deps) (deps_of diamond_deps))\<^sup>+" by simp
  with run show ?thesis by (intro exI) (rule conjI, assumption, simp)
qed

end
