(* ===== verification/Topology.thy ===== *)
theory Topology
  imports Atom
begin

text \<open>
  \<^verbatim>\<open>src/vericcl/topology/model.py\<close>: directed links with their performance curves, the resources links share,
  and the topology that holds them.  The hash of \<^verbatim>\<open>_compute_signature\<close> is a parameter of the
  constructor: only its use (it fills an empty signature) belongs to this file.
\<close>

section \<open>Numbers\<close>

definition number_min :: "pyfloat \<Rightarrow> string \<Rightarrow> rat \<Rightarrow> string \<Rightarrow> rat res" where
  "number_min v field minimum shown =
     (case v of
        Finite r \<Rightarrow> ensure (\<not> r < minimum) (SemanticError (field @ '' must be finite and at least '' @ shown)) (Inr r)
      | _ \<Rightarrow> Inl (SemanticError (field @ '' must be finite and at least '' @ shown)))"

definition tiny :: rat where
  "tiny = 1 / 10 ^ 300"

lemma number_min_Inr_iff [res_simps]: "number_min v f m s = Inr r \<longleftrightarrow> v = Finite r \<and> m \<le> r"
  by (cases v) (auto simp: number_min_def res_simps)

section \<open>Keys\<close>

datatype link_key = LinkKey (lk_src_rank: int) (lk_dst_rank: int)

text \<open>The dataclass is ordered: keys compare as the tuples of their fields.\<close>

instantiation link_key :: linorder
begin

definition less_eq_link_key :: "link_key \<Rightarrow> link_key \<Rightarrow> bool" where
  "less_eq_link_key a b \<longleftrightarrow> (lk_src_rank a, lk_dst_rank a) \<le> (lk_src_rank b, lk_dst_rank b)"

definition less_link_key :: "link_key \<Rightarrow> link_key \<Rightarrow> bool" where
  "less_link_key a b \<longleftrightarrow> (lk_src_rank a, lk_dst_rank a) < (lk_src_rank b, lk_dst_rank b)"

instance
  by intro_classes (auto simp: less_eq_link_key_def less_link_key_def link_key.expand)

end

definition link_key_post_init :: "int \<Rightarrow> int \<Rightarrow> link_key res" where
  "link_key_post_init src dst =
     bnd (integer_min src ''link.src_rank'' 0) (\<lambda>_.
     bnd (integer_min dst ''link.dst_rank'' 0) (\<lambda>_.
     ensure (src \<noteq> dst) (SemanticError ''link ranks must be distinct'') (Inr (LinkKey src dst))))"

datatype lane_key = LaneKey (lane_src_rank: int) (lane_dst_rank: int) (lane_channel: int)

definition lane_key_post_init :: "int \<Rightarrow> int \<Rightarrow> int \<Rightarrow> lane_key res" where
  "lane_key_post_init src dst chan =
     bnd (link_key_post_init src dst) (\<lambda>_.
     bnd (integer_min chan ''lane.channel'' 0) (\<lambda>_. Inr (LaneKey src dst chan)))"

section \<open>Performance curves\<close>

record performance_curve =
  alpha_us :: rat
  invbw_us :: rat
  bandwidth_bytes_per_us :: "(int, rat) dict"
  beta_us_per_byte :: "rat option"

definition calibration_point :: "int \<times> pyfloat \<Rightarrow> (int \<times> rat) res" where
  "calibration_point p =
     bnd (integer_min (fst p) ''calibration concurrency'' 1) (\<lambda>c.
     bnd (number_min (snd p) ''calibration bandwidth'' tiny ''1e-300'') (\<lambda>b. Inr (c, b)))"

definition performance_curve_init :: "pyfloat \<Rightarrow> pyfloat \<Rightarrow> (int, pyfloat) dict \<Rightarrow> pyfloat option \<Rightarrow> performance_curve res" where
  "performance_curve_init alpha invbw raw_points beta =
     bnd (number_min alpha ''performance.alpha_us'' 0 ''0.0'') (\<lambda>a.
     bnd (number_min invbw ''performance.invbw_us'' 0 ''0.0'') (\<lambda>i.
     ensure (\<not> i < a) (SemanticError ''performance.invbw_us must not be below alpha_us'') (
     bnd (map_res calibration_point raw_points) (\<lambda>points.
     bnd (case beta of None \<Rightarrow> Inr None
          | Some b \<Rightarrow> bnd (number_min b ''performance.beta_us_per_byte'' tiny ''1e-300'') (\<lambda>x. Inr (Some x))) (\<lambda>beta'.
     Inr \<lparr>alpha_us = a, invbw_us = i, bandwidth_bytes_per_us = sort_key fst (dict_of points), beta_us_per_byte = beta'\<rparr>)))))"

definition beta_effective_us :: "performance_curve \<Rightarrow> rat" where
  "beta_effective_us c = invbw_us c - alpha_us c"

definition is_calibrated :: "performance_curve \<Rightarrow> bool" where
  "is_calibrated c \<longleftrightarrow> bandwidth_bytes_per_us c \<noteq> []"

text \<open>\<^verbatim>\<open>max(points) > limit\<close> for a non-empty mapping.\<close>

definition exceeds_points :: "performance_curve \<Rightarrow> int \<Rightarrow> bool" where
  "exceeds_points c limit \<longleftrightarrow> bandwidth_bytes_per_us c \<noteq> [] \<and> limit < Max (set (dict_keys (bandwidth_bytes_per_us c)))"

section \<open>Links and shared resources\<close>

record topology_link =
  dl_key :: link_key
  dl_max_channels :: int
  dl_performance :: performance_curve
  resource_ids :: "string list"
  physical_path :: "string list"

definition topology_link_post_init :: "topology_link \<Rightarrow> topology_link res" where
  "topology_link_post_init e =
     bnd (integer_min (dl_max_channels e) ''directed_link.max_channels'' 1) (\<lambda>_.
     bnd (check_each (\<lambda>r. bnd (nonempty_id r ''directed_link.resource_ids'') (\<lambda>_. Inr ())) (resource_ids e)) (\<lambda>_.
     ensure (length (resource_ids e) = card (set (resource_ids e))) (SemanticError ''directed_link.resource_ids must be unique'') (
     ensure (\<not> exceeds_points (dl_performance e) (dl_max_channels e))
       (SemanticError ''calibration concurrency exceeds link max_channels'') (
     bnd (check_each (\<lambda>r. bnd (nonempty_id r ''directed_link.physical_path'') (\<lambda>_. Inr ())) (physical_path e)) (\<lambda>_.
     ensure (\<not> (physical_path e \<noteq> [] \<and> length (physical_path e) < 2)) (SemanticError ''physical path must contain both endpoints'') (
     Inr (e\<lparr>resource_ids := sort (resource_ids e)\<rparr>)))))))"

record shared_resource =
  sr_id :: string
  member_links :: "link_key list"
  sr_max_channels :: int
  sr_performance :: performance_curve
  capacity_bytes_per_us :: "rat option"

definition shared_resource_post_init :: "shared_resource \<Rightarrow> pyfloat option \<Rightarrow> shared_resource res" where
  "shared_resource_post_init r capacity =
     bnd (nonempty_id (sr_id r) ''shared_resource.resource_id'') (\<lambda>_.
     ensure (member_links r \<noteq> []) (SemanticError ''shared_resource.member_links must contain LinkKey values'') (
     ensure (length (member_links r) = card (set (member_links r))) (SemanticError ''shared_resource.member_links must be unique'') (
     bnd (integer_min (sr_max_channels r) ''shared_resource.max_channels'' 1) (\<lambda>_.
     ensure (\<not> exceeds_points (sr_performance r) (sr_max_channels r))
       (SemanticError ''calibration concurrency exceeds resource max_channels'') (
     bnd (case capacity of None \<Rightarrow> Inr None
          | Some c \<Rightarrow> bnd (number_min c ''shared_resource.capacity_bytes_per_us'' tiny ''1e-300'') (\<lambda>x. Inr (Some x))) (\<lambda>c.
     Inr (r\<lparr>member_links := sort (member_links r), capacity_bytes_per_us := c\<rparr>)))))))"

section \<open>The topology\<close>

record topology =
  topo_rank_count :: int
  topo_links :: "(link_key, topology_link) dict"
  shared_resources :: "(string, shared_resource) dict"
  node_membership :: "(int, int) dict"
  gateways :: "int set"
  topo_warnings :: "string list"
  isomorphism_signature :: string

definition check_link :: "int \<Rightarrow> link_key \<times> topology_link \<Rightarrow> unit res" where
  "check_link ranks entry =
     (case entry of (k, e) \<Rightarrow>
       ensure (k = dl_key e) (SemanticError ''topology link key does not match its value'') (
       ensure (\<not> (ranks \<le> lk_src_rank k \<or> ranks \<le> lk_dst_rank k)) (SemanticError ''topology link rank is outside the rank range'') (Inr ())))"

definition normalize_links :: "topology \<Rightarrow> (link_key, topology_link) dict res" where
  "normalize_links t =
     bnd (check_each (check_link (topo_rank_count t)) (topo_links t)) (\<lambda>_. Inr (sort_key fst (topo_links t)))"

definition check_member :: "(link_key, topology_link) dict \<Rightarrow> string \<Rightarrow> link_key \<Rightarrow> unit res" where
  "check_member ls rid k =
     (case map_of ls k of
        None \<Rightarrow> Inl (SemanticError ''shared resource references an unknown link'')
      | Some e \<Rightarrow> ensure (rid \<in> set (resource_ids e))
          (SemanticError ''shared resource membership is not declared by its link'') (Inr ()))"

definition check_resource :: "(link_key, topology_link) dict \<Rightarrow> string \<times> shared_resource \<Rightarrow> unit res" where
  "check_resource ls entry =
     (case entry of (rid, r) \<Rightarrow>
       ensure (rid = sr_id r) (SemanticError ''shared resource key does not match its resource_id'') (
       check_each (check_member ls rid) (member_links r)))"

definition check_link_resource :: "(string, shared_resource) dict \<Rightarrow> link_key \<Rightarrow> string \<Rightarrow> unit res" where
  "check_link_resource rs k rid =
     (case map_of rs rid of
        None \<Rightarrow> Inl (SemanticError ''link references an unknown shared resource'')
      | Some r \<Rightarrow> ensure (k \<in> set (member_links r))
          (SemanticError ''link resource is missing direction-specific membership'') (Inr ()))"

definition normalize_resources :: "topology \<Rightarrow> (link_key, topology_link) dict \<Rightarrow> (string, shared_resource) dict res" where
  "normalize_resources t ls =
     bnd (check_each (check_resource ls) (shared_resources t)) (\<lambda>_.
     bnd (check_each (\<lambda>(k, e). check_each (check_link_resource (shared_resources t) k) (resource_ids e)) ls) (\<lambda>_.
     Inr (sort_key fst (shared_resources t))))"

definition normalize_membership :: "topology \<Rightarrow> (int, int) dict res" where
  "normalize_membership t =
     ensure (set (dict_keys (node_membership t)) = set (py_range 0 (topo_rank_count t)))
       (SemanticError ''topology.node_membership must cover every rank'') (
     bnd (check_each (\<lambda>(r, n). bnd (integer_min r ''topology.node_membership rank'' 0) (\<lambda>_.
            bnd (integer_min n ''topology.node_membership node'' 0) (\<lambda>_. Inr ()))) (node_membership t)) (\<lambda>_.
     Inr (sort_key fst (node_membership t))))"

definition topology_post_init :: "(topology \<Rightarrow> string) \<Rightarrow> topology \<Rightarrow> topology res" where
  "topology_post_init compute_signature t =
     bnd (integer_min (topo_rank_count t) ''topology.rank_count'' 1) (\<lambda>_.
     bnd (normalize_links t) (\<lambda>ls.
     bnd (normalize_resources t ls) (\<lambda>rs.
     bnd (normalize_membership t) (\<lambda>membership.
     bnd (check_each (\<lambda>r. bnd (integer_min r ''topology.gateways'' 0) (\<lambda>_.
            ensure (\<not> topo_rank_count t \<le> r) (SemanticError ''topology gateway is outside the rank range'') (Inr ())))
            (sorted_list_of_set (gateways t))) (\<lambda>_.
     bnd (check_each (\<lambda>w. bnd (nonempty_id w ''topology.warnings'') (\<lambda>_. Inr ())) (topo_warnings t)) (\<lambda>_.
     let t' = t\<lparr>topo_links := ls, shared_resources := rs, node_membership := membership\<rparr> in
     Inr (if isomorphism_signature t \<noteq> '''' then t' else t'\<lparr>isomorphism_signature := compute_signature t'\<rparr>)))))))"

definition has_link :: "topology \<Rightarrow> int \<Rightarrow> int \<Rightarrow> bool" where
  "has_link t src dst =
     (case link_key_post_init src dst of Inl _ \<Rightarrow> False | Inr k \<Rightarrow> k \<in> set (dict_keys (topo_links t)))"

definition link :: "topology \<Rightarrow> link_key \<Rightarrow> topology_link res" where
  "link t k = (case map_of (topo_links t) k of
     None \<Rightarrow> Inl (SemanticError ''topology does not contain the requested link'') | Some e \<Rightarrow> Inr e)"

definition destinations :: "topology \<Rightarrow> int \<Rightarrow> int list res" where
  "destinations t src = bnd (integer_min src ''src_rank'' 0) (\<lambda>_.
     Inr (map lk_dst_rank (filter (\<lambda>k. lk_src_rank k = src) (dict_keys (topo_links t)))))"

definition sources :: "topology \<Rightarrow> int \<Rightarrow> int list res" where
  "sources t dst = bnd (integer_min dst ''dst_rank'' 0) (\<lambda>_.
     Inr (map lk_src_rank (filter (\<lambda>k. lk_dst_rank k = dst) (dict_keys (topo_links t)))))"

definition lanes :: "topology \<Rightarrow> link_key \<Rightarrow> int \<Rightarrow> lane_key list res" where
  "lanes t k channel_count =
     bnd (link t k) (\<lambda>e.
     bnd (integer_min channel_count ''channel_count'' 1) (\<lambda>n.
     ensure (\<not> dl_max_channels e < n) (SemanticError ''channel_count exceeds link max_channels'') (
     map_res (lane_key_post_init (lk_src_rank k) (lk_dst_rank k)) (py_range 0 n))))"

definition resources_for :: "topology \<Rightarrow> link_key \<Rightarrow> string list res" where
  "resources_for t k = bnd (link t k) (\<lambda>e. Inr (resource_ids e))"

section \<open>Accepted topologies\<close>

definition well_linked :: "topology \<Rightarrow> bool" where
  "well_linked t \<longleftrightarrow>
     (\<forall>k e. map_of (topo_links t) k = Some e \<longrightarrow> dl_key e = k \<and> lk_src_rank k < topo_rank_count t \<and> lk_dst_rank k < topo_rank_count t)
   \<and> (\<forall>k e r. map_of (topo_links t) k = Some e \<longrightarrow>
        (r \<in> set (resource_ids e) \<longleftrightarrow> (\<exists>res. map_of (shared_resources t) r = Some res \<and> k \<in> set (member_links res))))
   \<and> (\<forall>r res. map_of (shared_resources t) r = Some res \<longrightarrow> sr_id res = r
        \<and> (\<forall>k\<in>set (member_links res). \<exists>e. map_of (topo_links t) k = Some e \<and> r \<in> set (resource_ids e)))
   \<and> dom (map_of (node_membership t)) = {0..<topo_rank_count t}
   \<and> (\<forall>g\<in>gateways t. 0 \<le> g \<and> g < topo_rank_count t)
   \<and> sorted_wrt (<) (dict_keys (topo_links t))"

lemma topology_fields:
  assumes "topology_post_init sig t = Inr t'"
  shows "1 \<le> topo_rank_count t" "topo_rank_count t' = topo_rank_count t"
    "topo_links t' = sort_key fst (topo_links t)" "shared_resources t' = sort_key fst (shared_resources t)"
    "node_membership t' = sort_key fst (node_membership t)" "gateways t' = gateways t"
    "check_each (check_link (topo_rank_count t)) (topo_links t) = Inr ()"
    "check_each (check_resource (topo_links t')) (shared_resources t) = Inr ()"
    "check_each (\<lambda>(k, e). check_each (check_link_resource (shared_resources t) k) (resource_ids e)) (topo_links t') = Inr ()"
    "set (dict_keys (node_membership t)) = set (py_range 0 (topo_rank_count t))"
    "check_each (\<lambda>r. bnd (integer_min r ''topology.gateways'' 0) (\<lambda>_.
        ensure (\<not> topo_rank_count t \<le> r) (SemanticError ''topology gateway is outside the rank range'') (Inr ())))
       (sorted_list_of_set (gateways t)) = Inr ()"
  using assms by (auto simp: topology_post_init_def normalize_links_def normalize_resources_def normalize_membership_def bnd_Inr_iff
      ensure_Inr_iff integer_min_Inr_iff Let_def simp del: set_map split: if_splits)

text \<open>
  C13: a topology its constructor accepts is consistent: links are stored under their own key and join existing
  ranks, a link names a shared resource exactly when that resource lists the link, every resource
  lists known links only, every rank has a node, gateways are ranks, and the links are stored in strictly increasing order
  of their keys (so that \<^verbatim>\<open>destinations\<close> and \<^verbatim>\<open>sources\<close> enumerate without repetition).
\<close>

theorem topology_consistent:
  assumes "wf_dict (topo_links t)" "wf_dict (shared_resources t)" "wf_dict (node_membership t)" "finite (gateways t)"
    and "topology_post_init sig t = Inr t'"
  shows "well_linked t'"
proof -
  note f = topology_fields [OF assms(5)]
  have ls: "map_of (topo_links t') = map_of (topo_links t)" and rs: "map_of (shared_resources t') = map_of (shared_resources t)"
    and mem: "map_of (node_membership t') = map_of (node_membership t)"
    using assms(1-3) f(3-5) by (simp_all add: map_of_sort_key)
  have wf: "wf_dict (topo_links t')" using f(3) assms(1) by (simp add: distinct_keys_sort)
  have links: "dl_key e = k \<and> lk_src_rank k < topo_rank_count t \<and> lk_dst_rank k < topo_rank_count t"
    if "map_of (topo_links t) k = Some e" for k e
  proof -
    have "check_link (topo_rank_count t) (k, e) = Inr ()" using f(7) map_of_SomeD [OF that] by (auto simp: check_each_Inr_iff)
    then show ?thesis by (auto simp: res_simps check_link_def)
  qed
  have up: "sr_id res = r \<and> (\<forall>k\<in>set (member_links res). \<exists>e. map_of (topo_links t') k = Some e \<and> r \<in> set (resource_ids e))"
    if "map_of (shared_resources t) r = Some res" for r res
  proof -
    have "check_resource (topo_links t') (r, res) = Inr ()" using f(8) map_of_SomeD [OF that] by (auto simp: res_simps)
    then show ?thesis by (auto simp: check_resource_def check_member_def res_simps split: option.splits) 
  qed
  have down: "\<exists>res. map_of (shared_resources t) r = Some res \<and> k \<in> set (member_links res)"
    if "map_of (topo_links t') k = Some e" "r \<in> set (resource_ids e)" for k e r
  proof -
    have "check_link_resource (shared_resources t) k r = Inr ()"
      using f(9) map_of_SomeD [OF that(1)] that(2) by (fastforce simp: res_simps)
    then show ?thesis by (auto simp: check_link_resource_def res_simps split: option.splits)
  qed
  have "sorted_wrt (<) (dict_keys (topo_links t'))"
    using wf by (simp add: f(3) sorted_wrt_less_iff)
  moreover have "dom (map_of (node_membership t')) = {0..<topo_rank_count t'}"
    using f(2,10) by (auto simp: mem dom_map_of_conv_image_fst)
  moreover have "\<forall>g\<in>gateways t'. 0 \<le> g \<and> g < topo_rank_count t'"
    using f(2,6,11) assms(4) by (auto simp: res_simps)
  moreover have "r \<in> set (resource_ids e) \<longleftrightarrow> (\<exists>res. map_of (shared_resources t') r = Some res \<and> k \<in> set (member_links res))"
    if e: "map_of (topo_links t') k = Some e" for k e r
  proof
    assume "\<exists>res. map_of (shared_resources t') r = Some res \<and> k \<in> set (member_links res)"
    then obtain res where "map_of (shared_resources t) r = Some res" "k \<in> set (member_links res)" by (auto simp: rs)
    with up obtain e' where "map_of (topo_links t') k = Some e'" "r \<in> set (resource_ids e')" by blast
    with e show "r \<in> set (resource_ids e)" by simp
  qed (use down [OF e] rs in simp)
  ultimately show ?thesis
    unfolding well_linked_def f(2) rs using links [folded ls] up by blast
qed

definition example_curve :: performance_curve where
  "example_curve = \<lparr>alpha_us = 1, invbw_us = 3, bandwidth_bytes_per_us = [(1, 10), (2, 15)], beta_us_per_byte = None\<rparr>"

definition example_topology :: topology where
  "example_topology = \<lparr>topo_rank_count = 2,
     topo_links = [(LinkKey 1 0, \<lparr>dl_key = LinkKey 1 0, dl_max_channels = 2, dl_performance = example_curve, resource_ids = [''bus''], physical_path = []\<rparr>),
                   (LinkKey 0 1, \<lparr>dl_key = LinkKey 0 1, dl_max_channels = 2, dl_performance = example_curve, resource_ids = [], physical_path = []\<rparr>)],
     shared_resources = [(''bus'', \<lparr>sr_id = ''bus'', member_links = [LinkKey 1 0], sr_max_channels = 2, sr_performance = example_curve,
                                    capacity_bytes_per_us = None\<rparr>)],
     node_membership = [(0, 0), (1, 0)], gateways = {0}, topo_warnings = [], isomorphism_signature = ''example''\<rparr>"

theorem topology_consistent_witness:
  "\<exists>t. topology_post_init (\<lambda>_. '''') example_topology = Inr t \<and> well_linked t
    \<and> destinations t 0 = Inr [1] \<and> dict_keys (topo_links t) = [LinkKey 0 1, LinkKey 1 0]"
proof -
  have "is_ok (bnd (topology_post_init (\<lambda>_. '''') example_topology) (\<lambda>t.
      ensure (destinations t 0 = Inr [1] \<and> dict_keys (topo_links t) = [LinkKey 0 1, LinkKey 1 0]) IndexError (Inr ())))"
    by (simp add: topology_post_init_def normalize_links_def normalize_resources_def normalize_membership_def check_each_def
        check_link_def check_resource_def check_member_def check_link_resource_def integer_min_def destinations_def
        example_topology_def less_eq_link_key_def upto.simps)
  then obtain t where t: "topology_post_init (\<lambda>_. '''') example_topology = Inr t" "destinations t 0 = Inr [1]"
    "dict_keys (topo_links t) = [LinkKey 0 1, LinkKey 1 0]"
    unfolding is_ok_bnd is_ok_ensure by (elim exE conjE)
  have "wf_dict (topo_links example_topology)" "wf_dict (shared_resources example_topology)"
    "wf_dict (node_membership example_topology)" "finite (gateways example_topology)" by (simp_all add: example_topology_def)
  note ok = topology_consistent [OF this t(1)]
  show ?thesis by (intro exI [of _ t] conjI t ok)
qed

text \<open>
  C14: \<^verbatim>\<open>has_link\<close>, \<^verbatim>\<open>link\<close>, \<^verbatim>\<open>destinations\<close> and \<^verbatim>\<open>sources\<close> describe the same directed graph, and
  \<^verbatim>\<open>lanes\<close> gives the channels below a count exactly when the link exists and admits that many.
\<close>

theorem topology_queries_agree:
  assumes "0 \<le> src" "0 \<le> dst" "src \<noteq> dst"
  shows "(has_link t src dst \<longleftrightarrow> is_ok (link t (LinkKey src dst)))
    \<and> (has_link t src dst \<longleftrightarrow> (\<exists>ds. destinations t src = Inr ds \<and> dst \<in> set ds))
    \<and> (has_link t src dst \<longleftrightarrow> (\<exists>ss. sources t dst = Inr ss \<and> src \<in> set ss))
    \<and> (\<forall>n ks. lanes t (LinkKey src dst) n = Inr ks \<longleftrightarrow>
         (\<exists>e. link t (LinkKey src dst) = Inr e \<and> 1 \<le> n \<and> n \<le> dl_max_channels e \<and> ks = map (LaneKey src dst) [0..n - 1]))"
proof -
  have k: "link_key_post_init src dst = Inr (LinkKey src dst)" using assms by (simp add: link_key_post_init_def integer_min_def)
  have mem: "has_link t src dst \<longleftrightarrow> LinkKey src dst \<in> fst ` set (topo_links t)" by (simp add: has_link_def k)
  have l: "is_ok (link t (LinkKey src dst)) \<longleftrightarrow> LinkKey src dst \<in> fst ` set (topo_links t)"
    using map_of_eq_None_iff [of "topo_links t" "LinkKey src dst"] by (cases "map_of (topo_links t) (LinkKey src dst)") (auto simp: link_def)
  have eq: "LinkKey src dst = x \<longleftrightarrow> lk_src_rank x = src \<and> lk_dst_rank x = dst" for x by (cases x) auto
  have "lane_key_post_init src dst c = Inr (LaneKey src dst c)" if "c \<in> set (py_range 0 n)" for c n
    using that assms by (simp add: lane_key_post_init_def k integer_min_def)
  from map_res_total [OF this] have ks: "map_res (lane_key_post_init src dst) (py_range 0 n) = Inr (map (LaneKey src dst) [0..n - 1])" for n .
  show ?thesis
  proof (intro conjI allI)
    show "has_link t src dst \<longleftrightarrow> is_ok (link t (LinkKey src dst))" by (simp add: mem l)
    show "has_link t src dst \<longleftrightarrow> (\<exists>ds. destinations t src = Inr ds \<and> dst \<in> set ds)"
      using assms unfolding mem by (auto simp: destinations_def integer_min_def image_iff eq)
    show "has_link t src dst \<longleftrightarrow> (\<exists>ss. sources t dst = Inr ss \<and> src \<in> set ss)"
      using assms unfolding mem by (auto simp: sources_def integer_min_def image_iff eq)
    fix n ks'
    show "lanes t (LinkKey src dst) n = Inr ks' \<longleftrightarrow>
         (\<exists>e. link t (LinkKey src dst) = Inr e \<and> 1 \<le> n \<and> n \<le> dl_max_channels e \<and> ks' = map (LaneKey src dst) [0..n - 1])"
      by (auto simp: lanes_def res_simps ks)
  qed
qed

theorem topology_queries_agree_witness: "has_link example_topology 1 0 \<and> is_ok (link example_topology (LinkKey 1 0))"
proof -
  have "has_link example_topology 1 0" by (simp add: has_link_def link_key_post_init_def integer_min_def example_topology_def)
  with topology_queries_agree [of 1 0 example_topology] show ?thesis by simp
qed

end
