(* ===== verification/Storage_Plan.thy ===== *)
theory Storage_Plan
  imports Topo_Order Topology Versions
begin

text \<open>
  \<^verbatim>\<open>src/vericcl/xml/v5_buffers.py\<close> and the records of \<^verbatim>\<open>src/vericcl/xml/v5_model.py\<close> it builds:
  explicit state versions for a network candidate, and storage for them with read-completion edges.

  A candidate is a list of network operations or a fixed-route schedule; the candidates of the tree
  solver are converted to network operations by code of another part (\<^verbatim>\<open>solver/trees\<close>).
  The schedule metadata the conversion reads are three mappings.  Sets are visited in increasing
  order where the source iterates over a set; only the order of the reported omitted references depends on it.
\<close>

section \<open>Records\<close>

datatype address = Address (addr_rank: int) (addr_buffer: string) (addr_offset: int)

record network_operation =
  net_id :: string
  net_kind :: string
  net_src :: int
  net_dst :: int
  net_channel :: int
  net_stage :: int
  net_contributors :: "int set"
  net_targets :: "int set"
  net_participants :: "int list"
  net_dependencies :: "string set"
  net_references :: "string set"
  net_priority :: rat

record state_value =
  val_id :: string
  val_rank :: int
  val_position :: int
  val_contributors :: "int set"
  val_producer :: "string option"

record instruction =
  ins_id :: string
  ins_kind :: string
  ins_inputs :: "string list"
  ins_output :: string
  ins_rank :: int
  ins_peer :: int
  ins_channel :: int
  ins_stage :: int
  ins_participants :: "int list"
  ins_dependencies :: "string set"
  ins_priority :: rat

record reuse_entry =
  reuse_writer :: string
  old_state :: string
  new_state :: string
  previous_readers :: "string list"
  reuse_rank :: int
  reuse_offset :: int

record storage_plan =
  plan_values :: "(string, state_value) dict"
  initial_ids :: "string list"
  instructions :: "instruction list"
  addresses :: "(string, address) dict"
  plan_outputs :: "(output_slot, string) dict"
  input_slots :: "(int, int) dict"
  output_slots :: "(int, int) dict"
  scratch_slots :: "(int, int) dict"
  reuse :: "reuse_entry list"
  plan_stage_count :: int
  reference_orders_omitted :: "(string \<times> string) list"

record network_candidate =
  cand_rank_count :: int
  cand_slice_count :: int
  cand_slice_size_bytes :: int
  cand_operations :: "network_operation list"

record schedule_metadata =
  semantic_predecessors :: "(string, string set) dict"
  transfer_participants :: "(string, int list) dict"
  transfer_target_contributors :: "(string, int set) dict"

datatype candidate = OfNetwork network_candidate | OfSchedule schedule schedule_metadata

section \<open>Canonical regions\<close>

text \<open>The resolved request has a slice size, so the slice count is a number; arithmetic on \<^verbatim>\<open>None\<close> is a type error.\<close>

definition slices :: "resolved_input \<Rightarrow> int res" where
  "slices inputs = (case slice_count (hyper inputs) of None \<Rightarrow> Inl TypeError | Some n \<Rightarrow> Inr n)"

definition slice_bytes :: "resolved_input \<Rightarrow> int res" where
  "slice_bytes inputs = (case slice_size_bytes (hyper inputs) of None \<Rightarrow> Inl TypeError | Some b \<Rightarrow> Inr b)"

definition mk_region :: "int \<Rightarrow> string \<Rightarrow> int \<Rightarrow> int \<Rightarrow> string \<Rightarrow> buffer_region res" where
  "mk_region rank ident off sz knd =
     buffer_region_post_init \<lparr>region_rank = rank, buffer_id = ident, region_offset = off, region_size = sz, region_kind = knd\<rparr>"

definition inplace_base :: "resolved_input \<Rightarrow> int \<Rightarrow> address \<Rightarrow> int" where
  "inplace_base inputs n a =
     (if kind (collective inputs) = ALL_GATHER then (if addr_buffer a = ''i'' then addr_rank a * n else 0)
      else if kind (collective inputs) = REDUCE_SCATTER then (if addr_buffer a = ''o'' then addr_rank a * (n div rank_count inputs) else 0)
      else 0)"

definition canonical_region :: "address \<Rightarrow> resolved_input \<Rightarrow> buffer_region res" where
  "canonical_region a inputs =
     bnd (slices inputs) (\<lambda>n. bnd (slice_bytes inputs) (\<lambda>sz.
     if addr_buffer a = ''s'' then mk_region (addr_rank a) ''scratch'' (addr_offset a * sz) sz ''scratch''
     else if \<not> inplace (collective inputs) then
       (let b = (if addr_buffer a = ''i'' then ''input'' else ''output'') in mk_region (addr_rank a) b (addr_offset a * sz) sz b)
     else mk_region (addr_rank a) ''inplace'' ((inplace_base inputs n a + addr_offset a) * sz) sz ''data''))"

section \<open>Network operations\<close>

text \<open>The members of a transfer share one logical position; \<^verbatim>\<open>next(iter(members))\<close> is taken to be the least.\<close>

definition all_contributors :: "resolved_input \<Rightarrow> int \<Rightarrow> int set \<Rightarrow> int set" where
  "all_contributors inputs n members = set (map (\<lambda>rank. rank * n + Min members mod n) (py_range 0 (rank_count inputs)))"

definition normalize_transfer :: "resolved_input \<Rightarrow> int \<Rightarrow> schedule_metadata \<Rightarrow> transfer \<Rightarrow> network_operation" where
  "normalize_transfer inputs n md t = \<lparr>net_id = transfer_id t,
     net_kind = (if transfer_kind t = ''REDUCE'' then ''rrc'' else ''send''),
     net_src = t_src_rank t, net_dst = t_dst_rank t, net_channel = channel t, net_stage = t_stage_id t,
     net_contributors = member_slice_ids t,
     net_targets = dict_get (transfer_target_contributors md) (transfer_id t) (all_contributors inputs n (member_slice_ids t)),
     net_participants = dict_get (transfer_participants md) (transfer_id t) (py_range 0 (rank_count inputs)),
     net_dependencies = dict_get (semantic_predecessors md) (transfer_id t) (predecessor_ids t),
     net_references = predecessor_ids t, net_priority = st_time t\<rparr>"

definition normalize_network :: "candidate \<Rightarrow> resolved_input \<Rightarrow> network_operation list res" where
  "normalize_network c inputs =
     (let wanted = (rank_count inputs, slice_count (hyper inputs), slice_size_bytes (hyper inputs)) in
      case c of
        OfNetwork nc \<Rightarrow> ensure ((cand_rank_count nc, Some (cand_slice_count nc), Some (cand_slice_size_bytes nc)) = wanted)
          (SemanticError ''network repair dimensions differ from the resolved request'') (Inr (cand_operations nc))
      | OfSchedule s md \<Rightarrow> ensure ((s_rank_count s, Some (s_slice_count s), Some (s_slice_size s)) = wanted)
          (SemanticError ''candidate dimensions differ from the resolved request'') (
          Inr (map (normalize_transfer inputs (s_slice_count s) md) (transfers s))))"

definition share_rank :: "network_operation \<Rightarrow> network_operation \<Rightarrow> bool" where
  "share_rank a b \<longleftrightarrow> {net_src a, net_dst a} \<inter> {net_src b, net_dst b} \<noteq> {}"

definition network_precedence :: "(string, network_operation) dict \<Rightarrow> network_operation \<Rightarrow> (string \<times> string set) res" where
  "network_precedence by_id op =
     ensure (net_references op \<subseteq> set (dict_keys by_id)) (SemanticError ''unknown network reference dependency'') (
     Inr (net_id op, net_dependencies op \<union> Set.filter (\<lambda>k. share_rank op (the (map_of by_id k))) (net_references op)))"

definition network_order :: "network_operation list \<Rightarrow> network_operation list res option" where
  "network_order ops =
     (let by_id = dict_of (map (\<lambda>op. (net_id op, op)) ops) in
      case ensure (\<not> (length by_id \<noteq> length ops \<or> (\<exists>op\<in>set ops. \<not> net_dependencies op \<subseteq> set (dict_keys by_id))))
             (SemanticError ''network dependencies or operation identities are invalid'') (
           bnd (map_res (network_precedence by_id) ops) (\<lambda>entries. Inr (dict_of entries))) of
        Inl e \<Rightarrow> Some (Inl e)
      | Inr precedence \<Rightarrow> fixed_priority_order by_id precedence (\<lambda>op. (net_priority op, net_stage op, net_id op))
          ''network semantic dependencies contain a cycle'')"

section \<open>State versions\<close>

record flow_state =
  flow_values :: "(string, state_value) dict"
  by_position :: "(int \<times> int, state_value list) dict"
  flow_initial :: "string list"
  flow_addresses :: "(string, address) dict"
  flow_instructions :: "instruction list"
  flow_omitted :: "(string \<times> string) list"

definition add_value :: "state_value \<Rightarrow> flow_state \<Rightarrow> flow_state" where
  "add_value v fl = fl\<lparr>flow_values := AList.update (val_id v) v (flow_values fl),
     by_position := AList.update (val_rank v, val_position v) (dict_get (by_position fl) (val_rank v, val_position v) [] @ [v]) (by_position fl)\<rparr>"

definition state_name :: "string \<Rightarrow> string" where
  "state_name op = ''state-'' @ op"

definition input_id :: "int \<Rightarrow> int \<Rightarrow> string" where
  "input_id rank logical = ''input-r'' @ str_int rank @ ''-s'' @ str_int logical"

definition add_input :: "int \<Rightarrow> flow_state \<Rightarrow> int \<times> int \<Rightarrow> flow_state" where
  "add_input n fl p = (case p of (rank, logical) \<Rightarrow>
     let fl1 = add_value \<lparr>val_id = input_id rank logical, val_rank = rank, val_position = logical,
                 val_contributors = {rank * n + logical}, val_producer = None\<rparr> fl
     in fl1\<lparr>flow_initial := flow_initial fl1 @ [input_id rank logical],
            flow_addresses := AList.update (input_id rank logical) (Address rank ''i'' logical) (flow_addresses fl1)\<rparr>)"

definition plan_sources :: "resolved_input \<Rightarrow> int list" where
  "plan_sources inputs = (if kind (collective inputs) = BROADCAST then [root_value (collective inputs)] else py_range 0 (rank_count inputs))"

definition initial_flow :: "resolved_input \<Rightarrow> int \<Rightarrow> flow_state" where
  "initial_flow inputs n = foldl (add_input n)
     \<lparr>flow_values = [], by_position = [], flow_initial = [], flow_addresses = [], flow_instructions = [], flow_omitted = []\<rparr>
     (List.product (plan_sources inputs) (py_range 0 n))"

definition operation_ranges :: "int \<Rightarrow> int \<Rightarrow> int set \<Rightarrow> int \<Rightarrow> data_range list res" where
  "operation_ranges n sz cs logical =
     map_res (\<lambda>s. data_range_post_init (DataRange (s div n) (logical * sz) ((logical + 1) * sz))) (sorted_list_of_set cs)"

definition check_operation :: "resolved_input \<Rightarrow> topology \<Rightarrow> constraint_set \<Rightarrow> int \<Rightarrow> int \<Rightarrow> network_operation \<Rightarrow> int res" where
  "check_operation inputs topo cs n sz op =
     ensure (\<not> (net_contributors op = {} \<or> card ((\<lambda>s. s mod n) ` net_contributors op) \<noteq> 1))
       (SemanticError ''a physical transfer must carry one logical slice position'') (
     let logical = Min (net_contributors op) mod n in
     bnd (link_key_post_init (net_src op) (net_dst op)) (\<lambda>k.
     bnd (link topo k) (\<lambda>edge.
     ensure (0 \<le> net_channel op \<and> net_channel op < min (solver_max_channels inputs) (dl_max_channels edge))
       (SemanticError ''candidate channel is outside the selected topology limit'') (
     ensure (\<not> (net_src op \<notin> set (net_participants op) \<or> net_dst op \<notin> set (net_participants op)))
       (SemanticError ''candidate uses a GPU outside its declared role group'') (
     bnd (operation_ranges n sz (net_contributors op) logical) (\<lambda>ranges.
     bnd (allows cs ranges (net_src op) (net_dst op) (net_stage op)) (\<lambda>ok.
     ensure ok (SemanticError ''candidate violates a source-byte directed-edge constraint'') (Inr logical))))))))"

definition values_at :: "flow_state \<Rightarrow> int \<Rightarrow> int \<Rightarrow> state_value list" where
  "values_at fl rank logical = dict_get (by_position fl) (rank, logical) []"

text \<open>\<^verbatim>\<open>max(enumerate(possible), key=...)\<close>: the last of the values with the most contributors.\<close>

definition widest :: "state_value list \<Rightarrow> state_value" where
  "widest vs = foldl (\<lambda>b v. if card (val_contributors b) \<le> card (val_contributors v) then v else b) (hd vs) (tl vs)"

definition choose_source :: "flow_state \<Rightarrow> int \<Rightarrow> network_operation \<Rightarrow> state_value res" where
  "choose_source fl logical op =
     (let found = filter (\<lambda>v. val_contributors v = net_contributors op) (values_at fl (net_src op) logical) in
      ensure (found \<noteq> []) (SemanticError (''network source state is unavailable: '' @ net_id op)) (Inr (last found)))"

definition choose_accumulator :: "flow_state \<Rightarrow> int \<Rightarrow> network_operation \<Rightarrow> state_value res" where
  "choose_accumulator fl logical op =
     (let possible = filter (\<lambda>v. val_contributors v \<inter> net_contributors op = {} \<and> val_contributors v \<subseteq> net_targets op)
            (values_at fl (net_dst op) logical) in
      ensure (possible \<noteq> []) (SemanticError ''network reduction has no disjoint destination state'') (Inr (widest possible)))"

definition operation_reads :: "flow_state \<Rightarrow> int \<Rightarrow> network_operation \<Rightarrow> state_value list res" where
  "operation_reads fl logical op =
     bnd (choose_source fl logical op) (\<lambda>src.
     if net_kind op = ''rrc'' then bnd (choose_accumulator fl logical op) (\<lambda>acc. Inr [src, acc])
     else ensure (net_kind op = ''send'') (SemanticError ''network operation must be send or rrc'') (Inr [src]))"

definition reference_edge :: "(string, network_operation) dict \<Rightarrow> network_operation \<Rightarrow> string set \<times> (string \<times> string) list \<Rightarrow> string
    \<Rightarrow> (string set \<times> (string \<times> string) list) res" where
  "reference_edge by_id op acc pred =
     (case map_of by_id pred of
        None \<Rightarrow> Inl (SemanticError ''candidate has an unknown reference dependency'')
      | Some prior \<Rightarrow> Inr (if share_rank prior op then (insert pred (fst acc), snd acc) else (fst acc, snd acc @ [(pred, net_id op)])))"

definition producers :: "state_value list \<Rightarrow> string set" where
  "producers vs = set (concat (map (\<lambda>v. case val_producer v of None \<Rightarrow> [] | Some p \<Rightarrow> [p]) vs))"

definition add_operation :: "resolved_input \<Rightarrow> topology \<Rightarrow> constraint_set \<Rightarrow> int \<Rightarrow> int \<Rightarrow> (string, network_operation) dict
    \<Rightarrow> flow_state \<Rightarrow> network_operation \<Rightarrow> flow_state res" where
  "add_operation inputs topo cs n sz by_id fl op =
     bnd (check_operation inputs topo cs n sz op) (\<lambda>logical.
     bnd (operation_reads fl logical op) (\<lambda>reads.
     let combined = net_contributors op \<union> \<Union>(val_contributors ` set (tl reads)); deps0 = net_dependencies op \<union> producers reads in
     bnd (for_each (reference_edge by_id op) (deps0, flow_omitted fl) (sorted_list_of_set (net_references op - deps0))) (\<lambda>(deps, omitted).
     let out = \<lparr>val_id = state_name (net_id op), val_rank = net_dst op, val_position = logical, val_contributors = combined,
                val_producer = Some (net_id op)\<rparr>;
         fl1 = add_value out fl
     in Inr (fl1\<lparr>flow_instructions := flow_instructions fl1 @ [\<lparr>ins_id = net_id op, ins_kind = net_kind op, ins_inputs = map val_id reads,
               ins_output = val_id out, ins_rank = net_dst op, ins_peer = net_src op, ins_channel = net_channel op, ins_stage = net_stage op,
               ins_participants = net_participants op, ins_dependencies = deps, ins_priority = net_priority op\<rparr>],
             flow_omitted := omitted\<rparr>))))"

section \<open>Outputs\<close>

record output_state =
  out_flow :: flow_state
  out_slots :: "(output_slot, string) dict"
  direct_outputs :: "(string, address) dict"

definition copy_id_of :: "output_slot \<Rightarrow> string" where
  "copy_id_of slot = ''output-copy-r'' @ str_int (slot_rank slot) @ ''-o'' @ str_int (slot_offset slot)"

definition copy_instruction :: "state_value \<Rightarrow> output_slot \<Rightarrow> int \<Rightarrow> rat \<Rightarrow> instruction" where
  "copy_instruction v slot final_stage final_priority = \<lparr>ins_id = copy_id_of slot, ins_kind = ''copy'', ins_inputs = [val_id v],
     ins_output = state_name (copy_id_of slot), ins_rank = slot_rank slot, ins_peer = -1, ins_channel = -1, ins_stage = final_stage,
     ins_participants = [slot_rank slot],
     ins_dependencies = (case val_producer v of None \<Rightarrow> {} | Some p \<Rightarrow> if p = '''' then {} else {p}),
     ins_priority = final_priority\<rparr>"

definition add_copy :: "state_value \<Rightarrow> output_slot \<Rightarrow> int \<Rightarrow> rat \<Rightarrow> output_state \<Rightarrow> output_state" where
  "add_copy v slot final_stage final_priority st =
     (let ins = copy_instruction v slot final_stage final_priority; fid = ins_output ins; fl = out_flow st;
          fl1 = fl\<lparr>flow_values := AList.update fid \<lparr>val_id = fid, val_rank = val_rank v, val_position = val_position v,
                     val_contributors = val_contributors v, val_producer = Some (ins_id ins)\<rparr> (flow_values fl),
                   flow_addresses := AList.update fid (Address (slot_rank slot) ''o'' (slot_offset slot)) (flow_addresses fl),
                   flow_instructions := flow_instructions fl @ [ins]\<rparr>
      in st\<lparr>out_flow := fl1, out_slots := AList.update slot fid (out_slots st)\<rparr>)"

definition same_place :: "resolved_input \<Rightarrow> address option \<Rightarrow> address \<Rightarrow> bool res" where
  "same_place inputs initial target =
     (case initial of
        None \<Rightarrow> Inr False
      | Some a \<Rightarrow> bnd (canonical_region a inputs) (\<lambda>x. bnd (canonical_region target inputs) (\<lambda>y. Inr (x = y))))"

definition add_output :: "resolved_input \<Rightarrow> int \<Rightarrow> int \<Rightarrow> rat \<Rightarrow> output_state \<Rightarrow> output_slot \<times> int set \<Rightarrow> output_state res" where
  "add_output inputs n final_stage final_priority st entry =
     (case entry of (slot, cs) \<Rightarrow>
       let found = filter (\<lambda>v. val_contributors v = cs) (values_at (out_flow st) (slot_rank slot) (Min cs mod n)) in
       ensure (found \<noteq> []) (SemanticError ''candidate leaves a required collective output unavailable'') (
       let v = last found; target = Address (slot_rank slot) ''o'' (slot_offset slot) in
       bnd (same_place inputs (map_of (flow_addresses (out_flow st)) (val_id v)) target) (\<lambda>here.
       Inr (if here then st\<lparr>out_slots := AList.update slot (val_id v) (out_slots st)\<rparr>
            else if val_producer v \<noteq> None \<and> \<not> inplace (collective inputs) then
              st\<lparr>direct_outputs := AList.update (val_id v) target (direct_outputs st), out_slots := AList.update slot (val_id v) (out_slots st)\<rparr>
            else add_copy v slot final_stage final_priority st))))"

definition final_stage_of :: "network_operation list \<Rightarrow> int" where
  "final_stage_of ops = (if ops = [] then 0 else Max (set (map net_stage ops)))"

definition final_priority_of :: "network_operation list \<Rightarrow> rat" where
  "final_priority_of ops = (if ops = [] then 0 else Max (set (map net_priority ops))) + 1"

section \<open>Read-completion edges\<close>

definition readers_of :: "instruction list \<Rightarrow> string \<Rightarrow> string set" where
  "readers_of ins s = set (map ins_id (filter (\<lambda>op. s \<in> set (ins_inputs op)) ins))"

text \<open>
  The dictionary of initial regions maps a coordinate to the initial states there; a copy waits for the
  readers of those whose region overlaps its target.
\<close>

definition region_of :: "resolved_input \<Rightarrow> (string, address) dict \<Rightarrow> string \<Rightarrow> buffer_region res" where
  "region_of inputs addrs s = bnd (dict_item addrs s) (\<lambda>a. canonical_region a inputs)"

definition initial_regions :: "resolved_input \<Rightarrow> (string, address) dict \<Rightarrow> string list \<Rightarrow> (string \<times> buffer_region) list res" where
  "initial_regions inputs addrs initial = map_res (\<lambda>s. bnd (region_of inputs addrs s) (\<lambda>r. Inr (s, r))) initial"

definition protect :: "resolved_input \<Rightarrow> (string, address) dict \<Rightarrow> (string \<times> buffer_region) list \<Rightarrow> instruction list \<Rightarrow> instruction \<Rightarrow> instruction res" where
  "protect inputs addrs initial ins op =
     (if ins_kind op = ''copy'' then
        bnd (region_of inputs addrs (ins_output op)) (\<lambda>target.
        Inr (op\<lparr>ins_dependencies := ins_dependencies op \<union>
          \<Union>((\<lambda>(s, r). if (region_rank r, buffer_id r, region_offset r) = (region_rank target, buffer_id target, region_offset target)
                  \<and> overlaps target r then readers_of ins s - {ins_id op} else {}) ` set initial)\<rparr>))
      else Inr op)"

section \<open>The order of the instructions\<close>

definition scratch_states :: "(string, state_value) dict \<Rightarrow> (string, address) dict \<Rightarrow> (string, address) dict \<Rightarrow> string set" where
  "scratch_states vals direct addrs = set (map fst (filter (\<lambda>(k, v). val_producer v \<noteq> None \<and> k \<notin> set (dict_keys direct)
     \<and> k \<notin> set (dict_keys addrs)) vals))"

definition releases :: "string set \<Rightarrow> (string, int) dict \<Rightarrow> instruction \<Rightarrow> int" where
  "releases scratch remaining op = int (length (filter (\<lambda>k. k \<in> scratch \<and> dict_get remaining k 0 = 1) (ins_inputs op)))"

definition count_read :: "(string, int) dict \<Rightarrow> string \<Rightarrow> (string, int) dict res" where
  "count_read remaining k = bnd (dict_item remaining k) (\<lambda>m. Inr (AList.update k (m - 1) remaining))"

text \<open>The loop for a tight budget: among the ready operations, those that free scratch storage first.\<close>

function tight_order :: "string set \<Rightarrow> (string, instruction) dict \<Rightarrow> string set \<Rightarrow> (string, int) dict \<Rightarrow> instruction list \<Rightarrow> instruction list res" where
  "tight_order scratch pending finished remaining ordered =
     (if pending = [] then Inr ordered
      else let ready = filter (\<lambda>(_, op). ins_dependencies op \<subseteq> finished) pending in
        if ready = [] then Inl (SemanticError ''storage and reference orders contain a dependency cycle'')
        else let (key, op) = arg_min_list (\<lambda>(_, op). (- releases scratch remaining op, ins_priority op, ins_id op)) ready in
          bnd (for_each count_read remaining (ins_inputs op)) (\<lambda>remaining'.
            tight_order scratch (filter (\<lambda>(k, _). k \<noteq> key) pending) (insert key finished) remaining' (ordered @ [op])))"
  by pat_completeness auto

termination
proof (relation "measure (\<lambda>(scratch, pending, finished, remaining, ordered). length pending)", goal_cases)
  case (2 scratch pending finished remaining ordered ready x key op remaining')
  have "x \<in> set ready" using arg_min_list_in [OF 2(3)] 2(4) by simp
  then have "(key, op) \<in> set pending" using 2(2,5) by auto
  then have "length (filter (\<lambda>(k, _). k \<noteq> key) pending) < length pending"
    by (intro length_filter_less [of "(key, op)"]) auto
  then show ?case by simp
qed simp

declare tight_order.simps [simp del]

definition remaining_reads :: "instruction list \<Rightarrow> (string, int) dict" where
  "remaining_reads ins = dict_of (map (\<lambda>s. (s, int (card (readers_of ins s)))) (concat (map ins_inputs ins)))"

definition order_instructions :: "bool \<Rightarrow> string set \<Rightarrow> instruction list \<Rightarrow> instruction list res option" where
  "order_instructions tight scratch ins =
     (let pending = dict_of (map (\<lambda>op. (ins_id op, op)) ins) in
      if tight then Some (tight_order scratch pending {} (remaining_reads ins) [])
      else fixed_priority_order pending (map (\<lambda>(k, op). (k, ins_dependencies op)) pending) (\<lambda>op. (ins_priority op, ins_id op))
        ''storage and reference orders contain a dependency cycle'')"

section \<open>Scratch slots\<close>

record alloc_state =
  al_addresses :: "(string, address) dict"
  al_ancestors :: "(string, string set) dict"
  al_slots :: "(int, (int, string) dict) dict"
  al_reuse :: "reuse_entry list"
  al_instructions :: "instruction list"

record slot_choice =
  ch_late :: bool
  ch_index :: int
  ch_prior :: string
  ch_readers :: "string set"

definition upstream_of :: "(string, string set) dict \<Rightarrow> string set \<Rightarrow> string set res" where
  "upstream_of ancestors deps = bnd (map_res (dict_item ancestors) (sorted_list_of_set deps)) (\<lambda>as. Inr (deps \<union> \<Union>(set as)))"

text \<open>The readers of the value in a slot that must have finished before \<open>op\<close> writes there.\<close>

definition pending_readers :: "instruction list \<Rightarrow> instruction \<Rightarrow> string \<Rightarrow> string set" where
  "pending_readers ins op prior =
     readers_of ins prior - (if prior \<in> set (ins_inputs op) \<and> ins_kind op = ''rrc'' then {ins_id op} else {})"

definition slot_choices :: "instruction list \<Rightarrow> (string, nat) dict \<Rightarrow> string set \<Rightarrow> instruction \<Rightarrow> (int, string) dict \<Rightarrow> slot_choice list" where
  "slot_choices ins position upstream op pool =
     map (\<lambda>(index, prior). \<lparr>ch_late = (\<not> pending_readers ins op prior \<subseteq> upstream), ch_index = index, ch_prior = prior,
            ch_readers = pending_readers ins op prior\<rparr>)
       (filter (\<lambda>(index, prior). \<forall>r\<in>pending_readers ins op prior. dict_get position r 0 < dict_get position (ins_id op) 0) pool)"

definition reuse_slot :: "instruction \<Rightarrow> string set \<Rightarrow> slot_choice \<Rightarrow> string set \<times> int \<times> reuse_entry list" where
  "reuse_slot op deps c = (deps \<union> ch_readers c, ch_index c,
     [\<lparr>reuse_writer = ins_id op, old_state = ch_prior c, new_state = ins_output op,
       previous_readers = sorted_list_of_set (ch_readers c), reuse_rank = ins_rank op, reuse_offset = ch_index c\<rparr>])"

definition choose_slot :: "instruction list \<Rightarrow> (string, nat) dict \<Rightarrow> int \<Rightarrow> string set \<Rightarrow> instruction \<Rightarrow> (int, string) dict
    \<Rightarrow> (string set \<times> int \<times> reuse_entry list) res" where
  "choose_slot ins position capacity upstream op pool =
     (let available = slot_choices ins position upstream op pool; causal = filter (\<lambda>c. \<not> ch_late c) available in
      if causal \<noteq> [] \<or> (capacity \<le> int (length pool) \<and> available \<noteq> []) then
        Inr (reuse_slot op (ins_dependencies op) (arg_min_list (\<lambda>c. (ch_late c, ch_index c)) (if causal \<noteq> [] then causal else available)))
      else if int (length pool) < capacity then Inr (ins_dependencies op, int (length pool), [])
      else Inl (SemanticError ''scratch storage budget cannot fit this execution order''))"

definition allocate :: "instruction list \<Rightarrow> (string, nat) dict \<Rightarrow> int \<Rightarrow> (string, address) dict \<Rightarrow> alloc_state \<Rightarrow> instruction \<Rightarrow> alloc_state res" where
  "allocate ins position capacity direct al op =
     bnd (upstream_of (al_ancestors al) (ins_dependencies op)) (\<lambda>upstream.
     bnd (case map_of direct (ins_output op) of
            Some a \<Rightarrow> Inr (ins_dependencies op, al\<lparr>al_addresses := AList.update (ins_output op) a (al_addresses al)\<rparr>)
          | None \<Rightarrow>
              if ins_output op \<in> set (dict_keys (al_addresses al)) then Inr (ins_dependencies op, al)
              else let pool = dict_get (al_slots al) (ins_rank op) [] in
                bnd (choose_slot ins position capacity upstream op pool) (\<lambda>(deps, index, entry).
                Inr (deps, al\<lparr>al_addresses := AList.update (ins_output op) (Address (ins_rank op) ''s'' index) (al_addresses al),
                              al_slots := AList.update (ins_rank op) (AList.update index (ins_output op) pool) (al_slots al),
                              al_reuse := al_reuse al @ entry\<rparr>))) (\<lambda>(deps, al1).
     bnd (upstream_of (al_ancestors al1) deps) (\<lambda>up.
     Inr (al1\<lparr>al_ancestors := AList.update (ins_id op) up (al_ancestors al1),
              al_instructions := al_instructions al1 @ [op\<lparr>ins_dependencies := deps\<rparr>]\<rparr>))))"

definition positions :: "instruction list \<Rightarrow> (string, nat) dict" where
  "positions ordered = dict_of (map (\<lambda>(i, op). (ins_id op, i)) (enumerate 0 ordered))"

section \<open>The plan\<close>

definition output_slot_counts :: "resolved_input \<Rightarrow> (output_slot, int set) dict \<Rightarrow> (int, int) dict" where
  "output_slot_counts inputs expected = map (\<lambda>rank.
     let offs = map (\<lambda>(slot, _). slot_offset slot + 1) (filter (\<lambda>(slot, _). slot_rank slot = rank) expected)
     in (rank, if offs = [] then 0 else Max (set offs))) (py_range 0 (rank_count inputs))"

record planned_flow =
  pf_state :: output_state
  pf_expected :: "(output_slot, int set) dict"
  pf_protected :: "instruction list"

definition plan_flow :: "resolved_input \<Rightarrow> topology \<Rightarrow> network_operation list \<Rightarrow> planned_flow res" where
  "plan_flow inputs topo ops =
     bnd (slices inputs) (\<lambda>n. bnd (slice_bytes inputs) (\<lambda>sz.
     bnd (required_outputs (collective inputs) (rank_count inputs) n) (\<lambda>expected.
     bnd (bind_constraints inputs) (\<lambda>cs.
     bnd (for_each (add_operation inputs topo cs n sz (dict_of (map (\<lambda>op. (net_id op, op)) ops))) (initial_flow inputs n) ops) (\<lambda>fl.
     bnd (for_each (add_output inputs n (final_stage_of ops) (final_priority_of ops)) \<lparr>out_flow = fl, out_slots = [], direct_outputs = []\<rparr>
            (sort_key fst expected)) (\<lambda>st.
     let ins = flow_instructions (out_flow st); addrs = flow_addresses (out_flow st) in
     bnd (initial_regions inputs addrs (flow_initial (out_flow st))) (\<lambda>initial.
     bnd (map_res (protect inputs addrs initial ins) ins) (\<lambda>ps.
     Inr \<lparr>pf_state = st, pf_expected = expected, pf_protected = ps\<rparr>))))))))"

definition place_flow :: "resolved_input \<Rightarrow> network_operation list \<Rightarrow> planned_flow \<Rightarrow> instruction list \<Rightarrow> storage_plan res" where
  "place_flow inputs ops pf ordered =
     bnd (slices inputs) (\<lambda>n. bnd (slice_bytes inputs) (\<lambda>sz.
     let st = pf_state pf; fl = out_flow st in
     bnd (for_each (allocate (pf_protected pf) (positions ordered) (scratch_bytes_per_rank inputs div sz) (direct_outputs st))
            \<lparr>al_addresses = flow_addresses fl, al_ancestors = [], al_slots = [], al_reuse = [], al_instructions = []\<rparr> ordered) (\<lambda>al.
     Inr \<lparr>plan_values = flow_values fl, initial_ids = flow_initial fl, instructions = al_instructions al, addresses = al_addresses al,
          plan_outputs = out_slots st, input_slots = map (\<lambda>rank. (rank, n)) (py_range 0 (rank_count inputs)),
          output_slots = output_slot_counts inputs (pf_expected pf),
          scratch_slots = map (\<lambda>rank. (rank, int (length (dict_get (al_slots al) rank [])))) (py_range 0 (rank_count inputs)),
          reuse = al_reuse al,
          plan_stage_count = (case stage_num (atom_cons inputs) of Some k \<Rightarrow> (if k = 0 then final_stage_of ops + 1 else k) | None \<Rightarrow> final_stage_of ops + 1),
          reference_orders_omitted = flow_omitted fl\<rparr>)))"

definition tight_budget :: "resolved_input \<Rightarrow> planned_flow \<Rightarrow> string set \<Rightarrow> bool res" where
  "tight_budget inputs pf scratch = bnd (slice_bytes inputs) (\<lambda>sz. Inr (scratch_bytes_per_rank inputs div sz < max 1 (int (card scratch))))"

definition build_storage_plan :: "candidate \<Rightarrow> resolved_input \<Rightarrow> topology \<Rightarrow> storage_plan res option" where
  "build_storage_plan c inputs topo =
     (case normalize_network c inputs of
        Inl e \<Rightarrow> Some (Inl e)
      | Inr raw \<Rightarrow> (case network_order raw of
          None \<Rightarrow> None
        | Some (Inl e) \<Rightarrow> Some (Inl e)
        | Some (Inr ops) \<Rightarrow> (case plan_flow inputs topo ops of
            Inl e \<Rightarrow> Some (Inl e)
          | Inr pf \<Rightarrow>
              (let fl = out_flow (pf_state pf); scratch = scratch_states (flow_values fl) (direct_outputs (pf_state pf)) (flow_addresses fl) in
               case tight_budget inputs pf scratch of
                 Inl e \<Rightarrow> Some (Inl e)
               | Inr tight \<Rightarrow> map_option (\<lambda>r. bnd r (place_flow inputs ops pf)) (order_instructions tight scratch (pf_protected pf))))))"

end
