(* ===== verification/Storage_Safety.thy ===== *)
theory Storage_Safety
  imports Storage_Plan
begin

text \<open>
  What a storage plan promises: however its instructions are interleaved, as long as each
  one runs after those it depends on, every instruction reads the values it was planned to read and the
  outputs of the collective are in place at the end.
\<close>

section \<open>Executing instructions on memory\<close>

text \<open>
  A region holds the multiset of the original slices summed into it.  An instruction stores the sum of
  what it reads; a send and a copy read one value, a receive-reduce-copy two.
\<close>

type_synonym slice_memory = "buffer_region \<Rightarrow> int multiset"

definition run_instruction :: "(string \<Rightarrow> buffer_region) \<Rightarrow> slice_memory \<Rightarrow> instruction \<Rightarrow> slice_memory" where
  "run_instruction regs m op = m(regs (ins_output op) := (\<Sum>s\<leftarrow>ins_inputs op. m (regs s)))"

definition run_instructions :: "(string \<Rightarrow> buffer_region) \<Rightarrow> slice_memory \<Rightarrow> instruction list \<Rightarrow> slice_memory" where
  "run_instructions regs m ops = foldl (run_instruction regs) m ops"

text \<open>The orders a plan allows: every instruction once, after the instructions it depends on.\<close>

definition legal_order :: "instruction list \<Rightarrow> instruction list \<Rightarrow> bool" where
  "legal_order ins order \<longleftrightarrow> mset order = mset ins
     \<and> (\<forall>pre op post. order = pre @ op # post \<longrightarrow> ins_dependencies op \<subseteq> ins_id ` set pre)"

section \<open>Disciplined storage\<close>

definition must_precede :: "instruction list \<Rightarrow> (string \<times> string) set" where
  "must_precede ins = {(d, ins_id op) | d op. op \<in> set ins \<and> d \<in> ins_dependencies op}\<^sup>+"

text \<open>\<open>w\<close> may overwrite the state \<open>s\<close>: its producer and all its readers (except \<open>w\<close> itself) run first.\<close>

definition settled :: "instruction list \<Rightarrow> string \<Rightarrow> instruction \<Rightarrow> bool" where
  "settled ins s w \<longleftrightarrow> (\<forall>r\<in>set ins. s \<in> set (ins_inputs r) \<longrightarrow> r = w \<or> (ins_id r, ins_id w) \<in> must_precede ins)
     \<and> (\<forall>p\<in>set ins. ins_output p = s \<longrightarrow> (ins_id p, ins_id w) \<in> must_precede ins)"

definition disciplined :: "instruction list \<Rightarrow> (string \<Rightarrow> buffer_region) \<Rightarrow> (string \<Rightarrow> int set) \<Rightarrow> string set \<Rightarrow> bool" where
  "disciplined ins regs cont init \<longleftrightarrow>
     distinct (map ins_id ins) \<and> distinct (map ins_output ins) \<and> ins_output ` set ins \<inter> init = {}
   \<and> (\<forall>op\<in>set ins. \<forall>s\<in>set (ins_inputs op). s \<in> init \<or> (\<exists>p\<in>set ins. ins_output p = s \<and> ins_id p \<in> ins_dependencies op))
   \<and> (\<forall>op\<in>set ins. mset_set (cont (ins_output op)) = (\<Sum>s\<leftarrow>ins_inputs op. mset_set (cont s)))
   \<and> (\<forall>w\<in>set ins. \<forall>s\<in>init \<union> ins_output ` set ins. s \<noteq> ins_output w \<and> regs s = regs (ins_output w) \<longrightarrow>
        settled ins s w \<or> (\<exists>p\<in>set ins. ins_output p = s \<and> settled ins (ins_output w) p))"

lemma legal_prefix_closed:
  assumes "legal_order ins (pre @ post)" "distinct (map ins_id ins)" "(a, b) \<in> must_precede ins" "b \<in> ins_id ` set pre"
  shows "a \<in> ins_id ` set pre"
proof -
  have step: "d \<in> ins_id ` set pre" if op: "op \<in> set ins" "d \<in> ins_dependencies op" and mem: "ins_id op \<in> ins_id ` set pre" for d op
  proof -
    have sub: "set pre \<subseteq> set ins" using assms(1) by (metis Un_upper1 legal_order_def mset_eq_setD set_append)
    obtain op' where "op' \<in> set pre" "ins_id op' = ins_id op" using mem by auto
    then have "op \<in> set pre" using op(1) sub assms(2) by (auto simp: distinct_map inj_on_def)
    then obtain xs ys where "pre = xs @ op # ys" by (meson split_list)
    with assms(1) have "ins_dependencies op \<subseteq> ins_id ` set xs" "set xs \<subseteq> set pre" by (auto simp: legal_order_def)
    with op(2) show ?thesis by blast
  qed
  from assms(3,4) show ?thesis
    unfolding must_precede_def by (induction rule: converse_trancl_induct) (use step in blast)+
qed

definition present :: "string set \<Rightarrow> instruction list \<Rightarrow> string \<Rightarrow> bool" where
  "present init pre s \<longleftrightarrow> s \<in> init \<or> s \<in> ins_output ` set pre"

definition overwritten :: "instruction list \<Rightarrow> (string \<Rightarrow> buffer_region) \<Rightarrow> instruction list \<Rightarrow> string \<Rightarrow> bool" where
  "overwritten ins regs pre s \<longleftrightarrow> (\<exists>w\<in>set pre. ins_output w \<noteq> s \<and> regs (ins_output w) = regs s \<and> settled ins s w)"

lemma disciplined_reads:
  assumes d: "disciplined ins regs cont init" and l: "legal_order ins (pre @ op # post)" and s: "s \<in> set (ins_inputs op)"
  shows "present init pre s" "\<not> overwritten ins regs pre s"
proof -
  have ids: "distinct (map ins_id ins)" and mem: "mset ins = mset (pre @ op # post)" using d l by (auto simp: disciplined_def legal_order_def)
  have ins: "set ins = set (pre @ op # post)" using mem by (metis mset_eq_setD)
  have dist: "distinct (map ins_id (pre @ op # post))" using ids mem by (metis mset_eq_imp_distinct_iff mset_map)
  have deps: "ins_dependencies op \<subseteq> ins_id ` set pre" using l by (auto simp: legal_order_def)
  have "s \<in> init \<or> (\<exists>p\<in>set ins. ins_output p = s \<and> ins_id p \<in> ins_dependencies op)"
    using d ins s by (auto simp: disciplined_def)
  then show "present init pre s"
  proof
    assume "\<exists>p\<in>set ins. ins_output p = s \<and> ins_id p \<in> ins_dependencies op"
    then obtain p q where p: "p \<in> set ins" "ins_output p = s" "q \<in> set pre" "ins_id q = ins_id p" using deps by auto
    have "q \<in> set ins" using p(3) ins by simp
    then have "p = q" using p(1,4) ids by (auto simp: distinct_map inj_on_def)
    with p show ?thesis by (auto simp: present_def)
  qed (simp add: present_def)
  show "\<not> overwritten ins regs pre s"
  proof
    assume "overwritten ins regs pre s"
    then obtain w where w: "w \<in> set pre" "settled ins s w" unfolding overwritten_def by blast
    have "op \<in> set ins" using ins by simp
    with w s have "op = w \<or> (ins_id op, ins_id w) \<in> must_precede ins" unfolding settled_def by blast
    then have "ins_id op \<in> ins_id ` set pre"
      using legal_prefix_closed [OF l ids, of "ins_id op" "ins_id w"] w(1) by auto
    with dist show False by auto
  qed
qed

lemma disciplined_run:
  assumes d: "disciplined ins regs cont init" and m: "\<And>s. s \<in> init \<Longrightarrow> m (regs s) = mset_set (cont s)"
  shows "legal_order ins (pre @ post) \<Longrightarrow> present init pre s \<Longrightarrow> \<not> overwritten ins regs pre s
    \<Longrightarrow> run_instructions regs m pre (regs s) = mset_set (cont s)"
proof (induction pre arbitrary: post s rule: rev_induct)
  case Nil
  then show ?case using m by (simp add: run_instructions_def present_def)
next
  case (snoc op pre)
  have l: "legal_order ins (pre @ op # post)" using snoc.prems(1) by simp
  have ins: "set ins = set (pre @ op # post)" using l by (metis legal_order_def mset_eq_setD)
  let ?m = "run_instructions regs m pre"
  have run: "run_instructions regs m (pre @ [op]) = ?m(regs (ins_output op) := (\<Sum>s\<leftarrow>ins_inputs op. ?m (regs s)))"
    by (simp add: run_instructions_def run_instruction_def)
  have ih: "?m (regs t) = mset_set (cont t)" if "present init pre t" "\<not> overwritten ins regs pre t" for t
    by (rule snoc.IH [OF l that])
  show ?case
  proof (cases "s = ins_output op")
    case True
    have "(\<Sum>t\<leftarrow>ins_inputs op. ?m (regs t)) = (\<Sum>t\<leftarrow>ins_inputs op. mset_set (cont t))"
      using ih disciplined_reads [OF d l] by (intro arg_cong [of _ _ sum_list] map_cong) auto
    also have "\<dots> = mset_set (cont s)" using d ins True by (auto simp: disciplined_def)
    finally show ?thesis by (simp add: run True)
  next
    case False
    have pre: "present init pre s" "\<not> overwritten ins regs pre s" using snoc.prems(2,3) False by (auto simp: present_def overwritten_def)
    have "regs s \<noteq> regs (ins_output op)"
    proof
      assume same: "regs s = regs (ins_output op)"
      have "\<not> settled ins s op" using snoc.prems(3) False same by (auto simp: overwritten_def)
      moreover have "s \<in> init \<union> ins_output ` set ins" using pre(1) ins by (auto simp: present_def)
      moreover have "op \<in> set ins" using ins by simp
      ultimately obtain p where p: "p \<in> set ins" "ins_output p = s" "settled ins (ins_output op) p"
        using d False same unfolding disciplined_def by metis
      have "s \<notin> init" using p(1,2) d by (auto simp: disciplined_def)
      then obtain q where q: "q \<in> set pre" "ins_output q = s" using pre(1) by (auto simp: present_def)
      have "q = p" using p q ins d by (auto simp: disciplined_def distinct_map inj_on_def)
      have "(ins_id op, ins_id p) \<in> must_precede ins" using p(3) \<open>op \<in> set ins\<close> by (auto simp: settled_def)
      moreover have ids: "distinct (map ins_id ins)" using d by (simp add: disciplined_def)
      ultimately have "ins_id op \<in> ins_id ` set pre" using legal_prefix_closed [OF l] q(1) \<open>q = p\<close> by blast
      moreover have "distinct (map ins_id (pre @ op # post))"
        using ids l by (metis legal_order_def mset_eq_imp_distinct_iff mset_map)
      ultimately show False by auto
    qed
    with ih [OF pre] show ?thesis by (simp add: run)
  qed
qed

lemma disciplined_delivers:
  assumes "disciplined ins regs cont init" "\<And>s. s \<in> init \<Longrightarrow> m (regs s) = mset_set (cont s)" "legal_order ins order"
    and "s \<in> init \<union> ins_output ` set ins" "\<And>w. w \<in> set ins \<Longrightarrow> ins_output w \<noteq> s \<Longrightarrow> regs (ins_output w) \<noteq> regs s"
  shows "run_instructions regs m order (regs s) = mset_set (cont s)"
proof -
  have ins: "set order = set ins" using assms(3) by (metis legal_order_def mset_eq_setD)
  have "present init order s" using assms(4) ins by (auto simp: present_def)
  moreover have "\<not> overwritten ins regs order s" using assms(5) ins by (auto simp: overwritten_def)
  ultimately show ?thesis using disciplined_run [OF assms(1,2), of order "[]" s] assms(3) by simp
qed

end
