(* ===== verification/Storage_Correct.thy ===== *)
theory Storage_Correct
  imports Storage_Safety
begin

text \<open>
  The plans of \<^verbatim>\<open>build_storage_plan\<close> are disciplined: the order of the instructions, the state
  versions, the output bindings and the allocation of scratch slots, each by its own invariant.
\<close>

section \<open>Orders\<close>

lemma keyed_order:
  assumes "distinct (map key xs)" "\<forall>x\<in>set xs. finite (deps x)"
    and "fixed_priority_order (map (\<lambda>x. (key x, x)) xs) (map (\<lambda>x. (key x, deps x)) xs) prio msg = Some (Inr ys)"
  shows "mset ys = mset xs" "ys = pre @ y # post \<Longrightarrow> deps y \<subseteq> key ` set pre"
proof -
  let ?b = "map (\<lambda>x. (key x, x)) xs" and ?p = "map (\<lambda>x. (key x, deps x)) xs"
  have hyp: "wf_dict ?b" "wf_dict ?p" "finite_deps ?p" "set (dict_keys ?p) = set (dict_keys ?b)"
    using assms(1,2) by (auto simp: comp_def finite_deps_def)
  from fixed_priority_order_result [OF hyp, of prio msg] assms(3) obtain order where
    o: "ys = map (\<lambda>k. the (map_of ?b k)) order" "set order = set (dict_keys ?b)" "topological (deps_of ?p) order" by auto
  have item: "the (map_of ?b (key x)) = x" "deps_of ?p (key x) = deps x" if "x \<in> set xs" for x
  proof -
    have "(key x, x) \<in> set ?b" "(key x, deps x) \<in> set ?p" using that by auto
    then show "the (map_of ?b (key x)) = x" "deps_of ?p (key x) = deps x" using hyp(1,2) by (simp, intro deps_of_mem)
  qed
  have "distinct order" using o(3) by (simp add: topological_def)
  then have "mset order = mset (map key xs)"
    using o(2) assms(1) by (metis (no_types, lifting) hyp(1) set_eq_iff_mset_eq_distinct list.map_comp map_eq_conv comp_def fst_conv)
  then have "mset ys = image_mset (\<lambda>k. the (map_of ?b k)) (mset (map key xs))" by (simp add: o(1))
  also have "\<dots> = mset (map (\<lambda>x. x) xs)"
    unfolding mset_map [symmetric] map_map using item(1) by (intro arg_cong [of _ _ mset] map_cong) (simp_all add: comp_def)
  finally show ys: "mset ys = mset xs" by simp
  show "deps y \<subseteq> key ` set pre" if split: "ys = pre @ y # post"
  proof -
    obtain ks k kt where ks: "order = ks @ k # kt" "pre = map (\<lambda>k. the (map_of ?b k)) ks" "y = the (map_of ?b k)"
      using split o(1) by (auto simp: map_eq_append_conv Cons_eq_map_conv)
    have item_of: "key (the (map_of ?b j)) = j \<and> the (map_of ?b j) \<in> set xs" if "j \<in> set order" for j
      using that o(2) item(1) by auto
    have "deps y = deps_of ?p k" using item_of [of k] item(2) [of y] ks by auto
    also have "\<dots> \<subseteq> set ks" using o(3) ks(1) by (auto simp: topological_def)
    also have "\<dots> = key ` set pre" using item_of ks by (force simp: image_image)
    finally show ?thesis .
  qed
qed

definition finite_operation :: "network_operation \<Rightarrow> bool" where
  "finite_operation op \<longleftrightarrow> finite (net_contributors op) \<and> finite (net_dependencies op) \<and> finite (net_references op)"

lemma network_order_perm:
  assumes "network_order raw = Some (Inr ops)" "\<forall>op\<in>set raw. finite_operation op"
  shows "mset ops = mset raw" "distinct (map net_id ops)" "ops = pre @ op # post \<Longrightarrow> net_dependencies op \<subseteq> net_id ` set pre"
proof -
  let ?by = "dict_of (map (\<lambda>op. (net_id op, op)) raw)"
  obtain entries where len: "length ?by = length raw" and map: "map_res (network_precedence ?by) raw = Inr entries"
    and run: "fixed_priority_order ?by (dict_of entries) (\<lambda>op. (net_priority op, net_stage op, net_id op))
        ''network semantic dependencies contain a cycle'' = Some (Inr ops)"
    using assms(1) by (auto simp: network_order_def Let_def res_simps split: sum.splits)
  have ids: "distinct (map net_id raw)" using len length_dict_of [of "[]" "map (\<lambda>op. (net_id op, op)) raw"]
    by (simp add: dict_of_def comp_def)
  then have by_eq: "?by = map (\<lambda>op. (net_id op, op)) raw" by (simp add: dict_of_distinct comp_def)
  define P where "P op = net_dependencies op \<union> Set.filter (\<lambda>k. share_rank op (the (map_of ?by k))) (net_references op)" for op
  have ents: "entries = map (\<lambda>op. (net_id op, P op)) raw"
    using map unfolding map_res_Inr_iff by (induction raw entries rule: list_all2_induct) (auto simp: network_precedence_def P_def res_simps)
  have "dict_of entries = map (\<lambda>op. (net_id op, P op)) raw" using ids by (simp add: ents dict_of_distinct comp_def)
  note run' = run [unfolded this by_eq]
  have fin: "\<forall>op\<in>set raw. finite (P op)" using assms(2) by (auto simp: P_def finite_operation_def)
  note k = keyed_order [OF ids fin run']
  show m: "mset ops = mset raw" using k(1) by simp
  then have "mset (map net_id ops) = mset (map net_id raw)" by simp
  then show "distinct (map net_id ops)" using ids by (metis mset_eq_imp_distinct_iff)
  show "net_dependencies op \<subseteq> net_id ` set pre" if "ops = pre @ op # post" using k(2) [OF that] by (auto simp: P_def)
qed
lemma tight_order_legal:
  assumes "tight_order scratch pending finished remaining ordered = Inr result" "wf_dict pending"
    and "\<forall>(k, op)\<in>set pending. ins_id op = k" "finished = ins_id ` set ordered"
    and "\<forall>pre op post. ordered = pre @ op # post \<longrightarrow> ins_dependencies op \<subseteq> ins_id ` set pre"
  shows "mset result = mset ordered + mset (map snd pending)
    \<and> (\<forall>pre op post. result = pre @ op # post \<longrightarrow> ins_dependencies op \<subseteq> ins_id ` set pre)"
  using assms
proof (induction scratch pending finished remaining ordered arbitrary: result rule: tight_order.induct)
  case (1 scratch pending finished remaining ordered)
  let ?ready = "filter (\<lambda>(_, op). ins_dependencies op \<subseteq> finished) pending"
  let ?key = "\<lambda>(_, op). (- releases scratch remaining op, ins_priority op, ins_id op)"
  show ?case
  proof (cases "pending = []")
    case True
    with 1 show ?thesis by (simp add: tight_order.simps [of _ "[]"])
  next
    case ne: False
    have ready: "?ready \<noteq> []" using "1.prems"(1) ne by (auto simp: tight_order.simps [of _ pending] Let_def)
    obtain key op where m: "arg_min_list ?key ?ready = (key, op)" by fastforce
    obtain remaining' where reads: "for_each count_read remaining (ins_inputs op) = Inr remaining'"
      and next_round: "tight_order scratch (filter (\<lambda>(k, _). k \<noteq> key) pending) (insert key finished) remaining' (ordered @ [op]) = Inr result"
      using "1.prems"(1) ne ready m by (auto simp: tight_order.simps [of _ pending] Let_def res_simps)
    have "(key, op) \<in> set ?ready" using arg_min_list_in [OF ready, of ?key] m by simp
    then have op: "(key, op) \<in> set pending" "ins_dependencies op \<subseteq> finished" by auto
    then have id: "ins_id op = key" using "1.prems"(3) by auto
    have perm: "mset (map snd pending) = add_mset op (mset (map snd (filter (\<lambda>(k, _). k \<noteq> key) pending)))"
    proof -
      have "mset pending = mset (filter (\<lambda>(k, _). k = key) pending) + mset (filter (\<lambda>(k, _). k \<noteq> key) pending)"
        using multiset_partition [of "mset pending" "\<lambda>(k, _). k = key"] by (simp add: case_prod_beta)
      moreover have "filter (\<lambda>(k, _). k = key) pending = [(key, op)]"
        using op(1) "1.prems"(2)
      proof (induction pending)
        case (Cons p ps)
        have "filter (\<lambda>(k, _). k = key) ps = []" if "key \<notin> fst ` set ps" using that by (force simp: filter_empty_conv)
        with Cons show ?case by (cases p) (auto simp: image_iff)
      qed simp
      ultimately have eq: "mset pending = add_mset (key, op) (mset (filter (\<lambda>(k, _). k \<noteq> key) pending))" by simp
      show ?thesis unfolding mset_map by (subst eq) simp
    qed
    have "mset result = mset (ordered @ [op]) + mset (map snd (filter (\<lambda>(k, _). k \<noteq> key) pending))
        \<and> (\<forall>pre op post. result = pre @ op # post \<longrightarrow> ins_dependencies op \<subseteq> ins_id ` set pre)"
    proof (rule "1.IH" [OF ne refl ready m [symmetric] refl next_round])
      show "wf_dict (filter (\<lambda>(k, _). k \<noteq> key) pending)" using "1.prems"(2) by (simp add: distinct_map_filter)
      show "\<forall>(k, op)\<in>set (filter (\<lambda>(k, _). k \<noteq> key) pending). ins_id op = k" using "1.prems"(3) by auto
      show "insert key finished = ins_id ` set (ordered @ [op])" using "1.prems"(4) id by auto
      show "\<forall>pre op' post. ordered @ [op] = pre @ op' # post \<longrightarrow> ins_dependencies op' \<subseteq> ins_id ` set pre"
      proof (intro allI impI)
        fix pre op' post assume e: "ordered @ [op] = pre @ op' # post"
        show "ins_dependencies op' \<subseteq> ins_id ` set pre"
          by (cases post rule: rev_cases) (use e op(2) "1.prems"(4,5) in auto)
      qed
    qed
    with perm show ?thesis by simp
  qed
qed

lemma order_instructions_legal:
  assumes "order_instructions tight scratch ins = Some (Inr ordered)" "distinct (map ins_id ins)"
    and "\<forall>op\<in>set ins. finite (ins_dependencies op)"
  shows "legal_order ins ordered"
proof -
  have pending: "dict_of (map (\<lambda>op. (ins_id op, op)) ins) = map (\<lambda>op. (ins_id op, op)) ins"
    using assms(2) by (simp add: dict_of_distinct comp_def)
  show ?thesis
  proof (cases tight)
    case True
    then have "tight_order scratch (map (\<lambda>op. (ins_id op, op)) ins) {} (remaining_reads ins) [] = Inr ordered"
      using assms(1) by (simp add: order_instructions_def pending)
    from tight_order_legal [OF this] assms(2) show ?thesis by (simp add: legal_order_def comp_def)
  next
    case False
    then have run: "fixed_priority_order (map (\<lambda>op. (ins_id op, op)) ins) (map (\<lambda>op. (ins_id op, ins_dependencies op)) ins)
        (\<lambda>op. (ins_priority op, ins_id op)) ''storage and reference orders contain a dependency cycle'' = Some (Inr ordered)"
      using assms(1) by (simp add: order_instructions_def pending comp_def)
    show ?thesis using keyed_order [OF assms(2,3) run] by (simp add: legal_order_def)
  qed
qed

section \<open>State versions\<close>

definition cont :: "flow_state \<Rightarrow> string \<Rightarrow> int set" where
  "cont fl s = (case map_of (flow_values fl) s of None \<Rightarrow> {} | Some v \<Rightarrow> val_contributors v)"

definition instruction_ok :: "flow_state \<Rightarrow> instruction \<Rightarrow> bool" where
  "instruction_ok fl op \<longleftrightarrow> ins_output op = state_name (ins_id op) \<and> finite (ins_dependencies op)
     \<and> (\<exists>v. map_of (flow_values fl) (ins_output op) = Some v \<and> val_producer v = Some (ins_id op))
     \<and> (\<forall>s\<in>set (ins_inputs op). \<exists>v. map_of (flow_values fl) s = Some v \<and> (\<forall>p. val_producer v = Some p \<longrightarrow> p \<in> ins_dependencies op))
     \<and> mset_set (cont fl (ins_output op)) = (\<Sum>s\<leftarrow>ins_inputs op. mset_set (cont fl s))"

definition value_ok :: "flow_state \<Rightarrow> string \<Rightarrow> state_value \<Rightarrow> bool" where
  "value_ok fl k v \<longleftrightarrow> val_id v = k \<and> finite (val_contributors v)
     \<and> (case val_producer v of None \<Rightarrow> k \<in> set (flow_initial fl)
        | Some p \<Rightarrow> p \<noteq> '''' \<and> k = state_name p \<and> p \<in> ins_id ` set (flow_instructions fl))"

definition flow_ok :: "flow_state \<Rightarrow> bool" where
  "flow_ok fl \<longleftrightarrow>
     (\<forall>k v. map_of (flow_values fl) k = Some v \<longrightarrow> value_ok fl k v)
   \<and> (\<forall>r l. \<forall>v\<in>set (values_at fl r l). map_of (flow_values fl) (val_id v) = Some v \<and> val_rank v = r)
   \<and> (\<forall>s\<in>set (flow_initial fl). hd s = CHR ''i'' \<and> (\<exists>v. map_of (flow_values fl) s = Some v \<and> val_producer v = None))
   \<and> distinct (map ins_id (flow_instructions fl))
   \<and> (\<forall>op\<in>set (flow_instructions fl). instruction_ok fl op)"

lemma state_name_inject [simp]: "state_name p = state_name q \<longleftrightarrow> p = q"
  by (simp add: state_name_def)

lemma hd_state_name [simp]: "hd (state_name p) = CHR ''s''"
  by (simp add: state_name_def)

lemma flow_fresh:
  assumes "flow_ok fl" "p \<notin> ins_id ` set (flow_instructions fl)"
  shows "map_of (flow_values fl) (state_name p) = None"
proof (rule ccontr)
  assume "map_of (flow_values fl) (state_name p) \<noteq> None"
  then obtain v where v: "map_of (flow_values fl) (state_name p) = Some v" by auto
  then have ok: "value_ok fl (state_name p) v" using assms(1) by (auto simp: flow_ok_def)
  show False
  proof (cases "val_producer v")
    case None
    with ok have "state_name p \<in> set (flow_initial fl)" by (simp add: value_ok_def)
    with assms(1) show False by (auto simp: flow_ok_def)
  next
    case (Some q)
    with ok assms(2) show False by (simp add: value_ok_def)
  qed
qed

text \<open>Adding a state with the instruction that produces it.\<close>

lemma flow_ok_extend:
  assumes ok: "flow_ok fl" and p: "p \<notin> ins_id ` set (flow_instructions fl)" "p \<noteq> ''''"
    and v: "val_id v = state_name p" "finite (val_contributors v)" "val_producer v = Some p"
    and op: "ins_id op = p" "ins_output op = state_name p" "finite (ins_dependencies op)"
      "\<forall>s\<in>set (ins_inputs op). \<exists>w. map_of (flow_values fl) s = Some w \<and> (\<forall>q. val_producer w = Some q \<longrightarrow> q \<in> ins_dependencies op)"
      "mset_set (val_contributors v) = (\<Sum>s\<leftarrow>ins_inputs op. mset_set (cont fl s))"
    and fl': "flow_values fl' = AList.update (val_id v) v (flow_values fl)" "flow_instructions fl' = flow_instructions fl @ [op]"
      "flow_initial fl' = flow_initial fl"
      "\<forall>r l. set (values_at fl' r l) \<subseteq> set (values_at fl r l) \<union> (if (r, l) = (val_rank v, val_position v) then {v} else {})"
  shows "flow_ok fl'"
proof -
  note fresh = flow_fresh [OF ok p(1)]
  have look: "map_of (flow_values fl') k = (if k = state_name p then Some v else map_of (flow_values fl) k)" for k
    by (simp add: fl' v(1))
  have same: "map_of (flow_values fl) k = Some w \<Longrightarrow> map_of (flow_values fl') k = Some w" for k w using fresh by (auto simp: look)
  have cont_old: "cont fl' k = cont fl k" if "map_of (flow_values fl) k = Some w" for k w using same [OF that] that by (simp add: cont_def)
  have "value_ok fl' k w" if "map_of (flow_values fl') k = Some w" for k w
  proof (cases "k = state_name p")
    case True
    with that v p show ?thesis by (auto simp: look value_ok_def fl' op(1))
  next
    case False
    with that have "value_ok fl k w" using ok by (simp add: look flow_ok_def)
    then show ?thesis by (auto simp: value_ok_def fl' split: option.splits)
  qed
  moreover have "map_of (flow_values fl') (val_id w) = Some w \<and> val_rank w = r" if "w \<in> set (values_at fl' r l)" for w r l
  proof -
    have "w \<in> set (values_at fl r l) \<or> (w = v \<and> r = val_rank v)" using that fl'(4) by (auto split: if_splits)
    then show ?thesis
    proof
      assume "w \<in> set (values_at fl r l)"
      then have "map_of (flow_values fl) (val_id w) = Some w \<and> val_rank w = r" using ok unfolding flow_ok_def by blast
      with same show ?thesis by blast
    qed (simp add: look v(1))
  qed
  moreover have "hd s = CHR ''i'' \<and> (\<exists>w. map_of (flow_values fl') s = Some w \<and> val_producer w = None)" if "s \<in> set (flow_initial fl')" for s
    using that ok same fl'(3) by (fastforce simp: flow_ok_def)
  moreover have "distinct (map ins_id (flow_instructions fl'))" using ok p(1) by (auto simp: flow_ok_def fl'(2) op(1))
  moreover have "instruction_ok fl' o'" if "o' \<in> set (flow_instructions fl')" for o'
  proof (cases "o' = op")
    case True
    have "(\<Sum>s\<leftarrow>ins_inputs op. mset_set (cont fl' s)) = (\<Sum>s\<leftarrow>ins_inputs op. mset_set (cont fl s))"
      using op(4) cont_old by (intro arg_cong [of _ _ sum_list] map_cong) auto
    moreover have "cont fl' (state_name p) = val_contributors v" by (simp add: cont_def look)
    moreover have "\<forall>s\<in>set (ins_inputs op). \<exists>w. map_of (flow_values fl') s = Some w \<and> (\<forall>q. val_producer w = Some q \<longrightarrow> q \<in> ins_dependencies op)"
      using op(4) same by blast
    ultimately show ?thesis using True op(1,2,3,5) v(3) by (simp add: instruction_ok_def look)
  next
    case False
    then have i: "instruction_ok fl o'" using that ok by (auto simp: flow_ok_def fl'(2))
    then have "(\<Sum>s\<leftarrow>ins_inputs o'. mset_set (cont fl' s)) = (\<Sum>s\<leftarrow>ins_inputs o'. mset_set (cont fl s))"
      using cont_old by (intro arg_cong [of _ _ sum_list] map_cong) (auto simp: instruction_ok_def)
    moreover have "cont fl' (ins_output o') = cont fl (ins_output o')" using i cont_old by (auto simp: instruction_ok_def)
    ultimately show ?thesis using i same unfolding instruction_ok_def by metis
  qed
  ultimately show ?thesis unfolding flow_ok_def by blast
qed

lemma values_at_add_value:
  "values_at (add_value v fl) r l = values_at fl r l @ (if (r, l) = (val_rank v, val_position v) then [v] else [])"
  by (auto simp: values_at_def add_value_def)

lemma add_value_fields [simp]:
  "flow_values (add_value v fl) = AList.update (val_id v) v (flow_values fl)"
  "flow_initial (add_value v fl) = flow_initial fl" "flow_instructions (add_value v fl) = flow_instructions fl"
  "flow_addresses (add_value v fl) = flow_addresses fl" "flow_omitted (add_value v fl) = flow_omitted fl"
  by (simp_all add: add_value_def)

lemma widest_mem: "vs \<noteq> [] \<Longrightarrow> widest vs \<in> set vs"
proof -
  have "foldl (\<lambda>b v. if card (val_contributors b) \<le> card (val_contributors v) then v else b) w xs \<in> insert w (set xs)" for w xs
    by (induction xs arbitrary: w) auto
  then show "vs \<noteq> [] \<Longrightarrow> widest vs \<in> set vs" by (cases vs) (auto simp: widest_def)
qed

lemma operation_reads_ok:
  assumes ok: "flow_ok fl" and r: "operation_reads fl logical op = Inr reads" and fin: "finite_operation op"
  shows "\<forall>v\<in>set reads. map_of (flow_values fl) (val_id v) = Some v"
    "mset_set (net_contributors op \<union> \<Union>(val_contributors ` set (tl reads))) = (\<Sum>s\<leftarrow>map val_id reads. mset_set (cont fl s))"
    "finite (\<Union>(val_contributors ` set (tl reads)))"
proof -
  have src: "v \<in> set (values_at fl (net_src op) logical) \<and> val_contributors v = net_contributors op"
    if "choose_source fl logical op = Inr v" for v
    using that last_in_set [of "filter (\<lambda>v. val_contributors v = net_contributors op) (values_at fl (net_src op) logical)"]
    by (auto simp: choose_source_def Let_def res_simps)
  have acc: "v \<in> set (values_at fl (net_dst op) logical) \<and> val_contributors v \<inter> net_contributors op = {}"
    if "choose_accumulator fl logical op = Inr v" for v
    using that widest_mem [of "filter (\<lambda>v. val_contributors v \<inter> net_contributors op = {} \<and> val_contributors v \<subseteq> net_targets op)
      (values_at fl (net_dst op) logical)"]
    by (auto simp: choose_accumulator_def Let_def res_simps)
  have look: "map_of (flow_values fl) (val_id v) = Some v \<and> cont fl (val_id v) = val_contributors v \<and> finite (val_contributors v)"
    if "v \<in> set (values_at fl rk l)" for v rk l
  proof -
    have v: "map_of (flow_values fl) (val_id v) = Some v" using that ok unfolding flow_ok_def by blast
    then have "value_ok fl (val_id v) v" using ok unfolding flow_ok_def by blast
    with v show ?thesis by (simp add: value_ok_def cont_def)
  qed
  from r consider (send) v where "reads = [v]" "choose_source fl logical op = Inr v"
    | (rrc) v w where "reads = [v, w]" "choose_source fl logical op = Inr v" "choose_accumulator fl logical op = Inr w"
    by (auto simp: operation_reads_def res_simps split: if_splits)
  then have "(\<forall>v\<in>set reads. map_of (flow_values fl) (val_id v) = Some v)
      \<and> mset_set (net_contributors op \<union> \<Union>(val_contributors ` set (tl reads))) = (\<Sum>s\<leftarrow>map val_id reads. mset_set (cont fl s))
      \<and> finite (\<Union>(val_contributors ` set (tl reads)))"
  proof cases
    case send
    with src look show ?thesis by fastforce
  next
    case rrc
    note v = src [OF rrc(2)] and w = acc [OF rrc(3)]
    note lv = look [OF v [THEN conjunct1]] and lw = look [OF w [THEN conjunct1]]
    have "mset_set (net_contributors op \<union> val_contributors w) = mset_set (net_contributors op) + mset_set (val_contributors w)"
      using w lw fin by (intro mset_set_Union) (auto simp: finite_operation_def)
    with v lv lw rrc(1) show ?thesis by simp
  qed
  then show "\<forall>v\<in>set reads. map_of (flow_values fl) (val_id v) = Some v"
    "mset_set (net_contributors op \<union> \<Union>(val_contributors ` set (tl reads))) = (\<Sum>s\<leftarrow>map val_id reads. mset_set (cont fl s))"
    "finite (\<Union>(val_contributors ` set (tl reads)))" by blast+
qed

lemma reference_edges_grow:
  assumes "for_each (reference_edge by_id op) acc refs = Inr acc'"
  shows "fst acc \<subseteq> fst acc' \<and> (finite (fst acc) \<longrightarrow> finite (fst acc'))"
  by (rule for_each_inv [OF assms]) (auto simp: reference_edge_def split: option.splits if_splits)

lemma add_operation_fields:
  assumes "add_operation inputs topo cs n sz by_id fl op = Inr fl'"
  obtains logical reads deps v ins where "operation_reads fl logical op = Inr reads"
    "v = \<lparr>val_id = state_name (net_id op), val_rank = net_dst op, val_position = logical,
       val_contributors = net_contributors op \<union> \<Union>(val_contributors ` set (tl reads)), val_producer = Some (net_id op)\<rparr>"
    "net_dependencies op \<union> producers reads \<subseteq> deps" "finite (net_dependencies op) \<longrightarrow> finite deps"
    "ins_id ins = net_id op" "ins_kind ins = net_kind op" "ins_inputs ins = map val_id reads" "ins_output ins = state_name (net_id op)"
    "ins_rank ins = net_dst op" "ins_dependencies ins = deps"
    "flow_values fl' = AList.update (val_id v) v (flow_values fl)" "flow_instructions fl' = flow_instructions fl @ [ins]"
    "flow_initial fl' = flow_initial fl" "flow_addresses fl' = flow_addresses fl"
    "\<forall>r l. values_at fl' r l = values_at fl r l @ (if (r, l) = (net_dst op, logical) then [v] else [])"
proof -
  obtain logical reads acc where reads: "operation_reads fl logical op = Inr reads"
    and refs: "for_each (reference_edge by_id op) (net_dependencies op \<union> producers reads, flow_omitted fl)
      (sorted_list_of_set (net_references op - (net_dependencies op \<union> producers reads))) = Inr acc"
    and fl': "fl' = (let v = \<lparr>val_id = state_name (net_id op), val_rank = net_dst op, val_position = logical,
         val_contributors = net_contributors op \<union> \<Union>(val_contributors ` set (tl reads)), val_producer = Some (net_id op)\<rparr>; fl1 = add_value v fl
       in fl1\<lparr>flow_instructions := flow_instructions fl1 @ [\<lparr>ins_id = net_id op, ins_kind = net_kind op, ins_inputs = map val_id reads,
               ins_output = val_id v, ins_rank = net_dst op, ins_peer = net_src op, ins_channel = net_channel op, ins_stage = net_stage op,
               ins_participants = net_participants op, ins_dependencies = fst acc, ins_priority = net_priority op\<rparr>],
             flow_omitted := snd acc\<rparr>)"
    using assms by (auto simp: add_operation_def Let_def res_simps)
  have "finite (producers reads)" by (simp only: producers_def finite_set)
  with reference_edges_grow [OF refs] have deps: "net_dependencies op \<union> producers reads \<subseteq> fst acc"
    "finite (net_dependencies op) \<longrightarrow> finite (fst acc)" by auto
  show ?thesis
    by (rule that [OF reads refl deps, where ins = "last (flow_instructions fl')"])
      (simp_all add: fl' Let_def values_at_def add_value_def)
qed

lemma producers_mem: "v \<in> set vs \<Longrightarrow> val_producer v = Some p \<Longrightarrow> p \<in> producers vs"
  by (force simp: producers_def)

lemma add_operation_ok:
  assumes ok: "flow_ok fl" and add: "add_operation inputs topo cs n sz by_id fl op = Inr fl'" and fin: "finite_operation op"
    and fresh: "net_id op \<notin> ins_id ` set (flow_instructions fl)" "net_id op \<noteq> ''''"
  shows "flow_ok fl'"
proof -
  obtain logical reads deps v ins where a: "operation_reads fl logical op = Inr reads"
    "v = \<lparr>val_id = state_name (net_id op), val_rank = net_dst op, val_position = logical,
       val_contributors = net_contributors op \<union> \<Union>(val_contributors ` set (tl reads)), val_producer = Some (net_id op)\<rparr>"
    "net_dependencies op \<union> producers reads \<subseteq> deps" "finite (net_dependencies op) \<longrightarrow> finite deps"
    "ins_id ins = net_id op" "ins_inputs ins = map val_id reads" "ins_output ins = state_name (net_id op)" "ins_dependencies ins = deps"
    and f: "flow_values fl' = AList.update (val_id v) v (flow_values fl)" "flow_instructions fl' = flow_instructions fl @ [ins]"
    "flow_initial fl' = flow_initial fl" "\<forall>r l. values_at fl' r l = values_at fl r l @ (if (r, l) = (net_dst op, logical) then [v] else [])"
    by (rule add_operation_fields [OF add]) blast
  note reads = operation_reads_ok [OF ok a(1) fin]
  show ?thesis
  proof (rule flow_ok_extend [OF ok fresh, of v ins])
    show "\<forall>s\<in>set (ins_inputs ins). \<exists>w. map_of (flow_values fl) s = Some w \<and> (\<forall>q. val_producer w = Some q \<longrightarrow> q \<in> ins_dependencies ins)"
    proof
      fix s assume "s \<in> set (ins_inputs ins)"
      then obtain w where w: "w \<in> set reads" "s = val_id w" using a(6) by auto
      have "q \<in> ins_dependencies ins" if "val_producer w = Some q" for q using producers_mem [OF w(1) that] a(3,8) by auto
      with w reads(1) show "\<exists>w. map_of (flow_values fl) s = Some w \<and> (\<forall>q. val_producer w = Some q \<longrightarrow> q \<in> ins_dependencies ins)" by blast
    qed
    show "mset_set (val_contributors v) = (\<Sum>s\<leftarrow>ins_inputs ins. mset_set (cont fl s))" using reads(2) a(2,6) by simp
    show "finite (val_contributors v)" using reads(3) fin a(2) by (simp add: finite_operation_def)
    show "\<forall>r l. set (values_at fl' r l) \<subseteq> set (values_at fl r l) \<union> (if (r, l) = (val_rank v, val_position v) then {v} else {})"
      using f(4) a(2) by auto
  qed (use a f fin in \<open>auto simp: finite_operation_def\<close>)
qed

text \<open>What the operations leave in place: the instructions are theirs, in order, and only initial states have addresses.\<close>

lemma add_operations_ok:
  assumes run: "for_each (add_operation inputs topo cs n sz by_id) fl ops = Inr fl'" and ok: "flow_ok fl"
    and ids: "distinct (map net_id ops)" "ins_id ` set (flow_instructions fl) \<inter> net_id ` set ops = {}"
    and each: "\<forall>op\<in>set ops. finite_operation op \<and> net_id op \<noteq> ''''"
  shows "flow_ok fl' \<and> flow_initial fl' = flow_initial fl \<and> flow_addresses fl' = flow_addresses fl
    \<and> map ins_id (flow_instructions fl') = map ins_id (flow_instructions fl) @ map net_id ops
    \<and> map ins_kind (flow_instructions fl') = map ins_kind (flow_instructions fl) @ map net_kind ops
    \<and> map ins_rank (flow_instructions fl') = map ins_rank (flow_instructions fl) @ map net_dst ops"
  using run ok ids each
proof (induction ops arbitrary: fl)
  case (Cons op ops)
  obtain fl1 where fl1: "add_operation inputs topo cs n sz by_id fl op = Inr fl1"
    "for_each (add_operation inputs topo cs n sz by_id) fl1 ops = Inr fl'" using Cons.prems(1) by (auto simp: res_simps)
  have ok1: "flow_ok fl1" by (rule add_operation_ok [OF Cons.prems(2) fl1(1)]) (use Cons.prems in auto)
  obtain ins where ins: "flow_instructions fl1 = flow_instructions fl @ [ins]" "ins_id ins = net_id op" "ins_kind ins = net_kind op"
    "ins_rank ins = net_dst op" "flow_initial fl1 = flow_initial fl" "flow_addresses fl1 = flow_addresses fl"
    by (rule add_operation_fields [OF fl1(1)]) blast
  have "distinct (map net_id ops)" "ins_id ` set (flow_instructions fl1) \<inter> net_id ` set ops = {}"
    using Cons.prems(3,4) ins(1,2) by auto
  from Cons.IH [OF fl1(2) ok1 this] Cons.prems(5) ins show ?case by simp
qed simp

section \<open>Initial states\<close>

lemma input_id_inject:
  assumes "input_id r l = input_id r' l'" "0 \<le> r" "0 \<le> r'"
  shows "r = r' \<and> l = l'"
proof -
  have "str_int r @ CHR ''-'' # ''s'' @ str_int l = str_int r' @ CHR ''-'' # ''s'' @ str_int l'"
    using assms(1) by (simp add: input_id_def)
  from split_at_dash [OF str_int_no_dash [OF assms(2)] str_int_no_dash [OF assms(3)] this] show ?thesis by simp
qed

definition input_value :: "int \<Rightarrow> int \<Rightarrow> int \<Rightarrow> state_value" where
  "input_value n r l = \<lparr>val_id = input_id r l, val_rank = r, val_position = l, val_contributors = {r * n + l}, val_producer = None\<rparr>"

definition inputs_loaded :: "int \<Rightarrow> (int \<times> int) list \<Rightarrow> flow_state \<Rightarrow> bool" where
  "inputs_loaded n ps fl \<longleftrightarrow> flow_initial fl = map (\<lambda>(r, l). input_id r l) ps \<and> flow_instructions fl = []
     \<and> (\<forall>k v. map_of (flow_values fl) k = Some v \<longleftrightarrow> (\<exists>(r, l)\<in>set ps. k = input_id r l \<and> v = input_value n r l))
     \<and> (\<forall>k a. map_of (flow_addresses fl) k = Some a \<longleftrightarrow> (\<exists>(r, l)\<in>set ps. k = input_id r l \<and> a = Address r ''i'' l))
     \<and> (\<forall>r l. \<forall>v\<in>set (values_at fl r l). (r, l) \<in> set ps \<and> v = input_value n r l)"

lemma inputs_loadedD:
  assumes "inputs_loaded n ps fl"
  shows "flow_initial fl = map (\<lambda>(r, l). input_id r l) ps" "flow_instructions fl = []"
    "map_of (flow_values fl) k = Some v \<longleftrightarrow> (\<exists>(r, l)\<in>set ps. k = input_id r l \<and> v = input_value n r l)"
    "map_of (flow_addresses fl) k = Some a \<longleftrightarrow> (\<exists>(r, l)\<in>set ps. k = input_id r l \<and> a = Address r ''i'' l)"
    "w \<in> set (values_at fl r' l') \<Longrightarrow> (r', l') \<in> set ps \<and> w = input_value n r' l'"
  using assms by (simp_all add: inputs_loaded_def)

lemma add_input_fields:
  "flow_values (add_input n fl (r, l)) = AList.update (input_id r l) (input_value n r l) (flow_values fl)"
  "flow_initial (add_input n fl (r, l)) = flow_initial fl @ [input_id r l]" "flow_instructions (add_input n fl (r, l)) = flow_instructions fl"
  "flow_addresses (add_input n fl (r, l)) = AList.update (input_id r l) (Address r ''i'' l) (flow_addresses fl)"
  "values_at (add_input n fl (r, l)) r' l' = values_at fl r' l' @ (if (r', l') = (r, l) then [input_value n r l] else [])"
  by (auto simp: add_input_def input_value_def Let_def values_at_def add_value_def)

lemma inputs_loaded_snoc:
  assumes fl: "inputs_loaded n ps fl" and new: "\<And>r' l'. (r', l') \<in> set ps \<Longrightarrow> input_id r l \<noteq> input_id r' l'"
  shows "inputs_loaded n (ps @ [(r, l)]) (add_input n fl (r, l))"
proof -
  note f = inputs_loadedD [OF fl]
  have v: "map_of (flow_values (add_input n fl (r, l))) k = Some v
      \<longleftrightarrow> (\<exists>(r, l)\<in>set (ps @ [(r, l)]). k = input_id r l \<and> v = input_value n r l)" for k v
    using f(3) [of k v] new by (cases "k = input_id r l") (auto simp: add_input_fields)
  have a: "map_of (flow_addresses (add_input n fl (r, l))) k = Some a
      \<longleftrightarrow> (\<exists>(r, l)\<in>set (ps @ [(r, l)]). k = input_id r l \<and> a = Address r ''i'' l)" for k a
    using f(4) [of k a] new by (cases "k = input_id r l") (auto simp: add_input_fields)
  have at: "(r', l') \<in> set (ps @ [(r, l)]) \<and> w = input_value n r' l'" if "w \<in> set (values_at (add_input n fl (r, l)) r' l')" for w r' l'
    using that f(5) [of w r' l'] by (auto simp: add_input_fields split: if_splits)
  have i: "flow_initial (add_input n fl (r, l)) = map (\<lambda>(r, l). input_id r l) (ps @ [(r, l)])"
    and s: "flow_instructions (add_input n fl (r, l)) = []" using f(1,2) by (simp_all add: add_input_fields)
  show ?thesis unfolding inputs_loaded_def by (intro conjI allI ballI i s v a at)
qed

lemma foldl_add_input:
  assumes "\<forall>(r, l)\<in>set ps. 0 \<le> r" "distinct ps"
  shows "inputs_loaded n ps (foldl (add_input n) \<lparr>flow_values = [], by_position = [], flow_initial = [], flow_addresses = [],
    flow_instructions = [], flow_omitted = []\<rparr> ps)"
  using assms
proof (induction ps rule: rev_induct)
  case Nil
  then show ?case by (simp add: inputs_loaded_def values_at_def dict_get_def)
next
  case (snoc p ps)
  obtain r l where p: "p = (r, l)" by (cases p)
  have new: "input_id r l \<noteq> input_id r' l'" if "(r', l') \<in> set ps" for r' l'
  proof
    assume "input_id r l = input_id r' l'"
    moreover have "0 \<le> r" "0 \<le> r'" using snoc.prems(1) that by (auto simp: p)
    ultimately have "(r, l) = (r', l')" using input_id_inject by auto
    with snoc.prems(2) that show False by (auto simp: p)
  qed
  show ?case
    unfolding p foldl_append foldl.simps by (intro inputs_loaded_snoc new snoc.IH) (use snoc.prems in auto)
qed

lemma inputs_loaded_ok:
  assumes "inputs_loaded n ps fl"
  shows "flow_ok fl"
proof -
  note f = inputs_loadedD [OF assms]
  have "value_ok fl k v" if "map_of (flow_values fl) k = Some v" for k v
    using that unfolding f(3) by (auto simp: value_ok_def f(1) input_value_def)
  moreover have "map_of (flow_values fl) (val_id v) = Some v \<and> val_rank v = r" if "v \<in> set (values_at fl r l)" for v r l
    using f(5) [OF that] by (auto simp: f(3) input_value_def)
  moreover have "hd s = CHR ''i'' \<and> (\<exists>v. map_of (flow_values fl) s = Some v \<and> val_producer v = None)" if "s \<in> set (flow_initial fl)" for s
  proof -
    obtain r l where "(r, l) \<in> set ps" "s = input_id r l" using \<open>s \<in> set (flow_initial fl)\<close> by (auto simp: f(1))
    moreover have "hd (input_id r l) = CHR ''i''" "val_producer (input_value n r l) = None" by (simp_all add: input_id_def input_value_def)
    ultimately show ?thesis using f(3) [of s "input_value n r l"] by blast
  qed
  ultimately show ?thesis unfolding flow_ok_def by (simp add: f(2))
qed

end
