(* ===== verification/Storage_Outputs.thy ===== *)
theory Storage_Outputs
  imports Storage_Correct
begin

text \<open>
  The placement of the outputs in \<^verbatim>\<open>build_storage_plan\<close>: every required slot gets a state with the demanded
  contributors, and no two states of different slots get the same output address.
\<close>

definition target :: "output_slot \<Rightarrow> address" where
  "target slot = Address (slot_rank slot) ''o'' (slot_offset slot)"

lemma target_inject [simp]: "target s = target t \<longleftrightarrow> s = t"
  by (cases s; cases t) (simp add: target_def)

lemma copy_id_inject:
  assumes "copy_id_of s = copy_id_of t" "0 \<le> slot_rank s" "0 \<le> slot_rank t"
  shows "s = t"
proof -
  have "str_int (slot_rank s) @ CHR ''-'' # ''o'' @ str_int (slot_offset s) = str_int (slot_rank t) @ CHR ''-'' # ''o'' @ str_int (slot_offset t)"
    using assms(1) by (simp add: copy_id_of_def)
  from split_at_dash [OF str_int_no_dash [OF assms(2)] str_int_no_dash [OF assms(3)] this] show ?thesis by (cases s; cases t) simp
qed

definition is_copy_id :: "string \<Rightarrow> bool" where
  "is_copy_id p \<longleftrightarrow> take 12 p = ''output-copy-''"

lemma copy_id_of_is_copy [simp]: "is_copy_id (copy_id_of slot)" "copy_id_of slot \<noteq> ''''"
  by (simp_all add: is_copy_id_def copy_id_of_def)

text \<open>
  How an output slot is filled: by an initial state that lies there, by a state received directly
  into it, or by a copy.
\<close>

datatype filling = Resident | Direct | Copied

definition filled :: "resolved_input \<Rightarrow> output_state \<Rightarrow> output_slot \<Rightarrow> int set \<Rightarrow> filling \<Rightarrow> string \<Rightarrow> bool" where
  "filled inputs st slot cs how k \<longleftrightarrow>
     map_of (out_slots st) slot = Some k
   \<and> (\<exists>v. map_of (flow_values (out_flow st)) k = Some v \<and> val_contributors v = cs \<and> val_rank v = slot_rank slot)
   \<and> (case how of
        Resident \<Rightarrow> k \<in> set (flow_initial (out_flow st)) \<and> copy_id_of slot \<notin> ins_id ` set (flow_instructions (out_flow st))
          \<and> same_place inputs (map_of (flow_addresses (out_flow st)) k) (target slot) = Inr True
      | Direct \<Rightarrow> k \<notin> set (flow_initial (out_flow st)) \<and> \<not> inplace (collective inputs) \<and> map_of (direct_outputs st) k = Some (target slot)
          \<and> copy_id_of slot \<notin> ins_id ` set (flow_instructions (out_flow st))
      | Copied \<Rightarrow> k = state_name (copy_id_of slot) \<and> copy_id_of slot \<in> ins_id ` set (flow_instructions (out_flow st))
          \<and> map_of (flow_addresses (out_flow st)) k = Some (target slot))"

text \<open>Every address that is not of an initial state belongs to one filled slot.\<close>

definition outputs_ok :: "resolved_input \<Rightarrow> flow_state \<Rightarrow> (output_slot \<times> int set) list \<Rightarrow> output_state \<Rightarrow> bool" where
  "outputs_ok inputs fl0 entries st \<longleftrightarrow>
     flow_ok (out_flow st) \<and> flow_initial (out_flow st) = flow_initial fl0 \<and> (\<forall>r l. values_at (out_flow st) r l = values_at fl0 r l)
   \<and> (\<exists>copies. flow_instructions (out_flow st) = flow_instructions fl0 @ copies
        \<and> (\<forall>op\<in>set copies. ins_kind op = ''copy'' \<and> (\<exists>slot\<in>fst ` set entries. ins_id op = copy_id_of slot)))
   \<and> (\<forall>k a. map_of (flow_addresses (out_flow st)) k = Some a \<longrightarrow>
        (if k \<in> set (flow_initial fl0) then map_of (flow_addresses fl0) k = Some a
         else \<exists>(slot, cs)\<in>set entries. a = target slot \<and> filled inputs st slot cs Copied k))
   \<and> (\<forall>k\<in>set (flow_initial fl0). map_of (flow_addresses (out_flow st)) k = map_of (flow_addresses fl0) k)
   \<and> (\<forall>k a. map_of (direct_outputs st) k = Some a \<longrightarrow> (\<exists>(slot, cs)\<in>set entries. a = target slot \<and> filled inputs st slot cs Direct k))
   \<and> (\<forall>(slot, cs)\<in>set entries. \<exists>how k. filled inputs st slot cs how k)"

lemma filled_keep:
  assumes "filled inputs st slot cs how k" "map_of (out_slots st') slot = map_of (out_slots st) slot"
    and "\<And>v. map_of (flow_values (out_flow st)) k = Some v \<Longrightarrow> map_of (flow_values (out_flow st')) k = Some v"
    and "flow_initial (out_flow st') = flow_initial (out_flow st)" "map_of (flow_addresses (out_flow st')) k = map_of (flow_addresses (out_flow st)) k"
    and "how = Direct \<Longrightarrow> map_of (direct_outputs st') k = map_of (direct_outputs st) k"
    and "copy_id_of slot \<in> ins_id ` set (flow_instructions (out_flow st')) \<longleftrightarrow> copy_id_of slot \<in> ins_id ` set (flow_instructions (out_flow st))"
  shows "filled inputs st' slot cs how k"
proof -
  obtain v where "map_of (flow_values (out_flow st)) k = Some v" "val_contributors v = cs" "val_rank v = slot_rank slot"
    using assms(1) by (auto simp: filled_def)
  with assms(3) have "\<exists>v. map_of (flow_values (out_flow st')) k = Some v \<and> val_contributors v = cs \<and> val_rank v = slot_rank slot" by blast
  moreover have "map_of (out_slots st') slot = Some k" using assms(1,2) by (simp add: filled_def)
  ultimately show ?thesis using assms(1,4-7) unfolding filled_def by (cases how) auto
qed

text \<open>A value available for an output is an initial state or was produced by a network operation.\<close>

lemma source_value:
  assumes ok: "flow_ok fl" and v: "v \<in> set (values_at fl r l)"
  shows "map_of (flow_values fl) (val_id v) = Some v" "val_rank v = r" "finite (val_contributors v)"
    "val_producer v = None \<Longrightarrow> val_id v \<in> set (flow_initial fl)"
    "val_producer v = Some p \<Longrightarrow> p \<noteq> '''' \<and> val_id v = state_name p \<and> p \<in> ins_id ` set (flow_instructions fl) \<and> val_id v \<notin> set (flow_initial fl)"
proof -
  show k: "map_of (flow_values fl) (val_id v) = Some v" "val_rank v = r" using ok v unfolding flow_ok_def by blast+
  then have vo: "value_ok fl (val_id v) v" using ok unfolding flow_ok_def by blast
  then show "finite (val_contributors v)" "val_producer v = None \<Longrightarrow> val_id v \<in> set (flow_initial fl)" by (simp_all add: value_ok_def)
  assume p: "val_producer v = Some p"
  have "val_id v \<notin> set (flow_initial fl)"
  proof
    assume "val_id v \<in> set (flow_initial fl)"
    then have "hd (val_id v) = CHR ''i''" using ok unfolding flow_ok_def by blast
    with vo p show False by (simp add: value_ok_def)
  qed
  with vo p show "p \<noteq> '''' \<and> val_id v = state_name p \<and> p \<in> ins_id ` set (flow_instructions fl) \<and> val_id v \<notin> set (flow_initial fl)"
    by (simp add: value_ok_def)
qed

lemma outputs_okD:
  assumes "outputs_ok inputs fl0 entries st"
  shows "flow_ok (out_flow st)" "flow_initial (out_flow st) = flow_initial fl0" "values_at (out_flow st) r l = values_at fl0 r l"
    "\<exists>copies. flow_instructions (out_flow st) = flow_instructions fl0 @ copies
        \<and> (\<forall>op\<in>set copies. ins_kind op = ''copy'' \<and> (\<exists>slot\<in>fst ` set entries. ins_id op = copy_id_of slot))"
    "map_of (flow_addresses (out_flow st)) k = Some a \<Longrightarrow> k \<notin> set (flow_initial fl0) \<Longrightarrow>
        \<exists>(slot, cs)\<in>set entries. a = target slot \<and> filled inputs st slot cs Copied k"
    "k \<in> set (flow_initial fl0) \<Longrightarrow> map_of (flow_addresses (out_flow st)) k = map_of (flow_addresses fl0) k"
    "map_of (direct_outputs st) k = Some a \<Longrightarrow> \<exists>(slot, cs)\<in>set entries. a = target slot \<and> filled inputs st slot cs Direct k"
    "(slot, cs) \<in> set entries \<Longrightarrow> \<exists>how k. filled inputs st slot cs how k"
proof -
  note o = assms [unfolded outputs_ok_def]
  have v: "\<forall>r l. values_at (out_flow st) r l = values_at fl0 r l"
    and addr: "\<forall>k a. map_of (flow_addresses (out_flow st)) k = Some a \<longrightarrow>
        (if k \<in> set (flow_initial fl0) then map_of (flow_addresses fl0) k = Some a
         else \<exists>(slot, cs)\<in>set entries. a = target slot \<and> filled inputs st slot cs Copied k)"
    and init: "\<forall>k\<in>set (flow_initial fl0). map_of (flow_addresses (out_flow st)) k = map_of (flow_addresses fl0) k"
    and direct: "\<forall>k a. map_of (direct_outputs st) k = Some a \<longrightarrow> (\<exists>(slot, cs)\<in>set entries. a = target slot \<and> filled inputs st slot cs Direct k)"
    and fill: "\<forall>(slot, cs)\<in>set entries. \<exists>how k. filled inputs st slot cs how k"
    by (insert o, (elim conjE, assumption)+)
  show "flow_ok (out_flow st)" "flow_initial (out_flow st) = flow_initial fl0"
    "\<exists>copies. flow_instructions (out_flow st) = flow_instructions fl0 @ copies
        \<and> (\<forall>op\<in>set copies. ins_kind op = ''copy'' \<and> (\<exists>slot\<in>fst ` set entries. ins_id op = copy_id_of slot))"
    by (insert o, (elim conjE, assumption)+)
  show "values_at (out_flow st) r l = values_at fl0 r l" using v by simp
  show "\<exists>(slot, cs)\<in>set entries. a = target slot \<and> filled inputs st slot cs Copied k"
    if "map_of (flow_addresses (out_flow st)) k = Some a" "k \<notin> set (flow_initial fl0)"
    using addr [rule_format, OF that(1)] that(2) by simp
  show "k \<in> set (flow_initial fl0) \<Longrightarrow> map_of (flow_addresses (out_flow st)) k = map_of (flow_addresses fl0) k" using init by simp
  show "map_of (direct_outputs st) k = Some a \<Longrightarrow> \<exists>(slot, cs)\<in>set entries. a = target slot \<and> filled inputs st slot cs Direct k"
    by (rule direct [rule_format])
  show "(slot, cs) \<in> set entries \<Longrightarrow> \<exists>how k. filled inputs st slot cs how k" by (drule bspec [OF fill]) simp
qed

lemma bex_pairI: "(x, y) \<in> A \<Longrightarrow> P x y \<Longrightarrow> \<exists>(x, y)\<in>A. P x y"
  by auto

text \<open>One more filled slot, when all earlier ones stay filled.\<close>

lemma outputs_ok_snoc:
  assumes o: "outputs_ok inputs fl0 entries st" and new: "filled inputs st' slot cs how k"
    and keep: "\<forall>(slot', cs')\<in>set entries. \<forall>how' k'. filled inputs st slot' cs' how' k' \<longrightarrow> filled inputs st' slot' cs' how' k'"
    and flow: "flow_ok (out_flow st')" "flow_initial (out_flow st') = flow_initial (out_flow st)"
      "\<forall>r l. values_at (out_flow st') r l = values_at (out_flow st) r l"
      "\<exists>ops. flow_instructions (out_flow st') = flow_instructions (out_flow st) @ ops \<and> (\<forall>op\<in>set ops. ins_kind op = ''copy'' \<and> ins_id op = copy_id_of slot)"
    and addr: "\<forall>j. map_of (flow_addresses (out_flow st')) j = map_of (flow_addresses (out_flow st)) j
        \<or> how = Copied \<and> j = k \<and> j \<notin> set (flow_initial fl0) \<and> map_of (flow_addresses (out_flow st')) j = Some (target slot)"
    and direct: "\<forall>j. map_of (direct_outputs st') j = map_of (direct_outputs st) j
        \<or> how = Direct \<and> j = k \<and> map_of (direct_outputs st') j = Some (target slot)"
  shows "outputs_ok inputs fl0 (entries @ [(slot, cs)]) st'"
proof -
  note f = outputs_okD [OF o]
  have kept: "filled inputs st' slot' cs' how' k'" if "(slot', cs') \<in> set entries" "filled inputs st slot' cs' how' k'" for slot' cs' how' k'
    using bspec [OF keep that(1)] that(2) by simp
  have init: "flow_initial (out_flow st') = flow_initial fl0" and vals: "\<forall>r l. values_at (out_flow st') r l = values_at fl0 r l"
    using f(2,3) flow by simp_all
  have ins: "\<exists>copies. flow_instructions (out_flow st') = flow_instructions fl0 @ copies
        \<and> (\<forall>op\<in>set copies. ins_kind op = ''copy'' \<and> (\<exists>slot\<in>fst ` set (entries @ [(slot, cs)]). ins_id op = copy_id_of slot))"
  proof -
    obtain copies ops where c: "flow_instructions (out_flow st) = flow_instructions fl0 @ copies"
      "\<forall>op\<in>set copies. ins_kind op = ''copy'' \<and> (\<exists>slot\<in>fst ` set entries. ins_id op = copy_id_of slot)"
      "flow_instructions (out_flow st') = flow_instructions (out_flow st) @ ops" "\<forall>op\<in>set ops. ins_kind op = ''copy'' \<and> ins_id op = copy_id_of slot"
      using f(4) flow(4) by blast
    then show ?thesis by (intro exI [of _ "copies @ ops"]) auto
  qed
  have addresses: "if j \<in> set (flow_initial fl0) then map_of (flow_addresses fl0) j = Some a
         else \<exists>(slot, cs)\<in>set (entries @ [(slot, cs)]). a = target slot \<and> filled inputs st' slot cs Copied j"
    if a: "map_of (flow_addresses (out_flow st')) j = Some a" for j a
  proof (cases "map_of (flow_addresses (out_flow st')) j = map_of (flow_addresses (out_flow st)) j")
    case True
    show ?thesis
    proof (cases "j \<in> set (flow_initial fl0)")
      case False
      from f(5) [OF a [unfolded True] False] obtain slot' cs' where "(slot', cs') \<in> set entries" "a = target slot'" "filled inputs st slot' cs' Copied j"
        by auto
      with kept have "\<exists>(slot, cs)\<in>set (entries @ [(slot, cs)]). a = target slot \<and> filled inputs st' slot cs Copied j"
        by (intro bex_pairI [of slot' cs']) simp_all
      with False show ?thesis by simp
    qed (use f(6) True a in auto)
  next
    case False
    then have "how = Copied" "j = k" "j \<notin> set (flow_initial fl0)" "a = target slot" using addr [rule_format, of j] a by auto
    with new show ?thesis by auto
  qed
  have fixed: "map_of (flow_addresses (out_flow st')) j = map_of (flow_addresses fl0) j" if "j \<in> set (flow_initial fl0)" for j
    using addr [rule_format, of j] f(6) [OF that] that by auto
  have outs: "\<exists>(slot, cs)\<in>set (entries @ [(slot, cs)]). a = target slot \<and> filled inputs st' slot cs Direct j"
    if a: "map_of (direct_outputs st') j = Some a" for j a
  proof (cases "map_of (direct_outputs st') j = map_of (direct_outputs st) j")
    case True
    from f(7) [OF a [unfolded True]] obtain slot' cs' where "(slot', cs') \<in> set entries" "a = target slot'" "filled inputs st slot' cs' Direct j" by auto
    with kept show ?thesis by (intro bex_pairI [of slot' cs']) simp_all
  next
    case False
    then have "how = Direct" "j = k" "a = target slot" using direct [rule_format, of j] a by auto
    with new show ?thesis by auto
  qed
  have "\<exists>how k. filled inputs st' slot' cs' how k" if "(slot', cs') \<in> set (entries @ [(slot, cs)])" for slot' cs'
  proof (cases "(slot', cs') \<in> set entries")
    case True
    then show ?thesis using f(8) [OF True] kept by blast
  next
    case False
    with that new show ?thesis by auto
  qed
  then have all: "\<forall>(slot, cs)\<in>set (entries @ [(slot, cs)]). \<exists>how k. filled inputs st' slot cs how k" by blast
  have addresses': "\<forall>j a. map_of (flow_addresses (out_flow st')) j = Some a \<longrightarrow> (if j \<in> set (flow_initial fl0) then map_of (flow_addresses fl0) j = Some a
         else \<exists>(slot, cs)\<in>set (entries @ [(slot, cs)]). a = target slot \<and> filled inputs st' slot cs Copied j)" using addresses by blast
  show ?thesis unfolding outputs_ok_def
    by (intro conjI flow(1) init vals ins addresses' all) (use fixed outs in blast)+
qed

lemma add_output_ok:
  assumes o: "outputs_ok inputs fl0 entries st" and run: "add_output inputs n fs fp st (slot, cs) = Inr st'"
    and exp: "required_outputs (collective inputs) ranks n = Inr expected" "\<forall>(s, c)\<in>set (entries @ [(slot, cs)]). map_of expected s = Some c"
    and fresh: "slot \<notin> fst ` set entries"
    and base: "flow_ok fl0" "\<forall>op\<in>set (flow_instructions fl0). \<not> is_copy_id (ins_id op)"
      "\<And>k. k \<notin> set (flow_initial fl0) \<Longrightarrow> map_of (flow_addresses fl0) k = None"
  shows "outputs_ok inputs fl0 (entries @ [(slot, cs)]) st'"
proof -
  note f = outputs_okD [OF o]
  let ?found = "filter (\<lambda>v. val_contributors v = cs) (values_at (out_flow st) (slot_rank slot) (Min cs mod n))"
  obtain v here where v: "?found \<noteq> []" "v = last ?found"
    and here: "same_place inputs (map_of (flow_addresses (out_flow st)) (val_id v)) (target slot) = Inr here"
    and st': "st' = (if here then st\<lparr>out_slots := AList.update slot (val_id v) (out_slots st)\<rparr>
            else if val_producer v \<noteq> None \<and> \<not> inplace (collective inputs) then
              st\<lparr>direct_outputs := AList.update (val_id v) (target slot) (direct_outputs st), out_slots := AList.update slot (val_id v) (out_slots st)\<rparr>
            else add_copy v slot fs fp st)"
    using run by (auto simp: add_output_def Let_def res_simps target_def)
  have "v \<in> set ?found" using v last_in_set by blast
  then have at: "v \<in> set (values_at (out_flow st) (slot_rank slot) (Min cs mod n))" "val_contributors v = cs" by auto
  note at0 = at(1) [unfolded f(3)]
  note src = source_value [OF base(1) at0] and cur = source_value [OF f(1) at(1)]
  obtain copies where copies: "flow_instructions (out_flow st) = flow_instructions fl0 @ copies"
    "\<forall>op\<in>set copies. ins_kind op = ''copy'' \<and> (\<exists>slot\<in>fst ` set entries. ins_id op = copy_id_of slot)"
    using f(4) by blast
  have nocopy: "copy_id_of s \<notin> ins_id ` set (flow_instructions fl0)" for s
  proof
    assume "copy_id_of s \<in> ins_id ` set (flow_instructions fl0)"
    then obtain op where "op \<in> set (flow_instructions fl0)" "copy_id_of s = ins_id op" by (elim imageE)
    with bspec [OF base(2), of op] copy_id_of_is_copy(1) [of s] show False by simp
  qed
  have rank: "0 \<le> slot_rank s" if "(s, c) \<in> set (entries @ [(slot, cs)])" for s c
    using bspec [OF exp(2) that] required_outputs_content [OF exp(1)] by simp
  have new: "copy_id_of slot \<notin> ins_id ` set (flow_instructions (out_flow st))"
  proof
    assume "copy_id_of slot \<in> ins_id ` set (flow_instructions (out_flow st))"
    then obtain op where mem: "op \<in> set (flow_instructions fl0 @ copies)" and op: "copy_id_of slot = ins_id op"
      unfolding copies(1) by (elim imageE)
    have "op \<notin> set (flow_instructions fl0)" using nocopy [of slot] unfolding op by (intro notI) (erule notE, rule imageI)
    with mem have "op \<in> set copies" by simp
    from bspec [OF copies(2) this] obtain s c where "(s, c) \<in> set entries" "copy_id_of slot = copy_id_of s" unfolding op by auto
    moreover from this have "0 \<le> slot_rank s" "0 \<le> slot_rank slot" using rank [of s c] rank [of slot cs] by auto
    ultimately have "(slot, c) \<in> set entries" using copy_id_inject by metis
    with fresh show False by force
  qed
  have other: "s \<noteq> slot" "copy_id_of s \<noteq> copy_id_of slot" if "(s, c) \<in> set entries" for s c
  proof -
    show "s \<noteq> slot" using fresh that by force
    then show "copy_id_of s \<noteq> copy_id_of slot" using copy_id_inject rank [of s c] rank [of slot cs] that by auto
  qed
  have val: "\<exists>w. map_of (flow_values (out_flow st)) (val_id v) = Some w \<and> val_contributors w = cs \<and> val_rank w = slot_rank slot"
    using cur(1,2) at(2) by blast
  consider (resident) "here" | (direct) p where "\<not> here" "val_producer v = Some p" "\<not> inplace (collective inputs)"
    | (copied) "st' = add_copy v slot fs fp st" using st' by (cases here; cases "val_producer v"; cases "inplace (collective inputs)") auto
  then show ?thesis
  proof cases
    case resident
    have st1: "st' = st\<lparr>out_slots := AList.update slot (val_id v) (out_slots st)\<rparr>" using st' resident by simp
    have place: "same_place inputs (map_of (flow_addresses (out_flow st)) (val_id v)) (target slot) = Inr True" using here resident by simp
    then obtain a where a: "map_of (flow_addresses (out_flow st)) (val_id v) = Some a" by (auto simp: same_place_def split: option.splits)
    have "val_id v \<in> set (flow_initial fl0)"
    proof (rule ccontr)
      assume no: "val_id v \<notin> set (flow_initial fl0)"
      then obtain p where p: "val_id v = state_name p" "p \<in> ins_id ` set (flow_instructions fl0)" using src(4,5) by (cases "val_producer v") auto
      from f(5) [OF a no] obtain s where "val_id v = state_name (copy_id_of s)" by (auto simp: filled_def)
      with p nocopy [of s] show False by simp
    qed
    then have "filled inputs st' slot cs Resident (val_id v)" using val place new by (simp add: filled_def st1 f(2))
    then show ?thesis by (rule outputs_ok_snoc [OF o]) (use f(1) other in \<open>auto simp: st1 intro!: filled_keep [of inputs st]\<close>)
  next
    case (direct p)
    have st1: "st' = st\<lparr>direct_outputs := AList.update (val_id v) (target slot) (direct_outputs st), out_slots := AList.update slot (val_id v) (out_slots st)\<rparr>"
      using st' direct by simp
    have "filled inputs st' slot cs Direct (val_id v)" using val new direct(3) conjunct2 [OF conjunct2 [OF conjunct2 [OF cur(5) [OF direct(2)]]]] by (simp add: filled_def st1)
    moreover have "filled inputs st' s c how k" if "(s, c) \<in> set entries" "filled inputs st s c how k" for s c how k
    proof (rule filled_keep [OF that(2)])
      show "map_of (direct_outputs st') k = map_of (direct_outputs st) k" if "how = Direct"
      proof -
        have "k \<noteq> val_id v"
        proof
          assume "k = val_id v"
          then have "c = cs" "slot_rank s = slot_rank slot" using \<open>filled inputs st s c how k\<close> cur(1,2) at(2) by (auto simp: filled_def)
          moreover have "map_of expected s = Some c" "map_of expected slot = Some cs" using exp(2) \<open>(s, c) \<in> set entries\<close> by auto
          ultimately have "s = slot" using required_outputs_inj [OF exp(1)] by blast
          with other(1) [OF \<open>(s, c) \<in> set entries\<close>] show False by simp
        qed
        then show ?thesis by (simp add: st1)
      qed
    qed (use other [OF that(1)] in \<open>simp_all add: st1\<close>)
    ultimately show ?thesis by (intro outputs_ok_snoc [OF o]) (use f(1) in \<open>auto simp: st1\<close>)
  next
    case copied
    let ?k = "state_name (copy_id_of slot)" and ?op = "copy_instruction v slot fs fp"
    let ?w = "\<lparr>val_id = ?k, val_rank = val_rank v, val_position = val_position v, val_contributors = val_contributors v, val_producer = Some (copy_id_of slot)\<rparr>"
    have st1: "flow_values (out_flow st') = AList.update ?k ?w (flow_values (out_flow st))"
      "flow_addresses (out_flow st') = AList.update ?k (target slot) (flow_addresses (out_flow st))"
      "flow_instructions (out_flow st') = flow_instructions (out_flow st) @ [?op]" "flow_initial (out_flow st') = flow_initial (out_flow st)"
      "values_at (out_flow st') r l = values_at (out_flow st) r l" "out_slots st' = AList.update slot ?k (out_slots st)" "direct_outputs st' = direct_outputs st" for r l
      by (simp_all add: copied add_copy_def Let_def copy_instruction_def target_def values_at_def)
    have op: "ins_id ?op = copy_id_of slot" "ins_output ?op = ?k" "ins_inputs ?op = [val_id v]" "ins_kind ?op = ''copy''" "finite (ins_dependencies ?op)"
      "val_producer v = Some q \<Longrightarrow> q \<in> ins_dependencies ?op" for q
      using cur(5) by (auto simp: copy_instruction_def split: option.splits)
    have ok: "flow_ok (out_flow st')"
      by (rule flow_ok_extend [OF f(1) new copy_id_of_is_copy(2), of ?w ?op]) (use cur(1,3) op st1 in \<open>auto simp: cont_def\<close>)
    note fresh_k = flow_fresh [OF f(1) new]
    have noinit: "?k \<notin> set (flow_initial fl0)"
    proof
      assume "?k \<in> set (flow_initial fl0)"
      then have "hd ?k = CHR ''i''" using base(1) unfolding flow_ok_def by blast
      then show False by simp
    qed
    have "filled inputs st' slot cs Copied ?k" using at(2) cur(2) by (simp add: filled_def st1 op(1))
    moreover have "filled inputs st' s c how k" if "(s, c) \<in> set entries" "filled inputs st s c how k" for s c how k
    proof (rule filled_keep [OF that(2)])
      have "k \<noteq> ?k" using that(2) fresh_k by (auto simp: filled_def)
      then show "map_of (flow_addresses (out_flow st')) k = map_of (flow_addresses (out_flow st)) k"
        "map_of (flow_values (out_flow st)) k = Some u \<Longrightarrow> map_of (flow_values (out_flow st')) k = Some u" for u by (simp_all add: st1)
    qed (use other [OF that(1)] in \<open>simp_all add: st1 op(1)\<close>)
    ultimately show ?thesis
      by (intro outputs_ok_snoc [OF o] ok) (use noinit in \<open>auto simp: st1 op(1,4)\<close>)
  qed
qed

end
