(* ===== verification/Storage_Flow.thy ===== *)
theory Storage_Flow
  imports Storage_Outputs
begin

text \<open>
  The states, instructions and read-completion edges \<^verbatim>\<open>build_storage_plan\<close> has before it orders the
  instructions and hands out scratch slots.
\<close>

section \<open>Running the stages\<close>

lemma add_outputs_ok:
  assumes run: "for_each (add_output inputs n fs fp) \<lparr>out_flow = fl0, out_slots = [], direct_outputs = []\<rparr> (sort_key fst expected) = Inr st"
    and exp: "required_outputs (collective inputs) ranks n = Inr expected"
    and base: "flow_ok fl0" "\<forall>op\<in>set (flow_instructions fl0). \<not> is_copy_id (ins_id op)"
      "\<And>k. k \<notin> set (flow_initial fl0) \<Longrightarrow> map_of (flow_addresses fl0) k = None"
  shows "outputs_ok inputs fl0 (sort_key fst expected) st"
proof -
  have wf: "wf_dict expected" using required_outputs_assignments [OF exp] by blast
  show ?thesis
  proof (rule for_each_inv_prefix [OF run, where I = "\<lambda>pre st. outputs_ok inputs fl0 pre st"])
    show "outputs_ok inputs fl0 [] \<lparr>out_flow = fl0, out_slots = [], direct_outputs = []\<rparr>"
      unfolding outputs_ok_def using base(1) by (simp add: base(3))
  next
    fix pre x rest s s'
    assume xs: "sort_key fst expected = pre @ x # rest" and o: "outputs_ok inputs fl0 pre s" and step: "add_output inputs n fs fp s x = Inr s'"
    obtain slot cs where x: "x = (slot, cs)" by (cases x)
    have dist: "distinct (map fst (pre @ x # rest))" using wf distinct_keys_sort [of expected] xs by simp
    have "map_of expected a = Some c" if "(a, c) \<in> set (pre @ [(slot, cs)])" for a c
    proof -
      have "(a, c) \<in> set (sort_key fst expected)" using that by (auto simp: xs x)
      then show ?thesis using wf by simp
    qed
    then have "\<forall>(a, c)\<in>set (pre @ [(slot, cs)]). map_of expected a = Some c" by blast
    moreover have "slot \<notin> fst ` set pre" using dist by (simp add: x)
    ultimately show "outputs_ok inputs fl0 (pre @ [x]) s'"
      using add_output_ok [OF o step [unfolded x] exp _ _ base] by (simp add: x)
  qed
qed

lemma add_operation_checked:
  assumes "add_operation inputs topo cs n sz by_id fl op = Inr fl'"
  shows "net_kind op \<noteq> ''copy''" "0 \<le> net_dst op"
proof -
  obtain logical reads where c: "check_operation inputs topo cs n sz op = Inr logical" and r: "operation_reads fl logical op = Inr reads"
    using assms by (auto simp: add_operation_def res_simps)
  show "net_kind op \<noteq> ''copy''" using r by (auto simp: operation_reads_def res_simps split: if_splits)
  show "0 \<le> net_dst op" using c by (auto simp: check_operation_def Let_def res_simps link_key_post_init_def integer_min_def)
qed

lemma add_operation_keeps_inputs:
  assumes "add_operation inputs topo cs n sz by_id fl op = Inr fl'" "hd k = CHR ''i''"
  shows "map_of (flow_values fl') k = map_of (flow_values fl) k"
proof -
  have "k \<noteq> state_name p" for p using assms(2) by auto
  then show ?thesis using assms(1) by (auto simp: add_operation_def Let_def res_simps)
qed

lemma add_output_keeps_inputs:
  assumes "add_output inputs n fs fp st e = Inr st'" "hd k = CHR ''i''"
  shows "map_of (flow_values (out_flow st')) k = map_of (flow_values (out_flow st)) k"
proof -
  have "k \<noteq> state_name p" for p using assms(2) by auto
  then show ?thesis using assms(1)
    by (auto simp: add_output_def Let_def res_simps add_copy_def copy_instruction_def split: prod.splits if_splits)
qed

definition input_positions :: "resolved_input \<Rightarrow> int \<Rightarrow> (int \<times> int) list" where
  "input_positions inputs n = List.product (plan_sources inputs) (py_range 0 n)"

lemma input_positions_ok:
  assumes "valid_problem (collective inputs) (rank_count inputs) n"
  shows "distinct (input_positions inputs n)" "(r, l) \<in> set (input_positions inputs n) \<Longrightarrow> 0 \<le> r \<and> 0 \<le> l"
proof -
  show "distinct (input_positions inputs n)" by (simp add: input_positions_def distinct_product plan_sources_def)
  have "0 \<le> root_value (collective inputs)" if "kind (collective inputs) = BROADCAST"
    using valid_problem_root [OF assms] that by (simp add: rooted_def)
  then show "(r, l) \<in> set (input_positions inputs n) \<Longrightarrow> 0 \<le> r \<and> 0 \<le> l"
    by (auto simp: input_positions_def plan_sources_def split: if_splits)
qed

text \<open>The operations a plan can be built for: finite sets, and names that no output copy has.\<close>

definition proper_operation :: "network_operation \<Rightarrow> bool" where
  "proper_operation op \<longleftrightarrow> finite_operation op \<and> net_id op \<noteq> '''' \<and> \<not> is_copy_id (net_id op)"

text \<open>What holds once the flow is planned.  \<open>fl0\<close> is the flow before the outputs are placed.\<close>

definition flow_planned :: "resolved_input \<Rightarrow> planned_flow \<Rightarrow> int \<Rightarrow> flow_state \<Rightarrow> bool" where
  "flow_planned inputs pf n fl0 \<longleftrightarrow>
     slices inputs = Inr n \<and> required_outputs (collective inputs) (rank_count inputs) n = Inr (pf_expected pf)
   \<and> outputs_ok inputs fl0 (sort_key fst (pf_expected pf)) (pf_state pf) \<and> flow_ok fl0
   \<and> flow_initial fl0 = map (\<lambda>(r, l). input_id r l) (input_positions inputs n)
   \<and> (\<forall>k a. map_of (flow_addresses fl0) k = Some a \<longleftrightarrow> (\<exists>(r, l)\<in>set (input_positions inputs n). k = input_id r l \<and> a = Address r ''i'' l))
   \<and> (\<forall>(r, l)\<in>set (input_positions inputs n). map_of (flow_values (out_flow (pf_state pf))) (input_id r l) = Some (input_value n r l))
   \<and> (\<forall>op\<in>set (flow_instructions fl0). ins_kind op \<noteq> ''copy'' \<and> 0 \<le> ins_rank op \<and> \<not> is_copy_id (ins_id op))"

lemma plan_flow_facts:
  assumes run: "plan_flow inputs topo ops = Inr pf" and ids: "distinct (map net_id ops)" and each: "\<forall>op\<in>set ops. proper_operation op"
  obtains n fl0 initial where "flow_planned inputs pf n fl0"
    "initial_regions inputs (flow_addresses (out_flow (pf_state pf))) (flow_initial (out_flow (pf_state pf))) = Inr initial"
    "map_res (protect inputs (flow_addresses (out_flow (pf_state pf))) initial (flow_instructions (out_flow (pf_state pf))))
       (flow_instructions (out_flow (pf_state pf))) = Inr (pf_protected pf)"
proof -
  obtain n sz cs fl0 initial where n: "slices inputs = Inr n" and exp: "required_outputs (collective inputs) (rank_count inputs) n = Inr (pf_expected pf)"
    and ops: "for_each (add_operation inputs topo cs n sz (dict_of (map (\<lambda>op. (net_id op, op)) ops))) (initial_flow inputs n) ops = Inr fl0"
    and outs: "for_each (add_output inputs n (final_stage_of ops) (final_priority_of ops)) \<lparr>out_flow = fl0, out_slots = [], direct_outputs = []\<rparr>
            (sort_key fst (pf_expected pf)) = Inr (pf_state pf)"
    and regs: "initial_regions inputs (flow_addresses (out_flow (pf_state pf))) (flow_initial (out_flow (pf_state pf))) = Inr initial"
    and prot: "map_res (protect inputs (flow_addresses (out_flow (pf_state pf))) initial (flow_instructions (out_flow (pf_state pf))))
       (flow_instructions (out_flow (pf_state pf))) = Inr (pf_protected pf)"
    using run by (auto simp: plan_flow_def Let_def res_simps)
  have valid: "valid_problem (collective inputs) (rank_count inputs) n" using exp by (auto simp: required_outputs_Inr_iff)
  let ?ps = "input_positions inputs n"
  have loaded: "inputs_loaded n ?ps (initial_flow inputs n)"
    unfolding initial_flow_def input_positions_def [symmetric] by (rule foldl_add_input) (use input_positions_ok [OF valid] in auto)
  note ini = inputs_loadedD [OF loaded]
  have a: "flow_ok fl0 \<and> flow_initial fl0 = flow_initial (initial_flow inputs n) \<and> flow_addresses fl0 = flow_addresses (initial_flow inputs n)
    \<and> map ins_id (flow_instructions fl0) = map ins_id (flow_instructions (initial_flow inputs n)) @ map net_id ops
    \<and> map ins_kind (flow_instructions fl0) = map ins_kind (flow_instructions (initial_flow inputs n)) @ map net_kind ops
    \<and> map ins_rank (flow_instructions fl0) = map ins_rank (flow_instructions (initial_flow inputs n)) @ map net_dst ops"
    by (rule add_operations_ok [OF ops inputs_loaded_ok [OF loaded] ids]) (use each ini(2) in \<open>auto simp: proper_operation_def\<close>)
  have addr: "map_of (flow_addresses fl0) k = Some a \<longleftrightarrow> (\<exists>(r, l)\<in>set ?ps. k = input_id r l \<and> a = Address r ''i'' l)" for k a
    using a ini(4) by simp
  have init: "flow_initial fl0 = map (\<lambda>(r, l). input_id r l) ?ps" using a ini(1) by simp
  have dom: "map_of (flow_addresses fl0) k = None" if "k \<notin> set (flow_initial fl0)" for k
    using that addr [of k] by (cases "map_of (flow_addresses fl0) k") (auto simp: init)
  have "net_kind op \<noteq> ''copy'' \<and> 0 \<le> net_dst op \<and> \<not> is_copy_id (net_id op)" if "op \<in> set ops" for op
    using for_each_each [OF ops that] add_operation_checked each that unfolding proper_operation_def by blast
  then have "\<forall>x\<in>set (map ins_kind (flow_instructions fl0)). x \<noteq> ''copy''" "\<forall>x\<in>set (map ins_rank (flow_instructions fl0)). 0 \<le> x"
    "\<forall>x\<in>set (map ins_id (flow_instructions fl0)). \<not> is_copy_id x" using a ini(2) by auto
  then have kinds: "\<forall>op\<in>set (flow_instructions fl0). ins_kind op \<noteq> ''copy'' \<and> 0 \<le> ins_rank op \<and> \<not> is_copy_id (ins_id op)" by auto
  have o: "outputs_ok inputs fl0 (sort_key fst (pf_expected pf)) (pf_state pf)"
    by (rule add_outputs_ok [OF outs exp]) (use a kinds dom in auto)
  have "map_of (flow_values (out_flow (pf_state pf))) (input_id r l) = Some (input_value n r l)" if "(r, l) \<in> set ?ps" for r l
  proof -
    have h: "hd (input_id r l) = CHR ''i''" by (simp add: input_id_def)
    have "map_of (flow_values (initial_flow inputs n)) (input_id r l) = Some (input_value n r l)" unfolding ini(3) using that by blast
    moreover have "map_of (flow_values fl0) (input_id r l) = map_of (flow_values (initial_flow inputs n)) (input_id r l)"
      by (rule for_each_inv [OF ops, where I = "\<lambda>fl. map_of (flow_values fl) (input_id r l) = map_of (flow_values (initial_flow inputs n)) (input_id r l)"])
        (simp_all add: add_operation_keeps_inputs [OF _ h])
    moreover have "map_of (flow_values (out_flow (pf_state pf))) (input_id r l) = map_of (flow_values fl0) (input_id r l)"
      by (rule for_each_inv [OF outs, where I = "\<lambda>st. map_of (flow_values (out_flow st)) (input_id r l) = map_of (flow_values fl0) (input_id r l)"])
        (simp_all add: add_output_keeps_inputs [OF _ h])
    ultimately show ?thesis by simp
  qed
  then have "flow_planned inputs pf n fl0" unfolding flow_planned_def using n exp o a init addr kinds by blast
  then show ?thesis using regs prot by (rule that)
qed

end
