(* ===== verification/Storage_Slots.thy ===== *)
theory Storage_Slots
  imports Storage_Flow
begin

text \<open>
  The scratch slots of \<^verbatim>\<open>build_storage_plan\<close>: a slot is written again only after every reader
  of the value in it, and the number of slots of a rank stays within the budget.
\<close>

section \<open>Instructions with more dependencies\<close>

definition grown :: "instruction \<Rightarrow> instruction \<Rightarrow> bool" where
  "grown op op' \<longleftrightarrow> op' = op\<lparr>ins_dependencies := ins_dependencies op'\<rparr> \<and> ins_dependencies op \<subseteq> ins_dependencies op'"

lemma grownD:
  assumes "grown op op'"
  shows "ins_id op' = ins_id op" "ins_kind op' = ins_kind op" "ins_inputs op' = ins_inputs op" "ins_output op' = ins_output op"
    "ins_rank op' = ins_rank op" "ins_dependencies op \<subseteq> ins_dependencies op'"
proof -
  obtain D where e: "op' = op\<lparr>ins_dependencies := D\<rparr>" using assms unfolding grown_def by blast
  show "ins_id op' = ins_id op" "ins_kind op' = ins_kind op" "ins_inputs op' = ins_inputs op" "ins_output op' = ins_output op"
    "ins_rank op' = ins_rank op" by (simp_all add: e)
qed (use assms in \<open>simp add: grown_def\<close>)

lemma grown_map:
  assumes "list_all2 grown xs ys" "\<And>x y. grown x y \<Longrightarrow> f x = f y"
  shows "map f xs = map f ys"
  using assms by (induction rule: list_all2_induct) auto

lemma grown_in:
  assumes "list_all2 grown xs ys"
  shows "y \<in> set ys \<Longrightarrow> \<exists>x\<in>set xs. grown x y" "x \<in> set xs \<Longrightarrow> \<exists>y\<in>set ys. grown x y"
  using assms by (induction rule: list_all2_induct) auto

lemma grown_readers:
  assumes "list_all2 grown xs ys"
  shows "readers_of ys s = readers_of xs s"
proof -
  have m: "map (\<lambda>op. (ins_id op, ins_inputs op)) xs = map (\<lambda>op. (ins_id op, ins_inputs op)) ys"
    by (rule grown_map [OF assms]) (simp add: grownD)
  have r: "readers_of zs s = fst ` {(i, r) \<in> set (map (\<lambda>op. (ins_id op, ins_inputs op)) zs). s \<in> set r}" for zs
    by (force simp: readers_of_def)
  show ?thesis unfolding r m ..
qed

section \<open>Choosing a slot\<close>

lemma choose_slot_cases:
  assumes "choose_slot ps position capacity upstream op pool = Inr (deps, index, entry)"
  obtains (reuse) prior where "(index, prior) \<in> set pool" "deps = ins_dependencies op \<union> pending_readers ps op prior"
      "\<forall>r\<in>pending_readers ps op prior. dict_get position r 0 < dict_get position (ins_id op) 0"
  | (fresh) "deps = ins_dependencies op" "index = int (length pool)" "int (length pool) < capacity"
proof -
  let ?av = "slot_choices ps position upstream op pool"
  let ?ca = "filter (\<lambda>c. \<not> ch_late c) ?av"
  show thesis
  proof (cases "?ca \<noteq> [] \<or> (capacity \<le> int (length pool) \<and> ?av \<noteq> [])")
    case True
    let ?cs = "if ?ca \<noteq> [] then ?ca else ?av"
    define c where "c = arg_min_list (\<lambda>c. (ch_late c, ch_index c)) ?cs"
    have "?cs \<noteq> []" using True by auto
    then have "c \<in> set ?cs" unfolding c_def by (rule arg_min_list_in)
    then have "c \<in> set ?av" by (auto split: if_splits)
    then obtain prior where "(ch_index c, prior) \<in> set pool" "ch_readers c = pending_readers ps op prior"
      "\<forall>r\<in>pending_readers ps op prior. dict_get position r 0 < dict_get position (ins_id op) 0"
      by (auto simp: slot_choices_def)
    moreover have "(deps, index, entry) = reuse_slot op (ins_dependencies op) c"
      using assms True by (simp add: choose_slot_def Let_def c_def split: if_splits)
    ultimately show thesis using reuse by (auto simp: reuse_slot_def)
  next
    case False
    then show thesis using assms fresh by (auto simp: choose_slot_def Let_def res_simps split: if_splits)
  qed
qed

section \<open>When a slot may be written again\<close>

definition dep_edges :: "instruction list \<Rightarrow> (string \<times> string) set" where
  "dep_edges ins = {(d, ins_id op) | d op. op \<in> set ins \<and> d \<in> ins_dependencies op}"

lemma must_precede_eq: "must_precede ins = (dep_edges ins)\<^sup>+"
  by (simp add: must_precede_def dep_edges_def)

definition before :: "instruction list \<Rightarrow> instruction list \<Rightarrow> (string \<times> string) set" where
  "before ps fin = (dep_edges ps \<union> dep_edges fin)\<^sup>+"

lemma before_mono: "set xs \<subseteq> set ys \<Longrightarrow> before ps xs \<subseteq> before ps ys"
  unfolding before_def dep_edges_def by (intro trancl_mono_subset) blast

definition free_for :: "instruction list \<Rightarrow> (string \<times> string) set \<Rightarrow> string \<Rightarrow> string \<Rightarrow> bool" where
  "free_for ps D k w \<longleftrightarrow> (\<forall>r\<in>readers_of ps k. r = w \<or> (r, w) \<in> D) \<and> (\<forall>op\<in>set ps. ins_output op = k \<longrightarrow> (ins_id op, w) \<in> D)"

lemma free_for_mono: "free_for ps D k w \<Longrightarrow> D \<subseteq> E \<Longrightarrow> free_for ps E k w"
  unfolding free_for_def by blast

lemma free_for_trans:
  assumes "free_for ps D k (ins_id q)" "q \<in> set ps" "free_for ps D (ins_output q) w" "trans D"
  shows "free_for ps D k w"
proof -
  have q: "(ins_id q, w) \<in> D" using assms(2,3) unfolding free_for_def by blast
  show ?thesis unfolding free_for_def
  proof (intro conjI ballI impI)
    fix r assume "r \<in> readers_of ps k"
    then have "r = ins_id q \<or> (r, ins_id q) \<in> D" using assms(1) unfolding free_for_def by blast
    then show "r = w \<or> (r, w) \<in> D" using q assms(4) by (auto dest: transD)
  next
    fix op assume "op \<in> set ps" "ins_output op = k"
    then have "(ins_id op, ins_id q) \<in> D" using assms(1) unfolding free_for_def by blast
    then show "(ins_id op, w) \<in> D" using q assms(4) by (auto dest: transD)
  qed
qed

text \<open>Instructions as the flow produces them: an instruction depends on the producers of what it reads.\<close>

definition proper_instructions :: "instruction list \<Rightarrow> bool" where
  "proper_instructions ps \<longleftrightarrow> distinct (map ins_id ps) \<and> (\<forall>op\<in>set ps. ins_output op = state_name (ins_id op) \<and> finite (ins_dependencies op)
     \<and> (\<forall>p\<in>set ps. ins_output p \<in> set (ins_inputs op) \<longrightarrow> ins_id p \<in> ins_dependencies op))"

text \<open>Writing a slot after the pending readers of its value makes the value free.\<close>

lemma reuse_frees:
  assumes ps: "proper_instructions ps" and op: "op \<in> set ps" and q: "q \<in> set ps" "readers_of ps (ins_output q) \<noteq> {}"
    and E: "\<forall>r\<in>pending_readers ps op (ins_output q). (r, ins_id op) \<in> D" and D: "dep_edges ps \<subseteq> D" "trans D"
  shows "free_for ps D (ins_output q) (ins_id op)"
proof -
  have readers: "r = ins_id op \<or> (r, ins_id op) \<in> D" if "r \<in> readers_of ps (ins_output q)" for r
    using that E by (auto simp: pending_readers_def split: if_splits)
  obtain r where r: "r \<in> readers_of ps (ins_output q)" using q(2) by blast
  then obtain x where x: "x \<in> set ps" "ins_output q \<in> set (ins_inputs x)" "r = ins_id x" by (auto simp: readers_of_def)
  then have "ins_id q \<in> ins_dependencies x" using ps q(1) unfolding proper_instructions_def by blast
  then have "(ins_id q, r) \<in> D" using x D(1) by (auto simp: dep_edges_def)
  then have "(ins_id q, ins_id op) \<in> D" using readers [OF r] D(2) by (auto dest: transD)
  moreover have "p = q" if "p \<in> set ps" "ins_output p = ins_output q" for p
    using that q(1) ps unfolding proper_instructions_def distinct_map by (metis inj_onD state_name_inject)
  ultimately show ?thesis using readers unfolding free_for_def by blast
qed

section \<open>The positions of the instructions\<close>

lemma positions_nth:
  assumes "distinct (map ins_id xs)" "i < length xs"
  shows "dict_get (positions xs) (ins_id (xs ! i)) 0 = i"
proof -
  let ?kvs = "map (\<lambda>(i, x). (ins_id x, i)) (enumerate 0 xs)"
  have "map fst ?kvs = map ins_id xs" by (rule nth_equalityI) (simp_all add: nth_enumerate_eq)
  with assms(1) have wf: "wf_dict ?kvs" by simp
  moreover have "?kvs ! i = (ins_id (xs ! i), i)" using assms(2) by (simp add: nth_enumerate_eq)
  then have "(ins_id (xs ! i), i) \<in> set ?kvs" using assms(2) nth_mem [of i ?kvs] by simp
  ultimately have "map_of ?kvs (ins_id (xs ! i)) = Some i" by (rule map_of_is_SomeI)
  with dict_of_distinct [OF wf] show ?thesis by (simp add: positions_def dict_get_def)
qed

lemma position_before:
  assumes "distinct (map ins_id (pre @ op # post))" "r \<in> ins_id ` set (pre @ op # post)"
    and "dict_get (positions (pre @ op # post)) r 0 < dict_get (positions (pre @ op # post)) (ins_id op) 0"
  shows "r \<in> ins_id ` set pre"
proof -
  let ?xs = "pre @ op # post"
  have "dict_get (positions ?xs) (ins_id op) 0 = length pre" using positions_nth [OF assms(1), of "length pre"] by simp
  moreover obtain i where i: "i < length ?xs" "r = ins_id (?xs ! i)" using assms(2) by (metis imageE in_set_conv_nth)
  then have "dict_get (positions ?xs) r 0 = i" using positions_nth [OF assms(1), of i] by simp
  ultimately have "i < length pre" using assms(3) by simp
  then show ?thesis using i(2) by (simp add: nth_append)
qed

section \<open>The allocation invariant\<close>

definition scratch_at :: "(string, address) dict \<Rightarrow> (string, address) dict \<Rightarrow> alloc_state \<Rightarrow> instruction \<Rightarrow> int \<Rightarrow> int \<Rightarrow> bool" where
  "scratch_at direct addrs al op r i \<longleftrightarrow> map_of direct (ins_output op) = None \<and> map_of addrs (ins_output op) = None
     \<and> map_of (al_addresses al) (ins_output op) = Some (Address r ''s'' i)"

definition pool_of :: "alloc_state \<Rightarrow> int \<Rightarrow> (int, string) dict" where
  "pool_of al r = dict_get (al_slots al) r []"

text \<open>Where the states of the placed instructions are.\<close>

definition placed :: "(string, address) dict \<Rightarrow> (string, address) dict \<Rightarrow> alloc_state \<Rightarrow> instruction \<Rightarrow> bool" where
  "placed direct addrs al op \<longleftrightarrow>
     (case map_of direct (ins_output op) of
        Some a \<Rightarrow> map_of (al_addresses al) (ins_output op) = Some a
      | None \<Rightarrow> (case map_of addrs (ins_output op) of
          Some a \<Rightarrow> map_of (al_addresses al) (ins_output op) = Some a
        | None \<Rightarrow> \<exists>i\<ge>0. map_of (al_addresses al) (ins_output op) = Some (Address (ins_rank op) ''s'' i)))"

text \<open>The states of one slot form a chain that ends with the state the pool has for it.\<close>

definition chained :: "instruction list \<Rightarrow> (string, address) dict \<Rightarrow> (string, address) dict \<Rightarrow> instruction list \<Rightarrow> alloc_state \<Rightarrow> bool" where
  "chained ps direct addrs pre al \<longleftrightarrow>
     (\<forall>op\<in>set pre. \<forall>r i. scratch_at direct addrs al op r i \<longrightarrow> (\<exists>q\<in>set pre. scratch_at direct addrs al q r i
        \<and> map_of (pool_of al r) i = Some (ins_output q) \<and> (op = q \<or> free_for ps (before ps (al_instructions al)) (ins_output op) (ins_id q))))
   \<and> (\<forall>op\<in>set pre. \<forall>q\<in>set pre. \<forall>r i. scratch_at direct addrs al op r i \<and> scratch_at direct addrs al q r i \<longrightarrow>
        op = q \<or> free_for ps (before ps (al_instructions al)) (ins_output op) (ins_id q) \<or> free_for ps (before ps (al_instructions al)) (ins_output q) (ins_id op))
   \<and> (\<forall>r i p. map_of (pool_of al r) i = Some p \<longrightarrow> (\<exists>q\<in>set pre. ins_output q = p \<and> scratch_at direct addrs al q r i))"

definition pools_ok :: "int \<Rightarrow> alloc_state \<Rightarrow> bool" where
  "pools_ok capacity al \<longleftrightarrow> (\<forall>r. wf_dict (pool_of al r) \<and> fst ` set (pool_of al r) = {0..<int (length (pool_of al r))}
     \<and> int (length (pool_of al r)) \<le> max 0 capacity)"

definition legal_so_far :: "instruction list \<Rightarrow> alloc_state \<Rightarrow> bool" where
  "legal_so_far pre al \<longleftrightarrow> list_all2 grown pre (al_instructions al)
     \<and> (\<forall>a op b. al_instructions al = a @ op # b \<longrightarrow> ins_dependencies op \<subseteq> ins_id ` set a)"

definition slots_ok :: "(string, address) dict \<Rightarrow> (string, address) dict \<Rightarrow> int \<Rightarrow> instruction list \<Rightarrow> alloc_state \<Rightarrow> bool" where
  "slots_ok direct addrs capacity pre al \<longleftrightarrow> legal_so_far pre al \<and> pools_ok capacity al
     \<and> (\<forall>op\<in>set pre. placed direct addrs al op)
     \<and> (\<forall>k. k \<notin> ins_output ` set pre \<longrightarrow> map_of (al_addresses al) k = map_of addrs k)"

text \<open>What one step of the allocation does.\<close>

lemma allocate_cases:
  assumes "allocate ps position capacity direct al op = Inr al'"
  obtains (kept) "al_instructions al' = al_instructions al @ [op]" "al_slots al' = al_slots al"
      "map_of direct (ins_output op) \<noteq> None \<or> map_of (al_addresses al) (ins_output op) \<noteq> None"
      "map_of (al_addresses al') = (case map_of direct (ins_output op) of None \<Rightarrow> map_of (al_addresses al)
         | Some a \<Rightarrow> (map_of (al_addresses al))(ins_output op \<mapsto> a))"
  | (fresh) "map_of direct (ins_output op) = None" "map_of (al_addresses al) (ins_output op) = None"
      "al_instructions al' = al_instructions al @ [op]"
      "map_of (al_addresses al') = (map_of (al_addresses al))(ins_output op \<mapsto> Address (ins_rank op) ''s'' (int (length (pool_of al (ins_rank op)))))"
      "al_slots al' = AList.update (ins_rank op) (AList.update (int (length (pool_of al (ins_rank op)))) (ins_output op) (pool_of al (ins_rank op))) (al_slots al)"
      "int (length (pool_of al (ins_rank op))) < capacity"
  | (reused) index prior where "map_of direct (ins_output op) = None" "map_of (al_addresses al) (ins_output op) = None"
      "al_instructions al' = al_instructions al @ [op\<lparr>ins_dependencies := ins_dependencies op \<union> pending_readers ps op prior\<rparr>]"
      "map_of (al_addresses al') = (map_of (al_addresses al))(ins_output op \<mapsto> Address (ins_rank op) ''s'' index)"
      "al_slots al' = AList.update (ins_rank op) (AList.update index (ins_output op) (pool_of al (ins_rank op))) (al_slots al)"
      "(index, prior) \<in> set (pool_of al (ins_rank op))"
      "\<forall>r\<in>pending_readers ps op prior. dict_get position r 0 < dict_get position (ins_id op) 0"
proof (cases "map_of direct (ins_output op)")
  case (Some a)
  with assms kept show thesis by (auto simp: allocate_def res_simps update_conv')
next
  case None
  show thesis
  proof (cases "map_of (al_addresses al) (ins_output op)")
    case (Some a)
    then have "ins_output op \<in> set (dict_keys (al_addresses al))" by (auto simp: image_iff dest!: map_of_SomeD intro: bexI [rotated])
    with assms kept Some None show thesis by (auto simp: allocate_def res_simps)
  next
    case unused: None
    then have no: "ins_output op \<notin> set (dict_keys (al_addresses al))" by (simp add: map_of_eq_None_iff)
    obtain upstream deps index entry where ch: "choose_slot ps position capacity upstream op (pool_of al (ins_rank op)) = Inr (deps, index, entry)"
      and al': "al_instructions al' = al_instructions al @ [op\<lparr>ins_dependencies := deps\<rparr>]"
        "map_of (al_addresses al') = (map_of (al_addresses al))(ins_output op \<mapsto> Address (ins_rank op) ''s'' index)"
        "al_slots al' = AList.update (ins_rank op) (AList.update index (ins_output op) (pool_of al (ins_rank op))) (al_slots al)"
      using assms None no by (auto simp: allocate_def res_simps Let_def pool_of_def update_conv')
    from ch show thesis
    proof (cases rule: choose_slot_cases)
      case (reuse prior)
      with al' None unused show thesis by (intro reused [of prior index]) simp_all
    next
      case fresh
      with al' None unused show thesis by (intro that(2)) simp_all
    qed
  qed
qed

lemma legal_snoc:
  assumes "legal_so_far pre al" "al_instructions al' = al_instructions al @ [op']" "grown op op'" "ins_dependencies op' \<subseteq> ins_id ` set pre"
  shows "legal_so_far (pre @ [op]) al'"
proof -
  have g: "list_all2 grown pre (al_instructions al)" and l: "\<forall>a x b. al_instructions al = a @ x # b \<longrightarrow> ins_dependencies x \<subseteq> ins_id ` set a"
    using assms(1) by (auto simp: legal_so_far_def)
  have "map ins_id pre = map ins_id (al_instructions al)" by (rule grown_map [OF g]) (simp add: grownD)
  then have ids: "ins_id ` set pre = ins_id ` set (al_instructions al)" by (metis set_map)
  have "ins_dependencies x \<subseteq> ins_id ` set a" if "al_instructions al' = a @ x # b" for a x b
    using that l assms(2,4) ids by (cases b rule: rev_cases) auto
  then show ?thesis using g assms(2,3) by (simp add: legal_so_far_def list_all2_appendI)
qed

lemma allocate_legal:
  assumes step: "allocate ps (positions (pre @ op # post)) capacity direct al op = Inr al'" and l: "legal_so_far pre al"
    and ord: "legal_order ps (pre @ op # post)" "distinct (map ins_id ps)"
  shows "legal_so_far (pre @ [op]) al'"
proof -
  have deps: "ins_dependencies op \<subseteq> ins_id ` set pre" using ord(1) unfolding legal_order_def by blast
  have m: "mset (pre @ op # post) = mset ps" using ord(1) unfolding legal_order_def by blast
  have dist: "distinct (map ins_id (pre @ op # post))" using ord(2) m by (metis mset_eq_imp_distinct_iff mset_map)
  from step show ?thesis
  proof (cases rule: allocate_cases)
    case (reused index prior)
    have "pending_readers ps op prior \<subseteq> ins_id ` set (pre @ op # post)"
      unfolding mset_eq_setD [OF m] by (auto simp: pending_readers_def readers_of_def)
    then have "r \<in> ins_id ` set pre" if "r \<in> pending_readers ps op prior" for r
      using position_before [OF dist, of r] reused(7) that by blast
    then show ?thesis using deps by (intro legal_snoc [OF l reused(3)]) (auto simp: grown_def)
  qed (use deps in \<open>auto intro!: legal_snoc [OF l] simp: grown_def\<close>)
qed

lemma pool_of_update:
  "al_slots al' = AList.update r (AList.update i p (pool_of al r)) (al_slots al) \<Longrightarrow>
     pool_of al' r' = (if r' = r then AList.update i p (pool_of al r) else pool_of al r')"
  by (simp add: pool_of_def)

lemma allocate_pools:
  assumes "allocate ps position capacity direct al op = Inr al'" "pools_ok capacity al"
  shows "pools_ok capacity al'"
  using assms(1)
proof (cases rule: allocate_cases)
  case kept
  then show ?thesis using assms(2) by (simp add: pools_ok_def pool_of_def)
next
  case fresh
  let ?pool = "pool_of al (ins_rank op)"
  have p: "wf_dict ?pool" "fst ` set ?pool = {0..<int (length ?pool)}" using assms(2) unfolding pools_ok_def by blast+
  then have "int (length ?pool) \<notin> fst ` set ?pool" by simp
  then have u: "AList.update (int (length ?pool)) (ins_output op) ?pool = ?pool @ [(int (length ?pool), ins_output op)]"
    by (rule length_update_new)
  have "insert (int (length ?pool)) {0..<int (length ?pool)} = {0..<int (length ?pool) + 1}" by auto
  with p u fresh(6) have "wf_dict (pool_of al' (ins_rank op)) \<and> fst ` set (pool_of al' (ins_rank op)) = {0..<int (length (pool_of al' (ins_rank op)))}
    \<and> int (length (pool_of al' (ins_rank op))) \<le> max 0 capacity" by (auto simp: pool_of_update [OF fresh(5)])
  then show ?thesis using assms(2) by (auto simp: pools_ok_def pool_of_update [OF fresh(5)])
next
  case (reused index prior)
  let ?pool = "pool_of al (ins_rank op)"
  have mem: "index \<in> fst ` set ?pool" using reused(6) by force
  then have "length (AList.update index (ins_output op) d) = length d" if "index \<in> fst ` set d" for d
    using that by (induction d) auto
  with mem have "fst ` set (AList.update index (ins_output op) ?pool) = fst ` set ?pool" "length (AList.update index (ins_output op) ?pool) = length ?pool"
    by auto
  then show ?thesis using assms(2) by (auto simp: pools_ok_def pool_of_update [OF reused(5)])
qed

text \<open>The addresses of other states do not change.\<close>

lemma allocate_addresses:
  assumes "allocate ps position capacity direct al op = Inr al'"
  shows "k \<noteq> ins_output op \<Longrightarrow> map_of (al_addresses al') k = map_of (al_addresses al) k"
    and "map_of (al_addresses al) (ins_output op) = map_of addrs (ins_output op) \<Longrightarrow> pools_ok capacity al \<Longrightarrow> placed direct addrs al' op"
    and "set (al_instructions al) \<subseteq> set (al_instructions al')"
proof -
  show "k \<noteq> ins_output op \<Longrightarrow> map_of (al_addresses al') k = map_of (al_addresses al) k"
    using assms by (cases rule: allocate_cases) (auto split: option.splits)
  show "set (al_instructions al) \<subseteq> set (al_instructions al')" using assms by (cases rule: allocate_cases) auto
  assume same: "map_of (al_addresses al) (ins_output op) = map_of addrs (ins_output op)" and pools: "pools_ok capacity al"
  from assms show "placed direct addrs al' op"
  proof (cases rule: allocate_cases)
    case (reused index prior)
    then have "index \<in> fst ` set (pool_of al (ins_rank op))" by force
    then have "0 \<le> index" using pools by (auto simp: pools_ok_def)
    with reused(1-4) same show ?thesis by (auto simp: placed_def)
  qed (use same in \<open>auto simp: placed_def split: option.splits\<close>)
qed

lemma trans_before: "trans (before ps xs)" and edges_before: "dep_edges ps \<subseteq> before ps xs" "dep_edges xs \<subseteq> before ps xs"
  unfolding before_def by auto

lemma chained_snoc:
  assumes c: "chained ps direct addrs pre al" and D: "before ps (al_instructions al) \<subseteq> before ps (al_instructions al')"
    and same: "\<And>q r i. q \<in> set pre \<Longrightarrow> scratch_at direct addrs al' q r i \<longleftrightarrow> scratch_at direct addrs al q r i"
    and new: "scratch_at direct addrs al' op r0 i0"
    and pool: "\<And>r i. map_of (pool_of al' r) i = (if (r, i) = (r0, i0) then Some (ins_output op) else map_of (pool_of al r) i)"
    and prior: "\<And>q. q \<in> set pre \<Longrightarrow> map_of (pool_of al r0) i0 = Some (ins_output q) \<Longrightarrow> free_for ps (before ps (al_instructions al')) (ins_output q) (ins_id op)"
    and pre: "set pre \<subseteq> set ps"
  shows "chained ps direct addrs (pre @ [op]) al'"
proof -
  let ?D = "before ps (al_instructions al')"
  note c1 = c [unfolded chained_def, THEN conjunct1] and c2 = c [unfolded chained_def, THEN conjunct2, THEN conjunct1]
    and c3 = c [unfolded chained_def, THEN conjunct2, THEN conjunct2]
  have only: "r = r0 \<and> i = i0" if "scratch_at direct addrs al' op r i" for r i using that new by (auto simp: scratch_at_def)
  have free: "free_for ps ?D (ins_output x) (ins_id op)" if x: "x \<in> set pre" "scratch_at direct addrs al x r0 i0" for x
  proof -
    obtain q where q: "q \<in> set pre" "map_of (pool_of al r0) i0 = Some (ins_output q)"
      "x = q \<or> free_for ps (before ps (al_instructions al)) (ins_output x) (ins_id q)" using c1 x by blast
    note fq = prior [OF q(1,2)]
    show ?thesis
    proof (cases "x = q")
      case False
      then have "free_for ps ?D (ins_output x) (ins_id q)" using q(3) free_for_mono [OF _ D] by blast
      then show ?thesis using free_for_trans [OF _ _ fq trans_before] q(1) pre by blast
    qed (use fq in simp)
  qed
  have d1: "\<exists>q\<in>set (pre @ [op]). scratch_at direct addrs al' q r i
        \<and> map_of (pool_of al' r) i = Some (ins_output q) \<and> (x = q \<or> free_for ps ?D (ins_output x) (ins_id q))"
    if x: "x \<in> set (pre @ [op])" "scratch_at direct addrs al' x r i" for x r i
  proof (cases "(r, i) = (r0, i0)")
    case True
    have "x = op \<or> free_for ps ?D (ins_output x) (ins_id op)" using x free same True by auto
    then show ?thesis using new pool True by (intro bexI [of _ op]) auto
  next
    case False
    then have "x \<in> set pre" using x only by auto
    then obtain q where "q \<in> set pre" "scratch_at direct addrs al q r i" "map_of (pool_of al r) i = Some (ins_output q)"
      "x = q \<or> free_for ps (before ps (al_instructions al)) (ins_output x) (ins_id q)" using c1 x(2) same by blast
    then show ?thesis using False same pool free_for_mono [OF _ D] by (intro bexI [of _ q]) auto
  qed
  have d2: "x = q \<or> free_for ps ?D (ins_output x) (ins_id q) \<or> free_for ps ?D (ins_output q) (ins_id x)"
    if x: "x \<in> set (pre @ [op])" "q \<in> set (pre @ [op])" "scratch_at direct addrs al' x r i" "scratch_at direct addrs al' q r i" for x q r i
  proof (cases "x \<in> set pre \<and> q \<in> set pre")
    case True
    then have "x = q \<or> free_for ps (before ps (al_instructions al)) (ins_output x) (ins_id q) \<or> free_for ps (before ps (al_instructions al)) (ins_output q) (ins_id x)"
      using c2 x(3,4) same by blast
    then show ?thesis using free_for_mono [OF _ D] by blast
  next
    case False
    then have at: "r = r0 \<and> i = i0" using x only by auto
    from False x(1,2) consider "x = op" "q = op" | "x = op" "q \<in> set pre" | "q = op" "x \<in> set pre" by auto
    then show ?thesis by cases (use x(3,4) free same at in auto)
  qed
  have d3: "\<exists>q\<in>set (pre @ [op]). ins_output q = p \<and> scratch_at direct addrs al' q r i" if "map_of (pool_of al' r) i = Some p" for r i p
  proof (cases "(r, i) = (r0, i0)")
    case False
    then have "map_of (pool_of al r) i = Some p" using that pool by auto
    then obtain q where "q \<in> set pre" "ins_output q = p" "scratch_at direct addrs al q r i" using c3 by blast
    then show ?thesis using same by (intro bexI [of _ q]) auto
  qed (use that pool new in auto)
  show ?thesis unfolding chained_def using d1 d2 d3 by blast
qed

lemma chained_keep:
  assumes c: "chained ps direct addrs pre al" and D: "before ps (al_instructions al) \<subseteq> before ps (al_instructions al')"
    and same: "\<And>q r i. q \<in> set pre \<Longrightarrow> scratch_at direct addrs al' q r i \<longleftrightarrow> scratch_at direct addrs al q r i"
    and none: "\<And>r i. \<not> scratch_at direct addrs al' op r i" and pool: "\<And>r. pool_of al' r = pool_of al r"
  shows "chained ps direct addrs (pre @ [op]) al'"
proof -
  let ?D = "before ps (al_instructions al')"
  note c1 = c [unfolded chained_def, THEN conjunct1] and c2 = c [unfolded chained_def, THEN conjunct2, THEN conjunct1]
    and c3 = c [unfolded chained_def, THEN conjunct2, THEN conjunct2]
  have old: "x \<in> set pre \<and> scratch_at direct addrs al x r i" if "x \<in> set (pre @ [op])" "scratch_at direct addrs al' x r i" for x r i
    using that none same by auto
  have d1: "\<exists>q\<in>set (pre @ [op]). scratch_at direct addrs al' q r i
        \<and> map_of (pool_of al' r) i = Some (ins_output q) \<and> (x = q \<or> free_for ps ?D (ins_output x) (ins_id q))"
    if x: "x \<in> set (pre @ [op])" "scratch_at direct addrs al' x r i" for x r i
  proof -
    obtain q where "q \<in> set pre" "scratch_at direct addrs al q r i" "map_of (pool_of al r) i = Some (ins_output q)"
      "x = q \<or> free_for ps (before ps (al_instructions al)) (ins_output x) (ins_id q)" using c1 old [OF x] by blast
    then show ?thesis using same pool free_for_mono [OF _ D] by (intro bexI [of _ q]) auto
  qed
  have d2: "x = q \<or> free_for ps ?D (ins_output x) (ins_id q) \<or> free_for ps ?D (ins_output q) (ins_id x)"
    if x: "x \<in> set (pre @ [op])" "q \<in> set (pre @ [op])" "scratch_at direct addrs al' x r i" "scratch_at direct addrs al' q r i" for x q r i
  proof -
    have "x = q \<or> free_for ps (before ps (al_instructions al)) (ins_output x) (ins_id q) \<or> free_for ps (before ps (al_instructions al)) (ins_output q) (ins_id x)"
      using c2 old [OF x(1,3)] old [OF x(2,4)] by blast
    then show ?thesis using free_for_mono [OF _ D] by blast
  qed
  have d3: "\<exists>q\<in>set (pre @ [op]). ins_output q = p \<and> scratch_at direct addrs al' q r i" if "map_of (pool_of al' r) i = Some p" for r i p
  proof -
    have "map_of (pool_of al r) i = Some p" using that pool by simp
    then obtain q where "q \<in> set pre" "ins_output q = p" "scratch_at direct addrs al q r i" using c3 by blast
    then show ?thesis using same by (intro bexI [of _ q]) auto
  qed
  show ?thesis unfolding chained_def using d1 d2 d3 by blast
qed

lemma allocate_chained:
  assumes step: "allocate ps (positions (pre @ op # post)) capacity direct al op = Inr al'" and c: "chained ps direct addrs pre al"
    and pools: "pools_ok capacity al" and ord: "legal_order ps (pre @ op # post)" and ps: "proper_instructions ps"
    and fresh_address: "map_of (al_addresses al) (ins_output op) = map_of addrs (ins_output op)"
    and read: "\<forall>q\<in>set ps. map_of direct (ins_output q) = None \<and> map_of addrs (ins_output q) = None \<longrightarrow> readers_of ps (ins_output q) \<noteq> {}"
  shows "chained ps direct addrs (pre @ [op]) al'"
proof -
  have m: "mset (pre @ op # post) = mset ps" using ord unfolding legal_order_def by blast
  note mem = mset_eq_setD [OF m, symmetric]
  have dist: "distinct (map ins_id (pre @ op # post))" using ps m unfolding proper_instructions_def by (metis mset_eq_imp_distinct_iff mset_map)
  have out: "ins_output q \<noteq> ins_output op" if "q \<in> set pre" for q
  proof -
    have "ins_id q \<noteq> ins_id op" using dist imageI [OF that, of ins_id] by auto
    moreover have "q \<in> set ps" "op \<in> set ps" using that by (auto simp: mem)
    ultimately show ?thesis using ps unfolding proper_instructions_def by (metis state_name_inject)
  qed
  have same: "scratch_at direct addrs al' q r i \<longleftrightarrow> scratch_at direct addrs al q r i" if "q \<in> set pre" for q r i
    using allocate_addresses(1) [OF step out [OF that]] by (simp add: scratch_at_def)
  note D = before_mono [OF allocate_addresses(3) [OF step], of ps]
  have wf: "wf_dict (pool_of al r)" for r using pools unfolding pools_ok_def by blast
  note c3 = c [unfolded chained_def, THEN conjunct2, THEN conjunct2]
  from step show ?thesis
  proof (cases rule: allocate_cases)
    case kept
    have none: "\<not> scratch_at direct addrs al' op r i" for r i using kept(3) fresh_address by (auto simp: scratch_at_def)
    have pool: "pool_of al' r = pool_of al r" for r using kept(2) by (simp add: pool_of_def)
    show ?thesis by (rule chained_keep [OF c D same none pool])
  next
    case fresh
    have "int (length (pool_of al (ins_rank op))) \<notin> fst ` set (pool_of al (ins_rank op))" using pools unfolding pools_ok_def by auto
    then have "map_of (pool_of al (ins_rank op)) (int (length (pool_of al (ins_rank op)))) = None" by (simp add: map_of_eq_None_iff)
    then show ?thesis
      by (intro chained_snoc [OF c D same, of _ "ins_rank op" "int (length (pool_of al (ins_rank op)))"])
        (use fresh(1,2,4) fresh_address mem in \<open>auto simp: scratch_at_def pool_of_update [OF fresh(5)]\<close>)
  next
    case (reused index prior)
    have prior: "map_of (pool_of al (ins_rank op)) index = Some prior" using wf reused(6) by simp
    have "free_for ps (before ps (al_instructions al')) (ins_output q) (ins_id op)"
      if q: "q \<in> set pre" "map_of (pool_of al (ins_rank op)) index = Some (ins_output q)" for q
    proof (rule reuse_frees [OF ps _ _ _ _ edges_before(1) trans_before])
      obtain q' where q': "q' \<in> set pre" "ins_output q' = ins_output q" "scratch_at direct addrs al q' (ins_rank op) index" using c3 q(2) by blast
      then have "map_of direct (ins_output q) = None \<and> map_of addrs (ins_output q) = None" by (auto simp: scratch_at_def)
      then show "readers_of ps (ins_output q) \<noteq> {}" using read q(1) mem by auto
      have "prior = ins_output q" using prior q(2) by simp
      then have "(r, ins_id op) \<in> dep_edges (al_instructions al')" if "r \<in> pending_readers ps op (ins_output q)" for r
        unfolding dep_edges_def mem_Collect_eq
        using that by (intro exI [of _ r] exI [of _ "last (al_instructions al')"]) (simp add: reused(3))
      then show "\<forall>r\<in>pending_readers ps op (ins_output q). (r, ins_id op) \<in> before ps (al_instructions al')"
        using edges_before(2) by blast
    qed (use q(1) mem in auto)
    then show ?thesis
      by (intro chained_snoc [OF c D same, of _ "ins_rank op" index])
        (use reused(1,2,4) fresh_address mem in \<open>auto simp: scratch_at_def pool_of_update [OF reused(5)]\<close>)
  qed
qed

lemma slots_okD:
  assumes "slots_ok direct addrs capacity pre al"
  shows "legal_so_far pre al" "pools_ok capacity al" "op \<in> set pre \<Longrightarrow> placed direct addrs al op"
    "k \<notin> ins_output ` set pre \<Longrightarrow> map_of (al_addresses al) k = map_of addrs k"
  using assms unfolding slots_ok_def by blast+

lemma proper_outputs_distinct:
  assumes "proper_instructions ps"
  shows "distinct (map ins_output ps)"
proof -
  have "ins_output x = state_name (ins_id x)" if "x \<in> set ps" for x using assms that by (simp add: proper_instructions_def)
  then have "map ins_output ps = map state_name (map ins_id ps)" by simp
  moreover have "distinct (map ins_id ps)" using assms by (simp add: proper_instructions_def)
  ultimately show ?thesis by (simp add: distinct_map inj_on_def)
qed

definition no_slots :: "(string, address) dict \<Rightarrow> alloc_state" where
  "no_slots addrs = \<lparr>al_addresses = addrs, al_ancestors = [], al_slots = [], al_reuse = [], al_instructions = []\<rparr>"

lemma new_output:
  assumes "legal_order ps (pre @ op # rest)" "proper_instructions ps"
  shows "ins_output op \<notin> ins_output ` set pre"
proof -
  have "mset (pre @ op # rest) = mset ps" using assms(1) unfolding legal_order_def by blast
  then have "distinct (map ins_output (pre @ op # rest))"
    using proper_outputs_distinct [OF assms(2)] by (metis mset_eq_imp_distinct_iff mset_map)
  then show ?thesis by simp
qed

lemma allocate_slots:
  assumes step: "allocate ps (positions (pre @ op # rest)) capacity direct s op = Inr s'" and ok: "slots_ok direct addrs capacity pre s"
    and ord: "legal_order ps (pre @ op # rest)" and ps: "proper_instructions ps"
  shows "slots_ok direct addrs capacity (pre @ [op]) s'"
proof -
  note o = slots_okD [OF ok]
  note new = new_output [OF ord ps]
  have ids: "distinct (map ins_id ps)" using ps by (simp add: proper_instructions_def)
  have "placed direct addrs s' q" if "q \<in> set pre" for q
  proof -
    have e: "map_of (al_addresses s') (ins_output q) = map_of (al_addresses s) (ins_output q)"
      by (rule allocate_addresses(1) [OF step]) (use new imageI [OF that, of ins_output] in auto)
    show ?thesis using o(3) [OF that] unfolding placed_def e .
  qed
  with allocate_addresses(2) [OF step o(4) [OF new] o(2)] have "\<forall>op\<in>set (pre @ [op]). placed direct addrs s' op" by auto
  moreover have "\<forall>k. k \<notin> ins_output ` set (pre @ [op]) \<longrightarrow> map_of (al_addresses s') k = map_of addrs k"
    using o(4) allocate_addresses(1) [OF step] by simp
  ultimately show ?thesis
    unfolding slots_ok_def using allocate_legal [OF step o(1) ord ids] allocate_pools [OF step o(2)] by blast
qed

lemma allocate_all:
  assumes run: "for_each (allocate ps (positions ordered) capacity direct) (no_slots addrs) ordered = Inr al"
    and ord: "legal_order ps ordered" and ps: "proper_instructions ps"
  shows "slots_ok direct addrs capacity ordered al"
    and "\<forall>q\<in>set ps. map_of direct (ins_output q) = None \<and> map_of addrs (ins_output q) = None \<longrightarrow> readers_of ps (ins_output q) \<noteq> {}
      \<Longrightarrow> chained ps direct addrs ordered al"
proof -
  have nil: "slots_ok direct addrs capacity [] (no_slots addrs)" "chained ps direct addrs [] (no_slots addrs)"
    by (simp_all add: slots_ok_def legal_so_far_def pools_ok_def chained_def pool_of_def dict_get_def no_slots_def)
  show "slots_ok direct addrs capacity ordered al"
    by (rule for_each_inv_prefix [OF run, where I = "\<lambda>pre al. slots_ok direct addrs capacity pre al"])
      (use nil(1) allocate_slots ord ps in auto)
  assume read: "\<forall>q\<in>set ps. map_of direct (ins_output q) = None \<and> map_of addrs (ins_output q) = None \<longrightarrow> readers_of ps (ins_output q) \<noteq> {}"
  have "slots_ok direct addrs capacity ordered al \<and> chained ps direct addrs ordered al"
  proof (rule for_each_inv_prefix [OF run, where I = "\<lambda>pre al. slots_ok direct addrs capacity pre al \<and> chained ps direct addrs pre al"])
    fix pre op rest s s'
    assume xs: "ordered = pre @ op # rest" and ok: "slots_ok direct addrs capacity pre s \<and> chained ps direct addrs pre s"
      and step: "allocate ps (positions ordered) capacity direct s op = Inr s'"
    note ord' = ord [unfolded xs] and step' = step [unfolded xs] and o = slots_okD [OF conjunct1 [OF ok]]
    show "slots_ok direct addrs capacity (pre @ [op]) s' \<and> chained ps direct addrs (pre @ [op]) s'"
      using allocate_slots [OF step' conjunct1 [OF ok] ord' ps]
        allocate_chained [OF step' conjunct2 [OF ok] o(2) ord' ps o(4) [OF new_output [OF ord' ps]] read] by blast
  qed (use nil in blast)
  then show "chained ps direct addrs ordered al" by blast
qed

end
