(* ===== verification/Storage_Delivers.thy ===== *)
theory Storage_Delivers
  imports Storage_Slots
begin

text \<open>
  The main theorems on storage plans: their instruction order is executable and within the scratch budget,
  and every order their dependencies allow computes the collective.
\<close>

section \<open>Regions of addresses\<close>

text \<open>The coordinates of a canonical region, in slices.\<close>

definition place_name :: "resolved_input \<Rightarrow> address \<Rightarrow> string" where
  "place_name inputs a = (if addr_buffer a = ''s'' then ''scratch'' else if inplace (collective inputs) then ''inplace''
     else if addr_buffer a = ''i'' then ''input'' else ''output'')"

definition place_offset :: "resolved_input \<Rightarrow> int \<Rightarrow> address \<Rightarrow> int" where
  "place_offset inputs n a = (if addr_buffer a \<noteq> ''s'' \<and> inplace (collective inputs) then inplace_base inputs n a else 0) + addr_offset a"

lemma mk_region_Inr_iff:
  "mk_region r b off sz knd = Inr x \<longleftrightarrow> x = \<lparr>region_rank = r, buffer_id = b, region_offset = off, region_size = sz, region_kind = knd\<rparr>
     \<and> 0 \<le> r \<and> 0 \<le> off \<and> 0 < sz \<and> b \<noteq> '''' \<and> knd \<in> {''data'', ''input'', ''output'', ''scratch''}"
  by (auto simp: mk_region_def buffer_region_post_init_def nonnegative_def res_simps)

lemma canonical_region_Inr_iff:
  assumes "slices inputs = Inr n" "slice_bytes inputs = Inr sz"
  shows "canonical_region a inputs = Inr x \<longleftrightarrow> 0 \<le> addr_rank a \<and> 0 \<le> place_offset inputs n a * sz \<and> 0 < sz
    \<and> x = \<lparr>region_rank = addr_rank a, buffer_id = place_name inputs a, region_offset = place_offset inputs n a * sz, region_size = sz,
           region_kind = (if place_name inputs a = ''inplace'' then ''data'' else place_name inputs a)\<rparr>"
  by (auto simp: canonical_region_def assms Let_def mk_region_Inr_iff place_name_def place_offset_def)

lemma canonical_region_total:
  assumes "slices inputs = Inr n" "slice_bytes inputs = Inr sz" "0 < sz" "0 \<le> addr_rank a" "0 \<le> addr_offset a" "0 < n" "0 < rank_count inputs"
  obtains x where "canonical_region a inputs = Inr x"
proof -
  have "0 \<le> n div rank_count inputs" using assms(6,7) by (simp add: pos_imp_zdiv_nonneg_iff)
  then have "0 \<le> place_offset inputs n a" using assms(4-6) by (auto simp: place_offset_def inplace_base_def)
  then have "\<exists>x. canonical_region a inputs = Inr x" unfolding canonical_region_Inr_iff [OF assms(1,2)] using assms(3,4) by simp
  with that show thesis by blast
qed

lemma canonical_region_inject:
  assumes "slices inputs = Inr n" "slice_bytes inputs = Inr sz" "canonical_region a inputs = Inr x" "canonical_region b inputs = Inr x"
  shows "addr_rank a = addr_rank b" "place_name inputs a = place_name inputs b" "place_offset inputs n a = place_offset inputs n b"
  using assms(3,4) unfolding canonical_region_Inr_iff [OF assms(1,2)] by auto

lemma target_region_inject:
  assumes "slices inputs = Inr n" "slice_bytes inputs = Inr sz"
    and "canonical_region (target s) inputs = Inr x" "canonical_region (target t) inputs = Inr x"
  shows "s = t"
  using canonical_region_inject [OF assms] by (cases s; cases t) (auto simp: target_def place_offset_def inplace_base_def split: if_splits)

lemma input_region_inject:
  assumes "slices inputs = Inr n" "slice_bytes inputs = Inr sz"
    and "canonical_region (Address r ''i'' l) inputs = Inr x" "canonical_region (Address r' ''i'' l') inputs = Inr x"
  shows "r = r' \<and> l = l'"
  using canonical_region_inject [OF assms] by (auto simp: place_offset_def inplace_base_def split: if_splits)

section \<open>Protected instructions\<close>

lemma protect_grown:
  assumes "protect inputs addrs initial ins op = Inr op'" "finite (ins_dependencies op)"
  shows "grown op op' \<and> finite (ins_dependencies op')"
proof (cases "ins_kind op = ''copy''")
  case True
  have "finite (readers_of ins s)" for s unfolding readers_of_def by (rule finite_set)
  with assms True show ?thesis by (auto simp: protect_def res_simps grown_def split: prod.splits)
next
  case False
  with assms show ?thesis by (simp add: protect_def grown_def)
qed

text \<open>A copy onto an initial state waits for the other readers of that state.\<close>

lemma protect_waits:
  assumes "protect inputs addrs initial ins op = Inr op'" "ins_kind op = ''copy''" "region_of inputs addrs (ins_output op) = Inr x"
    and "(s, x) \<in> set initial" "0 < region_size x"
  shows "readers_of ins s - {ins_id op} \<subseteq> ins_dependencies op'"
proof -
  have "overlaps x x" using assms(5) by (simp add: overlaps_def)
  then have sub: "readers_of ins s - {ins_id op} \<subseteq> \<Union>((\<lambda>(s, r). if (region_rank r, buffer_id r, region_offset r) = (region_rank x, buffer_id x, region_offset x)
                  \<and> overlaps x r then readers_of ins s - {ins_id op} else {}) ` set initial)" (is "_ \<subseteq> ?U")
    using assms(4) by (intro Union_upper image_eqI [of _ _ "(s, x)"]) simp_all
  have e: "op' = op\<lparr>ins_dependencies := ins_dependencies op \<union> ?U\<rparr>" using assms(1-3) by (simp add: protect_def)
  have d: "ins_dependencies (op\<lparr>ins_dependencies := X\<rparr>) = X" for X by simp
  show ?thesis unfolding e d using sub by (rule le_supI2)
qed

lemma protected_grown:
  assumes "map_res (protect inputs addrs initial ins) ins = Inr ps" "\<forall>op\<in>set ins. finite (ins_dependencies op)"
  shows "list_all2 grown ins ps" "op' \<in> set ps \<Longrightarrow> finite (ins_dependencies op')"
    "op' \<in> set ps \<Longrightarrow> \<exists>op\<in>set ins. grown op op' \<and> protect inputs addrs initial ins op = Inr op'"
proof -
  have l: "list_all2 (\<lambda>x y. protect inputs addrs initial ins x = Inr y) ins ps" using assms(1) by (simp add: map_res_Inr_iff)
  have g: "grown x y \<and> finite (ins_dependencies y)" if "x \<in> set ins" "protect inputs addrs initial ins x = Inr y" for x y
    using protect_grown [OF that(2)] assms(2) that(1) by blast
  show "list_all2 grown ins ps" using l by (rule list.rel_mono_strong) (use g in blast)
  have in_ps: "\<exists>op\<in>set ins. protect inputs addrs initial ins op = Inr op'" if "op' \<in> set ps" for op'
    using list_all2_mem2 [OF l] that by blast
  then show "op' \<in> set ps \<Longrightarrow> finite (ins_dependencies op')"
    "op' \<in> set ps \<Longrightarrow> \<exists>op\<in>set ins. grown op op' \<and> protect inputs addrs initial ins op = Inr op'" using g by blast+
qed

lemma flow_proper:
  assumes "flow_ok fl" "list_all2 grown (flow_instructions fl) ps" "\<forall>op\<in>set ps. finite (ins_dependencies op)"
  shows "proper_instructions ps"
proof -
  let ?ins = "flow_instructions fl"
  have "map ins_id ?ins = map ins_id ps" by (rule grown_map [OF assms(2)]) (simp add: grownD)
  then have ids: "distinct (map ins_id ps)" using assms(1) by (simp add: flow_ok_def)
  have ok: "instruction_ok fl op" if "op \<in> set ?ins" for op using assms(1) that by (simp add: flow_ok_def)
  have dep: "ins_id p \<in> ins_dependencies op" if op: "op \<in> set ps" "p \<in> set ps" "ins_output p \<in> set (ins_inputs op)" for op p
  proof -
    obtain x y where x: "x \<in> set ?ins" "grown x op" "y \<in> set ?ins" "grown y p" using grown_in(1) [OF assms(2)] op(1,2) by blast
    obtain v where v: "map_of (flow_values fl) (ins_output p) = Some v" "\<forall>q. val_producer v = Some q \<longrightarrow> q \<in> ins_dependencies x"
      using ok [OF x(1)] op(3) grownD [OF x(2)] unfolding instruction_ok_def by metis
    have "ins_output p = ins_output y" "ins_id p = ins_id y" using grownD [OF x(4)] by simp_all
    moreover obtain w where "map_of (flow_values fl) (ins_output y) = Some w" "val_producer w = Some (ins_id y)"
      using ok [OF x(3)] unfolding instruction_ok_def by blast
    ultimately have "ins_id p \<in> ins_dependencies x" using v by simp
    then show ?thesis using grownD(6) [OF x(2)] by blast
  qed
  have "ins_output op = state_name (ins_id op)" if "op \<in> set ps" for op
  proof -
    from grown_in(1) [OF assms(2) that] obtain x where "x \<in> set ?ins" "grown x op" by blast
    then show ?thesis using ok [of x] grownD [of x op] by (simp add: instruction_ok_def)
  qed
  then show ?thesis using ids dep assms(3) unfolding proper_instructions_def by blast
qed

section \<open>A built plan\<close>

text \<open>The intermediate results of a successful run of \<^verbatim>\<open>build_storage_plan\<close>.\<close>

record plan_run =
  run_flow :: planned_flow
  run_base :: flow_state
  run_n :: int
  run_bytes :: int
  run_initial :: "(string \<times> buffer_region) list"
  run_ordered :: "instruction list"
  run_alloc :: alloc_state

abbreviation flow_of :: "plan_run \<Rightarrow> flow_state" where
  "flow_of pr \<equiv> out_flow (pf_state (run_flow pr))"

abbreviation ps_of :: "plan_run \<Rightarrow> instruction list" where
  "ps_of pr \<equiv> pf_protected (run_flow pr)"

abbreviation final_of :: "plan_run \<Rightarrow> instruction list" where
  "final_of pr \<equiv> al_instructions (run_alloc pr)"

definition built :: "resolved_input \<Rightarrow> plan_run \<Rightarrow> bool" where
  "built inputs pr \<longleftrightarrow> flow_planned inputs (run_flow pr) (run_n pr) (run_base pr) \<and> slice_bytes inputs = Inr (run_bytes pr)
     \<and> initial_regions inputs (flow_addresses (flow_of pr)) (flow_initial (flow_of pr)) = Inr (run_initial pr)
     \<and> map_res (protect inputs (flow_addresses (flow_of pr)) (run_initial pr) (flow_instructions (flow_of pr))) (flow_instructions (flow_of pr)) = Inr (ps_of pr)
     \<and> legal_order (ps_of pr) (run_ordered pr)
     \<and> for_each (allocate (ps_of pr) (positions (run_ordered pr)) (scratch_bytes_per_rank inputs div run_bytes pr) (direct_outputs (pf_state (run_flow pr))))
         (no_slots (flow_addresses (flow_of pr))) (run_ordered pr) = Inr (run_alloc pr)"

lemma builtD:
  assumes "built inputs pr"
  shows "flow_planned inputs (run_flow pr) (run_n pr) (run_base pr)" "slice_bytes inputs = Inr (run_bytes pr)"
    "initial_regions inputs (flow_addresses (flow_of pr)) (flow_initial (flow_of pr)) = Inr (run_initial pr)"
    "map_res (protect inputs (flow_addresses (flow_of pr)) (run_initial pr) (flow_instructions (flow_of pr))) (flow_instructions (flow_of pr)) = Inr (ps_of pr)"
    "legal_order (ps_of pr) (run_ordered pr)"
    "for_each (allocate (ps_of pr) (positions (run_ordered pr)) (scratch_bytes_per_rank inputs div run_bytes pr) (direct_outputs (pf_state (run_flow pr))))
         (no_slots (flow_addresses (flow_of pr))) (run_ordered pr) = Inr (run_alloc pr)"
  using assms unfolding built_def by blast+

lemma flow_plannedD:
  assumes "flow_planned inputs pf n fl0"
  shows "slices inputs = Inr n" "required_outputs (collective inputs) (rank_count inputs) n = Inr (pf_expected pf)"
    "outputs_ok inputs fl0 (sort_key fst (pf_expected pf)) (pf_state pf)" "flow_ok fl0"
    "flow_initial fl0 = map (\<lambda>(r, l). input_id r l) (input_positions inputs n)"
    "map_of (flow_addresses fl0) k = Some a \<longleftrightarrow> (\<exists>(r, l)\<in>set (input_positions inputs n). k = input_id r l \<and> a = Address r ''i'' l)"
    "(r, l) \<in> set (input_positions inputs n) \<Longrightarrow> map_of (flow_values (out_flow (pf_state pf))) (input_id r l) = Some (input_value n r l)"
    "op \<in> set (flow_instructions fl0) \<Longrightarrow> ins_kind op \<noteq> ''copy'' \<and> 0 \<le> ins_rank op \<and> \<not> is_copy_id (ins_id op)"
  using assms unfolding flow_planned_def by (simp_all only: simp_thms) (elim conjE; blast)+

lemma build_storage_plan_runs:
  assumes "build_storage_plan c inputs topo = Some (Inr plan)" "normalize_network c inputs = Inr raw" "\<forall>op\<in>set raw. proper_operation op"
  obtains pr where "built inputs pr" "instructions plan = final_of pr" "addresses plan = al_addresses (run_alloc pr)"
    "scratch_slots plan = map (\<lambda>r. (r, int (length (pool_of (run_alloc pr) r)))) (py_range 0 (rank_count inputs))"
proof -
  obtain ops pf where ops: "network_order raw = Some (Inr ops)" and pf: "plan_flow inputs topo ops = Inr pf"
    using assms(1,2) by (auto simp: build_storage_plan_def split: option.splits sum.splits)
  define scratch where "scratch = scratch_states (flow_values (out_flow (pf_state pf))) (direct_outputs (pf_state pf)) (flow_addresses (out_flow (pf_state pf)))"
  obtain tight ordered where ord: "order_instructions tight scratch (pf_protected pf) = Some (Inr ordered)" and place: "place_flow inputs ops pf ordered = Inr plan"
    using assms(1,2) ops pf by (auto simp: build_storage_plan_def Let_def scratch_def [symmetric] res_simps split: sum.splits option.splits)
  have fin: "\<forall>op\<in>set raw. finite_operation op" using assms(3) by (simp add: proper_operation_def)
  have each: "\<forall>op\<in>set ops. proper_operation op" using network_order_perm(1) [OF ops fin] assms(3) by (metis mset_eq_setD)
  from plan_flow_facts [OF pf network_order_perm(2) [OF ops fin] each] obtain n fl0 initial where
    flow: "flow_planned inputs pf n fl0"
    "initial_regions inputs (flow_addresses (out_flow (pf_state pf))) (flow_initial (out_flow (pf_state pf))) = Inr initial"
    "map_res (protect inputs (flow_addresses (out_flow (pf_state pf))) initial (flow_instructions (out_flow (pf_state pf))))
       (flow_instructions (out_flow (pf_state pf))) = Inr (pf_protected pf)" by blast
  note fp = flow_plannedD [OF flow(1)]
  have ok: "flow_ok (out_flow (pf_state pf))" by (rule outputs_okD(1) [OF fp(3)])
  then have "\<forall>op\<in>set (flow_instructions (out_flow (pf_state pf))). finite (ins_dependencies op)" by (simp add: flow_ok_def instruction_ok_def)
  note prot = protected_grown [OF flow(3) this]
  have proper: "proper_instructions (pf_protected pf)" by (rule flow_proper [OF ok prot(1)]) (use prot(2) in blast)
  have legal: "legal_order (pf_protected pf) ordered"
    by (rule order_instructions_legal [OF ord]) (use proper in \<open>auto simp: proper_instructions_def\<close>)
  obtain sz al where sz: "slice_bytes inputs = Inr sz"
    and al: "for_each (allocate (pf_protected pf) (positions ordered) (scratch_bytes_per_rank inputs div sz) (direct_outputs (pf_state pf)))
            (no_slots (flow_addresses (out_flow (pf_state pf)))) ordered = Inr al"
    and plan: "instructions plan = al_instructions al" "addresses plan = al_addresses al"
      "scratch_slots plan = map (\<lambda>r. (r, int (length (pool_of al r)))) (py_range 0 (rank_count inputs))"
    using place by (auto simp: place_flow_def Let_def res_simps no_slots_def pool_of_def)
  show thesis
    by (rule that [of "\<lparr>run_flow = pf, run_base = fl0, run_n = n, run_bytes = sz, run_initial = initial, run_ordered = ordered, run_alloc = al\<rparr>"])
      (simp_all add: built_def flow sz legal al plan)
qed

lemma built_facts:
  assumes "built inputs pr"
  shows "flow_ok (flow_of pr)" "proper_instructions (ps_of pr)" "list_all2 grown (flow_instructions (flow_of pr)) (ps_of pr)"
    "slots_ok (direct_outputs (pf_state (run_flow pr))) (flow_addresses (flow_of pr)) (scratch_bytes_per_rank inputs div run_bytes pr) (run_ordered pr) (run_alloc pr)"
    "list_all2 grown (run_ordered pr) (final_of pr)" "mset (run_ordered pr) = mset (ps_of pr)"
    "x \<in> set (ps_of pr) \<Longrightarrow> \<exists>y\<in>set (flow_instructions (flow_of pr)). grown y x
       \<and> protect inputs (flow_addresses (flow_of pr)) (run_initial pr) (flow_instructions (flow_of pr)) y = Inr x"
proof -
  note b = builtD [OF assms]
  note fp = flow_plannedD [OF b(1)]
  show ok: "flow_ok (flow_of pr)" by (rule outputs_okD(1) [OF fp(3)])
  then have "\<forall>op\<in>set (flow_instructions (flow_of pr)). finite (ins_dependencies op)" by (simp add: flow_ok_def instruction_ok_def)
  note prot = protected_grown [OF b(4) this]
  show "list_all2 grown (flow_instructions (flow_of pr)) (ps_of pr)" by (rule prot(1))
  show proper: "proper_instructions (ps_of pr)" by (rule flow_proper [OF ok prot(1)]) (use prot(2) in blast)
  show slots: "slots_ok (direct_outputs (pf_state (run_flow pr))) (flow_addresses (flow_of pr)) (scratch_bytes_per_rank inputs div run_bytes pr) (run_ordered pr) (run_alloc pr)"
    by (rule allocate_all(1) [OF b(6) b(5) proper])
  show "list_all2 grown (run_ordered pr) (final_of pr)" using slots_okD(1) [OF slots] by (simp add: legal_so_far_def)
  show "mset (run_ordered pr) = mset (ps_of pr)" using b(5) by (simp add: legal_order_def)
  show "x \<in> set (ps_of pr) \<Longrightarrow> \<exists>y\<in>set (flow_instructions (flow_of pr)). grown y x
       \<and> protect inputs (flow_addresses (flow_of pr)) (run_initial pr) (flow_instructions (flow_of pr)) y = Inr x" by (rule prot(3))
qed

lemma final_origin:
  assumes "built inputs pr" "op \<in> set (final_of pr)"
  obtains x y where "x \<in> set (ps_of pr)" "x \<in> set (run_ordered pr)" "grown x op" "y \<in> set (flow_instructions (flow_of pr))" "grown y x"
    "protect inputs (flow_addresses (flow_of pr)) (run_initial pr) (flow_instructions (flow_of pr)) y = Inr x"
proof -
  note f = built_facts [OF assms(1)]
  from grown_in(1) [OF f(5) assms(2)] obtain x where x: "x \<in> set (run_ordered pr)" "grown x op" by blast
  have ps: "x \<in> set (ps_of pr)" using x(1) mset_eq_setD [OF f(6)] by simp
  from f(7) [OF ps] obtain y where "y \<in> set (flow_instructions (flow_of pr))" "grown y x"
    "protect inputs (flow_addresses (flow_of pr)) (run_initial pr) (flow_instructions (flow_of pr)) y = Inr x" by blast
  with that ps x show thesis by blast
qed

lemma final_covers:
  assumes "built inputs pr"
  shows "ins_id ` set (final_of pr) = ins_id ` set (flow_instructions (flow_of pr))" "distinct (map ins_id (final_of pr))"
    "ins_id ` set (ps_of pr) = ins_id ` set (final_of pr)"
proof -
  note f = built_facts [OF assms]
  have a: "map ins_id (flow_instructions (flow_of pr)) = map ins_id (ps_of pr)" by (rule grown_map [OF f(3)]) (simp add: grownD)
  have b: "map ins_id (run_ordered pr) = map ins_id (final_of pr)" by (rule grown_map [OF f(5)]) (simp add: grownD)
  have c: "mset (map ins_id (run_ordered pr)) = mset (map ins_id (ps_of pr))" using f(6) by simp
  show "ins_id ` set (final_of pr) = ins_id ` set (flow_instructions (flow_of pr))" "ins_id ` set (ps_of pr) = ins_id ` set (final_of pr)"
    using a b mset_eq_setD [OF c] by (metis set_map)+
  have "distinct (map ins_id (ps_of pr))" using f(2) by (simp add: proper_instructions_def)
  then show "distinct (map ins_id (final_of pr))" using b c by (metis mset_eq_imp_distinct_iff)
qed

lemma final_legal:
  assumes "built inputs pr"
  shows "legal_order (final_of pr) (final_of pr)"
  using slots_okD(1) [OF built_facts(4) [OF assms]] by (simp add: legal_so_far_def legal_order_def)

text \<open>A planned value is initial or the output of an instruction.\<close>

lemma value_source:
  assumes b: "built inputs pr" and v: "map_of (flow_values (flow_of pr)) k = Some v"
  shows "case val_producer v of None \<Rightarrow> k \<in> set (flow_initial (flow_of pr))
    | Some q \<Rightarrow> k = state_name q \<and> (\<exists>p\<in>set (final_of pr). ins_id p = q \<and> ins_output p = k)"
proof -
  have "value_ok (flow_of pr) k v" using built_facts(1) [OF b] v by (simp add: flow_ok_def)
  then show ?thesis
  proof (cases "val_producer v")
    case (Some q)
    with \<open>value_ok (flow_of pr) k v\<close> have q: "k = state_name q" "q \<in> ins_id ` set (final_of pr)"
      using final_covers(1) [OF b] by (simp_all add: value_ok_def)
    then obtain p where p: "p \<in> set (final_of pr)" "ins_id p = q" by (metis imageE)
    obtain x y where "x \<in> set (ps_of pr)" "grown x p" using final_origin [OF b p(1)] by metis
    then have "ins_output p = state_name (ins_id p)" using built_facts(2) [OF b] grownD [of x p] by (simp add: proper_instructions_def)
    with p q Some show ?thesis by auto
  qed (simp add: value_ok_def)
qed

section \<open>Where the states are\<close>

lemma built_bounds:
  assumes b: "built inputs pr"
  shows "0 < run_n pr" "0 < rank_count inputs" "input_positions inputs (run_n pr) \<noteq> []"
proof -
  note fp = flow_plannedD [OF builtD(1) [OF b]]
  have valid: "valid_problem (collective inputs) (rank_count inputs) (run_n pr)" using fp(2) by (auto simp: required_outputs_Inr_iff)
  then show "0 < run_n pr" "0 < rank_count inputs" by (auto simp: valid_problem_def)
  moreover obtain r where "r \<in> set (plan_sources inputs)"
    using \<open>0 < rank_count inputs\<close> by (cases "kind (collective inputs) = BROADCAST") (auto simp: plan_sources_def)
  ultimately have "(r, 0) \<in> set (input_positions inputs (run_n pr))" by (simp add: input_positions_def)
  then show "input_positions inputs (run_n pr) \<noteq> []" by auto
qed

lemma initial_state:
  assumes b: "built inputs pr" and s: "s \<in> set (flow_initial (flow_of pr))"
  obtains r l x where "(r, l) \<in> set (input_positions inputs (run_n pr))" "s = input_id r l" "cont (flow_of pr) s = {r * run_n pr + l}"
    "map_of (flow_addresses (flow_of pr)) s = Some (Address r ''i'' l)" "map_of (al_addresses (run_alloc pr)) s = Some (Address r ''i'' l)"
    "canonical_region (Address r ''i'' l) inputs = Inr x" "(s, x) \<in> set (run_initial pr)" "s \<notin> ins_output ` set (final_of pr)"
proof -
  note fp = flow_plannedD [OF builtD(1) [OF b]] and f = built_facts [OF b]
  note o = outputs_okD [OF fp(3)]
  obtain r l where rl: "(r, l) \<in> set (input_positions inputs (run_n pr))" "s = input_id r l" using s by (auto simp: o(2) fp(5))
  have addr: "map_of (flow_addresses (flow_of pr)) s = Some (Address r ''i'' l)"
    using o(6) [of s] s fp(6) [of s "Address r ''i'' l"] rl o(2) by auto
  have hd: "hd s = CHR ''i''" by (simp add: rl(2) input_id_def)
  have out: "s \<notin> ins_output ` set (final_of pr)"
  proof
    assume "s \<in> ins_output ` set (final_of pr)"
    then obtain op where op: "op \<in> set (final_of pr)" "s = ins_output op" by blast
    obtain x where "x \<in> set (ps_of pr)" "grown x op" by (rule final_origin [OF b op(1)])
    then have "s = state_name (ins_id x)" using f(2) grownD [of x op] op(2) by (simp add: proper_instructions_def)
    with hd show False by simp
  qed
  have "map ins_output (run_ordered pr) = map ins_output (final_of pr)" by (rule grown_map [OF f(5)]) (simp add: grownD)
  then have "s \<notin> ins_output ` set (run_ordered pr)" using out by (metis set_map)
  then have al: "map_of (al_addresses (run_alloc pr)) s = Some (Address r ''i'' l)" using slots_okD(4) [OF f(4)] addr by simp
  have "list_all2 (\<lambda>s y. bnd (region_of inputs (flow_addresses (flow_of pr)) s) (\<lambda>r. Inr (s, r)) = Inr y) (flow_initial (flow_of pr)) (run_initial pr)"
    using builtD(3) [OF b] by (simp add: initial_regions_def map_res_Inr_iff)
  from list_all2_mem1 [OF this s] obtain y where "y \<in> set (run_initial pr)" "bnd (region_of inputs (flow_addresses (flow_of pr)) s) (\<lambda>r. Inr (s, r)) = Inr y"
    by blast
  then obtain x where x: "(s, x) \<in> set (run_initial pr)" "canonical_region (Address r ''i'' l) inputs = Inr x"
    by (auto simp: res_simps region_of_def dict_item_def addr)
  have "cont (flow_of pr) s = {r * run_n pr + l}" using fp(7) [OF rl(1)] by (simp add: cont_def rl(2) input_value_def)
  from that [OF rl this addr al x(2,1) out] show thesis .
qed

lemma built_size:
  assumes b: "built inputs pr"
  shows "0 < run_bytes pr"
proof -
  note fp = flow_plannedD [OF builtD(1) [OF b]]
  have "flow_initial (flow_of pr) \<noteq> []" using built_bounds(3) [OF b] by (simp add: outputs_okD(2) [OF fp(3)] fp(5))
  then obtain s where "s \<in> set (flow_initial (flow_of pr))" by (metis list.set_sel(1))
  then obtain r l x where "canonical_region (Address r ''i'' l) inputs = Inr x" by (rule initial_state [OF b])
  then show ?thesis by (simp add: canonical_region_Inr_iff [OF fp(1) builtD(2) [OF b]])
qed

lemma output_state_cases:
  assumes b: "built inputs pr" and op: "op \<in> set (final_of pr)"
  obtains (slot) slot cs how where "map_of (pf_expected (run_flow pr)) slot = Some cs" "how \<noteq> Resident" "filled inputs (pf_state (run_flow pr)) slot cs how (ins_output op)"
      "map_of (al_addresses (run_alloc pr)) (ins_output op) = Some (target slot)"
      "how = Copied \<Longrightarrow> map_of (flow_addresses (flow_of pr)) (ins_output op) = Some (target slot)"
  | (scratch) i where "scratch_at (direct_outputs (pf_state (run_flow pr))) (flow_addresses (flow_of pr)) (run_alloc pr) op (ins_rank op) i"
      "0 \<le> i" "0 \<le> ins_rank op"
proof -
  note fp = flow_plannedD [OF builtD(1) [OF b]] and f = built_facts [OF b]
  note o = outputs_okD [OF fp(3)]
  let ?direct = "direct_outputs (pf_state (run_flow pr))" and ?addrs = "flow_addresses (flow_of pr)"
  have wf: "wf_dict (pf_expected (run_flow pr))" using required_outputs_assignments [OF fp(2)] by blast
  have entry: "map_of (pf_expected (run_flow pr)) slot = Some cs \<longleftrightarrow> (slot, cs) \<in> set (sort_key fst (pf_expected (run_flow pr)))" for slot cs
    using wf by simp
  obtain x y where x: "x \<in> set (ps_of pr)" "x \<in> set (run_ordered pr)" "grown x op" "y \<in> set (flow_instructions (flow_of pr))" "grown y x"
    by (rule final_origin [OF b op])
  note g = grownD [OF x(3)] grownD [OF x(5)]
  have pl: "placed ?direct ?addrs (run_alloc pr) op" using slots_okD(3) [OF f(4) x(2)] unfolding placed_def grownD(4,5) [OF x(3)] .
  have out: "ins_output op = state_name (ins_id y)" using f(2) x(1) g by (simp add: proper_instructions_def)
  show thesis
  proof (cases "map_of ?direct (ins_output op)")
    case (Some a)
    from o(7) [OF Some] obtain sl cs where s: "(sl, cs) \<in> set (sort_key fst (pf_expected (run_flow pr)))" "a = target sl" "filled inputs (pf_state (run_flow pr)) sl cs Direct (ins_output op)"
      by auto
    show thesis by (rule slot [OF entry [THEN iffD2, OF s(1)] _ s(3)]) (use pl Some s(2) in \<open>auto simp: placed_def\<close>)
  next
    case none: None
    show thesis
    proof (cases "map_of ?addrs (ins_output op)")
      case (Some a)
      have "ins_output op \<notin> set (flow_initial (flow_of pr))"
      proof
        assume "ins_output op \<in> set (flow_initial (flow_of pr))"
        then have "ins_output op \<notin> ins_output ` set (final_of pr)" by (rule initial_state [OF b])
        with op show False by blast
      qed
      then have "ins_output op \<notin> set (flow_initial (run_base pr))" unfolding o(2) .
      from o(5) [OF Some this] obtain sl cs where s: "(sl, cs) \<in> set (sort_key fst (pf_expected (run_flow pr)))" "a = target sl" "filled inputs (pf_state (run_flow pr)) sl cs Copied (ins_output op)"
        by auto
      show thesis by (rule slot [OF entry [THEN iffD2, OF s(1)] _ s(3)]) (use pl none Some s(2) in \<open>auto simp: placed_def\<close>)
    next
      case None
      obtain copies where copies: "flow_instructions (flow_of pr) = flow_instructions (run_base pr) @ copies"
        "\<forall>op\<in>set copies. ins_kind op = ''copy'' \<and> (\<exists>slot\<in>fst ` set (sort_key fst (pf_expected (run_flow pr))). ins_id op = copy_id_of slot)"
        using o(4) by blast
      have "y \<notin> set copies"
      proof
        assume "y \<in> set copies"
        then obtain sl cs where sl: "(sl, cs) \<in> set (sort_key fst (pf_expected (run_flow pr)))" "ins_id y = copy_id_of sl" using copies(2) by force
        then obtain how k where "filled inputs (pf_state (run_flow pr)) sl cs how k" using o(8) by blast
        moreover have "copy_id_of sl \<in> ins_id ` set (flow_instructions (flow_of pr))" using x(4) sl(2) by (metis imageI)
        ultimately have "map_of ?addrs (ins_output op) \<noteq> None" by (cases how) (auto simp: filled_def out sl(2))
        with None show False by simp
      qed
      then have "0 \<le> ins_rank op" using fp(8) [of y] x(4) copies(1) g by simp
      moreover obtain i where "0 \<le> i" "map_of (al_addresses (run_alloc pr)) (ins_output op) = Some (Address (ins_rank op) ''s'' i)"
        using pl none None by (auto simp: placed_def)
      ultimately show thesis using scratch none None by (simp add: scratch_at_def)
    qed
  qed
qed

section \<open>Every plan is disciplined\<close>

definition plan_region :: "resolved_input \<Rightarrow> (string, address) dict \<Rightarrow> string \<Rightarrow> buffer_region" where
  "plan_region inputs addrs s = projr (region_of inputs addrs s)"

lemma plan_region_at: "map_of addrs s = Some a \<Longrightarrow> canonical_region a inputs = Inr x \<Longrightarrow> plan_region inputs addrs s = x"
  by (simp add: plan_region_def region_of_def dict_item_def)

lemma target_region:
  assumes b: "built inputs pr" and slot: "map_of (pf_expected (run_flow pr)) slot = Some cs"
  obtains x where "canonical_region (target slot) inputs = Inr x"
proof -
  note fp = flow_plannedD [OF builtD(1) [OF b]]
  note c = required_outputs_content [OF fp(2) slot]
  show thesis
    by (rule canonical_region_total [OF fp(1) builtD(2) [OF b] built_size [OF b] _ _ built_bounds(1,2) [OF b], of "target slot"])
      (use c that in \<open>simp_all add: target_def\<close>)
qed

lemma scratch_region:
  assumes b: "built inputs pr" and "0 \<le> r" "0 \<le> i"
  obtains x where "canonical_region (Address r ''s'' i) inputs = Inr x"
proof -
  note fp = flow_plannedD [OF builtD(1) [OF b]]
  show thesis
    by (rule canonical_region_total [OF fp(1) builtD(2) [OF b] built_size [OF b] _ _ built_bounds(1,2) [OF b], of "Address r ''s'' i"])
      (use assms that in simp_all)
qed

lemma free_settled:
  assumes b: "built inputs pr" and w: "w \<in> set (final_of pr)" and free: "free_for (ps_of pr) (before (ps_of pr) (final_of pr)) s (ins_id w)"
  shows "settled (final_of pr) s w"
proof -
  have "dep_edges (ps_of pr) \<subseteq> dep_edges (final_of pr)"
  proof
    fix e assume "e \<in> dep_edges (ps_of pr)"
    then obtain d x where x: "e = (d, ins_id x)" "x \<in> set (ps_of pr)" "d \<in> ins_dependencies x" by (auto simp: dep_edges_def)
    have "x \<in> set (run_ordered pr)" using x(2) mset_eq_setD [OF built_facts(6) [OF b]] by simp
    from grown_in(2) [OF built_facts(5) [OF b] this] obtain y where y: "y \<in> set (final_of pr)" "grown x y" by blast
    have "e = (d, ins_id y)" "d \<in> ins_dependencies y" using x grownD(1,6) [OF y(2)] by auto
    with y(1) show "e \<in> dep_edges (final_of pr)" unfolding dep_edges_def by blast
  qed
  then have sub: "before (ps_of pr) (final_of pr) = must_precede (final_of pr)" unfolding before_def must_precede_eq by (simp add: Un_absorb1)
  have inj: "r = w" if "r \<in> set (final_of pr)" "ins_id r = ins_id w" for r
    using that w final_covers(2) [OF b] by (auto simp: distinct_map inj_on_def)
  have orig: "\<exists>x\<in>set (ps_of pr). grown x r" if r: "r \<in> set (final_of pr)" for r
    using final_origin [OF b r] by metis
  show ?thesis unfolding settled_def
  proof (intro conjI ballI impI)
    fix r assume r: "r \<in> set (final_of pr)" "s \<in> set (ins_inputs r)"
    obtain x where x: "x \<in> set (ps_of pr)" "grown x r" using orig [OF r(1)] by blast
    then have "ins_id r \<in> readers_of (ps_of pr) s" using r(2) grownD [OF x(2)] by (auto simp: readers_of_def)
    then have "ins_id r = ins_id w \<or> (ins_id r, ins_id w) \<in> before (ps_of pr) (final_of pr)" using free unfolding free_for_def by blast
    then show "r = w \<or> (ins_id r, ins_id w) \<in> must_precede (final_of pr)" using inj r(1) by (auto simp: sub)
  next
    fix p assume p: "p \<in> set (final_of pr)" "ins_output p = s"
    obtain x where x: "x \<in> set (ps_of pr)" "grown x p" using orig [OF p(1)] by blast
    then show "(ins_id p, ins_id w) \<in> must_precede (final_of pr)" using free p(2) grownD [OF x(2)] unfolding free_for_def sub by metis
  qed
qed

text \<open>A copy onto an initial state runs after the readers of that state.\<close>

lemma copy_settled:
  assumes b: "built inputs pr" and w: "w \<in> set (final_of pr)" and s: "(s, x) \<in> set (run_initial pr)" "s \<notin> ins_output ` set (final_of pr)"
    and f: "filled inputs (pf_state (run_flow pr)) slot cs Copied (ins_output w)" and x: "canonical_region (target slot) inputs = Inr x"
  shows "settled (final_of pr) s w"
proof -
  note fp = flow_plannedD [OF builtD(1) [OF b]] and bf = built_facts [OF b]
  obtain p y where p: "p \<in> set (ps_of pr)" "grown p w" "y \<in> set (flow_instructions (flow_of pr))" "grown y p"
    "protect inputs (flow_addresses (flow_of pr)) (run_initial pr) (flow_instructions (flow_of pr)) y = Inr p"
    by (rule final_origin [OF b w])
  note g = grownD [OF p(2)] grownD [OF p(4)]
  have "ins_output w = state_name (ins_id y)" using bf(2) p(1) g by (simp add: proper_instructions_def)
  moreover have k: "ins_output w = state_name (copy_id_of slot)" "map_of (flow_addresses (flow_of pr)) (ins_output w) = Some (target slot)"
    using f unfolding filled_def filling.case by blast+
  ultimately have y: "ins_id y = copy_id_of slot" by simp
  have "y \<notin> set (flow_instructions (run_base pr))" using fp(8) [of y] y by auto
  then have "ins_kind y = ''copy''" using outputs_okD(4) [OF fp(3)] p(3) by auto
  moreover have "region_of inputs (flow_addresses (flow_of pr)) (ins_output y) = Inr x" using k(2) x g by (simp add: region_of_def dict_item_def)
  moreover have "0 < region_size x" using x by (simp add: canonical_region_Inr_iff [OF fp(1) builtD(2) [OF b]])
  ultimately have waits: "readers_of (flow_instructions (flow_of pr)) s - {ins_id y} \<subseteq> ins_dependencies p"
    using protect_waits [OF p(5)] s(1) by blast
  have "(r, ins_id w) \<in> before (ps_of pr) (final_of pr)" if r: "r \<in> readers_of (ps_of pr) s" "r \<noteq> ins_id w" for r
  proof -
    have "r \<in> ins_dependencies p" using waits r g unfolding grown_readers [OF bf(3)] by auto
    then have "(r, ins_id w) \<in> dep_edges (ps_of pr)" using p(1) g(1) unfolding dep_edges_def by auto
    then show ?thesis using edges_before(1) by blast
  qed
  moreover have "ins_output q \<noteq> s" if "q \<in> set (ps_of pr)" for q
  proof -
    have "q \<in> set (run_ordered pr)" using that mset_eq_setD [OF bf(6)] by simp
    from grown_in(2) [OF bf(5) this] obtain q' where "q' \<in> set (final_of pr)" "grown q q'" by blast
    with s(2) grownD(4) [of q q'] show ?thesis by (metis imageI)
  qed
  ultimately have "free_for (ps_of pr) (before (ps_of pr) (final_of pr)) s (ins_id w)" unfolding free_for_def by blast
  then show ?thesis by (rule free_settled [OF b w])
qed

text \<open>Two states in the same region: one is settled before the other is written.\<close>

lemma same_filling:
  assumes "filled inputs st slot cs how k" "filled inputs st slot cs' how' k'"
  shows "k = k'"
  using assms by (simp add: filled_def)

lemma shared_region:
  assumes b: "built inputs pr" and w: "w \<in> set (final_of pr)" and s: "s \<in> set (flow_initial (flow_of pr)) \<union> ins_output ` set (final_of pr)"
    and ne: "s \<noteq> ins_output w" and same: "plan_region inputs (al_addresses (run_alloc pr)) s = plan_region inputs (al_addresses (run_alloc pr)) (ins_output w)"
    and chain: "chained (ps_of pr) (direct_outputs (pf_state (run_flow pr))) (flow_addresses (flow_of pr)) (run_ordered pr) (run_alloc pr)"
  shows "settled (final_of pr) s w \<or> (\<exists>p\<in>set (final_of pr). ins_output p = s \<and> settled (final_of pr) (ins_output w) p)"
proof -
  let ?al = "al_addresses (run_alloc pr)" and ?st = "pf_state (run_flow pr)"
  note fp = flow_plannedD [OF builtD(1) [OF b]] and sz = builtD(2) [OF b]
  note inj = canonical_region_inject [OF fp(1) sz] and reg = plan_region_at [of ?al _ _ inputs]
  from b w show ?thesis
  proof (cases rule: output_state_cases)
    case (slot t cs how)
    obtain x where x: "canonical_region (target t) inputs = Inr x" by (rule target_region [OF b slot(1)])
    note rw = reg [OF slot(4) x]
    from s show ?thesis
    proof
      assume "s \<in> set (flow_initial (flow_of pr))"
      then obtain r l y where i: "map_of ?al s = Some (Address r ''i'' l)" "canonical_region (Address r ''i'' l) inputs = Inr y"
        "(s, y) \<in> set (run_initial pr)" "s \<notin> ins_output ` set (final_of pr)" by (rule initial_state [OF b])
      have "y = x" using same rw reg [OF i(1,2)] by simp
      with i(2) x have "place_name inputs (Address r ''i'' l) = place_name inputs (target t)" using inj(2) by blast
      then have "inplace (collective inputs)" by (auto simp: place_name_def target_def split: if_splits)
      with slot(2,3) have "how = Copied" by (cases how) (auto simp: filled_def)
      with slot(3) have "settled (final_of pr) s w" using copy_settled [OF b w i(3,4) _ x [folded \<open>y = x\<close>]] by blast
      then show ?thesis ..
    next
      assume "s \<in> ins_output ` set (final_of pr)"
      then obtain p where p: "p \<in> set (final_of pr)" "s = ins_output p" by blast
      from b p(1) have False
      proof (cases rule: output_state_cases)
        case (slot t' cs' how')
        obtain x' where x': "canonical_region (target t') inputs = Inr x'" by (rule target_region [OF b slot(1)])
        have "x' = x" using same rw reg [OF slot(4) x'] p(2) by simp
        with x x' have "t' = t" using target_region_inject [OF fp(1) sz] by blast
        then have "ins_output p = ins_output w" using slot(3) \<open>filled inputs ?st t cs how (ins_output w)\<close> same_filling by blast
        with ne p(2) show False by simp
      next
        case (scratch i)
        obtain x' where x': "canonical_region (Address (ins_rank p) ''s'' i) inputs = Inr x'" by (rule scratch_region [OF b scratch(3,2)])
        have "map_of ?al (ins_output p) = Some (Address (ins_rank p) ''s'' i)" using scratch(1) by (simp add: scratch_at_def)
        then have "x' = x" using same rw reg [OF _ x'] p(2) by simp
        with x x' inj(2) have "place_name inputs (Address (ins_rank p) ''s'' i) = place_name inputs (target t)" by blast
        then show False by (auto simp: place_name_def target_def split: if_splits)
      qed
      then show ?thesis ..
    qed
  next
    case (scratch i)
    obtain x where x: "canonical_region (Address (ins_rank w) ''s'' i) inputs = Inr x" by (rule scratch_region [OF b scratch(3,2)])
    have "map_of ?al (ins_output w) = Some (Address (ins_rank w) ''s'' i)" using scratch(1) by (simp add: scratch_at_def)
    note rw = reg [OF this x]
    from s show ?thesis
    proof
      assume "s \<in> set (flow_initial (flow_of pr))"
      then obtain r l y where y: "map_of ?al s = Some (Address r ''i'' l)" "canonical_region (Address r ''i'' l) inputs = Inr y" by (rule initial_state [OF b])
      have "y = x" using same rw reg [OF y] by simp
      with y(2) x inj(2) have "place_name inputs (Address r ''i'' l) = place_name inputs (Address (ins_rank w) ''s'' i)" by blast
      then have False by (auto simp: place_name_def split: if_splits)
      then show ?thesis ..
    next
      assume "s \<in> ins_output ` set (final_of pr)"
      then obtain p where p: "p \<in> set (final_of pr)" "s = ins_output p" by blast
      from b p(1) show ?thesis
      proof (cases rule: output_state_cases)
        case (slot t' cs' how')
        obtain x' where x': "canonical_region (target t') inputs = Inr x'" by (rule target_region [OF b slot(1)])
        have "x' = x" using same rw reg [OF slot(4) x'] p(2) by simp
        with x x' inj(2) have "place_name inputs (target t') = place_name inputs (Address (ins_rank w) ''s'' i)" by blast
        then have False by (auto simp: place_name_def target_def split: if_splits)
        then show ?thesis ..
      next
        case p_at: (scratch j)
        obtain x' where x': "canonical_region (Address (ins_rank p) ''s'' j) inputs = Inr x'" by (rule scratch_region [OF b p_at(3,2)])
        have "map_of ?al (ins_output p) = Some (Address (ins_rank p) ''s'' j)" using p_at(1) by (simp add: scratch_at_def)
        then have "x' = x" using same rw reg [OF _ x'] p(2) by simp
        with x x' have "ins_rank p = ins_rank w" "place_offset inputs (run_n pr) (Address (ins_rank p) ''s'' j) = place_offset inputs (run_n pr) (Address (ins_rank w) ''s'' i)"
          using inj(1,3) by (metis address.sel(1))+
        then have at: "ins_rank p = ins_rank w" "j = i" by (simp_all add: place_offset_def)
        obtain a c where a: "a \<in> set (run_ordered pr)" "grown a p" and c: "c \<in> set (run_ordered pr)" "grown c w"
          using final_origin [OF b p(1)] final_origin [OF b w] by metis
        note ga = grownD [OF a(2)] and gc = grownD [OF c(2)]
        have "a \<noteq> c" using ne p(2) ga gc by auto
        then have "free_for (ps_of pr) (before (ps_of pr) (final_of pr)) (ins_output a) (ins_id c) \<or> free_for (ps_of pr) (before (ps_of pr) (final_of pr)) (ins_output c) (ins_id a)"
          using chain [unfolded chained_def, THEN conjunct2, THEN conjunct1, rule_format, OF a(1) c(1), of "ins_rank w" i] scratch(1) p_at(1) at ga gc
          by (simp add: scratch_at_def)
        then show ?thesis using free_settled [OF b w, of s] free_settled [OF b p(1), of "ins_output w"] p ga gc by auto
      qed
    qed
  qed
qed

lemma built_instruction:
  assumes b: "built inputs pr" and op: "op \<in> set (final_of pr)"
  shows "mset_set (cont (flow_of pr) (ins_output op)) = (\<Sum>s\<leftarrow>ins_inputs op. mset_set (cont (flow_of pr) s))"
    and "s \<in> set (ins_inputs op) \<Longrightarrow> s \<in> set (flow_initial (flow_of pr)) \<or> (\<exists>p\<in>set (final_of pr). ins_output p = s \<and> ins_id p \<in> ins_dependencies op)"
proof -
  obtain x y where x: "grown x op" "y \<in> set (flow_instructions (flow_of pr))" "grown y x" by (rule final_origin [OF b op])
  note g = grownD [OF x(1)] grownD [OF x(3)]
  have ok: "instruction_ok (flow_of pr) y" using built_facts(1) [OF b] x(2) by (simp add: flow_ok_def)
  then show "mset_set (cont (flow_of pr) (ins_output op)) = (\<Sum>s\<leftarrow>ins_inputs op. mset_set (cont (flow_of pr) s))"
    unfolding instruction_ok_def g by blast
  assume "s \<in> set (ins_inputs op)"
  then obtain v where v: "map_of (flow_values (flow_of pr)) s = Some v" "\<forall>p. val_producer v = Some p \<longrightarrow> p \<in> ins_dependencies y"
    using ok unfolding instruction_ok_def g by blast
  then show "s \<in> set (flow_initial (flow_of pr)) \<or> (\<exists>p\<in>set (final_of pr). ins_output p = s \<and> ins_id p \<in> ins_dependencies op)"
    using value_source [OF b v(1)] g(6,12) by (cases "val_producer v") auto
qed

lemma built_disciplined:
  assumes b: "built inputs pr"
    and read: "\<forall>op\<in>set (final_of pr). addr_buffer (the (map_of (al_addresses (run_alloc pr)) (ins_output op))) = ''s'' \<longrightarrow> readers_of (final_of pr) (ins_output op) \<noteq> {}"
  shows "disciplined (final_of pr) (plan_region inputs (al_addresses (run_alloc pr))) (cont (flow_of pr)) (set (flow_initial (flow_of pr)))"
proof -
  note f = built_facts [OF b]
  have readers: "readers_of (final_of pr) s = readers_of (ps_of pr) s" for s
    unfolding grown_readers [OF f(5)] using mset_eq_setD [OF f(6)] by (simp add: readers_of_def)
  have read_ps: "readers_of (ps_of pr) (ins_output q) \<noteq> {}" if q: "q \<in> set (ps_of pr)"
    "map_of (direct_outputs (pf_state (run_flow pr))) (ins_output q) = None" "map_of (flow_addresses (flow_of pr)) (ins_output q) = None" for q
  proof -
    have o: "q \<in> set (run_ordered pr)" using q(1) mset_eq_setD [OF f(6)] by simp
    from grown_in(2) [OF f(5) o] obtain q' where q': "q' \<in> set (final_of pr)" "grown q q'" by blast
    obtain i where "map_of (al_addresses (run_alloc pr)) (ins_output q) = Some (Address (ins_rank q) ''s'' i)"
      using slots_okD(3) [OF f(4) o] q(2,3) by (auto simp: placed_def)
    then have "addr_buffer (the (map_of (al_addresses (run_alloc pr)) (ins_output q'))) = ''s''" by (simp add: grownD [OF q'(2)])
    from read [rule_format, OF q'(1) this] show ?thesis by (simp add: readers grownD [OF q'(2)])
  qed
  have chain: "chained (ps_of pr) (direct_outputs (pf_state (run_flow pr))) (flow_addresses (flow_of pr)) (run_ordered pr) (run_alloc pr)"
    by (rule allocate_all(2) [OF builtD(6,5) [OF b] f(2)]) (use read_ps in blast)
  have "map ins_output (run_ordered pr) = map ins_output (final_of pr)" by (rule grown_map [OF f(5)]) (simp add: grownD)
  then have outs: "distinct (map ins_output (final_of pr))"
    using proper_outputs_distinct [OF f(2)] f(6) by (metis mset_eq_imp_distinct_iff mset_map)
  have "s \<notin> ins_output ` set (final_of pr)" if "s \<in> set (flow_initial (flow_of pr))" for s by (rule initial_state [OF b that])
  then have init: "ins_output ` set (final_of pr) \<inter> set (flow_initial (flow_of pr)) = {}" by blast
  show ?thesis unfolding disciplined_def
    by (intro conjI ballI impI final_covers(2) [OF b] outs init built_instruction [OF b]; (elim conjE)?)
      (use shared_region [OF b _ _ _ _ chain] in blast)+
qed

lemma expected_filled:
  assumes b: "built inputs pr" and slot: "map_of (pf_expected (run_flow pr)) slot = Some cs"
  obtains how k x where "filled inputs (pf_state (run_flow pr)) slot cs how k" "canonical_region (target slot) inputs = Inr x"
    "plan_region inputs (al_addresses (run_alloc pr)) k = x" "cont (flow_of pr) k = cs" "k \<in> set (flow_initial (flow_of pr)) \<union> ins_output ` set (final_of pr)"
proof -
  note fp = flow_plannedD [OF builtD(1) [OF b]]
  note o = outputs_okD [OF fp(3)]
  have wf: "wf_dict (pf_expected (run_flow pr))" using required_outputs_assignments [OF fp(2)] by blast
  have "(slot, cs) \<in> set (sort_key fst (pf_expected (run_flow pr)))" using slot wf by simp
  then obtain how k where fill: "filled inputs (pf_state (run_flow pr)) slot cs how k" using o(8) by blast
  then obtain v where v: "map_of (flow_values (flow_of pr)) k = Some v" "val_contributors v = cs" "val_rank v = slot_rank slot" by (auto simp: filled_def)
  have mem: "k \<in> set (flow_initial (flow_of pr)) \<union> ins_output ` set (final_of pr)"
  proof (cases "val_producer v")
    case (Some q)
    with value_source [OF b v(1)] obtain p where "p \<in> set (final_of pr)" "k = ins_output p" by auto
    then show ?thesis by (simp only: UnI2 imageI)
  qed (use value_source [OF b v(1)] in simp)
  obtain x where x: "canonical_region (target slot) inputs = Inr x" by (rule target_region [OF b slot])
  have "plan_region inputs (al_addresses (run_alloc pr)) k = x"
  proof (cases "how = Resident")
    case True
    then have "k \<in> set (flow_initial (flow_of pr))" and place: "same_place inputs (map_of (flow_addresses (flow_of pr)) k) (target slot) = Inr True"
      using fill by (simp_all add: filled_def)
    then obtain r l y where k: "map_of (flow_addresses (flow_of pr)) k = Some (Address r ''i'' l)" "map_of (al_addresses (run_alloc pr)) k = Some (Address r ''i'' l)"
      "canonical_region (Address r ''i'' l) inputs = Inr y" using initial_state [OF b] by metis
    have "y = x" using place by (simp add: same_place_def k(1,3) x)
    then show ?thesis using plan_region_at [OF k(2,3)] by simp
  next
    case False
    have "k \<notin> set (flow_initial (flow_of pr))"
    proof
      assume "k \<in> set (flow_initial (flow_of pr))"
      then have "how \<noteq> Direct" "hd k = CHR ''i''" using fill built_facts(1) [OF b] unfolding flow_ok_def by (auto simp: filled_def)
      with False fill show False by (cases how) (auto simp: filled_def)
    qed
    then obtain op where op: "op \<in> set (final_of pr)" "k = ins_output op" using mem by blast
    from b op(1) have "map_of (al_addresses (run_alloc pr)) k = Some (target slot)"
    proof (cases rule: output_state_cases)
      case (slot t cs' how')
      then have "cs' = cs" "slot_rank t = slot_rank slot" using v op(2) by (auto simp: filled_def)
      then have "t = slot" using required_outputs_inj [OF fp(2) slot(1)] \<open>map_of (pf_expected (run_flow pr)) slot = Some cs\<close> by simp
      with slot(4) op(2) show ?thesis by simp
    next
      case (scratch i)
      with False fill op(2) show ?thesis by (cases how) (auto simp: filled_def scratch_at_def)
    qed
    then show ?thesis by (rule plan_region_at [OF _ x])
  qed
  with that fill x v mem show thesis by (simp add: cont_def)
qed

section \<open>The theorems\<close>

text \<open>No scratch value of a plan is written for nothing.\<close>

definition scratch_read :: "storage_plan \<Rightarrow> bool" where
  "scratch_read plan \<longleftrightarrow> (\<forall>op\<in>set (instructions plan). addr_buffer (the (map_of (addresses plan) (ins_output op))) = ''s''
     \<longrightarrow> readers_of (instructions plan) (ins_output op) \<noteq> {})"

text \<open>The memory of every source rank holds its input slices.\<close>

definition inputs_in_memory :: "resolved_input \<Rightarrow> int \<Rightarrow> slice_memory \<Rightarrow> bool" where
  "inputs_in_memory inputs n m \<longleftrightarrow> (\<forall>r\<in>set (plan_sources inputs). \<forall>l\<in>set (py_range 0 n).
     m (projr (canonical_region (Address r ''i'' l) inputs)) = {#r * n + l#})"

lemma built_delivers:
  assumes b: "built inputs pr" and slot: "map_of (pf_expected (run_flow pr)) slot = Some cs" and m: "inputs_in_memory inputs (run_n pr) m"
    and order: "legal_order (final_of pr) order"
    and read: "\<forall>op\<in>set (final_of pr). addr_buffer (the (map_of (al_addresses (run_alloc pr)) (ins_output op))) = ''s'' \<longrightarrow> readers_of (final_of pr) (ins_output op) \<noteq> {}"
  shows "run_instructions (plan_region inputs (al_addresses (run_alloc pr))) m order (projr (canonical_region (target slot) inputs)) = mset_set cs"
proof -
  let ?regs = "plan_region inputs (al_addresses (run_alloc pr))"
  note fp = flow_plannedD [OF builtD(1) [OF b]]
  obtain how k x where k: "filled inputs (pf_state (run_flow pr)) slot cs how k" "canonical_region (target slot) inputs = Inr x"
    "?regs k = x" "cont (flow_of pr) k = cs" "k \<in> set (flow_initial (flow_of pr)) \<union> ins_output ` set (final_of pr)"
    by (rule expected_filled [OF b slot])
  have mem: "m (?regs s) = mset_set (cont (flow_of pr) s)" if "s \<in> set (flow_initial (flow_of pr))" for s
  proof -
    from that obtain r l y where s: "(r, l) \<in> set (input_positions inputs (run_n pr))" "cont (flow_of pr) s = {r * run_n pr + l}"
      "map_of (al_addresses (run_alloc pr)) s = Some (Address r ''i'' l)" "canonical_region (Address r ''i'' l) inputs = Inr y"
      by (rule initial_state [OF b])
    have "m y = {#r * run_n pr + l#}" using m s(1,4) by (force simp: inputs_in_memory_def input_positions_def)
    then show ?thesis using plan_region_at [OF s(3,4)] s(2) by simp
  qed
  have apart: "?regs (ins_output w) \<noteq> ?regs k" if w: "w \<in> set (final_of pr)" "ins_output w \<noteq> k" for w
  proof
    assume same: "?regs (ins_output w) = ?regs k"
    from b w(1) show False
    proof (cases rule: output_state_cases)
      case (slot t cs' how')
      obtain y where y: "canonical_region (target t) inputs = Inr y" by (rule target_region [OF b slot(1)])
      have "y = x" using plan_region_at [OF slot(4) y] same k(3) by simp
      then have "t = slot" using target_region_inject [OF fp(1) builtD(2) [OF b]] y k(2) by blast
      with slot(3) k(1) w(2) show False using same_filling by blast
    next
      case (scratch i)
      obtain y where y: "canonical_region (Address (ins_rank w) ''s'' i) inputs = Inr y" by (rule scratch_region [OF b scratch(3,2)])
      have "map_of (al_addresses (run_alloc pr)) (ins_output w) = Some (Address (ins_rank w) ''s'' i)" using scratch(1) by (simp add: scratch_at_def)
      then have "y = x" using plan_region_at [OF _ y] same k(3) by simp
      then have "place_name inputs (Address (ins_rank w) ''s'' i) = place_name inputs (target slot)"
        using canonical_region_inject(2) [OF fp(1) builtD(2) [OF b]] y k(2) by blast
      then show False by (auto simp: place_name_def target_def split: if_splits)
    qed
  qed
  have "run_instructions ?regs m order (?regs k) = mset_set (cont (flow_of pr) k)"
    by (rule disciplined_delivers [OF built_disciplined [OF b read] mem order k(5)]) (use apart in blast)+
  then show ?thesis using k by simp
qed


text \<open>
  C16: the instruction order of a plan is itself an order its dependencies allow, and the scratch slots of a rank
  fit into the scratch bytes the request grants it.
\<close>

theorem storage_plan_executable:
  assumes "build_storage_plan c inputs topo = Some (Inr plan)" "normalize_network c inputs = Inr raw" "\<forall>op\<in>set raw. proper_operation op"
    and "slice_bytes inputs = Inr sz"
  shows "legal_order (instructions plan) (instructions plan)
    \<and> (\<forall>rank k. (rank, k) \<in> set (scratch_slots plan) \<longrightarrow> 0 \<le> k \<and> k * sz \<le> max 0 (scratch_bytes_per_rank inputs))"
proof -
  obtain pr where b: "built inputs pr" and plan: "instructions plan = final_of pr"
    "scratch_slots plan = map (\<lambda>r. (r, int (length (pool_of (run_alloc pr) r)))) (py_range 0 (rank_count inputs))"
    by (rule build_storage_plan_runs [OF assms(1-3)])
  have sz: "run_bytes pr = sz" "0 < sz" using builtD(2) [OF b] built_size [OF b] assms(4) by simp_all
  have "k * sz \<le> max 0 (scratch_bytes_per_rank inputs)" if k: "k \<le> max 0 (scratch_bytes_per_rank inputs div sz)" for k
  proof -
    have "k * sz \<le> max 0 (scratch_bytes_per_rank inputs div sz) * sz" using k sz(2) by (simp add: mult_right_mono)
    also have "scratch_bytes_per_rank inputs div sz * sz \<le> scratch_bytes_per_rank inputs"
      using sz(2) div_mult_mod_eq [of "scratch_bytes_per_rank inputs" sz] pos_mod_sign [of sz "scratch_bytes_per_rank inputs"] by linarith
    then have "max 0 (scratch_bytes_per_rank inputs div sz) * sz \<le> max 0 (scratch_bytes_per_rank inputs)" by (auto simp: max_def)
    finally show ?thesis .
  qed
  then have "0 \<le> k \<and> k * sz \<le> max 0 (scratch_bytes_per_rank inputs)" if "(rank, k) \<in> set (scratch_slots plan)" for rank k
    using that slots_okD(2) [OF built_facts(4) [OF b]] by (auto simp: plan(2) pools_ok_def sz(1))
  with final_legal [OF b] show ?thesis by (simp add: plan(1))
qed

section \<open>An example\<close>

text \<open>An in-place all-reduce on two ranks: rank 1 reduces the slice of rank 0 and sends the sum back.\<close>

definition reduce_inputs :: resolved_input where
  "reduce_inputs = \<lparr>collective = \<lparr>kind = ALL_REDUCE, datatype_name = ''f'', reduction_op = Some ''sum'', root = None, inplace = True\<rparr>,
     hyper = \<lparr>total_size_bytes = 4, slice_size_bytes = Some 4, reference_slice_size_bytes = Some 4\<rparr>,
     atom_cons = \<lparr>stage_num = None, forbidden_transfers = []\<rparr>, rank_count = 2, solver_max_channels = 1, directed_links = [],
     scratch_bytes_per_rank = 4, tb_layout = ''fused''\<rparr>"

definition reduce_op :: network_operation where
  "reduce_op = \<lparr>net_id = ''a'', net_kind = ''rrc'', net_src = 0, net_dst = 1, net_channel = 0, net_stage = 0, net_contributors = {0},
     net_targets = {0, 1}, net_participants = [0, 1], net_dependencies = {}, net_references = {}, net_priority = 0\<rparr>"

definition return_op :: network_operation where
  "return_op = \<lparr>net_id = ''b'', net_kind = ''send'', net_src = 1, net_dst = 0, net_channel = 0, net_stage = 0, net_contributors = {0, 1},
     net_targets = {0, 1}, net_participants = [0, 1], net_dependencies = {''a''}, net_references = {}, net_priority = 1\<rparr>"

definition reduce_candidate :: candidate where
  "reduce_candidate = OfNetwork \<lparr>cand_rank_count = 2, cand_slice_count = 1, cand_slice_size_bytes = 4, cand_operations = [reduce_op, return_op]\<rparr>"

definition reduce_checks :: "storage_plan res option \<Rightarrow> bool" where
  "reduce_checks r = (case r of Some (Inr plan) \<Rightarrow> scratch_read plan \<and> map ins_id (instructions plan) = [''a'', ''b'', ''output-copy-r0-o0'', ''output-copy-r1-o0'']
     \<and> scratch_slots plan = [(0, 1), (1, 1)] | _ \<Rightarrow> False)"

lemma reduce_network: "normalize_network reduce_candidate reduce_inputs = Inr [reduce_op, return_op]" "\<forall>op\<in>set [reduce_op, return_op]. proper_operation op"
  "slices reduce_inputs = Inr 1" "slice_bytes reduce_inputs = Inr 4"
  by (simp_all add: normalize_network_def reduce_candidate_def reduce_inputs_def slice_count_def slices_def slice_bytes_def
      proper_operation_def finite_operation_def is_copy_id_def reduce_op_def return_op_def)

lemma reduce_checksD:
  "reduce_checks r \<Longrightarrow> \<exists>plan. r = Some (Inr plan) \<and> scratch_read plan
    \<and> map ins_id (instructions plan) = [''a'', ''b'', ''output-copy-r0-o0'', ''output-copy-r1-o0''] \<and> scratch_slots plan = [(0, 1), (1, 1)]"
  unfolding reduce_checks_def by (auto split: option.splits sum.splits)

lemma reduce_plan:
  obtains plan where "build_storage_plan reduce_candidate reduce_inputs example_topology = Some (Inr plan)" "scratch_read plan"
    "map ins_id (instructions plan) = [''a'', ''b'', ''output-copy-r0-o0'', ''output-copy-r1-o0'']" "scratch_slots plan = [(0, 1), (1, 1)]"
    "legal_order (instructions plan) (instructions plan)"
proof -
  have "reduce_checks (build_storage_plan reduce_candidate reduce_inputs example_topology)" by code_simp
  from reduce_checksD [OF this] obtain plan where plan: "build_storage_plan reduce_candidate reduce_inputs example_topology = Some (Inr plan)" "scratch_read plan"
    "map ins_id (instructions plan) = [''a'', ''b'', ''output-copy-r0-o0'', ''output-copy-r1-o0'']" "scratch_slots plan = [(0, 1), (1, 1)]"
    by (elim exE conjE)
  obtain pr where "built reduce_inputs pr" "instructions plan = final_of pr" by (rule build_storage_plan_runs [OF plan(1) reduce_network(1,2)])
  with final_legal that plan show thesis by simp
qed


theorem storage_plan_executable_witness:
  "\<exists>plan. build_storage_plan reduce_candidate reduce_inputs example_topology = Some (Inr plan)
    \<and> legal_order (instructions plan) (instructions plan) \<and> scratch_slots plan = [(0, 1), (1, 1)] \<and> (1::int) * 4 \<le> max 0 (scratch_bytes_per_rank reduce_inputs)"
proof -
  obtain plan where plan: "build_storage_plan reduce_candidate reduce_inputs example_topology = Some (Inr plan)" "scratch_slots plan = [(0, 1), (1, 1)]"
    by (rule reduce_plan)
  note ok = storage_plan_executable [OF plan(1) reduce_network(1,2,4)]
  have "(1::int) * 4 \<le> max 0 (scratch_bytes_per_rank reduce_inputs)" using ok plan(2) by (metis list.set_intros(1))
  with ok plan show ?thesis by blast
qed

section \<open>Values nobody reads\<close>

text \<open>
  A scratch value that is never read has no readers to wait for, so its slot is reused without any edge from
  its producer.  Two operations that deliver into rank 1 on different channels then write one slot in either order.
\<close>

definition dead_inputs :: resolved_input where
  "dead_inputs = reduce_inputs\<lparr>collective := \<lparr>kind = REDUCE, datatype_name = ''f'', reduction_op = Some ''sum'', root = Some 1, inplace = True\<rparr>,
     solver_max_channels := 2\<rparr>"

definition dead_candidate :: candidate where
  "dead_candidate = OfNetwork \<lparr>cand_rank_count = 2, cand_slice_count = 1, cand_slice_size_bytes = 4,
     cand_operations = [reduce_op\<lparr>net_id := ''d'', net_kind := ''send'', net_channel := 1\<rparr>, reduce_op\<lparr>net_priority := 1\<rparr>]\<rparr>"

fun swap_first :: "'a list \<Rightarrow> 'a list" where
  "swap_first (x # y # zs) = y # x # zs"
| "swap_first zs = zs"

fun legal_from :: "string set \<Rightarrow> instruction list \<Rightarrow> bool" where
  "legal_from finished [] = True"
| "legal_from finished (op # ops) \<longleftrightarrow> ins_dependencies op \<subseteq> finished \<and> legal_from (insert (ins_id op) finished) ops"

lemma legal_from_split: "legal_from finished (pre @ op # post) \<Longrightarrow> ins_dependencies op \<subseteq> finished \<union> ins_id ` set pre"
  by (induction pre arbitrary: finished) fastforce+

lemma mset_swap_first: "mset (swap_first xs) = mset xs"
  by (induction xs rule: swap_first.induct) simp_all

definition dead_checks :: "storage_plan res option \<Rightarrow> bool" where
  "dead_checks r = (case r of Some (Inr plan) \<Rightarrow> legal_from {} (swap_first (instructions plan))
     \<and> run_instructions (plan_region dead_inputs (addresses plan)) (\<lambda>r. {#region_rank r#}) (swap_first (instructions plan))
         (projr (canonical_region (Address 1 ''o'' 0) dead_inputs)) = {#0#} | _ \<Rightarrow> False)"


end
