(* ===== verification/Capacity.thy ===== *)
theory Capacity
  imports Topology
begin

text \<open>
  \<^verbatim>\<open>src/vericcl/xml/capacity.py\<close> and \<^verbatim>\<open>src/vericcl/xml/granularity.py\<close>: the fixed limits of the pinned runtime
  and the report on the limits a concrete program exceeds.

  The shape is given with its declared types, so the checks of the Python types of fields are not part of the model.
  Python's \<^verbatim>\<open>Counter\<close> is a dictionary in insertion order.
\<close>

section \<open>Runtime limits\<close>

definition xml_max_retained_nodes :: int where
  "xml_max_retained_nodes = 4095"

record runtime_limits =
  steps_per_tb :: int
  tbs_per_rank :: int
  send_tbs_per_channel :: int
  recv_tbs_per_channel :: int
  dependency_id_limit :: int
  buffer_offset_limit :: int
  lim_max_channels :: int

definition within_limit :: "string \<Rightarrow> int \<Rightarrow> int \<Rightarrow> int \<Rightarrow> unit res" where
  "within_limit name v minimum maximum =
     ensure (minimum \<le> v \<and> v \<le> maximum) (SemanticError (name @ '' is outside the supported runtime limit'')) (Inr ())"

definition runtime_limits_post_init :: "runtime_limits \<Rightarrow> runtime_limits res" where
  "runtime_limits_post_init l =
     bnd (within_limit ''steps_per_tb'' (steps_per_tb l) 1 256) (\<lambda>_.
     bnd (within_limit ''tbs_per_rank'' (tbs_per_rank l) 1 216) (\<lambda>_.
     bnd (within_limit ''send_tbs_per_channel'' (send_tbs_per_channel l) 1 32) (\<lambda>_.
     bnd (within_limit ''recv_tbs_per_channel'' (recv_tbs_per_channel l) 1 32) (\<lambda>_.
     bnd (within_limit ''dependency_id'' (dependency_id_limit l) 0 127) (\<lambda>_.
     bnd (within_limit ''buffer_offset'' (buffer_offset_limit l) 0 32767) (\<lambda>_.
     bnd (within_limit ''max_channels'' (lim_max_channels l) 1 16) (\<lambda>_. Inr l)))))))"

definition default_limits :: runtime_limits where
  "default_limits = \<lparr>steps_per_tb = 256, tbs_per_rank = 216, send_tbs_per_channel = 32, recv_tbs_per_channel = 32,
     dependency_id_limit = 127, buffer_offset_limit = 32767, lim_max_channels = 16\<rparr>"

section \<open>Payload arithmetic\<close>

definition simple_payload_capacity :: "int \<Rightarrow> int \<Rightarrow> int res" where
  "simple_payload_capacity buffsize width =
     ensure (8 \<le> buffsize \<and> buffsize \<le> 2 ^ 31 - 1) (SemanticError ''NCCL_BUFFSIZE must be a signed 32-bit byte count of at least 8'') (
     ensure (width \<in> {1, 2, 4, 8}) (SemanticError ''unsupported datatype byte width'') (
     Inr (buffsize div 8 div width * width * 4)))"

definition msccl_simple_copy_threads :: int where
  "msccl_simple_copy_threads = 512"

definition simple_chunk_granule :: "int \<Rightarrow> int res" where
  "simple_chunk_granule width =
     ensure (width \<in> {1, 2, 4, 8}) (SemanticError ''unsupported datatype byte width'') (Inr (msccl_simple_copy_threads * 8 div width))"

definition simple_chunk_geometry :: "int \<Rightarrow> int \<Rightarrow> (int \<times> int \<times> bool) res" where
  "simple_chunk_geometry buffsize width =
     bnd (simple_payload_capacity buffsize width) (\<lambda>_.
     let chunk = buffsize div 8 * 4 in
     bnd (simple_chunk_granule width) (\<lambda>granule. Inr (chunk, granule, chunk mod granule = 0)))"

definition positive_integer :: "int \<Rightarrow> string \<Rightarrow> int res" where
  "positive_integer v field = ensure (1 \<le> v) (SemanticError (field @ '' must be a positive integer'')) (Inr v)"

definition verify_atom_granularity :: "int \<Rightarrow> int \<Rightarrow> int \<Rightarrow> int \<Rightarrow> int \<Rightarrow> int \<Rightarrow> unit res" where
  "verify_atom_granularity runtime_count size_multiplier width nchunks slice_size buffsize =
     bnd (positive_integer runtime_count ''runtime_count'') (\<lambda>_.
     bnd (positive_integer size_multiplier ''size_multiplier'') (\<lambda>_.
     bnd (positive_integer width ''datatype_size_bytes'') (\<lambda>_.
     bnd (positive_integer nchunks ''nchunks_per_loop'') (\<lambda>_.
     bnd (positive_integer slice_size ''slice_size_bytes'') (\<lambda>_.
     bnd (positive_integer buffsize ''nccl_buffsize_bytes'') (\<lambda>_.
     let runtime_bytes = runtime_count * size_multiplier * width in
     ensure (runtime_bytes mod nchunks = 0) (SemanticError ''runtime bytes must be divisible by nchunks_per_loop'') (
     ensure (runtime_bytes div nchunks = slice_size) (SemanticError ''runtime chunk size does not equal the slice size'') (
     ensure (slice_size mod width = 0) (SemanticError ''slice size must contain whole datatype elements'') (
     ensure (nchunks \<le> 2 ^ 31 - 1) (SemanticError ''nchunks_per_loop exceeds its signed 32-bit field'') (
     bnd (simple_payload_capacity buffsize width) (\<lambda>capacity.
     ensure (slice_size \<le> capacity) (SemanticError ''NCCL_BUFFSIZE has insufficient Simple payload capacity for one slice'') (Inr ()))))))))))))"

section \<open>Shapes and reports\<close>

record step_capacity =
  sc_kind :: string
  sc_src_offset :: int
  sc_dst_offset :: int
  sc_dependency_tb :: int
  sc_dependency_step :: int
  sc_count :: int

record block_capacity =
  bc_rank :: int
  bc_tb_id :: int
  bc_channel :: int
  bc_send_peer :: int
  bc_recv_peer :: int
  bc_steps :: "step_capacity list"

record execution_shape =
  es_rank_count :: int
  es_channels :: int
  es_blocks :: "block_capacity list"
  es_scratch_slots :: "(int, int) dict"
  es_chunks_per_loop :: "int option"

record capacity_violation =
  vi_code :: string
  vi_rank :: "int option"
  vi_tb_id :: "int option"
  vi_current :: int
  vi_limit :: int
  vi_detail :: string

type_synonym capacity_report = "capacity_violation list"

definition compatible :: "capacity_report \<Rightarrow> bool" where
  "compatible violations \<longleftrightarrow> violations = []"

definition repairable_by_slice_only :: "capacity_report \<Rightarrow> bool" where
  "repairable_by_slice_only violations \<longleftrightarrow> violations \<noteq> []
     \<and> (\<forall>v\<in>set violations. vi_code v \<in> {''steps_per_tb'', ''buffer_offset'', ''chunks_per_loop''})"

section \<open>The check\<close>

text \<open>One issue, when its condition holds.\<close>

definition issue :: "bool \<Rightarrow> string \<Rightarrow> block_capacity option \<Rightarrow> int \<Rightarrow> int \<Rightarrow> string \<Rightarrow> capacity_report" where
  "issue c code block current limit detail =
     (if c then [\<lparr>vi_code = code, vi_rank = map_option bc_rank block, vi_tb_id = map_option bc_tb_id block, vi_current = current, vi_limit = limit, vi_detail = detail\<rparr>] else [])"

definition rank_issue :: "bool \<Rightarrow> string \<Rightarrow> int \<Rightarrow> int \<Rightarrow> int \<Rightarrow> string \<Rightarrow> capacity_report" where
  "rank_issue c code rank current limit detail =
     (if c then [\<lparr>vi_code = code, vi_rank = Some rank, vi_tb_id = None, vi_current = current, vi_limit = limit, vi_detail = detail\<rparr>] else [])"

record capacity_scan =
  scan_issues :: capacity_report
  scan_by_id :: "(int \<times> int, block_capacity) dict"
  scan_rank_blocks :: "(int, int) dict"
  scan_directions :: "(int \<times> int \<times> string, int) dict"
  scan_owners :: "(int \<times> int \<times> int \<times> string) set"
  scan_xml_nodes :: "(int, int) dict"

definition bump :: "('k, int) dict \<Rightarrow> 'k \<Rightarrow> int \<Rightarrow> ('k, int) dict" where
  "bump d k v = AList.update k (dict_get d k 0 + v) d"

definition bad_peer :: "execution_shape \<Rightarrow> block_capacity \<Rightarrow> int \<Rightarrow> bool" where
  "bad_peer shape block peer \<longleftrightarrow> \<not> (0 \<le> peer \<and> peer \<le> min 32767 (es_rank_count shape - 1)) \<or> peer = bc_rank block"

definition scan_peer :: "execution_shape \<Rightarrow> block_capacity \<Rightarrow> capacity_scan \<Rightarrow> string \<times> int \<Rightarrow> capacity_scan" where
  "scan_peer shape block sc entry = (case entry of (direction, peer) \<Rightarrow>
     if peer = -1 then sc
     else let owner = (bc_rank block, peer, bc_channel block, direction) in
       sc\<lparr>scan_issues := scan_issues sc
            @ issue (bad_peer shape block peer) ''peer_id'' (Some block) peer (min 32767 (es_rank_count shape - 1)) ''''
            @ issue (owner \<in> scan_owners sc) ''connection_owner'' (Some block) 2 1 direction,
          scan_directions := bump (scan_directions sc) (bc_rank block, bc_channel block, direction) 1,
          scan_owners := insert owner (scan_owners sc)\<rparr>)"

definition step_issues :: "runtime_limits \<Rightarrow> block_capacity \<Rightarrow> step_capacity \<Rightarrow> capacity_report" where
  "step_issues limits block step =
     issue (sc_count step \<noteq> 1) ''runtime_count'' (Some block) (sc_count step) 1 ''''
   @ issue (\<not> (-1 \<le> sc_src_offset step \<and> sc_src_offset step \<le> buffer_offset_limit limits)) ''buffer_offset'' (Some block) (sc_src_offset step) (buffer_offset_limit limits) ''''
   @ issue (\<not> (-1 \<le> sc_dst_offset step \<and> sc_dst_offset step \<le> buffer_offset_limit limits)) ''buffer_offset'' (Some block) (sc_dst_offset step) (buffer_offset_limit limits) ''''
   @ issue (\<not> (-1 \<le> sc_dependency_tb step \<and> sc_dependency_tb step \<le> dependency_id_limit limits)) ''dependency_id'' (Some block) (sc_dependency_tb step) (dependency_id_limit limits) ''''
   @ issue (\<not> (-1 \<le> sc_dependency_step step \<and> sc_dependency_step step < steps_per_tb limits)) ''dependency_step'' (Some block) (sc_dependency_step step) (steps_per_tb limits - 1) ''''"

definition scan_block :: "execution_shape \<Rightarrow> runtime_limits \<Rightarrow> capacity_scan \<Rightarrow> block_capacity \<Rightarrow> capacity_scan" where
  "scan_block shape limits sc block =
     (let key = (bc_rank block, bc_tb_id block); local = (bc_send_peer block = bc_recv_peer block \<and> bc_recv_peer block = -1);
          sc1 = sc\<lparr>scan_issues := scan_issues sc
              @ issue (\<not> (0 \<le> bc_rank block \<and> bc_rank block < es_rank_count shape)) ''rank_id'' (Some block) (bc_rank block) (es_rank_count shape - 1) ''''
              @ issue (\<not> (0 \<le> bc_tb_id block \<and> bc_tb_id block < tbs_per_rank limits)) ''tb_id'' (Some block) (bc_tb_id block) (tbs_per_rank limits - 1) ''''
              @ issue (key \<in> set (dict_keys (scan_by_id sc))) ''duplicate_tb_id'' (Some block) (bc_tb_id block) (tbs_per_rank limits - 1) ''''
              @ issue (\<not> (local \<and> bc_channel block = -1 \<or> 0 \<le> bc_channel block \<and> bc_channel block < es_channels shape)) ''channel_id'' (Some block) (bc_channel block) (es_channels shape - 1) ''''
              @ issue (int (length (bc_steps block)) > steps_per_tb limits) ''steps_per_tb'' (Some block) (int (length (bc_steps block))) (steps_per_tb limits) '''',
            scan_by_id := AList.update key block (scan_by_id sc),
            scan_rank_blocks := bump (scan_rank_blocks sc) (bc_rank block) 1,
            scan_xml_nodes := bump (scan_xml_nodes sc) (bc_rank block) (1 + int (length (bc_steps block)))\<rparr>;
          sc2 = foldl (scan_peer shape block) sc1 [(''send'', bc_send_peer block), (''recv'', bc_recv_peer block)]
      in sc2\<lparr>scan_issues := scan_issues sc2 @ concat (map (step_issues limits block) (bc_steps block))\<rparr>)"

definition shape_issues :: "execution_shape \<Rightarrow> runtime_limits \<Rightarrow> capacity_report" where
  "shape_issues shape limits =
     issue (\<not> (1 \<le> es_channels shape \<and> es_channels shape \<le> lim_max_channels limits)) ''channels'' None (es_channels shape) (lim_max_channels limits) ''''
   @ (case es_chunks_per_loop shape of None \<Rightarrow> []
      | Some c \<Rightarrow> issue (\<not> (1 \<le> c \<and> c \<le> 2 ^ 31 - 1)) ''chunks_per_loop'' None c (2 ^ 31 - 1) '''')"

definition scan_blocks :: "execution_shape \<Rightarrow> runtime_limits \<Rightarrow> capacity_scan" where
  "scan_blocks shape limits = foldl (scan_block shape limits) \<lparr>scan_issues = shape_issues shape limits, scan_by_id = [], scan_rank_blocks = [],
     scan_directions = [], scan_owners = {}, scan_xml_nodes = []\<rparr> (es_blocks shape)"

definition node_issues :: "execution_shape \<Rightarrow> capacity_scan \<Rightarrow> capacity_report" where
  "node_issues shape sc =
     (let header = 1 + es_rank_count shape in
      if header > xml_max_retained_nodes then issue True ''xml_nodes'' None header xml_max_retained_nodes ''algo and all GPU headers alone exceed the fixed parser capacity''
      else concat (map (\<lambda>(rank, nodes). rank_issue (header + nodes > xml_max_retained_nodes) ''xml_nodes'' rank (header + nodes) xml_max_retained_nodes
             ''algo + all GPU headers + this rank TB headers and all steps, including NOP'') (scan_xml_nodes sc)))"

definition rank_issues :: "execution_shape \<Rightarrow> runtime_limits \<Rightarrow> capacity_scan \<Rightarrow> capacity_report" where
  "rank_issues shape limits sc = concat (map (\<lambda>(rank, cnt).
     let ids = set (map bc_tb_id (filter (\<lambda>b. bc_rank b = rank) (es_blocks shape))) in
     rank_issue (cnt > tbs_per_rank limits) ''tbs_per_rank'' rank cnt (tbs_per_rank limits) ''''
     @ rank_issue (ids \<noteq> set (py_range 0 cnt)) ''dense_tb_ids'' rank (Max ids) (cnt - 1) '''') (scan_rank_blocks sc))"

definition direction_issues :: "runtime_limits \<Rightarrow> capacity_scan \<Rightarrow> capacity_report" where
  "direction_issues limits sc = concat (map (\<lambda>((rank, channel, direction), cnt).
     let maximum = (if direction = ''send'' then send_tbs_per_channel limits else recv_tbs_per_channel limits) in
     rank_issue (cnt > maximum) (direction @ ''_tbs_per_channel'') rank cnt maximum (''channel='' @ str_int channel)) (scan_directions sc))"

definition target_issue :: "runtime_limits \<Rightarrow> capacity_scan \<Rightarrow> block_capacity \<Rightarrow> step_capacity \<Rightarrow> capacity_report" where
  "target_issue limits sc block step =
     issue (\<not> (sc_dependency_tb step = -1 \<and> sc_dependency_step step = -1)
         \<and> (case map_of (scan_by_id sc) (bc_rank block, sc_dependency_tb step) of None \<Rightarrow> True
            | Some target \<Rightarrow> \<not> (0 \<le> sc_dependency_step step \<and> sc_dependency_step step < int (length (bc_steps target)))))
       ''dependency_target'' (Some block) (sc_dependency_tb step) (dependency_id_limit limits) ''''"

definition target_issues :: "execution_shape \<Rightarrow> runtime_limits \<Rightarrow> capacity_scan \<Rightarrow> capacity_report" where
  "target_issues shape limits sc = concat (map (\<lambda>block. concat (map (target_issue limits sc block) (bc_steps block))) (es_blocks shape))"

text \<open>The scratch budget is one number or one per rank.\<close>

datatype scratch_budget = EachRank int | PerRank "(int, int) dict"

definition budget_of :: "scratch_budget \<Rightarrow> int \<Rightarrow> int" where
  "budget_of b rank = (case b of EachRank v \<Rightarrow> v | PerRank d \<Rightarrow> dict_get d rank 0)"

definition scratch_issue :: "execution_shape \<Rightarrow> int \<Rightarrow> scratch_budget \<Rightarrow> int \<times> int \<Rightarrow> capacity_report res" where
  "scratch_issue shape sz b entry = (case entry of (rank, slots) \<Rightarrow>
     ensure (\<not> (\<not> (0 \<le> rank \<and> rank < es_rank_count shape) \<or> slots < 0 \<or> budget_of b rank < 0)) (SemanticError ''invalid scratch allocation or budget'') (
     Inr (rank_issue (slots * sz > budget_of b rank) ''scratch_bytes'' rank (slots * sz) (budget_of b rank) '''')))"

definition scratch_issues :: "execution_shape \<Rightarrow> int option \<Rightarrow> scratch_budget option \<Rightarrow> capacity_report res" where
  "scratch_issues shape bytes b = (case (bytes, b) of
       (Some sz, Some budget) \<Rightarrow>
         ensure (1 \<le> sz) (SemanticError ''scratch accounting needs a positive slice size'') (
         bnd (map_res (scratch_issue shape sz budget) (es_scratch_slots shape)) (\<lambda>reports. Inr (concat reports)))
     | _ \<Rightarrow> Inr [])"

definition check_capacity :: "execution_shape \<Rightarrow> runtime_limits \<Rightarrow> int option \<Rightarrow> scratch_budget option \<Rightarrow> capacity_report res" where
  "check_capacity shape limits bytes budget =
     ensure (1 \<le> es_rank_count shape) (SemanticError ''execution shape needs a positive rank count'') (
     let sc = scan_blocks shape limits in
     bnd (scratch_issues shape bytes budget) (\<lambda>scratch.
     Inr (scan_issues sc @ node_issues shape sc @ rank_issues shape limits sc @ direction_issues limits sc
       @ target_issues shape limits sc @ scratch)))"

section \<open>The limits, stated directly\<close>

definition owners_of :: "block_capacity \<Rightarrow> (int \<times> int \<times> int \<times> string) list" where
  "owners_of b = map (\<lambda>(d, p). (bc_rank b, p, bc_channel b, d)) (filter (\<lambda>(d, p). p \<noteq> -1) [(''send'', bc_send_peer b), (''recv'', bc_recv_peer b)])"

definition lanes_of :: "block_capacity \<Rightarrow> (int \<times> int \<times> string) list" where
  "lanes_of b = map (\<lambda>(r, p, c, d). (r, c, d)) (owners_of b)"

definition key_of :: "block_capacity \<Rightarrow> int \<times> int" where
  "key_of b = (bc_rank b, bc_tb_id b)"

definition step_fits :: "runtime_limits \<Rightarrow> step_capacity \<Rightarrow> bool" where
  "step_fits limits step \<longleftrightarrow> sc_count step = 1 \<and> sc_src_offset step \<in> {-1..buffer_offset_limit limits} \<and> sc_dst_offset step \<in> {-1..buffer_offset_limit limits}
     \<and> sc_dependency_tb step \<in> {-1..dependency_id_limit limits} \<and> sc_dependency_step step \<in> {-1..<steps_per_tb limits}"

definition block_fits :: "execution_shape \<Rightarrow> runtime_limits \<Rightarrow> block_capacity \<Rightarrow> bool" where
  "block_fits shape limits b \<longleftrightarrow> bc_rank b \<in> {0..<es_rank_count shape} \<and> bc_tb_id b \<in> {0..<tbs_per_rank limits}
     \<and> (bc_channel b \<in> {0..<es_channels shape} \<or> bc_send_peer b = -1 \<and> bc_recv_peer b = -1 \<and> bc_channel b = -1)
     \<and> int (length (bc_steps b)) \<le> steps_per_tb limits
     \<and> (\<forall>p\<in>{bc_send_peer b, bc_recv_peer b}. p = -1 \<or> p \<in> {0..<es_rank_count shape} \<and> p \<le> 32767 \<and> p \<noteq> bc_rank b)
     \<and> (\<forall>step\<in>set (bc_steps b). step_fits limits step)"

definition of_rank :: "block_capacity list \<Rightarrow> int \<Rightarrow> block_capacity list" where
  "of_rank blocks r = filter (\<lambda>b. bc_rank b = r) blocks"

definition waits_resolved :: "block_capacity list \<Rightarrow> bool" where
  "waits_resolved blocks \<longleftrightarrow> (\<forall>b\<in>set blocks. \<forall>step\<in>set (bc_steps b).
     sc_dependency_tb step = -1 \<and> sc_dependency_step step = -1
     \<or> (\<exists>t\<in>set blocks. bc_rank t = bc_rank b \<and> bc_tb_id t = sc_dependency_tb step \<and> 0 \<le> sc_dependency_step step \<and> sc_dependency_step step < int (length (bc_steps t))))"

definition fits :: "execution_shape \<Rightarrow> runtime_limits \<Rightarrow> bool" where
  "fits shape limits \<longleftrightarrow> (let blocks = es_blocks shape in
     es_channels shape \<in> {1..lim_max_channels limits} \<and> (\<forall>c. es_chunks_per_loop shape = Some c \<longrightarrow> c \<in> {1..2 ^ 31 - 1})
   \<and> (\<forall>b\<in>set blocks. block_fits shape limits b) \<and> distinct (map key_of blocks) \<and> distinct (concat (map owners_of blocks))
   \<and> 1 + es_rank_count shape \<le> 4095
   \<and> (\<forall>r\<in>bc_rank ` set blocks. 1 + es_rank_count shape + (\<Sum>b\<leftarrow>of_rank blocks r. 1 + int (length (bc_steps b))) \<le> 4095
        \<and> int (length (of_rank blocks r)) \<le> tbs_per_rank limits \<and> bc_tb_id ` set (of_rank blocks r) = {0..<int (length (of_rank blocks r))})
   \<and> (\<forall>(r, c, d)\<in>set (concat (map lanes_of blocks)). int (count_list (concat (map lanes_of blocks)) (r, c, d))
        \<le> (if d = ''send'' then send_tbs_per_channel limits else recv_tbs_per_channel limits))
   \<and> waits_resolved blocks)"

section \<open>The scan computes the limits\<close>

lemma issue_Nil [simp]: "issue c code b cur most det = [] \<longleftrightarrow> \<not> c" "rank_issue c code r cur most det = [] \<longleftrightarrow> \<not> c"
  by (simp_all add: issue_def rank_issue_def)

text \<open>A counter holds \<open>f\<close> on the keys \<open>S\<close>.\<close>

definition counts :: "('k, int) dict \<Rightarrow> 'k set \<Rightarrow> ('k \<Rightarrow> int) \<Rightarrow> bool" where
  "counts d S f \<longleftrightarrow> wf_dict d \<and> (\<forall>k. map_of d k = (if k \<in> S then Some (f k) else None)) \<and> (\<forall>k. k \<notin> S \<longrightarrow> f k = 0)"

lemma counts_bump: "counts d S f \<Longrightarrow> counts (bump d k v) (insert k S) (\<lambda>j. f j + (if j = k then v else 0))"
  by (auto simp: counts_def bump_def dict_get_def)

lemma counts_cong: "counts d S f \<Longrightarrow> S = T \<Longrightarrow> (\<And>k. f k = g k) \<Longrightarrow> counts d T g"
  by (simp add: counts_def)

lemma counts_all: "counts d S f \<Longrightarrow> (\<forall>(k, c)\<in>set d. P k c) \<longleftrightarrow> (\<forall>k\<in>S. P k (f k))"
proof -
  assume c: "counts d S f"
  then have "(k, v) \<in> set d \<longleftrightarrow> k \<in> S \<and> v = f k" for k v
    using map_of_eq_Some_iff [of d k v] by (auto simp: counts_def split: if_splits)
  then show ?thesis by (metis (no_types, lifting) case_prodD case_prodI2)
qed

lemma counts_bumps: "counts d S f \<Longrightarrow> counts (foldl (\<lambda>d k. bump d k 1) d ks) (S \<union> set ks) (\<lambda>j. f j + int (count_list ks j))"
proof (induction ks arbitrary: d S f)
  case (Cons k ks)
  show ?case unfolding foldl.simps by (rule counts_cong [OF Cons.IH [OF counts_bump [OF Cons.prems, of k 1]]]) auto
qed simp

definition scanned :: "execution_shape \<Rightarrow> runtime_limits \<Rightarrow> block_capacity list \<Rightarrow> capacity_scan \<Rightarrow> bool" where
  "scanned shape limits blocks sc \<longleftrightarrow>
     (scan_issues sc = [] \<longleftrightarrow> shape_issues shape limits = [] \<and> (\<forall>b\<in>set blocks. block_fits shape limits b)
        \<and> distinct (map key_of blocks) \<and> distinct (concat (map owners_of blocks)))
   \<and> set (dict_keys (scan_by_id sc)) = key_of ` set blocks
   \<and> (\<forall>k b. map_of (scan_by_id sc) k = Some b \<longrightarrow> b \<in> set blocks \<and> key_of b = k)
   \<and> scan_owners sc = set (concat (map owners_of blocks))
   \<and> counts (scan_rank_blocks sc) (bc_rank ` set blocks) (\<lambda>r. int (length (of_rank blocks r)))
   \<and> counts (scan_xml_nodes sc) (bc_rank ` set blocks) (\<lambda>r. \<Sum>b\<leftarrow>of_rank blocks r. 1 + int (length (bc_steps b)))
   \<and> counts (scan_directions sc) (set (concat (map lanes_of blocks))) (\<lambda>k. int (count_list (concat (map lanes_of blocks)) k))"

text \<open>The two directions of a block.\<close>

lemma scan_peers:
  "foldl (scan_peer shape b) sc [(''send'', bc_send_peer b), (''recv'', bc_recv_peer b)] = sc\<lparr>
     scan_issues := scan_issues sc @ concat (map (\<lambda>(d, p). if p = -1 then [] else
       issue (bad_peer shape b p) ''peer_id'' (Some b) p (min 32767 (es_rank_count shape - 1)) ''''
       @ issue ((bc_rank b, p, bc_channel b, d) \<in> scan_owners sc) ''connection_owner'' (Some b) 2 1 d) [(''send'', bc_send_peer b), (''recv'', bc_recv_peer b)]),
     scan_directions := foldl (\<lambda>d k. bump d k 1) (scan_directions sc) (lanes_of b),
     scan_owners := scan_owners sc \<union> set (owners_of b)\<rparr>"
  by (simp add: scan_peer_def lanes_of_def owners_of_def Let_def insert_commute)

lemma step_issues_Nil: "step_issues limits b step = [] \<longleftrightarrow> step_fits limits step"
  by (auto simp: step_issues_def step_fits_def)

lemma scan_block_issues:
  "scan_issues (scan_block shape limits sc b) = [] \<longleftrightarrow> scan_issues sc = [] \<and> block_fits shape limits b
     \<and> key_of b \<notin> set (dict_keys (scan_by_id sc)) \<and> set (owners_of b) \<inter> scan_owners sc = {}"
proof -
  have own: "set (owners_of b) \<inter> scan_owners sc = {} \<longleftrightarrow>
      (bc_send_peer b \<noteq> -1 \<longrightarrow> (bc_rank b, bc_send_peer b, bc_channel b, ''send'') \<notin> scan_owners sc)
    \<and> (bc_recv_peer b \<noteq> -1 \<longrightarrow> (bc_rank b, bc_recv_peer b, bc_channel b, ''recv'') \<notin> scan_owners sc)" by (auto simp: owners_of_def)
  show ?thesis
    unfolding scan_block_def Let_def scan_peers own by (auto simp: step_issues_Nil block_fits_def key_of_def bad_peer_def)
qed

lemma scan_block_fields:
  "scan_by_id (scan_block shape limits sc b) = AList.update (key_of b) b (scan_by_id sc)"
  "scan_owners (scan_block shape limits sc b) = scan_owners sc \<union> set (owners_of b)"
  "scan_rank_blocks (scan_block shape limits sc b) = bump (scan_rank_blocks sc) (bc_rank b) 1"
  "scan_xml_nodes (scan_block shape limits sc b) = bump (scan_xml_nodes sc) (bc_rank b) (1 + int (length (bc_steps b)))"
  "scan_directions (scan_block shape limits sc b) = foldl (\<lambda>d k. bump d k 1) (scan_directions sc) (lanes_of b)"
  unfolding scan_block_def Let_def scan_peers by (simp_all add: key_of_def)

lemma distinct_owners_of: "distinct (owners_of b)"
  by (simp add: owners_of_def)

lemma scan_block_scanned:
  assumes "scanned shape limits blocks sc"
  shows "scanned shape limits (blocks @ [b]) (scan_block shape limits sc b)"
proof -
  note s = assms [unfolded scanned_def]
  have c: "counts (scan_rank_blocks sc) (bc_rank ` set blocks) (\<lambda>r. int (length (of_rank blocks r)))"
    "counts (scan_xml_nodes sc) (bc_rank ` set blocks) (\<lambda>r. \<Sum>b\<leftarrow>of_rank blocks r. 1 + int (length (bc_steps b)))"
    "counts (scan_directions sc) (set (concat (map lanes_of blocks))) (\<lambda>k. int (count_list (concat (map lanes_of blocks)) k))"
    and keys: "set (dict_keys (scan_by_id sc)) = key_of ` set blocks" and own: "scan_owners sc = set (concat (map owners_of blocks))"
    and look: "\<forall>k b. map_of (scan_by_id sc) k = Some b \<longrightarrow> b \<in> set blocks \<and> key_of b = k"
    and iss: "scan_issues sc = [] \<longleftrightarrow> shape_issues shape limits = [] \<and> (\<forall>b\<in>set blocks. block_fits shape limits b)
        \<and> distinct (map key_of blocks) \<and> distinct (concat (map owners_of blocks))"
    by (insert s, (elim conjE, assumption)+)
  have "scan_issues (scan_block shape limits sc b) = [] \<longleftrightarrow> shape_issues shape limits = [] \<and> (\<forall>b\<in>set (blocks @ [b]). block_fits shape limits b)
        \<and> distinct (map key_of (blocks @ [b])) \<and> distinct (concat (map owners_of (blocks @ [b])))"
    unfolding scan_block_issues iss keys own using distinct_owners_of [of b] by auto
  moreover have "set (dict_keys (scan_by_id (scan_block shape limits sc b))) = key_of ` set (blocks @ [b])"
    using keys by (simp add: scan_block_fields)
  moreover have "\<forall>k x. map_of (scan_by_id (scan_block shape limits sc b)) k = Some x \<longrightarrow> x \<in> set (blocks @ [b]) \<and> key_of x = k"
    using look by (auto simp: scan_block_fields)
  moreover have "scan_owners (scan_block shape limits sc b) = set (concat (map owners_of (blocks @ [b])))" by (simp add: scan_block_fields own)
  moreover have "counts (scan_rank_blocks (scan_block shape limits sc b)) (bc_rank ` set (blocks @ [b])) (\<lambda>r. int (length (of_rank (blocks @ [b]) r)))"
    unfolding scan_block_fields by (rule counts_cong [OF counts_bump [OF c(1)]]) (auto simp: of_rank_def)
  moreover have "counts (scan_xml_nodes (scan_block shape limits sc b)) (bc_rank ` set (blocks @ [b])) (\<lambda>r. \<Sum>b\<leftarrow>of_rank (blocks @ [b]) r. 1 + int (length (bc_steps b)))"
    unfolding scan_block_fields by (rule counts_cong [OF counts_bump [OF c(2)]]) (auto simp: of_rank_def)
  moreover have "counts (scan_directions (scan_block shape limits sc b)) (set (concat (map lanes_of (blocks @ [b])))) (\<lambda>k. int (count_list (concat (map lanes_of (blocks @ [b]))) k))"
    unfolding scan_block_fields by (rule counts_cong [OF counts_bumps [OF c(3)]]) auto
  ultimately show ?thesis unfolding scanned_def by blast
qed

lemma scan_blocks_scanned: "scanned shape limits (es_blocks shape) (scan_blocks shape limits)"
proof -
  let ?s0 = "\<lparr>scan_issues = shape_issues shape limits, scan_by_id = [], scan_rank_blocks = [], scan_directions = [], scan_owners = {}, scan_xml_nodes = []\<rparr>"
  have "scanned shape limits bs (foldl (scan_block shape limits) ?s0 bs)" for bs
  proof (induction bs rule: rev_induct)
    case Nil
    then show ?case by (simp add: scanned_def counts_def of_rank_def)
  next
    case (snoc b bs)
    then show ?case using scan_block_scanned by simp
  qed
  then show ?thesis by (simp add: scan_blocks_def)
qed

lemma target_issues_Nil:
  assumes "scanned shape limits blocks sc" "blocks = es_blocks shape" "distinct (map key_of blocks)"
  shows "target_issues shape limits sc = [] \<longleftrightarrow> waits_resolved blocks"
proof -
  have keys: "set (dict_keys (scan_by_id sc)) = key_of ` set blocks" and look: "\<And>k b. map_of (scan_by_id sc) k = Some b \<Longrightarrow> b \<in> set blocks \<and> key_of b = k"
    using assms(1) unfolding scanned_def by blast+
  have find: "map_of (scan_by_id sc) (key_of b) = Some b" if "b \<in> set blocks" for b
  proof -
    have "key_of b \<in> fst ` set (scan_by_id sc)" using keys that by auto
    then obtain c where c: "map_of (scan_by_id sc) (key_of b) = Some c" by (metis map_of_eq_None_iff not_None_eq)
    from look [OF c] that assms(3) have "c = b" by (auto simp: distinct_map inj_on_def)
    with c show ?thesis by simp
  qed
  have "target_issue limits sc b step = [] \<longleftrightarrow> sc_dependency_tb step = -1 \<and> sc_dependency_step step = -1
     \<or> (\<exists>t\<in>set blocks. bc_rank t = bc_rank b \<and> bc_tb_id t = sc_dependency_tb step \<and> 0 \<le> sc_dependency_step step \<and> sc_dependency_step step < int (length (bc_steps t)))" for b step
  proof (cases "map_of (scan_by_id sc) (bc_rank b, sc_dependency_tb step)")
    case None
    have "\<not> (bc_rank t = bc_rank b \<and> bc_tb_id t = sc_dependency_tb step)" if "t \<in> set blocks" for t
      using find [OF that] None by (auto simp: key_of_def)
    with None show ?thesis by (auto simp: target_issue_def)
  next
    case (Some t)
    have "t' = t" if "t' \<in> set blocks" "bc_rank t' = bc_rank b" "bc_tb_id t' = sc_dependency_tb step" for t'
      using find [OF that(1)] that Some by (simp add: key_of_def)
    with look [OF Some] Some show ?thesis by (auto simp: target_issue_def key_of_def)
  qed
  then show ?thesis by (simp add: target_issues_def waits_resolved_def assms(2))
qed

definition scratch_declared :: "execution_shape \<Rightarrow> int option \<Rightarrow> scratch_budget option \<Rightarrow> bool" where
  "scratch_declared shape bytes budget \<longleftrightarrow> (case (bytes, budget) of
     (Some sz, Some b) \<Rightarrow> 1 \<le> sz \<and> (\<forall>(r, k)\<in>set (es_scratch_slots shape). r \<in> {0..<es_rank_count shape} \<and> 0 \<le> k \<and> 0 \<le> budget_of b r) | _ \<Rightarrow> True)"

definition scratch_fits :: "execution_shape \<Rightarrow> int option \<Rightarrow> scratch_budget option \<Rightarrow> bool" where
  "scratch_fits shape bytes budget \<longleftrightarrow> (case (bytes, budget) of
     (Some sz, Some b) \<Rightarrow> \<forall>(r, k)\<in>set (es_scratch_slots shape). k * sz \<le> budget_of b r | _ \<Rightarrow> True)"

lemma scratch_reports:
  "map_res (scratch_issue shape sz b) xs = Inr reports \<Longrightarrow>
     (\<forall>(r, k)\<in>set xs. r \<in> {0..<es_rank_count shape} \<and> 0 \<le> k \<and> 0 \<le> budget_of b r) \<and> (concat reports = [] \<longleftrightarrow> (\<forall>(r, k)\<in>set xs. k * sz \<le> budget_of b r))"
  by (induction xs arbitrary: reports) (fastforce simp: scratch_issue_def res_simps)+

lemma scratch_reports_total:
  "(\<forall>(r, k)\<in>set xs. r \<in> {0..<es_rank_count shape} \<and> 0 \<le> k \<and> 0 \<le> budget_of b r) \<Longrightarrow> \<exists>reports. map_res (scratch_issue shape sz b) xs = Inr reports"
  by (induction xs) (auto simp: scratch_issue_def res_simps)

lemma scratch_issues_exact:
  "is_ok (scratch_issues shape bytes budget) \<longleftrightarrow> scratch_declared shape bytes budget"
  "scratch_issues shape bytes budget = Inr report \<Longrightarrow> report = [] \<longleftrightarrow> scratch_fits shape bytes budget"
proof -
  show "is_ok (scratch_issues shape bytes budget) \<longleftrightarrow> scratch_declared shape bytes budget"
  proof (cases "\<exists>sz b. bytes = Some sz \<and> budget = Some b")
    case True
    then obtain sz b where e: "bytes = Some sz" "budget = Some b" by blast
    have "(\<exists>reports. map_res (scratch_issue shape sz b) (es_scratch_slots shape) = Inr reports)
      \<longleftrightarrow> (\<forall>(r, k)\<in>set (es_scratch_slots shape). r \<in> {0..<es_rank_count shape} \<and> 0 \<le> k \<and> 0 \<le> budget_of b r)"
      using scratch_reports [of shape sz b "es_scratch_slots shape"] scratch_reports_total [of "es_scratch_slots shape" shape b sz] by blast
    then show ?thesis by (auto simp: e scratch_issues_def scratch_declared_def is_ok_bnd is_ok_ensure res_simps)
  qed (auto simp: scratch_issues_def scratch_declared_def split: option.splits)
  show "scratch_issues shape bytes budget = Inr report \<Longrightarrow> report = [] \<longleftrightarrow> scratch_fits shape bytes budget"
    using scratch_reports [of shape _ _ "es_scratch_slots shape"] by (auto simp: scratch_issues_def scratch_fits_def res_simps split: option.splits)
qed

lemma reports_Nil:
  assumes "scanned shape limits (es_blocks shape) sc"
  shows "scan_issues sc @ node_issues shape sc @ rank_issues shape limits sc @ direction_issues limits sc @ target_issues shape limits sc = [] \<longleftrightarrow> fits shape limits"
proof -
  let ?bs = "es_blocks shape"
  note s = assms [unfolded scanned_def]
  have c: "counts (scan_rank_blocks sc) (bc_rank ` set ?bs) (\<lambda>r. int (length (of_rank ?bs r)))"
    "counts (scan_xml_nodes sc) (bc_rank ` set ?bs) (\<lambda>r. \<Sum>b\<leftarrow>of_rank ?bs r. 1 + int (length (bc_steps b)))"
    "counts (scan_directions sc) (set (concat (map lanes_of ?bs))) (\<lambda>k. int (count_list (concat (map lanes_of ?bs)) k))"
    and iss: "scan_issues sc = [] \<longleftrightarrow> shape_issues shape limits = [] \<and> (\<forall>b\<in>set ?bs. block_fits shape limits b)
        \<and> distinct (map key_of ?bs) \<and> distinct (concat (map owners_of ?bs))"
    by (insert s, (elim conjE, assumption)+)
  have head: "shape_issues shape limits = [] \<longleftrightarrow> es_channels shape \<in> {1..lim_max_channels limits} \<and> (\<forall>c. es_chunks_per_loop shape = Some c \<longrightarrow> c \<in> {1..2 ^ 31 - 1})"
    by (auto simp: shape_issues_def split: option.splits)
  have nodes: "node_issues shape sc = [] \<longleftrightarrow> 1 + es_rank_count shape \<le> 4095
      \<and> (\<forall>r\<in>bc_rank ` set ?bs. 1 + es_rank_count shape + (\<Sum>b\<leftarrow>of_rank ?bs r. 1 + int (length (bc_steps b))) \<le> 4095)"
    using counts_all [OF c(2), of "\<lambda>r v. 1 + es_rank_count shape + v \<le> 4095"]
    by (auto simp: node_issues_def Let_def xml_max_retained_nodes_def not_less)
  have ranks: "rank_issues shape limits sc = [] \<longleftrightarrow> (\<forall>r\<in>bc_rank ` set ?bs. int (length (of_rank ?bs r)) \<le> tbs_per_rank limits
      \<and> bc_tb_id ` set (of_rank ?bs r) = {0..<int (length (of_rank ?bs r))})"
  proof -
    have "set (py_range 0 v) = {0..<v}" for v by auto
    then have "rank_issues shape limits sc = [] \<longleftrightarrow> (\<forall>(r, v)\<in>set (scan_rank_blocks sc). v \<le> tbs_per_rank limits \<and> bc_tb_id ` set (of_rank ?bs r) = {0..<v})"
      by (simp add: rank_issues_def Let_def of_rank_def not_less case_prod_beta)
    then show ?thesis using counts_all [OF c(1), of "\<lambda>r v. v \<le> tbs_per_rank limits \<and> bc_tb_id ` set (of_rank ?bs r) = {0..<v}"] by simp
  qed
  have dirs: "direction_issues limits sc = [] \<longleftrightarrow> (\<forall>(r, c, d)\<in>set (concat (map lanes_of ?bs)). int (count_list (concat (map lanes_of ?bs)) (r, c, d))
        \<le> (if d = ''send'' then send_tbs_per_channel limits else recv_tbs_per_channel limits))"
  proof -
    have "direction_issues limits sc = [] \<longleftrightarrow> (\<forall>(k, v)\<in>set (scan_directions sc). v \<le> (if snd (snd k) = ''send'' then send_tbs_per_channel limits else recv_tbs_per_channel limits))"
      by (fastforce simp: direction_issues_def Let_def not_less)
    then show ?thesis using counts_all [OF c(3), of "\<lambda>k v. v \<le> (if snd (snd k) = ''send'' then send_tbs_per_channel limits else recv_tbs_per_channel limits)"] by fastforce
  qed
  show ?thesis
  proof (cases "distinct (map key_of ?bs)")
    case True
    note t = target_issues_Nil [OF assms refl True]
    show ?thesis unfolding append_is_Nil_conv iss head nodes ranks dirs t fits_def Let_def by (intro iffI conjI; (elim conjE)?; blast)
  qed (simp add: iss fits_def)
qed

lemma check_capacity_report:
  assumes "check_capacity shape limits bytes budget = Inr report"
  shows "compatible report \<longleftrightarrow> fits shape limits \<and> scratch_fits shape bytes budget"
proof -
  obtain scratch where scratch: "scratch_issues shape bytes budget = Inr scratch"
    and report: "report = (scan_issues (scan_blocks shape limits) @ node_issues shape (scan_blocks shape limits) @ rank_issues shape limits (scan_blocks shape limits)
       @ direction_issues limits (scan_blocks shape limits) @ target_issues shape limits (scan_blocks shape limits)) @ scratch"
    using assms by (auto simp: check_capacity_def Let_def res_simps)
  show ?thesis
    unfolding compatible_def report append_is_Nil_conv [of _ scratch] reports_Nil [OF scan_blocks_scanned] scratch_issues_exact(2) [OF scratch] ..
qed

text \<open>
  C17: \<^verbatim>\<open>check_capacity\<close> is exact.  It fails only on a shape without ranks or an invalid scratch declaration; otherwise
  its report is empty exactly when the program stays within every limit of the runtime: channels, steps and threadblocks,
  dense threadblock identifiers, unique connection owners, field widths, the node table of the XML parser,
  waits on existing steps, and the scratch bytes of every rank.
\<close>

theorem check_capacity_exact:
  "(is_ok (check_capacity shape limits bytes budget) \<longleftrightarrow> 1 \<le> es_rank_count shape \<and> scratch_declared shape bytes budget)
   \<and> (\<forall>report. check_capacity shape limits bytes budget = Inr report \<longrightarrow>
        (compatible report \<longleftrightarrow> fits shape limits \<and> scratch_fits shape bytes budget))"
proof (intro conjI allI impI)
  show "is_ok (check_capacity shape limits bytes budget) \<longleftrightarrow> 1 \<le> es_rank_count shape \<and> scratch_declared shape bytes budget"
    by (auto simp: check_capacity_def Let_def is_ok_iff scratch_issues_exact(1) [symmetric] res_simps)
qed (rule check_capacity_report)

text \<open>A two-rank program with one send and one receive that waits on a local copy.\<close>

definition example_shape :: execution_shape where
  "example_shape = (let step = \<lparr>sc_kind = ''s'', sc_src_offset = 0, sc_dst_offset = 0, sc_dependency_tb = -1, sc_dependency_step = -1, sc_count = 1\<rparr> in
     \<lparr>es_rank_count = 2, es_channels = 1, es_blocks =
       [\<lparr>bc_rank = 0, bc_tb_id = 0, bc_channel = 0, bc_send_peer = 1, bc_recv_peer = -1, bc_steps = [step]\<rparr>,
        \<lparr>bc_rank = 1, bc_tb_id = 0, bc_channel = 0, bc_send_peer = -1, bc_recv_peer = 0, bc_steps = [step\<lparr>sc_kind := ''r''\<rparr>]\<rparr>,
        \<lparr>bc_rank = 1, bc_tb_id = 1, bc_channel = 0, bc_send_peer = -1, bc_recv_peer = -1,
          bc_steps = [step\<lparr>sc_kind := ''cpy'', sc_dependency_tb := 0, sc_dependency_step := 0\<rparr>]\<rparr>],
      es_scratch_slots = [(0, 0), (1, 2)], es_chunks_per_loop = Some 4\<rparr>)"

theorem check_capacity_exact_witness:
  "check_capacity example_shape default_limits (Some 4) (Some (EachRank 8)) = Inr [] \<and> fits example_shape default_limits"
proof -
  have run: "check_capacity example_shape default_limits (Some 4) (Some (EachRank 8)) = Inr []" by code_simp
  from conjunct2 [OF check_capacity_exact, rule_format, OF run] have "fits example_shape default_limits" by (simp add: compatible_def)
  with run show ?thesis ..
qed

section \<open>Payloads\<close>

lemma width_bounds: "w \<in> {1, 2, 4, 8} \<Longrightarrow> (0::int) < w" by auto

lemma payload_closed:
  assumes "(0::int) < w" "0 \<le> b"
  shows "b div 8 div w * w * 4 * 2 \<le> b" "w dvd b div 8 div w * w * 4"
proof -
  have "b div 8 div w * w \<le> b div 8" using assms(1) div_mult_mod_eq [of "b div 8" w] pos_mod_sign [OF assms(1), of "b div 8"] by linarith
  moreover have "b div 8 * 8 \<le> b" by (simp add: minus_mod_eq_div_mult [symmetric])
  ultimately show "b div 8 div w * w * 4 * 2 \<le> b" by linarith
  show "w dvd b div 8 div w * w * 4" by simp
qed

text \<open>
  C18: \<^verbatim>\<open>verify_atom_granularity\<close> accepts exactly the launches whose runtime bytes are the chunks of a loop, each one slice of whole
  elements, with a chunk count in its signed 32-bit field and a slice that fits the Simple payload of the buffer;
  the payload then is a whole number of elements and at most half of \<^verbatim>\<open>NCCL_BUFFSIZE\<close>, so an accepted slice never
  exceeds half the buffer or a signed 32-bit field.
\<close>

theorem granularity_exact:
  "(verify_atom_granularity cnt factor w chunks slice buff = Inr () \<longleftrightarrow>
      1 \<le> cnt \<and> 1 \<le> factor \<and> w \<in> {1, 2, 4, 8} \<and> 1 \<le> slice \<and> chunks \<in> {1..2 ^ 31 - 1} \<and> buff \<in> {8..2 ^ 31 - 1}
      \<and> cnt * factor * w = chunks * slice \<and> w dvd slice \<and> slice \<le> 4 * (w * (buff div 8 div w)))
   \<and> (verify_atom_granularity cnt factor w chunks slice buff = Inr () \<longrightarrow> 2 * slice \<le> buff \<and> slice < 2 ^ 30)
   \<and> (\<forall>c. simple_payload_capacity buff w = Inr c \<longrightarrow> w dvd c \<and> 2 * c \<le> buff)"
proof -
  have pay: "w dvd c \<and> 2 * c \<le> buff" if "simple_payload_capacity buff w = Inr c" for c
  proof -
    have c: "8 \<le> buff" "w \<in> {1, 2, 4, 8}" "c = buff div 8 div w * w * 4" using that by (auto simp: simple_payload_capacity_def res_simps)
    then show ?thesis using payload_closed [OF width_bounds [OF c(2)], of buff] by simp
  qed
  have split: "runtime mod chunks = 0 \<and> runtime div chunks = slice \<longleftrightarrow> runtime = chunks * slice" if "1 \<le> chunks" for runtime
    using that by auto
  have ok: "verify_atom_granularity cnt factor w chunks slice buff = Inr () \<longleftrightarrow>
      1 \<le> cnt \<and> 1 \<le> factor \<and> 1 \<le> w \<and> 1 \<le> chunks \<and> 1 \<le> slice \<and> 1 \<le> buff \<and> (cnt * factor * w) mod chunks = 0 \<and> cnt * factor * w div chunks = slice
      \<and> slice mod w = 0 \<and> chunks \<le> 2 ^ 31 - 1 \<and> (\<exists>c. simple_payload_capacity buff w = Inr c \<and> slice \<le> c)"
    by (auto simp: verify_atom_granularity_def positive_integer_def Let_def res_simps)
  have cap: "(\<exists>c. simple_payload_capacity buff w = Inr c \<and> slice \<le> c) \<longleftrightarrow> w \<in> {1, 2, 4, 8} \<and> buff \<in> {8..2 ^ 31 - 1} \<and> slice \<le> 4 * (w * (buff div 8 div w))"
    by (auto simp: simple_payload_capacity_def res_simps)
  have iff: "verify_atom_granularity cnt factor w chunks slice buff = Inr () \<longleftrightarrow>
      1 \<le> cnt \<and> 1 \<le> factor \<and> w \<in> {1, 2, 4, 8} \<and> 1 \<le> slice \<and> chunks \<in> {1..2 ^ 31 - 1} \<and> buff \<in> {8..2 ^ 31 - 1}
      \<and> cnt * factor * w = chunks * slice \<and> w dvd slice \<and> slice \<le> 4 * (w * (buff div 8 div w))"
    unfolding ok cap using split [of "cnt * factor * w"] by (auto simp: mod_eq_0_iff_dvd)
  moreover have "2 * slice \<le> buff \<and> slice < 2 ^ 30" if run: "verify_atom_granularity cnt factor w chunks slice buff = Inr ()"
  proof -
    obtain c where c: "simple_payload_capacity buff w = Inr c" "slice \<le> c" using run unfolding ok by blast
    have "buff \<le> 2 ^ 31 - 1" using run unfolding iff by simp
    with pay [OF c(1)] c(2) show ?thesis by simp
  qed
  ultimately show ?thesis using pay by blast
qed

theorem granularity_exact_witness:
  "verify_atom_granularity 1024 1 4 8 512 (2 ^ 22) = Inr () \<and> 2 * 512 \<le> (2 ^ 22 :: int) \<and> simple_payload_capacity (2 ^ 22) 4 = Inr (2 ^ 21)"
proof -
  have run: "verify_atom_granularity 1024 1 4 8 512 (2 ^ 22) = Inr ()" "simple_payload_capacity (2 ^ 22) 4 = Inr (2 ^ 21)"
    by (simp_all add: verify_atom_granularity_def positive_integer_def simple_payload_capacity_def)
  with granularity_exact [of 1024 1 4 8 512 "2 ^ 22"] show ?thesis by blast
qed

end
