(* ===== verification/Native_Program.thy ===== *)
theory Native_Program
  imports Storage_Plan Capacity
begin

text \<open>
  \<^verbatim>\<open>src/vericcl/xml/v5_program.py\<close> with the records it builds from \<^verbatim>\<open>v5_model.py\<close> and
  \<^verbatim>\<open>src/vericcl/performance/events.py\<close>: the lowering of the instructions of a storage plan to the steps of threadblocks,
  the dependencies a native program has, and the work operations handed to the cost model.

  Bit masks are Python's unbounded integers.  The lookups of an endpoint that has a location
  (its order, bit and ancestors) never fail and are written with a default.  The context of the cost model that
  \<^verbatim>\<open>build_executable\<close> copies is not read by this code and left out.
\<close>

unbundle bit_operations_syntax

section \<open>Records\<close>

record native_step =
  nstep_id :: string
  nstep_op :: string
  nstep_kind :: string
  nstep_src :: "address option"
  nstep_dst :: "address option"
  nstep_dep_tb :: int
  nstep_dep_step :: int
  nstep_has_dep :: bool
  nstep_count :: int

record native_block =
  nb_rank :: int
  nb_tb_id :: int
  nb_channel :: int
  nb_send_peer :: int
  nb_recv_peer :: int
  nb_steps :: "native_step list"

record native_program =
  np_rank_count :: int
  np_channels :: int
  np_chunks_per_loop :: int
  np_blocks :: "native_block list"
  np_input_slots :: "(int, int) dict"
  np_output_slots :: "(int, int) dict"
  np_scratch_slots :: "(int, int) dict"

section \<open>Endpoints\<close>

record endpoint_spec =
  ep_rank :: int
  ep_direction :: string
  ep_peer :: int
  ep_channel :: int
  ep_kind :: string
  ep_source :: address
  ep_destination :: address

definition input_address :: "storage_plan \<Rightarrow> instruction \<Rightarrow> nat \<Rightarrow> address res" where
  "input_address plan op i = (if i < length (ins_inputs op) then dict_item (addresses plan) (ins_inputs op ! i) else Inl IndexError)"

definition native_endpoints :: "instruction \<Rightarrow> storage_plan \<Rightarrow> endpoint_spec list res" where
  "native_endpoints op plan =
     bnd (input_address plan op 0) (\<lambda>source.
     bnd (dict_item (addresses plan) (ins_output op)) (\<lambda>destination.
     if ins_kind op = ''copy'' then
       Inr [\<lparr>ep_rank = ins_rank op, ep_direction = ''copy'', ep_peer = -1, ep_channel = -1, ep_kind = ''cpy'', ep_source = source, ep_destination = destination\<rparr>]
     else bnd (if ins_kind op = ''rrc'' then input_address plan op 1 else Inr source) (\<lambda>receiver_source.
       Inr [\<lparr>ep_rank = addr_rank source, ep_direction = ''send'', ep_peer = addr_rank destination, ep_channel = ins_channel op, ep_kind = ''s'',
              ep_source = source, ep_destination = destination\<rparr>,
            \<lparr>ep_rank = addr_rank destination, ep_direction = ''recv'', ep_peer = addr_rank source, ep_channel = ins_channel op,
              ep_kind = (if ins_kind op = ''rrc'' then ''rrc'' else ''r''), ep_source = receiver_source, ep_destination = destination\<rparr>])))"

section \<open>Lowering\<close>

type_synonym block_key = "int \<times> string \<times> int \<times> int"

record lowering =
  lw_blocks :: "(block_key, native_step list) dict"
  lw_locations :: "(string \<times> int, string) dict"
  lw_owner :: "(string, block_key) dict"
  lw_waits :: "(string, string) dict"
  lw_bits :: "(string, int) dict"
  lw_ancestors :: "(string, int) dict"
  lw_order :: "(string, int) dict"
  lw_block_ancestors :: "(block_key, int) dict"
  lw_sequence :: "(int, int) dict"

definition block_key_of :: "string \<Rightarrow> endpoint_spec \<Rightarrow> block_key" where
  "block_key_of layout ep = (ep_rank ep, if layout = ''fused'' \<and> ep_direction ep \<noteq> ''copy'' then ''fused'' else ep_direction ep, ep_peer ep, ep_channel ep)"

definition assign_waits :: "lowering \<Rightarrow> int set \<Rightarrow> instruction \<Rightarrow> string \<Rightarrow> (int \<Rightarrow> string list) \<Rightarrow> (int \<Rightarrow> string list) res" where
  "assign_waits lw ranks op predecessor assigned =
     (let candidates = Set.filter (\<lambda>rank. map_of (lw_locations lw) (predecessor, rank) \<noteq> None) ranks in
      ensure (candidates \<noteq> {})
        (SemanticError (''a required dependency has no same-rank endpoint: '' @ predecessor @ '' -> '' @ ins_id op)) (
      Inr (\<lambda>rank. assigned rank @ (if rank \<in> candidates then [the (map_of (lw_locations lw) (predecessor, rank))] else []))))"

definition add_wait :: "lowering \<Rightarrow> string list \<times> int \<Rightarrow> string \<Rightarrow> string list \<times> int" where
  "add_wait lw acc t = (case acc of (waits, covered) \<Rightarrow>
     if covered AND dict_get (lw_bits lw) t 0 = 0 then (waits @ [t], covered OR dict_get (lw_ancestors lw) t 0) else (waits, covered))"

definition choose_waits :: "lowering \<Rightarrow> block_key \<Rightarrow> string list \<Rightarrow> string list \<times> int" where
  "choose_waits lw key targets = foldl (add_wait lw) ([], dict_get (lw_block_ancestors lw) key 0)
     (rev (sort_key (\<lambda>t. dict_get (lw_order lw) t 0) (sorted_list_of_set (set targets))))"

definition plain_step :: "string \<Rightarrow> string \<Rightarrow> string \<Rightarrow> address option \<Rightarrow> address option \<Rightarrow> native_step" where
  "plain_step sid op knd src dst = \<lparr>nstep_id = sid, nstep_op = op, nstep_kind = knd, nstep_src = src, nstep_dst = dst,
     nstep_dep_tb = -1, nstep_dep_step = -1, nstep_has_dep = False, nstep_count = 1\<rparr>"

definition append_step :: "block_key \<Rightarrow> native_step \<Rightarrow> string option \<Rightarrow> lowering \<Rightarrow> lowering" where
  "append_step key step wait lw = lw\<lparr>lw_blocks := AList.update key (dict_get (lw_blocks lw) key [] @ [step]) (lw_blocks lw),
     lw_owner := AList.update (nstep_id step) key (lw_owner lw),
     lw_waits := (case wait of None \<Rightarrow> lw_waits lw | Some t \<Rightarrow> AList.update (nstep_id step) t (lw_waits lw))\<rparr>"

definition nop_id :: "string \<Rightarrow> int \<Rightarrow> nat \<Rightarrow> string" where
  "nop_id op rank index = ''nop:'' @ op @ '':'' @ str_int rank @ '':'' @ str_int (int index)"

definition endpoint_id :: "string \<Rightarrow> string \<Rightarrow> int \<Rightarrow> string" where
  "endpoint_id op direction rank = op @ '':'' @ direction @ '':'' @ str_int rank"

definition append_nop :: "block_key \<Rightarrow> instruction \<Rightarrow> int \<Rightarrow> lowering \<Rightarrow> nat \<times> string \<Rightarrow> lowering" where
  "append_nop key op rank lw entry = (case entry of (index, t) \<Rightarrow>
     append_step key (plain_step (nop_id (ins_id op) rank index) (ins_id op) ''nop'' None None) (Some t) lw)"

definition record_endpoint :: "block_key \<Rightarrow> instruction \<Rightarrow> int \<Rightarrow> string \<Rightarrow> int \<Rightarrow> lowering \<Rightarrow> lowering" where
  "record_endpoint key op rank sid covered lw =
     (let seq = dict_get (lw_sequence lw) rank 0; own = push_bit (nat seq) 1 in
      lw\<lparr>lw_locations := AList.update (ins_id op, rank) sid (lw_locations lw), lw_order := AList.update sid seq (lw_order lw),
         lw_bits := AList.update sid own (lw_bits lw), lw_sequence := AList.update rank (seq + 1) (lw_sequence lw),
         lw_ancestors := AList.update sid (covered OR own) (lw_ancestors lw),
         lw_block_ancestors := AList.update key (covered OR own) (lw_block_ancestors lw)\<rparr>)"

definition lower_endpoint :: "string \<Rightarrow> instruction \<Rightarrow> (int \<Rightarrow> string list) \<Rightarrow> lowering \<Rightarrow> endpoint_spec \<Rightarrow> lowering" where
  "lower_endpoint layout op assigned lw ep =
     (let key = block_key_of layout ep; rank = ep_rank ep; (waits, covered) = choose_waits lw key (assigned rank);
          lw1 = foldl (append_nop key op rank) lw (enumerate 0 (butlast waits));
          sid = endpoint_id (ins_id op) (ep_direction ep) rank;
          lw2 = append_step key (plain_step sid (ins_id op) (ep_kind ep) (Some (ep_source ep)) (Some (ep_destination ep)))
                  (if waits = [] then None else Some (last waits)) lw1
      in record_endpoint key op rank sid covered lw2)"

definition lower_instruction :: "string \<Rightarrow> storage_plan \<Rightarrow> lowering \<Rightarrow> instruction \<Rightarrow> lowering res" where
  "lower_instruction layout plan lw op =
     bnd (native_endpoints op plan) (\<lambda>eps.
     bnd (for_each (\<lambda>assigned predecessor. assign_waits lw (ep_rank ` set eps) op predecessor assigned) (\<lambda>_. []) (sorted_list_of_set (ins_dependencies op))) (\<lambda>assigned.
     Inr (foldl (lower_endpoint layout op assigned) lw eps)))"

definition empty_lowering :: lowering where
  "empty_lowering = \<lparr>lw_blocks = [], lw_locations = [], lw_owner = [], lw_waits = [], lw_bits = [], lw_ancestors = [], lw_order = [],
     lw_block_ancestors = [], lw_sequence = []\<rparr>"

section \<open>Threadblock numbers\<close>

definition target_blocks :: "lowering \<Rightarrow> block_key set res" where
  "target_blocks lw = bnd (map_res (\<lambda>(_, t). dict_item (lw_owner lw) t) (lw_waits lw)) (\<lambda>keys. Inr (set keys))"

definition rank_block_ids :: "lowering \<Rightarrow> block_key set \<Rightarrow> int \<Rightarrow> (block_key \<times> int) list" where
  "rank_block_ids lw targets rank =
     map (\<lambda>(i, key). (key, int i)) (enumerate 0 (sort_key (\<lambda>key. (key \<notin> targets, key)) (filter (\<lambda>key. fst key = rank) (dict_keys (lw_blocks lw)))))"

definition block_ids :: "lowering \<Rightarrow> int \<Rightarrow> block_key set \<Rightarrow> (block_key, int) dict" where
  "block_ids lw ranks targets = dict_of (concat (map (rank_block_ids lw targets) (py_range 0 ranks)))"

definition step_locations :: "lowering \<Rightarrow> (block_key, int) dict \<Rightarrow> (string, int \<times> int) dict res" where
  "step_locations lw ids = bnd (map_res (\<lambda>(key, steps). bnd (map_res (\<lambda>(i, step). bnd (dict_item ids key) (\<lambda>b. Inr (nstep_id step, (b, int i)))) (enumerate 0 steps)) Inr)
     (lw_blocks lw)) (\<lambda>entries. Inr (dict_of (concat entries)))"

definition place_step :: "lowering \<Rightarrow> (string, int \<times> int) dict \<Rightarrow> native_step \<Rightarrow> native_step res" where
  "place_step lw locs step =
     bnd (case map_of (lw_waits lw) (nstep_id step) of None \<Rightarrow> Inr (-1, -1) | Some t \<Rightarrow> dict_item locs t) (\<lambda>(tb, i).
     Inr (step\<lparr>nstep_dep_tb := tb, nstep_dep_step := i, nstep_has_dep := (nstep_id step \<in> snd ` set (lw_waits lw))\<rparr>))"

definition place_block :: "lowering \<Rightarrow> (block_key, int) dict \<Rightarrow> (string, int \<times> int) dict \<Rightarrow> block_key \<Rightarrow> native_block res" where
  "place_block lw ids locs key =
     (case key of (rank, direction, peer, chan) \<Rightarrow>
       bnd (map_res (place_step lw locs) (dict_get (lw_blocks lw) key [])) (\<lambda>steps.
       bnd (dict_item ids key) (\<lambda>b.
       Inr \<lparr>nb_rank = rank, nb_tb_id = b, nb_channel = max chan 0,
            nb_send_peer = (if direction \<in> {''send'', ''fused''} \<and> (\<exists>s\<in>set steps. nstep_kind s = ''s'') then peer else -1),
            nb_recv_peer = (if direction \<in> {''recv'', ''fused''} \<and> (\<exists>s\<in>set steps. nstep_kind s \<in> {''r'', ''rrc''}) then peer else -1),
            nb_steps = steps\<rparr>)))"

definition lower_program :: "storage_plan \<Rightarrow> resolved_input \<Rightarrow> native_program res" where
  "lower_program plan inputs =
     bnd (for_each (lower_instruction (tb_layout inputs) plan) empty_lowering (instructions plan)) (\<lambda>lw.
     bnd (target_blocks lw) (\<lambda>targets.
     let ids = block_ids lw (rank_count inputs) targets in
     bnd (step_locations lw ids) (\<lambda>locs.
     bnd (map_res (place_block lw ids locs) (sort_key (\<lambda>key. (fst key, dict_get ids key 0)) (dict_keys (lw_blocks lw)))) (\<lambda>blocks.
     bnd (slices inputs) (\<lambda>n.
     Inr \<lparr>np_rank_count = rank_count inputs,
          np_channels = (if blocks = [] then 0 else Max (set (map nb_channel blocks))) + 1,
          np_chunks_per_loop = (if kind (collective inputs) = ALL_GATHER then n * rank_count inputs else n), np_blocks = blocks,
          np_input_slots = input_slots plan, np_output_slots = output_slots plan, np_scratch_slots = scratch_slots plan\<rparr>)))))"

section \<open>Dependencies of a native program\<close>

record block_scan =
  bs_previous :: "string option"
  bs_waiting :: "string set"
  bs_dependencies :: "(string, string set) dict"
  bs_by_op :: "(string, (native_block \<times> native_step) list) dict"

definition program_steps :: "native_program \<Rightarrow> (int \<times> int \<times> int, native_step) dict" where
  "program_steps prog = dict_of (concat (map (\<lambda>b. map (\<lambda>(i, s). ((nb_rank b, nb_tb_id b, int i), s)) (enumerate 0 (nb_steps b))) (np_blocks prog)))"

definition scan_wait :: "(int \<times> int \<times> int, native_step) dict \<Rightarrow> native_block \<Rightarrow> nat \<Rightarrow> native_step \<Rightarrow> block_scan \<Rightarrow> block_scan res" where
  "scan_wait steps b i s sc =
     ensure ((nstep_dep_tb s = -1) = (nstep_dep_step s = -1)) (SemanticError ''native dependency must name both TB and step'') (
     if 0 \<le> nstep_dep_tb s then
       (case map_of steps (nb_rank b, nstep_dep_tb s, nstep_dep_step s) of
          None \<Rightarrow> Inl (SemanticError ''native dependency target is absent or does not publish completion'')
        | Some t \<Rightarrow>
            ensure (\<not> (nstep_kind t = ''nop'' \<or> \<not> nstep_has_dep t)) (SemanticError ''native dependency target is absent or does not publish completion'') (
            ensure (\<not> (nstep_dep_tb s = nb_tb_id b \<and> int i \<le> nstep_dep_step s)) (SemanticError ''native dependency points to the same or a later step'') (
            Inr (sc\<lparr>bs_waiting := insert (nstep_op t) (bs_waiting sc)\<rparr>))))
     else Inr sc)"

definition scan_step :: "(int \<times> int \<times> int, native_step) dict \<Rightarrow> native_block \<Rightarrow> block_scan \<Rightarrow> nat \<times> native_step \<Rightarrow> block_scan res" where
  "scan_step steps b sc entry = (case entry of (i, s) \<Rightarrow>
     bnd (scan_wait steps b i s sc) (\<lambda>sc.
     if nstep_kind s = ''nop'' then ensure (\<not> nstep_dep_tb s < 0) (SemanticError ''dependency-only NOP must carry a dependency'') (Inr sc)
     else ensure (\<not> (bs_waiting sc \<noteq> {} \<and> nstep_dep_tb s < 0))
         (SemanticError ''the final instruction of a NOP dependency chain must also carry a dependency'') (
       let deps = dict_get (bs_dependencies sc) (nstep_op s) {}
             \<union> (case bs_previous sc of None \<Rightarrow> {} | Some p \<Rightarrow> if p = nstep_op s then {} else {p}) \<union> bs_waiting sc in
       ensure (nstep_op s \<notin> deps) (SemanticError ''native operation depends on its own completion'') (
       Inr (sc\<lparr>bs_previous := Some (nstep_op s), bs_waiting := {}, bs_dependencies := AList.update (nstep_op s) deps (bs_dependencies sc),
               bs_by_op := AList.update (nstep_op s) (dict_get (bs_by_op sc) (nstep_op s) [] @ [(b, s)]) (bs_by_op sc)\<rparr>)))))"

definition scan_native_block :: "(int \<times> int \<times> int, native_step) dict \<Rightarrow> block_scan \<Rightarrow> native_block \<Rightarrow> block_scan res" where
  "scan_native_block steps sc b =
     bnd (for_each (scan_step steps b) (sc\<lparr>bs_previous := None, bs_waiting := {}\<rparr>) (enumerate 0 (nb_steps b))) (\<lambda>sc.
     ensure (bs_waiting sc = {}) (SemanticError ''a trailing NOP dependency chain has no native operation'') (Inr sc))"

definition check_members :: "string \<times> (native_block \<times> native_step) list \<Rightarrow> unit res" where
  "check_members entry = (case entry of (_, members) \<Rightarrow>
     if length members = 1 \<and> nstep_kind (snd (hd members)) \<in> {''cpy'', ''re''} then Inr ()
     else let send = filter (\<lambda>(b, s). nstep_kind s = ''s'') members; recv = filter (\<lambda>(b, s). nstep_kind s \<in> {''r'', ''rrc''}) members in
       ensure (\<not> (length members \<noteq> 2 \<or> length send \<noteq> length recv \<or> length send \<noteq> 1))
         (SemanticError ''physical transfer must have exactly one send and one matching receive'') (
       let sb = fst (hd send); rb = fst (hd recv) in
       ensure (\<not> (nb_send_peer sb \<noteq> nb_rank rb \<or> nb_recv_peer rb \<noteq> nb_rank sb \<or> nb_channel sb \<noteq> nb_channel rb))
         (SemanticError ''physical endpoint peers or channels do not match'') (Inr ())))"

type_synonym program_dependencies = "(string, string set) dict \<times> (string, (native_block \<times> native_step) list) dict"

definition execution_dependencies :: "native_program \<Rightarrow> program_dependencies res option" where
  "execution_dependencies prog =
     (case bnd (for_each (scan_native_block (program_steps prog)) \<lparr>bs_previous = None, bs_waiting = {}, bs_dependencies = [], bs_by_op = []\<rparr> (np_blocks prog)) (\<lambda>sc.
           bnd (check_each check_members (bs_by_op sc)) (\<lambda>_. Inr sc)) of
        Inl e \<Rightarrow> Some (Inl e)
      | Inr sc \<Rightarrow> (let deps = map (\<lambda>(k, _). (k, dict_get (bs_dependencies sc) k {})) (bs_by_op sc) in
          map_option (\<lambda>r. bnd r (\<lambda>_. Inr (deps, bs_by_op sc))) (dependency_order deps)))"

section \<open>Work operations\<close>

record work_operation =
  work_id :: string
  work_kind :: string
  cost_key :: "string option"
  payload_bytes :: int
  work_dependencies :: "string list"
  work_resources :: "string list"
  flow_id :: "string option"
  not_before_us :: rat
  source_override :: "string option"

definition work_operation_post_init :: "work_operation \<Rightarrow> work_operation res" where
  "work_operation_post_init w =
     ensure (work_id w \<noteq> '''') (SemanticError ''work operation needs an identity'') (
     ensure (source_override w \<in> {None, Some ''estimated''}) (SemanticError ''operation source may only downgrade a proxy cost to estimated'') (
     ensure (work_kind w \<in> {''send'', ''rrc'', ''copy'', ''reduce'', ''nop''}) (SemanticError ''unknown physical work kind'') (
     ensure (0 \<le> payload_bytes w) (SemanticError ''payload must be a nonnegative integer byte count'') (
     ensure (if work_kind w = ''nop'' then payload_bytes w = 0 \<and> cost_key w = None else True) (SemanticError ''NOP carries no data or service cost'') (
     ensure (if work_kind w \<noteq> ''nop'' then \<not> (payload_bytes w = 0 \<or> cost_key w = None \<or> cost_key w = Some '''') else True)
       (SemanticError ''data operation needs payload and a cost component'') (
     ensure (\<not> (work_kind w \<in> {''send'', ''rrc''} \<and> (flow_id w = None \<or> flow_id w = Some ''''))) (SemanticError ''communication needs a semantic flow identity'') (
     ensure (\<not> (work_kind w \<in> {''copy'', ''reduce'', ''nop''} \<and> work_resources w \<noteq> []))
       (SemanticError ''independent local operations do not use mixed communication resources'') (
     ensure ('''' \<notin> set (work_dependencies w) \<and> distinct (work_dependencies w)) (SemanticError ''invalid operation dependencies'') (
     ensure ('''' \<notin> set (work_resources w) \<and> distinct (work_resources w)) (SemanticError ''invalid operation resources'') (
     ensure (0 \<le> not_before_us w) (SemanticError ''hard release time must be finite and nonnegative'') (Inr w)))))))))))"

record executable =
  exec_operations :: "work_operation list"
  output_operations :: "string list"

definition executable_post_init :: "work_operation list \<Rightarrow> string list option \<Rightarrow> executable res" where
  "executable_post_init ops outs =
     (let ids = set (map work_id ops) in
      ensure (card ids = length ops) (SemanticError ''duplicate physical operation'') (
      ensure (\<not> (\<exists>op\<in>set ops. \<not> set (work_dependencies op) \<subseteq> ids)) (SemanticError ''unknown operation dependency'') (
      let outputs = (case outs of None \<Rightarrow> sorted_list_of_set ids | Some os \<Rightarrow> os) in
      ensure (set outputs \<subseteq> ids) (SemanticError ''unknown output operation'') (
      Inr \<lparr>exec_operations = ops, output_operations = sort outputs\<rparr>))))"

definition native_work :: "storage_plan \<Rightarrow> resolved_input \<Rightarrow> topology \<Rightarrow> (string, string set) dict \<Rightarrow> string \<times> instruction \<Rightarrow> work_operation res" where
  "native_work plan inputs topo deps entry = (case entry of (ident, ins) \<Rightarrow>
     bnd (input_address plan ins 0) (\<lambda>source.
     bnd (dict_item (addresses plan) (ins_output ins)) (\<lambda>destination.
     let suffix = str_int (addr_rank source) @ '':'' @ str_int (addr_rank destination) in
     bnd (if ins_kind ins \<in> {''send'', ''rrc''} then
            bnd (link_key_post_init (addr_rank source) (addr_rank destination)) (\<lambda>k. bnd (link topo k) (\<lambda>edge.
            Inr ((if ins_kind ins = ''rrc'' then ''rrc:'' else ''link:'') @ suffix,
                 sorted_list_of_set (insert (''link:'' @ suffix) (set (resource_ids edge))),
                 Some (ins_kind ins @ '':'' @ suffix @ '':c'' @ str_int (ins_channel ins)))))
          else Inr (ins_kind ins @ '':'' @ str_int (ins_rank ins), [], None)) (\<lambda>(cost, resources, flow).
     bnd (slice_bytes inputs) (\<lambda>sz.
     bnd (dict_item deps ident) (\<lambda>ds.
     work_operation_post_init \<lparr>work_id = ident, work_kind = ins_kind ins, cost_key = Some cost, payload_bytes = sz, work_dependencies = sorted_list_of_set ds,
       work_resources = resources, flow_id = flow, not_before_us = 0, source_override = None\<rparr>))))))"

text \<open>The averaging collectives end with one division pass per rank over its outputs.\<close>

definition postscale_work :: "native_program \<Rightarrow> int \<Rightarrow> int \<times> int \<Rightarrow> work_operation list res" where
  "postscale_work prog sz entry = (case entry of (rank, cnt) \<Rightarrow>
     if cnt = 0 then Inr []
     else let here = set (concat (map (\<lambda>b. map nstep_op (filter (\<lambda>s. nstep_kind s \<noteq> ''nop'') (nb_steps b))) (filter (\<lambda>b. nb_rank b = rank) (np_blocks prog)))) in
       bnd (work_operation_post_init \<lparr>work_id = ''native-postscale:'' @ str_int rank, work_kind = ''copy'', cost_key = Some (''copy:'' @ str_int rank),
         payload_bytes = cnt * sz, work_dependencies = sorted_list_of_set here, work_resources = [], flow_id = None, not_before_us = 0,
         source_override = Some ''estimated''\<rparr>) (\<lambda>w. Inr [w]))"

definition output_producers :: "storage_plan \<Rightarrow> string set res" where
  "output_producers plan = bnd (map_res (\<lambda>(_, sid). dict_item (plan_values plan) sid) (plan_outputs plan)) (\<lambda>vs. Inr (producers vs))"

definition assemble_executable :: "native_program \<Rightarrow> storage_plan \<Rightarrow> resolved_input \<Rightarrow> topology \<Rightarrow> program_dependencies \<Rightarrow> executable res" where
  "assemble_executable prog plan inputs topo pd =
     (case pd of (deps, endpoints) \<Rightarrow>
       let ins = dict_of (map (\<lambda>op. (ins_id op, op)) (instructions plan)) in
       ensure (set (dict_keys endpoints) = set (dict_keys ins)) (SemanticError ''native program and semantic operations do not have the same coverage'') (
       bnd (map_res (native_work plan inputs topo deps) ins) (\<lambda>work.
       bnd (output_producers plan) (\<lambda>prods.
       if reduction_op (collective inputs) = Some ''avg'' then
         bnd (slice_bytes inputs) (\<lambda>sz.
         bnd (map_res (postscale_work prog sz) (sort_key fst (np_output_slots prog))) (\<lambda>post.
         executable_post_init (work @ concat post) (Some (map work_id (concat post)))))
       else executable_post_init work (Some (sorted_list_of_set prods))))))"

definition build_executable :: "native_program \<Rightarrow> storage_plan \<Rightarrow> resolved_input \<Rightarrow> topology \<Rightarrow> executable res option" where
  "build_executable prog plan inputs topo = map_option (\<lambda>r. bnd r (assemble_executable prog plan inputs topo)) (execution_dependencies prog)"

section \<open>Capacity of a native program\<close>

definition native_shape :: "native_program \<Rightarrow> execution_shape" where
  "native_shape prog = \<lparr>es_rank_count = np_rank_count prog, es_channels = np_channels prog,
     es_blocks = map (\<lambda>b. \<lparr>bc_rank = nb_rank b, bc_tb_id = nb_tb_id b, bc_channel = nb_channel b, bc_send_peer = nb_send_peer b, bc_recv_peer = nb_recv_peer b,
       bc_steps = map (\<lambda>s. \<lparr>sc_kind = nstep_kind s, sc_src_offset = (case nstep_src s of None \<Rightarrow> -1 | Some a \<Rightarrow> addr_offset a),
         sc_dst_offset = (case nstep_dst s of None \<Rightarrow> -1 | Some a \<Rightarrow> addr_offset a), sc_dependency_tb = nstep_dep_tb s,
         sc_dependency_step = nstep_dep_step s, sc_count = nstep_count s\<rparr>) (nb_steps b)\<rparr>) (np_blocks prog),
     es_scratch_slots = np_scratch_slots prog, es_chunks_per_loop = Some (np_chunks_per_loop prog)\<rparr>"

definition native_capacity :: "native_program \<Rightarrow> runtime_limits \<Rightarrow> resolved_input \<Rightarrow> capacity_report res" where
  "native_capacity prog limits inputs =
     check_capacity (native_shape prog) limits (slice_size_bytes (hyper inputs)) (Some (EachRank (scratch_bytes_per_rank inputs)))"

end
