(* ===== verification/Native_Order.thy ===== *)
theory Native_Order
  imports Native_Program Storage_Delivers
begin

text \<open>
  \<^verbatim>\<open>lower_program\<close> drops waits that other waits and the order of the threadblock imply.  This theory shows that nothing is
  lost: on every rank the steps of an operation come after the steps of the operations it depends on.
\<close>

unbundle bit_operations_syntax

declare split_paired_All [simp del] split_paired_Ex [simp del]

section \<open>Names of steps\<close>

lemma str_int_no_colon: "CHR '':'' \<notin> set (str_int i)"
  using str_nat_digits [of "CHR '':''" "nat \<bar>i\<bar>"] by (auto simp: str_int_def of_char_def)

definition directions :: "string set" where
  "directions = {''send'', ''recv'', ''copy''}"

lemma direction_no_colon: "d \<in> directions \<Longrightarrow> CHR '':'' \<notin> set d"
  by (auto simp: directions_def)

lemma endpoint_id_inject:
  assumes "endpoint_id p d r = endpoint_id q e s" "d \<in> directions" "e \<in> directions"
  shows "p = q" "d = e" "r = s"
proof -
  have "(p @ '':'' @ d) @ CHR '':'' # str_int r = (q @ '':'' @ e) @ CHR '':'' # str_int s" using assms(1) by (simp add: endpoint_id_def)
  note a = split_last [OF str_int_no_colon str_int_no_colon this]
  then have "p @ CHR '':'' # d = q @ CHR '':'' # e" by simp
  note b = split_last [OF direction_no_colon [OF assms(2)] direction_no_colon [OF assms(3)] this]
  show "p = q" "d = e" "r = s" using a b by simp_all
qed

lemma nop_id_inject:
  assumes "nop_id p r i = nop_id q s j"
  shows "p = q" "r = s" "i = j"
proof -
  have "(p @ '':'' @ str_int r) @ CHR '':'' # str_int (int i) = (q @ '':'' @ str_int s) @ CHR '':'' # str_int (int j)"
    using assms by (simp add: nop_id_def)
  note a = split_last [OF str_int_no_colon str_int_no_colon this]
  then have "p @ CHR '':'' # str_int r = q @ CHR '':'' # str_int s" by simp
  note b = split_last [OF str_int_no_colon str_int_no_colon this]
  show "p = q" "r = s" "i = j" using a b by simp_all
qed

lemma str_int_direction: "d \<in> directions \<Longrightarrow> str_int r \<noteq> d"
proof
  assume d: "d \<in> directions" "str_int r = d"
  then have "hd d \<in> set (str_int r)" "hd d \<in> {CHR ''s'', CHR ''r'', CHR ''c''}" by (auto simp: directions_def)
  then show False using str_nat_digits [of "hd d" "nat \<bar>r\<bar>"] by (auto simp: str_int_def of_char_def split: if_splits)
qed

lemma endpoint_not_nop: "d \<in> directions \<Longrightarrow> endpoint_id p d r \<noteq> nop_id q s i"
proof
  assume d: "d \<in> directions" and "endpoint_id p d r = nop_id q s i"
  then have "(p @ '':'' @ d) @ CHR '':'' # str_int r = (''nop:'' @ q @ '':'' @ str_int s) @ CHR '':'' # str_int (int i)"
    by (simp add: endpoint_id_def nop_id_def)
  from split_last(1) [OF str_int_no_colon str_int_no_colon this]
  have "p @ CHR '':'' # d = (''nop:'' @ q) @ CHR '':'' # str_int s" by simp
  from split_last(2) [OF direction_no_colon [OF d] str_int_no_colon this] str_int_direction [OF d] show False by metis
qed

section \<open>Steps in order\<close>

text \<open>The steps a lowering has so far: its blocks by key, and the order the blocks and waits impose on step names.\<close>

abbreviation block_steps :: "lowering \<Rightarrow> block_key \<Rightarrow> native_step list" where
  "block_steps lw key \<equiv> dict_get (lw_blocks lw) key []"

fun chain :: "'a list \<Rightarrow> ('a \<times> 'a) set" where
  "chain (x # y # ys) = insert (x, y) (chain (y # ys))"
| "chain _ = {}"

definition step_edges :: "lowering \<Rightarrow> (string \<times> string) set" where
  "step_edges lw = (\<Union>key. chain (map nstep_id (block_steps lw key))) \<union> {(t, s). map_of (lw_waits lw) s = Some t}"

lemma chain_append1: "chain xs \<subseteq> chain (xs @ ys)"
  by (induction xs rule: chain.induct) auto

lemma chain_nth: "chain xs = {(xs ! i, xs ! Suc i) | i. Suc i < length xs}"
proof (induction xs rule: chain.induct)
  case (1 x y ys)
  have "{((x # y # ys) ! i, (x # y # ys) ! Suc i) | i. Suc i < length (x # y # ys)} =
    insert (x, y) {((y # ys) ! i, (y # ys) ! Suc i) | i. Suc i < length (y # ys)}" (is "?L = insert _ ?R")
  proof (intro equalityI subsetI)
    fix p assume "p \<in> ?L"
    then obtain i where i: "p = ((x # y # ys) ! i, (x # y # ys) ! Suc i)" "Suc i < length (x # y # ys)" by blast
    then show "p \<in> insert (x, y) ?R" by (cases i) auto
  next
    fix p assume "p \<in> insert (x, y) ?R"
    then consider "p = (x, y)" | i where "p = ((y # ys) ! i, (y # ys) ! Suc i)" "Suc i < length (y # ys)" by blast
    then show "p \<in> ?L"
    proof cases
      case 1
      then show ?thesis by (auto intro: exI [of _ 0])
    next
      case (2 i)
      then show ?thesis by (auto intro: exI [of _ "Suc i"])
    qed
  qed
  then show ?case using 1 by simp
qed auto

lemma chain_to_last: "x \<in> set xs \<Longrightarrow> (x, last xs) \<in> (chain xs)\<^sup>*"
proof (induction xs arbitrary: x rule: chain.induct)
  case (1 x' y ys)
  have mono: "(chain (y # ys))\<^sup>* \<subseteq> (chain (x' # y # ys))\<^sup>*" by (intro rtrancl_mono) auto
  have y: "(z, last (y # ys)) \<in> (chain (x' # y # ys))\<^sup>*" if "z \<in> set (y # ys)" for z using 1(1) [OF that] mono by blast
  have "(x', last (y # ys)) \<in> (chain (x' # y # ys))\<^sup>*" by (rule converse_rtrancl_into_rtrancl [OF _ y [of y]]) simp_all
  then show ?case using y [of x] 1(2) by auto
qed auto

section \<open>Choosing the waits\<close>

lemma bit_mask_zero: "(A :: int) AND push_bit n 1 = 0 \<longleftrightarrow> \<not> bit A n"
proof -
  have "A AND push_bit n 1 = (if bit A n then push_bit n 1 else 0)"
    by (rule bit_eqI) (auto simp: bit_and_iff bit_exp_iff)
  then show ?thesis by simp
qed

definition waits_cover :: "lowering \<Rightarrow> int \<Rightarrow> string list \<Rightarrow> string list \<Rightarrow> int \<Rightarrow> bool" where
  "waits_cover lw cov0 ts ws cov \<longleftrightarrow> set ws \<subseteq> set ts \<and> (\<forall>n. bit cov0 n \<longrightarrow> bit cov n)
     \<and> (\<forall>t\<in>set ts. \<forall>n. dict_get (lw_bits lw) t 0 = push_bit n 1 \<longrightarrow> bit cov n)
     \<and> (\<forall>n. bit cov n \<longrightarrow> bit cov0 n \<or> (\<exists>t\<in>set ws. bit (dict_get (lw_ancestors lw) t 0) n))"

lemma add_waits:
  assumes "\<And>t. t \<in> set ts \<Longrightarrow> \<exists>n. dict_get (lw_bits lw) t 0 = push_bit n 1 \<and> bit (dict_get (lw_ancestors lw) t 0) n"
    and "foldl (add_wait lw) ([], cov0) ts = (ws, cov)"
  shows "waits_cover lw cov0 ts ws cov"
  using assms
proof (induction ts arbitrary: ws cov rule: rev_induct)
  case (snoc t ts)
  obtain ws1 cov1 where one: "foldl (add_wait lw) ([], cov0) ts = (ws1, cov1)" by fastforce
  then have IH: "waits_cover lw cov0 ts ws1 cov1" using snoc by simp
  obtain n where n: "dict_get (lw_bits lw) t 0 = push_bit n 1" "bit (dict_get (lw_ancestors lw) t 0) n" using snoc.prems(1) by auto
  have last: "add_wait lw (ws1, cov1) t = (ws, cov)" using snoc.prems(2) one by simp
  have uniq: "m = n" if "(push_bit m 1 :: int) = push_bit n 1" for m using that by simp
  show ?case
  proof (cases "bit cov1 n")
    case True
    then have "ws = ws1" "cov = cov1" using last n(1) by (simp_all add: add_wait_def bit_mask_zero del: push_bit_of_1)
    then show ?thesis using IH True n(1) uniq unfolding waits_cover_def by auto
  next
    case False
    then have "ws = ws1 @ [t]" "cov = cov1 OR dict_get (lw_ancestors lw) t 0"
      using last n(1) by (simp_all add: add_wait_def bit_mask_zero del: push_bit_of_1)
    then show ?thesis using IH n uniq unfolding waits_cover_def by (auto simp: bit_or_iff)
  qed
qed (simp add: waits_cover_def)

lemma choose_waits_cover:
  assumes "\<And>t. t \<in> set targets \<Longrightarrow> \<exists>n. dict_get (lw_bits lw) t 0 = push_bit n 1 \<and> bit (dict_get (lw_ancestors lw) t 0) n"
    and "choose_waits lw key targets = (ws, cov)"
  shows "waits_cover lw (dict_get (lw_block_ancestors lw) key 0) targets ws cov"
  using add_waits [OF _ assms(2) [unfolded choose_waits_def]] assms(1) by (simp add: waits_cover_def)

section \<open>Appending to a block\<close>

definition append_items :: "block_key \<Rightarrow> (native_step \<times> string option) list \<Rightarrow> lowering \<Rightarrow> lowering" where
  "append_items key items lw = foldl (\<lambda>lw (step, wait). append_step key step wait lw) lw items"

definition endpoint_items :: "instruction \<Rightarrow> endpoint_spec \<Rightarrow> string list \<Rightarrow> (native_step \<times> string option) list" where
  "endpoint_items op ep ws =
     map (\<lambda>(i, t). (plain_step (nop_id (ins_id op) (ep_rank ep) i) (ins_id op) ''nop'' None None, Some t)) (enumerate 0 (butlast ws))
     @ [(plain_step (endpoint_id (ins_id op) (ep_direction ep) (ep_rank ep)) (ins_id op) (ep_kind ep) (Some (ep_source ep)) (Some (ep_destination ep)),
         if ws = [] then None else Some (last ws))]"

lemma append_nops_items:
  "foldl (append_nop key op rank) lw es = append_items key (map (\<lambda>(i, t). (plain_step (nop_id (ins_id op) rank i) (ins_id op) ''nop'' None None, Some t)) es) lw"
  by (induction es arbitrary: lw) (auto simp: append_items_def append_nop_def)

lemma lower_endpoint_items:
  assumes "choose_waits lw (block_key_of layout ep) (assigned (ep_rank ep)) = (ws, cov)"
  shows "lower_endpoint layout op assigned lw ep =
    record_endpoint (block_key_of layout ep) op (ep_rank ep) (endpoint_id (ins_id op) (ep_direction ep) (ep_rank ep)) cov
      (append_items (block_key_of layout ep) (endpoint_items op ep ws) lw)"
  using assms by (simp add: lower_endpoint_def endpoint_items_def append_nops_items Let_def) (simp add: append_items_def)

lemma append_items_simps [simp]:
  "lw_locations (append_items key items lw) = lw_locations lw" "lw_bits (append_items key items lw) = lw_bits lw"
  "lw_ancestors (append_items key items lw) = lw_ancestors lw" "lw_order (append_items key items lw) = lw_order lw"
  "lw_block_ancestors (append_items key items lw) = lw_block_ancestors lw" "lw_sequence (append_items key items lw) = lw_sequence lw"
  by (induction items arbitrary: lw) (auto simp: append_items_def append_step_def)

lemma append_items_Cons: "append_items key ((step, wait) # items) lw = append_items key items (append_step key step wait lw)"
  by (simp add: append_items_def)

lemma append_items_blocks: "block_steps (append_items key items lw) k = block_steps lw k @ (if k = key then map fst items else [])"
proof (induction items arbitrary: lw)
  case (Cons item items)
  obtain step wait where "item = (step, wait)" by fastforce
  then show ?case by (simp add: append_items_Cons Cons) (simp add: append_step_def)
qed (simp add: append_items_def)

lemma append_items_owner:
  "map_of (lw_owner (append_items key items lw)) x = (if x \<in> nstep_id ` fst ` set items then Some key else map_of (lw_owner lw) x)"
proof (induction items arbitrary: lw)
  case (Cons item items)
  obtain step wait where "item = (step, wait)" by fastforce
  then show ?case by (auto simp: append_items_Cons Cons) (auto simp: append_step_def update_conv')
qed (simp add: append_items_def)

lemma append_items_waits_old:
  "x \<notin> nstep_id ` fst ` set items \<Longrightarrow> map_of (lw_waits (append_items key items lw)) x = map_of (lw_waits lw) x"
proof (induction items arbitrary: lw)
  case (Cons item items)
  obtain step wait where "item = (step, wait)" by fastforce
  then show ?case using Cons by (auto simp: append_items_Cons) (auto simp: append_step_def update_conv' split: option.splits)
qed (simp add: append_items_def)

lemma append_items_waits:
  assumes "distinct (map (nstep_id \<circ> fst) items)" "(step, wait) \<in> set items" "map_of (lw_waits lw) (nstep_id step) = None"
  shows "map_of (lw_waits (append_items key items lw)) (nstep_id step) = wait"
  using assms
proof (induction items arbitrary: lw)
  case (Cons item items)
  obtain step' wait' where i: "item = (step', wait')" by fastforce
  let ?lw = "append_step key step' wait' lw"
  show ?case
  proof (cases "(step, wait) = item")
    case True
    then have "nstep_id step \<notin> nstep_id ` fst ` set items" using Cons.prems(1) by force
    then show ?thesis using append_items_waits_old [of "nstep_id step" items key ?lw] True i Cons.prems(3)
      by (auto simp: append_items_Cons) (auto simp: append_step_def update_conv' split: option.splits)
  next
    case False
    then have "(step, wait) \<in> set items" using Cons.prems(2) by auto
    moreover then have "nstep_id step \<noteq> nstep_id step'" using Cons.prems(1) i by force
    then have "map_of (lw_waits ?lw) (nstep_id step) = None"
      using Cons.prems(3) by (auto simp: append_step_def update_conv' split: option.splits)
    ultimately show ?thesis using Cons i by (auto simp: append_items_Cons)
  qed
qed simp

lemma append_items_wf: "wf_dict (lw_blocks lw) \<Longrightarrow> wf_dict (lw_blocks (append_items key items lw))"
proof (induction items arbitrary: lw)
  case (Cons item items)
  obtain step wait where "item = (step, wait)" by fastforce
  then show ?case using Cons by (auto simp: append_items_Cons append_step_def)
qed (simp add: append_items_def)

lemma endpoint_items_waits: "t \<in> set ws \<Longrightarrow> \<exists>step. (step, Some t) \<in> set (endpoint_items op ep ws)"
proof -
  assume t: "t \<in> set ws"
  then consider "t \<in> set (butlast ws)" | "t = last ws" by (metis append_butlast_last_id insert_iff list.set(2) list.set(1) empty_iff Un_iff set_append length_pos_if_in_set less_numeral_extra(3) list.size(3))
  then show ?thesis
  proof cases
    case 1
    then obtain i where "i < length (butlast ws)" "butlast ws ! i = t" by (metis in_set_conv_nth)
    then have "(i, t) \<in> set (enumerate 0 (butlast ws))" by (simp add: in_set_enumerate_eq)
    from imageI [OF this, of "\<lambda>(i, t). (plain_step (nop_id (ins_id op) (ep_rank ep) i) (ins_id op) ''nop'' None None, Some t)"]
    have "(plain_step (nop_id (ins_id op) (ep_rank ep) i) (ins_id op) ''nop'' None None, Some t) \<in> set (endpoint_items op ep ws)"
      unfolding endpoint_items_def set_append set_map by simp
    then show ?thesis by blast
  next
    case 2
    then show ?thesis using t by (auto simp: endpoint_items_def)
  qed
qed

section \<open>The invariant of the lowering\<close>

definition located :: "lowering \<Rightarrow> string \<Rightarrow> int \<Rightarrow> string \<Rightarrow> bool" where
  "located lw p r e \<longleftrightarrow> map_of (lw_locations lw) (p, r) = Some e"

text \<open>Every step has an owner and a name made of its operation and rank; the steps that are no NOPs are the recorded endpoints.\<close>

definition step_named :: "lowering \<Rightarrow> block_key \<Rightarrow> native_step \<Rightarrow> bool" where
  "step_named lw k s \<longleftrightarrow> map_of (lw_owner lw) (nstep_id s) = Some k \<and> (\<exists>e. located lw (nstep_op s) (fst k) e) \<and>
     (if nstep_kind s = ''nop'' then \<exists>i. nstep_id s = nop_id (nstep_op s) (fst k) i
      else (\<exists>d\<in>directions. nstep_id s = endpoint_id (nstep_op s) d (fst k)) \<and> located lw (nstep_op s) (fst k) (nstep_id s))"

definition steps_ok :: "lowering \<Rightarrow> bool" where
  "steps_ok lw \<longleftrightarrow> wf_dict (lw_blocks lw) \<and> (\<forall>k. distinct (map nstep_id (block_steps lw k)) \<and> (\<forall>s\<in>set (block_steps lw k). step_named lw k s))
     \<and> (\<forall>x k. map_of (lw_owner lw) x = Some k \<longrightarrow> x \<in> nstep_id ` set (block_steps lw k))
     \<and> (\<forall>p r e. located lw p r e \<longrightarrow> (\<exists>k s. s \<in> set (block_steps lw k) \<and> fst k = r \<and> nstep_op s = p \<and> nstep_id s = e \<and> nstep_kind s \<noteq> ''nop''))"

definition waits_ok :: "lowering \<Rightarrow> bool" where
  "waits_ok lw \<longleftrightarrow> (\<forall>s t. map_of (lw_waits lw) s = Some t \<longrightarrow> (\<exists>k q. map_of (lw_owner lw) s = Some k \<and> located lw q (fst k) t))"

text \<open>Every endpoint has its own bit on its rank, and an ancestor mask holds only bits that were given out.\<close>

definition masks_ok :: "lowering \<Rightarrow> bool" where
  "masks_ok lw \<longleftrightarrow> (\<forall>r. 0 \<le> dict_get (lw_sequence lw) r 0) \<and> (\<forall>p r e. located lw p r e \<longrightarrow>
     (\<exists>n. dict_get (lw_bits lw) e 0 = push_bit n 1 \<and> bit (dict_get (lw_ancestors lw) e 0) n) \<and>
     (\<forall>n. bit (dict_get (lw_ancestors lw) e 0) n \<longrightarrow> int n < dict_get (lw_sequence lw) r 0))"

text \<open>A bit in an ancestor mask stands for an endpoint that really comes first.\<close>

definition paths_ok :: "lowering \<Rightarrow> bool" where
  "paths_ok lw \<longleftrightarrow> (\<forall>p q r e f n. located lw p r e \<longrightarrow> located lw q r f \<longrightarrow> dict_get (lw_bits lw) f 0 = push_bit n 1 \<longrightarrow>
     bit (dict_get (lw_ancestors lw) e 0) n \<longrightarrow> (f, e) \<in> (step_edges lw)\<^sup>*)"

definition tails_ok :: "lowering \<Rightarrow> bool" where
  "tails_ok lw \<longleftrightarrow> (\<forall>k A. map_of (lw_block_ancestors lw) k = Some A \<longrightarrow> (\<exists>p. block_steps lw k \<noteq> [] \<and>
     located lw p (fst k) (nstep_id (last (block_steps lw k))) \<and> A = dict_get (lw_ancestors lw) (nstep_id (last (block_steps lw k))) 0))"

section \<open>One endpoint\<close>

lemma record_endpoint_simps [simp]:
  "lw_blocks (record_endpoint key op rank sid cov lw) = lw_blocks lw" "lw_owner (record_endpoint key op rank sid cov lw) = lw_owner lw"
  "lw_waits (record_endpoint key op rank sid cov lw) = lw_waits lw"
  by (simp_all add: record_endpoint_def Let_def)

lemma step_edges_record [simp]: "step_edges (record_endpoint key op rank sid cov lw) = step_edges lw"
  by (simp add: step_edges_def)

lemma located_record: "located (record_endpoint key op rank sid cov lw) p r e \<longleftrightarrow> (if p = ins_id op \<and> r = rank then e = sid else located lw p r e)"
  by (auto simp: located_def record_endpoint_def Let_def update_conv')

lemma located_append [simp]: "located (append_items key items lw) = located lw"
  by (simp add: fun_eq_iff located_def)

lemma dicts_record:
  "dict_get (lw_bits (record_endpoint key op rank sid cov lw)) e 0 = (if e = sid then push_bit (nat (dict_get (lw_sequence lw) rank 0)) 1 else dict_get (lw_bits lw) e 0)"
  "dict_get (lw_ancestors (record_endpoint key op rank sid cov lw)) e 0 =
     (if e = sid then cov OR push_bit (nat (dict_get (lw_sequence lw) rank 0)) 1 else dict_get (lw_ancestors lw) e 0)"
  "dict_get (lw_sequence (record_endpoint key op rank sid cov lw)) r 0 = dict_get (lw_sequence lw) r 0 + (if r = rank then 1 else 0)"
  "map_of (lw_block_ancestors (record_endpoint key op rank sid cov lw)) k =
     (if k = key then Some (cov OR push_bit (nat (dict_get (lw_sequence lw) rank 0)) 1) else map_of (lw_block_ancestors lw) k)"
  by (auto simp: record_endpoint_def Let_def update_conv')

text \<open>The names an endpoint adds are new.\<close>

definition new_names :: "instruction \<Rightarrow> endpoint_spec \<Rightarrow> string list \<Rightarrow> string set" where
  "new_names op ep ws = nstep_id ` fst ` set (endpoint_items op ep ws)"

lemma new_names_cases:
  assumes "x \<in> new_names op ep ws"
  obtains i where "x = nop_id (ins_id op) (ep_rank ep) i" | "x = endpoint_id (ins_id op) (ep_direction ep) (ep_rank ep)"
  using assms by (auto simp: new_names_def endpoint_items_def plain_step_def)

lemma steps_okD:
  assumes "steps_ok lw"
  shows "distinct (map nstep_id (block_steps lw k))" "s \<in> set (block_steps lw k) \<Longrightarrow> step_named lw k s"
    and "map_of (lw_owner lw) x = Some k \<Longrightarrow> x \<in> nstep_id ` set (block_steps lw k)"
  using assms by (simp_all add: steps_ok_def)

lemma new_names_fresh:
  assumes "steps_ok lw" "\<nexists>e. located lw (ins_id op) (ep_rank ep) e" "ep_direction ep \<in> directions" "x \<in> new_names op ep ws"
  shows "map_of (lw_owner lw) x = None"
proof (rule ccontr)
  assume "map_of (lw_owner lw) x \<noteq> None"
  then obtain k where "map_of (lw_owner lw) x = Some k" by auto
  from steps_okD(3) [OF assms(1) this] obtain s where s: "s \<in> set (block_steps lw k)" "x = nstep_id s" by auto
  note named = steps_okD(2) [OF assms(1) s(1)]
  from assms(4) have "nstep_op s = ins_id op \<and> fst k = ep_rank ep"
  proof (cases rule: new_names_cases)
    case (1 i)
    show ?thesis
    proof (cases "nstep_kind s = ''nop''")
      case True
      then obtain j where "nstep_id s = nop_id (nstep_op s) (fst k) j" using named by (auto simp: step_named_def)
      with 1 s(2) show ?thesis using nop_id_inject by metis
    next
      case False
      then obtain d where "d \<in> directions" "nstep_id s = endpoint_id (nstep_op s) d (fst k)" using named by (auto simp: step_named_def)
      with 1 s(2) show ?thesis using endpoint_not_nop by metis
    qed
  next
    case 2
    show ?thesis
    proof (cases "nstep_kind s = ''nop''")
      case True
      then obtain j where "nstep_id s = nop_id (nstep_op s) (fst k) j" using named by (auto simp: step_named_def)
      with 2 s(2) show ?thesis using endpoint_not_nop [OF assms(3)] by metis
    next
      case False
      then obtain d where d: "d \<in> directions" "nstep_id s = endpoint_id (nstep_op s) d (fst k)" using named by (auto simp: step_named_def)
      then have "endpoint_id (nstep_op s) d (fst k) = endpoint_id (ins_id op) (ep_direction ep) (ep_rank ep)" using 2 s(2) by simp
      from endpoint_id_inject [OF this d(1) assms(3)] show ?thesis by simp
    qed
  qed
  then show False using named assms(2) by (auto simp: step_named_def)
qed

lemma new_names_distinct:
  assumes "ep_direction ep \<in> directions"
  shows "distinct (map (nstep_id \<circ> fst) (endpoint_items op ep ws))"
proof -
  have "map (\<lambda>(i, t). nop_id (ins_id op) (ep_rank ep) i) (enumerate 0 (butlast ws)) = map (nop_id (ins_id op) (ep_rank ep)) (map fst (enumerate 0 (butlast ws)))"
    by (simp only: map_map comp_def split_def)
  moreover have "distinct (map (nop_id (ins_id op) (ep_rank ep)) (map fst (enumerate 0 (butlast ws))))"
    unfolding map_fst_enumerate distinct_map by (simp add: inj_on_def) (blast dest: nop_id_inject(3))
  ultimately have "distinct (map (\<lambda>(i, t). nop_id (ins_id op) (ep_rank ep) i) (enumerate 0 (butlast ws)))" by simp
  moreover have "map (nstep_id \<circ> fst) (endpoint_items op ep ws) =
      map (\<lambda>(i, t). nop_id (ins_id op) (ep_rank ep) i) (enumerate 0 (butlast ws)) @ [endpoint_id (ins_id op) (ep_direction ep) (ep_rank ep)]"
    by (simp only: endpoint_items_def plain_step_def map_append map_map comp_def split_def list.map fst_conv native_step.simps)
  moreover have "endpoint_id (ins_id op) (ep_direction ep) (ep_rank ep) \<notin> set (map (\<lambda>(i, t). nop_id (ins_id op) (ep_rank ep) i) (enumerate 0 (butlast ws)))"
    using endpoint_not_nop [OF assms] by (simp add: case_prod_beta image_iff)
  ultimately show ?thesis by simp
qed

text \<open>What one endpoint needs: its rank is new for the operation, and its waits are recorded endpoints of the rank.\<close>

definition endpoint_ready :: "lowering \<Rightarrow> instruction \<Rightarrow> endpoint_spec \<Rightarrow> string list \<Rightarrow> bool" where
  "endpoint_ready lw op ep ts \<longleftrightarrow> (\<nexists>e. located lw (ins_id op) (ep_rank ep) e) \<and> ep_direction ep \<in> directions \<and> ep_kind ep \<noteq> ''nop'' \<and>
     (\<forall>t\<in>set ts. \<exists>q. located lw q (ep_rank ep) t)"

abbreviation endpoint_name :: "instruction \<Rightarrow> endpoint_spec \<Rightarrow> string" where
  "endpoint_name op ep \<equiv> endpoint_id (ins_id op) (ep_direction ep) (ep_rank ep)"

abbreviation after_endpoint :: "block_key \<Rightarrow> instruction \<Rightarrow> endpoint_spec \<Rightarrow> string list \<Rightarrow> int \<Rightarrow> lowering \<Rightarrow> lowering" where
  "after_endpoint key op ep ws cov lw \<equiv> record_endpoint key op (ep_rank ep) (endpoint_name op ep) cov (append_items key (endpoint_items op ep ws) lw)"

lemma endpoint_name_new: "endpoint_name op ep \<in> new_names op ep ws"
  by (simp add: new_names_def endpoint_items_def plain_step_def)

lemma located_owner: "steps_ok lw \<Longrightarrow> located lw p r e \<Longrightarrow> \<exists>k. fst k = r \<and> map_of (lw_owner lw) e = Some k"
  unfolding steps_ok_def step_named_def by blast

lemma located_old:
  assumes "steps_ok lw" "endpoint_ready lw op ep ts" "located lw p r e"
  shows "e \<notin> new_names op ep ws"
  using new_names_fresh [OF assms(1)] assms(2) located_owner [OF assms(1,3)] by (fastforce simp: endpoint_ready_def)

lemma after_endpoint_located:
  assumes "endpoint_ready lw op ep ts" "located lw p r e"
  shows "located (after_endpoint key op ep ws cov lw) p r e"
  using assms by (auto simp: located_record endpoint_ready_def)

lemma item_named:
  assumes "step \<in> fst ` set (endpoint_items op ep ws)" "endpoint_ready lw op ep ts" "fst key = ep_rank ep"
  shows "step_named (after_endpoint key op ep ws cov lw) key step"
proof -
  have "map_of (lw_owner (after_endpoint key op ep ws cov lw)) (nstep_id step) = Some key"
    using assms(1) by (auto simp: append_items_owner)
  moreover have "(\<exists>i. step = plain_step (nop_id (ins_id op) (ep_rank ep) i) (ins_id op) ''nop'' None None) \<or>
      step = plain_step (endpoint_name op ep) (ins_id op) (ep_kind ep) (Some (ep_source ep)) (Some (ep_destination ep))"
    using assms(1) by (auto simp: endpoint_items_def)
  ultimately show ?thesis using assms(2,3)
    by (auto simp: step_named_def located_record endpoint_ready_def plain_step_def)
qed

lemma after_endpoint_old_named:
  assumes "steps_ok lw" "endpoint_ready lw op ep ts" "step_named lw k s" 
  shows "step_named (after_endpoint key op ep ws cov lw) k s"
proof -
  have "nstep_id s \<notin> new_names op ep ws"
    using new_names_fresh [OF assms(1)] assms(2,3) by (fastforce simp: endpoint_ready_def step_named_def)
  then have "map_of (lw_owner (after_endpoint key op ep ws cov lw)) (nstep_id s) = Some k"
    using assms(3) by (simp add: append_items_owner new_names_def step_named_def)
  then show ?thesis using assms(3) after_endpoint_located [OF assms(2), where key = key and ws = ws and cov = cov] unfolding step_named_def by (auto split: if_splits)
qed

lemma after_endpoint_steps:
  assumes "steps_ok lw" "endpoint_ready lw op ep ts" "fst key = ep_rank ep"
  shows "steps_ok (after_endpoint key op ep ws cov lw)" (is "steps_ok ?lw")
proof -
  let ?items = "endpoint_items op ep ws"
  have old: "\<forall>s\<in>set (block_steps lw k). step_named lw k s" "distinct (map nstep_id (block_steps lw k))" for k
    using assms(1) by (simp_all add: steps_ok_def)
  have blocks: "block_steps ?lw k = block_steps lw k @ (if k = key then map fst ?items else [])" for k
    by (simp add: append_items_blocks)
  have "wf_dict (lw_blocks ?lw)" using assms(1) append_items_wf by (simp add: steps_ok_def)
  moreover have "step_named ?lw k s" if "s \<in> set (block_steps ?lw k)" for k s
    using that old(1) [of k] item_named [OF _ assms(2,3), of s ws cov] after_endpoint_old_named [OF assms(1,2), where k = k and s = s and key = key and ws = ws and cov = cov] unfolding blocks
    by (auto split: if_splits simp: image_iff)
  moreover have "distinct (map nstep_id (block_steps ?lw k))" for k
  proof -
    have "nstep_id s \<notin> new_names op ep ws" if "s \<in> set (block_steps lw k)" for s
      using new_names_fresh [OF assms(1)] assms(2) old(1) [of k] that by (fastforce simp: endpoint_ready_def step_named_def)
    moreover have "distinct (map nstep_id (map fst ?items))" using new_names_distinct assms(2) by (simp add: endpoint_ready_def)
    ultimately show ?thesis using old(2) [of k] unfolding blocks by (auto simp: new_names_def image_image)
  qed
  moreover have "x \<in> nstep_id ` set (block_steps ?lw k)" if "map_of (lw_owner ?lw) x = Some k" for x k
  proof (cases "x \<in> nstep_id ` fst ` set ?items")
    case True
    then show ?thesis using that unfolding blocks by (auto simp: append_items_owner image_image)
  next
    case False
    then show ?thesis using that steps_okD(3) [OF assms(1), of x k] unfolding blocks by (auto simp: append_items_owner)
  qed
  moreover have "\<exists>k s. s \<in> set (block_steps ?lw k) \<and> fst k = r \<and> nstep_op s = p \<and> nstep_id s = e \<and> nstep_kind s \<noteq> ''nop''"
    if "located ?lw p r e" for p r e
  proof (cases "p = ins_id op \<and> r = ep_rank ep")
    case True
    let ?s = "plain_step (endpoint_name op ep) (ins_id op) (ep_kind ep) (Some (ep_source ep)) (Some (ep_destination ep))"
    have "?s \<in> set (block_steps ?lw key)" unfolding blocks by (simp add: endpoint_items_def)
    then show ?thesis using True that assms(2,3) by (intro exI [of _ key] exI [of _ ?s]) (auto simp: located_record plain_step_def endpoint_ready_def)
  next
    case False
    then have "located lw p r e" using that by (auto simp: located_record)
    then obtain k s where "s \<in> set (block_steps lw k)" "fst k = r" "nstep_op s = p" "nstep_id s = e" "nstep_kind s \<noteq> ''nop''"
      using assms(1) unfolding steps_ok_def by blast
    then show ?thesis unfolding blocks by (intro exI [of _ k] exI [of _ s]) auto
  qed
  ultimately show ?thesis by (simp add: steps_ok_def)
qed

lemma new_name_no_wait:
  assumes "steps_ok lw" "endpoint_ready lw op ep ts" "waits_ok lw" "x \<in> new_names op ep ws"
  shows "map_of (lw_waits lw) x = None"
proof (cases "map_of (lw_waits lw) x")
  case (Some t)
  then have "\<exists>k. map_of (lw_owner lw) x = Some k" using assms(3) unfolding waits_ok_def by blast
  then show ?thesis using new_names_fresh [OF assms(1) _ _ assms(4)] assms(2) by (simp add: endpoint_ready_def)
qed

lemma after_endpoint_waits:
  assumes "steps_ok lw" "endpoint_ready lw op ep ts" "fst key = ep_rank ep" "waits_ok lw" "set ws \<subseteq> set ts"
  shows "waits_ok (after_endpoint key op ep ws cov lw)" (is "waits_ok ?lw")
  unfolding waits_ok_def
proof (intro allI impI)
  fix s t assume t: "map_of (lw_waits ?lw) s = Some t"
  show "\<exists>k q. map_of (lw_owner ?lw) s = Some k \<and> located ?lw q (fst k) t"
  proof (cases "s \<in> new_names op ep ws")
    case True
    then obtain step wait where i: "(step, wait) \<in> set (endpoint_items op ep ws)" "s = nstep_id step" by (auto simp: new_names_def)
    note new_name_no_wait [OF assms(1,2,4) True]
    then have "wait = Some t" using append_items_waits [OF new_names_distinct i(1), of lw key] t i(2) assms(2) by (simp add: endpoint_ready_def)
    then have "t \<in> set ws" using i(1) by (auto simp: endpoint_items_def in_set_enumerate_eq nth_butlast split: if_splits)
    then obtain q where "located ?lw q (ep_rank ep) t"
      using assms(2,5) after_endpoint_located [OF assms(2), where key = key and ws = ws and cov = cov] unfolding endpoint_ready_def by blast
    then show ?thesis using True assms(3) by (intro exI [of _ key] exI [of _ q]) (simp add: append_items_owner new_names_def)
  next
    case False
    then have "map_of (lw_waits lw) s = Some t" using t append_items_waits_old by (simp add: new_names_def)
    then obtain k q where "map_of (lw_owner lw) s = Some k" "located lw q (fst k) t" using assms(4) unfolding waits_ok_def by blast
    then show ?thesis using False after_endpoint_located [OF assms(2)] by (intro exI [of _ k] exI [of _ q]) (simp add: append_items_owner new_names_def)
  qed
qed

lemma after_endpoint_edges:
  assumes "steps_ok lw" "endpoint_ready lw op ep ts" "waits_ok lw"
  shows "step_edges lw \<subseteq> step_edges (after_endpoint key op ep ws cov lw)"
proof -
  have "map_of (lw_waits (append_items key (endpoint_items op ep ws) lw)) s = Some t" if "map_of (lw_waits lw) s = Some t" for s t
  proof -
    have "s \<notin> new_names op ep ws"
      using that new_name_no_wait [OF assms, of s ws] by auto
    then show ?thesis using that append_items_waits_old by (simp add: new_names_def)
  qed
  moreover have "chain (map nstep_id (block_steps lw k)) \<subseteq> chain (map nstep_id (block_steps (append_items key (endpoint_items op ep ws) lw) k))" for k
    using chain_append1 by (auto simp: append_items_blocks)
  ultimately show ?thesis by (fastforce simp: step_edges_def)
qed

text \<open>Everything in the block comes before the new endpoint, and so does everything it waits for.\<close>

lemma after_endpoint_last:
  "block_steps (after_endpoint key op ep ws cov lw) key \<noteq> []"
  "nstep_id (last (block_steps (after_endpoint key op ep ws cov lw) key)) = endpoint_name op ep"
  "last (map nstep_id (block_steps (after_endpoint key op ep ws cov lw) key)) = endpoint_name op ep"
  by (simp_all add: append_items_blocks endpoint_items_def plain_step_def)

lemma block_before_endpoint:
  assumes "x \<in> nstep_id ` set (block_steps (after_endpoint key op ep ws cov lw) key)"
  shows "(x, endpoint_name op ep) \<in> (step_edges (after_endpoint key op ep ws cov lw))\<^sup>*"
proof -
  let ?xs = "map nstep_id (block_steps (after_endpoint key op ep ws cov lw) key)"
  have "(x, last ?xs) \<in> (chain ?xs)\<^sup>*" using assms by (intro chain_to_last) simp
  moreover have "(chain ?xs)\<^sup>* \<subseteq> (step_edges (after_endpoint key op ep ws cov lw))\<^sup>*" by (rule rtrancl_mono) (auto simp: step_edges_def)
  ultimately show ?thesis unfolding after_endpoint_last by blast
qed

lemma wait_before_endpoint:
  assumes "steps_ok lw" "endpoint_ready lw op ep ts" "waits_ok lw" "t \<in> set ws"
  shows "(t, endpoint_name op ep) \<in> (step_edges (after_endpoint key op ep ws cov lw))\<^sup>*"
proof -
  obtain step where i: "(step, Some t) \<in> set (endpoint_items op ep ws)" using endpoint_items_waits [OF assms(4)] by blast
  then have new: "nstep_id step \<in> new_names op ep ws" by (force simp: new_names_def)
  from new_name_no_wait [OF assms(1-3) new] have "map_of (lw_waits (after_endpoint key op ep ws cov lw)) (nstep_id step) = Some t"
    using append_items_waits [OF new_names_distinct i, of lw key] assms(2) by (simp add: endpoint_ready_def)
  then have "(t, nstep_id step) \<in> step_edges (after_endpoint key op ep ws cov lw)" by (simp add: step_edges_def)
  moreover have "step \<in> set (block_steps (after_endpoint key op ep ws cov lw) key)" using i by (force simp: append_items_blocks)
  ultimately show ?thesis using block_before_endpoint by (meson converse_rtrancl_into_rtrancl imageI)
qed

text \<open>The mask of a new endpoint.\<close>

lemma covered_bits:
  assumes "waits_cover lw (dict_get (lw_block_ancestors lw) key 0) ts ws cov" "tails_ok lw" "endpoint_ready lw op ep ts" "fst key = ep_rank ep" "bit cov n"
  obtains p e where "located lw p (ep_rank ep) e" "bit (dict_get (lw_ancestors lw) e 0) n" "e \<in> nstep_id ` set (block_steps lw key) \<or> e \<in> set ws"
proof -
  consider "bit (dict_get (lw_block_ancestors lw) key 0) n" | t where "t \<in> set ws" "t \<in> set ts" "bit (dict_get (lw_ancestors lw) t 0) n"
    using assms(1,5) unfolding waits_cover_def by blast
  then show thesis
  proof cases
    case 1
    then obtain A where A: "map_of (lw_block_ancestors lw) key = Some A" "bit A n" by (auto simp: dict_get_def split: option.splits)
    then obtain p where p: "block_steps lw key \<noteq> []" "located lw p (fst key) (nstep_id (last (block_steps lw key)))"
        "A = dict_get (lw_ancestors lw) (nstep_id (last (block_steps lw key))) 0"
      using assms(2) unfolding tails_ok_def by blast
    show thesis by (rule that [of p "nstep_id (last (block_steps lw key))"]) (use p A assms(4) in auto)
  next
    case (2 t)
    then obtain q where "located lw q (ep_rank ep) t" using assms(3) unfolding endpoint_ready_def by blast
    then show thesis using that 2 by blast
  qed
qed

lemma located_after_cases:
  assumes "located (after_endpoint key op ep ws cov lw) p r e"
  obtains "p = ins_id op" "r = ep_rank ep" "e = endpoint_name op ep" | "located lw p r e"
  using assms by (auto simp: located_record split: if_splits)

lemma located_not_new:
  assumes "steps_ok lw" "endpoint_ready lw op ep ts" "located lw p r e"
  shows "e \<noteq> endpoint_name op ep"
  using located_old [OF assms] endpoint_name_new by blast

lemma after_endpoint_masks:
  assumes "steps_ok lw" "endpoint_ready lw op ep ts" "fst key = ep_rank ep" "masks_ok lw" "tails_ok lw"
    and "waits_cover lw (dict_get (lw_block_ancestors lw) key 0) ts ws cov"
  shows "masks_ok (after_endpoint key op ep ws cov lw)" (is "masks_ok ?lw")
proof -
  let ?seq = "dict_get (lw_sequence lw) (ep_rank ep) 0"
  have seq: "0 \<le> dict_get (lw_sequence lw) r 0" for r using assms(4) by (simp add: masks_ok_def)
  have cov: "int n < ?seq" if "bit cov n" for n
  proof -
    from covered_bits [OF assms(6,5,2,3) that] obtain p e where "located lw p (ep_rank ep) e" "bit (dict_get (lw_ancestors lw) e 0) n" by blast
    then show ?thesis using assms(4) unfolding masks_ok_def by blast
  qed
  have "(\<exists>n. dict_get (lw_bits ?lw) e 0 = push_bit n 1 \<and> bit (dict_get (lw_ancestors ?lw) e 0) n) \<and>
      (\<forall>n. bit (dict_get (lw_ancestors ?lw) e 0) n \<longrightarrow> int n < dict_get (lw_sequence ?lw) r 0)" if "located ?lw p r e" for p r e
    using that
  proof (cases rule: located_after_cases)
    case 1
    have "bit (push_bit (nat ?seq) (1 :: int)) n \<longleftrightarrow> n = nat ?seq" for n by (auto simp: bit_exp_iff)
    then show ?thesis using 1 cov seq [of "ep_rank ep"] by (auto simp: dicts_record bit_or_iff simp del: push_bit_of_1 dest!: cov)
  next
    case 2
    have "e \<noteq> endpoint_name op ep" using located_not_new [OF assms(1,2) 2] .
    moreover have "(\<exists>n. dict_get (lw_bits lw) e 0 = push_bit n 1 \<and> bit (dict_get (lw_ancestors lw) e 0) n)"
      and "int n < dict_get (lw_sequence lw) r 0" if "bit (dict_get (lw_ancestors lw) e 0) n" for n
      using assms(4) 2 that unfolding masks_ok_def by blast+
    ultimately show ?thesis using 2 assms(4) unfolding masks_ok_def
      by (auto simp: dicts_record simp del: push_bit_of_1 intro: less_imp_le)
  qed
  then show ?thesis using seq by (simp add: masks_ok_def dicts_record)
qed

lemma after_endpoint_tails:
  assumes "steps_ok lw" "endpoint_ready lw op ep ts" "fst key = ep_rank ep" "tails_ok lw"
  shows "tails_ok (after_endpoint key op ep ws cov lw)" (is "tails_ok ?lw")
  unfolding tails_ok_def
proof (intro allI impI)
  fix k A assume A: "map_of (lw_block_ancestors ?lw) k = Some A"
  show "\<exists>p. block_steps ?lw k \<noteq> [] \<and> located ?lw p (fst k) (nstep_id (last (block_steps ?lw k))) \<and> A = dict_get (lw_ancestors ?lw) (nstep_id (last (block_steps ?lw k))) 0"
  proof (cases "k = key")
    case True
    then show ?thesis using A assms(3) after_endpoint_last(1) unfolding True after_endpoint_last
      by (intro exI [of _ "ins_id op"]) (simp add: dicts_record located_record)
  next
    case False
    then have same: "block_steps ?lw k = block_steps lw k" by (simp add: append_items_blocks)
    have "map_of (lw_block_ancestors lw) k = Some A" using A False by (simp add: dicts_record)
    then obtain p where p: "block_steps lw k \<noteq> []" "located lw p (fst k) (nstep_id (last (block_steps lw k)))"
        "A = dict_get (lw_ancestors lw) (nstep_id (last (block_steps lw k))) 0"
      using assms(4) unfolding tails_ok_def by blast
    then show ?thesis unfolding same
      using after_endpoint_located [OF assms(2) p(2), where key = key and ws = ws and cov = cov] located_not_new [OF assms(1,2) p(2)]
      by (intro exI [of _ p]) (simp add: dicts_record)
  qed
qed

lemma after_endpoint_paths:
  assumes "steps_ok lw" "endpoint_ready lw op ep ts" "fst key = ep_rank ep" "waits_ok lw" "masks_ok lw" "tails_ok lw" "paths_ok lw"
    and "waits_cover lw (dict_get (lw_block_ancestors lw) key 0) ts ws cov"
  shows "paths_ok (after_endpoint key op ep ws cov lw)" (is "paths_ok ?lw")
proof -
  let ?seq = "dict_get (lw_sequence lw) (ep_rank ep) 0"
  note mono = rtrancl_mono [OF after_endpoint_edges [OF assms(1,2,4), where key = key and ws = ws and cov = cov]]
  have old: "(f, e) \<in> (step_edges ?lw)\<^sup>*" if "located lw p r e" "located lw q r f" "dict_get (lw_bits lw) f 0 = push_bit n 1"
      "bit (dict_get (lw_ancestors lw) e 0) n" for p q r e f n
    using that assms(7) mono unfolding paths_ok_def by blast
  have used: "n < nat ?seq" if f: "located lw q (ep_rank ep) f" "dict_get (lw_bits lw) f 0 = push_bit n 1" for q f n
  proof -
    from f(1) assms(5) obtain m where "dict_get (lw_bits lw) f 0 = push_bit m 1" "int m < ?seq" unfolding masks_ok_def by blast
    then show ?thesis using f(2) by auto
  qed
  have "(f, e) \<in> (step_edges ?lw)\<^sup>*" if e: "located ?lw p r e" and f: "located ?lw q r f"
    and bits: "dict_get (lw_bits ?lw) f 0 = push_bit n 1" "bit (dict_get (lw_ancestors ?lw) e 0) n" for p q r e f n
    using e
  proof (cases rule: located_after_cases)
    case 1
    from f show ?thesis
    proof (cases rule: located_after_cases)
      case 1
      then show ?thesis using \<open>e = endpoint_name op ep\<close> by simp
    next
      case 2
      have fb: "dict_get (lw_bits lw) f 0 = push_bit n 1" using bits(1) located_not_new [OF assms(1,2) 2] by (simp add: dicts_record)
      then have "n \<noteq> nat ?seq" using used 2 1(2) by blast
      then have "bit cov n" using bits(2) 1(3) by (auto simp: dicts_record bit_or_iff bit_exp_iff)
      from covered_bits [OF assms(8,6,2,3) this] obtain p' e' where e': "located lw p' (ep_rank ep) e'" "bit (dict_get (lw_ancestors lw) e' 0) n"
        "e' \<in> nstep_id ` set (block_steps lw key) \<or> e' \<in> set ws" by blast
      have "(f, e') \<in> (step_edges ?lw)\<^sup>*" by (rule old [OF e'(1) _ fb e'(2)]) (use 2 1 in simp)
      moreover have "(e', e) \<in> (step_edges ?lw)\<^sup>*"
        using e'(3) block_before_endpoint [where x = e' and key = key and op = op and ep = ep and ws = ws and cov = cov and lw = lw]
          wait_before_endpoint [OF assms(1,2,4), where t = e' and ws = ws and key = key and cov = cov] 1(3)
        by (auto simp: append_items_blocks)
      ultimately show ?thesis by (rule rtrancl_trans)
    qed
  next
    case e: 2
    have eb: "bit (dict_get (lw_ancestors lw) e 0) n" using bits(2) located_not_new [OF assms(1,2) e] by (simp add: dicts_record)
    from f show ?thesis
    proof (cases rule: located_after_cases)
      case 1
      have "int n < ?seq" using eb e 1(2) assms(5) unfolding masks_ok_def by blast
      moreover have "n = nat ?seq" using bits(1) 1(3) by (simp add: dicts_record)
      ultimately show ?thesis by linarith
    next
      case 2
      then have "dict_get (lw_bits lw) f 0 = push_bit n 1" using bits(1) located_not_new [OF assms(1,2) 2] by (simp add: dicts_record)
      from old [OF e 2 this eb] show ?thesis .
    qed
  qed
  then show ?thesis unfolding paths_ok_def by blast
qed

definition lowering_ok :: "lowering \<Rightarrow> bool" where
  "lowering_ok lw \<longleftrightarrow> steps_ok lw \<and> waits_ok lw \<and> masks_ok lw \<and> tails_ok lw \<and> paths_ok lw"

text \<open>Recorded endpoints keep their name, bit and ancestors.\<close>

definition extends :: "lowering \<Rightarrow> lowering \<Rightarrow> bool" where
  "extends lw lw' \<longleftrightarrow> (\<forall>p r e. located lw p r e \<longrightarrow> located lw' p r e \<and> dict_get (lw_bits lw') e 0 = dict_get (lw_bits lw) e 0 \<and>
     dict_get (lw_ancestors lw') e 0 = dict_get (lw_ancestors lw) e 0) \<and> (\<forall>k. set (block_steps lw k) \<subseteq> set (block_steps lw' k))"

definition endpoint_step :: "instruction \<Rightarrow> endpoint_spec \<Rightarrow> native_step" where
  "endpoint_step op ep = plain_step (endpoint_name op ep) (ins_id op) (ep_kind ep) (Some (ep_source ep)) (Some (ep_destination ep))"

lemma extends_refl: "extends lw lw"
  by (simp add: extends_def)

lemma extendsD:
  assumes "extends lw lw'"
  shows "located lw p r e \<Longrightarrow> located lw' p r e" "located lw p r e \<Longrightarrow> dict_get (lw_bits lw') e 0 = dict_get (lw_bits lw) e 0"
    "located lw p r e \<Longrightarrow> dict_get (lw_ancestors lw') e 0 = dict_get (lw_ancestors lw) e 0" "s \<in> set (block_steps lw k) \<Longrightarrow> s \<in> set (block_steps lw' k)"
  using assms unfolding extends_def by blast+

lemma extends_trans:
  assumes "extends a b" "extends b c"
  shows "extends a c"
  unfolding extends_def using extendsD [OF assms(1)] extendsD [OF assms(2)] by (intro conjI allI impI subsetI) (meson, metis, metis, meson)

definition covers :: "lowering \<Rightarrow> string list \<Rightarrow> string \<Rightarrow> bool" where
  "covers lw ts e \<longleftrightarrow> (\<forall>t\<in>set ts. \<forall>n. dict_get (lw_bits lw) t 0 = push_bit n 1 \<longrightarrow> bit (dict_get (lw_ancestors lw) e 0) n)"

lemma block_key_rank [simp]: "fst (block_key_of layout ep) = ep_rank ep"
  by (simp add: block_key_of_def)

lemma lower_endpoint_ok:
  assumes "lowering_ok lw" "endpoint_ready lw op ep (assigned (ep_rank ep))"
    and out: "lw' = lower_endpoint layout op assigned lw ep"
  shows "lowering_ok lw'" "extends lw lw'"
    "located lw' p r e \<longleftrightarrow> (if p = ins_id op \<and> r = ep_rank ep then e = endpoint_name op ep else located lw p r e)"
    "covers lw' (assigned (ep_rank ep)) (endpoint_name op ep)" "endpoint_step op ep \<in> set (block_steps lw' (block_key_of layout ep))"
proof -
  let ?key = "block_key_of layout ep" and ?ts = "assigned (ep_rank ep)"
  note ok = assms(1) [unfolded lowering_ok_def]
  then have parts: "steps_ok lw" "waits_ok lw" "masks_ok lw" "tails_ok lw" "paths_ok lw" by simp_all
  obtain ws cov where w: "choose_waits lw ?key ?ts = (ws, cov)" by fastforce
  have bits: "\<exists>n. dict_get (lw_bits lw) t 0 = push_bit n 1 \<and> bit (dict_get (lw_ancestors lw) t 0) n" if "t \<in> set ?ts" for t
    using that assms(2) parts(3) unfolding endpoint_ready_def masks_ok_def by blast
  note cover = choose_waits_cover [OF bits w]
  then have "set ws \<subseteq> set ?ts" by (simp add: waits_cover_def)
  have lw': "lw' = after_endpoint ?key op ep ws cov lw" using lower_endpoint_items [where assigned = assigned, OF w] by (simp add: out)
  show "lowering_ok lw'" unfolding lw' lowering_ok_def
    using after_endpoint_steps [OF parts(1) assms(2), of ?key] after_endpoint_waits [OF parts(1) assms(2) _ parts(2) \<open>set ws \<subseteq> set ?ts\<close>, of ?key]
      after_endpoint_masks [OF parts(1) assms(2) _ parts(3,4) cover] after_endpoint_tails [OF parts(1) assms(2) _ parts(4), of ?key]
      after_endpoint_paths [OF parts(1) assms(2) _ parts(2-5) cover] by simp
  show loc: "located lw' p r e \<longleftrightarrow> (if p = ins_id op \<and> r = ep_rank ep then e = endpoint_name op ep else located lw p r e)" for p r e
    by (simp add: lw' located_record)
  have old: "dict_get (lw_bits lw') e 0 = dict_get (lw_bits lw) e 0 \<and> dict_get (lw_ancestors lw') e 0 = dict_get (lw_ancestors lw) e 0"
    if "located lw p r e" for p r e
    using located_not_new [OF parts(1) assms(2) that] by (simp add: lw' dicts_record)
  moreover have "set (block_steps lw k) \<subseteq> set (block_steps lw' k)" for k by (simp add: lw' append_items_blocks)
  ultimately show "extends lw lw'" unfolding extends_def loc using assms(2) by (auto simp: endpoint_ready_def)
  show "endpoint_step op ep \<in> set (block_steps lw' ?key)" by (simp add: lw' append_items_blocks endpoint_items_def endpoint_step_def)
  show "covers lw' ?ts (endpoint_name op ep)" unfolding covers_def
  proof (intro ballI allI impI)
    fix t n assume t: "t \<in> set ?ts" "dict_get (lw_bits lw') t 0 = push_bit n 1"
    then obtain q where q: "located lw q (ep_rank ep) t" using assms(2) unfolding endpoint_ready_def by blast
    then have "bit cov n" using cover t old [OF q] by (simp add: waits_cover_def del: push_bit_of_1)
    then show "bit (dict_get (lw_ancestors lw') (endpoint_name op ep) 0) n" by (simp add: lw' dicts_record bit_or_iff)
  qed
qed

lemma covers_extends:
  assumes "covers lw ts e" "extends lw lw'" "located lw p r e" "\<forall>t\<in>set ts. \<exists>q. located lw q r t"
  shows "covers lw' ts e"
proof -
  have "dict_get (lw_ancestors lw') e 0 = dict_get (lw_ancestors lw) e 0" "\<forall>t\<in>set ts. dict_get (lw_bits lw') t 0 = dict_get (lw_bits lw) t 0"
    using assms(2-4) unfolding extends_def by blast+
  then show ?thesis using assms(1) by (simp add: covers_def del: push_bit_of_1)
qed

section \<open>One instruction\<close>

lemma lower_endpoints_ok:
  assumes "lowering_ok lw" "\<forall>ep\<in>set eps. endpoint_ready lw op ep (assigned (ep_rank ep))" "distinct (map ep_rank eps)"
  shows "lowering_ok (foldl (lower_endpoint layout op assigned) lw eps) \<and> extends lw (foldl (lower_endpoint layout op assigned) lw eps) \<and>
    (\<forall>p r e. located (foldl (lower_endpoint layout op assigned) lw eps) p r e \<longrightarrow> located lw p r e \<or> (p = ins_id op \<and> r \<in> ep_rank ` set eps)) \<and>
    (\<forall>ep\<in>set eps. located (foldl (lower_endpoint layout op assigned) lw eps) (ins_id op) (ep_rank ep) (endpoint_name op ep) \<and>
       covers (foldl (lower_endpoint layout op assigned) lw eps) (assigned (ep_rank ep)) (endpoint_name op ep) \<and>
       endpoint_step op ep \<in> set (block_steps (foldl (lower_endpoint layout op assigned) lw eps) (block_key_of layout ep)))"
  using assms
proof (induction eps arbitrary: lw)
  case (Cons ep eps)
  let ?lw = "lower_endpoint layout op assigned lw ep" and ?fin = "foldl (lower_endpoint layout op assigned) (lower_endpoint layout op assigned lw ep) eps"
  have ready: "endpoint_ready lw op ep (assigned (ep_rank ep))" using Cons.prems(2) by simp
  note one = lower_endpoint_ok [where assigned = assigned and layout = layout, OF Cons.prems(1) ready refl]
  have "\<forall>ep'\<in>set eps. endpoint_ready ?lw op ep' (assigned (ep_rank ep'))"
  proof
    fix ep' assume ep': "ep' \<in> set eps"
    then have r: "endpoint_ready lw op ep' (assigned (ep_rank ep'))" "ep_rank ep' \<noteq> ep_rank ep" using Cons.prems(2,3) ep' by (auto simp: image_iff)
    then show "endpoint_ready ?lw op ep' (assigned (ep_rank ep'))"
      using extendsD(1) [OF one(2)] unfolding endpoint_ready_def one(3) by (auto split: if_splits)
  qed
  then have IH: "lowering_ok ?fin" "extends ?lw ?fin" "\<forall>p r e. located ?fin p r e \<longrightarrow> located ?lw p r e \<or> (p = ins_id op \<and> r \<in> ep_rank ` set eps)"
    "\<forall>ep\<in>set eps. located ?fin (ins_id op) (ep_rank ep) (endpoint_name op ep) \<and> covers ?fin (assigned (ep_rank ep)) (endpoint_name op ep) \<and>
      endpoint_step op ep \<in> set (block_steps ?fin (block_key_of layout ep))"
    using Cons.IH [OF one(1)] Cons.prems(3) by auto
  have here: "located ?lw (ins_id op) (ep_rank ep) (endpoint_name op ep)" using one(3) by simp
  have "covers ?fin (assigned (ep_rank ep)) (endpoint_name op ep)"
    by (rule covers_extends [OF one(4) IH(2) here]) (use ready extendsD(1) [OF one(2)] in \<open>unfold endpoint_ready_def, blast\<close>)
  moreover have "located ?fin (ins_id op) (ep_rank ep) (endpoint_name op ep)" using extendsD(1) [OF IH(2) here] .
  moreover have "endpoint_step op ep \<in> set (block_steps ?fin (block_key_of layout ep))" using extendsD(4) [OF IH(2) one(5)] .
  moreover have "extends lw ?fin" using extends_trans [OF one(2) IH(2)] .
  moreover have "\<forall>p r e. located ?fin p r e \<longrightarrow> located lw p r e \<or> (p = ins_id op \<and> r \<in> ep_rank ` set (ep # eps))"
    using IH(3) unfolding one(3) by (auto split: if_splits)
  ultimately show ?case using IH(1,4) by simp
qed (simp add: extends_refl)

lemma assign_waits_targets:
  assumes "for_each (\<lambda>assigned p. assign_waits lw ranks op p assigned) (\<lambda>_. []) ps = Inr assigned"
  shows "(\<forall>r. set (assigned r) = {e. r \<in> ranks \<and> (\<exists>p\<in>set ps. located lw p r e)}) \<and> (\<forall>p\<in>set ps. \<exists>r e. located lw p r e)"
  using assms
proof (rule for_each_inv_prefix [where I = "\<lambda>ps assigned. (\<forall>r. set (assigned r) = {e. r \<in> ranks \<and> (\<exists>p\<in>set ps. located lw p r e)}) \<and>
    (\<forall>p\<in>set ps. \<exists>r e. located lw p r e)"])
  fix pre p post a a'
  assume I: "(\<forall>r. set (a r) = {e. r \<in> ranks \<and> (\<exists>p\<in>set pre. located lw p r e)}) \<and> (\<forall>p\<in>set pre. \<exists>r e. located lw p r e)"
    and step: "assign_waits lw ranks op p a = Inr a'"
  let ?C = "Set.filter (\<lambda>rank. map_of (lw_locations lw) (p, rank) \<noteq> None) ranks"
  have C: "?C \<noteq> {}" "a' = (\<lambda>rank. a rank @ (if rank \<in> ?C then [the (map_of (lw_locations lw) (p, rank))] else []))"
    using step by (auto simp: assign_waits_def Let_def res_simps)
  have "(if r \<in> ?C then {the (map_of (lw_locations lw) (p, r))} else {}) = {e. r \<in> ranks \<and> located lw p r e}" for r
    by (auto simp: located_def)
  then have "set (a' r) = {e. r \<in> ranks \<and> (\<exists>p\<in>set (pre @ [p]). located lw p r e)}" for r
    using I unfolding C(2) by (auto simp: located_def)
  moreover have "\<exists>r e. located lw p r e" using C(1) by (auto simp: located_def)
  ultimately show "(\<forall>r. set (a' r) = {e. r \<in> ranks \<and> (\<exists>p\<in>set (pre @ [p]). located lw p r e)}) \<and> (\<forall>p\<in>set (pre @ [p]). \<exists>r e. located lw p r e)"
    using I by auto
qed simp

text \<open>A transfer between two ranks has one endpoint on each.\<close>

definition remote_transfer :: "storage_plan \<Rightarrow> instruction \<Rightarrow> bool" where
  "remote_transfer plan op \<longleftrightarrow> ins_kind op = ''copy'' \<or>
     (case (input_address plan op 0, dict_item (addresses plan) (ins_output op)) of (Inr s, Inr d) \<Rightarrow> addr_rank s \<noteq> addr_rank d | _ \<Rightarrow> True)"

lemma native_endpoints_shape:
  assumes "native_endpoints op plan = Inr eps" "remote_transfer plan op"
  shows "distinct (map ep_rank eps) \<and> (\<forall>ep\<in>set eps. ep_direction ep \<in> directions \<and> ep_kind ep \<noteq> ''nop'')"
  using assms by (auto simp: native_endpoints_def remote_transfer_def directions_def res_simps split: if_splits sum.splits)

definition depends_ok :: "lowering \<Rightarrow> instruction \<Rightarrow> bool" where
  "depends_ok lw op \<longleftrightarrow> (\<forall>p\<in>ins_dependencies op. p \<noteq> ins_id op \<and> (\<exists>r e. located lw p r e) \<and>
     (\<forall>r e f. located lw (ins_id op) r e \<longrightarrow> located lw p r f \<longrightarrow>
       (\<exists>n. dict_get (lw_bits lw) f 0 = push_bit n 1 \<and> bit (dict_get (lw_ancestors lw) e 0) n)))"

definition lowered_prefix :: "string \<Rightarrow> storage_plan \<Rightarrow> instruction list \<Rightarrow> lowering \<Rightarrow> bool" where
  "lowered_prefix layout plan pre lw \<longleftrightarrow> lowering_ok lw \<and> (\<forall>p r e. located lw p r e \<longrightarrow> p \<in> ins_id ` set pre) \<and> (\<forall>op\<in>set pre. depends_ok lw op \<and>
     (\<exists>eps. native_endpoints op plan = Inr eps \<and> (\<forall>ep\<in>set eps. endpoint_step op ep \<in> set (block_steps lw (block_key_of layout ep)))))"

lemma depends_ok_extends:
  assumes "depends_ok lw op" "extends lw lw'" "\<And>p r e. located lw' p r e \<Longrightarrow> located lw p r e \<or> p \<notin> known"
    "ins_id op \<in> known" "\<And>p r e. located lw p r e \<Longrightarrow> p \<in> known"
  shows "depends_ok lw' op"
  unfolding depends_ok_def
proof (intro ballI conjI allI impI)
  fix p assume p: "p \<in> ins_dependencies op"
  then show "p \<noteq> ins_id op" "\<exists>r e. located lw' p r e" using assms(1) extendsD(1) [OF assms(2)] unfolding depends_ok_def by blast+
  fix r e f assume ef: "located lw' (ins_id op) r e" "located lw' p r f"
  have "p \<in> known" using p assms(1,5) unfolding depends_ok_def by meson
  then have old: "located lw (ins_id op) r e" "located lw p r f" using ef assms(3,4) by blast+
  then obtain n where "dict_get (lw_bits lw) f 0 = push_bit n 1" "bit (dict_get (lw_ancestors lw) e 0) n" using p assms(1) unfolding depends_ok_def by blast
  moreover have "dict_get (lw_bits lw') f 0 = dict_get (lw_bits lw) f 0" "dict_get (lw_ancestors lw') e 0 = dict_get (lw_ancestors lw) e 0"
    using extendsD(2,3) [OF assms(2)] old by blast+
  ultimately show "\<exists>n. dict_get (lw_bits lw') f 0 = push_bit n 1 \<and> bit (dict_get (lw_ancestors lw') e 0) n" by (intro exI [of _ n]) (simp del: push_bit_of_1)
qed

lemma lower_instruction_ok:
  assumes "lowered_prefix layout plan pre lw" "lower_instruction layout plan lw op = Inr lw'"
    and "ins_id op \<notin> ins_id ` set pre" "finite (ins_dependencies op)" "remote_transfer plan op"
  shows "lowered_prefix layout plan (pre @ [op]) lw'"
proof -
  obtain eps assigned where n: "native_endpoints op plan = Inr eps"
    and a: "for_each (\<lambda>assigned p. assign_waits lw (ep_rank ` set eps) op p assigned) (\<lambda>_. []) (sorted_list_of_set (ins_dependencies op)) = Inr assigned"
    and lw': "lw' = foldl (lower_endpoint layout op assigned) lw eps"
    using assms(2) by (auto simp: lower_instruction_def res_simps)
  note shape = native_endpoints_shape [OF n assms(5)]
  note targets = assign_waits_targets [OF a, unfolded set_sorted_list_of_set [OF assms(4)]]
  have pre: "lowering_ok lw" "\<And>p r e. located lw p r e \<Longrightarrow> p \<in> ins_id ` set pre" "\<And>op. op \<in> set pre \<Longrightarrow> depends_ok lw op"
    "\<And>op. op \<in> set pre \<Longrightarrow> \<exists>eps. native_endpoints op plan = Inr eps \<and> (\<forall>ep\<in>set eps. endpoint_step op ep \<in> set (block_steps lw (block_key_of layout ep)))"
    using assms(1) unfolding lowered_prefix_def by blast+
  have "\<forall>ep\<in>set eps. endpoint_ready lw op ep (assigned (ep_rank ep))"
    unfolding endpoint_ready_def using shape targets pre(2) assms(3) by blast
  note all = lower_endpoints_ok [where layout = layout and assigned = assigned, OF pre(1) this conjunct1 [OF shape], folded lw']
  have ext: "extends lw lw'" and okw: "lowering_ok lw'" using all by simp_all
  have new: "located lw p r e \<or> (p = ins_id op \<and> r \<in> ep_rank ` set eps)" if "located lw' p r e" for p r e using all that by blast
  have eps: "located lw' (ins_id op) (ep_rank ep) (endpoint_name op ep)" "covers lw' (assigned (ep_rank ep)) (endpoint_name op ep)"
      "endpoint_step op ep \<in> set (block_steps lw' (block_key_of layout ep))" if "ep \<in> set eps" for ep
    using all that by simp_all
  have "depends_ok lw' op" unfolding depends_ok_def
  proof (intro ballI conjI allI impI)
    fix p assume p: "p \<in> ins_dependencies op"
    then obtain r0 e0 where e0: "located lw p r0 e0" using targets by blast
    then show ne: "p \<noteq> ins_id op" using pre(2) assms(3) by blast
    show "\<exists>r e. located lw' p r e" using extendsD(1) [OF ext e0] by blast
    fix r e f assume e: "located lw' (ins_id op) r e" and f: "located lw' p r f"
    from new [OF e] obtain ep where ep: "ep \<in> set eps" "r = ep_rank ep" using pre(2) assms(3) by blast
    then have en: "e = endpoint_name op ep" using e eps(1) by (auto simp: located_def)
    from new [OF f] ne have "located lw p r f" by simp
    then have "f \<in> set (assigned r)" using targets p ep by blast
    moreover obtain n where "dict_get (lw_bits lw') f 0 = push_bit n 1" using f okw unfolding lowering_ok_def masks_ok_def by blast
    ultimately show "\<exists>n. dict_get (lw_bits lw') f 0 = push_bit n 1 \<and> bit (dict_get (lw_ancestors lw') e 0) n"
      using eps(2) [OF ep(1)] unfolding covers_def ep(2) en by blast
  qed
  moreover have "depends_ok lw' op'" if "op' \<in> set pre" for op'
    by (rule depends_ok_extends [OF pre(3) [OF that] ext, where known = "ins_id ` set pre"]) (use new assms(3) pre(2) that in \<open>metis, blast, metis\<close>)
  moreover have "\<exists>eps. native_endpoints op' plan = Inr eps \<and> (\<forall>ep\<in>set eps. endpoint_step op' ep \<in> set (block_steps lw' (block_key_of layout ep)))" if "op' \<in> set pre" for op'
    using pre(4) [OF that] extendsD(4) [OF ext] by blast
  moreover have "p \<in> ins_id ` set (pre @ [op])" if "located lw' p r e" for p r e using new [OF that] pre(2) by auto
  ultimately show ?thesis using okw n eps(3) unfolding lowered_prefix_def by auto
qed

lemma empty_lowered: "lowered_prefix layout plan [] empty_lowering"
  by (simp add: lowered_prefix_def lowering_ok_def steps_ok_def waits_ok_def masks_ok_def tails_ok_def paths_ok_def located_def empty_lowering_def dict_get_def)

lemma lowered_program:
  assumes "for_each (lower_instruction layout plan) empty_lowering ops = Inr lw" "distinct (map ins_id ops)"
    and "\<forall>op\<in>set ops. finite (ins_dependencies op) \<and> remote_transfer plan op"
  shows "lowered_prefix layout plan ops lw"
  using assms(1)
proof (rule for_each_inv_prefix [where I = "lowered_prefix layout plan", OF _ empty_lowered])
  fix pre op rest lw0 lw1
  assume o: "ops = pre @ op # rest" "lowered_prefix layout plan pre lw0" "lower_instruction layout plan lw0 op = Inr lw1"
  show "lowered_prefix layout plan (pre @ [op]) lw1" by (rule lower_instruction_ok [OF o(2,3)]) (use assms(2,3) o(1) in auto)
qed

lemma located_injective:
  assumes "steps_ok lw" "located lw p r e" "located lw q r e"
  shows "p = q"
proof -
  have "\<exists>k s. s \<in> set (block_steps lw k) \<and> nstep_op s = p \<and> nstep_id s = e" if "located lw p r e" for p using assms(1) that unfolding steps_ok_def by blast
  then obtain k s k' s' where s: "s \<in> set (block_steps lw k)" "nstep_op s = p" "nstep_id s = e" "s' \<in> set (block_steps lw k')" "nstep_op s' = q" "nstep_id s' = e"
    using assms(2,3) by blast
  have "k = k'" using steps_okD(2) [OF assms(1) s(1)] steps_okD(2) [OF assms(1) s(4)] s by (simp add: step_named_def)
  then have "s = s'" using steps_okD(1) [OF assms(1), of k] s by (auto simp: distinct_map dest: inj_onD)
  then show ?thesis using s by simp
qed

lemma lowered_before:
  assumes "lowered_prefix layout plan ops lw" "op \<in> set ops" "p \<in> ins_dependencies op" "located lw (ins_id op) r e" "located lw p r f"
  shows "(f, e) \<in> (step_edges lw)\<^sup>+"
proof -
  have dep: "depends_ok lw op" and ok: "steps_ok lw" "paths_ok lw" using assms(1,2) by (simp_all add: lowered_prefix_def lowering_ok_def)
  then obtain n where "dict_get (lw_bits lw) f 0 = push_bit n 1" "bit (dict_get (lw_ancestors lw) e 0) n" and ne: "p \<noteq> ins_id op"
    using assms(3-5) unfolding depends_ok_def by blast
  then have "(f, e) \<in> (step_edges lw)\<^sup>*" using ok(2) assms(4,5) unfolding paths_ok_def by blast
  moreover have "f \<noteq> e" using located_injective [OF ok(1)] assms(4,5) ne by blast
  ultimately show ?thesis by (simp add: rtrancl_eq_or_trancl)
qed

section \<open>The program\<close>

text \<open>The order a rank executes: the steps of a threadblock one after another, and every wait after its target.\<close>

definition step_waits :: "native_block \<Rightarrow> nat \<times> native_step \<Rightarrow> ((int \<times> int \<times> int) \<times> (int \<times> int \<times> int)) set" where
  "step_waits b entry = (case entry of (i, s) \<Rightarrow>
     (if 0 < i then {((nb_rank b, nb_tb_id b, int i - 1), (nb_rank b, nb_tb_id b, int i))} else {}) \<union>
     (if 0 \<le> nstep_dep_tb s then {((nb_rank b, nstep_dep_tb s, nstep_dep_step s), (nb_rank b, nb_tb_id b, int i))} else {}))"

definition native_edges :: "native_program \<Rightarrow> ((int \<times> int \<times> int) \<times> (int \<times> int \<times> int)) set" where
  "native_edges prog = (\<Union>b\<in>set (np_blocks prog). \<Union>entry\<in>set (enumerate 0 (nb_steps b)). step_waits b entry)"

lemma block_ids_mem:
  assumes "map_of (block_ids lw ranks targets) key = Some b"
  shows "0 \<le> b" "\<exists>i. b = int i \<and> i < length (sort_key (\<lambda>key. (key \<notin> targets, key)) (filter (\<lambda>k. fst k = fst key) (dict_keys (lw_blocks lw)))) \<and>
    sort_key (\<lambda>key. (key \<notin> targets, key)) (filter (\<lambda>k. fst k = fst key) (dict_keys (lw_blocks lw))) ! i = key"
proof -
  obtain r where "(key, b) \<in> set (rank_block_ids lw targets r)" using dict_of_mem [OF assms [unfolded block_ids_def]] by auto
  then obtain i where i: "b = int i" "(i, key) \<in> set (enumerate 0 (sort_key (\<lambda>key. (key \<notin> targets, key)) (filter (\<lambda>key. fst key = r) (dict_keys (lw_blocks lw)))))"
    unfolding rank_block_ids_def by auto
  then have n: "i < length (sort_key (\<lambda>key. (key \<notin> targets, key)) (filter (\<lambda>key. fst key = r) (dict_keys (lw_blocks lw))))"
    "sort_key (\<lambda>key. (key \<notin> targets, key)) (filter (\<lambda>key. fst key = r) (dict_keys (lw_blocks lw))) ! i = key"
    by (simp_all add: in_set_enumerate_eq)
  then have "key \<in> set (filter (\<lambda>key. fst key = r) (dict_keys (lw_blocks lw)))" using nth_mem [OF n(1)] unfolding n(2) by simp
  then have "fst key = r" by simp
  then show "0 \<le> b" "\<exists>i. b = int i \<and> i < length (sort_key (\<lambda>key. (key \<notin> targets, key)) (filter (\<lambda>k. fst k = fst key) (dict_keys (lw_blocks lw)))) \<and>
    sort_key (\<lambda>key. (key \<notin> targets, key)) (filter (\<lambda>k. fst k = fst key) (dict_keys (lw_blocks lw))) ! i = key" using n i(1) by auto
qed

lemma block_ids_inject:
  assumes "map_of (block_ids lw ranks targets) key = Some b" "map_of (block_ids lw ranks targets) key' = Some b" "fst key = fst key'"
  shows "key = key'"
  using block_ids_mem(2) [OF assms(1)] block_ids_mem(2) [OF assms(2)] assms(3) by auto

text \<open>What \<^verbatim>\<open>lower_program\<close> built its program from.\<close>

definition placed :: "lowering \<Rightarrow> (block_key, int) dict \<Rightarrow> (string, int \<times> int) dict \<Rightarrow> native_program \<Rightarrow> bool" where
  "placed lw ids locs prog \<longleftrightarrow> (\<exists>ranks targets. ids = block_ids lw ranks targets) \<and> step_locations lw ids = Inr locs \<and>
     map_res (place_block lw ids locs) (sort_key (\<lambda>key. (fst key, dict_get ids key 0)) (dict_keys (lw_blocks lw))) = Inr (np_blocks prog)"

lemma lower_program_placed:
  assumes "lower_program plan inputs = Inr prog"
  obtains lw ids locs where "for_each (lower_instruction (tb_layout inputs) plan) empty_lowering (instructions plan) = Inr lw" "placed lw ids locs prog"
proof -
  obtain lw targets locs blocks n where "for_each (lower_instruction (tb_layout inputs) plan) empty_lowering (instructions plan) = Inr lw"
    "step_locations lw (block_ids lw (rank_count inputs) targets) = Inr locs"
    "map_res (place_block lw (block_ids lw (rank_count inputs) targets) locs)
       (sort_key (\<lambda>key. (fst key, dict_get (block_ids lw (rank_count inputs) targets) key 0)) (dict_keys (lw_blocks lw))) = Inr blocks"
    "np_blocks prog = blocks"
    using assms unfolding lower_program_def Let_def by (auto simp: res_simps)
  then show thesis using that [of lw "block_ids lw (rank_count inputs) targets" locs] unfolding placed_def by blast
qed

lemma step_locations_mem:
  assumes "step_locations lw ids = Inr locs" "steps_ok lw" "i < length (block_steps lw key)"
  shows "\<exists>b. map_of ids key = Some b \<and> map_of locs (nstep_id (block_steps lw key ! i)) = Some (b, int i)"
proof -
  let ?f = "\<lambda>(key, steps). bnd (map_res (\<lambda>(i, step). bnd (dict_item ids key) (\<lambda>b. Inr (nstep_id step, (b, int i)))) (enumerate 0 steps)) Inr"
  obtain entries where e: "map_res ?f (lw_blocks lw) = Inr entries" "locs = dict_of (concat entries)"
    using assms(1) unfolding step_locations_def by (auto simp: res_simps)
  have all2: "list_all2 (\<lambda>x y. ?f x = Inr y) (lw_blocks lw) entries" using e(1) unfolding map_res_Inr_iff .
  have out: "?f (key, steps) = Inr es \<longleftrightarrow> list_all2 (\<lambda>(i, step) y. \<exists>b. map_of ids key = Some b \<and> y = (nstep_id step, (b, int i))) (enumerate 0 steps) es" for key steps es
    by (auto simp: map_res_Inr_iff res_simps dict_item_def split_def list_all2_conv_all_nth split: option.splits)
  have wf: "wf_dict (lw_blocks lw)" using assms(2) by (simp add: steps_ok_def)
  have blk: "block_steps lw k = steps" if "(k, steps) \<in> set (lw_blocks lw)" for k steps using wf that by (simp add: dict_get_def)
  have sound: "\<exists>k b j. map_of ids k = Some b \<and> j < length (block_steps lw k) \<and> sid = nstep_id (block_steps lw k ! j) \<and> v = (b, int j)"
    if "(sid, v) \<in> set (concat entries)" for sid v
  proof -
    from that obtain es where es: "es \<in> set entries" "(sid, v) \<in> set es" by auto
    from list_all2_mem2 [OF all2 es(1)] obtain k steps where k: "(k, steps) \<in> set (lw_blocks lw)" "?f (k, steps) = Inr es" by auto
    from list_all2_mem2 [OF k(2) [unfolded out] es(2)] obtain j step b where "(j, step) \<in> set (enumerate 0 steps)" "map_of ids k = Some b" "(sid, v) = (nstep_id step, (b, int j))"
      by auto
    then show ?thesis using blk [OF k(1)] by (intro exI [of _ k] exI [of _ b] exI [of _ j]) (auto simp: in_set_enumerate_eq)
  qed
  have "block_steps lw key \<noteq> []" using assms(3) by auto
  then have key: "(key, block_steps lw key) \<in> set (lw_blocks lw)" by (auto simp: dict_get_def split: option.splits dest: map_of_SomeD)
  from list_all2_mem1 [OF all2 key] obtain es where es: "es \<in> set entries" "?f (key, block_steps lw key) = Inr es" by blast
  have "(i, block_steps lw key ! i) \<in> set (enumerate 0 (block_steps lw key))" using assms(3) by (simp add: in_set_enumerate_eq)
  from list_all2_mem1 [OF es(2) [unfolded out] this] obtain b where b: "map_of ids key = Some b" "(nstep_id (block_steps lw key ! i), (b, int i)) \<in> set es" by auto
  have "map_of locs (nstep_id (block_steps lw key ! i)) = Some (b, int i)" unfolding e(2)
  proof (rule dict_of_unique)
    show "(nstep_id (block_steps lw key ! i), (b, int i)) \<in> set (concat entries)" using es(1) b(2) by auto
    fix v assume "(nstep_id (block_steps lw key ! i), v) \<in> set (concat entries)"
    from sound [OF this] obtain k b' j where k: "map_of ids k = Some b'" "j < length (block_steps lw k)"
      "nstep_id (block_steps lw key ! i) = nstep_id (block_steps lw k ! j)" "v = (b', int j)" by blast
    have "key = k" using steps_okD(2) [OF assms(2) nth_mem [OF assms(3)]] steps_okD(2) [OF assms(2) nth_mem [OF k(2)]] k(3) by (simp add: step_named_def)
    moreover then have "i = j" using steps_okD(1) [OF assms(2), of key] k(2,3) assms(3) by (simp add: distinct_conv_nth) (metis nth_map)
    ultimately show "v = (b, int i)" using k b by simp
  qed
  then show ?thesis using b by blast
qed

lemma placed_block:
  assumes "placed lw ids locs prog" "block_steps lw key \<noteq> []"
  shows "\<exists>b\<in>set (np_blocks prog). \<exists>bid. map_of ids key = Some bid \<and> nb_rank b = fst key \<and> nb_tb_id b = bid \<and>
    list_all2 (\<lambda>s s'. place_step lw locs s = Inr s') (block_steps lw key) (nb_steps b)"
proof -
  obtain steps where "map_of (lw_blocks lw) key = Some steps" using assms(2) by (auto simp: dict_get_def split: option.splits)
  from map_of_SomeD [OF this] have "key \<in> set (dict_keys (lw_blocks lw))" by force
  then have "key \<in> set (sort_key (\<lambda>key. (fst key, dict_get ids key 0)) (dict_keys (lw_blocks lw)))" by simp
  from list_all2_mem1 [OF _ this] assms(1) obtain b where b: "b \<in> set (np_blocks prog)" "place_block lw ids locs key = Inr b"
    unfolding placed_def map_res_Inr_iff by blast
  obtain rank direction peer chan where key: "key = (rank, direction, peer, chan)" by (cases key)
  show ?thesis using b(2) unfolding place_block_def key
    by (intro bexI [OF _ b(1)]) (auto simp: res_simps dict_item_def map_res_Inr_iff split: option.splits)
qed

lemma placed_block_key:
  assumes "placed lw ids locs prog" "b \<in> set (np_blocks prog)"
  shows "\<exists>key bid. map_of ids key = Some bid \<and> nb_rank b = fst key \<and> nb_tb_id b = bid \<and>
    list_all2 (\<lambda>s s'. place_step lw locs s = Inr s') (block_steps lw key) (nb_steps b)"
proof -
  from assms list_all2_mem2 [OF _ assms(2)] obtain key where b: "place_block lw ids locs key = Inr b"
    unfolding placed_def map_res_Inr_iff by blast
  obtain rank direction peer chan where key: "key = (rank, direction, peer, chan)" by (cases key)
  show ?thesis using b unfolding place_block_def key
    by (intro exI [of _ "(rank, direction, peer, chan)"]) (auto simp: res_simps dict_item_def map_res_Inr_iff split: option.splits)
qed

text \<open>The place of a step: its rank, its threadblock and its index.\<close>

definition position :: "lowering \<Rightarrow> (string, int \<times> int) dict \<Rightarrow> string \<Rightarrow> int \<times> int \<times> int" where
  "position lw locs sid = (fst (the (map_of (lw_owner lw) sid)), the (map_of locs sid))"

lemma position_nth:
  assumes "placed lw ids locs prog" "steps_ok lw" "i < length (block_steps lw key)" "map_of ids key = Some b"
  shows "position lw locs (nstep_id (block_steps lw key ! i)) = (fst key, b, int i)"
  using step_locations_mem [OF _ assms(2,3), of ids locs] assms(1,4) steps_okD(2) [OF assms(2) nth_mem [OF assms(3)]]
  by (auto simp: placed_def position_def step_named_def)

lemma place_step_fields:
  assumes "place_step lw locs s = Inr s'"
  shows "nstep_id s' = nstep_id s" "nstep_op s' = nstep_op s" "nstep_kind s' = nstep_kind s" "nstep_src s' = nstep_src s" "nstep_dst s' = nstep_dst s"
    "map_of (lw_waits lw) (nstep_id s) = Some t \<Longrightarrow> map_of locs t = Some (nstep_dep_tb s', nstep_dep_step s')"
  using assms by (auto simp: place_step_def res_simps dict_item_def split: option.splits)

lemma native_edge_position:
  assumes "placed lw ids locs prog" "steps_ok lw" "waits_ok lw" "(f, e) \<in> step_edges lw"
  shows "(position lw locs f, position lw locs e) \<in> native_edges prog"
  using assms(4) unfolding step_edges_def
proof
  assume "(f, e) \<in> (\<Union>key. chain (map nstep_id (block_steps lw key)))"
  then obtain key i where i: "Suc i < length (block_steps lw key)" "f = nstep_id (block_steps lw key ! i)" "e = nstep_id (block_steps lw key ! Suc i)"
    unfolding chain_nth by auto
  then have "block_steps lw key \<noteq> []" by auto
  from placed_block [OF assms(1) this] obtain b bid where b: "b \<in> set (np_blocks prog)" "map_of ids key = Some bid" "nb_rank b = fst key" "nb_tb_id b = bid"
    "list_all2 (\<lambda>s s'. place_step lw locs s = Inr s') (block_steps lw key) (nb_steps b)" by blast
  have "(Suc i, nb_steps b ! Suc i) \<in> set (enumerate 0 (nb_steps b))" using i(1) list_all2_lengthD [OF b(5)] by (simp add: in_set_enumerate_eq)
  moreover have "(position lw locs f, position lw locs e) \<in> step_waits b (Suc i, nb_steps b ! Suc i)"
    using position_nth [OF assms(1,2) i(1) b(2)] position_nth [OF assms(1,2) Suc_lessD [OF i(1)] b(2)] b(3,4) i(2,3) by (simp add: step_waits_def)
  ultimately show ?thesis using b(1) unfolding native_edges_def by blast
next
  assume "(f, e) \<in> {(t, s). map_of (lw_waits lw) s = Some t}"
  then have w: "map_of (lw_waits lw) e = Some f" by simp
  then obtain key q where key: "map_of (lw_owner lw) e = Some key" "located lw q (fst key) f" using assms(3) unfolding waits_ok_def by blast
  from located_owner [OF assms(2) key(2)] obtain k where k: "fst k = fst key" "map_of (lw_owner lw) f = Some k" by blast
  from steps_okD(3) [OF assms(2) key(1)] obtain i where i: "i < length (block_steps lw key)" "e = nstep_id (block_steps lw key ! i)"
    by (auto simp: in_set_conv_nth)
  then have "block_steps lw key \<noteq> []" by auto
  from placed_block [OF assms(1) this] obtain b bid where b: "b \<in> set (np_blocks prog)" "map_of ids key = Some bid" "nb_rank b = fst key" "nb_tb_id b = bid"
    "list_all2 (\<lambda>s s'. place_step lw locs s = Inr s') (block_steps lw key) (nb_steps b)" by blast
  have "place_step lw locs (block_steps lw key ! i) = Inr (nb_steps b ! i)" using list_all2_nthD [OF b(5) i(1)] .
  from place_step_fields(6) [OF this w [unfolded i(2)]] have dep: "map_of locs f = Some (nstep_dep_tb (nb_steps b ! i), nstep_dep_step (nb_steps b ! i))" .
  from steps_okD(3) [OF assms(2) k(2)] obtain j where j: "j < length (block_steps lw k)" "f = nstep_id (block_steps lw k ! j)"
    by (auto simp: in_set_conv_nth)
  from step_locations_mem [OF _ assms(2) j(1), of ids locs] assms(1) obtain b' where b': "map_of ids k = Some b'" "map_of locs f = Some (b', int j)"
    unfolding placed_def j(2) by blast
  obtain ranks targets where "ids = block_ids lw ranks targets" using assms(1) unfolding placed_def by blast
  then have "0 \<le> nstep_dep_tb (nb_steps b ! i)" using block_ids_mem(1) [of lw ranks targets k b'] b' dep by simp
  then have "(position lw locs f, position lw locs e) \<in> step_waits b (i, nb_steps b ! i)"
    using position_nth [OF assms(1,2) i(1) b(2)] b(3,4) i(2) k dep by (simp add: step_waits_def position_def)
  moreover have "(i, nb_steps b ! i) \<in> set (enumerate 0 (nb_steps b))" using i(1) list_all2_lengthD [OF b(5)] by (simp add: in_set_enumerate_eq)
  ultimately show ?thesis using b(1) unfolding native_edges_def by blast
qed

lemma native_path_position:
  assumes "placed lw ids locs prog" "steps_ok lw" "waits_ok lw" "(f, e) \<in> (step_edges lw)\<^sup>+"
  shows "(position lw locs f, position lw locs e) \<in> (native_edges prog)\<^sup>+"
  using assms(4)
proof induction
  case (base y)
  then show ?case using native_edge_position [OF assms(1-3)] by blast
next
  case (step y z)
  then show ?case using native_edge_position [OF assms(1-3)] by (meson trancl.trancl_into_trancl)
qed

text \<open>Reading the program back: which step stands at a place.\<close>

lemma program_steps_mem:
  assumes "map_of (program_steps prog) l = Some s"
  shows "\<exists>b\<in>set (np_blocks prog). \<exists>i<length (nb_steps b). l = (nb_rank b, nb_tb_id b, int i) \<and> s = nb_steps b ! i"
proof -
  have "(l, s) \<in> set (concat (map (\<lambda>b. map (\<lambda>(i, s). ((nb_rank b, nb_tb_id b, int i), s)) (enumerate 0 (nb_steps b))) (np_blocks prog)))"
    using dict_of_mem [OF assms [unfolded program_steps_def]] .
  then show ?thesis by (auto simp: in_set_enumerate_eq)
qed

lemma placed_program_step:
  assumes "placed lw ids locs prog" "steps_ok lw" "map_of (program_steps prog) l = Some s"
  shows "\<exists>key i. i < length (block_steps lw key) \<and> fst key = fst l \<and> l = position lw locs (nstep_id (block_steps lw key ! i)) \<and>
    place_step lw locs (block_steps lw key ! i) = Inr s"
proof -
  from program_steps_mem [OF assms(3)] obtain b i where b: "b \<in> set (np_blocks prog)" "i < length (nb_steps b)" "l = (nb_rank b, nb_tb_id b, int i)" "s = nb_steps b ! i" by blast
  from placed_block_key [OF assms(1) b(1)] obtain key bid where k: "map_of ids key = Some bid" "nb_rank b = fst key" "nb_tb_id b = bid"
    "list_all2 (\<lambda>s s'. place_step lw locs s = Inr s') (block_steps lw key) (nb_steps b)" by blast
  have i: "i < length (block_steps lw key)" using b(2) list_all2_lengthD [OF k(4)] by simp
  then show ?thesis using position_nth [OF assms(1,2) i k(1)] list_all2_nthD [OF k(4) i] b k by (intro exI [of _ key] exI [of _ i]) simp
qed

lemma placed_lookup:
  assumes "placed lw ids locs prog" "steps_ok lw" "i < length (block_steps lw key)"
  shows "\<exists>s. map_of (program_steps prog) (position lw locs (nstep_id (block_steps lw key ! i))) = Some s \<and> place_step lw locs (block_steps lw key ! i) = Inr s"
proof -
  have "block_steps lw key \<noteq> []" using assms(3) by auto
  from placed_block [OF assms(1) this] obtain b bid where b: "b \<in> set (np_blocks prog)" "map_of ids key = Some bid" "nb_rank b = fst key" "nb_tb_id b = bid"
    "list_all2 (\<lambda>s s'. place_step lw locs s = Inr s') (block_steps lw key) (nb_steps b)" by blast
  obtain ranks targets where ids: "ids = block_ids lw ranks targets" using assms(1) unfolding placed_def by blast
  let ?l = "(fst key, bid, int i)" and ?ps = "concat (map (\<lambda>b. map (\<lambda>(i, s). ((nb_rank b, nb_tb_id b, int i), s)) (enumerate 0 (nb_steps b))) (np_blocks prog))"
  have i: "i < length (nb_steps b)" using assms(3) list_all2_lengthD [OF b(5)] by simp
  have "map_of (dict_of ?ps) ?l = Some (nb_steps b ! i)"
  proof (rule dict_of_unique)
    have "(i, nb_steps b ! i) \<in> set (enumerate 0 (nb_steps b))" using i by (simp add: in_set_enumerate_eq)
    from imageI [OF this, of "\<lambda>(i, s). ((nb_rank b, nb_tb_id b, int i), s)"] have
      "(?l, nb_steps b ! i) \<in> set (map (\<lambda>(i, s). ((nb_rank b, nb_tb_id b, int i), s)) (enumerate 0 (nb_steps b)))" using b(3,4) by simp
    then show "(?l, nb_steps b ! i) \<in> set ?ps" unfolding set_concat set_map image_image by (rule UN_I [OF b(1)])
    fix s assume "(?l, s) \<in> set ?ps"
    then obtain c where c: "c \<in> set (np_blocks prog)" "nb_rank c = fst key" "nb_tb_id c = bid" "i < length (nb_steps c)" "s = nb_steps c ! i"
      by (auto simp: in_set_enumerate_eq)
    from placed_block_key [OF assms(1) c(1)] obtain k where k: "map_of ids k = Some bid" "fst k = fst key"
      "list_all2 (\<lambda>s s'. place_step lw locs s = Inr s') (block_steps lw k) (nb_steps c)" using c(2,3) by metis
    have "k = key" using block_ids_inject [of lw ranks targets k bid key] k(1,2) b(2) ids by simp
    then show "s = nb_steps b ! i" using list_all2_nthD [OF k(3), of i] list_all2_nthD [OF b(5), of i] assms(3) c(5) by simp
  qed
  then show ?thesis using position_nth [OF assms b(2)] list_all2_nthD [OF b(5) assms(3)] unfolding program_steps_def by (intro exI [of _ "nb_steps b ! i"]) simp
qed

lemma lowered_endpoint_present:
  assumes "placed lw ids locs prog" "steps_ok lw" "endpoint_step op ep \<in> set (block_steps lw (block_key_of layout ep))"
  shows "\<exists>l s. map_of (program_steps prog) l = Some s \<and> fst l = ep_rank ep \<and> nstep_op s = ins_id op \<and> nstep_kind s = ep_kind ep \<and>
    nstep_src s = Some (ep_source ep) \<and> nstep_dst s = Some (ep_destination ep)"
proof -
  obtain i where i: "i < length (block_steps lw (block_key_of layout ep))" "block_steps lw (block_key_of layout ep) ! i = endpoint_step op ep"
    using assms(3) by (auto simp: in_set_conv_nth)
  from placed_lookup [OF assms(1,2) i(1)] obtain s where s: "map_of (program_steps prog) (position lw locs (nstep_id (endpoint_step op ep))) = Some s"
    "place_step lw locs (endpoint_step op ep) = Inr s" unfolding i(2) by blast
  have "step_named lw (block_key_of layout ep) (endpoint_step op ep)" using steps_okD(2) [OF assms(2,3)] .
  then have "fst (position lw locs (nstep_id (endpoint_step op ep))) = ep_rank ep" by (simp add: position_def step_named_def)
  then show ?thesis using s(1) place_step_fields [OF s(2)] by (intro exI [of _ "position lw locs (nstep_id (endpoint_step op ep))"] exI [of _ s]) (simp add: endpoint_step_def plain_step_def)
qed

lemma placed_located:
  assumes "placed lw ids locs prog" "steps_ok lw" "map_of (program_steps prog) l = Some s" "nstep_kind s \<noteq> ''nop''"
  shows "\<exists>e. located lw (nstep_op s) (fst l) e \<and> l = position lw locs e"
proof -
  from placed_program_step [OF assms(1-3)] obtain key i where i: "i < length (block_steps lw key)" "fst key = fst l"
    "l = position lw locs (nstep_id (block_steps lw key ! i))" "place_step lw locs (block_steps lw key ! i) = Inr s" by blast
  have "step_named lw key (block_steps lw key ! i)" using steps_okD(2) [OF assms(2) nth_mem [OF i(1)]] .
  then have "located lw (nstep_op s) (fst l) (nstep_id (block_steps lw key ! i))" using place_step_fields [OF i(4)] assms(4) i(2) by (simp add: step_named_def)
  then show ?thesis using i(3) by blast
qed

text \<open>
  C20. Whatever waits \<^verbatim>\<open>lower_program\<close> leaves out because others cover them: every endpoint of every instruction of the plan becomes a step
  on its rank with its addresses, and when an instruction depends on another, each step of the latter on a rank comes before each
  step of the former on that rank, in the order the rank executes its threadblocks and waits.
\<close>

theorem lower_program_keeps_order:
  assumes "lower_program plan inputs = Inr prog" and "distinct (map ins_id (instructions plan))"
    and "\<forall>op\<in>set (instructions plan). finite (ins_dependencies op) \<and> remote_transfer plan op"
    and "op \<in> set (instructions plan)"
  shows "(\<exists>eps. native_endpoints op plan = Inr eps \<and> (\<forall>ep\<in>set eps. \<exists>l s. map_of (program_steps prog) l = Some s \<and> fst l = ep_rank ep \<and>
      nstep_op s = ins_id op \<and> nstep_kind s = ep_kind ep \<and> nstep_src s = Some (ep_source ep) \<and> nstep_dst s = Some (ep_destination ep))) \<and>
    (\<forall>l s l' s'. nstep_op s \<in> ins_dependencies op \<and> nstep_op s' = ins_id op \<and> map_of (program_steps prog) l = Some s \<and>
      map_of (program_steps prog) l' = Some s' \<and> nstep_kind s \<noteq> ''nop'' \<and> nstep_kind s' \<noteq> ''nop'' \<and> fst l = fst l' \<longrightarrow> (l, l') \<in> (native_edges prog)\<^sup>+)"
proof -
  from lower_program_placed [OF assms(1)] obtain lw ids locs where
    run: "for_each (lower_instruction (tb_layout inputs) plan) empty_lowering (instructions plan) = Inr lw" and placed: "placed lw ids locs prog" by blast
  note low = lowered_program [OF run assms(2,3)]
  then have ok: "steps_ok lw" "waits_ok lw" by (simp_all add: lowered_prefix_def lowering_ok_def)
  have "\<exists>eps. native_endpoints op plan = Inr eps \<and> (\<forall>ep\<in>set eps. \<exists>l s. map_of (program_steps prog) l = Some s \<and> fst l = ep_rank ep \<and>
      nstep_op s = ins_id op \<and> nstep_kind s = ep_kind ep \<and> nstep_src s = Some (ep_source ep) \<and> nstep_dst s = Some (ep_destination ep))"
    using low assms(4) lowered_endpoint_present [OF placed ok(1)] unfolding lowered_prefix_def by blast
  moreover have "\<forall>l s l' s'. nstep_op s \<in> ins_dependencies op \<and> nstep_op s' = ins_id op \<and> map_of (program_steps prog) l = Some s \<and>
      map_of (program_steps prog) l' = Some s' \<and> nstep_kind s \<noteq> ''nop'' \<and> nstep_kind s' \<noteq> ''nop'' \<and> fst l = fst l' \<longrightarrow> (l, l') \<in> (native_edges prog)\<^sup>+"
  proof (intro allI impI, elim conjE)
    fix l s l' s'
    assume s: "nstep_op s \<in> ins_dependencies op" "nstep_op s' = ins_id op" "map_of (program_steps prog) l = Some s" "map_of (program_steps prog) l' = Some s'"
      "nstep_kind s \<noteq> ''nop''" "nstep_kind s' \<noteq> ''nop''" "fst l = fst l'"
    from placed_located [OF placed ok(1) s(3,5)] placed_located [OF placed ok(1) s(4,6)] obtain f e where
      "located lw (nstep_op s) (fst l') f" "l = position lw locs f" "located lw (ins_id op) (fst l') e" "l' = position lw locs e" using s(2,7) by auto
    then show "(l, l') \<in> (native_edges prog)\<^sup>+" using native_path_position [OF placed ok lowered_before [OF low assms(4) s(1)]] by blast
  qed
  ultimately show ?thesis ..
qed

text \<open>A transfer and two copies that depend on it, in one threadblock: the first copy waits, the second one follows without a wait.\<close>

definition two_copies_plan :: storage_plan where
  "two_copies_plan = \<lparr>plan_values = [], initial_ids = [''x''],
     instructions =
       [\<lparr>ins_id = ''a'', ins_kind = ''send'', ins_inputs = [''x''], ins_output = ''ax'', ins_rank = 1, ins_peer = 0, ins_channel = 0, ins_stage = 0,
         ins_participants = [], ins_dependencies = {}, ins_priority = 0\<rparr>,
        \<lparr>ins_id = ''b'', ins_kind = ''copy'', ins_inputs = [''ax''], ins_output = ''bx'', ins_rank = 1, ins_peer = -1, ins_channel = -1, ins_stage = 0,
         ins_participants = [], ins_dependencies = {''a''}, ins_priority = 0\<rparr>,
        \<lparr>ins_id = ''c'', ins_kind = ''copy'', ins_inputs = [''ax''], ins_output = ''cx'', ins_rank = 1, ins_peer = -1, ins_channel = -1, ins_stage = 0,
         ins_participants = [], ins_dependencies = {''a''}, ins_priority = 0\<rparr>],
     addresses = [(''x'', Address 0 ''i'' 0), (''ax'', Address 1 ''s'' 0), (''bx'', Address 1 ''s'' 1), (''cx'', Address 1 ''o'' 0)],
     plan_outputs = [], input_slots = [], output_slots = [], scratch_slots = [], reuse = [], plan_stage_count = 1, reference_orders_omitted = []\<rparr>"

definition shows_step :: "native_program \<Rightarrow> int \<times> int \<times> int \<Rightarrow> string \<Rightarrow> bool" where
  "shows_step prog l op = (case map_of (program_steps prog) l of None \<Rightarrow> False | Some s \<Rightarrow> nstep_op s = op \<and> nstep_kind s \<noteq> ''nop'')"

theorem lower_program_keeps_order_witness:
  "\<exists>prog. lower_program two_copies_plan reduce_inputs = Inr prog \<and> ((1, 0, 0), (1, 1, 1)) \<in> (native_edges prog)\<^sup>+"
proof -
  have "case lower_program two_copies_plan reduce_inputs of Inl _ \<Rightarrow> False | Inr prog \<Rightarrow> shows_step prog (1, 0, 0) ''a'' \<and> shows_step prog (1, 1, 1) ''c''"
    by code_simp
  then obtain prog where prog: "lower_program two_copies_plan reduce_inputs = Inr prog" "shows_step prog (1, 0, 0) ''a''" "shows_step prog (1, 1, 1) ''c''"
    by (auto split: sum.splits)
  then obtain s s' where s: "map_of (program_steps prog) (1, 0, 0) = Some s" "nstep_op s = ''a''" "nstep_kind s \<noteq> ''nop''"
    "map_of (program_steps prog) (1, 1, 1) = Some s'" "nstep_op s' = ''c''" "nstep_kind s' \<noteq> ''nop''" by (auto simp: shows_step_def split: option.splits)
  have "distinct (map ins_id (instructions two_copies_plan))" by code_simp
  moreover have "\<forall>op\<in>set (instructions two_copies_plan). finite (ins_dependencies op) \<and> remote_transfer two_copies_plan op"
    by (simp add: two_copies_plan_def remote_transfer_def input_address_def dict_item_def)
  moreover have "instructions two_copies_plan ! 2 \<in> set (instructions two_copies_plan)" by (rule nth_mem) code_simp
  moreover have "ins_id (instructions two_copies_plan ! 2) = ''c''" "''a'' \<in> ins_dependencies (instructions two_copies_plan ! 2)" by code_simp+
  ultimately have "((1, 0, 0), (1, 1, 1)) \<in> (native_edges prog)\<^sup>+"
    using lower_program_keeps_order [OF prog(1), of "instructions two_copies_plan ! 2"] s by (metis fst_conv)
  then show ?thesis using prog(1) by blast
qed

declare split_paired_All [simp] split_paired_Ex [simp]

end
