(* ===== verification/Sidecar.thy ===== *)
theory Sidecar
  imports Native_Program
begin

text \<open>
  The reloadable sidecar of \<^verbatim>\<open>src/vericcl/xml/v5_lower.py\<close>: how a storage plan and a native program are written to a JSON document
  (\<^verbatim>\<open>_plain\<close>, \<^verbatim>\<open>_serialize_storage\<close>, \<^verbatim>\<open>_serialize_program\<close>) and read back.

  Python values are a datatype; the keys of a dictionary are integers or strings, and \<open>json_reload\<close> is
  \<^verbatim>\<open>json.loads(json.dumps(v))\<close>, which turns integer keys into strings.
  A field is read with its declared type, and a value of another type is a \<^verbatim>\<open>TypeError\<close>.
\<close>

section \<open>Values\<close>

datatype pkey = KInt int | KStr string

datatype pyval = PNone | PBool bool | PInt int | PFloat rat | PStr string | PIntSet "int set" | PStrSet "string set"
  | PList "pyval list" | PDict "(pkey \<times> pyval) list"

fun key_str :: "pkey \<Rightarrow> string" where
  "key_str (KInt i) = str_int i"
| "key_str (KStr s) = s"

fun plain :: "pyval \<Rightarrow> pyval" where
  "plain (PDict d) = PDict (dict_of (map (\<lambda>(k, v). (KStr (key_str k), plain v)) d))"
| "plain (PIntSet s) = PList (map PInt (sorted_list_of_set s))"
| "plain (PStrSet s) = PList (map PStr (sorted_list_of_set s))"
| "plain (PList xs) = PList (map plain xs)"
| "plain v = v"

lemma map_res_cong [fundef_cong]: "xs = ys \<Longrightarrow> (\<And>x. x \<in> set ys \<Longrightarrow> f x = g x) \<Longrightarrow> map_res f xs = map_res g ys"
  by (induction xs arbitrary: ys) auto

fun json_reload :: "pyval \<Rightarrow> pyval res" where
  "json_reload (PDict d) = bnd (map_res (\<lambda>(k, v). bnd (json_reload v) (\<lambda>v'. Inr (KStr (key_str k), v'))) d) (\<lambda>d'. Inr (PDict (dict_of d')))"
| "json_reload (PList xs) = bnd (map_res json_reload xs) (\<lambda>ys. Inr (PList ys))"
| "json_reload (PIntSet _) = Inl TypeError"
| "json_reload (PStrSet _) = Inl TypeError"
| "json_reload v = Inr v"

section \<open>Reading\<close>

definition item :: "pyval \<Rightarrow> string \<Rightarrow> pyval res" where
  "item v k = (case v of PDict d \<Rightarrow> (case map_of d (KStr k) of None \<Rightarrow> Inl (KeyError k) | Some x \<Rightarrow> Inr x) | _ \<Rightarrow> Inl TypeError)"

definition entries :: "pyval \<Rightarrow> (pkey \<times> pyval) list res" where
  "entries v = (case v of PDict d \<Rightarrow> Inr d | _ \<Rightarrow> Inl TypeError)"

definition as_int :: "pyval \<Rightarrow> int res" where
  "as_int v = (case v of PInt i \<Rightarrow> Inr i | _ \<Rightarrow> Inl TypeError)"

definition as_float :: "pyval \<Rightarrow> rat res" where
  "as_float v = (case v of PFloat r \<Rightarrow> Inr r | PInt i \<Rightarrow> Inr (of_int i) | _ \<Rightarrow> Inl TypeError)"

definition as_bool :: "pyval \<Rightarrow> bool res" where
  "as_bool v = (case v of PBool b \<Rightarrow> Inr b | _ \<Rightarrow> Inl TypeError)"

definition as_str :: "pyval \<Rightarrow> string res" where
  "as_str v = (case v of PStr s \<Rightarrow> Inr s | _ \<Rightarrow> Inl TypeError)"

definition as_list :: "(pyval \<Rightarrow> 'a res) \<Rightarrow> pyval \<Rightarrow> 'a list res" where
  "as_list f v = (case v of PList xs \<Rightarrow> map_res f xs | _ \<Rightarrow> Inl TypeError)"

definition as_option :: "(pyval \<Rightarrow> 'a res) \<Rightarrow> pyval \<Rightarrow> 'a option res" where
  "as_option f v = (case v of PNone \<Rightarrow> Inr None | _ \<Rightarrow> bnd (f v) (\<lambda>x. Inr (Some x)))"

definition field :: "(pyval \<Rightarrow> 'a res) \<Rightarrow> pyval \<Rightarrow> string \<Rightarrow> 'a res" where
  "field f v k = bnd (item v k) f"

text \<open>A call \<^verbatim>\<open>C(**v)\<close> names every field without a default and no other.\<close>

definition call_fields :: "string list \<Rightarrow> string list \<Rightarrow> pyval \<Rightarrow> unit res" where
  "call_fields required optional v = bnd (entries v) (\<lambda>d.
     ensure (set (dict_keys d) \<subseteq> KStr ` set (required @ optional) \<and> KStr ` set required \<subseteq> set (dict_keys d)) TypeError (Inr ()))"

text \<open>\<^verbatim>\<open>int\<close> of a string: blanks around, a sign, and digits with single underscores between them.\<close>

definition is_blank :: "char \<Rightarrow> bool" where
  "is_blank c \<longleftrightarrow> (of_char c :: nat) \<in> {32, 9, 10, 11, 12, 13}"

definition is_digit :: "char \<Rightarrow> bool" where
  "is_digit c \<longleftrightarrow> 48 \<le> (of_char c :: nat) \<and> (of_char c :: nat) \<le> 57"

fun digit_groups :: "string \<Rightarrow> bool" where
  "digit_groups [] = False"
| "digit_groups [c] = is_digit c"
| "digit_groups (c # d # cs) = (is_digit c \<and> (if d = CHR ''_'' then digit_groups cs else digit_groups (d # cs)))"

definition strip :: "string \<Rightarrow> string" where
  "strip s = rev (dropWhile is_blank (rev (dropWhile is_blank s)))"

definition parse_unsigned :: "string \<Rightarrow> string \<Rightarrow> int res" where
  "parse_unsigned s ds = ensure (digit_groups ds) (ValueError (''invalid literal for int() with base 10: '' @ [CHR 0x27] @ s @ [CHR 0x27])) (Inr (int (parse_nat (filter (\<lambda>c. c \<noteq> CHR ''_'') ds))))"

definition parse_int :: "string \<Rightarrow> int res" where
  "parse_int s = (case strip s of
       CHR ''-'' # ds \<Rightarrow> bnd (parse_unsigned s ds) (\<lambda>n. Inr (- n))
     | CHR ''+'' # ds \<Rightarrow> parse_unsigned s ds
     | ds \<Rightarrow> parse_unsigned s ds)"

fun int_key :: "pkey \<Rightarrow> int res" where
  "int_key (KInt i) = Inr i"
| "int_key (KStr s) = parse_int s"

section \<open>Storage plans\<close>

definition obj :: "(string \<times> pyval) list \<Rightarrow> pyval" where
  "obj kvs = PDict (map (\<lambda>(k, v). (KStr k, v)) kvs)"

definition opt :: "('a \<Rightarrow> pyval) \<Rightarrow> 'a option \<Rightarrow> pyval" where
  "opt f x = (case x of None \<Rightarrow> PNone | Some y \<Rightarrow> f y)"

text \<open>\<^verbatim>\<open>asdict\<close> of the records.\<close>

definition value_dict :: "state_value \<Rightarrow> pyval" where
  "value_dict v = obj [(''state_id'', PStr (val_id v)), (''rank'', PInt (val_rank v)), (''logical_position'', PInt (val_position v)),
     (''contributors'', PIntSet (val_contributors v)), (''producer'', opt PStr (val_producer v))]"

definition instruction_dict :: "instruction \<Rightarrow> pyval" where
  "instruction_dict op = obj [(''operation_id'', PStr (ins_id op)), (''kind'', PStr (ins_kind op)), (''inputs'', PList (map PStr (ins_inputs op))),
     (''output'', PStr (ins_output op)), (''rank'', PInt (ins_rank op)), (''peer'', PInt (ins_peer op)), (''channel'', PInt (ins_channel op)),
     (''stage_id'', PInt (ins_stage op)), (''participants'', PList (map PInt (ins_participants op))), (''dependencies'', PStrSet (ins_dependencies op)),
     (''priority_time'', PFloat (ins_priority op))]"

definition address_dict :: "address \<Rightarrow> pyval" where
  "address_dict a = obj [(''rank'', PInt (addr_rank a)), (''buffer'', PStr (addr_buffer a)), (''offset'', PInt (addr_offset a))]"

definition reuse_dict :: "reuse_entry \<Rightarrow> pyval" where
  "reuse_dict e = obj [(''writer'', PStr (reuse_writer e)), (''old_state'', PStr (old_state e)), (''new_state'', PStr (new_state e)),
     (''previous_readers'', PList (map PStr (previous_readers e))), (''rank'', PInt (reuse_rank e)), (''offset'', PInt (reuse_offset e))]"

definition slots_dict :: "(int, int) dict \<Rightarrow> pyval" where
  "slots_dict d = PDict (map (\<lambda>(k, v). (KInt k, PInt v)) d)"

definition output_dict :: "output_slot \<times> string \<Rightarrow> pyval" where
  "output_dict entry = (case entry of (slot, key) \<Rightarrow> obj [(''rank'', PInt (slot_rank slot)), (''offset'', PInt (slot_offset slot)), (''state_id'', PStr key)])"

definition serialize_storage :: "storage_plan \<Rightarrow> pyval" where
  "serialize_storage st = obj [(''values'', PList (map (\<lambda>(_, v). plain (value_dict v)) (plan_values st))), (''initial_ids'', PList (map PStr (initial_ids st))),
     (''instructions'', PList (map (\<lambda>op. plain (instruction_dict op)) (instructions st))),
     (''addresses'', obj (map (\<lambda>(k, a). (k, address_dict a)) (addresses st))), (''outputs'', PList (map output_dict (plan_outputs st))),
     (''input_slots'', slots_dict (input_slots st)), (''output_slots'', slots_dict (output_slots st)), (''scratch_slots'', slots_dict (scratch_slots st)),
     (''reuse'', PList (map reuse_dict (reuse st))), (''stage_count'', PInt (plan_stage_count st)),
     (''reference_orders_omitted'', PList (map (\<lambda>(a, b). PList [PStr a, PStr b]) (reference_orders_omitted st)))]"

definition read_value :: "pyval \<Rightarrow> state_value res" where
  "read_value v = bnd (item v ''state_id'') (\<lambda>_. bnd (field (as_list as_int) v ''contributors'') (\<lambda>contributors.
     bnd (call_fields [''state_id'', ''rank'', ''logical_position'', ''contributors'', ''producer''] [] v) (\<lambda>_.
     bnd (field as_str v ''state_id'') (\<lambda>ident. bnd (field as_int v ''rank'') (\<lambda>r. bnd (field as_int v ''logical_position'') (\<lambda>position.
     bnd (field (as_option as_str) v ''producer'') (\<lambda>producer.
     Inr \<lparr>val_id = ident, val_rank = r, val_position = position, val_contributors = set contributors, val_producer = producer\<rparr>)))))))"

definition read_instruction :: "pyval \<Rightarrow> instruction res" where
  "read_instruction v = bnd (field (as_list as_str) v ''inputs'') (\<lambda>ins. bnd (field (as_list as_int) v ''participants'') (\<lambda>participants.
     bnd (field (as_list as_str) v ''dependencies'') (\<lambda>dependencies.
     bnd (call_fields [''operation_id'', ''kind'', ''inputs'', ''output'', ''rank'', ''peer'', ''channel'', ''stage_id'', ''participants'', ''dependencies'', ''priority_time''] [] v) (\<lambda>_.
     bnd (field as_str v ''operation_id'') (\<lambda>ident. bnd (field as_str v ''kind'') (\<lambda>knd. bnd (field as_str v ''output'') (\<lambda>out.
     bnd (field as_int v ''rank'') (\<lambda>r. bnd (field as_int v ''peer'') (\<lambda>peer. bnd (field as_int v ''channel'') (\<lambda>chan. bnd (field as_int v ''stage_id'') (\<lambda>stage.
     bnd (field as_float v ''priority_time'') (\<lambda>prio.
     Inr \<lparr>ins_id = ident, ins_kind = knd, ins_inputs = ins, ins_output = out, ins_rank = r, ins_peer = peer, ins_channel = chan, ins_stage = stage,
          ins_participants = participants, ins_dependencies = set dependencies, ins_priority = prio\<rparr>))))))))))))"

definition read_address :: "pyval \<Rightarrow> address res" where
  "read_address v = bnd (call_fields [''rank'', ''buffer'', ''offset''] [] v) (\<lambda>_.
     bnd (field as_int v ''rank'') (\<lambda>r. bnd (field as_str v ''buffer'') (\<lambda>b. bnd (field as_int v ''offset'') (\<lambda>n. Inr (Address r b n)))))"

text \<open>A reuse entry stays a dictionary in the source; here it is the record of its fields.\<close>

definition read_reuse :: "pyval \<Rightarrow> reuse_entry res" where
  "read_reuse v = bnd (field as_str v ''writer'') (\<lambda>writer. bnd (field as_str v ''old_state'') (\<lambda>old. bnd (field as_str v ''new_state'') (\<lambda>new.
     bnd (field (as_list as_str) v ''previous_readers'') (\<lambda>prev. bnd (field as_int v ''rank'') (\<lambda>r. bnd (field as_int v ''offset'') (\<lambda>n.
     Inr \<lparr>reuse_writer = writer, old_state = old, new_state = new, previous_readers = prev, reuse_rank = r, reuse_offset = n\<rparr>))))))"

definition read_output :: "pyval \<Rightarrow> (output_slot \<times> string) res" where
  "read_output v = bnd (field as_int v ''rank'') (\<lambda>r. bnd (field as_int v ''offset'') (\<lambda>n. 
     ensure (0 \<le> r) (SemanticError ''output_slot.rank must be non-negative'') (ensure (0 \<le> n) (SemanticError ''output_slot.offset must be non-negative'') (
     bnd (field as_str v ''state_id'') (\<lambda>k. Inr (OutputSlot r n, k))))))"

definition read_slots :: "pyval \<Rightarrow> (int, int) dict res" where
  "read_slots v = bnd (entries v) (\<lambda>d. bnd (map_res (\<lambda>(k, x). bnd (int_key k) (\<lambda>i. bnd (as_int x) (\<lambda>n. Inr (i, n)))) d) (\<lambda>ps. Inr (dict_of ps)))"

definition read_addresses :: "pyval \<Rightarrow> (string, address) dict res" where
  "read_addresses v = bnd (entries v) (\<lambda>d. bnd (map_res (\<lambda>(k, x). bnd (read_address x) (\<lambda>a. Inr (key_str k, a))) d) (\<lambda>ps. Inr (dict_of ps)))"

definition read_pair :: "pyval \<Rightarrow> (string \<times> string) res" where
  "read_pair v = bnd (as_list as_str v) (\<lambda>xs. case xs of [a, b] \<Rightarrow> Inr (a, b) | _ \<Rightarrow> Inl TypeError)"

definition deserialize_storage :: "pyval \<Rightarrow> storage_plan res" where
  "deserialize_storage raw =
     bnd (field (as_list read_value) raw ''values'') (\<lambda>vs.
     let values = dict_of (map (\<lambda>v. (val_id v, v)) vs) in
     ensure (length values = length vs) (SemanticError ''duplicate state identities in sidecar'') (
     bnd (field (as_list read_instruction) raw ''instructions'') (\<lambda>ins.
     bnd (field read_addresses raw ''addresses'') (\<lambda>addrs.
     bnd (field (as_list read_output) raw ''outputs'') (\<lambda>outs.
     let outputs = dict_of outs in
     ensure (length outputs = length outs) (SemanticError ''duplicate output bindings in sidecar'') (
     bnd (field (as_list as_str) raw ''initial_ids'') (\<lambda>initial.
     bnd (field read_slots raw ''input_slots'') (\<lambda>islots. bnd (field read_slots raw ''output_slots'') (\<lambda>oslots. bnd (field read_slots raw ''scratch_slots'') (\<lambda>sslots.
     bnd (field (as_list read_reuse) raw ''reuse'') (\<lambda>reused. bnd (field as_int raw ''stage_count'') (\<lambda>stages.
     bnd (field (as_list read_pair) raw ''reference_orders_omitted'') (\<lambda>omitted.
     Inr \<lparr>plan_values = values, initial_ids = initial, instructions = ins, addresses = addrs, plan_outputs = outputs, input_slots = islots,
          output_slots = oslots, scratch_slots = sslots, reuse = reused, plan_stage_count = stages, reference_orders_omitted = omitted\<rparr>)))))))))))))"

section \<open>Native programs\<close>

definition step_dict :: "native_step \<Rightarrow> pyval" where
  "step_dict s = obj [(''step_id'', PStr (nstep_id s)), (''operation_id'', PStr (nstep_op s)), (''kind'', PStr (nstep_kind s)), (''src'', opt address_dict (nstep_src s)),
     (''dst'', opt address_dict (nstep_dst s)), (''dependency_tb'', PInt (nstep_dep_tb s)), (''dependency_step'', PInt (nstep_dep_step s)),
     (''has_dependence'', PBool (nstep_has_dep s)), (''count'', PInt (nstep_count s))]"

definition block_dict :: "native_block \<Rightarrow> pyval" where
  "block_dict b = obj [(''rank'', PInt (nb_rank b)), (''tb_id'', PInt (nb_tb_id b)), (''channel'', PInt (nb_channel b)), (''send_peer'', PInt (nb_send_peer b)),
     (''recv_peer'', PInt (nb_recv_peer b)), (''steps'', PList (map step_dict (nb_steps b)))]"

definition serialize_program :: "native_program \<Rightarrow> pyval" where
  "serialize_program prog = obj [(''rank_count'', PInt (np_rank_count prog)), (''channels'', PInt (np_channels prog)), (''chunks_per_loop'', PInt (np_chunks_per_loop prog)),
     (''blocks'', PList (map (\<lambda>b. plain (block_dict b)) (np_blocks prog))), (''input_slots'', slots_dict (np_input_slots prog)),
     (''output_slots'', slots_dict (np_output_slots prog)), (''scratch_slots'', slots_dict (np_scratch_slots prog))]"

definition default_field :: "(pyval \<Rightarrow> 'a res) \<Rightarrow> pyval \<Rightarrow> string \<Rightarrow> 'a \<Rightarrow> 'a res" where
  "default_field f v k x = (case item v k of Inl _ \<Rightarrow> Inr x | Inr y \<Rightarrow> f y)"

definition read_step :: "pyval \<Rightarrow> native_step res" where
  "read_step v = bnd (field (as_option read_address) v ''src'') (\<lambda>src. bnd (field (as_option read_address) v ''dst'') (\<lambda>dst.
     bnd (call_fields [''step_id'', ''operation_id'', ''kind'', ''src'', ''dst''] [''dependency_tb'', ''dependency_step'', ''has_dependence'', ''count''] v) (\<lambda>_.
     bnd (field as_str v ''step_id'') (\<lambda>sid. bnd (field as_str v ''operation_id'') (\<lambda>op. bnd (field as_str v ''kind'') (\<lambda>knd.
     bnd (default_field as_int v ''dependency_tb'' (-1)) (\<lambda>tb. bnd (default_field as_int v ''dependency_step'' (-1)) (\<lambda>i.
     bnd (default_field as_bool v ''has_dependence'' False) (\<lambda>hasdep. bnd (default_field as_int v ''count'' 1) (\<lambda>n.
     Inr \<lparr>nstep_id = sid, nstep_op = op, nstep_kind = knd, nstep_src = src, nstep_dst = dst, nstep_dep_tb = tb, nstep_dep_step = i,
          nstep_has_dep = hasdep, nstep_count = n\<rparr>))))))))))"

definition read_block :: "pyval \<Rightarrow> native_block res" where
  "read_block v = bnd (field (as_list read_step) v ''steps'') (\<lambda>steps.
     bnd (call_fields [''rank'', ''tb_id'', ''channel'', ''send_peer'', ''recv_peer'', ''steps''] [] v) (\<lambda>_.
     bnd (field as_int v ''rank'') (\<lambda>r. bnd (field as_int v ''tb_id'') (\<lambda>tb. bnd (field as_int v ''channel'') (\<lambda>chan.
     bnd (field as_int v ''send_peer'') (\<lambda>send. bnd (field as_int v ''recv_peer'') (\<lambda>recv.
     Inr \<lparr>nb_rank = r, nb_tb_id = tb, nb_channel = chan, nb_send_peer = send, nb_recv_peer = recv, nb_steps = steps\<rparr>)))))))"

definition deserialize_program :: "pyval \<Rightarrow> native_program res" where
  "deserialize_program raw = bnd (field (as_list read_block) raw ''blocks'') (\<lambda>blocks.
     bnd (field as_int raw ''rank_count'') (\<lambda>ranks. bnd (field as_int raw ''channels'') (\<lambda>chans. bnd (field as_int raw ''chunks_per_loop'') (\<lambda>chunks.
     bnd (field read_slots raw ''input_slots'') (\<lambda>islots. bnd (field read_slots raw ''output_slots'') (\<lambda>oslots. bnd (field read_slots raw ''scratch_slots'') (\<lambda>sslots.
     Inr \<lparr>np_rank_count = ranks, np_channels = chans, np_chunks_per_loop = chunks, np_blocks = blocks, np_input_slots = islots,
          np_output_slots = oslots, np_scratch_slots = sslots\<rparr>)))))))"

section \<open>Printing and reading integers\<close>

lemma digit_char_is_digit: "c \<in> set (str_nat n) \<Longrightarrow> is_digit c"
  using str_nat_digits by (simp add: is_digit_def)

lemma str_nat_nonempty: "str_nat n \<noteq> []"
  by (subst str_nat.simps) simp

lemma digit_plain: "is_digit c \<Longrightarrow> c \<noteq> CHR ''_'' \<and> c \<noteq> CHR ''-'' \<and> c \<noteq> CHR ''+'' \<and> \<not> is_blank c"
  by (auto simp: is_digit_def is_blank_def)

lemma digit_groups_digits: "xs \<noteq> [] \<Longrightarrow> \<forall>c\<in>set xs. is_digit c \<Longrightarrow> digit_groups xs"
  by (induction xs rule: digit_groups.induct) (auto dest: digit_plain)

lemma parse_unsigned_str_nat: "parse_unsigned s (str_nat n) = Inr (int n)"
proof -
  have "filter (\<lambda>c. c \<noteq> CHR ''_'') (str_nat n) = str_nat n" using digit_plain digit_char_is_digit by (auto simp: filter_id_conv)
  then show ?thesis using digit_groups_digits [OF str_nat_nonempty] digit_char_is_digit by (simp add: parse_unsigned_def ensure_def parse_str_nat)
qed

lemma strip_plain: "xs \<noteq> [] \<Longrightarrow> \<not> is_blank (hd xs) \<Longrightarrow> \<not> is_blank (last xs) \<Longrightarrow> strip xs = xs"
proof -
  assume xs: "xs \<noteq> []" "\<not> is_blank (hd xs)" "\<not> is_blank (last xs)"
  then have "dropWhile is_blank xs = xs" by (cases xs) auto
  moreover have "dropWhile is_blank (rev xs) = rev xs" using xs by (cases xs rule: rev_cases) auto
  ultimately show ?thesis by (simp add: strip_def)
qed

lemma parse_int_str_int: "parse_int (str_int i) = Inr i"
proof (cases "i < 0")
  case True
  let ?ds = "str_nat (nat (- i))"
  have "is_digit (last ?ds)" using digit_char_is_digit [of "last ?ds" "nat (- i)"] str_nat_nonempty [of "nat (- i)"] by simp
  then have "\<not> is_blank (last ?ds)" using digit_plain by blast
  then have "strip (CHR ''-'' # ?ds) = CHR ''-'' # ?ds" using str_nat_nonempty by (intro strip_plain) (auto simp: is_blank_def)
  then show ?thesis using True by (simp add: parse_int_def str_int_def parse_unsigned_str_nat bnd_def)
next
  case False
  let ?ds = "str_nat (nat i)"
  have d: "is_digit (hd ?ds)" "is_digit (last ?ds)" using digit_char_is_digit [of _ "nat i"] str_nat_nonempty [of "nat i"] by simp_all
  then have "strip ?ds = ?ds" using str_nat_nonempty digit_plain by (intro strip_plain) auto
  moreover obtain c cs where "?ds = c # cs" "c \<noteq> CHR ''-''" "c \<noteq> CHR ''+''" using d(1) str_nat_nonempty [of "nat i"] digit_plain by (cases ?ds) auto
  ultimately show ?thesis using False parse_unsigned_str_nat [of ?ds "nat i"] by (auto simp: parse_int_def str_int_def split: list.splits char.splits bool.splits)
qed

section \<open>Round trips\<close>

named_theorems sidecar \<open>reading what was written\<close>

lemma map_res_map: "(\<And>x. x \<in> set xs \<Longrightarrow> f (g x) = Inr (h x)) \<Longrightarrow> map_res f (map g xs) = Inr (map h xs)"
  by (induction xs) (auto simp: bnd_def)

lemma bnd_Inr [sidecar]: "bnd (Inr x) f = f x"
  by (simp add: bnd_def)

lemma obj_entries: "wf_dict kvs \<Longrightarrow> dict_of (map (\<lambda>(k, v). (KStr k, f v)) kvs) = map (\<lambda>(k, v). (KStr k, f v)) kvs"
  by (rule dict_of_distinct) (auto simp: distinct_map comp_def split_def inj_on_def)

lemma plain_obj: "wf_dict kvs \<Longrightarrow> plain (obj kvs) = obj (map (\<lambda>(k, v). (k, plain v)) kvs)"
  using obj_entries [of kvs plain] by (simp add: obj_def comp_def split_def)

lemma reload_obj:
  assumes "wf_dict kvs" "\<And>k v. (k, v) \<in> set kvs \<Longrightarrow> json_reload v = Inr (h v)"
  shows "json_reload (obj kvs) = Inr (obj (map (\<lambda>(k, v). (k, h v)) kvs))"
proof -
  have "map_res (\<lambda>(k, v). bnd (json_reload v) (\<lambda>v'. Inr (KStr (key_str k), v'))) (map (\<lambda>(k, v). (KStr k, v)) kvs) = Inr (map (\<lambda>(k, v). (KStr k, h v)) kvs)"
    using assms(2) by (intro map_res_map) (auto simp: bnd_def)
  then show ?thesis using obj_entries [OF assms(1), of h] by (simp add: obj_def bnd_def comp_def split_def)
qed

text \<open>Values that a text file does not change.\<close>

definition stable :: "pyval \<Rightarrow> bool" where
  "stable v \<longleftrightarrow> json_reload v = Inr v"

lemma stable_leaf [simp]: "stable PNone" "stable (PBool b)" "stable (PInt i)" "stable (PFloat r)" "stable (PStr s)"
  by (simp_all add: stable_def)

lemma stable_list [simp]: "stable (PList xs) \<longleftrightarrow> (\<forall>x\<in>set xs. stable x)"
proof -
  have "map_res json_reload xs = Inr xs \<longleftrightarrow> (\<forall>x\<in>set xs. json_reload x = Inr x)"
    unfolding map_res_Inr_iff list_all2_conv_all_nth by (metis in_set_conv_nth)
  then show ?thesis by (auto simp: stable_def bnd_def split: sum.splits)
qed

lemma stable_obj: "wf_dict kvs \<Longrightarrow> \<forall>(k, v)\<in>set kvs. stable v \<Longrightarrow> stable (obj kvs)"
  using reload_obj [of kvs id] by (auto simp: stable_def)

lemma item_obj [sidecar]: "item (obj kvs) k = (case map_of kvs k of None \<Rightarrow> Inl (KeyError k) | Some x \<Rightarrow> Inr x)"
proof -
  have "map_of (map (\<lambda>(k, v). (KStr k, v)) kvs) (KStr k) = map_of kvs k" by (induction kvs) auto
  then show ?thesis by (simp add: item_def obj_def)
qed

lemma call_fields_obj [sidecar]:
  "call_fields required optional (obj kvs) = ensure (set (dict_keys kvs) \<subseteq> set (required @ optional) \<and> set required \<subseteq> set (dict_keys kvs)) TypeError (Inr ())"
proof -
  have keys: "set (dict_keys (map (\<lambda>(k, v). (KStr k, v)) kvs)) = KStr ` set (dict_keys kvs)" by force
  have sub: "KStr ` A \<subseteq> KStr ` B \<longleftrightarrow> A \<subseteq> B" for A B by auto
  show ?thesis unfolding call_fields_def obj_def entries_def pyval.case bnd_Inr keys sub ..
qed

lemma leaf_reads [sidecar]: "as_int (PInt i) = Inr i" "as_float (PFloat r) = Inr r" "as_bool (PBool b) = Inr b" "as_str (PStr s) = Inr s"
  "as_option f PNone = Inr None"
  by (simp_all add: as_int_def as_float_def as_bool_def as_str_def as_option_def)

lemma as_option_opt [sidecar]:
  assumes "\<And>x. o' = Some x \<Longrightarrow> f (g x) = Inr x" "\<And>x. o' = Some x \<Longrightarrow> g x \<noteq> PNone"
  shows "as_option f (opt g o') = Inr o'"
  using assms by (cases o') (auto simp: as_option_def opt_def bnd_def split: pyval.splits)

lemma as_list_map: "(\<And>x. x \<in> set xs \<Longrightarrow> f (g x) = Inr (h x)) \<Longrightarrow> as_list f (PList (map g xs)) = Inr (map h xs)"
  using map_res_map [of xs f g h] by (simp add: as_list_def)

lemma as_list_leaves [sidecar]: "as_list as_int (PList (map PInt is)) = Inr is" "as_list as_str (PList (map PStr ss)) = Inr ss"
  using as_list_map [of "is" as_int PInt id] as_list_map [of ss as_str PStr id] by (simp_all add: leaf_reads)

text \<open>Records.\<close>

lemma plain_opt: "plain (opt PStr x) = opt PStr x"
  by (cases x) (simp_all add: opt_def)

lemma plain_value: "plain (value_dict v) = obj [(''state_id'', PStr (val_id v)), (''rank'', PInt (val_rank v)), (''logical_position'', PInt (val_position v)),
    (''contributors'', PList (map PInt (sorted_list_of_set (val_contributors v)))), (''producer'', opt PStr (val_producer v))]"
  by (simp add: value_dict_def plain_obj plain_opt)

lemma stable_opt: "stable (opt PStr x)"
  by (cases x) (simp_all add: opt_def)

lemma stable_value: "stable (plain (value_dict v))"
  unfolding plain_value by (rule stable_obj) (auto simp: stable_opt)

lemma read_plain_value: "finite (val_contributors v) \<Longrightarrow> read_value (plain (value_dict v)) = Inr v"
  unfolding plain_value read_value_def field_def by (simp add: sidecar ensure_def)

lemma plain_instruction: "plain (instruction_dict op) = obj [(''operation_id'', PStr (ins_id op)), (''kind'', PStr (ins_kind op)), (''inputs'', PList (map PStr (ins_inputs op))),
     (''output'', PStr (ins_output op)), (''rank'', PInt (ins_rank op)), (''peer'', PInt (ins_peer op)), (''channel'', PInt (ins_channel op)),
     (''stage_id'', PInt (ins_stage op)), (''participants'', PList (map PInt (ins_participants op))),
     (''dependencies'', PList (map PStr (sorted_list_of_set (ins_dependencies op)))), (''priority_time'', PFloat (ins_priority op))]"
  by (simp add: instruction_dict_def plain_obj comp_def)

lemma stable_instruction: "stable (plain (instruction_dict op))"
  unfolding plain_instruction by (rule stable_obj) auto

lemma read_plain_instruction: "finite (ins_dependencies op) \<Longrightarrow> read_instruction (plain (instruction_dict op)) = Inr op"
  unfolding plain_instruction read_instruction_def field_def by (simp add: sidecar ensure_def)

lemma stable_address: "stable (address_dict a)"
  unfolding address_dict_def by (rule stable_obj) auto

lemma read_address_dict [sidecar]: "read_address (address_dict a) = Inr a"
  unfolding address_dict_def read_address_def field_def by (simp add: sidecar ensure_def)

lemma stable_reuse: "stable (reuse_dict e)"
  unfolding reuse_dict_def by (rule stable_obj) auto

lemma read_reuse_dict: "read_reuse (reuse_dict e) = Inr e"
  unfolding reuse_dict_def read_reuse_def field_def by (simp add: sidecar)

lemma stable_output: "stable (output_dict e)"
  unfolding output_dict_def by (cases e) (auto intro!: stable_obj)

lemma read_output_dict: "0 \<le> slot_rank (fst e) \<Longrightarrow> 0 \<le> slot_offset (fst e) \<Longrightarrow> read_output (output_dict e) = Inr e"
  unfolding output_dict_def read_output_def field_def by (cases e) (simp add: sidecar ensure_def)

text \<open>Slot counts are keyed by rank, which the text writes as strings.\<close>

definition slots_text :: "(int, int) dict \<Rightarrow> pyval" where
  "slots_text d = obj (map (\<lambda>(k, v). (str_int k, PInt v)) d)"

lemma reload_slots:
  assumes "wf_dict d"
  shows "json_reload (slots_dict d) = Inr (slots_text d)"
proof -
  have "map_res (\<lambda>(k, v). bnd (json_reload v) (\<lambda>v'. Inr (KStr (key_str k), v'))) (map (\<lambda>(k, v). (KInt k, PInt v)) d) = Inr (map (\<lambda>(k, v). (KStr (str_int k), PInt v)) d)"
    by (rule map_res_map) (auto simp: bnd_def)
  moreover have "wf_dict (map (\<lambda>(k, v). (KStr (str_int k), PInt v)) d)" using assms by (auto simp: distinct_map comp_def split_def inj_on_def)
  ultimately show ?thesis by (simp add: slots_dict_def slots_text_def obj_def bnd_def dict_of_distinct comp_def split_def)
qed

lemma read_slots_text [sidecar]: "wf_dict d \<Longrightarrow> read_slots (slots_text d) = Inr d"
proof -
  assume wf: "wf_dict d"
  have "map_res (\<lambda>(k, x). bnd (int_key k) (\<lambda>i. bnd (as_int x) (\<lambda>n. Inr (i, n)))) (map (\<lambda>(k, v). (KStr (str_int k), PInt v)) d) = Inr (map id d)"
    by (rule map_res_map) (auto simp: parse_int_str_int sidecar)
  then show ?thesis using dict_of_distinct [OF wf] by (simp add: read_slots_def slots_text_def obj_def entries_def bnd_def comp_def split_def)
qed

lemma stable_addresses: "wf_dict d \<Longrightarrow> stable (obj (map (\<lambda>(k, a). (k, address_dict a)) d))"
  by (rule stable_obj) (auto simp: comp_def split_def stable_address)

lemma read_addresses_obj [sidecar]: "wf_dict d \<Longrightarrow> read_addresses (obj (map (\<lambda>(k, a). (k, address_dict a)) d)) = Inr d"
proof -
  assume wf: "wf_dict d"
  have "map_res (\<lambda>(k, x). bnd (read_address x) (\<lambda>a. Inr (key_str k, a))) (map (\<lambda>(k, a). (KStr k, address_dict a)) d) = Inr (map id d)"
    by (rule map_res_map) (auto simp: sidecar)
  then show ?thesis using dict_of_distinct [OF wf] by (simp add: read_addresses_def obj_def entries_def bnd_def comp_def split_def)
qed

lemma read_pairs [sidecar]: "as_list read_pair (PList (map (\<lambda>(a, b). PList [PStr a, PStr b]) ps)) = Inr ps"
proof -
  have "as_list as_str (PList [PStr a, PStr b]) = Inr [a, b]" for a b by (simp add: as_list_def sidecar)
  then show ?thesis using as_list_map [of ps read_pair "\<lambda>(a, b). PList [PStr a, PStr b]" id] by (auto simp: read_pair_def bnd_def)
qed

text \<open>What the planner guarantees of a plan: dictionaries have distinct keys, values are filed under their identity, sets are finite.\<close>

definition storage_ok :: "storage_plan \<Rightarrow> bool" where
  "storage_ok st \<longleftrightarrow> wf_dict (plan_values st) \<and> (\<forall>(k, v)\<in>set (plan_values st). k = val_id v \<and> finite (val_contributors v)) \<and>
     (\<forall>op\<in>set (instructions st). finite (ins_dependencies op)) \<and> wf_dict (addresses st) \<and> wf_dict (plan_outputs st) \<and>
     (\<forall>(slot, _)\<in>set (plan_outputs st). 0 \<le> slot_rank slot \<and> 0 \<le> slot_offset slot) \<and>
     wf_dict (input_slots st) \<and> wf_dict (output_slots st) \<and> wf_dict (scratch_slots st)"

definition storage_text :: "storage_plan \<Rightarrow> pyval" where
  "storage_text st = obj [(''values'', PList (map (\<lambda>(_, v). plain (value_dict v)) (plan_values st))), (''initial_ids'', PList (map PStr (initial_ids st))),
     (''instructions'', PList (map (\<lambda>op. plain (instruction_dict op)) (instructions st))),
     (''addresses'', obj (map (\<lambda>(k, a). (k, address_dict a)) (addresses st))), (''outputs'', PList (map output_dict (plan_outputs st))),
     (''input_slots'', slots_text (input_slots st)), (''output_slots'', slots_text (output_slots st)), (''scratch_slots'', slots_text (scratch_slots st)),
     (''reuse'', PList (map reuse_dict (reuse st))), (''stage_count'', PInt (plan_stage_count st)),
     (''reference_orders_omitted'', PList (map (\<lambda>(a, b). PList [PStr a, PStr b]) (reference_orders_omitted st)))]"

lemma reload_storage:
  assumes "storage_ok st"
  shows "json_reload (serialize_storage st) = Inr (storage_text st)"
proof -
  have s: "json_reload v = Inr v" if "stable v" for v using that by (simp add: stable_def)
  have "stable (PList (map (\<lambda>(_, v). plain (value_dict v)) (plan_values st)))" "stable (PList (map PStr (initial_ids st)))"
    "stable (PList (map (\<lambda>op. plain (instruction_dict op)) (instructions st)))" "stable (PList (map output_dict (plan_outputs st)))"
    "stable (PList (map reuse_dict (reuse st)))" "stable (PInt (plan_stage_count st))"
    "stable (PList (map (\<lambda>(a, b). PList [PStr a, PStr b]) (reference_orders_omitted st)))"
    "stable (obj (map (\<lambda>(k, a). (k, address_dict a)) (addresses st)))"
    using assms by (auto simp: stable_value stable_instruction stable_output stable_reuse stable_addresses storage_ok_def)
  note st = this [THEN s]
  have sl: "json_reload (slots_dict (input_slots st)) = Inr (slots_text (input_slots st))" "json_reload (slots_dict (output_slots st)) = Inr (slots_text (output_slots st))"
    "json_reload (slots_dict (scratch_slots st)) = Inr (slots_text (scratch_slots st))" using assms by (simp_all add: reload_slots storage_ok_def)
  show ?thesis unfolding serialize_storage_def
    by (subst reload_obj [where h = "\<lambda>v. projr (json_reload v)"]) (auto simp only: st sl, simp, auto simp add: st sl storage_text_def simp del: json_reload.simps)
qed

lemma storage_reload:
  assumes "storage_ok st"
  shows "bnd (json_reload (serialize_storage st)) deserialize_storage = Inr st"
proof -
  have ok: "wf_dict (plan_values st)" "\<forall>(k, v)\<in>set (plan_values st). k = val_id v \<and> finite (val_contributors v)" "\<forall>op\<in>set (instructions st). finite (ins_dependencies op)"
    "wf_dict (addresses st)" "wf_dict (plan_outputs st)" "\<forall>(slot, _)\<in>set (plan_outputs st). 0 \<le> slot_rank slot \<and> 0 \<le> slot_offset slot"
    "wf_dict (input_slots st)" "wf_dict (output_slots st)" "wf_dict (scratch_slots st)" using assms by (simp_all add: storage_ok_def)
  have "as_list read_value (PList (map (\<lambda>(_, v). plain (value_dict v)) (plan_values st))) = Inr (map snd (plan_values st))"
    using ok(2) by (intro as_list_map) (auto simp: read_plain_value)
  moreover have "map (\<lambda>v. (val_id v, v)) (map snd (plan_values st)) = plan_values st" unfolding map_map by (rule map_idI) (use ok(2) in auto)
  then have "dict_of (map (\<lambda>v. (val_id v, v)) (map snd (plan_values st))) = plan_values st" using dict_of_distinct [OF ok(1)] by simp
  moreover have "as_list read_instruction (PList (map (\<lambda>op. plain (instruction_dict op)) (instructions st))) = Inr (instructions st)"
    using ok(3) as_list_map [of "instructions st" read_instruction "\<lambda>op. plain (instruction_dict op)" id] by (simp add: read_plain_instruction)
  moreover have "as_list read_output (PList (map output_dict (plan_outputs st))) = Inr (plan_outputs st)"
    by (subst as_list_map [where h = id]) (use ok(6) in \<open>auto simp: read_output_dict\<close>)
  moreover have "as_list read_reuse (PList (map reuse_dict (reuse st))) = Inr (reuse st)"
    using as_list_map [of "reuse st" read_reuse reuse_dict id] by (simp add: read_reuse_dict)
  ultimately have "deserialize_storage (storage_text st) = Inr st"
    using ok dict_of_distinct [OF ok(5)] unfolding deserialize_storage_def storage_text_def field_def by (simp add: sidecar ensure_def)
  then show ?thesis using reload_storage [OF assms] by (simp add: bnd_def)
qed

text \<open>
  C24. A storage plan that is written to the sidecar, printed as JSON text and read back is the same plan, with its integer keys, sets and
  the order of its dictionaries.
\<close>

theorem storage_round_trip:
  assumes "storage_ok st"
  shows "bnd (json_reload (serialize_storage st)) deserialize_storage = Inr st"
  by (rule storage_reload [OF assms])

definition copied_plan :: storage_plan where
  "copied_plan = \<lparr>plan_values = [(''x'', \<lparr>val_id = ''x'', val_rank = 0, val_position = 0, val_contributors = {0}, val_producer = None\<rparr>),
       (''y'', \<lparr>val_id = ''y'', val_rank = 0, val_position = 0, val_contributors = {0}, val_producer = Some ''a''\<rparr>)], initial_ids = [''x''],
     instructions = [\<lparr>ins_id = ''a'', ins_kind = ''copy'', ins_inputs = [''x''], ins_output = ''y'', ins_rank = 0, ins_peer = -1, ins_channel = -1, ins_stage = 0,
       ins_participants = [0], ins_dependencies = {}, ins_priority = 1\<rparr>],
     addresses = [(''x'', Address 0 ''i'' 0), (''y'', Address 0 ''o'' 0)], plan_outputs = [(OutputSlot 0 0, ''y'')], input_slots = [(0, 1)],
     output_slots = [(0, 1)], scratch_slots = [(0, 0)], reuse = [], plan_stage_count = 1, reference_orders_omitted = []\<rparr>"

theorem storage_round_trip_witness:
  "storage_ok copied_plan \<and> bnd (json_reload (serialize_storage copied_plan)) deserialize_storage = Inr copied_plan"
proof -
  have "storage_ok copied_plan" by (simp add: storage_ok_def copied_plan_def)
  then show ?thesis using storage_round_trip by blast
qed

lemma field_as_list: "field (as_list f) v k = Inr ys \<Longrightarrow> \<exists>xs. list_all2 (\<lambda>x y. f x = Inr y) xs ys"
proof -
  assume "field (as_list f) v k = Inr ys"
  then obtain w where "as_list f w = Inr ys" by (auto simp: field_def res_simps)
  then show ?thesis by (cases w) (auto simp: as_list_def map_res_Inr_iff)
qed

text \<open>
  C26. A sidecar in which two states have the same identity is refused with that error, and whatever document is accepted gives a
  well-formed plan with exactly the states of the document: distinct keys, values under their identities and output slots that exist.
\<close>

theorem deserialize_storage_checks:
  assumes "field (as_list read_value) raw ''values'' = Inr vs"
  shows "(\<not> distinct (map val_id vs) \<longrightarrow> deserialize_storage raw = Inl (SemanticError ''duplicate state identities in sidecar'')) \<and>
    (\<forall>st. deserialize_storage raw = Inr st \<longrightarrow> storage_ok st \<and> map snd (plan_values st) = vs)"
proof -
  have len: "length (dict_of kvs) = length kvs \<longleftrightarrow> wf_dict kvs" for kvs :: "('a \<times> 'b) list"
    using length_dict_of [of "[]" kvs] dict_of_distinct [of kvs] by (auto simp: dict_of_def)
  have comp: "map fst (map (\<lambda>v. (val_id v, v)) vs) = map val_id vs" by simp
  have fin: "finite (val_contributors v)" if "v \<in> set vs" for v
  proof -
    from assms obtain xs where "list_all2 (\<lambda>x v. read_value x = Inr v) xs vs"
      using field_as_list by blast
    from list_all2_mem2 [OF this that] show ?thesis by (auto simp: read_value_def res_simps)
  qed
  have "storage_ok st \<and> map snd (plan_values st) = vs" if acc: "deserialize_storage raw = Inr st" for st
  proof -
    obtain ins addrs outs islots oslots sslots where
      wf0: "length (dict_of (map (\<lambda>v. (val_id v, v)) vs)) = length vs" "wf_dict outs" and
      rd: "field (as_list read_instruction) raw ''instructions'' = Inr ins" "field read_addresses raw ''addresses'' = Inr addrs" "field (as_list read_output) raw ''outputs'' = Inr outs"
        "field read_slots raw ''input_slots'' = Inr islots" "field read_slots raw ''output_slots'' = Inr oslots" "field read_slots raw ''scratch_slots'' = Inr sslots" and
      st0: "plan_values st = dict_of (map (\<lambda>v. (val_id v, v)) vs)" "instructions st = ins" "addresses st = addrs" "plan_outputs st = outs" "input_slots st = islots"
        "output_slots st = oslots" "scratch_slots st = sslots"
      using acc unfolding deserialize_storage_def assms Let_def len [symmetric] by (auto simp: res_simps len dict_of_distinct)
    have wf: "wf_dict (map (\<lambda>v. (val_id v, v)) vs)" "wf_dict outs" using wf0 len [of "map (\<lambda>v. (val_id v, v)) vs"] by simp_all
    note st = st0(1) [unfolded dict_of_distinct [OF wf(1)]] st0(2-)
    have "finite (ins_dependencies op)" if "op \<in> set ins" for op
    proof -
      from rd(1) obtain xs where "list_all2 (\<lambda>x v. read_instruction x = Inr v) xs ins"
        using field_as_list by blast
      from list_all2_mem2 [OF this that] show ?thesis by (auto simp: read_instruction_def res_simps)
    qed
    moreover have "0 \<le> slot_rank slot \<and> 0 \<le> slot_offset slot" if "(slot, k) \<in> set outs" for slot k
    proof -
      from rd(3) obtain xs where "list_all2 (\<lambda>x v. read_output x = Inr v) xs outs"
        using field_as_list by blast
      from list_all2_mem2 [OF this that] show ?thesis by (auto simp: read_output_def res_simps)
    qed
    moreover have "wf_dict addrs" "wf_dict islots" "wf_dict oslots" "wf_dict sslots"
      using rd(2,4-6) by (auto simp: field_def read_addresses_def read_slots_def res_simps)
    ultimately show ?thesis using wf fin by (auto simp: storage_ok_def st comp_def)
  qed
  moreover have "deserialize_storage raw = Inl (SemanticError ''duplicate state identities in sidecar'')" if "\<not> distinct (map val_id vs)"
    using that len [of "map (\<lambda>v. (val_id v, v)) vs"] unfolding comp deserialize_storage_def assms by (simp add: bnd_def ensure_def)
  ultimately show ?thesis by blast
qed

definition doubled_text :: pyval where
  "doubled_text = obj [(''values'', PList [plain (value_dict (snd (hd (plan_values copied_plan)))), plain (value_dict (snd (hd (plan_values copied_plan))))])]"

theorem deserialize_storage_checks_witness:
  "deserialize_storage doubled_text = Inl (SemanticError ''duplicate state identities in sidecar'')"
proof -
  have "field (as_list read_value) doubled_text ''values'' = Inr [snd (hd (plan_values copied_plan)), snd (hd (plan_values copied_plan))]"
    unfolding doubled_text_def by (simp add: field_def item_obj as_list_def read_plain_value bnd_def copied_plan_def)
  from deserialize_storage_checks [OF this] show ?thesis by simp
qed

section \<open>Programs\<close>

lemma plain_address: "plain (address_dict a) = address_dict a"
  by (simp add: address_dict_def plain_obj)

lemma plain_opt_address: "plain (opt address_dict x) = opt address_dict x"
  by (cases x) (simp_all add: opt_def plain_address)

lemma plain_step: "plain (step_dict s) = step_dict s"
  by (simp add: step_dict_def plain_obj plain_opt_address)

lemma plain_block: "plain (block_dict b) = block_dict b"
  by (simp add: block_dict_def plain_obj plain_step comp_def)

lemma stable_step: "stable (step_dict s)"
proof -
  have "stable (opt address_dict x)" for x by (cases x) (simp_all add: opt_def stable_address)
  then show ?thesis unfolding step_dict_def by (intro stable_obj) auto
qed

lemma stable_block: "stable (block_dict b)"
  unfolding block_dict_def by (rule stable_obj) (auto simp: stable_step)

lemma read_step_dict: "read_step (step_dict s) = Inr s"
proof -
  have "as_option read_address (opt address_dict x) = Inr x" for x
    by (rule as_option_opt) (simp add: sidecar, simp add: address_dict_def obj_def)
  then show ?thesis unfolding step_dict_def read_step_def field_def default_field_def by (simp add: sidecar ensure_def)
qed

lemma read_block_dict: "read_block (block_dict b) = Inr b"
proof -
  have "as_list read_step (PList (map step_dict (nb_steps b))) = Inr (nb_steps b)"
    using as_list_map [of "nb_steps b" read_step step_dict id] by (simp add: read_step_dict)
  then show ?thesis unfolding block_dict_def read_block_def field_def by (simp add: sidecar ensure_def)
qed

lemma program_reload:
  assumes "wf_dict (np_input_slots prog)" "wf_dict (np_output_slots prog)" "wf_dict (np_scratch_slots prog)"
  shows "bnd (json_reload (serialize_program prog)) deserialize_program = Inr prog"
proof -
  let ?text = "obj [(''rank_count'', PInt (np_rank_count prog)), (''channels'', PInt (np_channels prog)), (''chunks_per_loop'', PInt (np_chunks_per_loop prog)),
     (''blocks'', PList (map block_dict (np_blocks prog))), (''input_slots'', slots_text (np_input_slots prog)),
     (''output_slots'', slots_text (np_output_slots prog)), (''scratch_slots'', slots_text (np_scratch_slots prog))]"
  have "stable (PList (map block_dict (np_blocks prog)))" by (simp add: stable_block)
  then have st: "json_reload (PList (map block_dict (np_blocks prog))) = Inr (PList (map block_dict (np_blocks prog)))" by (simp only: stable_def)
  have sl: "json_reload (slots_dict (np_input_slots prog)) = Inr (slots_text (np_input_slots prog))" "json_reload (slots_dict (np_output_slots prog)) = Inr (slots_text (np_output_slots prog))"
    "json_reload (slots_dict (np_scratch_slots prog)) = Inr (slots_text (np_scratch_slots prog))" using assms by (simp_all add: reload_slots)
  have "json_reload (serialize_program prog) = Inr ?text" unfolding serialize_program_def plain_block
    by (subst reload_obj [where h = "\<lambda>v. projr (json_reload v)"]) (auto simp only: st sl, simp, auto simp add: st sl simp del: json_reload.simps(2))
  moreover have "as_list read_block (PList (map block_dict (np_blocks prog))) = Inr (np_blocks prog)"
    using as_list_map [of "np_blocks prog" read_block block_dict id] by (simp add: read_block_dict)
  then have "deserialize_program ?text = Inr prog" using assms unfolding deserialize_program_def field_def by (simp add: sidecar)
  ultimately show ?thesis by (simp add: bnd_def)
qed

text \<open>
  C25. A native program that is written to the sidecar, printed as JSON text and read back is the same program.
\<close>

theorem program_round_trip:
  assumes "wf_dict (np_input_slots prog)" "wf_dict (np_output_slots prog)" "wf_dict (np_scratch_slots prog)"
  shows "bnd (json_reload (serialize_program prog)) deserialize_program = Inr prog"
  by (rule program_reload [OF assms])

theorem program_round_trip_witness:
  "bnd (json_reload (serialize_program \<lparr>np_rank_count = 1, np_channels = 1, np_chunks_per_loop = 1,
     np_blocks = [\<lparr>nb_rank = 0, nb_tb_id = 0, nb_channel = 0, nb_send_peer = -1, nb_recv_peer = -1, nb_steps = [plain_step ''a:copy:0'' ''a'' ''cpy'' (Some (Address 0 ''i'' 0)) (Some (Address 0 ''o'' 0))]\<rparr>], np_input_slots = [(0, 1)], np_output_slots = [(0, 1)],
     np_scratch_slots = []\<rparr>)) deserialize_program = Inr \<lparr>np_rank_count = 1, np_channels = 1, np_chunks_per_loop = 1,
     np_blocks = [\<lparr>nb_rank = 0, nb_tb_id = 0, nb_channel = 0, nb_send_peer = -1, nb_recv_peer = -1, nb_steps = [plain_step ''a:copy:0'' ''a'' ''cpy'' (Some (Address 0 ''i'' 0)) (Some (Address 0 ''o'' 0))]\<rparr>], np_input_slots = [(0, 1)],
     np_output_slots = [(0, 1)], np_scratch_slots = []\<rparr>"
  by (rule program_round_trip) simp_all

end
