(* ===== verification/Budget.thy ===== *)
theory Budget
  imports Prelude
begin

text \<open>
  \<^verbatim>\<open>src/vericcl/execution/budget.py\<close>: wall-clock budgets and the ownership of CPU slots shared by synthesis and repair.

  The clock is an argument of every operation, one for each reading, and times are rationals.  A lease is named by its place in
  the manager's list, which only grows, so that Python's \<^verbatim>\<open>is\<close> compares places.  The values the operating system reports
  (affinity, quotas) are arguments of \<^verbatim>\<open>available_cpu_slots\<close>.  The manager's lock makes every
  operation atomic except the wait of \<^verbatim>\<open>acquire\<close>, which releases it: a waiting request is kept by the system below and each
  pass of its loop is one step.
\<close>

section \<open>Values\<close>

definition positive :: "rat \<Rightarrow> string \<Rightarrow> rat res" where
  "positive v name = ensure (0 < v) (SemanticError (name @ '' must be finite and positive'')) (Inr v)"

definition positive_count :: "int \<Rightarrow> string \<Rightarrow> int res" where
  "positive_count v name = ensure (1 \<le> v) (SemanticError (name @ '' must be a positive integer'')) (Inr v)"

text \<open>The quotas of the control groups that could be read, \<^verbatim>\<open>None\<close> for the quota \<^verbatim>\<open>max\<close>, and the older quota and period.\<close>

definition limit_slots :: "int \<Rightarrow> int option \<times> int \<Rightarrow> int" where
  "limit_slots slots entry = (case entry of (None, _) \<Rightarrow> slots | (Some quota, period) \<Rightarrow> if period = 0 then slots else min slots (quota div period))"

definition available_cpu_slots :: "int \<Rightarrow> (int option \<times> int) list \<Rightarrow> (int \<times> int) option \<Rightarrow> int res" where
  "available_cpu_slots affinity quotas cfs =
     (let slots = foldl limit_slots affinity quotas;
          slots = (case cfs of None \<Rightarrow> slots | Some (quota, period) \<Rightarrow> if 0 < quota then limit_slots slots (Some quota, period) else slots) in
      ensure (\<not> slots < 1) (ResourceBusy ''the effective CPU quota does not provide one whole managed CPU slot'') (Inr slots))"

definition effective_cpu_budget :: "int option \<Rightarrow> int res \<Rightarrow> int res" where
  "effective_cpu_budget declared available = bnd available (\<lambda>slots. case declared of None \<Rightarrow> Inr slots
     | Some d \<Rightarrow> bnd (positive_count d ''CPU budget'') (\<lambda>d. Inr (min slots d)))"

section \<open>Leases without a manager\<close>

record standalone_lease =
  sl_deadline :: rat
  sl_cleanup_reserve_s :: rat
  sl_cancelled :: bool

definition after :: "rat \<Rightarrow> rat \<Rightarrow> rat \<Rightarrow> standalone_lease res" where
  "after seconds reserve now = bnd (positive seconds ''lease seconds'') (\<lambda>seconds.
     ensure (0 \<le> reserve \<and> reserve < seconds) (SemanticError ''cleanup reserve must be nonnegative and below the lease duration'') (
     Inr \<lparr>sl_deadline = now + seconds, sl_cleanup_reserve_s = reserve, sl_cancelled = False\<rparr>))"

definition standalone_work_deadline :: "standalone_lease \<Rightarrow> rat" where
  "standalone_work_deadline l = sl_deadline l - sl_cleanup_reserve_s l"

definition standalone_cancel :: "standalone_lease \<Rightarrow> standalone_lease" where
  "standalone_cancel l = l\<lparr>sl_cancelled := True\<rparr>"

definition standalone_remaining :: "standalone_lease \<Rightarrow> rat \<Rightarrow> rat" where
  "standalone_remaining l now = max 0 (standalone_work_deadline l - now)"

definition standalone_expired :: "standalone_lease \<Rightarrow> rat \<Rightarrow> bool" where
  "standalone_expired l now \<longleftrightarrow> sl_cancelled l \<or> standalone_remaining l now \<le> 0"

definition standalone_check :: "standalone_lease \<Rightarrow> rat \<Rightarrow> unit res" where
  "standalone_check l now = ensure (\<not> standalone_expired l now) (BudgetExhausted ''budget cancelled or exhausted'') (Inr ())"

section \<open>The manager\<close>

record lease =
  lease_stage :: string
  lease_started_at :: rat
  lease_deadline :: rat
  lease_work_deadline :: rat
  lease_model :: bool
  lease_threads :: int
  lease_parent :: "nat option"
  lease_closed :: bool
  cleanup_confirmed :: bool
  lease_unresolved :: bool

record budget =
  b_started_at :: rat
  stage_limits :: "(string, rat \<times> rat) dict"
  cpu_budget :: int
  max_threads_per_model :: int
  max_parallel_models :: int
  per_model_timeout_s :: rat
  cleanup_reserve_s :: rat
  max_tuning_rounds :: int
  max_run_wall_s :: "rat option"
  consumed :: "(string, rat) dict"
  model_work_s :: "(string, rat) dict"
  round_consumed :: "(string, rat) dict"
  started_rounds :: int
  elapsed_before_resume_s :: rat
  cpu_in_use :: int
  leases :: "lease list"
  b_cancelled :: bool

definition no_usage :: "(string, rat \<times> rat) dict \<Rightarrow> (string, rat) dict" where
  "no_usage limits = map (\<lambda>(key, _). (key, 0)) limits"

definition budget_manager :: "(string, rat \<times> rat) dict \<Rightarrow> int \<Rightarrow> rat \<Rightarrow> int \<Rightarrow> int \<Rightarrow> rat \<Rightarrow> int \<Rightarrow> rat option \<Rightarrow> int option
    \<Rightarrow> int \<times> (int option \<times> int) list \<times> (int \<times> int) option \<Rightarrow> rat \<Rightarrow> budget res" where
  "budget_manager limits cpus timeout threads parallel reserve rounds wall available readings now =
     bnd (map_res (\<lambda>(key, per_round, total_s). bnd (positive per_round ''per-round budget'') (\<lambda>p. bnd (positive total_s ''total budget'') (\<lambda>t. Inr (key, p, t)))) limits) (\<lambda>limits.
     bnd (positive_count cpus ''cpu budget'') (\<lambda>cpus. 
     bnd (case available of None \<Rightarrow> (case readings of (affinity, quotas, cfs) \<Rightarrow> available_cpu_slots affinity quotas cfs)
          | Some n \<Rightarrow> positive_count n ''available CPUs'') (\<lambda>available.
     bnd (positive_count threads ''per-model CPU limit'') (\<lambda>threads.
     bnd (positive_count parallel ''parallel model limit'') (\<lambda>parallel.
     bnd (positive timeout ''per-model timeout'') (\<lambda>timeout.
     bnd (positive reserve ''cleanup reserve'') (\<lambda>reserve.
     ensure (0 \<le> rounds) (SemanticError ''maximum rounds must be a nonnegative integer'') (
     bnd (case wall of None \<Rightarrow> Inr None | Some w \<Rightarrow> bnd (positive w ''wall limit'') (\<lambda>w. Inr (Some w))) (\<lambda>wall.
     Inr \<lparr>b_started_at = now, stage_limits = limits, cpu_budget = min cpus available, max_threads_per_model = threads, max_parallel_models = parallel,
          per_model_timeout_s = timeout, cleanup_reserve_s = reserve, max_tuning_rounds = rounds, max_run_wall_s = wall,
          consumed = no_usage limits, model_work_s = no_usage limits, round_consumed = no_usage limits, started_rounds = 0,
          elapsed_before_resume_s = 0, cpu_in_use = 0, leases = [], b_cancelled = False\<rparr>)))))))))"

text \<open>\<^verbatim>\<open>math.inf\<close> is \<^verbatim>\<open>None\<close>.\<close>

definition global_deadline :: "budget \<Rightarrow> rat option" where
  "global_deadline m = map_option (\<lambda>wall. b_started_at m + wall - elapsed_before_resume_s m) (max_run_wall_s m)"

definition earlier :: "rat \<Rightarrow> rat option \<Rightarrow> rat" where
  "earlier t g = (case g of None \<Rightarrow> t | Some t' \<Rightarrow> min t t')"

definition cancel :: "budget \<Rightarrow> budget" where
  "cancel m = m\<lparr>b_cancelled := True\<rparr>"

definition lease_remaining :: "lease \<Rightarrow> rat \<Rightarrow> rat" where
  "lease_remaining l now = max 0 (lease_work_deadline l - now)"

text \<open>A parent is a lease of the same manager, so a lease is cancelled when its manager is.\<close>

definition lease_expired :: "budget \<Rightarrow> lease \<Rightarrow> rat \<Rightarrow> bool" where
  "lease_expired m l now \<longleftrightarrow> b_cancelled m \<or> lease_closed l \<or> lease_remaining l now \<le> 0"

definition lease_check :: "budget \<Rightarrow> lease \<Rightarrow> rat \<Rightarrow> unit res" where
  "lease_check m l now = ensure (\<not> lease_expired m l now) (BudgetExhausted ''budget cancelled, closed or exhausted'') (Inr ())"

definition acquire_guard :: "budget \<Rightarrow> string \<Rightarrow> 'a res \<Rightarrow> 'a res" where
  "acquire_guard m stage k =
     ensure (stage \<in> set (dict_keys (stage_limits m))) (SemanticError (''stage has no configured budget: '' @ stage)) (
     ensure (\<not> b_cancelled m) (BudgetExhausted ''task cancelled'') k)"

definition root_active :: "budget \<Rightarrow> string \<Rightarrow> bool" where
  "root_active m stage \<longleftrightarrow> (\<exists>item\<in>set (leases m). \<not> lease_closed item \<and> \<not> lease_model item \<and> lease_stage item = stage)"

definition stage_deadline :: "budget \<Rightarrow> string \<Rightarrow> rat \<Rightarrow> rat" where
  "stage_deadline m stage now = (case dict_get (stage_limits m) stage (0, 0) of (per_round, total_s) \<Rightarrow>
     earlier (now + min (per_round - dict_get (round_consumed m) stage 0) (total_s - dict_get (consumed m) stage 0)) (global_deadline m))"

definition root_lease :: "budget \<Rightarrow> string \<Rightarrow> rat \<Rightarrow> lease" where
  "root_lease m stage now = (let deadline = stage_deadline m stage now in
     \<lparr>lease_stage = stage, lease_started_at = now, lease_deadline = deadline, lease_work_deadline = deadline - cleanup_reserve_s m,
      lease_model = False, lease_threads = 0, lease_parent = None, lease_closed = False, cleanup_confirmed = False, lease_unresolved = False\<rparr>)"

definition acquire_root :: "budget \<Rightarrow> string \<Rightarrow> nat option \<Rightarrow> rat \<Rightarrow> budget res" where
  "acquire_root m stage parent now = acquire_guard m stage (
     ensure (\<not> (parent \<noteq> None \<or> root_active m stage)) (ResourceBusy ''a stage already has an active root lease'') (
     let result = root_lease m stage now in
     ensure (\<not> lease_work_deadline result \<le> now) (BudgetExhausted (stage @ '' budget exhausted'')) (
     Inr (m\<lparr>leases := leases m @ [result]\<rparr>))))"

text \<open>Before its loop a request for model work is checked once.\<close>

definition requested_threads :: "budget \<Rightarrow> int option \<Rightarrow> int res" where
  "requested_threads m threads =
     bnd (case threads of None \<Rightarrow> Inr (min (max_threads_per_model m) (cpu_budget m)) | Some n \<Rightarrow> positive_count n ''requested threads'') (\<lambda>requested.
     ensure (\<not> min (max_threads_per_model m) (cpu_budget m) < requested) (SemanticError ''model thread request exceeds its effective CPU quota'') (Inr requested))"

definition model_request :: "budget \<Rightarrow> string \<Rightarrow> nat option \<Rightarrow> int option \<Rightarrow> (nat \<times> int) res" where
  "model_request m stage parent threads = acquire_guard m stage (
     case parent of None \<Rightarrow> Inl (SemanticError ''model work needs the matching active parent stage lease'')
     | Some p \<Rightarrow> ensure (p < length (leases m) \<and> \<not> lease_model (leases m ! p) \<and> lease_stage (leases m ! p) = stage)
         (SemanticError ''model work needs the matching active parent stage lease'') (
       bnd (requested_threads m threads) (\<lambda>requested. Inr (p, requested))))"

definition active_models :: "budget \<Rightarrow> int" where
  "active_models m = int (length (filter (\<lambda>item. lease_model item \<and> \<not> lease_closed item) (leases m)))"

datatype attempt = Occupied | Granted budget

text \<open>One pass of the loop: the parent is checked at one reading of the clock, the lease starts at the next one.\<close>

definition model_lease :: "budget \<Rightarrow> string \<Rightarrow> nat \<Rightarrow> int \<Rightarrow> rat \<Rightarrow> lease" where
  "model_lease m stage p requested now =
     (let parent = leases m ! p; deadline = min (now + per_model_timeout_s m) (lease_deadline parent) in
      \<lparr>lease_stage = stage, lease_started_at = now, lease_deadline = deadline,
       lease_work_deadline = min (deadline - cleanup_reserve_s m) (lease_work_deadline parent), lease_model = True, lease_threads = requested,
       lease_parent = Some p, lease_closed = False, cleanup_confirmed = False, lease_unresolved = False\<rparr>)"

definition try_model :: "budget \<Rightarrow> string \<Rightarrow> nat \<Rightarrow> int \<Rightarrow> rat \<Rightarrow> rat \<Rightarrow> attempt res" where
  "try_model m stage p requested checked now =
     bnd (lease_check m (leases m ! p) checked) (\<lambda>_.
     if active_models m < max_parallel_models m \<and> cpu_in_use m + requested \<le> cpu_budget m then
       let result = model_lease m stage p requested now in
       ensure (\<not> lease_work_deadline result \<le> now) (BudgetExhausted ''insufficient model budget after cleanup reservation'') (
       Inr (Granted (m\<lparr>cpu_in_use := cpu_in_use m + requested, leases := leases m @ [result]\<rparr>)))
     else Inr Occupied)"

definition acquire_model_nowait :: "budget \<Rightarrow> string \<Rightarrow> nat option \<Rightarrow> int option \<Rightarrow> rat \<Rightarrow> rat \<Rightarrow> budget res" where
  "acquire_model_nowait m stage parent threads checked now =
     bnd (model_request m stage parent threads) (\<lambda>(p, requested). bnd (try_model m stage p requested checked now) (\<lambda>r.
     case r of Occupied \<Rightarrow> Inl (ResourceBusy ''managed CPU/model slots are occupied'') | Granted m' \<Rightarrow> Inr m'))"

definition add_usage :: "string \<Rightarrow> rat \<Rightarrow> (string, rat) dict \<Rightarrow> (string, rat) dict" where
  "add_usage stage t d = AList.update stage (dict_get d stage 0 + t) d"

definition charge :: "budget \<Rightarrow> lease \<Rightarrow> rat \<Rightarrow> budget" where
  "charge m l elapsed =
     (if lease_model l then m\<lparr>cpu_in_use := cpu_in_use m - lease_threads l, model_work_s := add_usage (lease_stage l) elapsed (model_work_s m)\<rparr>
      else m\<lparr>consumed := add_usage (lease_stage l) elapsed (consumed m), round_consumed := add_usage (lease_stage l) elapsed (round_consumed m)\<rparr>)"

definition close_lease :: "budget \<Rightarrow> nat \<Rightarrow> bool \<Rightarrow> rat \<Rightarrow> budget res" where
  "close_lease m i confirmed now =
     ensure (i < length (leases m)) (SemanticError ''unknown budget lease'') (
     let l = leases m ! i in
     if lease_closed l then Inr m
     else if \<not> confirmed then Inr (m\<lparr>leases := (leases m)[i := l\<lparr>lease_unresolved := True\<rparr>]\<rparr>)
     else ensure (\<not> (\<exists>child\<in>set (leases m). \<not> lease_closed child \<and> lease_parent child = Some i)) (ResourceBusy ''child work has not acknowledged exit'') (
       Inr ((charge m l (max 0 (now - lease_started_at l)))\<lparr>leases := (leases m)[i := l\<lparr>lease_closed := True, cleanup_confirmed := True, lease_unresolved := False\<rparr>]\<rparr>)))"

definition start_tuning_round :: "budget \<Rightarrow> rat \<Rightarrow> budget res" where
  "start_tuning_round m now =
     ensure (\<not> (b_cancelled m \<or> max_tuning_rounds m \<le> started_rounds m)) (BudgetExhausted ''task cancelled or tuning round limit reached'') (
     ensure (\<not> (case global_deadline m of None \<Rightarrow> False | Some g \<Rightarrow> g - cleanup_reserve_s m \<le> now)) (BudgetExhausted ''task wall budget exhausted'') (
     bnd (check_each (\<lambda>(stage, _, total_s). ensure (\<not> (stage \<noteq> ''initial'' \<and> total_s - dict_get (consumed m) stage 0 \<le> cleanup_reserve_s m))
            (BudgetExhausted (stage @ '' cumulative budget exhausted'')) (Inr ())) (stage_limits m)) (\<lambda>_.
     Inr (m\<lparr>round_consumed := no_usage (stage_limits m), started_rounds := started_rounds m + 1\<rparr>))))"

section \<open>Snapshots\<close>

record active_lease =
  al_stage :: string
  al_model :: bool
  al_threads :: int
  al_unresolved :: bool
  al_started_at :: rat
  al_deadline :: rat
  al_elapsed_s :: rat

record snapshot =
  snap_consumed :: "(string, rat) dict"
  snap_model_work_s :: "(string, rat) dict"
  snap_round_consumed :: "(string, rat) dict"
  snap_started_rounds :: int
  snap_cpu_in_use :: int
  snap_elapsed_wall_s :: rat
  snap_active_leases :: "active_lease list"

definition take_snapshot :: "budget \<Rightarrow> rat \<Rightarrow> snapshot" where
  "take_snapshot m now = \<lparr>snap_consumed = consumed m, snap_model_work_s = model_work_s m, snap_round_consumed = round_consumed m,
     snap_started_rounds = started_rounds m, snap_cpu_in_use = cpu_in_use m,
     snap_elapsed_wall_s = elapsed_before_resume_s m + max 0 (now - b_started_at m),
     snap_active_leases = map (\<lambda>item. \<lparr>al_stage = lease_stage item, al_model = lease_model item, al_threads = lease_threads item,
       al_unresolved = lease_unresolved item, al_started_at = lease_started_at item, al_deadline = lease_deadline item,
       al_elapsed_s = max 0 (now - lease_started_at item)\<rparr>) (filter (\<lambda>item. \<not> lease_closed item) (leases m))\<rparr>"

text \<open>\<^verbatim>\<open>d.update(new)\<close>.\<close>

definition update_usage :: "(string, rat) dict \<Rightarrow> (string, rat) dict \<Rightarrow> (string, rat) dict" where
  "update_usage d new = foldl (\<lambda>d (k, v). AList.update k v d) d new"

definition restore_usage :: "budget \<Rightarrow> (string, rat) dict \<Rightarrow> int \<Rightarrow> rat \<Rightarrow> (string, rat) dict \<Rightarrow> (string, rat) dict \<Rightarrow> budget res" where
  "restore_usage m used rounds elapsed model_work round_used =
     ensure (\<not> (\<exists>item\<in>set (leases m). \<not> lease_closed item)) (SemanticError ''cannot restore usage while owned work is active'') (
     ensure (set (dict_keys used) \<subseteq> set (dict_keys (consumed m))) (SemanticError ''unknown restored budget stage'') (
     ensure (\<not> (rounds < started_rounds m \<or> elapsed < elapsed_before_resume_s m)) (SemanticError ''restored usage cannot refund rounds or wall time'') (
     bnd (check_each (\<lambda>(key, v). ensure (\<not> v < dict_get (consumed m) key 0) (SemanticError ''restored usage cannot refund consumed stage time'') (Inr ())) used) (\<lambda>_.
     ensure (set (dict_keys model_work) \<subseteq> set (dict_keys (model_work_s m))) (SemanticError ''unknown restored model-work stage'') (
     bnd (check_each (\<lambda>(key, v). ensure (\<not> v < dict_get (model_work_s m) key 0) (SemanticError ''restored usage cannot refund consumed model time'') (Inr ())) model_work) (\<lambda>_.
     ensure (\<not> (\<not> set (dict_keys round_used) \<subseteq> set (dict_keys (round_consumed m)) \<or> (\<exists>(key, v)\<in>set round_used. v < dict_get (round_consumed m) key 0)))
       (SemanticError ''restored usage cannot refund the current round'') (
     Inr (m\<lparr>round_consumed := update_usage (round_consumed m) round_used, model_work_s := update_usage (model_work_s m) model_work,
            consumed := update_usage (consumed m) used, started_rounds := rounds, elapsed_before_resume_s := elapsed\<rparr>))))))))"

end
