(* ===== verification/Budget_System.thy ===== *)
theory Budget_System
  imports Budget "HOL-Library.Multiset"
begin

text \<open>
  The budget manager as a state machine: its operations in any order, with requests for model work waiting while others run.
  The lemmas show what every reachable state satisfies.
\<close>

section \<open>The system\<close>

record system =
  sys_budget :: budget
  sys_pending :: "(string \<times> nat \<times> int) multiset"
  sys_now :: rat

datatype action = AcquireRoot string | RequestModel string | GrantModel | GiveUp | CloseLease nat bool | CancelTask | StartRound | RestoreUsage | Tick

inductive budget_step :: "system \<Rightarrow> action \<Rightarrow> system \<Rightarrow> bool" where
  root: "acquire_root (sys_budget s) stage parent (sys_now s) = Inr m \<Longrightarrow> budget_step s (AcquireRoot stage) (s\<lparr>sys_budget := m\<rparr>)"
| request: "model_request (sys_budget s) stage parent threads = Inr (p, n)
    \<Longrightarrow> budget_step s (RequestModel stage) (s\<lparr>sys_pending := add_mset (stage, p, n) (sys_pending s)\<rparr>)"
| grant: "(stage, p, n) \<in># sys_pending s \<Longrightarrow> sys_now s \<le> t \<Longrightarrow> try_model (sys_budget s) stage p n (sys_now s) t = Inr (Granted m)
    \<Longrightarrow> budget_step s GrantModel (s\<lparr>sys_budget := m, sys_pending := sys_pending s - {#(stage, p, n)#}, sys_now := t\<rparr>)"
| give_up: "(stage, p, n) \<in># sys_pending s \<Longrightarrow> sys_now s \<le> t \<Longrightarrow> try_model (sys_budget s) stage p n (sys_now s) t = Inl e
    \<Longrightarrow> budget_step s GiveUp (s\<lparr>sys_pending := sys_pending s - {#(stage, p, n)#}, sys_now := t\<rparr>)"
| close: "close_lease (sys_budget s) i confirmed (sys_now s) = Inr m \<Longrightarrow> budget_step s (CloseLease i confirmed) (s\<lparr>sys_budget := m\<rparr>)"
| cancelling: "budget_step s CancelTask (s\<lparr>sys_budget := cancel (sys_budget s)\<rparr>)"
| round: "start_tuning_round (sys_budget s) (sys_now s) = Inr m \<Longrightarrow> budget_step s StartRound (s\<lparr>sys_budget := m\<rparr>)"
| restore: "restore_usage (sys_budget s) used rounds elapsed model_work round_used = Inr m \<Longrightarrow> budget_step s RestoreUsage (s\<lparr>sys_budget := m\<rparr>)"
| tick: "sys_now s \<le> t \<Longrightarrow> budget_step s Tick (s\<lparr>sys_now := t\<rparr>)"

text \<open>The states a new manager can get to by actions that are allowed.\<close>

inductive reachable :: "(system \<Rightarrow> action \<Rightarrow> bool) \<Rightarrow> system \<Rightarrow> bool" for allowed where
  start: "budget_manager limits cpus timeout threads parallel reserve rounds wall available readings now = Inr m \<Longrightarrow> wf_dict limits
    \<Longrightarrow> reachable allowed \<lparr>sys_budget = m, sys_pending = {#}, sys_now = now\<rparr>"
| step: "reachable allowed s \<Longrightarrow> allowed s a \<Longrightarrow> budget_step s a s' \<Longrightarrow> reachable allowed s'"

section \<open>The invariant\<close>

definition open_model :: "lease \<Rightarrow> bool" where
  "open_model l \<longleftrightarrow> lease_model l \<and> \<not> lease_closed l"

definition open_root :: "lease \<Rightarrow> bool" where
  "open_root l \<longleftrightarrow> \<not> lease_model l \<and> \<not> lease_closed l"

text \<open>A model lease runs under an open root lease of its stage and within its deadlines.\<close>

definition lease_ok :: "budget \<Rightarrow> lease \<Rightarrow> bool" where
  "lease_ok m l \<longleftrightarrow> lease_started_at l < lease_work_deadline l \<and> lease_work_deadline l \<le> lease_deadline l - cleanup_reserve_s m \<and>
     lease_stage l \<in> set (dict_keys (stage_limits m)) \<and>
     (if lease_model l then 1 \<le> lease_threads l \<and> lease_threads l \<le> min (max_threads_per_model m) (cpu_budget m) \<and>
        (\<exists>p<length (leases m). lease_parent l = Some p \<and> \<not> lease_model (leases m ! p) \<and> lease_stage (leases m ! p) = lease_stage l \<and>
          lease_deadline l \<le> lease_deadline (leases m ! p) \<and> lease_work_deadline l \<le> lease_work_deadline (leases m ! p) \<and>
          (\<not> lease_closed l \<longrightarrow> \<not> lease_closed (leases m ! p)))
      else lease_parent l = None)"

definition threads_in_use :: "lease list \<Rightarrow> int" where
  "threads_in_use ls = sum_list (map lease_threads (filter open_model ls))"

definition single_roots :: "lease list \<Rightarrow> bool" where
  "single_roots ls \<longleftrightarrow> (\<forall>i j. i < j \<longrightarrow> j < length ls \<longrightarrow> open_root (ls ! i) \<longrightarrow> open_root (ls ! j) \<longrightarrow> lease_stage (ls ! i) \<noteq> lease_stage (ls ! j))"

definition usage_ok :: "budget \<Rightarrow> (string, rat) dict \<Rightarrow> bool" where
  "usage_ok m d \<longleftrightarrow> wf_dict d \<and> set (dict_keys d) = set (dict_keys (stage_limits m)) \<and> (\<forall>k. 0 \<le> dict_get d k 0)"

definition limits_ok :: "budget \<Rightarrow> bool" where
  "limits_ok m \<longleftrightarrow> 1 \<le> cpu_budget m \<and> 1 \<le> max_threads_per_model m \<and> 1 \<le> max_parallel_models m \<and> 0 < cleanup_reserve_s m \<and> 0 \<le> max_tuning_rounds m \<and>
     wf_dict (stage_limits m) \<and> (\<forall>(k, p, t)\<in>set (stage_limits m). 0 < p \<and> 0 < t)"

definition budget_ok :: "budget \<Rightarrow> bool" where
  "budget_ok m \<longleftrightarrow> limits_ok m \<and> cpu_in_use m = threads_in_use (leases m) \<and> cpu_in_use m \<le> cpu_budget m \<and>
     active_models m \<le> max_parallel_models m \<and> (\<forall>l\<in>set (leases m). lease_ok m l) \<and> single_roots (leases m) \<and>
     usage_ok m (consumed m) \<and> usage_ok m (model_work_s m) \<and> usage_ok m (round_consumed m) \<and> 0 \<le> started_rounds m \<and> 0 \<le> elapsed_before_resume_s m"

definition pending_ok :: "system \<Rightarrow> bool" where
  "pending_ok s \<longleftrightarrow> (\<forall>(stage, p, n)\<in>#sys_pending s. p < length (leases (sys_budget s)) \<and> \<not> lease_model (leases (sys_budget s) ! p) \<and>
     lease_stage (leases (sys_budget s) ! p) = stage \<and> 1 \<le> n \<and> n \<le> min (max_threads_per_model (sys_budget s)) (cpu_budget (sys_budget s)))"

section \<open>Lists of leases\<close>

lemma filter_update_sum:
  fixes f :: "'a \<Rightarrow> int"
  assumes "i < length xs"
  shows "sum_list (map f (filter P (xs[i := x]))) = sum_list (map f (filter P xs)) - (if P (xs ! i) then f (xs ! i) else 0) + (if P x then f x else 0)"
  using assms
proof (induction xs arbitrary: i)
  case (Cons y xs)
  then show ?case by (cases i) auto
qed simp

lemma filter_update_length:
  assumes "i < length xs"
  shows "int (length (filter P (xs[i := x]))) = int (length (filter P xs)) - (if P (xs ! i) then 1 else 0) + (if P x then 1 else 0)"
  using assms
proof (induction xs arbitrary: i)
  case (Cons y xs)
  show ?case
  proof (cases i)
    case (Suc n)
    then show ?thesis using Cons.IH [of n] Cons.prems by auto
  qed auto
qed simp

lemma active_models_open: "active_models m = int (length (filter open_model (leases m)))"
proof -
  have "open_model = (\<lambda>l. lease_model l \<and> \<not> lease_closed l)" by (auto simp: open_model_def)
  then show ?thesis by (simp add: active_models_def)
qed

lemma single_roots_snoc:
  "single_roots (ls @ [l]) \<longleftrightarrow> single_roots ls \<and> (open_root l \<longrightarrow> (\<forall>k\<in>set ls. open_root k \<longrightarrow> lease_stage k \<noteq> lease_stage l))" (is "?L \<longleftrightarrow> ?R")
proof
  assume L: ?L
  have "single_roots ls" unfolding single_roots_def
  proof (intro allI impI)
    fix i j assume "i < j" "j < length ls" "open_root (ls ! i)" "open_root (ls ! j)"
    then show "lease_stage (ls ! i) \<noteq> lease_stage (ls ! j)"
      using L [unfolded single_roots_def, rule_format, of i j] by (simp add: nth_append)
  qed
  moreover have "lease_stage k \<noteq> lease_stage l" if l: "open_root l" and k: "k \<in> set ls" "open_root k" for k
  proof -
    obtain i where "i < length ls" "k = ls ! i" using k(1) by (auto simp: in_set_conv_nth)
    then show ?thesis using L [unfolded single_roots_def, rule_format, of i "length ls"] l k(2) by (simp add: nth_append)
  qed
  ultimately show ?R by blast
next
  assume R: ?R
  show ?L unfolding single_roots_def
  proof (intro allI impI)
    fix i j assume ij: "i < j" "j < length (ls @ [l])" "open_root ((ls @ [l]) ! i)" "open_root ((ls @ [l]) ! j)"
    show "lease_stage ((ls @ [l]) ! i) \<noteq> lease_stage ((ls @ [l]) ! j)"
    proof (cases "j = length ls")
      case True
      then show ?thesis using R ij by (auto simp: nth_append)
    next
      case False
      then show ?thesis using R ij by (auto simp: nth_append single_roots_def)
    qed
  qed
qed

lemma single_roots_update:
  assumes "single_roots ls" "i < length ls" "open_root l \<Longrightarrow> open_root (ls ! i) \<and> lease_stage l = lease_stage (ls ! i)"
  shows "single_roots (ls[i := l])"
  unfolding single_roots_def
proof (intro allI impI)
  fix j k assume jk: "j < k" "k < length (ls[i := l])" "open_root (ls[i := l] ! j)" "open_root (ls[i := l] ! k)"
  have "open_root (ls ! n) \<and> lease_stage (ls[i := l] ! n) = lease_stage (ls ! n)" if "open_root (ls[i := l] ! n)" for n
    by (cases "n = i") (use that assms(2,3) in auto)
  then show "lease_stage (ls[i := l] ! j) \<noteq> lease_stage (ls[i := l] ! k)" using assms(1) jk unfolding single_roots_def by simp
qed

text \<open>Adding a lease leaves the others as they are.\<close>

lemma lease_ok_snoc:
  assumes "lease_ok m l"
  shows "lease_ok (m\<lparr>leases := leases m @ [new]\<rparr>) l"
proof (cases "lease_model l")
  case True
  then obtain p where p: "p < length (leases m)" "lease_parent l = Some p \<and> \<not> lease_model (leases m ! p) \<and> lease_stage (leases m ! p) = lease_stage l \<and>
      lease_deadline l \<le> lease_deadline (leases m ! p) \<and> lease_work_deadline l \<le> lease_work_deadline (leases m ! p) \<and>
      (\<not> lease_closed l \<longrightarrow> \<not> lease_closed (leases m ! p))" using assms unfolding lease_ok_def by auto
  then have "(leases m @ [new]) ! p = leases m ! p" "p < length (leases m @ [new])" by (simp_all add: nth_append)
  then show ?thesis using assms True p unfolding lease_ok_def by simp
next
  case False
  then show ?thesis using assms by (simp add: lease_ok_def)
qed

lemma ignored_fields [simp]:
  "lease_ok (m\<lparr>round_consumed := v_round_consumed\<rparr>) = lease_ok m" "limits_ok (m\<lparr>round_consumed := v_round_consumed\<rparr>) = limits_ok m" "usage_ok (m\<lparr>round_consumed := v_round_consumed\<rparr>) = usage_ok m" "active_models (m\<lparr>round_consumed := v_round_consumed\<rparr>) = active_models m"
  "lease_ok (m\<lparr>model_work_s := v_model_work_s\<rparr>) = lease_ok m" "limits_ok (m\<lparr>model_work_s := v_model_work_s\<rparr>) = limits_ok m" "usage_ok (m\<lparr>model_work_s := v_model_work_s\<rparr>) = usage_ok m" "active_models (m\<lparr>model_work_s := v_model_work_s\<rparr>) = active_models m"
  "lease_ok (m\<lparr>consumed := v_consumed\<rparr>) = lease_ok m" "limits_ok (m\<lparr>consumed := v_consumed\<rparr>) = limits_ok m" "usage_ok (m\<lparr>consumed := v_consumed\<rparr>) = usage_ok m" "active_models (m\<lparr>consumed := v_consumed\<rparr>) = active_models m"
  "lease_ok (m\<lparr>started_rounds := v_started_rounds\<rparr>) = lease_ok m" "limits_ok (m\<lparr>started_rounds := v_started_rounds\<rparr>) = limits_ok m" "usage_ok (m\<lparr>started_rounds := v_started_rounds\<rparr>) = usage_ok m" "active_models (m\<lparr>started_rounds := v_started_rounds\<rparr>) = active_models m"
  "lease_ok (m\<lparr>elapsed_before_resume_s := v_elapsed_before_resume_s\<rparr>) = lease_ok m" "limits_ok (m\<lparr>elapsed_before_resume_s := v_elapsed_before_resume_s\<rparr>) = limits_ok m" "usage_ok (m\<lparr>elapsed_before_resume_s := v_elapsed_before_resume_s\<rparr>) = usage_ok m" "active_models (m\<lparr>elapsed_before_resume_s := v_elapsed_before_resume_s\<rparr>) = active_models m"
  "lease_ok (m\<lparr>b_cancelled := v_b_cancelled\<rparr>) = lease_ok m" "limits_ok (m\<lparr>b_cancelled := v_b_cancelled\<rparr>) = limits_ok m" "usage_ok (m\<lparr>b_cancelled := v_b_cancelled\<rparr>) = usage_ok m" "active_models (m\<lparr>b_cancelled := v_b_cancelled\<rparr>) = active_models m"
  "lease_ok (m\<lparr>cpu_in_use := v_cpu_in_use\<rparr>) = lease_ok m" "limits_ok (m\<lparr>cpu_in_use := v_cpu_in_use\<rparr>) = limits_ok m" "usage_ok (m\<lparr>cpu_in_use := v_cpu_in_use\<rparr>) = usage_ok m" "active_models (m\<lparr>cpu_in_use := v_cpu_in_use\<rparr>) = active_models m"
  by (simp_all add: fun_eq_iff lease_ok_def limits_ok_def usage_ok_def active_models_def)

text \<open>What the manager keeps of its parameters.\<close>

lemma acquire_root_ok:
  assumes "budget_ok m" "acquire_root m stage parent now = Inr m'"
  shows "budget_ok m'"
proof -
  let ?new = "root_lease m stage now"
  have m': "m' = m\<lparr>leases := leases m @ [?new]\<rparr>" and "\<not> root_active m stage" "stage \<in> set (dict_keys (stage_limits m))" "now < lease_work_deadline ?new"
    using assms(2) by (auto simp: acquire_root_def acquire_guard_def Let_def res_simps)
  then have new: "lease_stage ?new = stage" "\<not> lease_model ?new" "\<not> lease_closed ?new" "lease_parent ?new = None"
      "lease_started_at ?new < lease_work_deadline ?new" "lease_work_deadline ?new = lease_deadline ?new - cleanup_reserve_s m"
    by (simp_all add: root_lease_def Let_def)
  have "\<forall>k\<in>set (leases m). open_root k \<longrightarrow> lease_stage k \<noteq> stage" using \<open>\<not> root_active m stage\<close> by (auto simp: root_active_def open_root_def)
  then have "single_roots (leases m')" using assms(1) new(1) by (simp add: m' single_roots_snoc budget_ok_def)
  moreover have "lease_ok m' ?new" using new \<open>stage \<in> _\<close> by (simp add: m' lease_ok_def)
  moreover have "\<forall>l\<in>set (leases m). lease_ok m' l" using assms(1) lease_ok_snoc unfolding m' budget_ok_def by blast
  ultimately show ?thesis using assms(1) new
    by (auto simp: m' budget_ok_def limits_ok_def threads_in_use_def active_models_open open_model_def usage_ok_def)
qed

lemma try_model_ok:
  assumes "budget_ok m" "try_model m stage p n checked now = Inr (Granted m')"
    and "p < length (leases m)" "\<not> lease_model (leases m ! p)" "lease_stage (leases m ! p) = stage" "1 \<le> n" "n \<le> min (max_threads_per_model m) (cpu_budget m)"
  shows "budget_ok m'"
proof -
  let ?new = "model_lease m stage p n now"
  have m': "m' = m\<lparr>cpu_in_use := cpu_in_use m + n, leases := leases m @ [?new]\<rparr>"
    and free: "active_models m < max_parallel_models m" "cpu_in_use m + n \<le> cpu_budget m" "\<not> lease_closed (leases m ! p)" "now < lease_work_deadline ?new"
    using assms(2) by (auto simp: try_model_def Let_def res_simps lease_check_def lease_expired_def split: if_splits)
  then have new: "lease_stage ?new = stage" "lease_model ?new" "\<not> lease_closed ?new" "lease_parent ?new = Some p" "lease_threads ?new = n"
      "lease_started_at ?new < lease_work_deadline ?new" "lease_work_deadline ?new \<le> lease_deadline ?new - cleanup_reserve_s m"
      "lease_deadline ?new \<le> lease_deadline (leases m ! p)" "lease_work_deadline ?new \<le> lease_work_deadline (leases m ! p)"
    by (simp_all add: model_lease_def Let_def)
  have "(leases m @ [?new]) ! p = leases m ! p" "p < length (leases m @ [?new])" using assms(3) by (simp_all add: nth_append)
  moreover have "stage \<in> set (dict_keys (stage_limits m))" using assms(1,3,5) nth_mem [OF assms(3)] by (auto simp: budget_ok_def lease_ok_def)
  ultimately have "lease_ok m' ?new" using new assms(4-7) free(3) unfolding m' lease_ok_def by simp
  moreover have "\<forall>l\<in>set (leases m). lease_ok m' l" using assms(1) lease_ok_snoc [of "m\<lparr>cpu_in_use := cpu_in_use m + n\<rparr>"] unfolding m' budget_ok_def by simp
  moreover have "single_roots (leases m')" using assms(1) new(2) by (simp add: m' single_roots_snoc budget_ok_def open_root_def)
  ultimately show ?thesis using assms(1) new free
    by (auto simp: m' budget_ok_def limits_ok_def threads_in_use_def active_models_open open_model_def usage_ok_def)
qed

text \<open>Closing a lease, or marking it unresolved, replaces it by one with the same deadlines.\<close>

lemma lease_ok_update:
  assumes "lease_ok m k" "i < length (leases m)"
    and same: "lease_stage l = lease_stage (leases m ! i)" "lease_model l = lease_model (leases m ! i)" "lease_deadline l = lease_deadline (leases m ! i)"
      "lease_work_deadline l = lease_work_deadline (leases m ! i)"
    and closed: "lease_closed l \<Longrightarrow> \<not> lease_closed k \<Longrightarrow> lease_parent k \<noteq> Some i \<or> lease_closed (leases m ! i)"
    and m': "leases m' = (leases m)[i := l]" "stage_limits m' = stage_limits m" "cpu_budget m' = cpu_budget m" "max_threads_per_model m' = max_threads_per_model m"
      "cleanup_reserve_s m' = cleanup_reserve_s m"
  shows "lease_ok m' k"
proof (cases "lease_model k")
  case True
  then obtain p where p: "p < length (leases m)" "lease_parent k = Some p" "\<not> lease_model (leases m ! p)" "lease_stage (leases m ! p) = lease_stage k"
      "lease_deadline k \<le> lease_deadline (leases m ! p)" "lease_work_deadline k \<le> lease_work_deadline (leases m ! p)"
      "\<not> lease_closed k \<longrightarrow> \<not> lease_closed (leases m ! p)" using assms(1) unfolding lease_ok_def by auto
  have "\<exists>p<length (leases m'). lease_parent k = Some p \<and> \<not> lease_model (leases m' ! p) \<and> lease_stage (leases m' ! p) = lease_stage k \<and>
      lease_deadline k \<le> lease_deadline (leases m' ! p) \<and> lease_work_deadline k \<le> lease_work_deadline (leases m' ! p) \<and>
      (\<not> lease_closed k \<longrightarrow> \<not> lease_closed (leases m' ! p))"
    by (rule exI [of _ p], cases "p = i") (use p same closed assms(2) in \<open>auto simp: m'\<close>)
  then show ?thesis using assms(1) True unfolding lease_ok_def m'(2-5) by auto
next
  case False
  then show ?thesis using assms(1) unfolding lease_ok_def m'(2-5) by simp
qed

lemma lease_ok_fields:
  assumes "lease_ok m k" "lease_stage l = lease_stage k" "lease_started_at l = lease_started_at k" "lease_model l = lease_model k" "lease_deadline l = lease_deadline k"
    "lease_work_deadline l = lease_work_deadline k" "lease_threads l = lease_threads k" "lease_parent l = lease_parent k" "lease_closed k \<Longrightarrow> lease_closed l"
  shows "lease_ok m l"
  using assms unfolding lease_ok_def by (auto split: if_splits)

lemma add_usage_ok: "usage_ok m d \<Longrightarrow> stage \<in> set (dict_keys (stage_limits m)) \<Longrightarrow> 0 \<le> t \<Longrightarrow> usage_ok m (add_usage stage t d)"
  by (auto simp: usage_ok_def add_usage_def dom_update)

lemma close_lease_cases:
  assumes "close_lease m i confirmed now = Inr m'"
  obtains "m' = m"
  | "i < length (leases m)" "m' = m\<lparr>leases := (leases m)[i := (leases m ! i)\<lparr>lease_unresolved := True\<rparr>]\<rparr>" "\<not> lease_closed (leases m ! i)"
  | "i < length (leases m)" "\<not> lease_closed (leases m ! i)" "confirmed" "\<forall>child\<in>set (leases m). lease_closed child \<or> lease_parent child \<noteq> Some i"
      "m' = (charge m (leases m ! i) (max 0 (now - lease_started_at (leases m ! i))))\<lparr>leases := (leases m)[i := (leases m ! i)\<lparr>lease_closed := True,
         cleanup_confirmed := True, lease_unresolved := False\<rparr>]\<rparr>"
proof -
  have i: "i < length (leases m)" using assms by (simp add: close_lease_def res_simps)
  consider "lease_closed (leases m ! i)" | "\<not> lease_closed (leases m ! i)" "\<not> confirmed" | "\<not> lease_closed (leases m ! i)" "confirmed" by blast
  then show thesis
  proof cases
    case 1
    then have "m' = m" using assms i by (simp add: close_lease_def ensure_def)
    then show thesis by (rule that(1))
  next
    case 2
    then have "m' = m\<lparr>leases := (leases m)[i := (leases m ! i)\<lparr>lease_unresolved := True\<rparr>]\<rparr>" using assms i by (simp add: close_lease_def ensure_def)
    then show thesis by (rule that(2) [OF i _ 2(1)])
  next
    case 3
    then have kids: "\<forall>child\<in>set (leases m). lease_closed child \<or> lease_parent child \<noteq> Some i" using assms i by (auto simp: close_lease_def ensure_def Let_def split: if_splits)
    then have "\<not> (\<exists>child\<in>set (leases m). \<not> lease_closed child \<and> lease_parent child = Some i)" by blast
    then have "m' = (charge m (leases m ! i) (max 0 (now - lease_started_at (leases m ! i))))\<lparr>leases := (leases m)[i := (leases m ! i)\<lparr>lease_closed := True,
         cleanup_confirmed := True, lease_unresolved := False\<rparr>]\<rparr>"
      using assms i 3 by (simp add: close_lease_def ensure_def Let_def)
    then show thesis by (rule that(3) [OF i 3 kids])
  qed
qed

lemma close_lease_ok:
  assumes "budget_ok m" "close_lease m i confirmed now = Inr m'"
  shows "budget_ok m'"
  using assms(2)
proof (cases rule: close_lease_cases)
  case 1
  then show ?thesis using assms(1) by simp
next
  case 2
  let ?l = "(leases m ! i)\<lparr>lease_unresolved := True\<rparr>"
  have old: "\<forall>k\<in>set (leases m). lease_ok m k" "lease_ok m (leases m ! i)" using assms(1) 2(1) by (simp_all add: budget_ok_def)
  have up: "lease_ok m' k" if "lease_ok m k" for k by (rule lease_ok_update [OF that 2(1), of ?l]) (simp_all add: 2)
  have "lease_ok m ?l" by (rule lease_ok_fields [OF old(2)]) simp_all
  then have "\<forall>k\<in>set (leases m'). lease_ok m' k" using up old(1) by (auto simp: 2(2) dest!: set_update_subset_insert [THEN subsetD])
  moreover have "open_model ?l = open_model (leases m ! i)" "open_root ?l = open_root (leases m ! i)" by (simp_all add: open_model_def open_root_def)
  moreover have "single_roots (leases m')" unfolding 2(2) using assms(1) by (auto intro!: single_roots_update [OF _ 2(1)] simp: budget_ok_def open_root_def)
  ultimately show ?thesis using assms(1) 2(1)
    by (simp add: 2(2) budget_ok_def limits_ok_def threads_in_use_def active_models_open filter_update_sum filter_update_length usage_ok_def)
next
  case 3
  let ?l = "(leases m ! i)\<lparr>lease_closed := True, cleanup_confirmed := True, lease_unresolved := False\<rparr>"
  have old: "\<forall>k\<in>set (leases m). lease_ok m k" "lease_ok m (leases m ! i)" using assms(1) 3(1) by (simp_all add: budget_ok_def)
  then have stage: "lease_stage (leases m ! i) \<in> set (dict_keys (stage_limits m))" by (simp add: lease_ok_def)
  have same: "leases m' = (leases m)[i := ?l]" "stage_limits m' = stage_limits m" "cpu_budget m' = cpu_budget m" "max_threads_per_model m' = max_threads_per_model m"
      "cleanup_reserve_s m' = cleanup_reserve_s m" "max_parallel_models m' = max_parallel_models m" "max_tuning_rounds m' = max_tuning_rounds m"
      "started_rounds m' = started_rounds m" "elapsed_before_resume_s m' = elapsed_before_resume_s m" "cpu_in_use m' = cpu_in_use m - (if lease_model (leases m ! i) then lease_threads (leases m ! i) else 0)"
    by (simp_all add: 3(5) charge_def)
  have up: "lease_ok m' k" if "lease_ok m k" "k \<in> set (leases m) \<or> lease_closed k" for k
    by (rule lease_ok_update [OF that(1) 3(1), of ?l]) (use that(2) 3(4) in \<open>auto simp: same\<close>)
  have "lease_ok m ?l" by (rule lease_ok_fields [OF old(2)]) simp_all
  then have "\<forall>k\<in>set (leases m'). lease_ok m' k" using up old(1) by (auto simp: same(1) dest!: set_update_subset_insert [THEN subsetD])
  moreover have "\<not> open_model ?l" "\<not> open_root ?l" "open_model (leases m ! i) = lease_model (leases m ! i)" using 3(2) by (simp_all add: open_model_def open_root_def)
  moreover have "single_roots (leases m')" unfolding same(1) using assms(1) by (auto intro!: single_roots_update [OF _ 3(1)] simp: budget_ok_def open_root_def)
  moreover have "usage_ok m (consumed m')" "usage_ok m (model_work_s m')" "usage_ok m (round_consumed m')"
    using assms(1) stage by (simp_all add: 3(5) charge_def budget_ok_def add_usage_ok)
  moreover have "1 \<le> lease_threads (leases m ! i)" if "lease_model (leases m ! i)" using old(2) that by (simp add: lease_ok_def)
  ultimately show ?thesis using assms(1) 3(1)
    by (auto simp: same budget_ok_def limits_ok_def threads_in_use_def active_models_open filter_update_sum filter_update_length usage_ok_def split: if_splits)
qed

lemma no_usage_get: "dict_get (no_usage d) k 0 = 0"
proof -
  have "map_of (no_usage d) k = map_option (\<lambda>_. 0) (map_of d k)" by (induction d) (auto simp: no_usage_def)
  then show ?thesis by (auto simp: dict_get_def split: option.splits)
qed

lemma no_usage_ok: "wf_dict (stage_limits m) \<Longrightarrow> usage_ok m (no_usage (stage_limits m))"
proof -
  assume wf: "wf_dict (stage_limits m)"
  have "\<forall>k. 0 \<le> dict_get (no_usage (stage_limits m)) k 0" by (simp add: no_usage_get)
  moreover have "dict_keys (no_usage d) = dict_keys d" for d by (induction d) (auto simp: no_usage_def)
  ultimately show ?thesis using wf unfolding usage_ok_def by metis
qed

lemma update_usage_get: "dict_get (update_usage d new) k 0 = (case map_of (rev new) k of None \<Rightarrow> dict_get d k 0 | Some v \<Rightarrow> v)"
  unfolding update_usage_def
  by (induction new arbitrary: d) (auto simp: map_add_def split: option.splits)

lemma update_usage_keys: "set (dict_keys (update_usage d new)) = set (dict_keys d) \<union> set (dict_keys new)"
  unfolding update_usage_def
proof (induction new arbitrary: d)
  case (Cons kv new)
  then show ?case by (cases kv) (auto simp: dom_update)
qed simp

lemma update_usage_ok:
  assumes "usage_ok m d" "set (dict_keys new) \<subseteq> set (dict_keys d)" "\<forall>(k, v)\<in>set new. \<not> v < dict_get d k 0"
  shows "usage_ok m (update_usage d new)"
proof -
  have "0 \<le> dict_get (update_usage d new) k 0" for k
  proof (cases "map_of (rev new) k")
    case (Some v)
    then have "(k, v) \<in> set new" using map_of_SomeD by fastforce
    then have "dict_get d k 0 \<le> v" "0 \<le> dict_get d k 0" using assms(1,3) by (auto simp: usage_ok_def)
    then show ?thesis using Some by (simp add: update_usage_get)
  qed (use assms(1) in \<open>simp add: update_usage_get usage_ok_def\<close>)
  moreover have "wf_dict (update_usage d new)" using assms(1) by (simp add: usage_ok_def update_usage_def wf_dict_fold)
  ultimately show ?thesis using assms(1,2) update_usage_keys [of d new] by (auto simp: usage_ok_def)
qed

text \<open>Usage and cancellation do not matter to leases.\<close>

lemma budget_ok_usage:
  assumes "budget_ok m" "usage_ok m u" "usage_ok m w" "usage_ok m r" "0 \<le> n" "0 \<le> e"
  shows "budget_ok (m\<lparr>round_consumed := r, model_work_s := w, consumed := u, started_rounds := n, elapsed_before_resume_s := e\<rparr>)"
  using assms by (simp add: budget_ok_def)

lemma start_round_ok:
  assumes "budget_ok m" "start_tuning_round m now = Inr m'"
  shows "budget_ok m'"
proof -
  have "m' = m\<lparr>round_consumed := no_usage (stage_limits m), started_rounds := started_rounds m + 1\<rparr>"
    using assms(2) by (auto simp: start_tuning_round_def res_simps)
  moreover have "wf_dict (stage_limits m)" using assms(1) by (simp add: budget_ok_def limits_ok_def)
  ultimately show ?thesis using budget_ok_usage [OF assms(1) _ _ no_usage_ok, of "consumed m" "model_work_s m" "started_rounds m + 1" "elapsed_before_resume_s m"] assms(1)
    by (simp add: budget_ok_def)
qed

lemma restore_usage_ok:
  assumes "budget_ok m" "restore_usage m used rounds elapsed model_work round_used = Inr m'"
  shows "budget_ok m'"
proof -
  have c: "set (dict_keys used) \<subseteq> set (dict_keys (consumed m))" "\<forall>(k, v)\<in>set used. \<not> v < dict_get (consumed m) k 0"
    "set (dict_keys model_work) \<subseteq> set (dict_keys (model_work_s m))" "\<forall>(k, v)\<in>set model_work. \<not> v < dict_get (model_work_s m) k 0"
    "set (dict_keys round_used) \<subseteq> set (dict_keys (round_consumed m))" "\<forall>(k, v)\<in>set round_used. \<not> v < dict_get (round_consumed m) k 0"
    "started_rounds m \<le> rounds" "elapsed_before_resume_s m \<le> elapsed"
    and m': "m' = m\<lparr>round_consumed := update_usage (round_consumed m) round_used, model_work_s := update_usage (model_work_s m) model_work,
            consumed := update_usage (consumed m) used, started_rounds := rounds, elapsed_before_resume_s := elapsed\<rparr>"
    using assms(2) by (auto simp: restore_usage_def res_simps split_beta split: if_splits)
  have u: "usage_ok m (consumed m)" "usage_ok m (model_work_s m)" "usage_ok m (round_consumed m)" "0 \<le> started_rounds m" "0 \<le> elapsed_before_resume_s m" using assms(1) by (simp_all add: budget_ok_def)
  show ?thesis unfolding m'
    by (rule budget_ok_usage [OF assms(1) update_usage_ok [OF u(1) c(1,2)] update_usage_ok [OF u(2) c(3,4)] update_usage_ok [OF u(3) c(5,6)]]) (use u(4,5) c(7,8) in simp_all)
qed

lemma cancel_ok: "budget_ok m \<Longrightarrow> budget_ok (cancel m)"
  by (simp add: cancel_def budget_ok_def)

lemma available_cpu_slots_positive: "available_cpu_slots affinity quotas cfs = Inr n \<Longrightarrow> 1 \<le> n"
  by (auto simp: available_cpu_slots_def Let_def res_simps)

lemma budget_manager_ok:
  assumes "budget_manager limits cpus timeout threads parallel reserve rounds wall available readings now = Inr m" "wf_dict limits"
  shows "budget_ok m"
proof -
  obtain ls avail where ls: "map_res (\<lambda>(key, per_round, total_s). bnd (positive per_round ''per-round budget'') (\<lambda>p. bnd (positive total_s ''total budget'') (\<lambda>t. Inr (key, p, t)))) limits = Inr ls"
    and a: "(case available of None \<Rightarrow> (case readings of (affinity, quotas, cfs) \<Rightarrow> available_cpu_slots affinity quotas cfs) | Some n \<Rightarrow> positive_count n ''available CPUs'') = Inr avail"
    and c: "1 \<le> cpus" "1 \<le> threads" "1 \<le> parallel" "0 < reserve" "0 \<le> rounds"
    and m: "stage_limits m = ls" "cpu_budget m = min cpus avail" "max_threads_per_model m = threads" "max_parallel_models m = parallel" "cleanup_reserve_s m = reserve"
      "max_tuning_rounds m = rounds" "consumed m = no_usage ls" "model_work_s m = no_usage ls" "round_consumed m = no_usage ls" "started_rounds m = 0" "elapsed_before_resume_s m = 0"
      "cpu_in_use m = 0" "leases m = []"
    using assms(1) unfolding budget_manager_def by (auto simp: res_simps positive_def positive_count_def split: option.splits)
  have "1 \<le> avail" using a by (auto simp: positive_count_def res_simps dest: available_cpu_slots_positive split: option.splits prod.splits)
  moreover have "list_all2 (\<lambda>(k, p, t) y. y = (k, p, t) \<and> 0 < p \<and> 0 < t) limits ls"
    using ls unfolding map_res_Inr_iff by (rule list_all2_mono) (auto simp: positive_def res_simps)
  then have "ls = limits \<and> (\<forall>(k, p, t)\<in>set ls. 0 < p \<and> 0 < t)" by (induction rule: list_all2_induct) auto
  ultimately show ?thesis using c assms(2) no_usage_ok [of m]
    by (simp add: budget_ok_def limits_ok_def m threads_in_use_def active_models_def single_roots_def)
qed

section \<open>Every reachable state\<close>

inductive_cases budget_stepE: "budget_step s a s'"

lemma model_request_pending:
  assumes "model_request m stage parent threads = Inr (p, n)" "budget_ok m"
  shows "p < length (leases m)" "\<not> lease_model (leases m ! p)" "lease_stage (leases m ! p) = stage" "1 \<le> n" "n \<le> min (max_threads_per_model m) (cpu_budget m)"
  using assms by (auto simp: model_request_def acquire_guard_def requested_threads_def positive_count_def budget_ok_def limits_ok_def res_simps split: option.splits)

text \<open>Leases stay where they are and keep their kind and stage, and the limits never change.\<close>

definition continues :: "budget \<Rightarrow> budget \<Rightarrow> bool" where
  "continues m m' \<longleftrightarrow> length (leases m) \<le> length (leases m') \<and> max_threads_per_model m' = max_threads_per_model m \<and> cpu_budget m' = cpu_budget m \<and>
     stage_limits m' = stage_limits m \<and>
     (\<forall>i<length (leases m). lease_model (leases m' ! i) = lease_model (leases m ! i) \<and> lease_stage (leases m' ! i) = lease_stage (leases m ! i))"

lemma pending_ok_continues:
  assumes "pending_ok s" "continues (sys_budget s) m" "pending \<subseteq># sys_pending s"
  shows "pending_ok (s\<lparr>sys_budget := m, sys_pending := pending, sys_now := t\<rparr>)"
proof -
  have "p < length (leases m) \<and> \<not> lease_model (leases m ! p) \<and> lease_stage (leases m ! p) = stage \<and> 1 \<le> n \<and> n \<le> min (max_threads_per_model m) (cpu_budget m)"
    if "(stage, p, n) \<in># pending" for stage p n
  proof -
    have "(stage, p, n) \<in># sys_pending s" using that assms(3) by (rule mset_subset_eqD [rotated])
    then show ?thesis using assms(1,2) by (fastforce simp: pending_ok_def continues_def)
  qed
  then show ?thesis by (auto simp: pending_ok_def)
qed

lemma close_lease_continues: "close_lease m i confirmed now = Inr m' \<Longrightarrow> continues m m'"
  by (erule close_lease_cases) (auto simp: continues_def charge_def nth_list_update)

lemma budget_step_continues:
  assumes "budget_step s a s'"
  shows "continues (sys_budget s) (sys_budget s')"
  using assms
proof cases
  case (close i confirmed m)
  then show ?thesis using close_lease_continues by simp
qed (auto simp: continues_def acquire_root_def acquire_guard_def try_model_def start_tuning_round_def restore_usage_def cancel_def Let_def nth_append res_simps split: if_splits)

lemma budget_step_ok:
  assumes "budget_ok (sys_budget s)" "pending_ok s" "budget_step s a s'"
  shows "budget_ok (sys_budget s') \<and> pending_ok s'"
proof -
  note cont = budget_step_continues [OF assms(3)]
  have keep: "pending_ok s'" if "sys_pending s' \<subseteq># sys_pending s"
    using pending_ok_continues [OF assms(2) cont that, of "sys_now s'"] by (simp add: pending_ok_def)
  from assms(3) show ?thesis
  proof cases
    case (request stage parent threads p n)
    then show ?thesis using assms(1,2) model_request_pending [OF request(3) assms(1)] by (auto simp: pending_ok_def)
  next
    case (grant stage p n t m)
    then have "p < length (leases (sys_budget s)) \<and> \<not> lease_model (leases (sys_budget s) ! p) \<and> lease_stage (leases (sys_budget s) ! p) = stage \<and>
        1 \<le> n \<and> n \<le> min (max_threads_per_model (sys_budget s)) (cpu_budget (sys_budget s))"
      using assms(2) by (fastforce simp: pending_ok_def)
    then show ?thesis using grant try_model_ok [OF assms(1) grant(5)] keep by simp
  qed (use assms(1) keep acquire_root_ok [OF assms(1)] close_lease_ok [OF assms(1)] start_round_ok [OF assms(1)] restore_usage_ok [OF assms(1)] cancel_ok [OF assms(1)] in simp_all)
qed

lemma reachable_ok: "reachable allowed s \<Longrightarrow> budget_ok (sys_budget s) \<and> pending_ok s"
proof (induction rule: reachable.induct)
  case (start limits cpus timeout threads parallel reserve rounds wall available readings now m)
  then show ?case using budget_manager_ok by (simp add: pending_ok_def)
next
  case (step s a s')
  then show ?case using budget_step_ok by blast
qed

text \<open>
  C21. Whatever the order of operations, also with several requests waiting for slots at once: the slots in use are the threads of the open model
  leases and never exceed the CPU budget, no more models run than allowed, a stage has at most one open root lease, and every
  open model lease runs under an open root lease of its stage and ends no later than it.
\<close>

theorem budget_slots_safe:
  assumes "reachable allowed s"
  shows "cpu_in_use (sys_budget s) = sum_list (map lease_threads (filter (\<lambda>l. lease_model l \<and> \<not> lease_closed l) (leases (sys_budget s)))) \<and>
    cpu_in_use (sys_budget s) \<le> cpu_budget (sys_budget s) \<and> active_models (sys_budget s) \<le> max_parallel_models (sys_budget s) \<and>
    (\<forall>i j. i < j \<and> j < length (leases (sys_budget s)) \<and> lease_stage (leases (sys_budget s) ! i) = lease_stage (leases (sys_budget s) ! j) \<and>
       \<not> lease_model (leases (sys_budget s) ! i) \<and> \<not> lease_model (leases (sys_budget s) ! j) \<longrightarrow>
       lease_closed (leases (sys_budget s) ! i) \<or> lease_closed (leases (sys_budget s) ! j)) \<and>
    (\<forall>l\<in>set (leases (sys_budget s)). lease_model l \<and> \<not> lease_closed l \<longrightarrow> (\<exists>p<length (leases (sys_budget s)). lease_parent l = Some p \<and>
       \<not> lease_closed (leases (sys_budget s) ! p) \<and> \<not> lease_model (leases (sys_budget s) ! p) \<and> lease_stage (leases (sys_budget s) ! p) = lease_stage l \<and>
       lease_deadline l \<le> lease_deadline (leases (sys_budget s) ! p)))"
proof -
  have ok: "budget_ok (sys_budget s)" using reachable_ok [OF assms] ..
  have "open_model = (\<lambda>l. lease_model l \<and> \<not> lease_closed l)" by (auto simp: open_model_def)
  then have "cpu_in_use (sys_budget s) = sum_list (map lease_threads (filter (\<lambda>l. lease_model l \<and> \<not> lease_closed l) (leases (sys_budget s))))"
    using ok by (simp add: budget_ok_def threads_in_use_def)
  moreover have "lease_closed (leases (sys_budget s) ! i) \<or> lease_closed (leases (sys_budget s) ! j)"
    if "i < j" "j < length (leases (sys_budget s))" "lease_stage (leases (sys_budget s) ! i) = lease_stage (leases (sys_budget s) ! j)"
      "\<not> lease_model (leases (sys_budget s) ! i)" "\<not> lease_model (leases (sys_budget s) ! j)" for i j
    using ok that unfolding budget_ok_def single_roots_def open_root_def by blast
  moreover have "\<exists>p<length (leases (sys_budget s)). lease_parent l = Some p \<and> \<not> lease_closed (leases (sys_budget s) ! p) \<and>
      \<not> lease_model (leases (sys_budget s) ! p) \<and> lease_stage (leases (sys_budget s) ! p) = lease_stage l \<and> lease_deadline l \<le> lease_deadline (leases (sys_budget s) ! p)"
    if "l \<in> set (leases (sys_budget s))" "lease_model l" "\<not> lease_closed l" for l
  proof -
    have "lease_ok (sys_budget s) l" using ok that(1) by (simp add: budget_ok_def)
    then show ?thesis using that(2,3) unfolding lease_ok_def by auto
  qed
  ultimately show ?thesis using ok by (simp add: budget_ok_def)
qed

definition example_budget :: budget where
  "example_budget = projr (budget_manager [(''initial'', 10, 20)] 4 5 2 2 1 3 None (Some 4) (0, [], None) 0)"

definition example_rooted :: budget where
  "example_rooted = projr (acquire_root example_budget ''initial'' None 0)"

definition example_working :: budget where
  "example_working = (case try_model example_rooted ''initial'' 0 2 0 1 of Inr (Granted m) \<Rightarrow> m | _ \<Rightarrow> example_rooted)"

lemma example_steps:
  "budget_manager [(''initial'', 10, 20)] 4 5 2 2 1 3 None (Some 4) (0, [], None) 0 = Inr example_budget"
  "acquire_root example_budget ''initial'' None 0 = Inr example_rooted"
  "model_request example_rooted ''initial'' (Some 0) None = Inr (0, 2)"
  "try_model example_rooted ''initial'' 0 2 0 1 = Inr (Granted example_working)"
  by code_simp+

lemma example_reachable:
  assumes "\<And>s. allowed s (AcquireRoot ''initial'') \<and> allowed s (RequestModel ''initial'') \<and> allowed s GrantModel"
  shows "reachable allowed \<lparr>sys_budget = example_working, sys_pending = {#}, sys_now = 1\<rparr>"
proof -
  let ?s = "\<lparr>sys_budget = example_budget, sys_pending = {#}, sys_now = 0\<rparr>"
  have "reachable allowed ?s" using example_steps(1) by (rule reachable.start) simp
  moreover have "budget_step ?s (AcquireRoot ''initial'') (?s\<lparr>sys_budget := example_rooted\<rparr>)" by (rule budget_step.root [where parent = None]) (simp add: example_steps)
  ultimately have one: "reachable allowed (?s\<lparr>sys_budget := example_rooted\<rparr>)" using assms by (blast intro: reachable.step)
  let ?t = "\<lparr>sys_budget = example_rooted, sys_pending = {#(''initial'', 0, 2)#}, sys_now = 0\<rparr>"
  have "budget_step (?s\<lparr>sys_budget := example_rooted\<rparr>) (RequestModel ''initial'') ?t"
    using budget_step.request [of "?s\<lparr>sys_budget := example_rooted\<rparr>" "''initial''" "Some 0" None 0 2] by (simp add: example_steps)
  then have "reachable allowed ?t" using one assms by (blast intro: reachable.step)
  moreover have "budget_step ?t GrantModel \<lparr>sys_budget = example_working, sys_pending = {#}, sys_now = 1\<rparr>"
    using budget_step.grant [of "''initial''" 0 2 ?t 1 example_working] by (simp add: example_steps)
  ultimately show ?thesis using assms by (blast intro: reachable.step)
qed

theorem budget_slots_safe_witness:
  "reachable (\<lambda>_ _. True) \<lparr>sys_budget = example_working, sys_pending = {#}, sys_now = 1\<rparr> \<and> cpu_in_use example_working = 2 \<and>
   sum_list (map lease_threads (filter (\<lambda>l. lease_model l \<and> \<not> lease_closed l) (leases example_working))) = 2 \<and> cpu_in_use example_working \<le> cpu_budget example_working"
proof -
  have r: "reachable (\<lambda>_ _. True) \<lparr>sys_budget = example_working, sys_pending = {#}, sys_now = 1\<rparr>" by (rule example_reachable) simp
  have two: "cpu_in_use example_working = 2" by code_simp
  show ?thesis using budget_slots_safe [OF r] r two by simp
qed

section \<open>Time\<close>

text \<open>Root leases are closed by their deadlines, and no recorded usage is restored.\<close>

definition punctual :: "system \<Rightarrow> action \<Rightarrow> bool" where
  "punctual s a = (case a of RestoreUsage \<Rightarrow> False
     | CloseLease i confirmed \<Rightarrow> (if confirmed \<and> i < length (leases (sys_budget s)) \<and> open_root (leases (sys_budget s) ! i)
                                  then sys_now s \<le> lease_deadline (leases (sys_budget s) ! i) else True)
     | _ \<Rightarrow> True)"

definition window_ok :: "budget \<Rightarrow> string \<Rightarrow> rat \<Rightarrow> bool" where
  "window_ok m stage w \<longleftrightarrow> dict_get (round_consumed m) stage 0 + w \<le> fst (dict_get (stage_limits m) stage (0, 0)) \<and>
     dict_get (consumed m) stage 0 + w \<le> snd (dict_get (stage_limits m) stage (0, 0))"

definition time_ok :: "budget \<Rightarrow> bool" where
  "time_ok m \<longleftrightarrow> (\<forall>k\<in>set (dict_keys (stage_limits m)). window_ok m k 0) \<and>
     (\<forall>l\<in>set (leases m). open_root l \<longrightarrow> window_ok m (lease_stage l) (lease_deadline l - lease_started_at l))"

lemma stage_deadline_window:
  "dict_get (round_consumed m) stage 0 + (stage_deadline m stage now - now) \<le> fst (dict_get (stage_limits m) stage (0, 0))"
  "dict_get (consumed m) stage 0 + (stage_deadline m stage now - now) \<le> snd (dict_get (stage_limits m) stage (0, 0))"
  by (auto simp: stage_deadline_def earlier_def min_def split: prod.splits option.splits)

lemma acquire_root_time:
  assumes "acquire_root m stage parent now = Inr m'" "time_ok m"
  shows "time_ok m'"
proof -
  have m': "m' = m\<lparr>leases := leases m @ [root_lease m stage now]\<rparr>"
    using assms(1) by (auto simp: acquire_root_def acquire_guard_def Let_def res_simps)
  have "window_ok m stage (lease_deadline (root_lease m stage now) - lease_started_at (root_lease m stage now))"
    using stage_deadline_window [of m stage now] by (simp add: window_ok_def root_lease_def Let_def)
  then show ?thesis using assms(2) by (auto simp: m' time_ok_def window_ok_def root_lease_def Let_def)
qed

lemma close_lease_time:
  assumes "close_lease m i confirmed now = Inr m'" "time_ok m" "budget_ok m"
    and "confirmed \<Longrightarrow> i < length (leases m) \<Longrightarrow> open_root (leases m ! i) \<Longrightarrow> now \<le> lease_deadline (leases m ! i)"
  shows "time_ok m'"
  using assms(1)
proof (cases rule: close_lease_cases)
  case 1
  then show ?thesis using assms(2) by simp
next
  case 2
  let ?l = "(leases m ! i)\<lparr>lease_unresolved := True\<rparr>"
  have "window_ok m (lease_stage l) (lease_deadline l - lease_started_at l)" if "l \<in> set (leases m')" "open_root l" for l
  proof -
    from that(1) consider "l \<in> set (leases m)" | "l = ?l" unfolding 2(2) by (auto dest!: set_update_subset_insert [THEN subsetD])
    then show ?thesis
    proof cases
      case 2
      then have "open_root (leases m ! i)" using that(2) by (simp add: open_root_def)
      then show ?thesis using assms(2) nth_mem [OF \<open>i < length (leases m)\<close>] 2 by (simp add: time_ok_def)
    qed (use assms(2) that(2) in \<open>simp add: time_ok_def\<close>)
  qed
  then show ?thesis using assms(2) by (simp add: 2(2) time_ok_def window_ok_def)
next
  case 3
  let ?l = "leases m ! i" and ?e = "max 0 (now - lease_started_at (leases m ! i))"
  have limits: "stage_limits m' = stage_limits m" by (simp add: 3(5) charge_def)
  have usage: "window_ok m' k w \<longleftrightarrow> window_ok m k (w + (if k = lease_stage ?l \<and> \<not> lease_model ?l then ?e else 0))" for k w
    by (auto simp: window_ok_def 3(5) charge_def add_usage_def algebra_simps)
  have kept: "l \<in> set (leases m) \<and> (\<not> lease_model ?l \<longrightarrow> lease_stage l \<noteq> lease_stage ?l)" if l: "l \<in> set (leases m')" "open_root l" for l
  proof -
    obtain j where j: "j < length (leases m)" "l = leases m' ! j" using l(1) by (auto simp: in_set_conv_nth 3(5))
    then have "j \<noteq> i" using l(2) by (auto simp: 3(5) open_root_def)
    then have "l = leases m ! j" using j by (simp add: 3(5))
    moreover have "single_roots (leases m)" using assms(3) by (simp add: budget_ok_def)
    then have "lease_stage l \<noteq> lease_stage ?l" if "\<not> lease_model ?l"
      using l(2) \<open>l = leases m ! j\<close> \<open>j \<noteq> i\<close> 3(1,2) j(1) that unfolding single_roots_def open_root_def by (metis linorder_neqE_nat)
    ultimately show ?thesis using j(1) by simp
  qed
  have root: "window_ok m (lease_stage ?l) ?e" if "\<not> lease_model ?l"
  proof -
    have "open_root ?l" using that 3(2) by (simp add: open_root_def)
    then have "window_ok m (lease_stage ?l) (lease_deadline ?l - lease_started_at ?l)" "now \<le> lease_deadline ?l"
      using assms(2,4) 3(1,3) by (simp_all add: time_ok_def)
    moreover have "lease_ok m ?l" "0 < cleanup_reserve_s m" using assms(3) 3(1) by (simp_all add: budget_ok_def limits_ok_def)
    then have "lease_started_at ?l \<le> lease_deadline ?l" by (auto simp: lease_ok_def)
    ultimately show ?thesis by (auto simp: window_ok_def)
  qed
  show ?thesis using assms(2) kept root unfolding time_ok_def limits usage by (auto split: if_splits)
qed

lemma other_steps_time:
  assumes "time_ok m" "budget_ok m"
  shows "try_model m stage p n checked now = Inr (Granted m') \<Longrightarrow> time_ok m'" "start_tuning_round m now = Inr m' \<Longrightarrow> time_ok m'" "time_ok (cancel m)"
proof -
  assume "try_model m stage p n checked now = Inr (Granted m')"
  then have "m' = m\<lparr>cpu_in_use := cpu_in_use m + n, leases := leases m @ [model_lease m stage p n now]\<rparr>"
    by (auto simp: try_model_def Let_def res_simps split: if_splits)
  then show "time_ok m'" using assms(1) by (auto simp: time_ok_def window_ok_def open_root_def model_lease_def Let_def)
next
  assume "start_tuning_round m now = Inr m'"
  then have m': "m' = m\<lparr>round_consumed := no_usage (stage_limits m), started_rounds := started_rounds m + 1\<rparr>" by (auto simp: start_tuning_round_def res_simps)
  have "0 \<le> dict_get (round_consumed m) k 0" for k using assms(2) by (simp add: budget_ok_def usage_ok_def)
  then have "window_ok m' k w" if "window_ok m k w" for k w using that by (auto simp: window_ok_def m' no_usage_get intro: order_trans [rotated])
  then show "time_ok m'" using assms(1) by (auto simp: time_ok_def m')
qed (use assms(1) in \<open>simp add: time_ok_def window_ok_def cancel_def\<close>)

lemma budget_manager_fresh:
  assumes "budget_manager limits cpus timeout threads parallel reserve rounds wall available readings now = Inr m"
  shows "consumed m = no_usage (stage_limits m)" "model_work_s m = no_usage (stage_limits m)" "round_consumed m = no_usage (stage_limits m)"
    "leases m = []" "started_rounds m = 0" "elapsed_before_resume_s m = 0" "cpu_in_use m = 0" "b_started_at m = now"
  using assms unfolding budget_manager_def by (auto simp: res_simps)

lemma budget_manager_time:
  assumes "budget_manager limits cpus timeout threads parallel reserve rounds wall available readings now = Inr m" "wf_dict limits"
  shows "time_ok m"
proof -
  have "limits_ok m" using budget_manager_ok [OF assms] by (simp add: budget_ok_def)
  then have "0 < fst (dict_get (stage_limits m) k (0, 0)) \<and> 0 < snd (dict_get (stage_limits m) k (0, 0))" if "k \<in> set (dict_keys (stage_limits m))" for k
    using that by (fastforce simp: limits_ok_def dict_get_def)
  then show ?thesis by (auto simp: time_ok_def window_ok_def budget_manager_fresh [OF assms(1)] no_usage_get intro: less_imp_le)
qed

lemma reachable_time: "reachable punctual s \<Longrightarrow> time_ok (sys_budget s)"
proof (induction rule: reachable.induct)
  case (start limits cpus timeout threads parallel reserve rounds wall available readings now m)
  then show ?case using budget_manager_time by simp
next
  case (step s a s')
  note ok = conjunct1 [OF reachable_ok [OF step.hyps(1)]]
  from step.hyps(3) show ?case
  proof cases
    case (root stage parent m)
    then show ?thesis using acquire_root_time [OF _ step.IH] by simp
  next
    case (close i confirmed m)
    then show ?thesis using close_lease_time [OF _ step.IH ok] step.hyps(2) by (simp add: punctual_def)
  next
    case (restore used rounds elapsed model_work round_used m)
    then show ?thesis using step.hyps(2) by (simp add: punctual_def)
  qed (use step.IH other_steps_time [OF step.IH ok] in simp_all)
qed



section \<open>Resuming\<close>

lemma update_all: "wf_dict new \<Longrightarrow> set (dict_keys d) = set (dict_keys new) \<Longrightarrow> map_of (update_usage d new) = map_of new"
proof -
  assume wf: "wf_dict new" and keys: "set (dict_keys d) = set (dict_keys new)"
  have "map_of (update_usage d new) = map_of (rev new @ d)" unfolding update_usage_def
    by (induction new arbitrary: d) (auto simp: update_conv' map_add_def fun_eq_iff split: option.splits)
  moreover have "map_of (rev new) = map_of new" using wf map_of_inject_set [of "rev new" new] by (simp add: rev_map [symmetric])
  moreover have "map_of d x = None" if "map_of new x = None" for x using that keys by (simp add: map_of_eq_None_iff)
  ultimately show ?thesis by (auto simp: fun_eq_iff map_add_def split: option.splits)
qed

lemma restore_usage_accepts:
  assumes "\<forall>l\<in>set (leases m). lease_closed l" "set (dict_keys used) \<subseteq> set (dict_keys (consumed m))" "started_rounds m \<le> rounds" "elapsed_before_resume_s m \<le> elapsed"
    "\<forall>(k, v)\<in>set used. \<not> v < dict_get (consumed m) k 0" "set (dict_keys model_work) \<subseteq> set (dict_keys (model_work_s m))"
    "\<forall>(k, v)\<in>set model_work. \<not> v < dict_get (model_work_s m) k 0" "set (dict_keys round_used) \<subseteq> set (dict_keys (round_consumed m))"
    "\<forall>(k, v)\<in>set round_used. \<not> v < dict_get (round_consumed m) k 0"
  shows "restore_usage m used rounds elapsed model_work round_used =
    Inr (m\<lparr>round_consumed := update_usage (round_consumed m) round_used, model_work_s := update_usage (model_work_s m) model_work,
            consumed := update_usage (consumed m) used, started_rounds := rounds, elapsed_before_resume_s := elapsed\<rparr>)"
proof -
  have each: "check_each (\<lambda>(key, v). ensure (\<not> v < dict_get d key 0) e (Inr ())) new = Inr ()" if "\<forall>(k, v)\<in>set new. \<not> v < dict_get d k 0" for d new e
    using that by (auto simp: check_each_Inr_iff ensure_def)
  have "\<not> (\<exists>(key, v)\<in>set round_used. v < dict_get (round_consumed m) key 0)" using assms(9) by auto
  then show ?thesis using assms(1-4,6,8) unfolding restore_usage_def each [OF assms(5)] each [OF assms(7)] by (simp add: ensure_def bnd_def)
qed

text \<open>
  C23. A manager that resumes from the snapshot of another one with the same stages, taken when no lease was open, reports the same usage:
  the times per stage, in the round and of the models, the rounds and the elapsed time.
\<close>

theorem restore_snapshot:
  assumes "reachable allowed s" "\<forall>l\<in>set (leases (sys_budget s)). lease_closed l"
    and "budget_manager limits cpus timeout threads parallel reserve rounds wall available readings now = Inr m" "wf_dict limits"
    and "stage_limits m = stage_limits (sys_budget s)"
    and snap: "snap = take_snapshot (sys_budget s) t"
  shows "\<exists>m'. restore_usage m (snap_consumed snap) (snap_started_rounds snap) (snap_elapsed_wall_s snap) (snap_model_work_s snap) (snap_round_consumed snap) = Inr m' \<and>
    map_of (snap_consumed (take_snapshot m' now)) = map_of (snap_consumed snap) \<and> map_of (snap_model_work_s (take_snapshot m' now)) = map_of (snap_model_work_s snap) \<and>
    map_of (snap_round_consumed (take_snapshot m' now)) = map_of (snap_round_consumed snap) \<and>
    snap_started_rounds (take_snapshot m' now) = snap_started_rounds snap \<and> snap_elapsed_wall_s (take_snapshot m' now) = snap_elapsed_wall_s snap \<and>
    snap_cpu_in_use (take_snapshot m' now) = snap_cpu_in_use snap"
proof -
  have ok: "budget_ok (sys_budget s)" using reachable_ok [OF assms(1)] ..
  then have u: "usage_ok (sys_budget s) (consumed (sys_budget s))" "usage_ok (sys_budget s) (model_work_s (sys_budget s))" "usage_ok (sys_budget s) (round_consumed (sys_budget s))"
    "0 \<le> started_rounds (sys_budget s)" "0 \<le> elapsed_before_resume_s (sys_budget s)" by (simp_all add: budget_ok_def)
  note fresh = budget_manager_fresh [OF assms(3)]
  have keys: "set (dict_keys (no_usage (stage_limits m))) = set (dict_keys (stage_limits m))" by (force simp: no_usage_def)
  have "threads_in_use (leases (sys_budget s)) = 0" using assms(2) by (simp add: threads_in_use_def open_model_def)
  then have cpu: "cpu_in_use (sys_budget s) = 0" using ok by (simp add: budget_ok_def)
  let ?m' = "m\<lparr>round_consumed := update_usage (round_consumed m) (round_consumed (sys_budget s)), model_work_s := update_usage (model_work_s m) (model_work_s (sys_budget s)),
    consumed := update_usage (consumed m) (consumed (sys_budget s)), started_rounds := started_rounds (sys_budget s), elapsed_before_resume_s := snap_elapsed_wall_s snap\<rparr>"
  have nonneg: "\<forall>(k, v)\<in>set d. \<not> v < 0" if "usage_ok (sys_budget s) d" for d
    using that by (auto simp: usage_ok_def dict_get_def) (metis case_prodD not_less map_of_eq_Some_iff option.simps(5))
  have same: "set (dict_keys d) = set (dict_keys (stage_limits m))" "wf_dict d" if "usage_ok (sys_budget s) d" for d
    using that assms(5) by (simp_all add: usage_ok_def)
  have "restore_usage m (snap_consumed snap) (snap_started_rounds snap) (snap_elapsed_wall_s snap) (snap_model_work_s snap) (snap_round_consumed snap) = Inr ?m'"
    using u(4,5) nonneg [OF u(1)] nonneg [OF u(2)] nonneg [OF u(3)] same(1) [OF u(1)] same(1) [OF u(2)] same(1) [OF u(3)] keys
    unfolding snap take_snapshot_def snapshot.simps by (intro restore_usage_accepts) (simp_all add: fresh no_usage_get)
  then show ?thesis
    using cpu same [OF u(1)] same [OF u(2)] same [OF u(3)] keys fresh
    by (intro exI [of _ ?m']) (simp add: take_snapshot_def snap update_all)
qed

definition example_closed :: budget where
  "example_closed = projr (close_lease example_rooted 0 True 3)"

lemma example_closed_reachable: "reachable (\<lambda>_ _. True) \<lparr>sys_budget = example_closed, sys_pending = {#}, sys_now = 3\<rparr>"
proof -
  let ?s = "\<lparr>sys_budget = example_budget, sys_pending = {#}, sys_now = 0\<rparr>"
  have "reachable (\<lambda>_ _. True) ?s" using example_steps(1) by (rule reachable.start) simp
  moreover have "budget_step ?s (AcquireRoot ''initial'') (?s\<lparr>sys_budget := example_rooted\<rparr>)" by (rule budget_step.root [where parent = None]) (simp add: example_steps)
  ultimately have one: "reachable (\<lambda>_ _. True) (?s\<lparr>sys_budget := example_rooted\<rparr>)" by (blast intro: reachable.step)
  let ?t = "\<lparr>sys_budget = example_rooted, sys_pending = {#}, sys_now = 3\<rparr>"
  have "budget_step (?s\<lparr>sys_budget := example_rooted\<rparr>) Tick ?t" using budget_step.tick [of "?s\<lparr>sys_budget := example_rooted\<rparr>" 3] by simp
  then have two: "reachable (\<lambda>_ _. True) ?t" using one by (blast intro: reachable.step)
  have "close_lease example_rooted 0 True 3 = Inr example_closed" by code_simp
  then have "budget_step ?t (CloseLease 0 True) \<lparr>sys_budget = example_closed, sys_pending = {#}, sys_now = 3\<rparr>"
    using budget_step.close [of ?t 0 True example_closed] by simp
  then show ?thesis using two by (blast intro: reachable.step)
qed

theorem restore_snapshot_witness:
  "\<exists>m'. restore_usage example_budget [(''initial'', 3)] 0 3 [(''initial'', 0)] [(''initial'', 3)] = Inr m' \<and> snap_elapsed_wall_s (take_snapshot m' 0) = 3 \<and>
    map_of (snap_consumed (take_snapshot m' 0)) = map_of [(''initial'', 3)]"
proof -
  have "\<forall>l\<in>set (leases example_closed). lease_closed l" "stage_limits example_budget = stage_limits example_closed" by code_simp+
  moreover have "take_snapshot example_closed 3 = \<lparr>snap_consumed = [(''initial'', 3)], snap_model_work_s = [(''initial'', 0)], snap_round_consumed = [(''initial'', 3)],
      snap_started_rounds = 0, snap_cpu_in_use = 0, snap_elapsed_wall_s = 3, snap_active_leases = []\<rparr>" by code_simp
  ultimately show ?thesis
    using restore_snapshot [OF example_closed_reachable _ example_steps(1), of "take_snapshot example_closed 3" 3] by auto
qed

end
