(* ===== verification/Cost_Model.thy ===== *)
theory Cost_Model
  imports Native_Program
begin

text \<open>
  \<^verbatim>\<open>src/vericcl/performance/model.py\<close> and \<^verbatim>\<open>profiles.py\<close>: service costs, measured rate profiles for sets of concurrent flows, the cost model and its updates.

  Numbers are rationals: the decimal values that the exact mode reads from the serialized floats.  The argument \<open>isoparse\<close> is
  \<^verbatim>\<open>datetime.fromisoformat\<close>: \<^verbatim>\<open>None\<close> when it raises, otherwise whether the result has a time zone.  Values of the applicability context are strings
  or \<^verbatim>\<open>None\<close>; the metadata is not read.
\<close>

section \<open>Service costs\<close>

definition cost_sources :: "string set" where
  "cost_sources = {''initial'', ''estimated'', ''measured'', ''history''}"

definition finite_value :: "rat \<Rightarrow> string \<Rightarrow> bool \<Rightarrow> rat res" where
  "finite_value v name strict = ensure (\<not> (v < 0 \<or> strict \<and> v = 0))
     (SemanticError (name @ '' must be finite and '' @ (if strict then ''positive'' else ''nonnegative''))) (Inr v)"

definition replace_z :: "string \<Rightarrow> string" where
  "replace_z s = concat (map (\<lambda>c. if c = CHR ''Z'' then ''+00:00'' else [c]) s)"

definition measurement_time :: "(string \<Rightarrow> bool option) \<Rightarrow> string \<Rightarrow> string option \<Rightarrow> unit res" where
  "measurement_time isoparse source stamp =
     ensure (\<not> (source \<in> {''measured'', ''history''} \<and> stamp = None)) (SemanticError ''measured costs require their original measurement time'') (
     case stamp of None \<Rightarrow> Inr ()
     | Some s \<Rightarrow> (case isoparse (replace_z s) of None \<Rightarrow> Inl (SemanticError ''invalid measurement timestamp'')
                  | Some zone \<Rightarrow> ensure zone (SemanticError ''measurement timestamp needs a timezone'') (Inr ())))"

record service_cost =
  alpha_cost :: rat
  beta_cost :: rat
  cost_source :: string
  cost_min_bytes :: int
  cost_max_bytes :: "int option"
  cost_measured_at :: "string option"
  cost_qualified :: bool

definition service_cost_post_init :: "(string \<Rightarrow> bool option) \<Rightarrow> service_cost \<Rightarrow> service_cost res" where
  "service_cost_post_init isoparse c =
     bnd (finite_value (alpha_cost c) ''alpha_us'' False) (\<lambda>_.
     bnd (finite_value (beta_cost c) ''beta_us_per_byte'' True) (\<lambda>_.
     ensure (\<not> (cost_source c \<notin> cost_sources \<or> cost_source c \<in> {''measured'', ''history''} \<and> \<not> cost_qualified c)) (SemanticError ''invalid or unqualified cost source'') (
     ensure (1 \<le> cost_min_bytes c) (SemanticError ''cost size domain must start at a positive byte count'') (
     ensure (case cost_max_bytes c of None \<Rightarrow> True | Some n \<Rightarrow> cost_min_bytes c \<le> n) (SemanticError ''cost size domain is invalid'') (
     bnd (measurement_time isoparse (cost_source c) (cost_measured_at c)) (\<lambda>_. Inr c))))))"

definition covers_size :: "service_cost \<Rightarrow> int \<Rightarrow> bool" where
  "covers_size c b \<longleftrightarrow> cost_min_bytes c \<le> b \<and> (case cost_max_bytes c of None \<Rightarrow> True | Some n \<Rightarrow> b \<le> n)"

section \<open>Rate profiles\<close>

record rate_profile =
  profile_id :: string
  profile_mode :: "string list"
  profile_rates :: "(string, rat) dict"
  profile_resources :: "string list"
  profile_min_bytes :: int
  profile_max_bytes :: "int option"
  profile_source :: string
  profile_measured_at :: "string option"
  profile_startup_us :: "(string, rat) dict"
  flow_resources :: "(string, string list) dict"

definition sorted_unique :: "string list \<Rightarrow> string list" where
  "sorted_unique xs = sorted_list_of_set (set xs)"

definition rate_profile_post_init :: "(string \<Rightarrow> bool option) \<Rightarrow> rate_profile \<Rightarrow> rate_profile res" where
  "rate_profile_post_init isoparse p =
     ensure (profile_id p \<noteq> '''') (SemanticError ''profile needs a stable identity'') (
     let mode = sort (profile_mode p) in
     ensure (\<not> (mode = [] \<or> '''' \<in> set mode \<or> \<not> distinct mode)) (SemanticError ''profile mode needs unique semantic flow identities'') (
     ensure (set (dict_keys (profile_rates p)) = set mode) (SemanticError ''profile rate vector must cover the exact concurrent mode'') (
     ensure (profile_source p \<in> cost_sources) (SemanticError ''invalid profile source'') (
     bnd (measurement_time isoparse (profile_source p) (profile_measured_at p)) (\<lambda>_.
     ensure (1 \<le> profile_min_bytes p \<and> (case profile_max_bytes p of None \<Rightarrow> True | Some n \<Rightarrow> profile_min_bytes p \<le> n)) (SemanticError ''invalid profile payload domain'') (
     ensure ('''' \<notin> set (profile_resources p)) (SemanticError ''invalid profile resource identity'') (
     ensure (set (dict_keys (profile_startup_us p)) \<subseteq> set mode) (SemanticError ''startup vector uses an unknown flow'') (
     bnd (check_each (\<lambda>(_, v). bnd (finite_value v ''measured rate'' True) (\<lambda>_. Inr ())) (profile_rates p)) (\<lambda>_.
     bnd (check_each (\<lambda>(_, v). bnd (finite_value v ''startup'' False) (\<lambda>_. Inr ())) (profile_startup_us p)) (\<lambda>_.
     let members = map (\<lambda>(k, rs). (k, sorted_unique rs)) (flow_resources p) in
     ensure (\<not> (members \<noteq> [] \<and> (set (dict_keys members) \<noteq> set mode \<or> \<Union>(set ` snd ` set members) \<noteq> set (profile_resources p))))
       (SemanticError ''profile resource membership must cover its exact mode and resource union'') (
     Inr (p\<lparr>profile_mode := mode, profile_resources := sorted_unique (profile_resources p), flow_resources := members\<rparr>))))))))))))"

text \<open>The flow of a communication is present.\<close>

definition op_flow :: "work_operation \<Rightarrow> string" where
  "op_flow op = (case flow_id op of None \<Rightarrow> '''' | Some f \<Rightarrow> f)"

definition applies :: "rate_profile \<Rightarrow> work_operation list \<Rightarrow> bool" where
  "applies p ops \<longleftrightarrow> sort (map op_flow ops) = profile_mode p \<and> sorted_list_of_set (\<Union>(set ` work_resources ` set ops)) = profile_resources p \<and>
     (flow_resources p = [] \<or> (\<forall>op\<in>set ops. map_of (flow_resources p) (op_flow op) = Some (sort (work_resources op)))) \<and>
     (\<forall>op\<in>set ops. profile_min_bytes p \<le> payload_bytes op \<and> (case profile_max_bytes p of None \<Rightarrow> True | Some n \<Rightarrow> payload_bytes op \<le> n))"

section \<open>Cost models\<close>

record cost_model =
  model_version :: string
  services :: "(string, service_cost list) dict"
  model_resources :: "(string, rat) dict"
  profiles :: "rate_profile list"
  model_context :: "(string, string option) dict"

definition domains_apart :: "service_cost list \<Rightarrow> bool" where
  "domains_apart cs \<longleftrightarrow> (\<forall>(l, r)\<in>set (zip cs (tl cs)). case cost_max_bytes l of None \<Rightarrow> False | Some n \<Rightarrow> n < cost_min_bytes r)"

definition normalize_services :: "string \<times> service_cost list \<Rightarrow> (string \<times> service_cost list) res" where
  "normalize_services entry = (case entry of (key, cs) \<Rightarrow>
     ensure (key \<noteq> '''') (SemanticError ''cost component key must be nonempty'') (
     ensure (cs \<noteq> []) (SemanticError ''service cost component must contain ServiceCost records'') (
     let cs = sort_key cost_min_bytes cs in
     ensure (domains_apart cs) (SemanticError ''service size domains overlap'') (Inr (key, cs)))))"

definition cost_model_post_init :: "cost_model \<Rightarrow> cost_model res" where
  "cost_model_post_init m =
     ensure (model_version m \<noteq> '''') (SemanticError ''cost model needs a version identity'') (
     bnd (map_res normalize_services (services m)) (\<lambda>svs.
     bnd (check_each (\<lambda>(_, v). bnd (finite_value v ''resource capacity'' True) (\<lambda>_. Inr ())) (model_resources m)) (\<lambda>_.
     ensure ('''' \<notin> set (dict_keys (model_resources m))) (SemanticError ''resource identity must be nonempty'') (
     ensure (card (set (map profile_id (profiles m))) = length (profiles m)) (SemanticError ''duplicate profile identity'') (
     Inr (m\<lparr>services := svs\<rparr>))))))"

definition service_for :: "cost_model \<Rightarrow> string \<Rightarrow> int \<Rightarrow> service_cost option" where
  "service_for m key b = find (\<lambda>c. covers_size c b) (dict_get (services m) key [])"

datatype model_change = ServiceChange string "service_cost list option" "service_cost list" | ResourceChange string "rat option" rat
  | ProfilesChange "rate_profile list" "rate_profile list"

definition with_updates :: "cost_model \<Rightarrow> string \<Rightarrow> (string, service_cost list) dict \<Rightarrow> (string, rat) dict \<Rightarrow> rate_profile list option
    \<Rightarrow> (cost_model \<times> model_change list) res" where
  "with_updates m version svs rs ps =
     ensure (version \<noteq> model_version m) (SemanticError ''a model update needs a new version identity'') (
     let changes = map (\<lambda>(k, v). ServiceChange k (map_of (services m) k) v) svs @ map (\<lambda>(k, v). ResourceChange k (map_of (model_resources m) k) v) rs
           @ (case ps of None \<Rightarrow> [] | Some ps \<Rightarrow> [ProfilesChange (profiles m) ps]) in
     bnd (cost_model_post_init (m\<lparr>model_version := version, services := foldl (\<lambda>d (k, v). AList.update k v d) (services m) svs,
       model_resources := foldl (\<lambda>d (k, v). AList.update k v d) (model_resources m) rs, profiles := (case ps of None \<Rightarrow> profiles m | Some ps \<Rightarrow> ps)\<rparr>)) (\<lambda>m'.
     Inr (m', changes)))"

text \<open>The sizes of a component's costs are disjoint intervals in increasing order.\<close>

lemma domains_apart_later:
  assumes "domains_apart cs" "sorted (map cost_min_bytes cs)" "i < j" "j < length cs"
  shows "\<exists>n. cost_max_bytes (cs ! i) = Some n \<and> n < cost_min_bytes (cs ! j)"
proof -
  have "(cs ! i, cs ! Suc i) \<in> set (zip cs (tl cs))" using assms(3,4) by (auto simp: set_zip nth_tl intro!: exI [of _ i])
  then obtain n where n: "cost_max_bytes (cs ! i) = Some n" "n < cost_min_bytes (cs ! Suc i)" using assms(1) by (fastforce simp: domains_apart_def split: option.splits)
  have "cost_min_bytes (cs ! Suc i) \<le> cost_min_bytes (cs ! j)" using sorted_nth_mono [OF assms(2), of "Suc i" j] assms(3,4) by simp
  then show ?thesis using n by auto
qed

lemma covering_unique:
  assumes "domains_apart cs" "sorted (map cost_min_bytes cs)" "i < length cs" "j < length cs" "covers_size (cs ! i) b" "covers_size (cs ! j) b"
  shows "i = j"
  using domains_apart_later [OF assms(1,2), of i j] domains_apart_later [OF assms(1,2), of j i] assms(3-6)
  by (cases i j rule: linorder_cases) (auto simp: covers_size_def)

section \<open>Lookups\<close>

lemma normalize_services_Inr: "normalize_services (k, cs) = Inr e \<longleftrightarrow> k \<noteq> '''' \<and> cs \<noteq> [] \<and> domains_apart (sort_key cost_min_bytes cs) \<and> e = (k, sort_key cost_min_bytes cs)"
  by (auto simp: normalize_services_def res_simps Let_def)

lemma normalized_services:
  "map_res normalize_services svs = Inr svs' \<Longrightarrow> map_of svs' k = map_option (sort_key cost_min_bytes) (map_of svs k)
    \<and> (\<forall>cs. map_of svs' k = Some cs \<longrightarrow> domains_apart cs \<and> sorted (map cost_min_bytes cs))"
proof (induction svs arbitrary: svs')
  case (Cons e svs)
  obtain j cs where e: "e = (j, cs)" by (cases e)
  then obtain rest where r: "domains_apart (sort_key cost_min_bytes cs)" "map_res normalize_services svs = Inr rest" "svs' = (j, sort_key cost_min_bytes cs) # rest"
    using Cons.prems by (auto simp: bnd_Inr_iff normalize_services_Inr)
  from Cons.IH [OF r(2)] r(1,3) show ?case by (simp add: e)
qed simp

lemma model_services:
  assumes "cost_model_post_init m0 = Inr m"
  shows "map_of (services m) k = map_option (sort_key cost_min_bytes) (map_of (services m0) k)" "map_of (services m) k = Some cs \<Longrightarrow> domains_apart cs \<and> sorted (map cost_min_bytes cs)"
    "model_version m = model_version m0" "model_resources m = model_resources m0" "profiles m = profiles m0"
proof -
  have r: "map_res normalize_services (services m0) = Inr (services m)" "model_version m = model_version m0 \<and> model_resources m = model_resources m0 \<and> profiles m = profiles m0"
    using assms unfolding cost_model_post_init_def bnd_Inr_iff ensure_Inr_iff by auto
  from normalized_services [OF r(1), of k] show "map_of (services m) k = map_option (sort_key cost_min_bytes) (map_of (services m0) k)"
    "map_of (services m) k = Some cs \<Longrightarrow> domains_apart cs \<and> sorted (map cost_min_bytes cs)" by auto
  show "model_version m = model_version m0" "model_resources m = model_resources m0" "profiles m = profiles m0" using r(2) by auto
qed

lemma find_unique:
  assumes "domains_apart cs" "sorted (map cost_min_bytes cs)"
  shows "find (\<lambda>c. covers_size c b) cs = Some c \<longleftrightarrow> c \<in> set cs \<and> covers_size c b"
proof
  assume "find (\<lambda>c. covers_size c b) cs = Some c"
  then show "c \<in> set cs \<and> covers_size c b" by (metis find_Some_iff nth_mem)
next
  assume c: "c \<in> set cs \<and> covers_size c b"
  then obtain i where i: "i < length cs" "c = cs ! i" by (auto simp: in_set_conv_nth)
  have "\<not> covers_size (cs ! j) b" if "j < i" for j using covering_unique [OF assms, of j i b] i c that by auto
  then show "find (\<lambda>c. covers_size c b) cs = Some c" unfolding find_Some_iff using i c by blast
qed

lemma service_for_iff:
  assumes "cost_model_post_init m0 = Inr m"
  shows "service_for m key b = Some c \<longleftrightarrow> (\<exists>cs. map_of (services m0) key = Some cs \<and> c \<in> set cs \<and> covers_size c b)"
proof (cases "map_of (services m0) key")
  case None
  then show ?thesis using model_services(1) [OF assms, of key] by (simp add: service_for_def dict_get_def)
next
  case (Some cs)
  then have m: "map_of (services m) key = Some (sort_key cost_min_bytes cs)" using model_services(1) [OF assms, of key] by simp
  from find_unique [of "sort_key cost_min_bytes cs" b c] model_services(2) [OF assms m] show ?thesis by (simp add: service_for_def dict_get_def m Some)
qed

text \<open>
  C33.  The cost of a component for a number of bytes is the one given cost whose size domain covers it, in whatever order the costs were given; there is at most one.
\<close>

theorem service_for_exact:
  assumes "cost_model_post_init m0 = Inr m"
  shows "service_for m key b = Some c \<longleftrightarrow> (\<exists>cs. map_of (services m0) key = Some cs \<and> c \<in> set cs \<and> covers_size c b)"
  by (rule service_for_iff [OF assms])

definition size_cost :: "int \<Rightarrow> int option \<Rightarrow> service_cost" where
  "size_cost lo hi = \<lparr>alpha_cost = 1, beta_cost = 1, cost_source = ''initial'', cost_min_bytes = lo, cost_max_bytes = hi, cost_measured_at = None, cost_qualified = True\<rparr>"

definition sized_model :: "service_cost list \<Rightarrow> cost_model" where
  "sized_model cs = \<lparr>model_version = ''v1'', services = [(''copy:0'', cs)], model_resources = [], profiles = [], model_context = []\<rparr>"

lemma sized_model_ok: "cost_model_post_init (sized_model [size_cost 100 None, size_cost 1 (Some 99)]) = Inr (sized_model [size_cost 1 (Some 99), size_cost 100 None])"
  by code_simp

theorem service_for_exact_witness:
  "service_for (sized_model [size_cost 1 (Some 99), size_cost 100 None]) ''copy:0'' 4096 = Some (size_cost 100 None)"
  by (simp add: service_for_exact [OF sized_model_ok]) (simp add: sized_model_def size_cost_def covers_size_def)

section \<open>Updates\<close>

lemma map_of_updates: "map_of (foldl (\<lambda>d (k, v). AList.update k v d) d kvs) = map_of (rev kvs @ d)"
  by (induction kvs arbitrary: d) (auto simp: update_conv' map_add_def fun_eq_iff split: option.splits)

lemma updated_entry:
  assumes "wf_dict kvs"
  shows "map_of (foldl (\<lambda>d (k, v). AList.update k v d) d kvs) k = (case map_of kvs k of None \<Rightarrow> map_of d k | Some v \<Rightarrow> Some v)"
proof -
  have "map_of (rev kvs) = map_of kvs" using assms by (intro map_of_inject_set [THEN iffD2]) (auto simp: rev_map [symmetric])
  then show ?thesis by (simp add: map_of_updates map_add_def split: option.splits)
qed

text \<open>
  C34.  An update of a model replaces exactly the components and capacities that it names: every other lookup gives what it gave before, and the version identity changes.
\<close>

theorem with_updates_frame:
  assumes "cost_model_post_init m0 = Inr m" "with_updates m version svs rs ps = Inr (m', changes)" "wf_dict svs" "wf_dict rs"
  shows "model_version m' = version \<and> version \<noteq> model_version m
    \<and> (service_for m' key b = Some c \<longleftrightarrow> (case map_of svs key of None \<Rightarrow> service_for m key b = Some c | Some cs \<Rightarrow> c \<in> set cs \<and> covers_size c b))
    \<and> map_of (model_resources m') r = (case map_of rs r of None \<Rightarrow> map_of (model_resources m) r | Some v \<Rightarrow> Some v)"
proof -
  define m1 where "m1 = m\<lparr>model_version := version, services := foldl (\<lambda>d (k, v). AList.update k v d) (services m) svs,
       model_resources := foldl (\<lambda>d (k, v). AList.update k v d) (model_resources m) rs, profiles := (case ps of None \<Rightarrow> profiles m | Some ps \<Rightarrow> ps)\<rparr>"
  have v: "version \<noteq> model_version m" and m1: "cost_model_post_init m1 = Inr m'" using assms(2) unfolding with_updates_def Let_def m1_def by (auto simp: res_simps)
  have svs: "map_of (services m1) key = (case map_of svs key of None \<Rightarrow> map_of (services m) key | Some v \<Rightarrow> Some v)" using updated_entry [OF assms(3)] by (simp add: m1_def)
  have old: "service_for m key b = Some c \<longleftrightarrow> (\<exists>cs. map_of (services m) key = Some cs \<and> c \<in> set cs \<and> covers_size c b)"
    using service_for_iff [OF assms(1)] model_services(1) [OF assms(1), of key] by auto
  have "service_for m' key b = Some c \<longleftrightarrow> (case map_of svs key of None \<Rightarrow> service_for m key b = Some c | Some cs \<Rightarrow> c \<in> set cs \<and> covers_size c b)"
    unfolding service_for_iff [OF m1] svs old by (simp split: option.splits)
  moreover have "model_version m' = version" "map_of (model_resources m') r = (case map_of rs r of None \<Rightarrow> map_of (model_resources m) r | Some v \<Rightarrow> Some v)"
    using model_services(3,4) [OF m1] updated_entry [OF assms(4)] by (simp_all add: m1_def)
  ultimately show ?thesis using v by blast
qed

theorem with_updates_frame_witness:
  "service_for (fst (projr (with_updates (sized_model [size_cost 1 (Some 99), size_cost 100 None]) ''v2'' [(''copy:1'', [size_cost 1 None])] [] None))) ''copy:0'' 7 = Some (size_cost 1 (Some 99))"
proof -
  let ?m = "sized_model [size_cost 1 (Some 99), size_cost 100 None]" and ?svs = "[(''copy:1'', [size_cost 1 None])]"
  have "is_ok (with_updates ?m ''v2'' ?svs [] None)" by code_simp
  then obtain m' ch where u: "with_updates ?m ''v2'' ?svs [] None = Inr (m', ch)" by (auto simp: is_ok_iff)
  have "service_for ?m ''copy:0'' 7 = Some (size_cost 1 (Some 99))" by code_simp
  then have "service_for m' ''copy:0'' 7 = Some (size_cost 1 (Some 99))"
    using with_updates_frame [OF sized_model_ok u, of "''copy:0''" 7 "size_cost 1 (Some 99)" "''''"] by simp
  then show ?thesis by (simp add: u)
qed

end
