(* ===== verification/Prediction.thy ===== *)
theory Prediction
  imports Cost_Model
begin

text \<open>
  \<^verbatim>\<open>src/vericcl/performance/simulation.py\<close> in its exact mode: the replay of the operations of an executable against a cost model.  Operations
  start when their dependencies have ended, pay a startup time and then move their bytes at rates that change with the set of
  operations that share resources.

  Times, rates and bytes are rationals, as in the exact mode, and the results are not rounded to floats.  The heap of releases is the sorted list of its
  entries.  The applicability context of the executable is an argument.  An override of a cost's source is \<^verbatim>\<open>estimated\<close>, which the checks of the
  replaced cost accept.  The lease is not modelled here: its checks end a run and do not change it.
\<close>

section \<open>Groups that share resources\<close>

type_synonym operations = "(string, work_operation) dict"

definition is_transfer :: "work_operation \<Rightarrow> bool" where
  "is_transfer op \<longleftrightarrow> work_kind op \<in> {''send'', ''rrc''}"

text \<open>One pass over the operations that remain: those that share a resource join the group.\<close>

fun group_pass :: "work_operation list \<Rightarrow> string set \<Rightarrow> work_operation list \<Rightarrow> work_operation list \<times> string set \<times> work_operation list" where
  "group_pass g rs [] = (g, rs, [])"
| "group_pass g rs (op # ops) =
     (if rs \<inter> set (work_resources op) \<noteq> {} then group_pass (g @ [op]) (rs \<union> set (work_resources op)) ops
      else (case group_pass g rs ops of (g', rs', rest) \<Rightarrow> (g', rs', op # rest)))"

lemma group_pass_length: "group_pass g rs ops = (g', rs', rest) \<Longrightarrow> length rest \<le> length ops"
  by (induction ops arbitrary: g rs rest) (auto split: if_splits prod.splits simp: le_SucI)

function grow_group :: "work_operation list \<Rightarrow> string set \<Rightarrow> work_operation list \<Rightarrow> work_operation list \<times> work_operation list" where
  "grow_group g rs ops = (case group_pass g rs ops of (g', rs', rest) \<Rightarrow> if length rest < length ops then grow_group g' rs' rest else (g', rest))"
  by pat_completeness auto
termination by (relation "measure (\<lambda>(_, _, ops). length ops)") (auto split: prod.splits)

declare grow_group.simps [simp del]

lemma grow_group_length: "grow_group g rs ops = (g', rest) \<Longrightarrow> length rest \<le> length ops"
proof (induction g rs ops rule: grow_group.induct)
  case (1 g rs ops)
  obtain h qs r where p: "group_pass g rs ops = (h, qs, r)" by (metis prod_cases3)
  show ?case using 1(1) [OF p [symmetric] refl] 1(2) group_pass_length [OF p] unfolding grow_group.simps [of g rs ops] p by (auto split: if_splits)
qed

function components :: "work_operation list \<Rightarrow> work_operation list list" where
  "components [] = []"
| "components (op # ops) = (case grow_group [op] (set (work_resources op)) ops of (g, rest) \<Rightarrow> g # components rest)"
  by pat_completeness auto
termination by (relation "measure length") (auto dest!: grow_group_length [OF sym] simp: le_imp_less_Suc)

definition profile_for :: "cost_model \<Rightarrow> work_operation list \<Rightarrow> rate_profile option res" where
  "profile_for m g = (let matches = filter (\<lambda>p. applies p g) (profiles m) in
     ensure (length matches \<le> 1) (SemanticError ''multiple profiles apply to the same concurrency mode'') (Inr (case matches of [] \<Rightarrow> None | p # _ \<Rightarrow> Some p)))"

section \<open>Rates\<close>

record rate_table =
  rt_rates :: "(string, rat) dict"
  rt_sources :: "(string, string) dict"
  rt_used :: "string set"
  rt_unmeasured :: "string list set"

definition assign_rate :: "work_operation \<Rightarrow> rat \<Rightarrow> string \<Rightarrow> rate_table \<Rightarrow> rate_table" where
  "assign_rate op r src rt = rt\<lparr>rt_rates := AList.update (work_id op) r (rt_rates rt), rt_sources := AList.update (work_id op) src (rt_sources rt)\<rparr>"

definition local_rate :: "(string, service_cost) dict \<Rightarrow> rate_table \<Rightarrow> work_operation \<Rightarrow> rate_table res" where
  "local_rate costs rt op = bnd (dict_item costs (work_id op)) (\<lambda>c. Inr (assign_rate op (1 / beta_cost c) (cost_source c) rt))"

definition group_resources :: "work_operation list \<Rightarrow> string set" where
  "group_resources g = \<Union>(set ` work_resources ` set g)"

definition check_profile_capacity :: "cost_model \<Rightarrow> rate_profile \<Rightarrow> work_operation list \<Rightarrow> string \<Rightarrow> unit res" where
  "check_profile_capacity m p g r =
     bnd (map_res (\<lambda>op. dict_item (profile_rates p) (op_flow op)) (filter (\<lambda>op. r \<in> set (work_resources op)) g)) (\<lambda>assigned.
     bnd (dict_item (model_resources m) r) (\<lambda>capacity.
     ensure (\<not> capacity < sum_list assigned) (SemanticError (''measured rate vector conflicts with resource capacity '' @ r)) (Inr ())))"

definition profile_rate :: "rate_profile \<Rightarrow> rate_table \<Rightarrow> work_operation \<Rightarrow> rate_table res" where
  "profile_rate p rt op = bnd (dict_item (profile_rates p) (op_flow op)) (\<lambda>r. Inr (assign_rate op r (profile_source p) rt))"

definition shared_limits :: "cost_model \<Rightarrow> work_operation list \<Rightarrow> work_operation \<Rightarrow> rat list res" where
  "shared_limits m g op = map_res (\<lambda>r. bnd (dict_item (model_resources m) r) (\<lambda>capacity.
     Inr (capacity / of_nat (length (filter (\<lambda>o'. r \<in> set (work_resources o')) g))))) (work_resources op)"

definition shared_rate :: "(string, service_cost) dict \<Rightarrow> cost_model \<Rightarrow> work_operation list \<Rightarrow> rate_table \<Rightarrow> work_operation \<Rightarrow> rate_table res" where
  "shared_rate costs m g rt op = bnd (dict_item costs (work_id op)) (\<lambda>c. bnd (shared_limits m g op) (\<lambda>limits.
     let own = 1 / beta_cost c; r = Min (set (own # limits)) in
     Inr (assign_rate op r (if 1 < length g \<or> r < own then ''initial_sharing_estimate'' else cost_source c) rt)))"

definition group_rates :: "(string, service_cost) dict \<Rightarrow> cost_model \<Rightarrow> rate_table \<Rightarrow> work_operation list \<Rightarrow> rate_table res" where
  "group_rates costs m rt g =
     ensure (card (set (map op_flow g)) = length g) (SemanticError ''concurrent operations share a flow identity; serialize their TB work'') (
     bnd (profile_for m g) (\<lambda>p.
     let rt = rt\<lparr>rt_used := rt_used rt \<union> (\<lambda>r. ''resource:'' @ r) ` group_resources g\<rparr> in
     case p of
       Some p \<Rightarrow> bnd (check_each (check_profile_capacity m p g) (sorted_list_of_set (group_resources g))) (\<lambda>_.
         for_each (profile_rate p) (rt\<lparr>rt_used := insert (''profile:'' @ profile_id p) (rt_used rt)\<rparr>) g)
     | None \<Rightarrow> for_each (shared_rate costs m g)
         (if 1 < length g then rt\<lparr>rt_unmeasured := insert (sort (map op_flow g)) (rt_unmeasured rt)\<rparr> else rt) g))"

definition rates :: "(string, service_cost) dict \<Rightarrow> cost_model \<Rightarrow> string set \<Rightarrow> string list set \<Rightarrow> work_operation list \<Rightarrow> rate_table res" where
  "rates costs m used unmeasured acting =
     bnd (for_each (local_rate costs) \<lparr>rt_rates = [], rt_sources = [], rt_used = used, rt_unmeasured = unmeasured\<rparr> (filter (\<lambda>op. \<not> is_transfer op) acting)) (\<lambda>rt.
     for_each (group_rates costs m) rt (components (filter is_transfer acting)))"

section \<open>The simulation\<close>

record progress_event =
  ev_time :: rat
  ev_kind :: string
  ev_op :: string

record progress_segment =
  seg_op :: string
  seg_start :: rat
  seg_end :: rat
  seg_rate :: rat
  seg_source :: string

record sim =
  sim_now :: rat
  sim_pending :: "string set"
  sim_releases :: "(rat \<times> string) list"
  sim_degrees :: "(string, int) dict"
  sim_startup :: "(string, rat) dict"
  sim_active :: "string set"
  sim_remaining :: "(string, rat) dict"
  sim_starts :: "(string, rat) dict"
  sim_ends :: "(string, rat) dict"
  sim_events :: "progress_event list"
  sim_segments :: "progress_segment list"
  sim_used :: "string set"
  sim_sources :: "string set"
  sim_unmeasured :: "string list set"

definition note_event :: "string \<Rightarrow> string \<Rightarrow> sim \<Rightarrow> sim" where
  "note_event what key s = s\<lparr>sim_events := sim_events s @ [\<lparr>ev_time = sim_now s, ev_kind = what, ev_op = key\<rparr>]\<rparr>"

text \<open>The lookups of an operation by a key that the executable has never fail.\<close>

abbreviation op_at :: "operations \<Rightarrow> string \<Rightarrow> work_operation" where
  "op_at ops key \<equiv> the (map_of ops key)"

definition complete_follower :: "operations \<Rightarrow> sim \<Rightarrow> string \<Rightarrow> sim" where
  "complete_follower ops s f =
     (if f \<notin> sim_pending s then s
      else let n = dict_get (sim_degrees s) f 0 - 1 in
        s\<lparr>sim_degrees := AList.update f n (sim_degrees s),
          sim_releases := (if n = 0 then insort (not_before_us (op_at ops f), f) (sim_releases s) else sim_releases s)\<rparr>)"

definition complete_op :: "operations \<Rightarrow> (string, string list) dict \<Rightarrow> sim \<Rightarrow> string \<Rightarrow> sim" where
  "complete_op ops successors s key =
     foldl (complete_follower ops) (note_event ''complete'' key (s\<lparr>sim_ends := AList.update key (sim_now s) (sim_ends s)\<rparr>)) (dict_get successors key [])"

definition finish_startup :: "sim \<Rightarrow> string \<Rightarrow> sim" where
  "finish_startup s key = note_event ''startup_complete'' key (s\<lparr>sim_startup := AList.delete key (sim_startup s), sim_active := insert key (sim_active s)\<rparr>)"

definition started_up :: "sim \<Rightarrow> string list" where
  "started_up s = filter (\<lambda>key. dict_get (sim_startup s) key 0 \<le> sim_now s) (sort (dict_keys (sim_startup s)))"

definition released :: "sim \<Rightarrow> string list" where
  "released s = sort (map snd (takeWhile (\<lambda>e. fst e \<le> sim_now s) (sim_releases s)))"

definition launch_profile :: "cost_model \<Rightarrow> (string, rate_profile) dict \<Rightarrow> work_operation list \<Rightarrow> (string, rate_profile) dict res" where
  "launch_profile m d g = bnd (profile_for m g) (\<lambda>p. case p of None \<Rightarrow> Inr d
     | Some p \<Rightarrow> Inr (foldl (\<lambda>d op. if op_flow op \<in> set (dict_keys (profile_startup_us p)) then AList.update (work_id op) p d else d) d g))"

definition launch_profiles :: "operations \<Rightarrow> cost_model \<Rightarrow> string set \<Rightarrow> (string, rate_profile) dict res" where
  "launch_profiles ops m present = for_each (launch_profile m) [] (components (filter is_transfer (map (op_at ops) (sorted_list_of_set present))))"

definition cost_name :: "work_operation \<Rightarrow> string" where
  "cost_name op = (case cost_key op of None \<Rightarrow> '''' | Some k \<Rightarrow> k)"

definition launch :: "operations \<Rightarrow> (string, string list) dict \<Rightarrow> (string, service_cost) dict \<Rightarrow> (string, rate_profile) dict \<Rightarrow> sim \<Rightarrow> string \<Rightarrow> sim res" where
  "launch ops successors costs profs s key =
     (let op = op_at ops key;
          s = note_event ''start'' key (s\<lparr>sim_pending := sim_pending s - {key}, sim_starts := AList.update key (sim_now s) (sim_starts s)\<rparr>) in
      if work_kind op = ''nop'' then Inr (complete_op ops successors s key)
      else bnd (dict_item costs key) (\<lambda>c.
        let (alpha, source, used) = (case map_of profs key of None \<Rightarrow> (alpha_cost c, cost_source c, {})
              | Some p \<Rightarrow> (dict_get (profile_startup_us p) (op_flow op) 0, profile_source p, {''profile:'' @ profile_id p})) in
        Inr (s\<lparr>sim_used := insert (''service:'' @ cost_name op) (sim_used s) \<union> used, sim_sources := insert source (sim_sources s),
               sim_remaining := AList.update key (of_int (payload_bytes op)) (sim_remaining s),
               sim_startup := AList.update key (sim_now s + alpha) (sim_startup s)\<rparr>)))"

definition due :: "sim \<Rightarrow> bool" where
  "due s \<longleftrightarrow> (\<exists>(_, t)\<in>set (sim_startup s). t \<le> sim_now s) \<or> (\<exists>e\<in>set (take 1 (sim_releases s)). fst e \<le> sim_now s)"

text \<open>From the current event to the next one: the active operations move bytes at constant rates.\<close>

definition finish_time :: "rate_table \<Rightarrow> sim \<Rightarrow> string \<Rightarrow> rat" where
  "finish_time rt s key = sim_now s + dict_get (sim_remaining s) key 0 / dict_get (rt_rates rt) key 0"

definition future_times :: "rate_table \<Rightarrow> sim \<Rightarrow> rat set" where
  "future_times rt s = finish_time rt s ` sim_active s \<union> snd ` set (sim_startup s) \<union> fst ` set (take 1 (sim_releases s))"

definition progress :: "rate_table \<Rightarrow> rat \<Rightarrow> sim \<Rightarrow> string \<Rightarrow> sim" where
  "progress rt next s key = s\<lparr>sim_segments := sim_segments s @ [\<lparr>seg_op = key, seg_start = sim_now s, seg_end = next, seg_rate = dict_get (rt_rates rt) key 0,
        seg_source = dict_get (rt_sources rt) key ''''\<rparr>],
     sim_remaining := AList.update key (max 0 (dict_get (sim_remaining s) key 0 - dict_get (rt_rates rt) key 0 * (next - sim_now s))) (sim_remaining s)\<rparr>"

definition finish_active :: "operations \<Rightarrow> (string, string list) dict \<Rightarrow> sim \<Rightarrow> string \<Rightarrow> sim" where
  "finish_active ops successors s key = complete_op ops successors (s\<lparr>sim_active := sim_active s - {key}\<rparr>) key"

definition advance_time :: "operations \<Rightarrow> (string, string list) dict \<Rightarrow> rate_table \<Rightarrow> sim \<Rightarrow> sim res" where
  "advance_time ops successors rt s =
     (let next = Min (future_times rt s); keys = sorted_list_of_set (sim_active s);
          finished = filter (\<lambda>key. finish_time rt s key = next) keys in
      ensure (\<not> next \<le> sim_now s) (SemanticError ''model time precision cannot represent positive progress'') (
      let s = foldl (progress rt next) s keys in
      Inr (foldl (finish_active ops successors) (s\<lparr>sim_now := next\<rparr>) finished)))"

datatype outcome = Again sim | Stop sim

definition sim_step :: "operations \<Rightarrow> (string, string list) dict \<Rightarrow> (string, service_cost) dict \<Rightarrow> cost_model \<Rightarrow> sim \<Rightarrow> outcome res" where
  "sim_step ops successors costs m s =
     (let s = foldl finish_startup s (started_up s); ready = released s;
          s = s\<lparr>sim_releases := dropWhile (\<lambda>e. fst e \<le> sim_now s) (sim_releases s)\<rparr> in
      bnd (launch_profiles ops m (sim_active s \<union> set (dict_keys (sim_startup s)) \<union> set ready)) (\<lambda>profs.
      bnd (for_each (launch ops successors costs profs) s ready) (\<lambda>s.
      if due s then Inr (Again s)
      else bnd (rates costs m (sim_used s) (sim_unmeasured s) (map (op_at ops) (sorted_list_of_set (sim_active s)))) (\<lambda>rt.
        let s = s\<lparr>sim_used := rt_used rt, sim_unmeasured := rt_unmeasured rt, sim_sources := sim_sources s \<union> snd ` set (rt_sources rt)\<rparr> in
        if future_times rt s = {} then
          ensure (sim_pending s = {}) (SemanticError ''executable is stalled by unresolved work'') (Inr (Stop s))
        else bnd (advance_time ops successors rt s) (\<lambda>s. Inr (Again s))))))"

definition sim_busy :: "sim \<Rightarrow> bool" where
  "sim_busy s \<longleftrightarrow> sim_pending s \<noteq> {} \<or> sim_startup s \<noteq> [] \<or> sim_active s \<noteq> {}"

partial_function (option) sim_loop :: "operations \<Rightarrow> (string, string list) dict \<Rightarrow> (string, service_cost) dict \<Rightarrow> cost_model \<Rightarrow> sim \<Rightarrow> sim res option" where
  "sim_loop ops successors costs m s =
     (if sim_busy s then
        (case sim_step ops successors costs m s of
           Inl e \<Rightarrow> Some (Inl e)
         | Inr (Again s') \<Rightarrow> sim_loop ops successors costs m s'
         | Inr (Stop s') \<Rightarrow> Some (Inr s'))
      else Some (Inr s))"

declare sim_loop.simps [code]

section \<open>Predictions\<close>

text \<open>\<^verbatim>\<open>_acyclic\<close>: the counters and the followers of every operation.\<close>

definition add_follower :: "string \<Rightarrow> (string, string list) dict \<Rightarrow> string \<Rightarrow> (string, string list) dict res" where
  "add_follower key successors d = bnd (dict_item successors d) (\<lambda>fs. Inr (AList.update d (fs @ [key]) successors))"

definition work_successors :: "work_operation list \<Rightarrow> (string, string list) dict res" where
  "work_successors ops = for_each (\<lambda>successors op. for_each (add_follower (work_id op)) successors (work_dependencies op)) (map (\<lambda>op. (work_id op, [])) ops) ops"

definition work_degrees :: "work_operation list \<Rightarrow> (string, int) dict" where
  "work_degrees ops = map (\<lambda>op. (work_id op, int (length (work_dependencies op)))) ops"

definition acyclic_work :: "work_operation list \<Rightarrow> (string, string list) dict res option" where
  "acyclic_work ops = (case work_successors ops of Inl e \<Rightarrow> Some (Inl e)
     | Inr successors \<Rightarrow> map_option (\<lambda>r. bnd r (\<lambda>order. ensure (length order = length ops) (SemanticError ''executable dependency cycle'') (Inr successors)))
         (order_loop deque_pop deque_append successors (work_degrees ops) (map fst (filter (\<lambda>(_, n). n = 0) (work_degrees ops))) []))"

record work_costs =
  wc_costs :: "(string, service_cost) dict"
  wc_unavailable :: "string set"
  wc_missing :: "string set"

definition find_cost :: "cost_model \<Rightarrow> work_costs \<Rightarrow> work_operation \<Rightarrow> work_costs" where
  "find_cost m wc op =
     (if work_kind op = ''nop'' then wc
      else let wc = (case service_for m (cost_name op) (payload_bytes op) of
               None \<Rightarrow> wc\<lparr>wc_unavailable := insert (work_id op) (wc_unavailable wc), wc_missing := insert (''service:'' @ cost_name op) (wc_missing wc)\<rparr>
             | Some c \<Rightarrow> wc\<lparr>wc_costs := AList.update (work_id op)
                 (case source_override op of None \<Rightarrow> c | Some src \<Rightarrow> c\<lparr>cost_source := src\<rparr>) (wc_costs wc)\<rparr>);
             absent = filter (\<lambda>r. r \<notin> set (dict_keys (model_resources m))) (work_resources op) in
        wc\<lparr>wc_unavailable := (if absent = [] then wc_unavailable wc else insert (work_id op) (wc_unavailable wc)),
           wc_missing := wc_missing wc \<union> (\<lambda>r. ''resource:'' @ r) ` set absent\<rparr>)"

text \<open>Work that depends on unavailable work, or shares a resource with it, is unavailable.\<close>

definition affected_pass :: "work_operation list \<Rightarrow> string set \<Rightarrow> string set" where
  "affected_pass ops unavailable =
     (let hit = \<Union>(set ` work_resources ` set (filter (\<lambda>op. work_id op \<in> unavailable) ops)) in
      foldl (\<lambda>u op. if set (work_dependencies op) \<inter> u \<noteq> {} \<or> set (work_resources op) \<inter> hit \<noteq> {} then insert (work_id op) u else u) unavailable ops)"

partial_function (option) spread_unavailable :: "work_operation list \<Rightarrow> string set \<Rightarrow> string set option" where
  "spread_unavailable ops unavailable =
     (let u = affected_pass ops unavailable in if u = unavailable then Some u else spread_unavailable ops u)"

declare spread_unavailable.simps [code]

record prediction =
  pred_version :: string
  t_pred_us :: "rat option"
  output_ready_us :: "rat option"
  pred_starts :: "(string, rat) dict"
  pred_ends :: "(string, rat) dict"
  pred_events :: "progress_event list"
  pred_segments :: "progress_segment list"
  used_components :: "string set"
  missing_components :: "string set"
  unavailable_operations :: "string list"
  model_coverage :: string
  exact_completion_ratio :: "(int \<times> int) option"
  unmeasured_modes :: "string list set"

definition initial_sim :: "operations \<Rightarrow> (string, int) dict \<Rightarrow> string set \<Rightarrow> sim" where
  "initial_sim ops degrees pending =
     \<lparr>sim_now = 0, sim_pending = pending,
      sim_releases = sort (map (\<lambda>key. (not_before_us (op_at ops key), key)) (filter (\<lambda>key. key \<in> pending \<and> dict_get degrees key 0 = 0) (dict_keys ops))),
      sim_degrees = degrees, sim_startup = [], sim_active = {}, sim_remaining = [], sim_starts = [], sim_ends = [], sim_events = [], sim_segments = [],
      sim_used = {}, sim_sources = {}, sim_unmeasured = {}\<rparr>"

definition coverage :: "string set \<Rightarrow> string set \<Rightarrow> string" where
  "coverage unavailable srcs = (if unavailable \<noteq> {} then ''unavailable'' else if srcs = {} then ''not_required''
     else if srcs \<subseteq> {''measured'', ''history''} then ''measured'' else if srcs \<inter> {''measured'', ''history''} \<noteq> {} then ''partial'' else ''initial'')"

definition latest :: "rat list \<Rightarrow> rat" where
  "latest ts = (if ts = [] then 0 else Max (set ts))"

definition predict :: "executable \<Rightarrow> (string, string option) dict \<Rightarrow> cost_model \<Rightarrow> prediction res option" where
  "predict ex ctx m =
     (if set ctx \<noteq> set (model_context m) then Some (Inl (SemanticError ''cost model applicability context differs from the executable''))
      else let ops = map (\<lambda>op. (work_id op, op)) (exec_operations ex) in
      Option.bind (acyclic_work (exec_operations ex)) (\<lambda>r. case r of Inl e \<Rightarrow> Some (Inl e) | Inr successors \<Rightarrow>
      let wc = foldl (find_cost m) \<lparr>wc_costs = [], wc_unavailable = {}, wc_missing = {}\<rparr> (exec_operations ex) in
      Option.bind (spread_unavailable (exec_operations ex) (wc_unavailable wc)) (\<lambda>unavailable.
      Option.bind (sim_loop ops successors (wc_costs wc) m (initial_sim ops (work_degrees (exec_operations ex)) (set (dict_keys ops) - unavailable))) (\<lambda>r. Some (
      bnd r (\<lambda>s. let t_pred = (if unavailable = {} then Some (latest (map snd (sim_ends s))) else None) in
        Inr \<lparr>pred_version = model_version m, t_pred_us = t_pred,
        output_ready_us = (if set (output_operations ex) \<inter> unavailable = {} then Some (latest (map (\<lambda>key. dict_get (sim_ends s) key 0) (output_operations ex))) else None),
        pred_starts = sim_starts s, pred_ends = sim_ends s, pred_events = sim_events s, pred_segments = sim_segments s,
        used_components = sim_used s, missing_components = wc_missing wc, unavailable_operations = sorted_list_of_set unavailable,
        model_coverage = coverage unavailable (sim_sources s),
        exact_completion_ratio = map_option quotient_of t_pred, unmeasured_modes = sim_unmeasured s\<rparr>))))))"

end
