(* ===== verification/Admission.thy ===== *)
theory Admission
  imports Native_Program Sidecar Prediction Replay
begin

text \<open>
  \<^verbatim>\<open>src/vericcl/xml/v5_lower.py\<close>: the admission of a candidate.  A native program and the storage plan it came from are
  checked for deadlock, for matching bindings, for launch limits, by the prediction of its times and by the replay of the version schedule that these
  times give; only a candidate that passes all checks may be executed.

  The comparison of the XML text with the program (lxml) and the digest of a text (\<^verbatim>\<open>hashlib\<close>) are parameters.  The evidence of a
  check, which is only reported, and the origin of a bundle are left out.  Leases do not expire.  Lookups of an operation that the coverage test has found are written
  with a default.  A sidecar holds the documents of the storage plan and the program; its other fields have their declared types.
\<close>

unbundle bit_operations_syntax

section \<open>The context\<close>

record lowering_context =
  ctx_inputs :: resolved_input
  ctx_topology :: topology
  ctx_model :: cost_model
  ctx_limits :: runtime_limits
  ctx_buffsize :: string
  ctx_compatibility :: bool
  ctx_input_sha256 :: string

definition datatype_bytes :: "(string, int) dict" where
  "datatype_bytes = [(''float16'', 2), (''float32'', 4), (''float64'', 8), (''bfloat16'', 2), (''int8'', 1), (''uint8'', 1), (''int32'', 4),
     (''uint32'', 4), (''int64'', 8), (''uint64'', 8)]"

section \<open>The version schedule of a program\<close>

definition slice_ranges :: "int \<Rightarrow> int \<Rightarrow> int set \<Rightarrow> data_range list res" where
  "slice_ranges n sz cs = map_res (\<lambda>s. ensure (n \<noteq> 0) ZeroDivisionError (
     data_range_post_init (DataRange (s div n) (s mod n * sz) ((s mod n + 1) * sz)))) (sorted_list_of_set cs)"

definition initial_version :: "storage_plan \<Rightarrow> resolved_input \<Rightarrow> int \<Rightarrow> int \<Rightarrow> string \<Rightarrow> state_version res" where
  "initial_version plan inputs n sz key =
     bnd (dict_item (plan_values plan) key) (\<lambda>v.
     bnd (canonical_region (Address (val_rank v) ''i'' (val_position v)) inputs) (\<lambda>expected.
     bnd (dict_item (addresses plan) key) (\<lambda>a.
     bnd (canonical_region a inputs) (\<lambda>actual.
     ensure (expected = actual) (SemanticError ''initial state does not use its actual runtime input address'') (
     bnd (slice_ranges n sz (val_contributors v)) (\<lambda>pieces.
     state_version_init key (val_rank v) (val_position v * sz) ((val_position v + 1) * sz) pieces actual (Finite 0)))))))"

text \<open>Without predicted times the replay uses ticks: rounds in which every operation whose dependencies have ended takes one unit of time.\<close>

type_synonym tick_times = "(string, rat) dict \<times> (string, rat) dict"

definition tick_ready :: "(string, work_operation) dict \<Rightarrow> string set \<Rightarrow> (string, rat) dict \<Rightarrow> string list" where
  "tick_ready work pending ends = sorted_list_of_set (Set.filter (\<lambda>key. set (work_dependencies (op_at work key)) \<subseteq> set (dict_keys ends)) pending)"

definition tick :: "(string, work_operation) dict \<Rightarrow> tick_times \<Rightarrow> string \<Rightarrow> tick_times" where
  "tick work tt key = (case tt of (starts, ends) \<Rightarrow>
     let start = latest (map (\<lambda>p. dict_get ends p 0) (work_dependencies (op_at work key))) in
     (AList.update key start starts, AList.update key (start + 1) ends))"

partial_function (option) tick_loop :: "(string, work_operation) dict \<Rightarrow> string set \<Rightarrow> tick_times \<Rightarrow> tick_times res option" where
  "tick_loop work pending tt =
     (if pending = {} then Some (Inr tt)
      else let ready = tick_ready work pending (snd tt) in
        if ready = [] then Some (Inl (SemanticError ''semantic replay has a dependency cycle''))
        else tick_loop work (pending - set ready) (foldl (tick work) tt ready))"

declare tick_loop.simps [code]

definition run_times :: "executable \<Rightarrow> prediction \<Rightarrow> tick_times res option" where
  "run_times ex p =
     (let work = dict_of (map (\<lambda>op. (work_id op, op)) (exec_operations ex)) in
      if t_pred_us p = None then tick_loop work (set (dict_keys work)) ([], []) else Some (Inr (pred_starts p, pred_ends p)))"

definition version_step :: "storage_plan \<Rightarrow> resolved_input \<Rightarrow> (string, work_operation) dict \<Rightarrow> tick_times \<Rightarrow> instruction \<Rightarrow> version_operation res" where
  "version_step plan inputs work tt op =
     bnd (dict_item (addresses plan) (ins_output op)) (\<lambda>a.
     bnd (canonical_region a inputs) (\<lambda>region.
     bnd (dict_item (fst tt) (ins_id op)) (\<lambda>start.
     bnd (dict_item (snd tt) (ins_id op)) (\<lambda>finish.
     bnd (dict_item work (ins_id op)) (\<lambda>w.
     version_operation_init (ins_id op) (if ins_kind op \<in> {''rrc'', ''reduce''} then ''reduce'' else ''copy'') (ins_inputs op) (Some (ins_output op))
       (Some region) (Finite start) (Finite finish) (ins_stage op) (work_dependencies w) (ins_participants op))))))"

definition assemble_schedule :: "storage_plan \<Rightarrow> executable \<Rightarrow> resolved_input \<Rightarrow> int \<Rightarrow> state_version list \<Rightarrow> tick_times \<Rightarrow> version_schedule res" where
  "assemble_schedule plan ex inputs sz initial tt =
     bnd (map_res (version_step plan inputs (dict_of (map (\<lambda>op. (work_id op, op)) (exec_operations ex))) tt) (instructions plan)) (\<lambda>ops.
     bnd (map_res (\<lambda>(slot, key). output_binding_post_init \<lparr>ob_rank = slot_rank slot, offset_bytes = slot_offset slot * sz, ob_state_id = key\<rparr>) (plan_outputs plan)) (\<lambda>outs.
     version_schedule_post_init \<lparr>vs_rank_count = rank_count inputs, input_bytes = total_size_bytes (hyper inputs), vs_slice_size_bytes = sz,
       stage_count = plan_stage_count plan, initial_states = initial, operations = ops, outputs = outs\<rparr>))"

definition build_version_schedule :: "storage_plan \<Rightarrow> executable \<Rightarrow> prediction \<Rightarrow> resolved_input \<Rightarrow> version_schedule res option" where
  "build_version_schedule plan ex p inputs =
     (case bnd (slices inputs) (\<lambda>n. bnd (slice_bytes inputs) (\<lambda>sz.
          bnd (map_res (initial_version plan inputs n sz) (initial_ids plan)) (\<lambda>initial. Inr (sz, initial)))) of
        Inl e \<Rightarrow> Some (Inl e)
      | Inr (sz, initial) \<Rightarrow> map_option (\<lambda>r. bnd r (assemble_schedule plan ex inputs sz initial)) (run_times ex p))"

section \<open>Bindings\<close>

type_synonym step_key = "int \<times> int \<times> int"

record local_order =
  lo_edges :: "(int, (step_key, step_key set) dict) dict"
  lo_locations :: "(string \<times> int, step_key) dict"

definition local_edges :: "native_block \<Rightarrow> nat \<Rightarrow> native_step \<Rightarrow> step_key set" where
  "local_edges b i s = (if i \<noteq> 0 then {(nb_rank b, nb_tb_id b, int i - 1)} else {})
     \<union> (if 0 \<le> nstep_dep_tb s then {(nb_rank b, nstep_dep_tb s, nstep_dep_step s)} else {})"

definition note_step :: "native_block \<Rightarrow> local_order \<Rightarrow> nat \<times> native_step \<Rightarrow> local_order" where
  "note_step b lo entry = (case entry of (i, s) \<Rightarrow>
     let key = (nb_rank b, nb_tb_id b, int i) in
     lo\<lparr>lo_edges := AList.update (nb_rank b) (AList.update key (local_edges b i s) (dict_get (lo_edges lo) (nb_rank b) [])) (lo_edges lo),
        lo_locations := (if nstep_kind s \<noteq> ''nop'' then AList.update (nstep_op s, nb_rank b) key (lo_locations lo) else lo_locations lo)\<rparr>)"

definition note_block :: "local_order \<Rightarrow> native_block \<Rightarrow> local_order" where
  "note_block lo b = foldl (note_step b) lo (enumerate 0 (nb_steps b))"

definition local_order_of :: "native_program \<Rightarrow> local_order" where
  "local_order_of prog = foldl note_block \<lparr>lo_edges = [], lo_locations = []\<rparr> (np_blocks prog)"

type_synonym 'k masks = "('k, int) dict \<times> ('k, int) dict"

fun rank_ancestors :: "(int, (step_key, step_key set) dict) dict \<Rightarrow> (int, step_key masks) dict res option" where
  "rank_ancestors [] = Some (Inr [])"
| "rank_ancestors ((rank, es) # rest) = Option.bind (dependency_ancestors es) (\<lambda>r.
     case r of Inl e \<Rightarrow> Some (Inl e) | Inr masks \<Rightarrow> map_option (\<lambda>r. bnd r (\<lambda>others. Inr ((rank, masks) # others))) (rank_ancestors rest))"

definition check_local :: "local_order \<Rightarrow> (int, step_key masks) dict \<Rightarrow> instruction \<Rightarrow> native_block \<times> native_step \<Rightarrow> unit res" where
  "check_local lo ancestors op entry = (case entry of (b, s) \<Rightarrow>
     let required = \<Union>((\<lambda>p. case map_of (lo_locations lo) (p, nb_rank b) of None \<Rightarrow> {} | Some key \<Rightarrow> {key}) ` ins_dependencies op) in
     bnd (dict_item ancestors (nb_rank b)) (\<lambda>(masks, bits).
     bnd (dict_item (lo_locations lo) (ins_id op, nb_rank b)) (\<lambda>here.
     bnd (dict_item masks here) (\<lambda>mask.
     ensure (\<forall>key\<in>required. mask AND dict_get bits key 0 \<noteq> 0)
       (SemanticError ''native local endpoint omits a required data or storage dependency'') (Inr ())))))"

definition used_addresses :: "native_step \<Rightarrow> address option list" where
  "used_addresses s = (if nstep_kind s = ''s'' then [nstep_src s] else if nstep_kind s = ''r'' then [nstep_dst s]
     else if nstep_kind s \<in> {''rrc'', ''cpy'', ''re''} then [nstep_src s, nstep_dst s] else [])"

definition buffer_slots :: "native_program \<Rightarrow> string \<Rightarrow> (int, int) dict option" where
  "buffer_slots prog buf = (if buf = ''i'' then Some (np_input_slots prog) else if buf = ''o'' then Some (np_output_slots prog)
     else if buf = ''s'' then Some (np_scratch_slots prog) else None)"

definition check_address :: "native_program \<Rightarrow> native_block \<Rightarrow> address option \<Rightarrow> unit res" where
  "check_address prog b a =
     (let outside = Inl (SemanticError ''native buffer address is outside its declared storage'') in
      case a of None \<Rightarrow> outside
      | Some a \<Rightarrow> (case buffer_slots prog (addr_buffer a) of None \<Rightarrow> outside
        | Some slots \<Rightarrow> if addr_rank a \<noteq> nb_rank b \<or> addr_offset a < 0 then outside
            else bnd (dict_item slots (nb_rank b)) (\<lambda>k. if addr_offset a < k then Inr () else outside)))"

definition check_physical :: "native_program \<Rightarrow> instruction \<Rightarrow> native_block \<times> native_step \<Rightarrow> unit res" where
  "check_physical prog op entry = (case entry of (b, s) \<Rightarrow>
     ensure (\<not> (ins_kind op \<noteq> ''copy'' \<and> nb_channel b \<noteq> ins_channel op)) (SemanticError ''native channel differs from the selected channel'') (
     check_each (check_address prog b) (used_addresses s)))"

type_synonym endpoint_view = "int \<times> string \<times> address option \<times> address option"

definition view_key :: "endpoint_view \<Rightarrow> int \<times> string" where
  "view_key v = (fst v, fst (snd v))"

definition seen_endpoints :: "(native_block \<times> native_step) list \<Rightarrow> endpoint_view list" where
  "seen_endpoints members = sort_key view_key (map (\<lambda>(b, s). (nb_rank b, nstep_kind s, nstep_src s, nstep_dst s)) members)"

definition expected_endpoints :: "endpoint_spec list \<Rightarrow> endpoint_view list" where
  "expected_endpoints eps = sort_key view_key (map (\<lambda>ep. (ep_rank ep, ep_kind ep, Some (ep_source ep), Some (ep_destination ep))) eps)"

definition check_binding :: "native_program \<Rightarrow> storage_plan \<Rightarrow> (string, (native_block \<times> native_step) list) dict \<Rightarrow> string masks
    \<Rightarrow> local_order \<Rightarrow> (int, step_key masks) dict \<Rightarrow> instruction \<Rightarrow> unit res" where
  "check_binding prog plan actual masks lo local_ancestors op = (case masks of (ancestors, bits) \<Rightarrow>
     let members = dict_get actual (ins_id op) [] in
     ensure (\<forall>p\<in>ins_dependencies op. p \<in> set (dict_keys bits) \<and> dict_get ancestors (ins_id op) 0 AND dict_get bits p 0 \<noteq> 0)
       (SemanticError ''native program omits a required data or storage dependency'') (
     bnd (check_each (check_local lo local_ancestors op) members) (\<lambda>_.
     bnd (native_endpoints op plan) (\<lambda>expected.
     ensure (seen_endpoints members = expected_endpoints expected)
       (SemanticError ''native buffer references or endpoint type disagree with state bindings'') (
     check_each (check_physical prog op) members)))))"

definition check_bindings :: "native_program \<Rightarrow> storage_plan \<Rightarrow> program_dependencies \<Rightarrow> string masks \<Rightarrow> (int, step_key masks) dict \<Rightarrow> unit res" where
  "check_bindings prog plan pd masks local_ancestors =
     check_each (check_binding prog plan (snd pd) masks (local_order_of prog) local_ancestors) (instructions plan)"

definition coverage_checks :: "storage_plan \<Rightarrow> program_dependencies \<Rightarrow> unit res" where
  "coverage_checks plan pd =
     ensure (distinct (map ins_id (instructions plan))) (SemanticError ''semantic operation identities are duplicated'') (
     ensure (set (dict_keys (snd pd)) = set (map ins_id (instructions plan))) (SemanticError ''native and semantic operation coverage differs'') (Inr ()))"

definition validate_bindings :: "native_program \<Rightarrow> storage_plan \<Rightarrow> unit res option" where
  "validate_bindings prog plan =
     Option.bind (execution_dependencies prog) (\<lambda>r. case bnd r (\<lambda>pd. bnd (coverage_checks plan pd) (\<lambda>_. Inr pd)) of Inl e \<Rightarrow> Some (Inl e) | Inr pd \<Rightarrow>
     Option.bind (dependency_ancestors (fst pd)) (\<lambda>r. case r of Inl e \<Rightarrow> Some (Inl e) | Inr masks \<Rightarrow>
     map_option (\<lambda>r. bnd r (check_bindings prog plan pd masks)) (rank_ancestors (lo_edges (local_order_of prog)))))"


section \<open>Launch limits\<close>

definition same_dict :: "('k, 'v) dict \<Rightarrow> ('k, 'v) dict \<Rightarrow> bool" where
  "same_dict d e \<longleftrightarrow> set d = set e"

definition result_slots :: "(output_slot, int set) dict \<Rightarrow> int \<Rightarrow> (int, int) dict" where
  "result_slots expected ranks = map (\<lambda>rank.
     let ends = map (\<lambda>slot. slot_offset slot + 1) (filter (\<lambda>slot. slot_rank slot = rank) (dict_keys expected)) in
     (rank, if ends = [] then 0 else Max (set ends))) (py_range 0 ranks)"

definition channel_limit :: "resolved_input \<Rightarrow> topology \<Rightarrow> topology_link \<Rightarrow> int res" where
  "channel_limit inputs topo edge =
     bnd (map_res (\<lambda>name. bnd (dict_item (shared_resources topo) name) (\<lambda>r. Inr (sr_max_channels r))) (resource_ids edge)) (\<lambda>shared.
     Inr (fold min (dl_max_channels edge # shared) (solver_max_channels inputs)))"

definition check_channel :: "resolved_input \<Rightarrow> topology \<Rightarrow> native_block \<Rightarrow> link_key \<Rightarrow> unit res" where
  "check_channel inputs topo b key =
     bnd (link topo key) (\<lambda>edge.
     bnd (channel_limit inputs topo edge) (\<lambda>maximum.
     ensure (0 \<le> nb_channel b \<and> nb_channel b < maximum) (SemanticError ''native channel exceeds the directed link or shared-resource limit'') (Inr ())))"

definition block_links :: "native_block \<Rightarrow> link_key list res" where
  "block_links b =
     bnd (if nb_send_peer b < 0 then Inr [] else bnd (link_key_post_init (nb_rank b) (nb_send_peer b)) (\<lambda>k. Inr [k])) (\<lambda>out.
     bnd (if nb_recv_peer b < 0 then Inr [] else bnd (link_key_post_init (nb_recv_peer b) (nb_rank b)) (\<lambda>k. Inr [k])) (\<lambda>inc. Inr (out @ inc)))"

definition launch_geometry :: "native_program \<Rightarrow> storage_plan \<Rightarrow> lowering_context \<Rightarrow> unit res" where
  "launch_geometry prog plan ctx =
     (let inputs = ctx_inputs ctx; ranks = rank_count inputs in
      bnd (slices inputs) (\<lambda>n.
      bnd (required_outputs (collective inputs) ranks n) (\<lambda>expected.
      let chunks = (if kind (collective inputs) = ALL_GATHER then n * ranks else n) in
      ensure (\<not> (np_rank_count prog \<noteq> ranks \<or> np_chunks_per_loop prog \<noteq> chunks
          \<or> \<not> same_dict (np_input_slots prog) (map (\<lambda>rank. (rank, n)) (py_range 0 ranks)) \<or> \<not> same_dict (np_output_slots prog) (result_slots expected ranks)
          \<or> \<not> same_dict (np_input_slots prog) (input_slots plan) \<or> \<not> same_dict (np_output_slots prog) (output_slots plan)
          \<or> \<not> same_dict (np_scratch_slots prog) (scratch_slots plan)))
        (SemanticError ''native runtime geometry differs from the resolved collective and partition'') (
      ensure (1 \<le> np_channels prog \<and> np_channels prog \<le> solver_max_channels inputs) (SemanticError ''native channel count exceeds the selected channel limit'') (
      check_each (\<lambda>b. bnd (block_links b) (check_each (check_channel inputs (ctx_topology ctx) b))) (np_blocks prog))))))"

fun join_codes :: "string list \<Rightarrow> string" where
  "join_codes [] = []"
| "join_codes [c] = c"
| "join_codes (c # cs) = c @ '', '' @ join_codes cs"

definition launch_checks :: "native_program \<Rightarrow> storage_plan \<Rightarrow> lowering_context \<Rightarrow> capacity_report \<Rightarrow> unit res" where
  "launch_checks prog plan ctx report =
     (let inputs = ctx_inputs ctx in
      bnd (launch_geometry prog plan ctx) (\<lambda>_.
      bnd (parse_int (ctx_buffsize ctx)) (\<lambda>buffsize.
      bnd (dict_item datatype_bytes (datatype_name (collective inputs))) (\<lambda>element.
      bnd (simple_payload_capacity buffsize element) (\<lambda>payload.
      bnd (slice_bytes inputs) (\<lambda>sz.
      ensure (\<not> payload < sz) (SemanticError ''NCCL_BUFFSIZE cannot hold one whole Simple slice'') (
      bnd (simple_chunk_geometry buffsize element) (\<lambda>(chunk, granule, valid).
      ensure valid (SemanticError (''NCCL_BUFFSIZE gives a '' @ str_int chunk @ ''-byte Simple chunk; the pinned MSCCL launch requires a multiple of ''
        @ str_int granule @ '' bytes for '' @ datatype_name (collective inputs))) (
      ensure (compatible report) (SemanticError (''runtime capacity: '' @ join_codes (sorted_list_of_set (set (map vi_code report))))) (
      bnd (if kind (collective inputs) \<in> {ALL_GATHER, BROADCAST} then bnd (simple_chunk_geometry buffsize 1) (\<lambda>_. Inr ()) else Inr ()) (\<lambda>_. Inr ())))))))))))"

section \<open>Replayed values\<close>

definition check_stored_state :: "storage_plan \<Rightarrow> int \<Rightarrow> int \<Rightarrow> state_version \<Rightarrow> unit res" where
  "check_stored_state plan n sz s =
     (case map_of (plan_values plan) (state_id s) of
        None \<Rightarrow> Inl (SemanticError ''stored version and abstract state identity differ'')
      | Some v \<Rightarrow> ensure (state_rank s = val_rank v \<and> logical_start s = val_position v * sz \<and> logical_end s = (val_position v + 1) * sz)
          (SemanticError ''stored version and abstract state identity differ'') (
          bnd (slice_ranges n sz (val_contributors v)) (\<lambda>expected.
          ensure (contributors s = expected) (SemanticError ''stored version has different source contributions'') (Inr ()))))"

definition check_result_address :: "version_ledger \<Rightarrow> resolved_input \<Rightarrow> output_slot \<times> string \<Rightarrow> unit res" where
  "check_result_address l inputs entry = (case entry of (slot, key) \<Rightarrow>
     bnd (state l key) (\<lambda>s.
     bnd (canonical_region (Address (slot_rank slot) ''o'' (slot_offset slot)) inputs) (\<lambda>region.
     ensure (storage s = region) (SemanticError ''final result is not in the actual runtime output address'') (Inr ()))))"

definition check_storage_values :: "storage_plan \<Rightarrow> version_schedule \<Rightarrow> resolved_input \<Rightarrow> replay_summary res" where
  "check_storage_values plan version inputs =
     bnd (replay_version_schedule version inputs) (\<lambda>(l, evidence).
     bnd (slices inputs) (\<lambda>n.
     bnd (slice_bytes inputs) (\<lambda>sz.
     bnd (check_each (check_stored_state plan n sz) (ledger_states l)) (\<lambda>_.
     bnd (check_each (check_result_address l inputs) (plan_outputs plan)) (\<lambda>_. Inr evidence)))))"


section \<open>Sidecars\<close>

record request_contract =
  rc_ranks :: int
  rc_input_bytes :: int
  rc_slice_bytes :: "int option"
  rc_operator :: string
  rc_datatype :: string
  rc_reduction_op :: "string option"
  rc_root :: "int option"
  rc_inplace :: bool

definition request_contract_of :: "resolved_input \<Rightarrow> request_contract" where
  "request_contract_of inputs = \<lparr>rc_ranks = rank_count inputs, rc_input_bytes = total_size_bytes (hyper inputs), rc_slice_bytes = slice_size_bytes (hyper inputs),
     rc_operator = kind_value (kind (collective inputs)), rc_datatype = datatype_name (collective inputs), rc_reduction_op = reduction_op (collective inputs),
     rc_root = root (collective inputs), rc_inplace = inplace (collective inputs)\<rparr>"

record sidecar =
  sd_schema_version :: int
  sd_xml_sha256 :: string
  sd_input_sha256 :: string
  sd_contract :: request_contract
  sd_model_version :: string
  sd_program :: pyval
  sd_storage :: pyval
  sd_reuse :: "reuse_entry list"
  sd_version :: "version_schedule option"
  sd_orders_omitted :: "(string \<times> string) list"

definition new_sidecar :: "string \<Rightarrow> lowering_context \<Rightarrow> native_program \<Rightarrow> storage_plan \<Rightarrow> version_schedule option \<Rightarrow> sidecar" where
  "new_sidecar digest ctx prog plan version = \<lparr>sd_schema_version = 5, sd_xml_sha256 = digest, sd_input_sha256 = ctx_input_sha256 ctx,
     sd_contract = request_contract_of (ctx_inputs ctx), sd_model_version = model_version (ctx_model ctx), sd_program = serialize_program prog,
     sd_storage = serialize_storage plan, sd_reuse = reuse plan, sd_version = version, sd_orders_omitted = reference_orders_omitted plan\<rparr>"

definition check_supplied :: "string \<Rightarrow> lowering_context \<Rightarrow> sidecar option \<Rightarrow> unit res" where
  "check_supplied digest ctx side = (case side of None \<Rightarrow> Inr () | Some sd \<Rightarrow>
     ensure (\<not> (sd_schema_version sd \<noteq> 5 \<or> sd_xml_sha256 sd \<noteq> digest)) (SemanticError ''XML/sidecar hash or schema version differs'') (
     ensure (sd_input_sha256 sd = ctx_input_sha256 ctx) (SemanticError ''sidecar input identity differs from this request'') (
     ensure (rc_slice_bytes (sd_contract sd) \<noteq> None) (SemanticError ''sidecar slice size must be an integer'') (
     ensure (sd_contract sd = request_contract_of (ctx_inputs ctx)) (SemanticError ''sidecar effective runtime request differs'') (Inr ())))))"

text \<open>The recorded schedule is compared without its times, which belong to the cost model of the run that wrote it.\<close>

definition untimed :: "version_schedule \<Rightarrow> version_schedule" where
  "untimed v = v\<lparr>operations := map (\<lambda>op. op\<lparr>start_us := 0, end_us := 0\<rparr>) (operations v)\<rparr>"

definition check_recorded :: "sidecar option \<Rightarrow> version_schedule \<Rightarrow> unit res" where
  "check_recorded side version = (case side of None \<Rightarrow> Inr () | Some sd \<Rightarrow>
     (case sd_version sd of None \<Rightarrow> Inl TypeError
      | Some recorded \<Rightarrow> ensure (untimed recorded = untimed version) (SemanticError ''semantic sidecar differs from replayed native state mapping'') (Inr ())))"

section \<open>Checks and bundles\<close>

datatype validation_status = NOT_RUN | VALID | INVALID | FATAL | WARNING | ANALYSIS_ERROR | FAILED

primrec status_value :: "validation_status \<Rightarrow> string" where
  "status_value NOT_RUN = ''not_run''"
| "status_value VALID = ''valid''"
| "status_value INVALID = ''invalid''"
| "status_value FATAL = ''fatal''"
| "status_value WARNING = ''warning''"
| "status_value ANALYSIS_ERROR = ''analysis_error''"
| "status_value FAILED = ''failed''"

record check_result =
  chk_dimension :: string
  chk_status :: validation_status
  chk_code :: string
  chk_message :: string

definition check_of :: "string \<Rightarrow> validation_status \<Rightarrow> string \<Rightarrow> check_result" where
  "check_of dimension status message = \<lparr>chk_dimension = dimension, chk_status = status,
     chk_code = ''v5_'' @ dimension @ ''_'' @ status_value status, chk_message = message\<rparr>"

type_synonym checks = "(string, check_result) dict"

definition dimensions :: "string list" where
  "dimensions = [''semantic'', ''storage'', ''endpoint'', ''deadlock'', ''xml'', ''launch'', ''compatibility'', ''prediction'']"

definition pending_checks :: "string \<Rightarrow> checks" where
  "pending_checks message = map (\<lambda>key. (key, check_of key NOT_RUN message)) dimensions"

definition set_check :: "string \<Rightarrow> validation_status \<Rightarrow> string \<Rightarrow> checks \<Rightarrow> checks" where
  "set_check key status message cs = AList.update key (check_of key status message) cs"

definition status_of :: "checks \<Rightarrow> string \<Rightarrow> validation_status option" where
  "status_of cs key = map_option chk_status (map_of cs key)"

record candidate_bundle =
  cb_xml_text :: "string option"
  cb_xml_sha256 :: "string option"
  cb_sidecar :: "sidecar option"
  cb_program :: "native_program option"
  cb_version :: "version_schedule option"
  cb_executable :: "executable option"
  cb_prediction :: "prediction option"
  cb_checks :: checks
  cb_capacity :: "capacity_report option"
  cb_storage :: "storage_plan option"

definition can_execute :: "candidate_bundle \<Rightarrow> bool" where
  "can_execute b \<longleftrightarrow>
     (\<forall>key\<in>{''semantic'', ''storage'', ''endpoint'', ''deadlock'', ''xml'', ''launch'', ''prediction''}. status_of (cb_checks b) key = Some VALID)
     \<and> status_of (cb_checks b) ''compatibility'' \<in> {Some VALID, Some NOT_RUN}"

section \<open>The admission\<close>

text \<open>An exception that the handler of a phase catches becomes an invalid check; the text of a \<^verbatim>\<open>KeyError\<close> is its key.\<close>

fun semantic_error :: "error \<Rightarrow> bool" where
  "semantic_error (SemanticError _) = True"
| "semantic_error _ = False"

fun semantic_or_key_error :: "error \<Rightarrow> bool" where
  "semantic_or_key_error (SemanticError _) = True"
| "semantic_or_key_error (KeyError _) = True"
| "semantic_or_key_error _ = False"

fun error_text :: "error \<Rightarrow> string" where
  "error_text (SemanticError m) = m"
| "error_text (KeyError k) = k"
| "error_text (ValueError m) = m"
| "error_text _ = []"

definition caught :: "(error \<Rightarrow> bool) \<Rightarrow> string \<Rightarrow> error \<Rightarrow> checks \<Rightarrow> checks res" where
  "caught handled key e cs = (if handled e then Inr (set_check key INVALID (error_text e) cs) else Inl e)"

definition xml_phase :: "unit res \<Rightarrow> checks \<Rightarrow> checks res" where
  "xml_phase r cs = (case r of Inr _ \<Rightarrow> Inr (set_check ''xml'' VALID ''checked'' cs) | Inl e \<Rightarrow> caught semantic_or_key_error ''xml'' e cs)"

definition native_failure :: "error \<Rightarrow> checks \<Rightarrow> (checks \<times> executable option) res" where
  "native_failure e cs =
     bnd (caught semantic_error (if status_of cs ''deadlock'' = Some NOT_RUN then ''deadlock'' else ''endpoint'') e cs) (\<lambda>cs. Inr (cs, None))"

definition native_phase :: "native_program \<Rightarrow> storage_plan \<Rightarrow> lowering_context \<Rightarrow> checks \<Rightarrow> (checks \<times> executable option) res option" where
  "native_phase prog plan ctx cs =
     Option.bind (execution_dependencies prog) (\<lambda>r. case r of Inl e \<Rightarrow> Some (native_failure e cs) | Inr _ \<Rightarrow>
     let cs = set_check ''deadlock'' VALID ''checked'' cs in
     Option.bind (validate_bindings prog plan) (\<lambda>r. case r of Inl e \<Rightarrow> Some (native_failure e cs) | Inr _ \<Rightarrow>
     let cs = set_check ''endpoint'' VALID ''checked'' cs in
     map_option (\<lambda>r. case r of Inl e \<Rightarrow> native_failure e cs | Inr ex \<Rightarrow> Inr (cs, Some ex)) (build_executable prog plan (ctx_inputs ctx) (ctx_topology ctx))))"

definition launch_phase :: "native_program \<Rightarrow> storage_plan \<Rightarrow> lowering_context \<Rightarrow> checks \<Rightarrow> (checks \<times> capacity_report option) res" where
  "launch_phase prog plan ctx cs =
     (case native_capacity prog (ctx_limits ctx) (ctx_inputs ctx) of
        Inl e \<Rightarrow> bnd (caught semantic_error ''launch'' e cs) (\<lambda>cs. Inr (cs, None))
      | Inr report \<Rightarrow> (case launch_checks prog plan ctx report of
          Inl e \<Rightarrow> bnd (caught semantic_error ''launch'' e cs) (\<lambda>cs. Inr (cs, Some report))
        | Inr _ \<Rightarrow> Inr (set_check ''launch'' VALID ''checked'' cs, Some report)))"

definition compatibility_phase :: "lowering_context \<Rightarrow> checks \<Rightarrow> checks" where
  "compatibility_phase ctx cs = (if ctx_compatibility ctx then
     (case map_of cs ''launch'' of None \<Rightarrow> cs | Some c \<Rightarrow> set_check ''compatibility'' (chk_status c) (chk_message c) cs) else cs)"

type_synonym timed_checks = "checks \<times> prediction option \<times> version_schedule option"

definition replay_phase :: "sidecar option \<Rightarrow> storage_plan \<Rightarrow> executable \<Rightarrow> prediction \<Rightarrow> resolved_input \<Rightarrow> checks \<Rightarrow> timed_checks res option" where
  "replay_phase side plan ex p inputs cs =
     map_option (\<lambda>r. case r of
         Inl e \<Rightarrow> bnd (caught semantic_or_key_error ''semantic'' e cs) (\<lambda>cs. Inr (cs, Some p, None))
       | Inr version \<Rightarrow> (case bnd (check_storage_values plan version inputs) (\<lambda>_. check_recorded side version) of
           Inl e \<Rightarrow> bnd (caught semantic_or_key_error ''semantic'' e cs) (\<lambda>cs. Inr (cs, Some p, Some version))
         | Inr _ \<Rightarrow> Inr (set_check ''storage'' VALID ''checked'' (set_check ''semantic'' VALID ''checked'' cs), Some p, Some version)))
       (build_version_schedule plan ex p inputs)"

definition prediction_phase :: "sidecar option \<Rightarrow> storage_plan \<Rightarrow> executable option \<Rightarrow> lowering_context \<Rightarrow> checks \<Rightarrow> timed_checks res option" where
  "prediction_phase side plan exo ctx cs = (case exo of None \<Rightarrow> Some (Inr (cs, None, None)) | Some ex \<Rightarrow>
     Option.bind (predict ex (model_context (ctx_model ctx)) (ctx_model ctx)) (\<lambda>r. case r of
       Inl e \<Rightarrow> Some (bnd (caught semantic_or_key_error ''prediction'' e cs) (\<lambda>cs. Inr (cs, None, None)))
     | Inr p \<Rightarrow> replay_phase side plan ex p (ctx_inputs ctx) (if t_pred_us p \<noteq> None then set_check ''prediction'' VALID ''complete dynamic replay'' cs
         else set_check ''prediction'' INVALID ''cost coverage is incomplete'' cs)))"

definition evaluate_program :: "(string \<Rightarrow> string) \<Rightarrow> (string \<Rightarrow> native_program \<Rightarrow> resolved_input \<Rightarrow> unit res) \<Rightarrow> sidecar option \<Rightarrow> storage_plan
    \<Rightarrow> native_program \<Rightarrow> string \<Rightarrow> lowering_context \<Rightarrow> candidate_bundle res option" where
  "evaluate_program sha256 validate_xml side plan prog xml ctx =
     (case xml_phase (bnd (check_supplied (sha256 xml) ctx side) (\<lambda>_. validate_xml xml prog (ctx_inputs ctx))) (pending_checks ''prerequisite pending'') of
       Inl e \<Rightarrow> Some (Inl e)
     | Inr cs \<Rightarrow>
     Option.bind (native_phase prog plan ctx cs) (\<lambda>r.
     case bnd r (\<lambda>(cs, exo). bnd (launch_phase prog plan ctx cs) (\<lambda>(cs, capacity). Inr (compatibility_phase ctx cs, exo, capacity))) of
       Inl e \<Rightarrow> Some (Inl e)
     | Inr (cs, exo, capacity) \<Rightarrow> map_option (\<lambda>r. bnd r (\<lambda>(cs, p, version).
         Inr \<lparr>cb_xml_text = Some xml, cb_xml_sha256 = Some (sha256 xml),
              cb_sidecar = Some (case side of Some sd \<Rightarrow> sd | None \<Rightarrow> new_sidecar (sha256 xml) ctx prog plan version),
              cb_program = Some prog, cb_version = version, cb_executable = exo, cb_prediction = p, cb_checks = cs,
              cb_capacity = capacity, cb_storage = Some plan\<rparr>)) (prediction_phase side plan exo ctx cs)))"

text \<open>Lowering starts from a storage plan or builds one; \<^verbatim>\<open>emit_native_xml\<close> (lxml) is a parameter.\<close>

datatype lowering_candidate = StorageCandidate storage_plan | OtherCandidate candidate

definition lower_candidate :: "(native_program \<Rightarrow> resolved_input \<Rightarrow> string res) \<Rightarrow> lowering_candidate \<Rightarrow> lowering_context
    \<Rightarrow> (storage_plan \<times> native_program \<times> string) res option" where
  "lower_candidate emit c ctx =
     map_option (\<lambda>r. bnd r (\<lambda>plan. bnd (lower_program plan (ctx_inputs ctx)) (\<lambda>prog. bnd (emit prog (ctx_inputs ctx)) (\<lambda>xml. Inr (plan, prog, xml)))))
       (case c of StorageCandidate plan \<Rightarrow> Some (Inr plan) | OtherCandidate c \<Rightarrow> build_storage_plan c (ctx_inputs ctx) (ctx_topology ctx))"

definition lower_and_check :: "(string \<Rightarrow> string) \<Rightarrow> (native_program \<Rightarrow> resolved_input \<Rightarrow> string res) \<Rightarrow> (string \<Rightarrow> native_program \<Rightarrow> resolved_input \<Rightarrow> unit res)
    \<Rightarrow> lowering_candidate \<Rightarrow> lowering_context \<Rightarrow> candidate_bundle res option" where
  "lower_and_check sha256 emit validate_xml c ctx =
     Option.bind (lower_candidate emit c ctx) (\<lambda>r. case r of
       Inl e \<Rightarrow> Some (bnd (caught semantic_error ''storage'' e (pending_checks ''lowering prerequisite pending'')) (\<lambda>cs.
         Inr \<lparr>cb_xml_text = None, cb_xml_sha256 = None, cb_sidecar = None, cb_program = None, cb_version = None, cb_executable = None, cb_prediction = None, cb_checks = cs,
              cb_capacity = None, cb_storage = None\<rparr>))
     | Inr (plan, prog, xml) \<Rightarrow> evaluate_program sha256 validate_xml None plan prog xml ctx)"

text \<open>A stored candidate is checked again from its XML text and its sidecar.\<close>

definition rejected_xml_bundle :: "string \<Rightarrow> sidecar \<Rightarrow> string \<Rightarrow> candidate_bundle" where
  "rejected_xml_bundle xml sd reason = \<lparr>cb_xml_text = Some xml, cb_xml_sha256 = None, cb_sidecar = Some sd, cb_program = None, cb_version = None, cb_executable = None,
     cb_prediction = None, cb_checks = set_check ''xml'' INVALID reason (pending_checks ''invalid artifact prerequisite''), cb_capacity = None, cb_storage = None\<rparr>"

fun artifact_error :: "error \<Rightarrow> bool" where
  "artifact_error (SemanticError _) = True"
| "artifact_error (KeyError _) = True"
| "artifact_error (ValueError _) = True"
| "artifact_error TypeError = True"
| "artifact_error _ = False"

definition reject_artifact :: "string \<Rightarrow> sidecar \<Rightarrow> candidate_bundle res \<Rightarrow> candidate_bundle res" where
  "reject_artifact xml sd r = (case r of Inl e \<Rightarrow> if artifact_error e then Inr (rejected_xml_bundle xml sd (error_text e)) else Inl e | Inr b \<Rightarrow> Inr b)"

definition check_xml_bundle :: "(string \<Rightarrow> string) \<Rightarrow> (string \<Rightarrow> native_program \<Rightarrow> resolved_input \<Rightarrow> unit res) \<Rightarrow> string \<Rightarrow> sidecar \<Rightarrow> lowering_context
    \<Rightarrow> candidate_bundle res option" where
  "check_xml_bundle sha256 validate_xml xml sd ctx =
     (case bnd (deserialize_storage (sd_storage sd)) (\<lambda>plan. bnd (deserialize_program (sd_program sd)) (\<lambda>prog. Inr (plan, prog))) of
        Inl e \<Rightarrow> Some (reject_artifact xml sd (Inl e))
      | Inr (plan, prog) \<Rightarrow> map_option (reject_artifact xml sd) (evaluate_program sha256 validate_xml (Some sd) plan prog xml ctx))"

end
