(* ===== verification/Prediction_Rates.thy ===== *)
theory Prediction_Rates
  imports Prediction
begin

text \<open>
  The rates of the prediction are positive and no resource is given more than its capacity: groups share no resource, a measured
  vector is checked against the capacities, and without one every member takes an equal share.
\<close>

section \<open>Groups\<close>

lemma group_pass_result:
  "group_pass g rs ops = (g', rs', rest) \<Longrightarrow> rs = group_resources g \<Longrightarrow> mset g' + mset rest = mset g + mset ops \<and> rs' = group_resources g'
    \<and> (length rest < length ops \<or> g' = g \<and> rest = ops \<and> (\<forall>op\<in>set ops. group_resources g \<inter> set (work_resources op) = {}))"
proof (induction ops arbitrary: g rs rest)
  case (Cons op ops)
  show ?case
  proof (cases "rs \<inter> set (work_resources op) = {}")
    case True
    then obtain r where r: "group_pass g rs ops = (g', rs', r)" "rest = op # r" using Cons.prems(1) by (auto split: prod.splits)
    from Cons.IH [OF r(1) Cons.prems(2)] show ?thesis using True Cons.prems(2) r(2) by auto
  next
    case False
    then have r: "group_pass (g @ [op]) (rs \<union> set (work_resources op)) ops = (g', rs', rest)" using Cons.prems(1) by simp
    moreover have "rs \<union> set (work_resources op) = group_resources (g @ [op])" using Cons.prems(2) by (auto simp: group_resources_def)
    ultimately show ?thesis using Cons.IH [OF r] group_pass_length [OF r] by simp
  qed
qed simp

lemma grow_group_result:
  "grow_group g rs ops = (g', rest) \<Longrightarrow> rs = group_resources g \<Longrightarrow> mset g' + mset rest = mset g + mset ops
    \<and> (\<forall>op\<in>set rest. group_resources g' \<inter> set (work_resources op) = {})"
proof (induction g rs ops rule: grow_group.induct)
  case (1 g rs ops)
  obtain h qs r where p: "group_pass g rs ops = (h, qs, r)" by (metis prod_cases3)
  note res = group_pass_result [OF p 1(3)]
  show ?case
  proof (cases "length r < length ops")
    case True
    then have "grow_group h qs r = (g', rest)" using 1(2) unfolding grow_group.simps [of g rs ops] p by simp
    from 1(1) [OF p [symmetric] refl True this] res show ?thesis by simp
  next
    case False
    then have "g' = h" "rest = r" using 1(2) unfolding grow_group.simps [of g rs ops] p by auto
    with res False show ?thesis by auto
  qed
qed

lemma components_result:
  "mset (concat (components ops)) = mset ops \<and> sorted_wrt (\<lambda>g h. group_resources g \<inter> group_resources h = {}) (components ops)"
proof (induction ops rule: components.induct)
  case (2 op ops)
  obtain g rest where p: "grow_group [op] (set (work_resources op)) ops = (g, rest)" by (cases "grow_group [op] (set (work_resources op)) ops")
  have r: "mset g + mset rest = mset [op] + mset ops" "\<forall>o'\<in>set rest. group_resources g \<inter> set (work_resources o') = {}"
    using grow_group_result [OF p] by (auto simp: group_resources_def)
  note ih = 2 [OF p [symmetric]]
  have "set h \<subseteq> set rest" if "h \<in> set (components rest)" for h
  proof -
    have "set (concat (components rest)) = set rest" using ih by (metis set_mset_mset)
    with that show ?thesis by auto
  qed
  then have "group_resources g \<inter> group_resources h = {}" if "h \<in> set (components rest)" for h
    using r(2) that by (fastforce simp: group_resources_def)
  with p ih r(1) show ?case by simp
qed simp

lemma set_components: "set (concat (components ops)) = set ops"
  using components_result [of ops] by (metis set_mset_mset)

lemma distinct_components: "distinct (map work_id ops) \<Longrightarrow> distinct (map work_id (concat (components ops)))"
  using components_result [of ops] by (metis mset_map mset_eq_imp_distinct_iff)

section \<open>What a rate table holds\<close>

text \<open>The positive entries of a constructed cost model.\<close>

definition priced :: "(string, service_cost) dict \<Rightarrow> cost_model \<Rightarrow> bool" where
  "priced costs m \<longleftrightarrow> (\<forall>(_, c)\<in>set costs. 0 \<le> alpha_cost c \<and> 0 < beta_cost c) \<and> (\<forall>(_, v)\<in>set (model_resources m). 0 < v)
     \<and> (\<forall>p\<in>set (profiles m). set (dict_keys (profile_rates p)) = set (profile_mode p) \<and> (\<forall>(_, v)\<in>set (profile_rates p). 0 < v)
          \<and> (\<forall>(_, v)\<in>set (profile_startup_us p). 0 \<le> v))"

abbreviation rate_of :: "rate_table \<Rightarrow> work_operation \<Rightarrow> rat" where
  "rate_of rt op \<equiv> dict_get (rt_rates rt) (work_id op) 0"

abbreviation users :: "string \<Rightarrow> work_operation list \<Rightarrow> work_operation list" where
  "users r ops \<equiv> filter (\<lambda>op. r \<in> set (work_resources op)) ops"

definition fair_rates :: "cost_model \<Rightarrow> work_operation list \<Rightarrow> rate_table \<Rightarrow> bool" where
  "fair_rates m ops rt \<longleftrightarrow> (\<forall>op\<in>set ops. 0 < rate_of rt op)
     \<and> (\<forall>r\<in>group_resources ops. sum_list (map (rate_of rt) (users r ops)) \<le> dict_get (model_resources m) r 0)"

lemma dict_item_Inr [res_simps]: "dict_item d k = Inr v \<longleftrightarrow> map_of d k = Some v"
  by (auto simp: dict_item_def split: option.splits)

lemma dict_get_Some: "map_of d k = Some v \<Longrightarrow> dict_get d k x = v"
  by (simp add: dict_get_def)

lemma rate_of_assign: "rate_of (assign_rate op r src rt) o' = (if work_id o' = work_id op then r else rate_of rt o')"
  by (auto simp: assign_rate_def)

text \<open>The three ways to assign rates are loops that set the rate of each operation once.\<close>

lemma assign_loop:
  assumes "\<And>rt op. op \<in> set ops \<Longrightarrow> f rt op = bnd (v op) (\<lambda>(r, src). Inr (assign_rate op r src rt))"
    and "distinct (map work_id ops)" "for_each f rt ops = Inr rt'"
  shows "(\<forall>op\<in>set ops. \<exists>src. v op = Inr (rate_of rt' op, src)) \<and> (\<forall>o'. work_id o' \<notin> work_id ` set ops \<longrightarrow> rate_of rt' o' = rate_of rt o')"
  using assms
proof (induction ops arbitrary: rt)
  case (Cons op ops)
  have "f rt op = bnd (v op) (\<lambda>(r, src). Inr (assign_rate op r src rt))" by (rule Cons.prems(1)) simp
  then obtain r src where r: "v op = Inr (r, src)" "for_each f (assign_rate op r src rt) ops = Inr rt'"
    using Cons.prems(3) by (auto simp: res_simps)
  have "(\<forall>op\<in>set ops. \<exists>src. v op = Inr (rate_of rt' op, src))
    \<and> (\<forall>o'. work_id o' \<notin> work_id ` set ops \<longrightarrow> rate_of rt' o' = rate_of (assign_rate op r src rt) o')"
    by (rule Cons.IH) (use Cons.prems r(2) in auto)
  with r(1) Cons.prems(2) show ?case by (auto simp: rate_of_assign)
qed simp

lemma fair_rates_cong:
  assumes "\<And>op. op \<in> set ops \<Longrightarrow> rate_of rt' op = rate_of rt op"
  shows "fair_rates m ops rt' = fair_rates m ops rt"
proof -
  have "map (rate_of rt') (users r ops) = map (rate_of rt) (users r ops)" for r using assms by auto
  then show ?thesis using assms by (simp only: fair_rates_def) simp
qed

lemma local_rates:
  assumes "priced costs m" "distinct (map work_id ops)" "for_each (local_rate costs) rt ops = Inr rt'" "op \<in> set ops"
  shows "0 < rate_of rt' op"
proof -
  have "(\<forall>op\<in>set ops. \<exists>src. bnd (dict_item costs (work_id op)) (\<lambda>c. Inr (1 / beta_cost c, cost_source c)) = Inr (rate_of rt' op, src)) \<and> (\<forall>o'. work_id o' \<notin> work_id ` set ops \<longrightarrow> rate_of rt' o' = rate_of rt o')"
    by (rule assign_loop [OF _ assms(2,3)]) (auto simp: local_rate_def dict_item_def split: option.splits)
  then obtain c where "map_of costs (work_id op) = Some c" "rate_of rt' op = 1 / beta_cost c" using assms(4) by (auto simp: res_simps)
  then show ?thesis using assms(1) map_of_SomeD [of costs "work_id op" c] by (auto simp: priced_def)
qed

text \<open>A measured vector.\<close>

lemma profile_rates_fair:
  assumes "priced costs m" "p \<in> set (profiles m)" "distinct (map work_id g)" "for_each (profile_rate p) rt g = Inr rt'"
    and "\<forall>r\<in>group_resources g. check_profile_capacity m p g r = Inr ()"
  shows "fair_rates m g rt'" "work_id o' \<notin> work_id ` set g \<Longrightarrow> rate_of rt' o' = rate_of rt o'"
proof -
  have l: "(\<forall>op\<in>set g. \<exists>src. bnd (dict_item (profile_rates p) (op_flow op)) (\<lambda>r. Inr (r, profile_source p)) = Inr (rate_of rt' op, src))
      \<and> (\<forall>o'. work_id o' \<notin> work_id ` set g \<longrightarrow> rate_of rt' o' = rate_of rt o')"
    by (rule assign_loop [OF _ assms(3,4)]) (auto simp: profile_rate_def dict_item_def split: option.splits)
  then show "work_id o' \<notin> work_id ` set g \<Longrightarrow> rate_of rt' o' = rate_of rt o'" by blast
  have item: "dict_item (profile_rates p) (op_flow op) = Inr (rate_of rt' op)" if "op \<in> set g" for op using l that by (auto simp: res_simps)
  have "0 < rate_of rt' op" if "op \<in> set g" for op
    using item [OF that] assms(1,2) by (fastforce simp: res_simps priced_def dest!: map_of_SomeD)
  moreover have "sum_list (map (rate_of rt') (users r g)) \<le> dict_get (model_resources m) r 0" if "r \<in> group_resources g" for r
  proof -
    have "map_res (\<lambda>op. dict_item (profile_rates p) (op_flow op)) (users r g) = Inr (map (rate_of rt') (users r g))"
      by (rule map_res_total) (simp add: item)
    then show ?thesis using assms(5) that by (auto simp: check_profile_capacity_def res_simps dict_get_def)
  qed
  ultimately show "fair_rates m g rt'" by (simp add: fair_rates_def)
qed

text \<open>An equal share.\<close>

lemma sum_shares:
  assumes "\<And>x. x \<in> set xs \<Longrightarrow> f x \<le> c / of_nat (length xs)" "0 \<le> (c::rat)"
  shows "sum_list (map f xs) \<le> c"
proof (cases "xs = []")
  case False
  have "sum_list (map f xs) \<le> sum_list (map (\<lambda>_. c / of_nat (length xs)) xs)" using assms(1) by (intro sum_list_mono)
  also have "\<dots> = c" using False by (simp add: sum_list_triv)
  finally show ?thesis .
qed (simp add: assms)

lemma shared_rates_fair:
  assumes "priced costs m" "distinct (map work_id g)" "for_each (shared_rate costs m g) rt g = Inr rt'"
  shows "fair_rates m g rt'" "work_id o' \<notin> work_id ` set g \<Longrightarrow> rate_of rt' o' = rate_of rt o'"
proof -
  let ?v = "\<lambda>op. bnd (dict_item costs (work_id op)) (\<lambda>c. bnd (shared_limits m g op) (\<lambda>limits. Inr (Min (set (1 / beta_cost c # limits)),
    if 1 < length g \<or> Min (set (1 / beta_cost c # limits)) < 1 / beta_cost c then ''initial_sharing_estimate'' else cost_source c)))"
  have l: "(\<forall>op\<in>set g. \<exists>src. ?v op = Inr (rate_of rt' op, src)) \<and> (\<forall>o'. work_id o' \<notin> work_id ` set g \<longrightarrow> rate_of rt' o' = rate_of rt o')"
    by (rule assign_loop [OF _ assms(2,3)]) (simp add: shared_rate_def bnd_def Let_def split: sum.splits)
  then show "work_id o' \<notin> work_id ` set g \<Longrightarrow> rate_of rt' o' = rate_of rt o'" by blast
  have lim: "0 < rate_of rt' op \<and> (\<forall>r\<in>set (work_resources op). \<exists>c. map_of (model_resources m) r = Some c \<and> 0 < c \<and> rate_of rt' op \<le> c / of_nat (length (users r g)))"
    if op: "op \<in> set g" for op
  proof -
    obtain c limits where c: "map_of costs (work_id op) = Some c" "shared_limits m g op = Inr limits" "rate_of rt' op = Min (set (1 / beta_cost c # limits))"
      using l op by (auto simp: res_simps)
    have la: "list_all2 (\<lambda>r x. \<exists>cap. map_of (model_resources m) r = Some cap \<and> x = cap / of_nat (length (users r g))) (work_resources op) limits"
      using c(2) unfolding shared_limits_def map_res_Inr_iff by (rule list_all2_mono) (auto simp: res_simps)
    have beta: "0 < beta_cost c" using c(1) assms(1) by (fastforce simp: priced_def dest!: map_of_SomeD)
    have cap: "0 < cap" if "map_of (model_resources m) r = Some cap" for r cap using that assms(1) by (fastforce simp: priced_def dest!: map_of_SomeD)
    have "0 < x" if x: "x \<in> set limits" for x
    proof -
      obtain r v where r: "r \<in> set (work_resources op)" "map_of (model_resources m) r = Some v" "x = v / of_nat (length (users r g))" using list_all2_mem2 [OF la x] by blast
      have "users r g \<noteq> []" using r(1) op by (auto simp: filter_empty_conv)
      then show ?thesis using r(3) cap [OF r(2)] by simp
    qed
    moreover have "\<exists>c. map_of (model_resources m) r = Some c \<and> 0 < c \<and> rate_of rt' op \<le> c / of_nat (length (users r g))" if r: "r \<in> set (work_resources op)" for r
    proof -
      obtain x v where x: "x \<in> set limits" "map_of (model_resources m) r = Some v" "x = v / of_nat (length (users r g))" using list_all2_mem1 [OF la r] by blast
      have "rate_of rt' op \<le> x" unfolding c(3) using x(1) by (intro Min_le) auto
      then show ?thesis using x cap by auto
    qed
    ultimately show ?thesis using beta c(3) by simp
  qed
  have "sum_list (map (rate_of rt') (users r g)) \<le> dict_get (model_resources m) r 0" if "r \<in> group_resources g" for r
  proof -
    obtain op where "op \<in> set g" "r \<in> set (work_resources op)" using \<open>r \<in> group_resources g\<close> by (auto simp: group_resources_def)
    then obtain c where c: "map_of (model_resources m) r = Some c" "0 < c" using lim by blast
    have "rate_of rt' op \<le> c / of_nat (length (users r g))" if "op \<in> set (users r g)" for op using lim [of op] that c(1) by auto
    then have "sum_list (map (rate_of rt') (users r g)) \<le> c" using c(2) by (intro sum_shares) auto
    then show ?thesis using c(1) by (simp add: dict_get_Some)
  qed
  with lim show "fair_rates m g rt'" by (simp add: fair_rates_def)
qed

text \<open>One group, then all of them.\<close>

lemma profile_for_Inr: "profile_for m g = Inr (Some p) \<Longrightarrow> p \<in> set (profiles m) \<and> applies p g"
  by (auto simp: profile_for_def res_simps Let_def split: list.splits dest: filter_eq_ConsD)

lemma group_rates_fair:
  assumes "priced costs m" "distinct (map work_id g)" "group_rates costs m rt g = Inr rt'"
  shows "fair_rates m g rt'" "work_id o' \<notin> work_id ` set g \<Longrightarrow> rate_of rt' o' = rate_of rt o'"
proof -
  obtain q where q: "profile_for m g = Inr q" using assms(3) by (auto simp: group_rates_def res_simps)
  have "fair_rates m g rt' \<and> (work_id o' \<notin> work_id ` set g \<longrightarrow> rate_of rt' o' = rate_of rt o')"
  proof (cases q)
    case None
    then obtain rt0 where r: "for_each (shared_rate costs m g) rt0 g = Inr rt'" "rt_rates rt0 = rt_rates rt"
      using assms(3) q by (auto simp: group_rates_def res_simps Let_def split: if_splits)
    from shared_rates_fair [OF assms(1,2) r(1)] r(2) show ?thesis by simp
  next
    case (Some p)
    then obtain rt0 where r: "for_each (profile_rate p) rt0 g = Inr rt'" "rt_rates rt0 = rt_rates rt" "\<forall>r\<in>group_resources g. check_profile_capacity m p g r = Inr ()"
      using assms(3) q by (auto simp: group_rates_def res_simps Let_def group_resources_def)
    have "p \<in> set (profiles m)" using profile_for_Inr q Some by blast
    from profile_rates_fair [OF assms(1) this assms(2) r(1,3)] r(2) show ?thesis by simp
  qed
  then show "fair_rates m g rt'" "work_id o' \<notin> work_id ` set g \<Longrightarrow> rate_of rt' o' = rate_of rt o'" by blast+
qed

lemma groups_rates_fair:
  "priced costs m \<Longrightarrow> distinct (map work_id (concat gs)) \<Longrightarrow> for_each (group_rates costs m) rt gs = Inr rt'
    \<Longrightarrow> (\<forall>g\<in>set gs. fair_rates m g rt') \<and> (\<forall>o'. work_id o' \<notin> work_id ` set (concat gs) \<longrightarrow> rate_of rt' o' = rate_of rt o')"
proof (induction gs arbitrary: rt)
  case (Cons g gs)
  obtain rt1 where rt1: "group_rates costs m rt g = Inr rt1" "for_each (group_rates costs m) rt1 gs = Inr rt'" using Cons.prems(3) by (auto simp: res_simps)
  have d: "distinct (map work_id g)" "distinct (map work_id (concat gs))" "work_id ` set g \<inter> work_id ` set (concat gs) = {}" using Cons.prems(2) by auto
  note ih = Cons.IH [OF Cons.prems(1) d(2) rt1(2)]
  note head = group_rates_fair [OF Cons.prems(1) d(1) rt1(1)]
  have "fair_rates m g rt' = fair_rates m g rt1" using ih d(3) by (intro fair_rates_cong) blast
  moreover have "rate_of rt' o' = rate_of rt o'" if "work_id o' \<notin> work_id ` set (concat (g # gs))" for o'
    using ih head(2) [of o'] that by (simp add: image_Un)
  ultimately show ?case using ih head(1) by simp
qed simp

lemma users_concat: "users r (concat gs) = concat (map (users r) gs)"
  by (induction gs) auto

lemma users_one_group:
  assumes "sorted_wrt (\<lambda>g h. group_resources g \<inter> group_resources h = {}) gs" "g \<in> set gs" "r \<in> group_resources g"
  shows "users r (concat gs) = users r g"
  using assms
proof (induction gs)
  case (Cons h gs)
  have none: "users r k = []" if "r \<notin> group_resources k" for k using that by (auto simp: group_resources_def filter_empty_conv)
  show ?case
  proof (cases "r \<in> group_resources h")
    case True
    then have "r \<notin> group_resources k" if "k \<in> set gs" for k using Cons.prems(1) that by auto
    then have "users r (concat gs) = []" using none by (auto simp: users_concat)
    moreover have "g = h" using True Cons.prems by auto
    ultimately show ?thesis by simp
  next
    case False
    then show ?thesis using Cons none [OF False] by auto
  qed
qed simp

theorem rates_fair:
  assumes priced: "priced costs m" and ids: "distinct (map work_id acting)" and r: "rates costs m used unmeasured acting = Inr rt"
    and loc: "\<And>op. op \<in> set acting \<Longrightarrow> \<not> is_transfer op \<Longrightarrow> work_resources op = []"
  shows "fair_rates m acting rt"
proof -
  let ?loc = "filter (\<lambda>op. \<not> is_transfer op) acting" and ?gs = "components (filter is_transfer acting)"
  obtain rt0 rt1 where rt1: "for_each (local_rate costs) rt0 ?loc = Inr rt1" "for_each (group_rates costs m) rt1 ?gs = Inr rt"
    using r by (auto simp: rates_def res_simps)
  have d: "distinct (map work_id ?loc)" "distinct (map work_id (concat ?gs))" using ids by (auto simp: distinct_map_filter intro: distinct_components)
  note fair = groups_rates_fair [OF priced d(2) rt1(2)]
  have loc_pos: "0 < rate_of rt op" if op: "op \<in> set acting" "\<not> is_transfer op" for op
  proof -
    have "work_id op \<notin> work_id ` set (concat ?gs)" unfolding set_components using op ids by (auto simp: distinct_map dest: inj_onD)
    then show ?thesis using fair local_rates [OF priced d(1) rt1(1)] op by auto
  qed
  have pos: "0 < rate_of rt op" if op: "op \<in> set acting" "is_transfer op" for op
  proof -
    have "op \<in> set (concat ?gs)" unfolding set_components using op by simp
    then show ?thesis using fair by (auto simp: fair_rates_def)
  qed
  have "sum_list (map (rate_of rt) (users x acting)) \<le> dict_get (model_resources m) x 0" if x: "x \<in> group_resources acting" for x
  proof -
    obtain op where op: "op \<in> set acting" "x \<in> set (work_resources op)" using x by (auto simp: group_resources_def)
    then have t: "is_transfer op" using loc by fastforce
    with op(1) have "op \<in> set (concat ?gs)" unfolding set_components by simp
    then obtain g where g: "g \<in> set ?gs" "op \<in> set g" by auto
    then have xg: "x \<in> group_resources g" using op(2) by (auto simp: group_resources_def)
    have "users x acting = users x (filter is_transfer acting)" using loc by (auto intro!: filter_cong) fastforce
    moreover have "mset (users x (filter is_transfer acting)) = mset (users x (concat ?gs))"
      unfolding mset_filter [of "\<lambda>op. x \<in> set (work_resources op)"] components_result [of "filter is_transfer acting", THEN conjunct1] ..
    moreover have "users x (concat ?gs) = users x g" using components_result g(1) xg by (intro users_one_group) auto
    ultimately have "mset (users x acting) = mset (users x g)" by simp
    then have "mset (map (rate_of rt) (users x acting)) = mset (map (rate_of rt) (users x g))" by simp
    then have "sum_list (map (rate_of rt) (users x acting)) = sum_list (map (rate_of rt) (users x g))" by (simp only: flip: sum_mset_sum_list)
    also have "\<dots> \<le> dict_get (model_resources m) x 0" using fair g(1) xg by (auto simp: fair_rates_def)
    finally show ?thesis .
  qed
  then show ?thesis using pos loc_pos unfolding fair_rates_def by blast
qed

section \<open>Errors\<close>

text \<open>A rate table fails only for a conflict in the model: never for a cost or a capacity that is missing.\<close>

definition mode_error :: "error \<Rightarrow> bool" where
  "mode_error e \<longleftrightarrow> e = SemanticError ''multiple profiles apply to the same concurrency mode''
     \<or> e = SemanticError ''concurrent operations share a flow identity; serialize their TB work''
     \<or> (\<exists>r. e = SemanticError (''measured rate vector conflicts with resource capacity '' @ r))"

definition supplied :: "(string, service_cost) dict \<Rightarrow> cost_model \<Rightarrow> work_operation \<Rightarrow> bool" where
  "supplied costs m op \<longleftrightarrow> map_of costs (work_id op) \<noteq> None \<and> (\<forall>r\<in>set (work_resources op). map_of (model_resources m) r \<noteq> None)"

lemma for_each_Inl: "for_each f s xs = Inl e \<Longrightarrow> \<exists>t. \<exists>x\<in>set xs. f t x = Inl e"
proof (induction xs arbitrary: s)
  case (Cons x xs)
  then show ?case by (cases "f s x") (auto, blast)
qed simp

lemma map_res_Inl: "map_res f xs = Inl e \<Longrightarrow> \<exists>x\<in>set xs. f x = Inl e"
  by (induction xs) (auto simp: bnd_Inl_iff)

lemma mode_error_simps [simp]:
  "mode_error (SemanticError ''multiple profiles apply to the same concurrency mode'')"
  "mode_error (SemanticError ''concurrent operations share a flow identity; serialize their TB work'')"
  "mode_error (SemanticError (''measured rate vector conflicts with resource capacity '' @ r))"
  unfolding mode_error_def by blast+

lemma ensure_Inl_iff: "ensure c e k = Inl e' \<longleftrightarrow> (if c then k = Inl e' else e' = e)"
  by (auto simp: ensure_def)

lemma profile_for_Inl: "profile_for m g = Inl e \<Longrightarrow> mode_error e"
  unfolding profile_for_def Let_def ensure_Inl_iff using mode_error_simps(1) by (metis sum.distinct(1))

lemma applies_rates:
  assumes "priced costs m" "p \<in> set (profiles m)" "applies p g" "op \<in> set g"
  shows "\<exists>r. dict_item (profile_rates p) (op_flow op) = Inr r"
proof -
  have "op_flow op \<in> set (profile_mode p)" using assms(3,4) by (metis applies_def image_eqI set_map set_sort)
  then have "op_flow op \<in> fst ` set (profile_rates p)" using assms(1,2) by (auto simp: priced_def)
  then show ?thesis by (metis dict_item_Inr dom_map_of_conv_image_fst domD)
qed

lemma check_profile_capacity_Inl:
  assumes "\<And>op. op \<in> set g \<Longrightarrow> \<exists>v. dict_item (profile_rates p) (op_flow op) = Inr v" "map_of (model_resources m) r \<noteq> None" "check_profile_capacity m p g r = Inl e"
  shows "mode_error e"
proof -
  have "map_res (\<lambda>op. dict_item (profile_rates p) (op_flow op)) (users r g) \<noteq> Inl e'" for e'
    using map_res_Inl [of "\<lambda>op. dict_item (profile_rates p) (op_flow op)" "users r g" e'] assms(1) by fastforce
  then obtain vs where vs: "map_res (\<lambda>op. dict_item (profile_rates p) (op_flow op)) (users r g) = Inr vs" by (metis sum.exhaust)
  obtain c where "dict_item (model_resources m) r = Inr c" using assms(2) by (auto simp: dict_item_def)
  then show ?thesis using assms(3) mode_error_simps(3) [of r] unfolding check_profile_capacity_def vs by (auto simp: ensure_Inl_iff split: if_splits)
qed

lemma shared_rate_ok:
  assumes "supplied costs m op"
  shows "shared_rate costs m g t op \<noteq> Inl e"
proof -
  obtain c where c: "dict_item costs (work_id op) = Inr c" using assms by (auto simp: supplied_def dict_item_def)
  have "\<exists>v. dict_item (model_resources m) r = Inr v" if "r \<in> set (work_resources op)" for r using assms that by (auto simp: supplied_def dict_item_def)
  then have "shared_limits m g op \<noteq> Inl e'" for e' using map_res_Inl unfolding shared_limits_def by (fastforce simp: bnd_Inl_iff)
  then obtain ls where "shared_limits m g op = Inr ls" by (metis sum.exhaust)
  with c show ?thesis by (simp add: shared_rate_def Let_def)
qed

lemma group_rates_Inl:
  assumes priced: "priced costs m" and sup: "\<And>op. op \<in> set g \<Longrightarrow> supplied costs m op" and e: "group_rates costs m rt g = Inl e"
  shows "mode_error e"
proof (cases "card (set (map op_flow g)) = length g")
  case True
  show ?thesis
  proof (cases "profile_for m g")
    case (Inl e')
    then show ?thesis using e True profile_for_Inl [OF Inl] unfolding group_rates_def by simp
  next
    case (Inr q)
    show ?thesis
    proof (cases q)
      case None
      then obtain rt0 where "for_each (shared_rate costs m g) rt0 g = Inl e" using e True Inr unfolding group_rates_def by (auto simp: Let_def)
      then show ?thesis using for_each_Inl [of "shared_rate costs m g"] shared_rate_ok [OF sup] by blast
    next
      case (Some p)
      have p: "p \<in> set (profiles m)" "applies p g" using profile_for_Inr Inr Some by auto
      note r = applies_rates [OF priced p]
      have no: "profile_rate p t op \<noteq> Inl e" if "op \<in> set g" for t op using r [OF that] by (auto simp: profile_rate_def)
      have "check_each (check_profile_capacity m p g) (sorted_list_of_set (group_resources g)) = Inl e"
        using e True Inr Some for_each_Inl [of "profile_rate p"] no unfolding group_rates_def by (simp add: Let_def bnd_Inl_iff) blast
      then obtain x where x: "x \<in> group_resources g" "check_profile_capacity m p g x = Inl e"
        using for_each_Inl [of "\<lambda>_. check_profile_capacity m p g"] unfolding check_each_def by (fastforce simp: group_resources_def)
      have "map_of (model_resources m) x \<noteq> None" using x(1) sup by (auto simp: group_resources_def supplied_def)
      from check_profile_capacity_Inl [OF r this x(2)] show ?thesis .
    qed
  qed
next
  case False
  then show ?thesis using e unfolding group_rates_def ensure_Inl_iff by simp
qed

lemma rates_Inl:
  assumes "priced costs m" "\<And>op. op \<in> set acting \<Longrightarrow> supplied costs m op" "rates costs m used unmeasured acting = Inl e"
  shows "mode_error e"
proof -
  have no: "local_rate costs t op \<noteq> Inl e" if "op \<in> set acting" for t op using assms(2) [OF that] by (auto simp: local_rate_def supplied_def dict_item_def)
  have "for_each (local_rate costs) rt (filter (\<lambda>op. \<not> is_transfer op) acting) \<noteq> Inl e" for rt
    using no for_each_Inl [of "local_rate costs" rt "filter (\<lambda>op. \<not> is_transfer op) acting" e] by auto
  then obtain rt where "for_each (group_rates costs m) rt (components (filter is_transfer acting)) = Inl e"
    using assms(3) unfolding rates_def bnd_Inl_iff by blast
  from for_each_Inl [OF this] obtain t g where g: "g \<in> set (components (filter is_transfer acting))" "group_rates costs m t g = Inl e" by blast
  have "set g \<subseteq> set acting" using set_components [of "filter is_transfer acting"] g(1) by auto
  then show ?thesis using group_rates_Inl [OF assms(1) _ g(2)] assms(2) by blast
qed

end
