(* ===== verification/Prediction_Run.thy ===== *)
theory Prediction_Run
  imports Prediction_Rates
begin

text \<open>
  The run of the prediction: its invariant, that every step keeps it, and that the loop ends.
\<close>

section \<open>The setting of a run\<close>

abbreviation deps_at :: "operations \<Rightarrow> string \<Rightarrow> string set" where
  "deps_at ops k \<equiv> set (work_dependencies (op_at ops k))"

definition replay_setting :: "operations \<Rightarrow> (string, string list) dict \<Rightarrow> (string, service_cost) dict \<Rightarrow> cost_model \<Rightarrow> string set \<Rightarrow> bool" where
  "replay_setting ops successors costs m P \<longleftrightarrow> (\<forall>(k, op)\<in>set ops. work_id op = k \<and> work_operation_post_init op = Inr op)
     \<and> loop_graph (dict_keys ops) (deps_at ops) successors \<and> acyclic (edges (dict_keys ops) (deps_at ops))
     \<and> P \<subseteq> set (dict_keys ops) \<and> (\<forall>k\<in>P. deps_at ops k \<subseteq> P) \<and> priced costs m
     \<and> (\<forall>k\<in>P. work_kind (op_at ops k) \<noteq> ''nop'' \<longrightarrow> supplied costs m (op_at ops k))"

lemma setting_op:
  assumes "replay_setting ops successors costs m P" "k \<in> P"
  shows "work_id (op_at ops k) = k" "work_operation_post_init (op_at ops k) = Inr (op_at ops k)" "k \<in> set (dict_keys ops)"
proof -
  show k: "k \<in> set (dict_keys ops)" using assms by (auto simp: replay_setting_def)
  then obtain op where "map_of ops k = Some op" by (metis dom_map_of_conv_image_fst domD set_map)
  then have "(k, op_at ops k) \<in> set ops" by (simp add: map_of_SomeD)
  then show "work_id (op_at ops k) = k" "work_operation_post_init (op_at ops k) = Inr (op_at ops k)" using assms(1) by (auto simp: replay_setting_def)
qed

lemma valid_operation:
  assumes "work_operation_post_init op = Inr op"
  shows "work_kind op \<noteq> ''nop'' \<Longrightarrow> 0 < payload_bytes op" "0 \<le> not_before_us op" "\<not> is_transfer op \<Longrightarrow> work_resources op = []"
  using assms by (auto simp: work_operation_post_init_def ensure_Inr_iff is_transfer_def)

section \<open>The invariant\<close>

definition keyset :: "('k, 'v) dict \<Rightarrow> 'k set" where
  "keyset d = fst ` set d"

lemma keyset_simps [simp]:
  "keyset [] = {}" "keyset (AList.update k v d) = insert k (keyset d)" "keyset (AList.delete k d) = keyset d - {k}" "finite (keyset d)"
  by (auto simp: keyset_def AList.delete_eq)

lemma keyset_Some: "k \<in> keyset d \<longleftrightarrow> (\<exists>v. map_of d k = Some v)"
  by (metis dom_map_of_conv_image_fst domIff keyset_def not_None_eq)

abbreviation ended :: "sim \<Rightarrow> string set" where
  "ended s \<equiv> keyset (sim_ends s)"

abbreviation waiting :: "sim \<Rightarrow> string set" where
  "waiting s \<equiv> keyset (sim_startup s)"

abbreviation end_of :: "sim \<Rightarrow> string \<Rightarrow> rat" where
  "end_of s k \<equiv> dict_get (sim_ends s) k 0"

abbreviation left_of :: "sim \<Rightarrow> string \<Rightarrow> rat" where
  "left_of s k \<equiv> dict_get (sim_remaining s) k 0"

text \<open>Every available operation is in one place: pending, starting, active, in the hands of the loop (\<open>X\<close>) or ended.  The counters hold the dependencies that have not
  ended, and the releases are the operations without any, but for those that the loop has taken (\<open>W\<close>).\<close>

definition released_keys :: "operations \<Rightarrow> sim \<Rightarrow> string set" where
  "released_keys ops s = {k \<in> sim_pending s. deps_at ops k \<subseteq> ended s}"

definition phases :: "'k set \<Rightarrow> 'k set list \<Rightarrow> bool" where
  "phases P parts \<longleftrightarrow> finite P \<and> \<Union>(set parts) = P \<and> sorted_wrt (\<lambda>A B. A \<inter> B = {}) parts"

lemma phases_moves:
  "phases P [a, b, c, {}, e] \<Longrightarrow> k \<in> a \<Longrightarrow> phases P [a - {k}, b, c, {k}, e]"
  "phases P [a, b, c, {k}, e] \<Longrightarrow> phases P [a, insert k b, c, {}, e]"
  "phases P [a, b, c, {}, e] \<Longrightarrow> k \<in> b \<Longrightarrow> phases P [a, b - {k}, insert k c, {}, e]"
  "phases P [a, b, c, {}, e] \<Longrightarrow> x \<subseteq> c \<Longrightarrow> phases P [a, b, c - x, x, e]"
  "phases P [a, b, c, insert k x, e] \<Longrightarrow> k \<notin> x \<Longrightarrow> phases P [a, b, c, x, insert k e]"
  by (auto simp: phases_def)

definition placed :: "operations \<Rightarrow> string set \<Rightarrow> string set \<Rightarrow> string set \<Rightarrow> sim \<Rightarrow> bool" where
  "placed ops P W X s \<longleftrightarrow> wf_dict (sim_startup s) \<and> wf_dict (sim_ends s)
     \<and> phases P [sim_pending s, waiting s, sim_active s, X, ended s]
     \<and> (\<forall>k\<in>P - sim_pending s. deps_at ops k \<subseteq> ended s)
     \<and> (\<forall>k\<in>sim_pending s. dict_get (sim_degrees s) k 0 = int (card (deps_at ops k - ended s)))
     \<and> sorted (sim_releases s) \<and> distinct (map snd (sim_releases s)) \<and> (\<forall>e\<in>set (sim_releases s). fst e = not_before_us (op_at ops (snd e)))
     \<and> snd ` set (sim_releases s) = released_keys ops s - W \<and> W \<subseteq> released_keys ops s"

lemma placed_phases:
  assumes "placed ops P W X s"
  shows "finite P" "sim_pending s \<subseteq> P" "waiting s \<subseteq> P" "sim_active s \<subseteq> P" "X \<subseteq> P" "ended s \<subseteq> P" "finite (sim_pending s)" "finite (sim_active s)"
    "k \<in> sim_pending s \<Longrightarrow> k \<notin> waiting s \<union> sim_active s \<union> X \<union> ended s" "k \<in> waiting s \<Longrightarrow> k \<notin> sim_active s \<union> X \<union> ended s"
    "k \<in> sim_active s \<Longrightarrow> k \<notin> X \<union> ended s" "k \<in> X \<Longrightarrow> k \<notin> ended s"
    "k \<in> P \<Longrightarrow> k \<in> sim_pending s \<union> waiting s \<union> sim_active s \<union> X \<union> ended s"
    "k \<in> P \<Longrightarrow> k \<notin> sim_pending s \<Longrightarrow> deps_at ops k \<subseteq> ended s"
proof -
  have p: "phases P [sim_pending s, waiting s, sim_active s, X, ended s]" using assms by (simp add: placed_def)
  show fin: "finite P" using p by (simp add: phases_def)
  show sub: "sim_pending s \<subseteq> P" "waiting s \<subseteq> P" "sim_active s \<subseteq> P" "X \<subseteq> P" "ended s \<subseteq> P" using p by (auto simp: phases_def)
  show "finite (sim_pending s)" "finite (sim_active s)" using finite_subset [OF sub(1) fin] finite_subset [OF sub(3) fin] by auto
  show "k \<in> sim_pending s \<Longrightarrow> k \<notin> waiting s \<union> sim_active s \<union> X \<union> ended s" "k \<in> waiting s \<Longrightarrow> k \<notin> sim_active s \<union> X \<union> ended s"
    "k \<in> sim_active s \<Longrightarrow> k \<notin> X \<union> ended s" "k \<in> X \<Longrightarrow> k \<notin> ended s"
    "k \<in> P \<Longrightarrow> k \<in> sim_pending s \<union> waiting s \<union> sim_active s \<union> X \<union> ended s" using p by (auto simp: phases_def)
  show "k \<in> P \<Longrightarrow> k \<notin> sim_pending s \<Longrightarrow> deps_at ops k \<subseteq> ended s" using assms by (simp add: placed_def)
qed

text \<open>An operation starts at the latest of its hard release and the ends of its dependencies.\<close>

definition ready_time :: "operations \<Rightarrow> (string, rat) dict \<Rightarrow> string \<Rightarrow> rat" where
  "ready_time ops ends k = Max (insert (not_before_us (op_at ops k)) ((\<lambda>d. dict_get ends d 0) ` deps_at ops k))"

definition timed :: "operations \<Rightarrow> string set \<Rightarrow> sim \<Rightarrow> bool" where
  "timed ops P s \<longleftrightarrow> 0 \<le> sim_now s \<and> keyset (sim_starts s) = P - sim_pending s
     \<and> (\<forall>k\<in>P - sim_pending s. map_of (sim_starts s) k = Some (ready_time ops (sim_ends s) k) \<and> ready_time ops (sim_ends s) k \<le> sim_now s)
     \<and> (\<forall>k\<in>ended s. ready_time ops (sim_ends s) k \<le> end_of s k \<and> end_of s k \<le> sim_now s)
     \<and> (\<forall>k\<in>released_keys ops s. sim_now s \<le> ready_time ops (sim_ends s) k)"

text \<open>The segments move exactly the bytes that are no longer left.\<close>

definition moved :: "progress_segment list \<Rightarrow> string \<Rightarrow> rat" where
  "moved segs k = sum_list (map (\<lambda>g. seg_rate g * (seg_end g - seg_start g)) (filter (\<lambda>g. seg_op g = k) segs))"

definition flowing :: "operations \<Rightarrow> string set \<Rightarrow> sim \<Rightarrow> bool" where
  "flowing ops X s \<longleftrightarrow> (\<forall>k\<in>waiting s \<union> sim_active s. 0 < left_of s k \<and> work_kind (op_at ops k) \<noteq> ''nop'')
     \<and> (\<forall>k\<in>waiting s \<union> sim_active s \<union> X \<union> ended s. work_kind (op_at ops k) \<noteq> ''nop'' \<longrightarrow> left_of s k + moved (sim_segments s) k = of_int (payload_bytes (op_at ops k)))
     \<and> (\<forall>k\<in>X \<union> ended s. work_kind (op_at ops k) \<noteq> ''nop'' \<longrightarrow> left_of s k = 0)
     \<and> (\<forall>g\<in>set (sim_segments s). seg_op g \<in> sim_active s \<union> X \<union> ended s \<and> ready_time ops (sim_ends s) (seg_op g) \<le> seg_start g \<and> seg_start g < seg_end g
          \<and> seg_end g \<le> sim_now s \<and> (seg_op g \<in> ended s \<longrightarrow> seg_end g \<le> end_of s (seg_op g)))"

text \<open>At no time do the segments use more of a resource than its capacity.\<close>

definition load :: "operations \<Rightarrow> progress_segment list \<Rightarrow> string \<Rightarrow> rat \<Rightarrow> rat" where
  "load ops segs r t = sum_list (map seg_rate (filter (\<lambda>g. seg_start g \<le> t \<and> t < seg_end g \<and> r \<in> set (work_resources (op_at ops (seg_op g)))) segs))"

definition capped :: "operations \<Rightarrow> cost_model \<Rightarrow> sim \<Rightarrow> bool" where
  "capped ops m s \<longleftrightarrow> (\<forall>r t. load ops (sim_segments s) r t \<le> dict_get (model_resources m) r 0)"

definition run_inv :: "operations \<Rightarrow> cost_model \<Rightarrow> string set \<Rightarrow> string set \<Rightarrow> string set \<Rightarrow> sim \<Rightarrow> bool" where
  "run_inv ops m P W X s \<longleftrightarrow> placed ops P W X s \<and> timed ops P s \<and> flowing ops X s \<and> capped ops m s"

definition work_left :: "sim \<Rightarrow> nat" where
  "work_left s = 3 * card (sim_pending s) + 2 * card (waiting s) + card (sim_active s)"

section \<open>A completion\<close>

lemma complete_followers:
  assumes "distinct fs"
  shows "\<exists>d r. foldl (complete_follower ops) s fs = s\<lparr>sim_degrees := d, sim_releases := r\<rparr>
    \<and> (\<forall>k. dict_get d k 0 = dict_get (sim_degrees s) k 0 - (if k \<in> set fs \<inter> sim_pending s then 1 else 0))
    \<and> mset r = mset (sim_releases s) + mset (map (\<lambda>f. (not_before_us (op_at ops f), f)) (filter (\<lambda>f. f \<in> sim_pending s \<and> dict_get (sim_degrees s) f 0 = 1) fs))
    \<and> (sorted (sim_releases s) \<longrightarrow> sorted r)"
  using assms
proof (induction fs arbitrary: s)
  case Nil
  have "s = s\<lparr>sim_degrees := sim_degrees s, sim_releases := sim_releases s\<rparr>" by simp
  then show ?case by (intro exI [of _ "sim_degrees s"] exI [of _ "sim_releases s"]) simp
next
  case (Cons f fs)
  let ?s = "complete_follower ops s f"
  have d: "distinct fs" "f \<notin> set fs" using Cons.prems by auto
  from Cons.IH [OF d(1), of ?s] obtain e r where ih: "foldl (complete_follower ops) ?s fs = ?s\<lparr>sim_degrees := e, sim_releases := r\<rparr>"
    "\<And>k. dict_get e k 0 = dict_get (sim_degrees ?s) k 0 - (if k \<in> set fs \<inter> sim_pending ?s then 1 else 0)"
    "mset r = mset (sim_releases ?s) + mset (map (\<lambda>f. (not_before_us (op_at ops f), f)) (filter (\<lambda>f. f \<in> sim_pending ?s \<and> dict_get (sim_degrees ?s) f 0 = 1) fs))"
    "sorted (sim_releases ?s) \<longrightarrow> sorted r" by blast
  have p: "sim_pending ?s = sim_pending s" by (simp add: complete_follower_def Let_def)
  have g: "dict_get (sim_degrees ?s) k 0 = dict_get (sim_degrees s) k 0 - (if k = f \<and> f \<in> sim_pending s then 1 else 0)" for k
    by (simp add: complete_follower_def Let_def)
  have "filter (\<lambda>f. f \<in> sim_pending ?s \<and> dict_get (sim_degrees ?s) f 0 = 1) fs = filter (\<lambda>f. f \<in> sim_pending s \<and> dict_get (sim_degrees s) f 0 = 1) fs"
    using d(2) by (auto simp: p g intro!: filter_cong)
  moreover have "mset (sim_releases ?s) = mset (sim_releases s) + (if f \<in> sim_pending s \<and> dict_get (sim_degrees s) f 0 = 1 then {#(not_before_us (op_at ops f), f)#} else {#})"
    "sorted (sim_releases s) \<longrightarrow> sorted (sim_releases ?s)"
    by (auto simp: complete_follower_def Let_def sorted_insort)
  moreover have "?s\<lparr>sim_degrees := e, sim_releases := r\<rparr> = s\<lparr>sim_degrees := e, sim_releases := r\<rparr>" by (simp add: complete_follower_def Let_def)
  moreover have "dict_get e k 0 = dict_get (sim_degrees s) k 0 - (if k \<in> set (f # fs) \<inter> sim_pending s then 1 else 0)" for k
    using ih(2) [of k] d(2) by (auto simp: p g)
  ultimately show ?case using ih(1,3,4) by (intro exI [of _ e] exI [of _ r]) simp
qed

lemma complete_effect:
  assumes "loop_graph (dict_keys ops) (deps_at ops) successors"
  obtains d r ev where "complete_op ops successors s key = s\<lparr>sim_ends := AList.update key (sim_now s) (sim_ends s), sim_events := ev, sim_degrees := d, sim_releases := r\<rparr>"
    "\<And>k. k \<in> set (dict_keys ops) \<Longrightarrow> dict_get d k 0 = dict_get (sim_degrees s) k 0 - (if key \<in> deps_at ops k \<and> k \<in> sim_pending s then 1 else 0)"
    "mset r = mset (sim_releases s) + mset (map (\<lambda>f. (not_before_us (op_at ops f), f))
       (filter (\<lambda>f. key \<in> deps_at ops f \<and> f \<in> sim_pending s \<and> dict_get (sim_degrees s) f 0 = 1) (dict_keys ops)))"
    "sorted (sim_releases s) \<Longrightarrow> sorted r"
proof -
  let ?t = "note_event ''complete'' key (s\<lparr>sim_ends := AList.update key (sim_now s) (sim_ends s)\<rparr>)" and ?fs = "filter (\<lambda>k. key \<in> deps_at ops k) (dict_keys ops)"
  have fs: "dict_get successors key [] = ?fs" "distinct ?fs" using assms by (auto simp: loop_graph_def)
  from complete_followers [OF fs(2), of ops ?t] obtain d r where r: "foldl (complete_follower ops) ?t ?fs = ?t\<lparr>sim_degrees := d, sim_releases := r\<rparr>"
    "\<forall>k. dict_get d k 0 = dict_get (sim_degrees ?t) k 0 - (if k \<in> set ?fs \<inter> sim_pending ?t then 1 else 0)"
    "mset r = mset (sim_releases ?t) + mset (map (\<lambda>f. (not_before_us (op_at ops f), f)) (filter (\<lambda>f. f \<in> sim_pending ?t \<and> dict_get (sim_degrees ?t) f 0 = 1) ?fs))"
    "sorted (sim_releases ?t) \<longrightarrow> sorted r" by blast
  have t: "sim_pending ?t = sim_pending s" "sim_degrees ?t = sim_degrees s" "sim_releases ?t = sim_releases s" by (simp_all add: note_event_def)
  show ?thesis
  proof (rule that)
    show "complete_op ops successors s key = s\<lparr>sim_ends := AList.update key (sim_now s) (sim_ends s), sim_events := sim_events ?t, sim_degrees := d, sim_releases := r\<rparr>"
      unfolding complete_op_def fs(1) r(1) by (simp add: note_event_def)
    show "k \<in> set (dict_keys ops) \<Longrightarrow> dict_get d k 0 = dict_get (sim_degrees s) k 0 - (if key \<in> deps_at ops k \<and> k \<in> sim_pending s then 1 else 0)" for k
      using r(2) by (simp add: t)
    show "mset r = mset (sim_releases s) + mset (map (\<lambda>f. (not_before_us (op_at ops f), f))
       (filter (\<lambda>f. key \<in> deps_at ops f \<and> f \<in> sim_pending s \<and> dict_get (sim_degrees s) f 0 = 1) (dict_keys ops)))"
      using r(3) by (simp add: t filter_filter conj_ac)
    show "sorted (sim_releases s) \<Longrightarrow> sorted r" using r(4) by (simp add: t)
  qed
qed

lemma last_dependency:
  assumes "finite D" "key \<in> D" "key \<notin> E"
  shows "card (D - insert key E) = card (D - E) - 1" "0 < card (D - E)" "int (card (D - E)) = 1 \<longleftrightarrow> D \<subseteq> insert key E"
proof -
  show c: "card (D - insert key E) = card (D - E) - 1" using assms by (simp add: card_Diff_insert)
  show p: "0 < card (D - E)" using assms by (auto simp: card_gt_0_iff)
  have "D \<subseteq> insert key E \<longleftrightarrow> card (D - insert key E) = 0" using assms(1) by auto
  then show "int (card (D - E)) = 1 \<longleftrightarrow> D \<subseteq> insert key E" using c p by linarith
qed

lemma released_keys_complete:
  assumes g: "loop_graph (dict_keys ops) (deps_at ops) successors" and p: "placed ops P W (insert key X) s" and sub: "P \<subseteq> set (dict_keys ops)"
  shows "released_keys ops (complete_op ops successors s key) = released_keys ops s \<union> {f \<in> set (dict_keys ops). key \<in> deps_at ops f \<and> f \<in> sim_pending s \<and> dict_get (sim_degrees s) f 0 = 1}"
proof -
  obtain d r ev where c: "complete_op ops successors s key = s\<lparr>sim_ends := AList.update key (sim_now s) (sim_ends s), sim_events := ev, sim_degrees := d, sim_releases := r\<rparr>"
    using complete_effect [OF g, of s key] by metis
  have key: "key \<notin> ended s" "sim_pending s \<subseteq> set (dict_keys ops)" using placed_phases(2,12) [OF p] sub by auto
  have "deps_at ops k \<subseteq> insert key (ended s) \<longleftrightarrow> deps_at ops k \<subseteq> ended s \<or> key \<in> deps_at ops k \<and> dict_get (sim_degrees s) k 0 = 1" if "k \<in> sim_pending s" for k
  proof -
    have "dict_get (sim_degrees s) k 0 = int (card (deps_at ops k - ended s))" using p that by (simp add: placed_def)
    then show ?thesis using last_dependency(3) [OF _ _ key(1), of "deps_at ops k"] by auto
  qed
  then show ?thesis using key(2) by (auto simp: released_keys_def c)
qed

lemma placed_complete:
  assumes g: "loop_graph (dict_keys ops) (deps_at ops) successors" and p: "placed ops P W (insert key X) s" and new: "key \<notin> X" and sub: "P \<subseteq> set (dict_keys ops)"
  shows "placed ops P W X (complete_op ops successors s key)"
proof -
  let ?N = "filter (\<lambda>f. key \<in> deps_at ops f \<and> f \<in> sim_pending s \<and> dict_get (sim_degrees s) f 0 = 1) (dict_keys ops)" and ?s = "complete_op ops successors s key"
  obtain d r ev where c: "?s = s\<lparr>sim_ends := AList.update key (sim_now s) (sim_ends s), sim_events := ev, sim_degrees := d, sim_releases := r\<rparr>"
    "\<And>k. k \<in> set (dict_keys ops) \<Longrightarrow> dict_get d k 0 = dict_get (sim_degrees s) k 0 - (if key \<in> deps_at ops k \<and> k \<in> sim_pending s then 1 else 0)"
    "mset r = mset (sim_releases s) + mset (map (\<lambda>f. (not_before_us (op_at ops f), f)) ?N)" "sorted (sim_releases s) \<Longrightarrow> sorted r"
    by (rule complete_effect [OF g, of s key]) blast
  note q = p [unfolded placed_def]
  have key: "key \<notin> ended s" "sim_pending s \<subseteq> set (dict_keys ops)" "key \<in> P" "key \<notin> sim_pending s"
    using placed_phases(2,5,9,12) [OF p] sub by auto
  note rel = released_keys_complete [OF g p sub]
  have deg: "dict_get d k 0 = int (card (deps_at ops k - insert key (ended s)))" if k: "k \<in> sim_pending s" for k
  proof -
    have "dict_get (sim_degrees s) k 0 = int (card (deps_at ops k - ended s))" using q k by simp
    then show ?thesis using c(2) [of k] k key last_dependency(1,2) [OF _ _ key(1), of "deps_at ops k"] by (cases "key \<in> deps_at ops k") (auto simp: of_nat_diff)
  qed
  have set_r: "set r = set (sim_releases s) \<union> (\<lambda>f. (not_before_us (op_at ops f), f)) ` set ?N" using arg_cong [OF c(3), of set_mset] by simp
  have fresh: "set ?N \<inter> released_keys ops s = {}"
    using last_dependency(2) [OF _ _ key(1)] key(1) by (auto simp: released_keys_def)
  have "distinct (map snd r)"
  proof -
    have "image_mset snd (mset r) = mset (map snd (sim_releases s)) + mset ?N" unfolding c(3) by (simp add: multiset.map_comp comp_def)
    then have eq: "mset (map snd r) = mset (map snd (sim_releases s) @ ?N)" by simp
    have "distinct (map snd (sim_releases s))" "distinct ?N" "snd ` set (sim_releases s) \<inter> set ?N = {}" using q fresh g by (auto simp: loop_graph_def)
    then have "distinct (map snd (sim_releases s) @ ?N)" by simp
    with mset_eq_imp_distinct_iff [OF eq] show ?thesis by (rule iffD2)
  qed
  moreover have "snd ` set r = released_keys ops ?s - W"
  proof -
    have "snd ` set r = snd ` set (sim_releases s) \<union> set ?N" unfolding set_r by force
    moreover have "W \<inter> set ?N = {}" using q fresh by blast
    ultimately show ?thesis using q unfolding rel by auto
  qed
  moreover have "W \<subseteq> released_keys ops ?s" using q unfolding rel by auto
  moreover have "\<forall>e\<in>set r. fst e = not_before_us (op_at ops (snd e))" using q unfolding set_r by auto
  moreover have "sorted r" using q c(4) by simp
  ultimately have rels: "sorted r \<and> distinct (map snd r) \<and> (\<forall>e\<in>set r. fst e = not_before_us (op_at ops (snd e)))
     \<and> snd ` set r = released_keys ops ?s - W \<and> W \<subseteq> released_keys ops ?s" by blast
  have "phases P [sim_pending s, waiting s, sim_active s, X, insert key (ended s)]" using q new by (intro phases_moves(5)) simp_all
  moreover have "\<forall>k\<in>P - sim_pending s. deps_at ops k \<subseteq> insert key (ended s)" using q by blast
  ultimately show ?thesis using q rels deg unfolding placed_def c(1) by simp
qed

lemma ready_time_update: "key \<notin> deps_at ops k \<Longrightarrow> ready_time ops (AList.update key t ends) k = ready_time ops ends k"
proof -
  assume "key \<notin> deps_at ops k"
  then have "(\<lambda>d. dict_get (AList.update key t ends) d 0) ` deps_at ops k = (\<lambda>d. dict_get ends d 0) ` deps_at ops k" by (intro image_cong) auto
  then show ?thesis by (simp add: ready_time_def)
qed

lemma ready_time_bounds:
  "not_before_us (op_at ops k) \<le> ready_time ops ends k" "d \<in> deps_at ops k \<Longrightarrow> dict_get ends d 0 \<le> ready_time ops ends k"
  "not_before_us (op_at ops k) \<le> t \<Longrightarrow> (\<And>d. d \<in> deps_at ops k \<Longrightarrow> dict_get ends d 0 \<le> t) \<Longrightarrow> ready_time ops ends k \<le> t"
  by (auto simp: ready_time_def)

lemma timed_complete:
  assumes g: "loop_graph (dict_keys ops) (deps_at ops) successors" and p: "placed ops P W (insert key X) s" and sub: "P \<subseteq> set (dict_keys ops)" and t: "timed ops P s"
  shows "timed ops P (complete_op ops successors s key)"
proof -
  let ?s = "complete_op ops successors s key" and ?e = "AList.update key (sim_now s) (sim_ends s)"
  obtain d r ev where c: "?s = s\<lparr>sim_ends := ?e, sim_events := ev, sim_degrees := d, sim_releases := r\<rparr>"
    using complete_effect [OF g, of s key] by metis
  have key: "key \<notin> ended s" "key \<in> P - sim_pending s" and past: "\<forall>k\<in>P - sim_pending s. deps_at ops k \<subseteq> ended s" "ended s \<subseteq> P - sim_pending s"
    using placed_phases(5,6,9,12,14) [OF p] by blast+
  have rt: "ready_time ops ?e k = ready_time ops (sim_ends s) k" if "deps_at ops k \<subseteq> ended s" for k using that key(1) by (intro ready_time_update) auto
  note u = t [unfolded timed_def]
  have "sim_now s \<le> ready_time ops ?e k" if k: "k \<in> released_keys ops ?s" for k
  proof (cases "key \<in> deps_at ops k")
    case True
    then show ?thesis using ready_time_bounds(2) [OF True, of ?e] by simp
  next
    case False
    then have "k \<in> released_keys ops s" using k by (auto simp: released_keys_def c)
    then show ?thesis using u rt [of k] by (simp add: released_keys_def)
  qed
  moreover have "\<forall>k\<in>insert key (ended s). ready_time ops ?e k \<le> dict_get ?e k 0 \<and> dict_get ?e k 0 \<le> sim_now s"
    using u rt past key by auto
  moreover have "\<forall>k\<in>P - sim_pending s. map_of (sim_starts s) k = Some (ready_time ops ?e k) \<and> ready_time ops ?e k \<le> sim_now s"
    using u rt past(1) by simp
  ultimately show ?thesis using u unfolding timed_def by (simp add: c)
qed

lemma flowing_complete:
  assumes g: "loop_graph (dict_keys ops) (deps_at ops) successors" and p: "placed ops P W (insert key X) s" and f: "flowing ops (insert key X) s"
  shows "flowing ops X (complete_op ops successors s key)"
proof -
  let ?s = "complete_op ops successors s key" and ?e = "AList.update key (sim_now s) (sim_ends s)"
  obtain d r ev where c: "?s = s\<lparr>sim_ends := ?e, sim_events := ev, sim_degrees := d, sim_releases := r\<rparr>"
    using complete_effect [OF g, of s key] by metis
  note u = f [unfolded flowing_def]
  have key: "key \<notin> ended s" and past: "\<And>k. k \<in> sim_active s \<union> insert key X \<union> ended s \<Longrightarrow> deps_at ops k \<subseteq> ended s"
    using placed_phases(4-6,9,12,14) [OF p] by blast+
  have "ready_time ops ?e k = ready_time ops (sim_ends s) k" if "k \<in> sim_active s \<union> insert key X \<union> ended s" for k
    using past [OF that] key by (intro ready_time_update) auto
  then have "seg_op x \<in> sim_active s \<union> X \<union> insert key (ended s) \<and> ready_time ops ?e (seg_op x) \<le> seg_start x \<and> seg_start x < seg_end x \<and> seg_end x \<le> sim_now s
      \<and> (seg_op x \<in> insert key (ended s) \<longrightarrow> seg_end x \<le> dict_get ?e (seg_op x) 0)" if "x \<in> set (sim_segments s)" for x
    using u that by (cases "seg_op x = key") auto
  moreover have "waiting s \<union> sim_active s \<union> X \<union> insert key (ended s) = waiting s \<union> sim_active s \<union> insert key X \<union> ended s" by auto
  ultimately show ?thesis using u unfolding flowing_def by (simp add: c) auto
qed

lemma complete_keeps:
  assumes g: "loop_graph (dict_keys ops) (deps_at ops) successors" and sub: "P \<subseteq> set (dict_keys ops)" and i: "run_inv ops m P W (insert key X) s" and new: "key \<notin> X"
  shows "run_inv ops m P W X (complete_op ops successors s key)" "work_left (complete_op ops successors s key) = work_left s"
    "sim_now (complete_op ops successors s key) = sim_now s"
proof -
  obtain d r ev where c: "complete_op ops successors s key = s\<lparr>sim_ends := AList.update key (sim_now s) (sim_ends s), sim_events := ev, sim_degrees := d, sim_releases := r\<rparr>"
    using complete_effect [OF g, of s key] by metis
  note j = i [unfolded run_inv_def]
  show "run_inv ops m P W X (complete_op ops successors s key)"
    using placed_complete [OF g _ new sub, of W s] timed_complete [OF g _ sub, of W key X s] flowing_complete [OF g, of P W key X s] j unfolding run_inv_def by (simp add: capped_def c)
  show "work_left (complete_op ops successors s key) = work_left s" "sim_now (complete_op ops successors s key) = sim_now s" by (simp_all add: c work_left_def)
qed

section \<open>Events at one time\<close>

lemma finish_startup_keeps:
  assumes i: "run_inv ops m P W {} s" and key: "key \<in> waiting s"
  shows "run_inv ops m P W {} (finish_startup s key)" "Suc (work_left (finish_startup s key)) = work_left s"
proof -
  note p = i [unfolded run_inv_def placed_def]
  obtain ev where eq: "finish_startup s key = s\<lparr>sim_startup := AList.delete key (sim_startup s), sim_active := insert key (sim_active s), sim_events := ev\<rparr>"
    by (simp add: finish_startup_def note_event_def)
  have "phases P [sim_pending s, waiting s - {key}, insert key (sim_active s), {}, ended s]" using p key by (intro phases_moves(3)) simp_all
  moreover have "wf_dict (AList.delete key (sim_startup s))" using p by (simp add: AList.distinct_delete)
  ultimately have "placed ops P W {} (finish_startup s key)" using p unfolding eq placed_def released_keys_def by simp
  moreover have "timed ops P (finish_startup s key)" using i by (simp add: eq run_inv_def timed_def released_keys_def)
  moreover have "flowing ops {} (finish_startup s key)" using i key unfolding eq by (auto simp: run_inv_def flowing_def)
  moreover have "capped ops m (finish_startup s key)" using i by (simp add: eq run_inv_def capped_def)
  ultimately show "run_inv ops m P W {} (finish_startup s key)" by (simp add: run_inv_def)
  have fin: "finite (sim_active s)" "key \<notin> sim_active s" using placed_phases(8,10) i key by (auto simp: run_inv_def)
  have "card (waiting s) = Suc (card (waiting s - {key}))" using key by (metis card_Suc_Diff1 keyset_simps(4))
  then show "Suc (work_left (finish_startup s key)) = work_left s" using fin unfolding eq work_left_def by simp
qed


lemma finish_startups_keep:
  "distinct ks \<Longrightarrow> set ks \<subseteq> waiting s \<Longrightarrow> run_inv ops m P W {} s \<Longrightarrow> run_inv ops m P W {} (foldl finish_startup s ks)
    \<and> work_left (foldl finish_startup s ks) + length ks = work_left s \<and> sim_now (foldl finish_startup s ks) = sim_now s
    \<and> sim_releases (foldl finish_startup s ks) = sim_releases s \<and> sim_pending (foldl finish_startup s ks) = sim_pending s"
proof (induction ks arbitrary: s)
  case (Cons k ks)
  have k: "k \<in> waiting s" using Cons.prems(2) by simp
  have same: "sim_now (finish_startup s k) = sim_now s" "sim_releases (finish_startup s k) = sim_releases s" "sim_pending (finish_startup s k) = sim_pending s"
    "waiting (finish_startup s k) = waiting s - {k}" by (simp_all add: finish_startup_def note_event_def)
  have "set ks \<subseteq> waiting (finish_startup s k)" using Cons.prems(1,2) by (auto simp: same(4))
  from Cons.IH [OF _ this finish_startup_keeps(1) [OF Cons.prems(3) k]] show ?case
    using Cons.prems(1) same finish_startup_keeps(2) [OF Cons.prems(3) k] by simp
qed simp

lemma pop_keeps:
  assumes i: "run_inv ops m P {} {} s"
  shows "run_inv ops m P (set (released s)) {} (s\<lparr>sim_releases := dropWhile (\<lambda>e. fst e \<le> sim_now s) (sim_releases s)\<rparr>)"
    "distinct (released s)" "k \<in> set (released s) \<Longrightarrow> not_before_us (op_at ops k) \<le> sim_now s"
proof -
  define late where "late = dropWhile (\<lambda>e. fst e \<le> sim_now s) (sim_releases s)"
  define soon where "soon = takeWhile (\<lambda>e. fst e \<le> sim_now s) (sim_releases s)"
  have p: "sorted (sim_releases s)" "distinct (map snd (sim_releases s))" "\<forall>e\<in>set (sim_releases s). fst e = not_before_us (op_at ops (snd e))"
    "snd ` set (sim_releases s) = released_keys ops s" using i by (auto simp: run_inv_def placed_def)
  have s: "sim_releases s = soon @ late" by (simp add: soon_def late_def)
  have "distinct (map snd soon @ map snd late)" using p(2) unfolding map_append [symmetric] s [symmetric] .
  then have d: "distinct (map snd soon)" "distinct (map snd late)" "snd ` set soon \<inter> snd ` set late = {}" by auto
  have u: "snd ` set soon \<union> snd ` set late = released_keys ops s" using p(4) s by (metis image_Un set_append)
  have W: "set (released s) = snd ` set soon" by (simp add: released_def soon_def)
  show "distinct (released s)" using d(1) by (simp add: released_def soon_def)
  show "k \<in> set (released s) \<Longrightarrow> not_before_us (op_at ops k) \<le> sim_now s" unfolding W soon_def using p(3) by (fastforce dest: set_takeWhileD)
  have "snd ` set late = released_keys ops s - set (released s)" "set (released s) \<subseteq> released_keys ops s" using u d(3) unfolding W by blast+
  moreover have "sorted late" using p(1) unfolding late_def by (rule sorted_dropWhile)
  moreover have "\<forall>e\<in>set late. fst e = not_before_us (op_at ops (snd e))" using p(3) s by (metis Un_iff set_append)
  moreover have "released_keys ops (s\<lparr>sim_releases := late\<rparr>) = released_keys ops s" by (simp add: released_keys_def)
  moreover have "wf_dict (sim_startup s)" "wf_dict (sim_ends s)" "phases P [sim_pending s, waiting s, sim_active s, {}, ended s]"
    "\<forall>k\<in>P - sim_pending s. deps_at ops k \<subseteq> ended s" "\<forall>k\<in>sim_pending s. dict_get (sim_degrees s) k 0 = int (card (deps_at ops k - ended s))"
    using i by (auto simp: run_inv_def placed_def)
  ultimately have "placed ops P (set (released s)) {} (s\<lparr>sim_releases := late\<rparr>)" using d(2) unfolding placed_def by simp
  then show "run_inv ops m P (set (released s)) {} (s\<lparr>sim_releases := dropWhile (\<lambda>e. fst e \<le> sim_now s) (sim_releases s)\<rparr>)" unfolding late_def [symmetric] using i by (simp add: run_inv_def timed_def flowing_def capped_def released_keys_def)
qed

text \<open>A launched operation starts now, which is its ready time.\<close>

lemma ready_now:
  assumes "run_inv ops m P W {} s" "k \<in> W" "not_before_us (op_at ops k) \<le> sim_now s"
  shows "ready_time ops (sim_ends s) k = sim_now s"
proof (rule antisym)
  have k: "k \<in> released_keys ops s" using assms(1,2) by (auto simp: run_inv_def placed_def)
  then show "sim_now s \<le> ready_time ops (sim_ends s) k" using assms(1) by (simp add: run_inv_def timed_def)
  show "ready_time ops (sim_ends s) k \<le> sim_now s"
  proof (rule ready_time_bounds(3) [OF assms(3)])
    fix d assume "d \<in> deps_at ops k"
    then have "d \<in> ended s" using k by (auto simp: released_keys_def)
    then show "end_of s d \<le> sim_now s" using assms(1) by (simp add: run_inv_def timed_def)
  qed
qed

abbreviation begun :: "sim \<Rightarrow> string \<Rightarrow> sim" where
  "begun s k \<equiv> s\<lparr>sim_pending := sim_pending s - {k}, sim_starts := AList.update k (sim_now s) (sim_starts s)\<rparr>"

lemma begun_keeps:
  assumes i: "run_inv ops m P W {} s" and k: "k \<in> W" "not_before_us (op_at ops k) \<le> sim_now s"
  shows "placed ops P (W - {k}) {k} (begun s k)" "timed ops P (begun s k)" "capped ops m (begun s k)"
    "card (sim_pending s) = Suc (card (sim_pending s - {k}))" "k \<in> P" "k \<in> sim_pending s"
proof -
  have p: "placed ops P W {} s" "timed ops P s" using i by (auto simp: run_inv_def)
  note ph = placed_phases [OF p(1)]
  have pend: "k \<in> sim_pending s" "deps_at ops k \<subseteq> ended s" using p(1) k(1) by (auto simp: placed_def released_keys_def)
  then show "k \<in> P" "k \<in> sim_pending s" using ph(2) by auto
  show "card (sim_pending s) = Suc (card (sim_pending s - {k}))" using pend(1) ph(7) by (metis card_Suc_Diff1)
  have rel: "released_keys ops (begun s k) = released_keys ops s - {k}" by (auto simp: released_keys_def)
  have "phases P [sim_pending s - {k}, waiting s, sim_active s, {k}, ended s]" using p(1) pend(1) by (intro phases_moves(1)) (simp_all add: placed_def)
  moreover have "\<forall>j\<in>P - (sim_pending s - {k}). deps_at ops j \<subseteq> ended s" using ph(14) pend(2) by blast
  moreover have "released_keys ops s - W = released_keys ops s - {k} - (W - {k})" "W - {k} \<subseteq> released_keys ops s - {k}" using p(1) k(1) by (auto simp: placed_def)
  ultimately show "placed ops P (W - {k}) {k} (begun s k)" using p(1) unfolding placed_def rel by simp
  have "P - (sim_pending s - {k}) = insert k (P - sim_pending s)" using pend(1) ph(2) by auto
  then show "timed ops P (begun s k)" using p(2) ready_now [OF i k] unfolding timed_def rel by simp
  show "capped ops m (begun s k)" using i by (simp add: run_inv_def capped_def)
qed

lemma launch_keeps:
  assumes set: "replay_setting ops successors costs m P" and i: "run_inv ops m P W {} s" and k: "k \<in> W" "not_before_us (op_at ops k) \<le> sim_now s"
  shows "\<exists>s'. launch ops successors costs profs s k = Inr s' \<and> run_inv ops m P (W - {k}) {} s' \<and> work_left s' < work_left s \<and> sim_now s' = sim_now s"
proof -
  let ?b = "note_event ''start'' k (begun s k)"
  note b = begun_keeps [OF i k]
  have g: "loop_graph (dict_keys ops) (deps_at ops) successors" "P \<subseteq> set (dict_keys ops)" using set by (auto simp: replay_setting_def)
  have f: "flowing ops {} s" using i by (simp add: run_inv_def)
  have pl: "placed ops P (W - {k}) {k} ?b" "timed ops P ?b" "capped ops m ?b" "work_left ?b < work_left s" "sim_now ?b = sim_now s"
    using b(1-4) by (simp_all add: note_event_def placed_def timed_def capped_def work_left_def released_keys_def)
  show ?thesis
  proof (cases "work_kind (op_at ops k) = ''nop''")
    case True
    then have "flowing ops {k} ?b" using f by (auto simp: flowing_def note_event_def)
    with pl have "run_inv ops m P (W - {k}) {k} ?b" by (simp add: run_inv_def)
    from complete_keeps [OF g this] pl(4,5) True show ?thesis by (simp add: launch_def Let_def)
  next
    case False
    obtain c where c: "dict_item costs k = Inr c"
      using set setting_op(1) [OF set b(5)] b(5) False by (auto simp: replay_setting_def supplied_def dict_item_def)
    let ?sel = "case map_of profs k of None \<Rightarrow> (alpha_cost c, cost_source c, {})
        | Some p \<Rightarrow> (dict_get (profile_startup_us p) (op_flow (op_at ops k)) 0, profile_source p, {''profile:'' @ profile_id p})"
    obtain alpha src extra where sel: "?sel = (alpha, src, extra)" by (cases ?sel rule: prod_cases3) blast
    obtain t used srcs where l: "launch ops successors costs profs s k = Inr (?b\<lparr>sim_used := used, sim_sources := srcs,
        sim_remaining := AList.update k (of_int (payload_bytes (op_at ops k))) (sim_remaining ?b), sim_startup := AList.update k t (sim_startup ?b)\<rparr>)" (is "_ = Inr ?s")
      using False unfolding launch_def Let_def c bnd_simps sel by (simp add: note_event_def)
    have "phases P [sim_pending s - {k}, insert k (waiting s), sim_active s, {}, ended s]"
      using b(1) by (intro phases_moves(2)) (simp add: placed_def)
    then have "placed ops P (W - {k}) {} ?s" using pl(1) by (simp add: note_event_def placed_def released_keys_def)
    moreover have "timed ops P ?s" using pl(2) by (simp add: timed_def released_keys_def)
    moreover have "capped ops m ?s" using pl(3) by (simp add: capped_def)
    moreover have "flowing ops {} ?s"
    proof -
      have n: "k \<notin> waiting s \<union> sim_active s \<union> {} \<union> ended s" using placed_phases(9) i b(6) unfolding run_inv_def by blast
      then have "filter (\<lambda>g. seg_op g = k) (sim_segments s) = []" using f by (auto simp: flowing_def filter_empty_conv)
      then have "moved (sim_segments s) k = 0" by (simp add: moved_def)
      moreover have "0 < payload_bytes (op_at ops k)" by (rule valid_operation(1) [OF setting_op(2) [OF set b(5)] False])
      ultimately show ?thesis using f n False by (auto simp: flowing_def note_event_def)
    qed
    moreover have "work_left ?s < work_left s"
    proof -
      have "k \<notin> waiting s" using placed_phases(9) i b(6) unfolding run_inv_def by blast
      then show ?thesis using b(4) by (simp add: work_left_def note_event_def)
    qed
    moreover have "sim_now ?s = sim_now s" by (simp add: note_event_def)
    ultimately show ?thesis using l by (simp add: run_inv_def)
  qed
qed

lemma launches_keep:
  assumes set: "replay_setting ops successors costs m P"
  shows "run_inv ops m P W {} s \<Longrightarrow> distinct ks \<Longrightarrow> set ks = W \<Longrightarrow> (\<And>k. k \<in> set ks \<Longrightarrow> not_before_us (op_at ops k) \<le> sim_now s)
    \<Longrightarrow> \<exists>s'. for_each (launch ops successors costs profs) s ks = Inr s' \<and> run_inv ops m P {} {} s' \<and> work_left s' + length ks \<le> work_left s \<and> sim_now s' = sim_now s"
proof (induction ks arbitrary: s W)
  case (Cons k ks)
  have k: "k \<in> W" "not_before_us (op_at ops k) \<le> sim_now s" using Cons.prems(3,4) by auto
  from launch_keeps [OF set Cons.prems(1) k] obtain t where t: "launch ops successors costs profs s k = Inr t" "run_inv ops m P (W - {k}) {} t" "work_left t < work_left s" "sim_now t = sim_now s" by blast
  have ks: "distinct ks" "set ks = W - {k}" using Cons.prems(2,3) by auto
  have "not_before_us (op_at ops j) \<le> sim_now t" if "j \<in> set ks" for j using Cons.prems(4) [of j] that t(4) by simp
  from Cons.IH [OF t(2) ks this] t show ?case by auto
qed simp

text \<open>The events at the current time: nothing happens unless something is due, and then some operation moves on.\<close>

lemma released_Nil: "released s = [] \<longleftrightarrow> takeWhile (\<lambda>e. fst e \<le> sim_now s) (sim_releases s) = []"
proof -
  have "length (released s) = length (takeWhile (\<lambda>e. fst e \<le> sim_now s) (sim_releases s))" by (simp add: released_def)
  then show ?thesis by (metis length_0_conv)
qed

lemma due_iff:
  assumes "run_inv ops m P {} {} s"
  shows "due s \<longleftrightarrow> started_up s \<noteq> [] \<or> released s \<noteq> []"
proof -
  have wf: "wf_dict (sim_startup s)" using assms by (simp add: run_inv_def placed_def)
  have "started_up s \<noteq> [] \<longleftrightarrow> (\<exists>k\<in>fst ` set (sim_startup s). dict_get (sim_startup s) k 0 \<le> sim_now s)" by (auto simp: started_up_def filter_empty_conv)
  also have "\<dots> \<longleftrightarrow> (\<exists>p\<in>set (sim_startup s). dict_get (sim_startup s) (fst p) 0 \<le> sim_now s)" by blast
  also have "\<dots> \<longleftrightarrow> (\<exists>(_, t)\<in>set (sim_startup s). t \<le> sim_now s)" using wf by (intro bex_cong) (auto simp: dict_get_def)
  finally have a: "started_up s \<noteq> [] \<longleftrightarrow> (\<exists>(_, t)\<in>set (sim_startup s). t \<le> sim_now s)" .
  have "released s \<noteq> [] \<longleftrightarrow> (\<exists>e\<in>set (take 1 (sim_releases s)). fst e \<le> sim_now s)"
    unfolding released_Nil by (cases "sim_releases s") auto
  with a show ?thesis by (simp add: due_def)
qed

lemma settle_keeps:
  fixes s :: sim
  defines "t \<equiv> foldl finish_startup s (started_up s)"
  assumes set: "replay_setting ops successors costs m P" and i: "run_inv ops m P {} {} s"
  shows "\<exists>s'. for_each (launch ops successors costs profs) (t\<lparr>sim_releases := dropWhile (\<lambda>e. fst e \<le> sim_now t) (sim_releases t)\<rparr>) (released t) = Inr s'
    \<and> run_inv ops m P {} {} s' \<and> sim_now s' = sim_now s \<and> (if due s then work_left s' < work_left s else s' = s)"
proof -
  have wf: "wf_dict (sim_startup s)" using i by (simp add: run_inv_def placed_def)
  have st: "distinct (started_up s)" "set (started_up s) \<subseteq> waiting s" using wf by (auto simp: started_up_def keyset_def)
  note t = finish_startups_keep [OF st i, folded t_def]
  then have it: "run_inv ops m P {} {} t" by simp
  note pop = pop_keeps [OF it]
  let ?u = "t\<lparr>sim_releases := dropWhile (\<lambda>e. fst e \<le> sim_now t) (sim_releases t)\<rparr>"
  have "\<exists>s'. for_each (launch ops successors costs profs) ?u (released t) = Inr s' \<and> run_inv ops m P {} {} s' \<and> work_left s' + length (released t) \<le> work_left ?u \<and> sim_now s' = sim_now ?u"
    by (rule launches_keep [OF set pop(1,2) refl]) (simp add: pop(3))
  then obtain s' where s': "for_each (launch ops successors costs profs) ?u (released t) = Inr s'" "run_inv ops m P {} {} s'" "work_left s' + length (released t) \<le> work_left ?u" "sim_now s' = sim_now t" by auto
  have same: "released t = released s" using t by (simp add: released_def)
  have "work_left ?u = work_left t" by (simp add: work_left_def)
  then have "if due s then work_left s' < work_left s else s' = s"
  proof (cases "due s")
    case True
    then have "0 < length (started_up s) + length (released t)" using due_iff [OF i] same by auto
    moreover have "work_left t + length (started_up s) = work_left s" using t by blast
    ultimately have "work_left s' < work_left s" using s'(3) \<open>work_left ?u = work_left t\<close> by linarith
    with True show ?thesis by simp
  next
    case False
    then have e: "started_up s = []" "released s = []" using due_iff [OF i] by auto
    then have ts: "t = s" by (simp add: t_def)
    have "takeWhile (\<lambda>e. fst e \<le> sim_now s) (sim_releases s) = []" using e(2) by (simp add: released_Nil)
    then have "dropWhile (\<lambda>e. fst e \<le> sim_now s) (sim_releases s) = sim_releases s" using takeWhile_dropWhile_id by (metis append_Nil)
    with s'(1) ts e(2) have "s' = s" by simp
    with False show ?thesis by simp
  qed
  with s' t show ?thesis by auto
qed

end
