(* ===== verification/Prediction_Loop.thy ===== *)
theory Prediction_Loop
  imports Prediction_Run
begin

text \<open>
  The step of the prediction between two event times, and the loop: it always ends, and its final state satisfies the invariant with every available operation ended.
\<close>

section \<open>Progress to the next event\<close>

abbreviation rate_at :: "rate_table \<Rightarrow> string \<Rightarrow> rat" where
  "rate_at rt k \<equiv> dict_get (rt_rates rt) k 0"

abbreviation new_segment :: "rate_table \<Rightarrow> sim \<Rightarrow> rat \<Rightarrow> string \<Rightarrow> progress_segment" where
  "new_segment rt s t k \<equiv> \<lparr>seg_op = k, seg_start = sim_now s, seg_end = t, seg_rate = rate_at rt k, seg_source = dict_get (rt_sources rt) k ''''\<rparr>"

lemma progress_all:
  "distinct ks \<Longrightarrow> \<exists>rem. foldl (progress rt t) s ks = s\<lparr>sim_segments := sim_segments s @ map (new_segment rt s t) ks, sim_remaining := rem\<rparr>
    \<and> (\<forall>k. dict_get rem k 0 = (if k \<in> set ks then max 0 (left_of s k - rate_at rt k * (t - sim_now s)) else left_of s k))"
proof (induction ks arbitrary: s)
  case Nil
  have "s = s\<lparr>sim_segments := sim_segments s @ map (new_segment rt s t) [], sim_remaining := sim_remaining s\<rparr>" by simp
  then show ?case by (intro exI [of _ "sim_remaining s"]) simp
next
  case (Cons k ks)
  let ?s = "progress rt t s k"
  have "distinct ks" "k \<notin> set ks" using Cons.prems by auto
  then obtain rem where "foldl (progress rt t) ?s ks = ?s\<lparr>sim_segments := sim_segments ?s @ map (new_segment rt ?s t) ks, sim_remaining := rem\<rparr>"
    "\<forall>j. dict_get rem j 0 = (if j \<in> set ks then max 0 (left_of ?s j - rate_at rt j * (t - sim_now ?s)) else left_of ?s j)" using Cons.IH by blast
  moreover have "left_of ?s j = (if j = k then max 0 (left_of s k - rate_at rt k * (t - sim_now s)) else left_of s j)" "sim_now ?s = sim_now s"
    "?s\<lparr>sim_segments := sim_segments ?s @ map (new_segment rt ?s t) ks, sim_remaining := rem\<rparr> = s\<lparr>sim_segments := sim_segments s @ map (new_segment rt s t) (k # ks), sim_remaining := rem\<rparr>" for j
    by (simp_all add: progress_def)
  ultimately show ?case using \<open>k \<notin> set ks\<close> by (intro exI [of _ rem]) auto
qed

text \<open>The operations that finish leave the active set one by one; it is the same to take them all out first.\<close>

lemma complete_frame: "complete_op ops successors (s\<lparr>sim_active := A\<rparr>) key = (complete_op ops successors s key)\<lparr>sim_active := A\<rparr>"
proof -
  have "foldl (complete_follower ops) (t\<lparr>sim_active := A\<rparr>) fs = (foldl (complete_follower ops) t fs)\<lparr>sim_active := A\<rparr>" for t fs
  proof (induction fs arbitrary: t)
    case (Cons f fs)
    have "complete_follower ops (t\<lparr>sim_active := A\<rparr>) f = (complete_follower ops t f)\<lparr>sim_active := A\<rparr>" by (simp add: complete_follower_def Let_def)
    then show ?case using Cons.IH by simp
  qed simp
  moreover have "note_event ''complete'' key (s\<lparr>sim_active := A, sim_ends := AList.update key (sim_now s) (sim_ends s)\<rparr>)
    = (note_event ''complete'' key (s\<lparr>sim_ends := AList.update key (sim_now s) (sim_ends s)\<rparr>))\<lparr>sim_active := A\<rparr>" by (simp add: note_event_def)
  ultimately show ?thesis by (simp add: complete_op_def)
qed

lemma foldl_complete_frame: "foldl (complete_op ops successors) (s\<lparr>sim_active := A\<rparr>) ks = (foldl (complete_op ops successors) s ks)\<lparr>sim_active := A\<rparr>"
  by (induction ks arbitrary: s) (simp_all add: complete_frame)

lemma finish_all:
  "foldl (finish_active ops successors) s ks = (foldl (complete_op ops successors) s ks)\<lparr>sim_active := sim_active s - set ks\<rparr>"
proof (induction ks arbitrary: s)
  case (Cons k ks)
  have "sim_active s - {k} - set ks = sim_active s - insert k (set ks)" by blast
  then show ?case using Cons.IH [of "finish_active ops successors s k"] by (simp add: finish_active_def complete_frame foldl_complete_frame)
qed simp

lemma complete_all_keep:
  assumes g: "loop_graph (dict_keys ops) (deps_at ops) successors" and sub: "P \<subseteq> set (dict_keys ops)"
  shows "distinct ks \<Longrightarrow> run_inv ops m P W (set ks) s \<Longrightarrow> run_inv ops m P W {} (foldl (complete_op ops successors) s ks)
    \<and> work_left (foldl (complete_op ops successors) s ks) = work_left s \<and> sim_now (foldl (complete_op ops successors) s ks) = sim_now s"
proof (induction ks arbitrary: s)
  case (Cons k ks)
  have i: "run_inv ops m P W (insert k (set ks)) s" "k \<notin> set ks" using Cons.prems by auto
  note c = complete_keeps [OF g sub i]
  from Cons.IH [OF _ c(1)] Cons.prems(1) c(2,3) show ?case by simp
qed simp

lemma moved_append: "moved (xs @ ys) k = moved xs k + moved ys k"
  by (simp add: moved_def)

lemma moved_new: "distinct ks \<Longrightarrow> moved (map (new_segment rt s t) ks) k = (if k \<in> set ks then rate_at rt k * (t - sim_now s) else 0)"
  by (induction ks) (auto simp: moved_def)

lemma load_append: "load ops (xs @ ys) r x = load ops xs r x + load ops ys r x"
  by (simp add: load_def)

lemma load_new:
  "load ops (map (new_segment rt s t) ks) r x =
    (if sim_now s \<le> x \<and> x < t then sum_list (map (rate_at rt) (filter (\<lambda>k. r \<in> set (work_resources (op_at ops k))) ks)) else 0)"
  by (induction ks) (auto simp: load_def)

lemma load_future:
  assumes "\<And>g. g \<in> set segs \<Longrightarrow> seg_end g \<le> n" "n \<le> x"
  shows "load ops segs r x = 0"
proof -
  have "filter (\<lambda>g. seg_start g \<le> x \<and> x < seg_end g \<and> r \<in> set (work_resources (op_at ops (seg_op g)))) segs = []"
    using assms by (fastforce simp: filter_empty_conv)
  then show ?thesis by (simp add: load_def)
qed

lemma capacity_nonneg: "priced costs m \<Longrightarrow> 0 \<le> dict_get (model_resources m) r 0"
  by (auto simp: priced_def dict_get_def split: option.splits dest!: map_of_SomeD)

definition acting :: "operations \<Rightarrow> sim \<Rightarrow> work_operation list" where
  "acting ops s = map (op_at ops) (sorted_list_of_set (sim_active s))"

definition stepped :: "rate_table \<Rightarrow> (string, rat) dict \<Rightarrow> rat \<Rightarrow> sim \<Rightarrow> sim" where
  "stepped rt rem t s = s\<lparr>sim_segments := sim_segments s @ map (new_segment rt s t) (sorted_list_of_set (sim_active s)), sim_remaining := rem, sim_now := t,
     sim_active := sim_active s - {k \<in> sim_active s. finish_time rt s k = t}\<rparr>"

lemma fair_at:
  assumes set: "replay_setting ops successors costs m P" and i: "run_inv ops m P {} {} s" and fair: "fair_rates m (acting ops s) rt"
  shows "k \<in> sim_active s \<Longrightarrow> 0 < rate_at rt k"
    "sum_list (map (rate_at rt) (filter (\<lambda>k. r \<in> set (work_resources (op_at ops k))) (sorted_list_of_set (sim_active s)))) \<le> dict_get (model_resources m) r 0"
proof -
  note ph = placed_phases [OF i [unfolded run_inv_def, THEN conjunct1]]
  let ?ks = "sorted_list_of_set (sim_active s)"
  have ks: "set ?ks = sim_active s" using ph(8) by simp
  have ident: "rate_of rt (op_at ops k) = rate_at rt k" if "k \<in> sim_active s" for k using setting_op(1) [OF set, of k] ph(4) that by auto
  show "k \<in> sim_active s \<Longrightarrow> 0 < rate_at rt k" using fair ident ks by (fastforce simp: fair_rates_def acting_def)
  show "sum_list (map (rate_at rt) (filter (\<lambda>k. r \<in> set (work_resources (op_at ops k))) ?ks)) \<le> dict_get (model_resources m) r 0" (is "sum_list (map _ ?us) \<le> _")
  proof (cases "r \<in> group_resources (acting ops s)")
    case True
    have "users r (acting ops s) = map (op_at ops) ?us" by (simp add: acting_def filter_map comp_def)
    then have "map (rate_of rt) (users r (acting ops s)) = map (rate_at rt) ?us" using ident ks by auto
    then show ?thesis using fair True by (auto simp: fair_rates_def)
  next
    case False
    then have "?us = []" using ks by (auto simp: filter_empty_conv group_resources_def acting_def)
    moreover have "priced costs m" using set by (simp add: replay_setting_def)
    ultimately show ?thesis using capacity_nonneg by simp
  qed
qed

lemma stepped_placed:
  assumes "run_inv ops m P {} {} s"
  shows "placed ops P {} {k \<in> sim_active s. finish_time rt s k = t} (stepped rt rem t s)"
proof -
  let ?F = "{k \<in> sim_active s. finish_time rt s k = t}"
  have p: "placed ops P {} {} s" using assms by (simp add: run_inv_def)
  then have "phases P [sim_pending s, waiting s, sim_active s - ?F, ?F, ended s]" by (intro phases_moves(4)) (auto simp: placed_def)
  with p show ?thesis by (simp add: stepped_def placed_def released_keys_def)
qed

lemma stepped_timed:
  assumes i: "run_inv ops m P {} {} s" and t: "sim_now s < t" "\<And>x. x \<in> future_times rt s \<Longrightarrow> t \<le> x"
  shows "timed ops P (stepped rt rem t s)"
proof -
  have p: "placed ops P {} {} s" and u: "timed ops P s" using i by (auto simp: run_inv_def)
  have "t \<le> ready_time ops (sim_ends s) k" if k: "k \<in> released_keys ops s" for k
  proof -
    have "k \<in> snd ` set (sim_releases s)" using p k by (simp add: placed_def)
    then obtain e where e: "e \<in> set (sim_releases s)" "snd e = k" by blast
    then obtain h hs where h: "sim_releases s = h # hs" by (cases "sim_releases s") auto
    have "fst h \<in> future_times rt s" by (simp add: future_times_def h)
    then have "t \<le> fst h" by (rule t(2))
    also have "\<dots> \<le> fst e"
    proof -
      have "h \<le> e" using p e(1) by (auto simp: placed_def h)
      then show ?thesis by (auto simp: less_eq_prod_def)
    qed
    also have "\<dots> = not_before_us (op_at ops k)" using p e by (auto simp: placed_def)
    finally show ?thesis using ready_time_bounds(1) by (rule order_trans)
  qed
  moreover have "released_keys ops (stepped rt rem t s) = released_keys ops s" by (simp add: released_keys_def stepped_def)
  moreover have "sim_pending (stepped rt rem t s) = sim_pending s" "sim_ends (stepped rt rem t s) = sim_ends s" "sim_starts (stepped rt rem t s) = sim_starts s" "sim_now (stepped rt rem t s) = t"
    by (simp_all add: stepped_def)
  moreover have "x \<le> t" if "x \<le> sim_now s" for x using that t(1) by simp
  ultimately show ?thesis using u unfolding timed_def by simp
qed

lemma stepped_flowing:
  assumes set: "replay_setting ops successors costs m P" and i: "run_inv ops m P {} {} s" and fair: "fair_rates m (acting ops s) rt"
    and t: "sim_now s < t" "\<And>x. x \<in> future_times rt s \<Longrightarrow> t \<le> x"
    and rem: "\<And>k. dict_get rem k 0 = (if k \<in> sim_active s then max 0 (left_of s k - rate_at rt k * (t - sim_now s)) else left_of s k)"
  shows "flowing ops {k \<in> sim_active s. finish_time rt s k = t} (stepped rt rem t s)"
proof -
  let ?F = "{k \<in> sim_active s. finish_time rt s k = t}" and ?ks = "sorted_list_of_set (sim_active s)" and ?v = "stepped rt rem t s"
  have p: "placed ops P {} {} s" and u: "timed ops P s" and f: "flowing ops {} s" using i by (auto simp: run_inv_def)
  note ph = placed_phases [OF p]
  have ks: "set ?ks = sim_active s" "distinct ?ks" using ph(8) by auto
  have left: "0 \<le> left_of s k - rate_at rt k * (t - sim_now s)" "left_of s k - rate_at rt k * (t - sim_now s) = 0 \<longleftrightarrow> k \<in> ?F" if k: "k \<in> sim_active s" for k
  proof -
    have r: "0 < rate_at rt k" by (rule fair_at(1) [OF set i fair k])
    have "t \<le> finish_time rt s k" using k by (intro t(2)) (simp add: future_times_def)
    then show "0 \<le> left_of s k - rate_at rt k * (t - sim_now s)" using r by (simp add: finish_time_def field_simps)
    show "left_of s k - rate_at rt k * (t - sim_now s) = 0 \<longleftrightarrow> k \<in> ?F" using r k by (auto simp: finish_time_def field_simps)
  qed
  have seg: "moved (sim_segments ?v) k = moved (sim_segments s) k + (if k \<in> sim_active s then rate_at rt k * (t - sim_now s) else 0)" for k
    using ks by (simp add: stepped_def moved_append moved_new)
  have v: "waiting ?v = waiting s" "sim_active ?v = sim_active s - ?F" "ended ?v = ended s" "sim_ends ?v = sim_ends s" "sim_now ?v = t" "left_of ?v k = dict_get rem k 0" for k by (simp_all add: stepped_def)
  have nw: "k \<notin> sim_active s" if "k \<in> waiting s \<union> ended s" for k using ph(10,11) that by blast
  have "0 < left_of ?v k \<and> work_kind (op_at ops k) \<noteq> ''nop''" if k: "k \<in> waiting s \<union> (sim_active s - ?F)" for k
  proof (cases "k \<in> sim_active s")
    case True
    then show ?thesis using k left [OF True] f nw unfolding v rem flowing_def by (auto simp: less_le)
  next
    case False
    then show ?thesis using k f unfolding v rem flowing_def by auto
  qed
  moreover have "left_of ?v k + moved (sim_segments ?v) k = of_int (payload_bytes (op_at ops k))"
    if k: "k \<in> waiting s \<union> (sim_active s - ?F) \<union> ?F \<union> ended s" "work_kind (op_at ops k) \<noteq> ''nop''" for k
  proof -
    have "left_of s k + moved (sim_segments s) k = of_int (payload_bytes (op_at ops k))" using k f unfolding flowing_def by blast
    then show ?thesis using left(1) [of k] unfolding v rem seg by (auto simp: max_def)
  qed
  moreover have "left_of ?v k = 0" if "k \<in> ?F \<union> ended s" "work_kind (op_at ops k) \<noteq> ''nop''" for k
  proof (cases "k \<in> sim_active s")
    case True
    then show ?thesis using that left(2) [OF True] nw unfolding v rem by auto
  next
    case False
    then show ?thesis using that f unfolding v rem flowing_def by auto
  qed
  moreover have "seg_op g \<in> sim_active s - ?F \<union> ?F \<union> ended s \<and> ready_time ops (sim_ends s) (seg_op g) \<le> seg_start g \<and> seg_start g < seg_end g \<and> seg_end g \<le> t
      \<and> (seg_op g \<in> ended s \<longrightarrow> seg_end g \<le> end_of s (seg_op g))" if g: "g \<in> set (sim_segments ?v)" for g
  proof (cases "g \<in> set (sim_segments s)")
    case True
    then show ?thesis using f t(1) unfolding flowing_def by fastforce
  next
    case False
    then obtain k where k: "g = new_segment rt s t k" "k \<in> sim_active s" using g ks(1) by (auto simp: stepped_def)
    then have "ready_time ops (sim_ends s) k \<le> sim_now s" using u ph(4,9) by (auto simp: timed_def)
    then show ?thesis using k t(1) nw by auto
  qed
  ultimately show ?thesis unfolding flowing_def v by blast
qed

lemma stepped_capped:
  assumes set: "replay_setting ops successors costs m P" and i: "run_inv ops m P {} {} s" and fair: "fair_rates m (acting ops s) rt"
  shows "capped ops m (stepped rt rem t s)"
proof -
  have past: "seg_end g \<le> sim_now s" if "g \<in> set (sim_segments s)" for g using i that by (simp add: run_inv_def flowing_def)
  have "load ops (sim_segments (stepped rt rem t s)) r x \<le> dict_get (model_resources m) r 0" for r x
  proof (cases "sim_now s \<le> x \<and> x < t")
    case True
    then show ?thesis using load_future [OF past] fair_at(2) [OF set i fair] by (simp add: stepped_def load_append load_new)
  next
    case False
    then show ?thesis using i by (auto simp: stepped_def load_append load_new run_inv_def capped_def)
  qed
  then show ?thesis by (simp add: capped_def)
qed

lemma next_event:
  assumes set: "replay_setting ops successors costs m P" and i: "run_inv ops m P {} {} s" and fair: "fair_rates m (acting ops s) rt" and nd: "\<not> due s"
  shows "finite (future_times rt s)" "x \<in> future_times rt s \<Longrightarrow> sim_now s < x"
proof -
  note ph = placed_phases [OF i [unfolded run_inv_def, THEN conjunct1]]
  show "finite (future_times rt s)" using ph(8) by (simp add: future_times_def)
  have "sim_now s < finish_time rt s k" if "k \<in> sim_active s" for k
    using fair_at(1) [OF set i fair that] i that by (simp add: run_inv_def flowing_def finish_time_def)
  then show "x \<in> future_times rt s \<Longrightarrow> sim_now s < x" using nd by (force simp: future_times_def due_def)
qed

lemma advance_keeps:
  assumes set: "replay_setting ops successors costs m P" and i: "run_inv ops m P {} {} s" and fair: "fair_rates m (acting ops s) rt" and nd: "\<not> due s"
    and ne: "future_times rt s \<noteq> {}"
  shows "\<exists>s'. advance_time ops successors rt s = Inr s' \<and> run_inv ops m P {} {} s' \<and> (work_left s' < work_left s \<or> work_left s' = work_left s \<and> due s')"
proof -
  let ?t = "Min (future_times rt s)" and ?ks = "sorted_list_of_set (sim_active s)"
  let ?F = "{k \<in> sim_active s. finish_time rt s k = ?t}" and ?fs = "filter (\<lambda>k. finish_time rt s k = ?t) ?ks"
  note ev = next_event [OF set i fair nd]
  have t: "sim_now s < ?t" "\<And>x. x \<in> future_times rt s \<Longrightarrow> ?t \<le> x" using ev ne by (auto simp: Min_in)
  have fin: "finite (sim_active s)" using placed_phases(8) i unfolding run_inv_def by blast
  then have ks: "distinct ?ks" "set ?ks = sim_active s" "set ?fs = ?F" "distinct ?fs" by auto
  from progress_all [OF ks(1), of rt ?t s] obtain rem where rem: "foldl (progress rt ?t) s ?ks = s\<lparr>sim_segments := sim_segments s @ map (new_segment rt s ?t) ?ks, sim_remaining := rem\<rparr>"
    "\<And>k. dict_get rem k 0 = (if k \<in> sim_active s then max 0 (left_of s k - rate_at rt k * (?t - sim_now s)) else left_of s k)" unfolding ks(2) by blast
  let ?v = "stepped rt rem ?t s" and ?p = "foldl (progress rt ?t) s ?ks"
  have iv: "run_inv ops m P {} (set ?fs) ?v" unfolding ks(3) run_inv_def
    using stepped_placed [OF i] stepped_timed [OF i t] stepped_flowing [OF set i fair t rem(2)] stepped_capped [OF set i fair] by blast
  have g: "loop_graph (dict_keys ops) (deps_at ops) successors" "P \<subseteq> set (dict_keys ops)" using set by (auto simp: replay_setting_def)
  let ?s' = "foldl (complete_op ops successors) ?v ?fs"
  note c = complete_all_keep [OF g ks(4) iv]
  have "?v = ?p\<lparr>sim_now := ?t, sim_active := sim_active s - ?F\<rparr>" unfolding rem(1) by (simp add: stepped_def)
  then have "?s' = foldl (finish_active ops successors) (?p\<lparr>sim_now := ?t\<rparr>) ?fs"
    unfolding finish_all ks(3) using rem(1) by (simp add: foldl_complete_frame)
  then have adv: "advance_time ops successors rt s = Inr ?s'" using t(1) by (simp add: advance_time_def Let_def)
  have w: "work_left ?v + card ?F = work_left s"
  proof -
    have "card (sim_active s - ?F) + card ?F = card (sim_active s)" using fin by (metis (no_types, lifting) card_Diff_subset card_mono finite_subset le_add_diff_inverse2 mem_Collect_eq subsetI)
    then show ?thesis by (simp add: work_left_def stepped_def)
  qed
  have "due ?s'" if e: "?F = {}"
  proof -
    have "?fs = []" using e ks(3) by (metis set_empty)
    then have s': "?s' = ?v" by simp
    have "?t \<in> future_times rt s" using ev(1) ne by (rule Min_in)
    then have "?t \<in> snd ` set (sim_startup s) \<union> fst ` set (take 1 (sim_releases s))" using e by (auto simp: future_times_def)
    then show ?thesis unfolding s' by (fastforce simp: due_def stepped_def)
  qed
  moreover have "0 < card ?F" if "?F \<noteq> {}" using fin that by (simp add: card_gt_0_iff)
  ultimately have "work_left ?s' < work_left s \<or> work_left ?s' = work_left s \<and> due ?s'" using c w by (cases "?F = {}") simp_all
  then show ?thesis using adv c by blast
qed

section \<open>The loop\<close>

definition steps_left :: "sim \<Rightarrow> nat" where
  "steps_left s = 2 * work_left s + (if due s then 0 else 1)"

lemma run_inv_notes: "run_inv ops m P W X (s\<lparr>sim_used := u, sim_unmeasured := n, sim_sources := c\<rparr>) = run_inv ops m P W X s"
  "due (s\<lparr>sim_used := u, sim_unmeasured := n, sim_sources := c\<rparr>) = due s" "work_left (s\<lparr>sim_used := u, sim_unmeasured := n, sim_sources := c\<rparr>) = work_left s"
  "acting ops (s\<lparr>sim_used := u, sim_unmeasured := n, sim_sources := c\<rparr>) = acting ops s"
  by (simp_all add: run_inv_def placed_def timed_def flowing_def capped_def released_keys_def due_def work_left_def acting_def)

text \<open>When nothing can happen any more, no operation is pending: a pending operation without pending dependencies would be released.\<close>

lemma not_stalled:
  assumes set: "replay_setting ops successors costs m P" and i: "run_inv ops m P {} {} s" and e: "future_times rt s = {}"
  shows "\<not> sim_busy s"
proof -
  have p: "placed ops P {} {} s" using i by (simp add: run_inv_def)
  note ph = placed_phases [OF p]
  have none: "sim_active s = {}" "sim_startup s = []" "sim_releases s = []" using e by (auto simp: future_times_def)
  have sub: "sim_pending s \<subseteq> set (dict_keys ops)" using ph(2) set by (auto simp: replay_setting_def)
  have "wf (edges (dict_keys ops) (deps_at ops))" using set by (intro finite_acyclic_wf finite_edges) (auto simp: replay_setting_def)
  have "sim_pending s = {}"
  proof (rule ccontr)
    assume "sim_pending s \<noteq> {}"
    then obtain x where "x \<in> sim_pending s" by blast
    from wfE_min [OF \<open>wf _\<close> this] obtain k where k: "k \<in> sim_pending s" "\<And>d. (d, k) \<in> edges (dict_keys ops) (deps_at ops) \<Longrightarrow> d \<notin> sim_pending s" by blast
    have "deps_at ops k \<subseteq> P" using set k(1) ph(2) by (auto simp: replay_setting_def)
    then have "deps_at ops k \<subseteq> ended s" using k sub ph(13) none by (fastforce simp: edges_def)
    then have "k \<in> released_keys ops s" using k(1) by (simp add: released_keys_def)
    then show False using p none(3) by (simp add: placed_def)
  qed
  then show ?thesis using none by (simp add: sim_busy_def)
qed

lemma launch_profiles_Inl: "launch_profiles ops m present = Inl e \<Longrightarrow> mode_error e"
  unfolding launch_profiles_def using for_each_Inl [of "launch_profile m"] profile_for_Inl
  by (fastforce simp: launch_profile_def bnd_Inl_iff split: option.splits)

lemma rates_acting:
  assumes set: "replay_setting ops successors costs m P" and i: "run_inv ops m P {} {} s"
  shows "rates costs m u n (acting ops s) = Inl e \<Longrightarrow> mode_error e" "rates costs m u n (acting ops s) = Inr rt \<Longrightarrow> fair_rates m (acting ops s) rt"
proof -
  have p: "placed ops P {} {} s" and f: "flowing ops {} s" using i by (auto simp: run_inv_def)
  note ph = placed_phases [OF p]
  have pr: "priced costs m" using set by (simp add: replay_setting_def)
  have ks: "set (sorted_list_of_set (sim_active s)) = sim_active s" using ph(8) by simp
  have mem: "\<exists>k\<in>sim_active s. op = op_at ops k" if "op \<in> set (acting ops s)" for op using that ks by (auto simp: acting_def)
  have "supplied costs m op" if op: "op \<in> set (acting ops s)" for op using mem [OF op] f set ph(4) by (auto simp: flowing_def replay_setting_def)
  then show "rates costs m u n (acting ops s) = Inl e \<Longrightarrow> mode_error e" using rates_Inl [OF pr] by blast
  have "map work_id (acting ops s) = sorted_list_of_set (sim_active s)"
    unfolding acting_def map_map using ks setting_op(1) [OF set] ph(4) by (intro map_idI) auto
  then have "distinct (map work_id (acting ops s))" by simp
  moreover have "work_resources op = []" if "op \<in> set (acting ops s)" "\<not> is_transfer op" for op
    using mem [OF that(1)] that(2) valid_operation(3) setting_op(2) [OF set] ph(4) by blast
  ultimately show "rates costs m u n (acting ops s) = Inr rt \<Longrightarrow> fair_rates m (acting ops s) rt" using rates_fair [OF pr] by blast
qed

lemma sim_step_result:
  assumes set: "replay_setting ops successors costs m P" and i: "run_inv ops m P {} {} s"
  shows "case sim_step ops successors costs m s of Inl e \<Rightarrow> mode_error e
    | Inr (Again s') \<Rightarrow> run_inv ops m P {} {} s' \<and> steps_left s' < steps_left s
    | Inr (Stop s') \<Rightarrow> run_inv ops m P {} {} s' \<and> \<not> sim_busy s'"
proof -
  define t where "t = foldl finish_startup s (started_up s)"
  define u where "u = t\<lparr>sim_releases := dropWhile (\<lambda>e. fst e \<le> sim_now t) (sim_releases t)\<rparr>"
  have step: "sim_step ops successors costs m s = bnd (launch_profiles ops m (sim_active u \<union> set (dict_keys (sim_startup u)) \<union> set (released t))) (\<lambda>profs.
      bnd (for_each (launch ops successors costs profs) u (released t)) (\<lambda>s.
      if due s then Inr (Again s)
      else bnd (rates costs m (sim_used s) (sim_unmeasured s) (acting ops s)) (\<lambda>rt.
        let s = s\<lparr>sim_used := rt_used rt, sim_unmeasured := rt_unmeasured rt, sim_sources := sim_sources s \<union> snd ` set (rt_sources rt)\<rparr> in
        if future_times rt s = {} then
          ensure (sim_pending s = {}) (SemanticError ''executable is stalled by unresolved work'') (Inr (Stop s))
        else bnd (advance_time ops successors rt s) (\<lambda>s. Inr (Again s)))))"
    unfolding sim_step_def Let_def t_def u_def acting_def by (rule refl)
  show ?thesis
  proof (cases "launch_profiles ops m (sim_active u \<union> set (dict_keys (sim_startup u)) \<union> set (released t))")
    case (Inl e)
    then show ?thesis using launch_profiles_Inl [OF Inl] unfolding step by simp
  next
    case (Inr profs)
    from settle_keeps [OF set i, of profs] obtain s3 where s3: "for_each (launch ops successors costs profs) u (released t) = Inr s3" "run_inv ops m P {} {} s3"
      "if due s then work_left s3 < work_left s else s3 = s" unfolding t_def u_def by blast
    show ?thesis
    proof (cases "due s3")
      case True
      then show ?thesis unfolding step Inr using s3 by (auto simp: steps_left_def split: if_splits)
    next
      case nd: False
      show ?thesis
      proof (cases "rates costs m (sim_used s3) (sim_unmeasured s3) (acting ops s3)")
        case (Inl e)
        then show ?thesis using rates_acting(1) [OF set s3(2) Inl] nd unfolding step Inr by (simp add: s3(1))
      next
        case rt: (Inr rt)
        define s4 where "s4 = s3\<lparr>sim_used := rt_used rt, sim_unmeasured := rt_unmeasured rt, sim_sources := sim_sources s3 \<union> snd ` set (rt_sources rt)\<rparr>"
        have i4: "run_inv ops m P {} {} s4" "\<not> due s4" "work_left s4 = work_left s3" "fair_rates m (acting ops s4) rt"
          using s3(2) nd rates_acting(2) [OF set s3(2) rt] unfolding s4_def run_inv_notes by auto
        have st: "sim_step ops successors costs m s = (if future_times rt s4 = {} then ensure (sim_pending s4 = {}) (SemanticError ''executable is stalled by unresolved work'') (Inr (Stop s4))
            else bnd (advance_time ops successors rt s4) (\<lambda>s. Inr (Again s)))" 
          unfolding step Inr bnd_simps s3(1) if_not_P [OF nd] rt Let_def s4_def [symmetric] by (rule refl)
        show ?thesis
        proof (cases "future_times rt s4 = {}")
          case True
          have "\<not> sim_busy s4" by (rule not_stalled [OF set i4(1) True])
          then show ?thesis using i4(1) True unfolding st by (simp add: sim_busy_def)
        next
          case False
          from advance_keeps [OF set i4(1,4,2) False] obtain s5 where s5: "advance_time ops successors rt s4 = Inr s5" "run_inv ops m P {} {} s5"
            "work_left s5 < work_left s4 \<or> work_left s5 = work_left s4 \<and> due s5" by blast
          have "steps_left s5 < steps_left s" using s5(3) s3(3) i4(3) nd by (auto simp: steps_left_def split: if_splits)
          then show ?thesis using s5 False unfolding st by simp
        qed
      qed
    qed
  qed
qed

lemma sim_loop_returns:
  assumes set: "replay_setting ops successors costs m P"
  shows "run_inv ops m P {} {} s \<Longrightarrow> \<exists>r. sim_loop ops successors costs m s = Some r
    \<and> (case r of Inl e \<Rightarrow> mode_error e | Inr s' \<Rightarrow> run_inv ops m P {} {} s' \<and> \<not> sim_busy s')"
proof (induction "steps_left s" arbitrary: s rule: less_induct)
  case less
  note step = sim_step_result [OF set less.prems]
  show ?case
  proof (cases "sim_busy s")
    case False
    then show ?thesis using less.prems by (simp add: sim_loop.simps [of ops successors costs m s])
  next
    case True
    show ?thesis
    proof (cases "sim_step ops successors costs m s")
      case (Inl e)
      then show ?thesis using True step by (simp add: sim_loop.simps [of ops successors costs m s])
    next
      case (Inr o')
      show ?thesis
      proof (cases o')
        case (Again s')
        then have "run_inv ops m P {} {} s'" "steps_left s' < steps_left s" using Inr step by auto
        from less.hyps [OF this(2,1)] show ?thesis using True Inr Again by (simp add: sim_loop.simps [of ops successors costs m s])
      next
        case (Stop s')
        then show ?thesis using True Inr step by (simp add: sim_loop.simps [of ops successors costs m s])
      qed
    qed
  qed
qed

end
