(* ===== verification/Prediction_Correct.thy ===== *)
theory Prediction_Correct
  imports Prediction_Loop
begin

text \<open>
  The prediction of a constructed executable with a constructed cost model: the work that the model cannot price is exactly the work that depends on, or shares a resource with,
  work without a cost; the prediction of the rest always ends, starts every operation when it is ready, moves its bytes and keeps every capacity.
\<close>

section \<open>Constructed values\<close>

definition constructed_executable :: "executable \<Rightarrow> bool" where
  "constructed_executable ex \<longleftrightarrow> (\<exists>outs. executable_post_init (exec_operations ex) outs = Inr ex) \<and> (\<forall>op\<in>set (exec_operations ex). work_operation_post_init op = Inr op)"

definition constructed_model :: "(string \<Rightarrow> bool option) \<Rightarrow> cost_model \<Rightarrow> bool" where
  "constructed_model isoparse m \<longleftrightarrow> (\<exists>m0. cost_model_post_init m0 = Inr m)
     \<and> (\<forall>(_, cs)\<in>set (services m). \<forall>c\<in>set cs. \<exists>c0. service_cost_post_init isoparse c0 = Inr c) \<and> (\<forall>p\<in>set (profiles m). \<exists>p0. rate_profile_post_init isoparse p0 = Inr p)"

lemma finite_value_Inr [res_simps]: "finite_value v name strict = Inr w \<longleftrightarrow> w = v \<and> 0 \<le> v \<and> (strict \<longrightarrow> 0 < v)"
  by (auto simp: finite_value_def res_simps)

lemma service_cost_valid: "service_cost_post_init isoparse c0 = Inr c \<Longrightarrow> 0 \<le> alpha_cost c \<and> 0 < beta_cost c"
  by (auto simp: service_cost_post_init_def res_simps)

lemma rate_profile_valid:
  assumes "rate_profile_post_init isoparse p0 = Inr p"
  shows "set (dict_keys (profile_rates p)) = set (profile_mode p)" "(k, v) \<in> set (profile_rates p) \<Longrightarrow> 0 < v" "(k, v) \<in> set (profile_startup_us p) \<Longrightarrow> 0 \<le> v"
proof -
  have a: "set (dict_keys (profile_rates p0)) = set (sort (profile_mode p0))" "profile_rates p = profile_rates p0" "profile_mode p = sort (profile_mode p0)" "profile_startup_us p = profile_startup_us p0"
    "check_each (\<lambda>(_, v). bnd (finite_value v ''measured rate'' True) (\<lambda>_. Inr ())) (profile_rates p0) = Inr ()"
    "check_each (\<lambda>(_, v). bnd (finite_value v ''startup'' False) (\<lambda>_. Inr ())) (profile_startup_us p0) = Inr ()"
    using assms unfolding rate_profile_post_init_def Let_def bnd_Inr_iff ensure_Inr_iff by auto
  show "set (dict_keys (profile_rates p)) = set (profile_mode p)" using a(1-3) by simp
  show "(k, v) \<in> set (profile_rates p) \<Longrightarrow> 0 < v" using a(5) unfolding a(2) by (fastforce simp: res_simps)
  show "(k, v) \<in> set (profile_startup_us p) \<Longrightarrow> 0 \<le> v" using a(6) unfolding a(4) by (fastforce simp: res_simps)
qed

lemma model_resources_positive:
  assumes "constructed_model isoparse m" "(r, v) \<in> set (model_resources m)"
  shows "0 < v"
proof -
  obtain m0 where "cost_model_post_init m0 = Inr m" using assms(1) by (auto simp: constructed_model_def)
  then have "check_each (\<lambda>(_, v). bnd (finite_value v ''resource capacity'' True) (\<lambda>_. Inr ())) (model_resources m) = Inr ()"
    by (auto simp: cost_model_post_init_def bnd_Inr_iff ensure_Inr_iff)
  then show ?thesis using assms(2) by (fastforce simp: res_simps)
qed

lemma executable_valid:
  assumes "constructed_executable ex"
  shows "distinct (map work_id (exec_operations ex))" "op \<in> set (exec_operations ex) \<Longrightarrow> set (work_dependencies op) \<subseteq> work_id ` set (exec_operations ex)"
    "op \<in> set (exec_operations ex) \<Longrightarrow> distinct (work_dependencies op)" "set (output_operations ex) \<subseteq> work_id ` set (exec_operations ex)"
proof -
  obtain outs where o: "executable_post_init (exec_operations ex) outs = Inr ex" and v: "\<And>op. op \<in> set (exec_operations ex) \<Longrightarrow> work_operation_post_init op = Inr op"
    using assms by (auto simp: constructed_executable_def)
  have "card (set (map work_id (exec_operations ex))) = length (map work_id (exec_operations ex))" using o by (simp add: executable_post_init_def res_simps Let_def)
  then show "distinct (map work_id (exec_operations ex))" by (rule card_distinct)
  show "op \<in> set (exec_operations ex) \<Longrightarrow> set (work_dependencies op) \<subseteq> work_id ` set (exec_operations ex)" using o by (auto simp: executable_post_init_def res_simps Let_def)
  show "op \<in> set (exec_operations ex) \<Longrightarrow> distinct (work_dependencies op)" using v [of op] by (simp add: work_operation_post_init_def ensure_Inr_iff)
  define os where "os = (case outs of None \<Rightarrow> sorted_list_of_set (set (map work_id (exec_operations ex))) | Some os \<Rightarrow> os)"
  have "set os \<subseteq> set (map work_id (exec_operations ex))" "\<lparr>exec_operations = exec_operations ex, output_operations = sort os\<rparr> = ex"
    using o unfolding executable_post_init_def Let_def ensure_Inr_iff os_def [symmetric] by simp_all
  then show "set (output_operations ex) \<subseteq> work_id ` set (exec_operations ex)" by (metis executable.select_convs(2) set_map set_sort)
qed

abbreviation op_table :: "work_operation list \<Rightarrow> operations" where
  "op_table ws \<equiv> map (\<lambda>op. (work_id op, op)) ws"

lemma op_at_table:
  assumes "distinct (map work_id ws)" "op \<in> set ws"
  shows "op_at (op_table ws) (work_id op) = op"
proof -
  have "map_of (op_table ws) (work_id op) = Some op" using assms by (intro map_of_is_SomeI) (auto simp: comp_def)
  then show ?thesis by simp
qed

section \<open>The dependency order\<close>

lemma add_followers:
  "distinct ds \<Longrightarrow> set ds \<subseteq> keyset succs \<Longrightarrow> \<exists>succs'. for_each (add_follower key) succs ds = Inr succs' \<and> keyset succs' = keyset succs
    \<and> (\<forall>d. dict_get succs' d [] = dict_get succs d [] @ (if d \<in> set ds then [key] else []))"
proof (induction ds arbitrary: succs)
  case (Cons d ds)
  then obtain fs where fs: "map_of succs d = Some fs" by (auto simp: keyset_Some)
  let ?s = "AList.update d (fs @ [key]) succs"
  have k: "keyset ?s = keyset succs" using Cons.prems(2) by auto
  from Cons.IH [of ?s] Cons.prems obtain t where "for_each (add_follower key) ?s ds = Inr t" "keyset t = keyset ?s"
    "\<forall>d'. dict_get t d' [] = dict_get ?s d' [] @ (if d' \<in> set ds then [key] else [])" unfolding k by auto
  moreover have "add_follower key succs d = Inr ?s" "dict_get succs d [] = fs" using fs by (simp_all add: add_follower_def dict_item_def dict_get_Some)
  ultimately show ?case using Cons.prems(1) unfolding k by (intro exI [of _ t]) auto
qed simp

lemma work_successors_run:
  "(\<And>op. op \<in> set ws \<Longrightarrow> distinct (work_dependencies op) \<and> set (work_dependencies op) \<subseteq> keyset succs) \<Longrightarrow>
    \<exists>succs'. for_each (\<lambda>succs op. for_each (add_follower (work_id op)) succs (work_dependencies op)) succs ws = Inr succs'
    \<and> (\<forall>d. dict_get succs' d [] = dict_get succs d [] @ map work_id (filter (\<lambda>op. d \<in> set (work_dependencies op)) ws))"
proof (induction ws arbitrary: succs)
  case (Cons op ws)
  have "distinct (work_dependencies op)" "set (work_dependencies op) \<subseteq> keyset succs" using Cons.prems [of op] by auto
  from add_followers [OF this, of "work_id op"] obtain t where t: "for_each (add_follower (work_id op)) succs (work_dependencies op) = Inr t" "keyset t = keyset succs"
    "\<forall>d. dict_get t d [] = dict_get succs d [] @ (if d \<in> set (work_dependencies op) then [work_id op] else [])" by blast
  from Cons.IH [of t] Cons.prems t show ?case by auto
qed simp

lemma work_graph:
  assumes "constructed_executable ex"
  shows "\<exists>succs. work_successors (exec_operations ex) = Inr succs \<and> loop_graph (dict_keys (op_table (exec_operations ex))) (deps_at (op_table (exec_operations ex))) succs"
proof -
  let ?ws = "exec_operations ex" and ?s0 = "map (\<lambda>op. (work_id op, [])) (exec_operations ex)"
  note v = executable_valid [OF assms]
  have k: "keyset ?s0 = work_id ` set ?ws" by (auto simp: keyset_def image_image)
  have "\<exists>succs. for_each (\<lambda>succs op. for_each (add_follower (work_id op)) succs (work_dependencies op)) ?s0 ?ws = Inr succs
    \<and> (\<forall>d. dict_get succs d [] = dict_get ?s0 d [] @ map work_id (filter (\<lambda>op. d \<in> set (work_dependencies op)) ?ws))"
    by (rule work_successors_run) (use v(2,3) in \<open>simp add: k\<close>)
  then obtain succs where s: "work_successors ?ws = Inr succs" "\<And>d. dict_get succs d [] = dict_get ?s0 d [] @ map work_id (filter (\<lambda>op. d \<in> set (work_dependencies op)) ?ws)"
    unfolding work_successors_def by blast
  have at: "op_at (op_table ?ws) (work_id op) = op" if "op \<in> set ?ws" for op by (rule op_at_table [OF v(1) that])
  have "dict_get ?s0 d [] = []" for d by (auto simp: dict_get_def split: option.splits dest!: map_of_SomeD)
  moreover have "filter (\<lambda>k. d \<in> deps_at (op_table ?ws) k) (map work_id ?ws) = map work_id (filter (\<lambda>op. d \<in> set (work_dependencies op)) ?ws)" for d
    unfolding filter_map comp_def using at by (intro arg_cong [where f = "map work_id"] filter_cong) auto
  ultimately have "dict_get succs d [] = filter (\<lambda>k. d \<in> deps_at (op_table ?ws) k) (dict_keys (op_table ?ws))" for d using s(2) by (simp add: comp_def)
  then have "loop_graph (dict_keys (op_table ?ws)) (deps_at (op_table ?ws)) succs" using v at by (auto simp: loop_graph_def comp_def)
  with s(1) show ?thesis by blast
qed

lemma acyclic_work_result:
  assumes "constructed_executable ex"
  shows "\<exists>r. acyclic_work (exec_operations ex) = Some r \<and> (case r of Inl e \<Rightarrow> e = SemanticError ''executable dependency cycle''
    | Inr succs \<Rightarrow> loop_graph (dict_keys (op_table (exec_operations ex))) (deps_at (op_table (exec_operations ex))) succs
        \<and> acyclic (edges (dict_keys (op_table (exec_operations ex))) (deps_at (op_table (exec_operations ex)))))"
proof -
  let ?ws = "exec_operations ex" and ?O = "op_table (exec_operations ex)"
  let ?K = "dict_keys ?O" and ?D = "deps_at ?O" and ?deg = "work_degrees ?ws"
  let ?q = "map fst (filter (\<lambda>(_, n). n = 0) ?deg)"
  note v = executable_valid [OF assms]
  obtain succs where s: "work_successors ?ws = Inr succs" "loop_graph ?K ?D succs" using work_graph [OF assms] by blast
  have at: "op_at ?O (work_id op) = op" if "op \<in> set ?ws" for op by (rule op_at_table [OF v(1) that])
  have K: "?K = map work_id ?ws" by (simp add: comp_def)
  have deg: "map_of ?deg k = Some (int (card (?D k)))" if k: "k \<in> set ?K" for k
  proof -
    obtain op where op: "op \<in> set ?ws" "k = work_id op" using k by auto
    have "map_of ?deg (work_id op) = Some (int (length (work_dependencies op)))" using v(1) op(1) unfolding work_degrees_def by (intro map_of_is_SomeI) (auto simp: comp_def)
    then show ?thesis using op at v(3) by (simp add: distinct_card)
  qed
  have q: "?q = map work_id (filter (\<lambda>op. work_dependencies op = []) ?ws)" unfolding work_degrees_def filter_map map_map by (simp add: comp_def)
  have "ready_keys ?K ?D (set []) = work_id ` {op \<in> set ?ws. ?D (work_id op) = {}}" by (auto simp: ready_keys_def)
  also have "{op \<in> set ?ws. ?D (work_id op) = {}} = {op \<in> set ?ws. work_dependencies op = []}" using at by (intro Collect_cong) auto
  finally have ready: "set ?q = ready_keys ?K ?D (set [])" unfolding q by simp
  have "distinct ?q" unfolding q using v(1) by (simp add: distinct_map_filter)
  then have "mset ?q = mset_set (ready_keys ?K ?D (set []))" unfolding ready [symmetric] by (rule mset_set_set [symmetric])
  then have init: "deque.loop_inv ?K ?D ?deg ?q []" unfolding deque.loop_inv_def using deg by simp
  obtain order where o: "order_loop deque_pop deque_append succs ?deg ?q [] = Some (Inr order)" "set order \<subseteq> set ?K" "topological ?D order" "ready_keys ?K ?D (set order) = {}"
    using deque.loop_returns [OF s(2) init] by auto
  have len: "length order = length ?ws \<longleftrightarrow> acyclic (edges ?K ?D)" using complete_iff_acyclic [OF s(2) o(3,2,4)] by simp
  show ?thesis
  proof (cases "length order = length ?ws")
    case True
    then show ?thesis using s(2) len unfolding acyclic_work_def s(1) by (simp add: o(1))
  next
    case False
    then show ?thesis unfolding acyclic_work_def s(1) by (simp add: o(1))
  qed
qed

section \<open>Work that the model cannot price\<close>

definition lacking :: "cost_model \<Rightarrow> work_operation \<Rightarrow> bool" where
  "lacking m op \<longleftrightarrow> work_kind op \<noteq> ''nop''
     \<and> (service_for m (cost_name op) (payload_bytes op) = None \<or> \<not> set (work_resources op) \<subseteq> set (dict_keys (model_resources m)))"

text \<open>The specification: work is affected when it lacks a cost or a capacity, depends on affected work or shares a resource with it.\<close>

inductive affected :: "cost_model \<Rightarrow> work_operation list \<Rightarrow> string \<Rightarrow> bool" for m ws where
  lacks: "op \<in> set ws \<Longrightarrow> lacking m op \<Longrightarrow> affected m ws (work_id op)"
| depends: "op \<in> set ws \<Longrightarrow> d \<in> set (work_dependencies op) \<Longrightarrow> affected m ws d \<Longrightarrow> affected m ws (work_id op)"
| shares: "op \<in> set ws \<Longrightarrow> o' \<in> set ws \<Longrightarrow> affected m ws (work_id o') \<Longrightarrow> r \<in> set (work_resources op) \<Longrightarrow> r \<in> set (work_resources o') \<Longrightarrow> affected m ws (work_id op)"

definition own_cost :: "cost_model \<Rightarrow> work_operation \<Rightarrow> service_cost option" where
  "own_cost m op = map_option (\<lambda>c. case source_override op of None \<Rightarrow> c | Some src \<Rightarrow> c\<lparr>cost_source := src\<rparr>) (service_for m (cost_name op) (payload_bytes op))"

lemma find_cost_effect:
  "wc_unavailable (find_cost m wc op) = (if lacking m op then insert (work_id op) (wc_unavailable wc) else wc_unavailable wc)"
  "wc_costs (find_cost m wc op) = (if work_kind op = ''nop'' then wc_costs wc else case own_cost m op of None \<Rightarrow> wc_costs wc | Some c \<Rightarrow> AList.update (work_id op) c (wc_costs wc))"
proof -
  have e: "filter (\<lambda>r. r \<notin> set (dict_keys (model_resources m))) (work_resources op) = [] \<longleftrightarrow> set (work_resources op) \<subseteq> set (dict_keys (model_resources m))"
    by (auto simp: filter_empty_conv)
  show "wc_unavailable (find_cost m wc op) = (if lacking m op then insert (work_id op) (wc_unavailable wc) else wc_unavailable wc)"
    unfolding find_cost_def Let_def e lacking_def by (auto split: option.splits)
  show "wc_costs (find_cost m wc op) = (if work_kind op = ''nop'' then wc_costs wc else case own_cost m op of None \<Rightarrow> wc_costs wc | Some c \<Rightarrow> AList.update (work_id op) c (wc_costs wc))"
    unfolding find_cost_def Let_def own_cost_def by (auto split: option.splits)
qed

lemma find_costs:
  "distinct (map work_id ws) \<Longrightarrow> wc_unavailable (foldl (find_cost m) wc ws) = wc_unavailable wc \<union> work_id ` {op \<in> set ws. lacking m op}
    \<and> (\<forall>op\<in>set ws. work_kind op \<noteq> ''nop'' \<longrightarrow> own_cost m op \<noteq> None \<longrightarrow> map_of (wc_costs (foldl (find_cost m) wc ws)) (work_id op) = own_cost m op)
    \<and> (\<forall>k. k \<notin> work_id ` set ws \<longrightarrow> map_of (wc_costs (foldl (find_cost m) wc ws)) k = map_of (wc_costs wc) k)"
proof (induction ws arbitrary: wc)
  case (Cons op ws)
  have d: "distinct (map work_id ws)" "work_id op \<notin> work_id ` set ws" using Cons.prems by auto
  note ih = Cons.IH [OF d(1), of "find_cost m wc op"]
  have "{o' \<in> set (op # ws). lacking m o'} = (if lacking m op then {op} else {}) \<union> {o' \<in> set ws. lacking m o'}" by auto
  then have "wc_unavailable (foldl (find_cost m) wc (op # ws)) = wc_unavailable wc \<union> work_id ` {o' \<in> set (op # ws). lacking m o'}"
    using ih by (auto simp: find_cost_effect)
  moreover have "map_of (wc_costs (foldl (find_cost m) wc (op # ws))) (work_id op) = own_cost m op" if "work_kind op \<noteq> ''nop''" "own_cost m op \<noteq> None"
    using ih d(2) that by (auto simp: find_cost_effect)
  moreover have "map_of (wc_costs (foldl (find_cost m) wc (op # ws))) k = map_of (wc_costs wc) k" if "k \<notin> work_id ` set (op # ws)" for k
    using ih that by (auto simp: find_cost_effect split: option.splits)
  ultimately show ?case using ih by auto
qed simp

lemma affected_step:
  fixes hit :: "string set"
  defines "f \<equiv> \<lambda>u op. if set (work_dependencies op) \<inter> u \<noteq> {} \<or> set (work_resources op) \<inter> hit \<noteq> {} then insert (work_id op) u else u"
  shows "u \<subseteq> foldl f u ws" "foldl f u ws \<subseteq> u \<union> work_id ` set ws"
    "op \<in> set ws \<Longrightarrow> set (work_dependencies op) \<inter> u \<noteq> {} \<or> set (work_resources op) \<inter> hit \<noteq> {} \<Longrightarrow> work_id op \<in> foldl f u ws"
proof -
  have "u \<subseteq> foldl f u ws \<and> foldl f u ws \<subseteq> u \<union> work_id ` set ws
    \<and> (\<forall>op\<in>set ws. set (work_dependencies op) \<inter> u \<noteq> {} \<or> set (work_resources op) \<inter> hit \<noteq> {} \<longrightarrow> work_id op \<in> foldl f u ws)"
  proof (induction ws arbitrary: u)
    case (Cons op ws)
    let ?c = "\<lambda>u o'. set (work_dependencies o') \<inter> u \<noteq> {} \<or> set (work_resources o') \<inter> hit \<noteq> {}"
    have v: "u \<subseteq> f u op" "f u op \<subseteq> insert (work_id op) u" "?c u op \<Longrightarrow> work_id op \<in> f u op" by (auto simp: f_def)
    note ih = Cons.IH [of "f u op"]
    have "u \<subseteq> foldl f (f u op) ws" using v(1) ih by blast
    moreover have "foldl f (f u op) ws \<subseteq> u \<union> work_id ` set (op # ws)" using v(2) ih by auto
    moreover have "work_id o' \<in> foldl f (f u op) ws" if o': "o' \<in> set (op # ws)" "?c u o'" for o'
    proof (cases "o' = op")
      case True
      then show ?thesis using v(3) o'(2) ih by blast
    next
      case False
      have "?c (f u op) o'" using o'(2) v(1) by blast
      then show ?thesis using o'(1) False ih by simp
    qed
    ultimately show ?case by simp
  qed simp
  then show "u \<subseteq> foldl f u ws" "foldl f u ws \<subseteq> u \<union> work_id ` set ws"
    "op \<in> set ws \<Longrightarrow> set (work_dependencies op) \<inter> u \<noteq> {} \<or> set (work_resources op) \<inter> hit \<noteq> {} \<Longrightarrow> work_id op \<in> foldl f u ws" by blast+
qed

lemma affected_pass_result:
  fixes m ws u
  shows "u \<subseteq> affected_pass ws u" "affected_pass ws u \<subseteq> u \<union> work_id ` set ws" "u \<subseteq> Collect (affected m ws) \<Longrightarrow> affected_pass ws u \<subseteq> Collect (affected m ws)"
    "affected_pass ws u = u \<Longrightarrow> work_id ` {op \<in> set ws. lacking m op} \<subseteq> u \<Longrightarrow> affected m ws k \<Longrightarrow> k \<in> u"
proof -
  define hit where "hit = \<Union>(set ` work_resources ` set (filter (\<lambda>op. work_id op \<in> u) ws))"
  have hitI: "r \<in> hit" if "o' \<in> set ws" "work_id o' \<in> u" "r \<in> set (work_resources o')" for o' r using that by (auto simp: hit_def)
  have pass: "affected_pass ws u = foldl (\<lambda>u op. if set (work_dependencies op) \<inter> u \<noteq> {} \<or> set (work_resources op) \<inter> hit \<noteq> {} then insert (work_id op) u else u) u ws"
    by (simp add: affected_pass_def hit_def)
  show "u \<subseteq> affected_pass ws u" "affected_pass ws u \<subseteq> u \<union> work_id ` set ws" unfolding pass by (rule affected_step)+
  show "affected_pass ws u \<subseteq> Collect (affected m ws)" if u: "u \<subseteq> Collect (affected m ws)"
  proof -
    have sh: "affected m ws (work_id op)" if "op \<in> set ws" "set (work_resources op) \<inter> hit \<noteq> {}" for op using that u shares [OF that(1)] by (auto simp: hit_def)
    have "foldl (\<lambda>u op. if set (work_dependencies op) \<inter> u \<noteq> {} \<or> set (work_resources op) \<inter> hit \<noteq> {} then insert (work_id op) u else u) v xs \<subseteq> Collect (affected m ws)"
      if "set xs \<subseteq> set ws" "v \<subseteq> Collect (affected m ws)" for xs v
      using that
    proof (induction xs arbitrary: v)
      case (Cons op xs)
      have op: "op \<in> set ws" using Cons.prems(1) by simp
      have "insert (work_id op) v \<subseteq> Collect (affected m ws)" if "set (work_dependencies op) \<inter> v \<noteq> {} \<or> set (work_resources op) \<inter> hit \<noteq> {}"
        using that depends [OF op] sh [OF op] Cons.prems(2) by blast
      then show ?case using Cons.IH Cons.prems by simp
    qed simp
    from this [OF subset_refl u] show ?thesis unfolding pass .
  qed
  show "k \<in> u" if stays: "affected_pass ws u = u" and l: "work_id ` {op \<in> set ws. lacking m op} \<subseteq> u" and a: "affected m ws k"
    using a
  proof induction
    case (depends op d)
    then show ?case using affected_step(3) [of op ws u hit] stays unfolding pass by blast
  next
    case (shares op o' r)
    then show ?case using affected_step(3) [of op ws u hit] hitI [of o' r] stays unfolding pass by blast
  qed (use l in blast)
qed

text \<open>The passes end with the least closed set.\<close>

lemma spread_unavailable_exact:
  assumes "finite u" "u \<subseteq> Collect (affected m ws)" "work_id ` {op \<in> set ws. lacking m op} \<subseteq> u"
  shows "spread_unavailable ws u = Some (Collect (affected m ws))"
  using assms
proof (induction "card (work_id ` set ws - u)" arbitrary: u rule: less_induct)
  case less
  let ?v = "affected_pass ws u"
  note p = affected_pass_result [where u = u and ws = ws]
  show ?case
  proof (cases "?v = u")
    case True
    then have "Collect (affected m ws) \<subseteq> u" using p(4) [OF True less.prems(3)] by blast
    with less.prems(2) True show ?thesis by (subst spread_unavailable.simps) (simp add: Let_def)
  next
    case False
    have v: "finite ?v" using finite_subset [OF p(2)] less.prems(1) by simp
    have "work_id ` set ws - ?v \<subset> work_id ` set ws - u" using p(1,2) False by blast
    then have "card (work_id ` set ws - ?v) < card (work_id ` set ws - u)" by (intro psubset_card_mono) auto
    from less.hyps [OF this v p(3) [OF less.prems(2)]] p(1) less.prems(3) have "spread_unavailable ws ?v = Some (Collect (affected m ws))" by blast
    then show ?thesis using False by (subst spread_unavailable.simps) (simp add: Let_def)
  qed
qed

section \<open>The run of a prediction\<close>

lemma service_for_valid:
  assumes "constructed_model isoparse m" "service_for m key b = Some c"
  shows "0 \<le> alpha_cost c \<and> 0 < beta_cost c"
proof -
  have "c \<in> set (dict_get (services m) key [])" using assms(2) unfolding service_for_def by (metis find_Some_iff nth_mem)
  then obtain cs where "map_of (services m) key = Some cs" "c \<in> set cs" by (cases "map_of (services m) key") (auto simp: dict_get_def)
  then have "(key, cs) \<in> set (services m)" "c \<in> set cs" by (auto dest: map_of_SomeD)
  then obtain c0 where "service_cost_post_init isoparse c0 = Inr c" using assms(1) by (fastforce simp: constructed_model_def)
  then show ?thesis by (rule service_cost_valid)
qed

lemma set_update_subset: "set (AList.update k v d) \<subseteq> insert (k, v) (set d)"
  by (induction d) auto

lemma own_costs_only: "(k, c) \<in> set (wc_costs (foldl (find_cost m) wc ws)) \<Longrightarrow> (k, c) \<in> set (wc_costs wc) \<or> (\<exists>op\<in>set ws. own_cost m op = Some c)"
proof (induction ws arbitrary: wc)
  case (Cons op ws)
  from Cons.IH [of "find_cost m wc op"] Cons.prems have "(k, c) \<in> set (wc_costs (find_cost m wc op)) \<or> (\<exists>op\<in>set ws. own_cost m op = Some c)" by simp
  then show ?case using set_update_subset by (fastforce simp: find_cost_effect split: if_splits option.splits)
qed simp

abbreviation no_costs :: work_costs where
  "no_costs \<equiv> \<lparr>wc_costs = [], wc_unavailable = {}, wc_missing = {}\<rparr>"

definition available :: "cost_model \<Rightarrow> work_operation list \<Rightarrow> string set" where
  "available m ws = work_id ` set ws - Collect (affected m ws)"

lemma predict_setting:
  assumes cm: "constructed_model isoparse m" and ce: "constructed_executable ex"
    and g: "loop_graph (dict_keys (op_table (exec_operations ex))) (deps_at (op_table (exec_operations ex))) succs"
    and ac: "acyclic (edges (dict_keys (op_table (exec_operations ex))) (deps_at (op_table (exec_operations ex))))"
  shows "replay_setting (op_table (exec_operations ex)) succs (wc_costs (foldl (find_cost m) no_costs (exec_operations ex))) m (available m (exec_operations ex))"
proof -
  let ?ws = "exec_operations ex" and ?O = "op_table (exec_operations ex)" and ?P = "available m (exec_operations ex)"
  let ?costs = "wc_costs (foldl (find_cost m) no_costs ?ws)"
  note v = executable_valid [OF ce]
  have at: "op_at ?O (work_id op) = op" if "op \<in> set ?ws" for op by (rule op_at_table [OF v(1) that])
  have Pop: "\<exists>op\<in>set ?ws. k = work_id op \<and> op_at ?O k = op" if "k \<in> ?P" for k using that at by (auto simp: available_def)
  have "deps_at ?O k \<subseteq> ?P" if k: "k \<in> ?P" for k
  proof -
    obtain op where op: "op \<in> set ?ws" "k = work_id op" "op_at ?O k = op" using Pop [OF k] by blast
    have "\<not> affected m ?ws d" if "d \<in> set (work_dependencies op)" for d using depends [OF op(1) that] k op(2) by (auto simp: available_def)
    then show ?thesis using v(2) [OF op(1)] op(3) by (auto simp: available_def)
  qed
  moreover have "supplied ?costs m (op_at ?O k)" if k: "k \<in> ?P" "work_kind (op_at ?O k) \<noteq> ''nop''" for k
  proof -
    obtain op where op: "op \<in> set ?ws" "k = work_id op" "op_at ?O k = op" using Pop [OF k(1)] by blast
    have "\<not> lacking m op" using lacks [OF op(1)] k(1) op(2) by (auto simp: available_def)
    then have ok: "own_cost m op \<noteq> None" "set (work_resources op) \<subseteq> set (dict_keys (model_resources m))" using k(2) op(3) by (auto simp: lacking_def own_cost_def)
    have "map_of ?costs (work_id op) = own_cost m op" using find_costs [OF v(1), of m no_costs] op(1) k(2) op(3) ok(1) by blast
    then show ?thesis using ok op(3) by (auto simp: supplied_def map_of_eq_None_iff)
  qed
  moreover have "priced ?costs m"
  proof -
    have "0 \<le> alpha_cost c \<and> 0 < beta_cost c" if kc: "(k, c) \<in> set ?costs" for k c
    proof -
      from own_costs_only [OF kc] obtain op where "own_cost m op = Some c" by auto
      then obtain c' where c': "service_for m (cost_name op) (payload_bytes op) = Some c'" "alpha_cost c = alpha_cost c'" "beta_cost c = beta_cost c'"
        by (auto simp: own_cost_def split: option.splits)
      from service_for_valid [OF cm c'(1)] c' show ?thesis by simp
    qed
    moreover have "set (dict_keys (profile_rates p)) = set (profile_mode p) \<and> (\<forall>(_, v)\<in>set (profile_rates p). 0 < v) \<and> (\<forall>(_, v)\<in>set (profile_startup_us p). 0 \<le> v)"
      if p: "p \<in> set (profiles m)" for p
    proof -
      obtain p0 where p0: "rate_profile_post_init isoparse p0 = Inr p" using cm p by (auto simp: constructed_model_def)
      show ?thesis using rate_profile_valid [OF p0] by auto
    qed
    ultimately show ?thesis using model_resources_positive [OF cm] unfolding priced_def by blast
  qed
  moreover have "\<forall>(k, op)\<in>set ?O. work_id op = k \<and> work_operation_post_init op = Inr op" using ce by (auto simp: constructed_executable_def)
  moreover have "?P \<subseteq> set (dict_keys ?O)" by (auto simp: available_def)
  ultimately show ?thesis using g ac unfolding replay_setting_def by blast
qed

lemma initial_sim_inv:
  assumes set: "replay_setting (op_table (exec_operations ex)) succs costs m P" and ce: "constructed_executable ex"
  shows "run_inv (op_table (exec_operations ex)) m P {} {} (initial_sim (op_table (exec_operations ex)) (work_degrees (exec_operations ex)) P)"
proof -
  let ?ws = "exec_operations ex" and ?O = "op_table (exec_operations ex)"
  let ?s = "initial_sim ?O (work_degrees ?ws) P"
  define first where "first = filter (\<lambda>key. key \<in> P \<and> dict_get (work_degrees ?ws) key 0 = 0) (dict_keys ?O)"
  note v = executable_valid [OF ce]
  have sub: "P \<subseteq> set (dict_keys ?O)" and pr: "priced costs m" using set by (auto simp: replay_setting_def)
  then have fin: "finite P" using finite_subset by blast
  have deg: "dict_get (work_degrees ?ws) k 0 = int (card (deps_at ?O k))" if k: "k \<in> P" for k
  proof -
    obtain op where op: "op \<in> set ?ws" "k = work_id op" using k sub by auto
    have "map_of (work_degrees ?ws) (work_id op) = Some (int (length (work_dependencies op)))" using v(1) op(1) unfolding work_degrees_def by (intro map_of_is_SomeI) (auto simp: comp_def)
    then show ?thesis using op op_at_table [OF v(1) op(1)] v(3) by (simp add: distinct_card dict_get_Some)
  qed
  have rel: "sim_releases ?s = sort (map (\<lambda>key. (not_before_us (op_at ?O key), key)) first)" by (simp add: initial_sim_def first_def)
  have flds: "sim_pending ?s = P" "sim_startup ?s = []" "sim_active ?s = {}" "sim_ends ?s = []" "sim_degrees ?s = work_degrees ?ws" "sim_now ?s = 0" "sim_starts ?s = []" "sim_segments ?s = []"
    by (simp_all add: initial_sim_def)
  have rk: "released_keys ?O ?s = {k \<in> P. deps_at ?O k = {}}" by (simp add: released_keys_def flds)
  have "set first = {k \<in> P. deps_at ?O k = {}}" using sub deg by (auto simp: first_def)
  then have keys: "snd ` set (sim_releases ?s) = released_keys ?O ?s" unfolding rel rk by (simp add: image_image)
  have "mset (map snd (sim_releases ?s)) = mset first" unfolding rel by (simp add: multiset.map_comp comp_def)
  moreover have "distinct first" using v(1) by (simp add: first_def comp_def)
  ultimately have dis: "distinct (map snd (sim_releases ?s))" using mset_eq_imp_distinct_iff by blast
  have nb: "\<forall>e\<in>set (sim_releases ?s). fst e = not_before_us (op_at ?O (snd e))" unfolding rel by auto
  have "sorted (sim_releases ?s)" unfolding rel by (rule sorted_sort)
  then have "placed ?O P {} {} ?s" using dis nb keys deg fin by (simp add: placed_def flds phases_def)
  moreover have "timed ?O P ?s"
  proof -
    have "0 \<le> ready_time ?O [] k" if "k \<in> P" for k
      using valid_operation(2) [OF setting_op(2) [OF set that]] ready_time_bounds(1) [of ?O k "[]"] by (rule order_trans)
    then show ?thesis by (simp add: timed_def flds rk)
  qed
  moreover have "flowing ?O {} ?s" by (simp add: flowing_def flds)
  moreover have "capped ?O m ?s" using capacity_nonneg [OF pr] by (simp add: capped_def flds load_def)
  ultimately show ?thesis by (simp add: run_inv_def)
qed

definition prediction_of :: "executable \<Rightarrow> cost_model \<Rightarrow> sim \<Rightarrow> prediction \<Rightarrow> bool" where
  "prediction_of ex m s p \<longleftrightarrow> run_inv (op_table (exec_operations ex)) m (available m (exec_operations ex)) {} {} s \<and> \<not> sim_busy s
     \<and> pred_starts p = sim_starts s \<and> pred_ends p = sim_ends s \<and> pred_segments p = sim_segments s
     \<and> unavailable_operations p = sorted_list_of_set (Collect (affected m (exec_operations ex)))
     \<and> t_pred_us p = (if Collect (affected m (exec_operations ex)) = {} then Some (latest (map snd (sim_ends s))) else None)
     \<and> output_ready_us p = (if set (output_operations ex) \<inter> Collect (affected m (exec_operations ex)) = {}
         then Some (latest (map (\<lambda>key. dict_get (sim_ends s) key 0) (output_operations ex))) else None)"

definition prediction_error :: "error \<Rightarrow> bool" where
  "prediction_error e \<longleftrightarrow> e = SemanticError ''cost model applicability context differs from the executable'' \<or> e = SemanticError ''executable dependency cycle'' \<or> mode_error e"

lemma predict_result:
  assumes cm: "constructed_model isoparse m" and ce: "constructed_executable ex"
  shows "\<exists>r. predict ex ctx m = Some r \<and> (case r of Inl e \<Rightarrow> prediction_error e | Inr p \<Rightarrow> \<exists>s. prediction_of ex m s p)"
proof (cases "set ctx \<noteq> set (model_context m)")
  case True
  then show ?thesis by (simp add: predict_def prediction_error_def)
next
  case ctx: False
  let ?ws = "exec_operations ex" and ?O = "op_table (exec_operations ex)" and ?P = "available m (exec_operations ex)" and ?U = "Collect (affected m (exec_operations ex))"
  obtain r where r: "acyclic_work ?ws = Some r" "case r of Inl e \<Rightarrow> e = SemanticError ''executable dependency cycle''
    | Inr succs \<Rightarrow> loop_graph (dict_keys ?O) (deps_at ?O) succs \<and> acyclic (edges (dict_keys ?O) (deps_at ?O))" using acyclic_work_result [OF ce] by blast
  show ?thesis
  proof (cases r)
    case (Inl e)
    then show ?thesis using r ctx by (simp add: predict_def prediction_error_def)
  next
    case (Inr succs)
    then have g: "loop_graph (dict_keys ?O) (deps_at ?O) succs" "acyclic (edges (dict_keys ?O) (deps_at ?O))" using r(2) by auto
    let ?wc = "foldl (find_cost m) no_costs ?ws"
    have un: "wc_unavailable ?wc = work_id ` {op \<in> set ?ws. lacking m op}" using find_costs [OF executable_valid(1) [OF ce], of m no_costs] by simp
    have sp: "spread_unavailable ?ws (wc_unavailable ?wc) = Some ?U"
      unfolding un by (rule spread_unavailable_exact) (auto intro: lacks)
    have P: "set (dict_keys ?O) - ?U = ?P" by (simp add: available_def image_image)
    note set = predict_setting [OF cm ce g]
    obtain r' where r': "sim_loop ?O succs (wc_costs ?wc) m (initial_sim ?O (work_degrees ?ws) ?P) = Some r'"
      "case r' of Inl e \<Rightarrow> mode_error e | Inr s' \<Rightarrow> run_inv ?O m ?P {} {} s' \<and> \<not> sim_busy s'" using sim_loop_returns [OF set initial_sim_inv [OF set ce]] by blast
    show ?thesis
    proof (cases r')
      case (Inl e)
      then show ?thesis using ctx r' unfolding predict_def r(1) Inr Let_def by (simp add: sp P [simplified] prediction_error_def)
    next
      case s: (Inr s)
      then have "run_inv ?O m ?P {} {} s" "\<not> sim_busy s" using r'(2) by auto
      then show ?thesis using ctx r' s unfolding predict_def r(1) Inr Let_def by (auto simp: sp P [simplified] prediction_of_def)
    qed
  qed
qed

section \<open>Facts of a finished prediction\<close>

lemma affected_known: "affected m ws k \<Longrightarrow> k \<in> work_id ` set ws"
  by (induction rule: affected.induct) auto

lemma finite_affected: "finite (Collect (affected m ws))"
  by (rule finite_subset [of _ "work_id ` set ws"]) (auto dest: affected_known)

lemma predict_Inr:
  assumes "constructed_model isoparse m" "constructed_executable ex" "predict ex ctx m = Some (Inr p)"
  obtains s where "prediction_of ex m s p"
  using predict_result [OF assms(1,2), of ctx] assms(3) by auto

lemma prediction_ended:
  assumes "prediction_of ex m s p"
  shows "keyset (pred_ends p) = available m (exec_operations ex)"
proof -
  have i: "placed (op_table (exec_operations ex)) (available m (exec_operations ex)) {} {} s" and b: "\<not> sim_busy s" and e: "pred_ends p = sim_ends s"
    using assms by (auto simp: prediction_of_def run_inv_def)
  note ph = placed_phases(6,13) [OF i]
  show ?thesis unfolding e using ph b by (auto simp: sim_busy_def)
qed

lemma not_affected_op:
  assumes "constructed_executable ex" "op \<in> set (exec_operations ex)" "\<not> affected m (exec_operations ex) (work_id op)"
  shows "work_id op \<in> available m (exec_operations ex)" "op_at (op_table (exec_operations ex)) (work_id op) = op"
  using assms op_at_table [OF executable_valid(1) [OF assms(1)] assms(2)] by (auto simp: available_def)

lemma finished_times:
  assumes "constructed_executable ex" "prediction_of ex m s p" "op \<in> set (exec_operations ex)" "\<not> affected m (exec_operations ex) (work_id op)"
  shows "map_of (pred_ends p) (work_id op) = Some (end_of s (work_id op))"
    "map_of (pred_starts p) (work_id op) = Some (ready_time (op_table (exec_operations ex)) (pred_ends p) (work_id op))"
    "ready_time (op_table (exec_operations ex)) (pred_ends p) (work_id op) \<le> end_of s (work_id op)"
proof -
  note k = not_affected_op [OF assms(1,3,4)]
  have e: "pred_ends p = sim_ends s" "pred_starts p = sim_starts s" "\<not> sim_busy s" using assms(2) by (auto simp: prediction_of_def)
  have t: "timed (op_table (exec_operations ex)) (available m (exec_operations ex)) s" using assms(2) by (simp add: prediction_of_def run_inv_def)
  have "work_id op \<in> ended s" using prediction_ended [OF assms(2)] k(1) e(1) by simp
  then show "map_of (pred_ends p) (work_id op) = Some (end_of s (work_id op))" "ready_time (op_table (exec_operations ex)) (pred_ends p) (work_id op) \<le> end_of s (work_id op)"
    using t e(1) by (auto simp: keyset_Some dict_get_Some timed_def)
  show "map_of (pred_starts p) (work_id op) = Some (ready_time (op_table (exec_operations ex)) (pred_ends p) (work_id op))" using t k(1) e by (simp add: timed_def sim_busy_def)
qed

lemma flowing_ended:
  assumes "flowing ops X s" "k \<in> ended s" "work_kind (op_at ops k) \<noteq> ''nop''"
  shows "moved (sim_segments s) k = of_int (payload_bytes (op_at ops k))"
    "g \<in> set (sim_segments s) \<Longrightarrow> seg_op g = k \<Longrightarrow> ready_time ops (sim_ends s) k \<le> seg_start g \<and> seg_start g < seg_end g \<and> seg_end g \<le> end_of s k"
proof -
  have a: "\<forall>j\<in>waiting s \<union> sim_active s \<union> X \<union> ended s. work_kind (op_at ops j) \<noteq> ''nop'' \<longrightarrow> left_of s j + moved (sim_segments s) j = of_int (payload_bytes (op_at ops j))"
    and b: "\<forall>j\<in>X \<union> ended s. work_kind (op_at ops j) \<noteq> ''nop'' \<longrightarrow> left_of s j = 0"
    and c: "\<forall>g\<in>set (sim_segments s). seg_op g \<in> sim_active s \<union> X \<union> ended s \<and> ready_time ops (sim_ends s) (seg_op g) \<le> seg_start g \<and> seg_start g < seg_end g
          \<and> seg_end g \<le> sim_now s \<and> (seg_op g \<in> ended s \<longrightarrow> seg_end g \<le> end_of s (seg_op g))"
    using assms(1) unfolding flowing_def by - (elim conjE, assumption)+
  show "moved (sim_segments s) k = of_int (payload_bytes (op_at ops k))" using bspec [OF a, of k] bspec [OF b, of k] assms(2,3) by simp
  show "g \<in> set (sim_segments s) \<Longrightarrow> seg_op g = k \<Longrightarrow> ready_time ops (sim_ends s) k \<le> seg_start g \<and> seg_start g < seg_end g \<and> seg_end g \<le> end_of s k"
    using bspec [OF c, of g] assms(2) by simp
qed

section \<open>The example\<close>

text \<open>Two transfers share a link of capacity one; a join follows them.\<close>

definition send_op :: "string \<Rightarrow> int \<Rightarrow> work_operation" where
  "send_op k n = \<lparr>work_id = k, work_kind = ''send'', cost_key = Some ''link:0:1'', payload_bytes = n, work_dependencies = [],
     work_resources = [''link:0:1''], flow_id = Some k, not_before_us = 0, source_override = None\<rparr>"

definition join_op :: "string \<Rightarrow> string list \<Rightarrow> work_operation" where
  "join_op k ds = \<lparr>work_id = k, work_kind = ''nop'', cost_key = None, payload_bytes = 0, work_dependencies = ds, work_resources = [], flow_id = None,
     not_before_us = 0, source_override = None\<rparr>"

definition shared_work :: executable where
  "shared_work = \<lparr>exec_operations = [send_op ''a'' 4, send_op ''b'' 8, join_op ''c'' [''a'', ''b'']], output_operations = [''c'']\<rparr>"

definition link_model :: cost_model where
  "link_model = \<lparr>model_version = ''v1'', services = [(''link:0:1'', [\<lparr>alpha_cost = 1, beta_cost = 1, cost_source = ''initial'', cost_min_bytes = 1, cost_max_bytes = None,
      cost_measured_at = None, cost_qualified = True\<rparr>])], model_resources = [(''link:0:1'', 1)], profiles = [], model_context = []\<rparr>"

definition shared_prediction :: prediction where
  "shared_prediction = projr (the (predict shared_work [] link_model))"

lemma run_ok_iff: "(case x of Some (Inr p) \<Rightarrow> Q p | _ \<Rightarrow> False) \<longleftrightarrow> (\<exists>p. x = Some (Inr p) \<and> Q p)"
  by (auto split: option.splits sum.splits)

lemma shared_run:
  "predict shared_work [] link_model = Some (Inr shared_prediction)" "t_pred_us shared_prediction = Some 13" "map_of (pred_ends shared_prediction) ''a'' = Some 9"
  "length (pred_segments shared_prediction) = 3"
proof -
  have c: "case predict shared_work [] link_model of Some (Inr p) \<Rightarrow> t_pred_us p = Some 13 \<and> map_of (pred_ends p) ''a'' = Some 9 \<and> length (pred_segments p) = 3 | _ \<Rightarrow> False"
    by code_simp
  from c [unfolded run_ok_iff] obtain p where "predict shared_work [] link_model = Some (Inr p)" "t_pred_us p = Some 13" "map_of (pred_ends p) ''a'' = Some 9" "length (pred_segments p) = 3" by blast
  then show "predict shared_work [] link_model = Some (Inr shared_prediction)" "t_pred_us shared_prediction = Some 13" "map_of (pred_ends shared_prediction) ''a'' = Some 9"
    "length (pred_segments shared_prediction) = 3" by (simp_all add: shared_prediction_def)
qed

lemma shared_constructed: "constructed_executable shared_work" "constructed_model (\<lambda>_. None) link_model"
proof -
  have "executable_post_init (exec_operations shared_work) (Some [''c'']) = Inr shared_work" by code_simp
  moreover have "\<forall>op\<in>set (exec_operations shared_work). work_operation_post_init op = Inr op" by code_simp
  ultimately show "constructed_executable shared_work" unfolding constructed_executable_def by blast
  have "cost_model_post_init link_model = Inr link_model" by code_simp
  moreover have "\<forall>(_, cs)\<in>set (services link_model). \<forall>c\<in>set cs. service_cost_post_init (\<lambda>_. None) c = Inr c" by code_simp
  moreover have "profiles link_model = []" by (simp add: link_model_def)
  ultimately show "constructed_model (\<lambda>_. None) link_model" unfolding constructed_model_def by fastforce
qed

lemma shared_available: "op \<in> set (exec_operations shared_work) \<Longrightarrow> \<not> affected link_model (exec_operations shared_work) (work_id op)"
proof -
  obtain s where "prediction_of shared_work link_model s shared_prediction" using predict_Inr [OF shared_constructed(2,1) shared_run(1)] .
  then have "Collect (affected link_model (exec_operations shared_work)) = {}" using shared_run(2) unfolding prediction_of_def by (metis option.distinct(1))
  then show ?thesis by blast
qed

section \<open>Correctness of the prediction\<close>

text \<open>
  C27.  The prediction always returns, whatever the dependencies, costs, capacities and profiles of a constructed executable and model.  It fails only when the contexts differ, when
  the dependencies have a cycle or when the model itself is in conflict (several profiles for one mode, one flow used twice at a time, a measured vector above a capacity): the
  stalled-work and lost-progress errors and a missing key do not occur.
\<close>

theorem predict_returns:
  assumes "constructed_model isoparse m" "constructed_executable ex"
  shows "\<exists>r. predict ex ctx m = Some r \<and> (\<forall>e. r = Inl e \<longrightarrow> prediction_error e)"
proof -
  obtain r where r: "predict ex ctx m = Some r" "case r of Inl e \<Rightarrow> prediction_error e | Inr p \<Rightarrow> \<exists>s. prediction_of ex m s p" using predict_result [OF assms, of ctx] by blast
  then show ?thesis by (cases r) auto
qed

theorem predict_returns_witness:
  "\<exists>r. predict shared_work [] link_model = Some r"
  using predict_returns [OF shared_constructed(2,1), of "[]"] by blast

text \<open>
  C28.  The operations that a prediction reports as unavailable are exactly those that lack a cost or a capacity, depend on such work or share a resource with it, to any
  depth; a total time is reported exactly when there are none.
\<close>

theorem predict_unavailable_exact:
  assumes "constructed_model isoparse m" "constructed_executable ex" "predict ex ctx m = Some (Inr p)"
  shows "set (unavailable_operations p) = {k. affected m (exec_operations ex) k} \<and> (t_pred_us p = None \<longleftrightarrow> (\<exists>k. affected m (exec_operations ex) k))"
proof -
  obtain s where "prediction_of ex m s p" using predict_Inr [OF assms] .
  then show ?thesis using finite_affected [of m "exec_operations ex"] unfolding prediction_of_def by auto
qed

theorem predict_unavailable_exact_witness:
  "set (unavailable_operations shared_prediction) = {k. affected link_model (exec_operations shared_work) k}
    \<and> (t_pred_us shared_prediction = None \<longleftrightarrow> (\<exists>k. affected link_model (exec_operations shared_work) k))"
  by (rule predict_unavailable_exact [OF shared_constructed(2,1) shared_run(1)])

text \<open>
  C29.  Every available operation ends, and starts exactly at the latest of its hard release time and the ends of its dependencies.
\<close>

theorem predict_starts_when_ready:
  assumes "constructed_model isoparse m" "constructed_executable ex" "predict ex ctx m = Some (Inr p)"
    and "op \<in> set (exec_operations ex)" "\<not> affected m (exec_operations ex) (work_id op)"
  shows "\<exists>t0 t1. map_of (pred_starts p) (work_id op) = Some t0 \<and> map_of (pred_ends p) (work_id op) = Some t1 \<and> t0 \<le> t1
    \<and> t0 = Max (insert (not_before_us op) ((\<lambda>d. dict_get (pred_ends p) d 0) ` set (work_dependencies op)))"
proof -
  obtain s where s: "prediction_of ex m s p" using predict_Inr [OF assms(1-3)] .
  show ?thesis using finished_times [OF assms(2) s assms(4,5)] not_affected_op(2) [OF assms(2,4,5)] by (simp add: ready_time_def)
qed

theorem predict_starts_when_ready_witness:
  "\<exists>t0 t1. map_of (pred_starts shared_prediction) ''c'' = Some t0 \<and> map_of (pred_ends shared_prediction) ''c'' = Some t1 \<and> t0 \<le> t1
    \<and> t0 = Max (insert 0 ((\<lambda>d. dict_get (pred_ends shared_prediction) d 0) ` {''a'', ''b''}))"
proof -
  have op: "join_op ''c'' [''a'', ''b''] \<in> set (exec_operations shared_work)" by (simp add: shared_work_def)
  show ?thesis using predict_starts_when_ready [OF shared_constructed(2,1) shared_run(1) op shared_available [OF op]] by (simp add: join_op_def)
qed

text \<open>
  C30.  The segments of an available operation that carries data move exactly its bytes, between its start and its end, whatever the changes of rate on the way.
\<close>

theorem predict_moves_payload:
  assumes "constructed_model isoparse m" "constructed_executable ex" "predict ex ctx m = Some (Inr p)"
    and "op \<in> set (exec_operations ex)" "\<not> affected m (exec_operations ex) (work_id op)" "work_kind op \<noteq> ''nop''"
  shows "moved (pred_segments p) (work_id op) = of_int (payload_bytes op)
    \<and> (\<forall>g\<in>set (pred_segments p). seg_op g = work_id op \<longrightarrow> dict_get (pred_starts p) (work_id op) 0 \<le> seg_start g \<and> seg_start g < seg_end g \<and> seg_end g \<le> dict_get (pred_ends p) (work_id op) 0)"
proof -
  obtain s where s: "prediction_of ex m s p" using predict_Inr [OF assms(1-3)] .
  note f = finished_times [OF assms(2) s assms(4,5)] and k = not_affected_op [OF assms(2,4,5)]
  have e: "pred_ends p = sim_ends s" "pred_segments p = sim_segments s" using s by (auto simp: prediction_of_def)
  have en: "work_id op \<in> ended s" using prediction_ended [OF s] k(1) e(1) by simp
  have fl: "flowing (op_table (exec_operations ex)) {} s" using s by (simp add: prediction_of_def run_inv_def)
  have carries: "work_kind (op_at (op_table (exec_operations ex)) (work_id op)) \<noteq> ''nop''" using assms(6) k(2) by simp
  have "moved (sim_segments s) (work_id op) = of_int (payload_bytes op)" using flowing_ended(1) [OF fl en carries] k(2) by simp
  moreover have "dict_get (pred_starts p) (work_id op) 0 \<le> seg_start g \<and> seg_start g < seg_end g \<and> seg_end g \<le> end_of s (work_id op)"
    if "g \<in> set (sim_segments s)" "seg_op g = work_id op" for g
    using flowing_ended(2) [OF fl en carries that(1)] that(2) f(2) e(1) by (simp add: dict_get_Some)
  ultimately show ?thesis unfolding e by simp
qed

theorem predict_moves_payload_witness:
  "moved (pred_segments shared_prediction) ''b'' = 8"
proof -
  have op: "send_op ''b'' 8 \<in> set (exec_operations shared_work)" by (simp add: shared_work_def)
  show ?thesis using predict_moves_payload [OF shared_constructed(2,1) shared_run(1) op shared_available [OF op]] by (simp add: send_op_def)
qed

text \<open>
  C31.  At every time the rates of the operations that use a resource add up to at most its capacity.
\<close>

theorem predict_within_capacity:
  assumes "constructed_model isoparse m" "constructed_executable ex" "predict ex ctx m = Some (Inr p)" "map_of (model_resources m) r = Some c"
  shows "load (map (\<lambda>op. (work_id op, op)) (exec_operations ex)) (pred_segments p) r t \<le> c"
proof -
  obtain s where "prediction_of ex m s p" using predict_Inr [OF assms(1-3)] .
  then show ?thesis using assms(4) by (auto simp: prediction_of_def run_inv_def capped_def dict_get_Some dest: spec [of _ r])
qed

theorem predict_within_capacity_witness:
  "load (map (\<lambda>op. (work_id op, op)) (exec_operations shared_work)) (pred_segments shared_prediction) ''link:0:1'' 5 \<le> 1"
  by (rule predict_within_capacity [OF shared_constructed(2,1) shared_run(1)]) (simp add: link_model_def)

text \<open>
  C32.  The predicted total time is the end of the last operation: no operation ends later, some operation ends then unless there are none, and the outputs are ready by then.
\<close>

theorem predict_total_time:
  assumes "constructed_model isoparse m" "constructed_executable ex" "predict ex ctx m = Some (Inr p)" "t_pred_us p = Some t"
  shows "(\<forall>op\<in>set (exec_operations ex). dict_get (pred_ends p) (work_id op) 0 \<le> t) \<and> (exec_operations ex \<noteq> [] \<longrightarrow> (\<exists>op\<in>set (exec_operations ex). map_of (pred_ends p) (work_id op) = Some t))
    \<and> (\<exists>t'. output_ready_us p = Some t' \<and> t' \<le> t)"
proof -
  let ?ws = "exec_operations ex"
  obtain s where s: "prediction_of ex m s p" using predict_Inr [OF assms(1-3)] .
  have none: "Collect (affected m ?ws) = {}" and t: "t = latest (map snd (pred_ends p))" and o: "output_ready_us p = Some (latest (map (\<lambda>key. dict_get (pred_ends p) key 0) (output_operations ex)))"
    using s assms(4) by (auto simp: prediction_of_def split: if_splits)
  have keys: "keyset (pred_ends p) = work_id ` set ?ws" using prediction_ended [OF s] none by (simp add: available_def)
  have wf: "wf_dict (pred_ends p)" using s by (simp add: prediction_of_def run_inv_def placed_def)
  have item: "(k, dict_get (pred_ends p) k 0) \<in> set (pred_ends p)" if "k \<in> work_id ` set ?ws" for k using that unfolding keys [symmetric] by (auto simp: keyset_Some dict_get_Some dest: map_of_SomeD)
  have le: "dict_get (pred_ends p) k 0 \<le> t" if k: "k \<in> work_id ` set ?ws" for k
  proof -
    have "dict_get (pred_ends p) k 0 \<in> set (map snd (pred_ends p))" using item [OF k] by force
    then show ?thesis unfolding t latest_def by (auto intro!: Max_ge)
  qed
  have att: "\<exists>op\<in>set ?ws. map_of (pred_ends p) (work_id op) = Some t" if "?ws \<noteq> []"
  proof -
    have "set (map snd (pred_ends p)) \<noteq> {}" using keys that by (auto simp: keyset_def)
    then have "t \<in> set (map snd (pred_ends p))" unfolding t latest_def by (metis Max_in finite_set set_empty)
    then obtain k where k: "(k, t) \<in> set (pred_ends p)" by auto
    then have "k \<in> work_id ` set ?ws" unfolding keys [symmetric] by (force simp: keyset_def)
    then show ?thesis using map_of_is_SomeI [OF wf k] by auto
  qed
  have "0 \<le> t"
  proof (cases "?ws = []")
    case True
    then show ?thesis using keys unfolding t latest_def keyset_def by auto
  next
    case False
    then obtain op where op: "op \<in> set ?ws" by (cases ?ws) auto
    have na: "\<not> affected m ?ws (work_id op)" using none by auto
    note ft = finished_times [OF assms(2) s op na]
    have "0 \<le> not_before_us op" using assms(2) op by (intro valid_operation(2)) (auto simp: constructed_executable_def)
    also have "\<dots> \<le> ready_time (op_table ?ws) (pred_ends p) (work_id op)" using ready_time_bounds(1) [of "op_table ?ws" "work_id op" "pred_ends p"] not_affected_op(2) [OF assms(2) op na] by simp
    also have "\<dots> \<le> dict_get (pred_ends p) (work_id op) 0" using ft(1,3) by (simp add: dict_get_Some)
    also have "\<dots> \<le> t" using le op by simp
    finally show ?thesis .
  qed
  then have "latest (map (\<lambda>key. dict_get (pred_ends p) key 0) (output_operations ex)) \<le> t"
    using le executable_valid(4) [OF assms(2)] by (auto simp: latest_def)
  then show ?thesis using le att o by auto
qed

theorem predict_total_time_witness:
  "\<exists>t'. output_ready_us shared_prediction = Some t' \<and> t' \<le> 13"
  using predict_total_time [OF shared_constructed(2,1) shared_run(1,2)] by blast

end
