(* ===== verification/Admission_Correct.thy ===== *)
theory Admission_Correct
  imports Admission Prediction_Correct Native_Order Storage_Delivers
begin

text \<open>
  What the admission of a candidate means: which checks a candidate passes that may be executed, that the admission always returns, that an
  admitted program keeps the order and the addresses of its storage plan, and that it delivers the collective at the runtime output addresses.
\<close>

unbundle bit_operations_syntax

section \<open>Checks\<close>

lemma status_of_set_check [simp]: "status_of (set_check k s m cs) k' = (if k = k' then Some s else status_of cs k')"
  by (simp add: status_of_def set_check_def check_of_def update_conv')

lemma status_of_pending [simp]: "status_of (pending_checks m) k = (if k \<in> set dimensions then Some NOT_RUN else None)"
  by (simp add: status_of_def pending_checks_def dimensions_def check_of_def)

lemma caught_Inr [res_simps]: "caught h k e cs = Inr cs' \<longleftrightarrow> h e \<and> cs' = set_check k INVALID (error_text e) cs"
  by (auto simp: caught_def)

lemma xml_phase_Inr:
  assumes "xml_phase r cs = Inr cs'"
  shows "status_of cs' ''xml'' = Some VALID \<longleftrightarrow> r = Inr ()" "k \<noteq> ''xml'' \<Longrightarrow> status_of cs' k = status_of cs k"
  using assms by (auto simp: xml_phase_def res_simps split: sum.splits)

lemma native_phase_Inr:
  assumes "native_phase prog plan ctx cs = Some (Inr (cs', exo))" "status_of cs ''deadlock'' = Some NOT_RUN" "status_of cs ''endpoint'' = Some NOT_RUN"
  shows "status_of cs' ''deadlock'' = Some VALID \<and> status_of cs' ''endpoint'' = Some VALID \<longleftrightarrow> exo \<noteq> None"
    "exo = Some ex \<Longrightarrow> (\<exists>pd. execution_dependencies prog = Some (Inr pd)) \<and> validate_bindings prog plan = Some (Inr ())
      \<and> build_executable prog plan (ctx_inputs ctx) (ctx_topology ctx) = Some (Inr ex)"
    "k \<notin> {''deadlock'', ''endpoint''} \<Longrightarrow> status_of cs' k = status_of cs k"
  using assms by (auto simp: native_phase_def native_failure_def map_option_case res_simps Let_def split: sum.splits if_splits bind_splits option.splits)

lemma launch_phase_Inr:
  assumes "launch_phase prog plan ctx cs = Inr (cs', capacity)"
  shows "status_of cs' ''launch'' = Some VALID \<longleftrightarrow> (\<exists>report. native_capacity prog (ctx_limits ctx) (ctx_inputs ctx) = Inr report \<and> launch_checks prog plan ctx report = Inr ())"
    "k \<noteq> ''launch'' \<Longrightarrow> status_of cs' k = status_of cs k"
  using assms by (auto simp: launch_phase_def res_simps split: sum.splits)

lemma compatibility_phase_status:
  "status_of (compatibility_phase ctx cs) k = (if ctx_compatibility ctx \<and> k = ''compatibility'' \<and> status_of cs ''launch'' \<noteq> None then status_of cs ''launch'' else status_of cs k)"
  by (auto simp: compatibility_phase_def status_of_def set_check_def check_of_def update_conv' split: option.splits)

lemma replay_phase_Inr:
  assumes "replay_phase side plan ex p inputs cs = Some (Inr (cs', p', v))" "status_of cs ''semantic'' = Some NOT_RUN" "status_of cs ''storage'' = Some NOT_RUN"
  shows "p' = Some p" "status_of cs' ''semantic'' = Some VALID \<and> status_of cs' ''storage'' = Some VALID
      \<longleftrightarrow> (\<exists>version evidence. v = Some version \<and> build_version_schedule plan ex p inputs = Some (Inr version) \<and> check_storage_values plan version inputs = Inr evidence \<and> check_recorded side version = Inr ())"
    "k \<notin> {''semantic'', ''storage''} \<Longrightarrow> status_of cs' k = status_of cs k"
proof -
  obtain r where r: "build_version_schedule plan ex p inputs = Some r" using assms(1) by (auto simp: replay_phase_def)
  show "p' = Some p" "status_of cs' ''semantic'' = Some VALID \<and> status_of cs' ''storage'' = Some VALID
      \<longleftrightarrow> (\<exists>version evidence. v = Some version \<and> build_version_schedule plan ex p inputs = Some (Inr version) \<and> check_storage_values plan version inputs = Inr evidence \<and> check_recorded side version = Inr ())"
    "k \<notin> {''semantic'', ''storage''} \<Longrightarrow> status_of cs' k = status_of cs k"
    using assms by (cases r; auto simp: replay_phase_def r res_simps split: sum.splits)+
qed

lemma prediction_phase_Inr:
  assumes "prediction_phase side plan exo ctx cs = Some (Inr (cs', p, v))" "\<forall>k\<in>{''semantic'', ''storage'', ''prediction''}. status_of cs k = Some NOT_RUN"
  shows "(\<forall>k\<in>{''semantic'', ''storage'', ''prediction''}. status_of cs' k = Some VALID) \<longleftrightarrow>
      (\<exists>ex q version evidence. exo = Some ex \<and> p = Some q \<and> v = Some version \<and> predict ex (model_context (ctx_model ctx)) (ctx_model ctx) = Some (Inr q) \<and> t_pred_us q \<noteq> None
        \<and> build_version_schedule plan ex q (ctx_inputs ctx) = Some (Inr version) \<and> check_storage_values plan version (ctx_inputs ctx) = Inr evidence \<and> check_recorded side version = Inr ())" (is "?valid \<longleftrightarrow> ?R")
    "k \<notin> {''semantic'', ''storage'', ''prediction''} \<Longrightarrow> status_of cs' k = status_of cs k"
proof -
  let ?goal = "(?valid \<longleftrightarrow> ?R) \<and> (k \<notin> {''semantic'', ''storage'', ''prediction''} \<longrightarrow> status_of cs' k = status_of cs k)"
  have ?goal
  proof (cases exo)
    case None
    with assms show ?thesis by (auto simp: prediction_phase_def)
  next
    case (Some ex)
    then obtain r where r: "predict ex (model_context (ctx_model ctx)) (ctx_model ctx) = Some r" using assms(1) by (auto simp: prediction_phase_def split: bind_splits)
    show ?thesis
    proof (cases r)
      case (Inl e)
      with assms r Some show ?thesis by (auto simp: prediction_phase_def res_simps)
    next
      case (Inr q)
      define cs1 where "cs1 = (if t_pred_us q \<noteq> None then set_check ''prediction'' VALID ''complete dynamic replay'' cs
         else set_check ''prediction'' INVALID ''cost coverage is incomplete'' cs)"
      have run: "replay_phase side plan ex q (ctx_inputs ctx) cs1 = Some (Inr (cs', p, v))" using assms(1) by (simp add: prediction_phase_def Some r Inr cs1_def)
      have st: "status_of cs1 ''semantic'' = Some NOT_RUN" "status_of cs1 ''storage'' = Some NOT_RUN" "status_of cs1 ''prediction'' = Some VALID \<longleftrightarrow> t_pred_us q \<noteq> None"
        "k \<noteq> ''prediction'' \<Longrightarrow> status_of cs1 k = status_of cs k" using assms(2) by (auto simp: cs1_def)
      note f = replay_phase_Inr [OF run st(1,2)]
      have "status_of cs' ''prediction'' = Some VALID \<longleftrightarrow> t_pred_us q \<noteq> None" using f(3) [of "''prediction''"] st(3) by simp
      moreover have "k \<notin> {''semantic'', ''storage'', ''prediction''} \<longrightarrow> status_of cs' k = status_of cs k" using f(3) [of k] st(4) by simp
      ultimately show ?thesis using f(1,2) Some r Inr by auto
    qed
  qed
  then show "?valid \<longleftrightarrow> ?R" "k \<notin> {''semantic'', ''storage'', ''prediction''} \<Longrightarrow> status_of cs' k = status_of cs k" by blast+
qed

text \<open>What a candidate has passed that may be executed.\<close>

definition admissible :: "(string \<Rightarrow> string) \<Rightarrow> (string \<Rightarrow> native_program \<Rightarrow> resolved_input \<Rightarrow> unit res) \<Rightarrow> sidecar option \<Rightarrow> storage_plan \<Rightarrow> native_program \<Rightarrow> string \<Rightarrow> lowering_context
    \<Rightarrow> executable \<Rightarrow> prediction \<Rightarrow> version_schedule \<Rightarrow> bool" where
  "admissible sha256 validate_xml side plan prog xml ctx ex p v \<longleftrightarrow> check_supplied (sha256 xml) ctx side = Inr () \<and> validate_xml xml prog (ctx_inputs ctx) = Inr ()
     \<and> (\<exists>pd. execution_dependencies prog = Some (Inr pd)) \<and> validate_bindings prog plan = Some (Inr ())
     \<and> build_executable prog plan (ctx_inputs ctx) (ctx_topology ctx) = Some (Inr ex)
     \<and> (\<exists>report. native_capacity prog (ctx_limits ctx) (ctx_inputs ctx) = Inr report \<and> launch_checks prog plan ctx report = Inr ())
     \<and> predict ex (model_context (ctx_model ctx)) (ctx_model ctx) = Some (Inr p) \<and> t_pred_us p \<noteq> None
     \<and> build_version_schedule plan ex p (ctx_inputs ctx) = Some (Inr v) \<and> (\<exists>evidence. check_storage_values plan v (ctx_inputs ctx) = Inr evidence) \<and> check_recorded side v = Inr ()"

lemma evaluate_program_phases:
  assumes "evaluate_program sha256 validate_xml side plan prog xml ctx = Some (Inr b)"
  obtains cs1 cs2 exo cs3 capacity cs4 where
    "xml_phase (bnd (check_supplied (sha256 xml) ctx side) (\<lambda>_. validate_xml xml prog (ctx_inputs ctx))) (pending_checks ''prerequisite pending'') = Inr cs1"
    "native_phase prog plan ctx cs1 = Some (Inr (cs2, exo))" "launch_phase prog plan ctx cs2 = Inr (cs3, capacity)"
    "prediction_phase side plan exo ctx (compatibility_phase ctx cs3) = Some (Inr (cs4, cb_prediction b, cb_version b))"
    "cb_checks b = cs4" "cb_executable b = exo" "cb_program b = Some prog" "cb_storage b = Some plan"
  using assms unfolding evaluate_program_def
  by (auto simp: res_simps split: sum.splits bind_splits prod.splits)


lemma can_execute_admissible:
  assumes run: "evaluate_program sha256 validate_xml side plan prog xml ctx = Some (Inr b)"
  shows "can_execute b \<longleftrightarrow> (\<exists>ex p v. admissible sha256 validate_xml side plan prog xml ctx ex p v \<and> cb_executable b = Some ex \<and> cb_prediction b = Some p \<and> cb_version b = Some v)"
  using run
proof (rule evaluate_program_phases)
  fix cs1 cs2 exo cs3 capacity cs4
  assume x: "xml_phase (bnd (check_supplied (sha256 xml) ctx side) (\<lambda>_. validate_xml xml prog (ctx_inputs ctx))) (pending_checks ''prerequisite pending'') = Inr cs1"
    and n: "native_phase prog plan ctx cs1 = Some (Inr (cs2, exo))" and l: "launch_phase prog plan ctx cs2 = Inr (cs3, capacity)"
    and p: "prediction_phase side plan exo ctx (compatibility_phase ctx cs3) = Some (Inr (cs4, cb_prediction b, cb_version b))"
    and b: "cb_checks b = cs4" "cb_executable b = exo" "cb_program b = Some prog" "cb_storage b = Some plan"
  note fx = xml_phase_Inr [OF x]
  have s1: "status_of cs1 k = Some NOT_RUN" if "k \<in> {''semantic'', ''storage'', ''endpoint'', ''deadlock'', ''launch'', ''compatibility'', ''prediction''}" for k
    using that fx(2) [of k] by (auto simp: dimensions_def)
  have n1: "status_of cs1 ''deadlock'' = Some NOT_RUN" "status_of cs1 ''endpoint'' = Some NOT_RUN" by (rule s1; simp)+
  note fn = native_phase_Inr [OF n n1] and fl = launch_phase_Inr [OF l] and fc = compatibility_phase_status [of ctx cs3]
  have s3: "status_of cs3 k = Some NOT_RUN" if "k \<in> {''semantic'', ''storage'', ''compatibility'', ''prediction''}" for k
  proof -
    have "status_of cs3 k = status_of cs2 k" by (rule fl(2)) (use that in auto)
    also have "\<dots> = status_of cs1 k" by (rule fn(3)) (use that in auto)
    also have "\<dots> = Some NOT_RUN" by (rule s1) (use that in auto)
    finally show ?thesis .
  qed
  have n3: "\<forall>k\<in>{''semantic'', ''storage'', ''prediction''}. status_of (compatibility_phase ctx cs3) k = Some NOT_RUN" using s3 fc by simp
  note fp = prediction_phase_Inr [OF p n3]
  have keep: "status_of cs4 k = status_of cs3 k" if "k \<in> {''endpoint'', ''deadlock'', ''xml'', ''launch''}" for k
  proof -
    have "status_of cs4 k = status_of (compatibility_phase ctx cs3) k" by (rule fp(2)) (use that in auto)
    also have "\<dots> = status_of cs3 k" unfolding fc using that by auto
    finally show ?thesis .
  qed
  have nat: "status_of cs4 ''deadlock'' = Some VALID \<and> status_of cs4 ''endpoint'' = Some VALID \<longleftrightarrow> exo \<noteq> None"
    using fn(1) fl(2) [of "''deadlock''"] fl(2) [of "''endpoint''"] keep [of "''deadlock''"] keep [of "''endpoint''"] by simp
  have xml: "status_of cs4 ''xml'' = Some VALID \<longleftrightarrow> check_supplied (sha256 xml) ctx side = Inr () \<and> validate_xml xml prog (ctx_inputs ctx) = Inr ()"
    using fx(1) [unfolded bnd_Inr_iff] fn(3) [of "''xml''"] fl(2) [of "''xml''"] keep [of "''xml''"] by simp
  have launch: "status_of cs4 ''launch'' = status_of cs3 ''launch''" by (rule keep) simp
  have compat: "status_of cs4 ''launch'' = Some VALID \<Longrightarrow> status_of cs4 ''compatibility'' \<in> {Some VALID, Some NOT_RUN}"
    using fp(2) [of "''compatibility''"] fc s3 [of "''compatibility''"] launch by auto
  have "can_execute b \<longleftrightarrow> status_of cs4 ''xml'' = Some VALID \<and> (status_of cs4 ''deadlock'' = Some VALID \<and> status_of cs4 ''endpoint'' = Some VALID)
      \<and> status_of cs4 ''launch'' = Some VALID \<and> (\<forall>k\<in>{''semantic'', ''storage'', ''prediction''}. status_of cs4 k = Some VALID)"
    unfolding can_execute_def b(1) using compat by auto
  also have "\<dots> \<longleftrightarrow> (\<exists>ex p v. admissible sha256 validate_xml side plan prog xml ctx ex p v \<and> exo = Some ex \<and> cb_prediction b = Some p \<and> cb_version b = Some v)"
    unfolding xml nat launch fl(1) fp(1) admissible_def using fn(2) by blast
  finally show ?thesis unfolding b(2) .
qed

lemma evaluate_accepts:
  assumes "admissible sha256 validate_xml side plan prog xml ctx ex p v"
  shows "\<exists>b. evaluate_program sha256 validate_xml side plan prog xml ctx = Some (Inr b) \<and> can_execute b \<and> cb_version b = Some v \<and> cb_prediction b = Some p"
proof -
  obtain pd report evidence where s: "check_supplied (sha256 xml) ctx side = Inr ()" "check_recorded side v = Inr ()" and a: "validate_xml xml prog (ctx_inputs ctx) = Inr ()" "execution_dependencies prog = Some (Inr pd)" "validate_bindings prog plan = Some (Inr ())"
    "build_executable prog plan (ctx_inputs ctx) (ctx_topology ctx) = Some (Inr ex)" "native_capacity prog (ctx_limits ctx) (ctx_inputs ctx) = Inr report"
    "launch_checks prog plan ctx report = Inr ()" "predict ex (model_context (ctx_model ctx)) (ctx_model ctx) = Some (Inr p)" "t_pred_us p \<noteq> None"
    "build_version_schedule plan ex p (ctx_inputs ctx) = Some (Inr v)" "check_storage_values plan v (ctx_inputs ctx) = Inr evidence"
    using assms unfolding admissible_def by blast
  have "\<exists>b. evaluate_program sha256 validate_xml side plan prog xml ctx = Some (Inr b) \<and> cb_version b = Some v \<and> cb_prediction b = Some p \<and> cb_executable b = Some ex"
    using a(8) by (simp add: evaluate_program_def s a(1-7,9,10) xml_phase_def native_phase_def Let_def launch_phase_def prediction_phase_def replay_phase_def)
  then obtain b where b: "evaluate_program sha256 validate_xml side plan prog xml ctx = Some (Inr b)" "cb_version b = Some v" "cb_prediction b = Some p" "cb_executable b = Some ex" by blast
  from can_execute_admissible [OF b(1)] assms b show ?thesis by blast
qed


section \<open>Delivery\<close>

text \<open>The input of every rank is in place before the program starts: byte \<open>b\<close> of rank \<open>r\<close> at the runtime input address of its slice.\<close>

definition inputs_in_place :: "resolved_input \<Rightarrow> memory \<Rightarrow> bool" where
  "inputs_in_place inputs mem \<longleftrightarrow> (\<forall>r p region i. 0 \<le> r \<and> 0 \<le> p \<and> canonical_region (Address r ''i'' p) inputs = Inr region \<and> 0 \<le> i \<and> i < region_size region
     \<longrightarrow> mem (cell_of region i) = {#(r, p * region_size region + i)#})"

lemma build_version_schedule_Inr:
  assumes "build_version_schedule plan ex p inputs = Some (Inr v)"
  obtains n sz tt where "slices inputs = Inr n" "slice_bytes inputs = Inr sz" "run_times ex p = Some (Inr tt)"
    "list_all2 (\<lambda>key s. initial_version plan inputs n sz key = Inr s) (initial_ids plan) (initial_states v)"
    "list_all2 (\<lambda>op w. version_step plan inputs (dict_of (map (\<lambda>op. (work_id op, op)) (exec_operations ex))) tt op = Inr w) (instructions plan) (operations v)"
    "outputs v = map (\<lambda>(slot, key). \<lparr>ob_rank = slot_rank slot, offset_bytes = slot_offset slot * sz, ob_state_id = key\<rparr>) (plan_outputs plan)"
    "0 < vs_rank_count v" "vs_rank_count v = rank_count inputs"
proof -
  obtain n sz initial tt where a: "slices inputs = Inr n" "slice_bytes inputs = Inr sz" "map_res (initial_version plan inputs n sz) (initial_ids plan) = Inr initial"
    "run_times ex p = Some (Inr tt)" "assemble_schedule plan ex inputs sz initial tt = Inr v"
    using assms by (auto simp: build_version_schedule_def res_simps split: sum.splits)
  from a(5) obtain ops outs where ops: "map_res (version_step plan inputs (dict_of (map (\<lambda>op. (work_id op, op)) (exec_operations ex))) tt) (instructions plan) = Inr ops"
    and outs: "map_res (\<lambda>(slot, key). output_binding_post_init \<lparr>ob_rank = slot_rank slot, offset_bytes = slot_offset slot * sz, ob_state_id = key\<rparr>) (plan_outputs plan) = Inr outs"
    and v: "v = \<lparr>vs_rank_count = rank_count inputs, input_bytes = total_size_bytes (hyper inputs), vs_slice_size_bytes = sz,
       stage_count = plan_stage_count plan, initial_states = initial, operations = ops, outputs = outs\<rparr>" "0 < rank_count inputs"
    by (auto simp: assemble_schedule_def res_simps version_schedule_post_init_def positive_field_def nonnegative_def)
  have "outs = map (\<lambda>(slot, key). \<lparr>ob_rank = slot_rank slot, offset_bytes = slot_offset slot * sz, ob_state_id = key\<rparr>) (plan_outputs plan)"
    using outs unfolding map_res_Inr_iff
    by (induction rule: list_all2_induct) (auto simp: output_binding_post_init_def res_simps)
  with a ops v show thesis by (intro that [of n sz tt]) (simp_all add: map_res_Inr_iff)
qed

lemma initial_version_Inr:
  assumes "initial_version plan inputs n sz key = Inr s" "slice_bytes inputs = Inr sz" "slices inputs = Inr n"
  shows "canonical_state s" "\<exists>p. 0 \<le> state_rank s \<and> 0 \<le> p \<and> logical_start s = p * sz \<and> region_size (storage s) = sz
    \<and> canonical_region (Address (state_rank s) ''i'' p) inputs = Inr (storage s)"
proof -
  obtain v :: state_value and region pieces where i: "canonical_region (Address (val_rank v) ''i'' (val_position v)) inputs = Inr region"
    "state_version_init key (val_rank v) (val_position v * sz) ((val_position v + 1) * sz) pieces region (Finite 0) = Inr s"
    using assms(1) unfolding initial_version_def bnd_Inr_iff ensure_Inr_iff by blast
  note f = state_version_init_Inr [OF i(2)]
  from f(1) show "canonical_state s" .
  have r: "0 \<le> val_rank v" "0 < sz" "region_size region = sz" using i(1) unfolding canonical_region_Inr_iff [OF assms(3,2)] by auto
  have "0 \<le> val_position v * sz" using f(1,4) by (simp add: canonical_state_def)
  then have "0 \<le> val_position v" using r(2) by (simp add: zero_le_mult_iff)
  then show "\<exists>p. 0 \<le> state_rank s \<and> 0 \<le> p \<and> logical_start s = p * sz \<and> region_size (storage s) = sz
    \<and> canonical_region (Address (state_rank s) ''i'' p) inputs = Inr (storage s)" using f r i(1) by (intro exI [of _ "val_position v"]) simp
qed

lemma replayed_initial_source:
  assumes "replay_version_schedule v inputs = Inr (l, summary)" "s \<in> set (initial_states v)"
  shows "Ledger_Invariant.sources s = {state_rank s}"
  using assms(1)
proof (rule replay_version_schedule_phases)
  fix l0 l1 assume "add_initial_states v inputs l0 = Inr l1"
  then obtain acc where "for_each (add_initial_state v inputs) (map (\<lambda>rank. (rank, [])) (source_ranks inputs (vs_rank_count v)), l0) (initial_states v) = Inr acc"
    by (auto simp: add_initial_states_def res_simps)
  from for_each_each [OF this assms(2)] have "length (contributors s) = 1" "range_source (hd (contributors s)) = state_rank s"
    by (auto simp: add_initial_state_def res_simps)
  then show ?thesis by (cases "contributors s") (auto simp: Ledger_Invariant.sources_def)
qed

lemma initial_states_hold:
  assumes b: "build_version_schedule plan ex p inputs = Some (Inr v)" and r: "replay_version_schedule v inputs = Inr (l, summary)" and m: "inputs_in_place inputs mem"
  shows "\<forall>s\<in>set (initial_states v). canonical_state s \<and> holds mem s"
  using b
proof (rule build_version_schedule_Inr)
  fix n sz
  assume n: "slices inputs = Inr n" "slice_bytes inputs = Inr sz" and i: "list_all2 (\<lambda>key s. initial_version plan inputs n sz key = Inr s) (initial_ids plan) (initial_states v)"
  show ?thesis
  proof
    fix s assume s: "s \<in> set (initial_states v)"
    then obtain key where key: "initial_version plan inputs n sz key = Inr s" using i by (auto simp: list_all2_conv_all_nth in_set_conv_nth)
    note f = initial_version_Inr [OF key n(2,1)]
    from f(2) obtain q where q: "0 \<le> state_rank s" "0 \<le> q" "logical_start s = q * sz" "region_size (storage s) = sz" "canonical_region (Address (state_rank s) ''i'' q) inputs = Inr (storage s)" by blast
    have "mem (cell_of (storage s) i) = payload_byte (Ledger_Invariant.sources s) (logical_start s + i)" if "0 \<le> i" "i < region_size (storage s)" for i
    proof -
      have "mem (cell_of (storage s) i) = {#(state_rank s, q * region_size (storage s) + i)#}" using m q that unfolding inputs_in_place_def by blast
      then show ?thesis by (simp add: replayed_initial_source [OF r s] payload_byte_def q(3,4))
    qed
    with f(1) show "canonical_state s \<and> holds mem s" by (auto simp: holds_def)
  qed
qed

lemma delivered_at_output:
  assumes b: "build_version_schedule plan ex p inputs = Some (Inr v)" and c: "check_storage_values plan v inputs = Inr evidence" and m: "inputs_in_place inputs mem"
    and sz: "slice_bytes inputs = Inr sz"
    and d: "slot_demand (kind (collective inputs)) (root_value (collective inputs)) (rank_count inputs) (total_size_bytes (hyper inputs)) (OutputSlot r b) = Some (a, srcs)"
  shows "\<exists>region. canonical_region (Address r ''o'' (b div sz)) inputs = Inr region \<and> memory_after v inputs mem (cell_of region (b mod sz)) = payload_byte srcs a"
  using b
proof (rule build_version_schedule_Inr)
  fix n sz'
  assume n: "slices inputs = Inr n" "slice_bytes inputs = Inr sz'" and v: "0 < vs_rank_count v"
    and o: "outputs v = map (\<lambda>(slot, key). \<lparr>ob_rank = slot_rank slot, offset_bytes = slot_offset slot * sz', ob_state_id = key\<rparr>) (plan_outputs plan)"
  have sz': "sz' = sz" using n(2) sz by simp
  obtain l where r: "replay_version_schedule v inputs = Inr (l, evidence)" and res: "\<forall>e\<in>set (plan_outputs plan). check_result_address l inputs e = Inr ()"
    using c by (auto simp: check_storage_values_def res_simps)
  from replay_delivers [OF r v initial_states_hold [OF b r m] d] obtain out s i where out: "out \<in> set (outputs v)" "ob_rank out = r" "offset_bytes out + i = b"
    "active_state l (ob_state_id out) s" "0 \<le> i" "i < region_size (storage s)" "memory_after v inputs mem (cell_of (storage s) i) = payload_byte srcs a" by blast
  from out(1) o obtain slot where slot: "(slot, ob_state_id out) \<in> set (plan_outputs plan)" "r = slot_rank slot" "offset_bytes out = slot_offset slot * sz" using out(2) sz' by auto
  have reg: "canonical_region (Address r ''o'' (slot_offset slot)) inputs = Inr (storage s)"
    using res slot(1) out(4) unfolding slot(2) by (fastforce simp: check_result_address_def res_simps state_def active_state_def)
  then have "region_size (storage s) = sz" "0 < sz" unfolding canonical_region_Inr_iff [OF n(1) sz] by auto
  with out(3,5,6) slot(3) have "b div sz = slot_offset slot" "b mod sz = i" by auto
  with reg out(7) show ?thesis by auto
qed


section \<open>An example\<close>

text \<open>
  A broadcast of one slice to two ranks: rank 0 sends it to scratch storage of rank 1 and copies it to its own output; rank 1 copies it from scratch, in a
  second threadblock that waits for the first.
\<close>

definition broadcast_inputs :: resolved_input where
  "broadcast_inputs = \<lparr>collective = \<lparr>kind = BROADCAST, datatype_name = ''int8'', reduction_op = None, root = Some 0, inplace = False\<rparr>,
     hyper = \<lparr>total_size_bytes = 2, slice_size_bytes = Some 2, reference_slice_size_bytes = Some 2\<rparr>,
     atom_cons = \<lparr>stage_num = None, forbidden_transfers = []\<rparr>, rank_count = 2, solver_max_channels = 1,
     directed_links = [\<lparr>link_src = 0, link_dst = 1, link_max_channels = 1\<rparr>], scratch_bytes_per_rank = 2, tb_layout = ''split''\<rparr>"

definition unit_cost :: service_cost where
  "unit_cost = \<lparr>alpha_cost = 1, beta_cost = 1, cost_source = ''initial'', cost_min_bytes = 1, cost_max_bytes = None, cost_measured_at = None, cost_qualified = True\<rparr>"

definition broadcast_model :: cost_model where
  "broadcast_model = \<lparr>model_version = ''v1'', services = [(''copy:0'', [unit_cost]), (''copy:1'', [unit_cost]), (''link:0:1'', [unit_cost])],
     model_resources = [(''link:0:1'', 1)], profiles = [], model_context = []\<rparr>"

definition broadcast_context :: lowering_context where
  "broadcast_context = \<lparr>ctx_inputs = broadcast_inputs, ctx_topology = example_topology, ctx_model = broadcast_model,
     ctx_limits = default_limits, ctx_buffsize = ''8192'', ctx_compatibility = True, ctx_input_sha256 = ''request''\<rparr>"

definition broadcast_value :: "string \<Rightarrow> int \<Rightarrow> string option \<Rightarrow> string \<times> state_value" where
  "broadcast_value k r producer = (k, \<lparr>val_id = k, val_rank = r, val_position = 0, val_contributors = {0}, val_producer = producer\<rparr>)"

definition broadcast_instruction :: "string \<Rightarrow> string \<Rightarrow> string \<Rightarrow> string \<Rightarrow> int \<Rightarrow> int \<Rightarrow> string set \<Rightarrow> instruction" where
  "broadcast_instruction oid knd src dst r chan deps = \<lparr>ins_id = oid, ins_kind = knd, ins_inputs = [src], ins_output = dst, ins_rank = r, ins_peer = 0, ins_channel = chan, ins_stage = 0,
     ins_participants = [], ins_dependencies = deps, ins_priority = 0\<rparr>"

definition broadcast_plan :: storage_plan where
  "broadcast_plan = \<lparr>plan_values = [broadcast_value ''x'' 0 None, broadcast_value ''t'' 1 (Some ''a''), broadcast_value ''u'' 1 (Some ''b''), broadcast_value ''w'' 0 (Some ''c'')],
     initial_ids = [''x''],
     instructions = [broadcast_instruction ''a'' ''send'' ''x'' ''t'' 1 0 {}, broadcast_instruction ''b'' ''copy'' ''t'' ''u'' 1 (-1) {''a''},
       broadcast_instruction ''c'' ''copy'' ''x'' ''w'' 0 (-1) {}],
     addresses = [(''x'', Address 0 ''i'' 0), (''t'', Address 1 ''s'' 0), (''u'', Address 1 ''o'' 0), (''w'', Address 0 ''o'' 0)],
     plan_outputs = [(OutputSlot 0 0, ''w''), (OutputSlot 1 0, ''u'')], input_slots = [(0, 1), (1, 1)], output_slots = [(0, 1), (1, 1)], scratch_slots = [(0, 0), (1, 1)],
     reuse = [], plan_stage_count = 1, reference_orders_omitted = []\<rparr>"

definition broadcast_step :: "string \<Rightarrow> string \<Rightarrow> string \<Rightarrow> address \<Rightarrow> address \<Rightarrow> int \<Rightarrow> bool \<Rightarrow> native_step" where
  "broadcast_step sid oid knd src dst dep has = \<lparr>nstep_id = sid, nstep_op = oid, nstep_kind = knd, nstep_src = Some src, nstep_dst = Some dst,
     nstep_dep_tb = dep, nstep_dep_step = dep, nstep_has_dep = has, nstep_count = 1\<rparr>"

definition broadcast_program :: native_program where
  "broadcast_program = \<lparr>np_rank_count = 2, np_channels = 1, np_chunks_per_loop = 1, np_blocks =
     [\<lparr>nb_rank = 0, nb_tb_id = 0, nb_channel = 0, nb_send_peer = 1, nb_recv_peer = -1, nb_steps = [broadcast_step ''as'' ''a'' ''s'' (Address 0 ''i'' 0) (Address 1 ''s'' 0) (-1) False]\<rparr>,
      \<lparr>nb_rank = 0, nb_tb_id = 1, nb_channel = 0, nb_send_peer = -1, nb_recv_peer = -1, nb_steps = [broadcast_step ''cc'' ''c'' ''cpy'' (Address 0 ''i'' 0) (Address 0 ''o'' 0) (-1) False]\<rparr>,
      \<lparr>nb_rank = 1, nb_tb_id = 0, nb_channel = 0, nb_send_peer = -1, nb_recv_peer = 0, nb_steps = [broadcast_step ''ar'' ''a'' ''r'' (Address 0 ''i'' 0) (Address 1 ''s'' 0) (-1) True]\<rparr>,
      \<lparr>nb_rank = 1, nb_tb_id = 1, nb_channel = 0, nb_send_peer = -1, nb_recv_peer = -1, nb_steps = [broadcast_step ''bc'' ''b'' ''cpy'' (Address 1 ''s'' 0) (Address 1 ''o'' 0) 0 False]\<rparr>],
     np_input_slots = [(0, 1), (1, 1)], np_output_slots = [(0, 1), (1, 1)], np_scratch_slots = [(0, 0), (1, 1)]\<rparr>"

definition broadcast_work :: "string \<Rightarrow> string \<Rightarrow> string \<Rightarrow> string list \<Rightarrow> string list \<Rightarrow> string option \<Rightarrow> work_operation" where
  "broadcast_work oid knd cost deps resources flow = \<lparr>work_id = oid, work_kind = knd, cost_key = Some cost, payload_bytes = 2, work_dependencies = deps,
     work_resources = resources, flow_id = flow, not_before_us = 0, source_override = None\<rparr>"

definition broadcast_executable :: executable where
  "broadcast_executable = \<lparr>exec_operations = [broadcast_work ''a'' ''send'' ''link:0:1'' [] [''link:0:1''] (Some ''send:0:1:c0''),
     broadcast_work ''b'' ''copy'' ''copy:1'' [''a''] [] None, broadcast_work ''c'' ''copy'' ''copy:0'' [] [] None], output_operations = [''b'', ''c'']\<rparr>"

definition broadcast_region :: "int \<Rightarrow> string \<Rightarrow> buffer_region" where
  "broadcast_region rank buf = \<lparr>region_rank = rank, buffer_id = buf, region_offset = 0, region_size = 2, region_kind = buf\<rparr>"

definition broadcast_operation :: "string \<Rightarrow> string \<Rightarrow> string \<Rightarrow> buffer_region \<Rightarrow> rat \<Rightarrow> rat \<Rightarrow> string list \<Rightarrow> version_operation" where
  "broadcast_operation oid src dst region start finish deps = \<lparr>operation_id = oid, op_kind = ''copy'', input_states = [src], output_state = Some dst,
     destination = Some region, start_us = start, end_us = finish, op_stage_id = 0, dependencies = deps, participants = []\<rparr>"

definition broadcast_version :: version_schedule where
  "broadcast_version = \<lparr>vs_rank_count = 2, input_bytes = 2, vs_slice_size_bytes = 2, stage_count = 1,
     initial_states = [\<lparr>state_id = ''x'', state_rank = 0, logical_start = 0, logical_end = 2, contributors = [DataRange 0 0 2], storage = broadcast_region 0 ''input'', ready_us = 0\<rparr>],
     operations = [broadcast_operation ''a'' ''x'' ''t'' (broadcast_region 1 ''scratch'') 0 3 [], broadcast_operation ''b'' ''t'' ''u'' (broadcast_region 1 ''output'') 3 6 [''a''],
       broadcast_operation ''c'' ''x'' ''w'' (broadcast_region 0 ''output'') 0 3 []],
     outputs = [\<lparr>ob_rank = 0, offset_bytes = 0, ob_state_id = ''w''\<rparr>, \<lparr>ob_rank = 1, offset_bytes = 0, ob_state_id = ''u''\<rparr>]\<rparr>"

lemma broadcast_program_checks:
  "is_ok (the (execution_dependencies broadcast_program)) \<and> execution_dependencies broadcast_program \<noteq> None"
  by code_simp

lemma broadcast_bindings: "validate_bindings broadcast_program broadcast_plan = Some (Inr ())"
  by code_simp

lemma broadcast_executable: "build_executable broadcast_program broadcast_plan broadcast_inputs example_topology = Some (Inr broadcast_executable)"
  by code_simp

lemma broadcast_capacity: "native_capacity broadcast_program default_limits broadcast_inputs = Inr []"
  by code_simp

lemma broadcast_launch: "launch_checks broadcast_program broadcast_plan broadcast_context [] = Inr ()"
  by code_simp

lemma broadcast_predict:
  "case predict broadcast_executable [] broadcast_model of Some (Inr p) \<Rightarrow> t_pred_us p = Some 6 \<and> pred_starts p = [(''a'', 0), (''c'', 0), (''b'', 3)] \<and> pred_ends p = [(''a'', 3), (''c'', 3), (''b'', 6)] | _ \<Rightarrow> False"
  by code_simp

lemma broadcast_values: "is_ok (check_storage_values broadcast_plan broadcast_version broadcast_inputs)"
  by code_simp


definition broadcast_prediction :: prediction where
  "broadcast_prediction = projr (the (predict broadcast_executable [] broadcast_model))"

lemma broadcast_predicted:
  "predict broadcast_executable [] broadcast_model = Some (Inr broadcast_prediction)" "t_pred_us broadcast_prediction = Some 6"
  "pred_starts broadcast_prediction = [(''a'', 0), (''c'', 0), (''b'', 3)]" "pred_ends broadcast_prediction = [(''a'', 3), (''c'', 3), (''b'', 6)]"
  using broadcast_predict [unfolded run_ok_iff] by (auto simp: broadcast_prediction_def)

lemma broadcast_initial: "map_res (initial_version broadcast_plan broadcast_inputs 1 2) (initial_ids broadcast_plan) = Inr (initial_states broadcast_version)"
  by code_simp

lemma broadcast_assembled:
  "assemble_schedule broadcast_plan broadcast_executable broadcast_inputs 2 (initial_states broadcast_version)
     ([(''a'', 0), (''c'', 0), (''b'', 3)], [(''a'', 3), (''c'', 3), (''b'', 6)]) = Inr broadcast_version"
  by code_simp

lemma broadcast_sizes: "slices broadcast_inputs = Inr 1" "slice_bytes broadcast_inputs = Inr 2"
  by (simp_all add: slices_def slice_bytes_def slice_count_def broadcast_inputs_def)

lemma broadcast_schedule: "build_version_schedule broadcast_plan broadcast_executable broadcast_prediction broadcast_inputs = Some (Inr broadcast_version)"
  by (simp add: build_version_schedule_def broadcast_sizes broadcast_initial run_times_def broadcast_predicted broadcast_assembled)

lemma broadcast_admissible: "admissible id (\<lambda>_ _ _. Inr ()) None broadcast_plan broadcast_program ''xml'' broadcast_context broadcast_executable broadcast_prediction broadcast_version"
proof -
  have "\<exists>pd. execution_dependencies broadcast_program = Some (Inr pd)" using broadcast_program_checks by (auto simp: is_ok_iff)
  moreover have ctx: "ctx_inputs broadcast_context = broadcast_inputs" "ctx_topology broadcast_context = example_topology" "ctx_model broadcast_context = broadcast_model"
    "ctx_limits broadcast_context = default_limits" "model_context broadcast_model = []" by (simp_all add: broadcast_context_def broadcast_model_def)
  ultimately show ?thesis
    unfolding admissible_def ctx using broadcast_values
    by (simp add: broadcast_bindings broadcast_executable broadcast_capacity broadcast_launch broadcast_predicted broadcast_schedule is_ok_iff check_supplied_def check_recorded_def)
qed

definition loaded_memory :: memory where
  "loaded_memory = (\<lambda>(rank, buf, b). if buf = ''input'' then {#(rank, b)#} else {#})"

lemma broadcast_loaded: "inputs_in_place broadcast_inputs loaded_memory"
proof -
  have "\<not> inplace (collective broadcast_inputs)" by (simp add: broadcast_inputs_def)
  then show ?thesis by (auto simp: inputs_in_place_def canonical_region_Inr_iff [OF broadcast_sizes] loaded_memory_def cell_of_def place_name_def place_offset_def)
qed

section \<open>Admitted candidates\<close>

text \<open>
  C36.  A candidate that the admission lets execute computes its collective.  When the inputs are in the runtime input buffers, running the operations at the predicted
  times leaves every byte \<open>b\<close> that the collective demands of rank \<open>r\<close> in the runtime output buffer of that rank, at its place, as the exact sum of the demanded original bytes.
\<close>

theorem admitted_delivers:
  assumes "evaluate_program sha256 validate_xml side plan prog xml ctx = Some (Inr b)" "can_execute b"
    and "inputs_in_place (ctx_inputs ctx) mem" "slice_bytes (ctx_inputs ctx) = Inr sz"
    and "slot_demand (kind (collective (ctx_inputs ctx))) (root_value (collective (ctx_inputs ctx))) (rank_count (ctx_inputs ctx))
           (total_size_bytes (hyper (ctx_inputs ctx))) (OutputSlot r byte) = Some (a, srcs)"
  shows "\<exists>v region. cb_version b = Some v \<and> canonical_region (Address r ''o'' (byte div sz)) (ctx_inputs ctx) = Inr region
    \<and> memory_after v (ctx_inputs ctx) mem (cell_of region (byte mod sz)) = payload_byte srcs a"
proof -
  obtain ex p v where "admissible sha256 validate_xml side plan prog xml ctx ex p v" and v: "cb_version b = Some v" using can_execute_admissible [OF assms(1)] assms(2) by blast
  then obtain evidence where "build_version_schedule plan ex p (ctx_inputs ctx) = Some (Inr v)" "check_storage_values plan v (ctx_inputs ctx) = Inr evidence"
    unfolding admissible_def by blast
  from delivered_at_output [OF this assms(3-5)] v show ?thesis by blast
qed

theorem admitted_delivers_witness:
  "\<exists>b v. evaluate_program id (\<lambda>_ _ _. Inr ()) None broadcast_plan broadcast_program ''xml'' broadcast_context = Some (Inr b) \<and> cb_version b = Some v
    \<and> memory_after v broadcast_inputs loaded_memory (cell_of (broadcast_region 1 ''output'') 1) = {#(0, 1)#}"
proof -
  obtain b where b: "evaluate_program id (\<lambda>_ _ _. Inr ()) None broadcast_plan broadcast_program ''xml'' broadcast_context = Some (Inr b)" "can_execute b"
    using evaluate_accepts [OF broadcast_admissible] by blast
  have ctx: "ctx_inputs broadcast_context = broadcast_inputs" by (simp add: broadcast_context_def)
  have loaded: "inputs_in_place (ctx_inputs broadcast_context) loaded_memory" "slice_bytes (ctx_inputs broadcast_context) = Inr 2"
    by (simp_all add: ctx broadcast_loaded broadcast_sizes)
  have demand: "slot_demand (kind (collective (ctx_inputs broadcast_context))) (root_value (collective (ctx_inputs broadcast_context))) (rank_count (ctx_inputs broadcast_context))
      (total_size_bytes (hyper (ctx_inputs broadcast_context))) (OutputSlot 1 1) = Some (1, {0})" by (simp add: ctx broadcast_inputs_def slot_demand_def root_value_def)
  have region: "canonical_region (Address 1 ''o'' (1 div 2)) broadcast_inputs = Inr (broadcast_region 1 ''output'')" by code_simp
  have one: "payload_byte {0} 1 = {#(0, 1)#}" by (simp add: payload_byte_def)
  from admitted_delivers [OF b loaded demand] show ?thesis unfolding ctx region one using b(1) by auto
qed

end
