(* ===== verification/Admission_Order.thy ===== *)
theory Admission_Order
  imports Admission_Correct
begin

text \<open>
  The binding check of the admission: an accepted native program has exactly the endpoints of its storage plan, within the declared storage, and orders
  its operations and the steps of every rank as the dependencies of the plan demand.
\<close>

unbundle bit_operations_syntax

section \<open>The steps of a program\<close>

definition steps_of_blocks :: "native_block list \<Rightarrow> (native_block \<times> nat \<times> native_step) list" where
  "steps_of_blocks bs = concat (map (\<lambda>b. map (Pair b) (enumerate 0 (nb_steps b))) bs)"

definition step_place :: "native_block \<times> nat \<times> native_step \<Rightarrow> step_key" where
  "step_place e = (case e of (b, i, s) \<Rightarrow> (nb_rank b, nb_tb_id b, int i))"

definition shows_op :: "string \<Rightarrow> native_block \<times> nat \<times> native_step \<Rightarrow> bool" where
  "shows_op k e = (case e of (b, i, s) \<Rightarrow> nstep_op s = k \<and> nstep_kind s \<noteq> ''nop'')"

lemma foldl_concat_pairs: "foldl (\<lambda>a b. foldl (f b) a (g b)) a bs = foldl (\<lambda>a (b, x). f b a x) a (concat (map (\<lambda>b. map (Pair b) (g b)) bs))"
proof (induction bs arbitrary: a)
  case (Cons b bs)
  have "foldl (\<lambda>a (b, x). f b a x) a (map (Pair b) xs) = foldl (f b) a xs" for xs by (induction xs arbitrary: a) auto
  with Cons show ?case by simp
qed simp

lemma local_order_steps: "local_order_of prog = foldl (\<lambda>lo (b, e). note_step b lo e) \<lparr>lo_edges = [], lo_locations = []\<rparr> (steps_of_blocks (np_blocks prog))"
  using foldl_concat_pairs [of note_step "\<lambda>b. enumerate 0 (nb_steps b)"] by (simp add: local_order_of_def note_block_def [abs_def] steps_of_blocks_def)

lemma program_step_mem:
  assumes "map_of (program_steps prog) l = Some s"
  obtains b i where "(b, i, s) \<in> set (steps_of_blocks (np_blocks prog))" "l = step_place (b, i, s)"
  using dict_of_mem [OF assms [unfolded program_steps_def]] that by (fastforce simp: steps_of_blocks_def step_place_def)

definition noted :: "(native_block \<times> nat \<times> native_step) list \<Rightarrow> local_order \<Rightarrow> bool" where
  "noted steps lo \<longleftrightarrow>
     (\<forall>k rank key. map_of (lo_locations lo) (k, rank) = Some key \<longrightarrow> (\<exists>e\<in>set steps. shows_op k e \<and> nb_rank (fst e) = rank \<and> key = step_place e))
     \<and> (\<forall>e\<in>set steps. \<forall>k. shows_op k e \<longrightarrow> map_of (lo_locations lo) (k, nb_rank (fst e)) \<noteq> None)
     \<and> (\<forall>e\<in>set steps. step_place e \<in> set (dict_keys (dict_get (lo_edges lo) (nb_rank (fst e)) [])))
     \<and> (\<forall>rank. wf_dict (dict_get (lo_edges lo) rank []))
     \<and> (\<forall>rank key ds. map_of (dict_get (lo_edges lo) rank []) key = Some ds \<longrightarrow> (\<exists>b i s. (b, i, s) \<in> set steps \<and> key = step_place (b, i, s) \<and> ds = local_edges b i s))"

lemma notedD:
  assumes "noted steps lo"
  shows "map_of (lo_locations lo) (k, rank) = Some key \<Longrightarrow> \<exists>e\<in>set steps. shows_op k e \<and> nb_rank (fst e) = rank \<and> key = step_place e"
    "e \<in> set steps \<Longrightarrow> shows_op k e \<Longrightarrow> map_of (lo_locations lo) (k, nb_rank (fst e)) \<noteq> None"
    "e \<in> set steps \<Longrightarrow> step_place e \<in> set (dict_keys (dict_get (lo_edges lo) (nb_rank (fst e)) []))"
    "wf_dict (dict_get (lo_edges lo) rank [])"
    "map_of (dict_get (lo_edges lo) rank []) key = Some ds \<Longrightarrow> \<exists>b i s. (b, i, s) \<in> set steps \<and> key = step_place (b, i, s) \<and> ds = local_edges b i s"
  using assms unfolding noted_def by (elim conjE; meson)+

lemma noted_step:
  assumes "noted steps lo"
  shows "noted (steps @ [(b, i, s)]) (note_step b lo (i, s))"
proof -
  let ?lo = "note_step b lo (i, s)" and ?e = "(b, i, s)" and ?es = "dict_get (lo_edges lo) (nb_rank b) []"
  have loc: "map_of (lo_locations ?lo) (k, rank) = (if shows_op k ?e \<and> rank = nb_rank b then Some (step_place ?e) else map_of (lo_locations lo) (k, rank))" for k rank
    by (auto simp: note_step_def Let_def shows_op_def step_place_def update_conv')
  have edg: "dict_get (lo_edges ?lo) rank [] = (if rank = nb_rank b then AList.update (step_place ?e) (local_edges b i s) ?es else dict_get (lo_edges lo) rank [])" for rank
    by (auto simp: note_step_def Let_def step_place_def)
  note n = notedD [OF assms]
  have "\<exists>e\<in>set (steps @ [?e]). shows_op k e \<and> nb_rank (fst e) = rank \<and> key = step_place e" if "map_of (lo_locations ?lo) (k, rank) = Some key" for k rank key
  proof (cases "shows_op k ?e \<and> rank = nb_rank b")
    case True
    with that loc show ?thesis by auto
  next
    case False
    then have "map_of (lo_locations lo) (k, rank) = Some key" using that unfolding loc by (simp only: if_False)
    from n(1) [OF this] obtain e where "e \<in> set steps" "shows_op k e \<and> nb_rank (fst e) = rank \<and> key = step_place e" by blast
    then show ?thesis by (intro bexI [of _ e]) simp_all
  qed
  moreover have "map_of (lo_locations ?lo) (k, nb_rank (fst e)) \<noteq> None" if "e \<in> set (steps @ [?e])" "shows_op k e" for e k
    using that n(2) [of e k] unfolding loc by (auto simp del: not_None_eq)
  moreover have "step_place e \<in> set (dict_keys (dict_get (lo_edges ?lo) (nb_rank (fst e)) []))" if "e \<in> set (steps @ [?e])" for e
    using that n(3) [of e] unfolding edg by (auto simp: keys_update)
  moreover have "wf_dict (dict_get (lo_edges ?lo) rank [])" for rank using n(4) unfolding edg by simp
  moreover have "\<exists>b' i' s'. (b', i', s') \<in> set (steps @ [?e]) \<and> key = step_place (b', i', s') \<and> ds = local_edges b' i' s'"
    if "map_of (dict_get (lo_edges ?lo) rank []) key = Some ds" for rank key ds
  proof (cases "rank = nb_rank b \<and> key = step_place ?e")
    case True
    with that show ?thesis unfolding edg by (auto simp: update_conv')
  next
    case False
    then have "map_of (dict_get (lo_edges lo) rank []) key = Some ds" using that unfolding edg by (auto simp: update_conv' split: if_splits)
    from n(5) [OF this] obtain b' i' s' where "(b', i', s') \<in> set steps" "key = step_place (b', i', s') \<and> ds = local_edges b' i' s'" by blast
    then show ?thesis by (intro exI [of _ b'] exI [of _ i'] exI [of _ s']) simp
  qed
  ultimately show ?thesis unfolding noted_def by blast
qed

lemma local_order_noted: "noted (steps_of_blocks (np_blocks prog)) (local_order_of prog)"
proof -
  have "noted steps (foldl (\<lambda>lo (b, e). note_step b lo e) \<lparr>lo_edges = [], lo_locations = []\<rparr> steps)" for steps
  proof (induction steps rule: rev_induct)
    case Nil
    show ?case by (simp add: noted_def dict_get_def)
  next
    case (snoc e steps)
    obtain b i s where "e = (b, i, s)" by (cases e) auto
    with noted_step [OF snoc] show ?case by simp
  qed
  then show ?thesis unfolding local_order_steps .
qed


section \<open>The operations of a program\<close>

definition op_members :: "string \<Rightarrow> (native_block \<times> nat \<times> native_step) list \<Rightarrow> (native_block \<times> native_step) list" where
  "op_members k steps = map (\<lambda>(b, i, s). (b, s)) (filter (shows_op k) steps)"

definition scanned_steps :: "(native_block \<times> nat \<times> native_step) list \<Rightarrow> block_scan \<Rightarrow> bool" where
  "scanned_steps steps sc \<longleftrightarrow> wf_dict (bs_by_op sc) \<and> finite (bs_waiting sc) \<and> (\<forall>k. finite (dict_get (bs_dependencies sc) k {})) \<and> (\<forall>k. dict_get (bs_by_op sc) k [] = op_members k steps)"

lemma scan_step_scanned:
  assumes "scanned_steps steps sc" "scan_step table b sc (i, s) = Inr sc'"
  shows "scanned_steps (steps @ [(b, i, s)]) sc'"
proof -
  obtain sc1 where w: "scan_wait table b i s sc = Inr sc1" and rest: "scan_step table b sc (i, s) = (if nstep_kind s = ''nop'' then ensure (\<not> nstep_dep_tb s < 0) (SemanticError ''dependency-only NOP must carry a dependency'') (Inr sc1)
     else ensure (\<not> (bs_waiting sc1 \<noteq> {} \<and> nstep_dep_tb s < 0))
         (SemanticError ''the final instruction of a NOP dependency chain must also carry a dependency'') (
       let deps = dict_get (bs_dependencies sc1) (nstep_op s) {}
             \<union> (case bs_previous sc1 of None \<Rightarrow> {} | Some p \<Rightarrow> if p = nstep_op s then {} else {p}) \<union> bs_waiting sc1 in
       ensure (nstep_op s \<notin> deps) (SemanticError ''native operation depends on its own completion'') (
       Inr (sc1\<lparr>bs_previous := Some (nstep_op s), bs_waiting := {}, bs_dependencies := AList.update (nstep_op s) deps (bs_dependencies sc1),
               bs_by_op := AList.update (nstep_op s) (dict_get (bs_by_op sc1) (nstep_op s) [] @ [(b, s)]) (bs_by_op sc1)\<rparr>))))"
    using assms(2) by (auto simp: scan_step_def bnd_Inr_iff)
  have "scanned_steps steps sc1"
    using w assms(1) by (auto simp: scan_wait_def scanned_steps_def res_simps split: if_splits option.splits)
  then show ?thesis using assms(2) unfolding rest
    by (auto simp: scanned_steps_def op_members_def shows_op_def res_simps Let_def split: if_splits option.splits)
qed

lemma native_scan_scanned:
  assumes "for_each (scan_native_block table) sc bs = Inr sc'" "scanned_steps steps sc"
  shows "scanned_steps (steps @ steps_of_blocks bs) sc'"
  using assms
proof (induction bs arbitrary: sc steps)
  case (Cons b bs)
  from Cons.prems(1) obtain sc1 where step: "scan_native_block table sc b = Inr sc1" and rest: "for_each (scan_native_block table) sc1 bs = Inr sc'" by (auto simp: bnd_Inr_iff)
  from step have one: "for_each (scan_step table b) (sc\<lparr>bs_previous := None, bs_waiting := {}\<rparr>) (enumerate 0 (nb_steps b)) = Inr sc1"
    by (auto simp: scan_native_block_def res_simps)
  have start: "scanned_steps (steps @ map (Pair b) []) (sc\<lparr>bs_previous := None, bs_waiting := {}\<rparr>)" using Cons.prems(2) by (simp add: scanned_steps_def)
  have "scanned_steps (steps @ map (Pair b) (enumerate 0 (nb_steps b))) sc1"
    using one start
  proof (rule for_each_inv_prefix [where I = "\<lambda>pre sc. scanned_steps (steps @ map (Pair b) pre) sc"])
    fix pre x suf t t' assume "scanned_steps (steps @ map (Pair b) pre) t" "scan_step table b t x = Inr t'"
    then show "scanned_steps (steps @ map (Pair b) (pre @ [x])) t'" using scan_step_scanned [of "steps @ map (Pair b) pre" t table b "fst x" "snd x" t'] by simp
  qed
  from Cons.IH [OF rest this] show ?case by (simp add: steps_of_blocks_def)
qed (simp add: steps_of_blocks_def)

lemma execution_dependencies_members:
  assumes "execution_dependencies prog = Some (Inr (deps, actual))"
  shows "wf_dict deps" "finite_deps deps" "dict_keys deps = dict_keys actual" "dict_get actual k [] = op_members k (steps_of_blocks (np_blocks prog))"
    "wf_dict actual" "map_of actual k = Some ms \<Longrightarrow> check_members (k, ms) = Inr ()"
proof -
  obtain sc where sc: "for_each (scan_native_block (program_steps prog)) \<lparr>bs_previous = None, bs_waiting = {}, bs_dependencies = [], bs_by_op = []\<rparr> (np_blocks prog) = Inr sc"
    "actual = bs_by_op sc" "deps = map (\<lambda>(k, _). (k, dict_get (bs_dependencies sc) k {})) (bs_by_op sc)" "check_each check_members (bs_by_op sc) = Inr ()"
    using assms by (auto simp: execution_dependencies_def Let_def res_simps split: sum.splits)
  have s: "scanned_steps ([] @ steps_of_blocks (np_blocks prog)) sc"
    by (rule native_scan_scanned [OF sc(1)]) (simp add: scanned_steps_def op_members_def dict_get_def)
  then show "wf_dict deps" "finite_deps deps" "dict_keys deps = dict_keys actual" "dict_get actual k [] = op_members k (steps_of_blocks (np_blocks prog))" "wf_dict actual"
    unfolding sc(2,3) scanned_steps_def finite_deps_def by (auto simp: comp_def split_def)
  show "map_of actual k = Some ms \<Longrightarrow> check_members (k, ms) = Inr ()" using sc(2,4) by (auto simp: res_simps dest: map_of_SomeD)
qed

section \<open>Ancestor masks\<close>

lemma dependency_ancestors_mask:
  assumes "wf_dict deps" "finite_deps deps" "dependency_ancestors deps = Some (Inr (anc, bits))" "k \<in> set (dict_keys deps)" "j \<in> set (dict_keys deps)"
  shows "dict_get anc k 0 AND dict_get bits j 0 \<noteq> 0 \<longleftrightarrow> (j, k) \<in> (edges (dict_keys deps) (deps_of deps))\<^sup>+"
proof -
  obtain m n where "map_of anc k = Some m" "map_of bits j = Some (2 ^ n)" "m AND 2 ^ n \<noteq> 0 \<longleftrightarrow> (j, k) \<in> (edges (dict_keys deps) (deps_of deps))\<^sup>+"
    using dependency_ancestors_result [OF assms(1,2)] assms(3-5) by fastforce
  then show ?thesis by (simp add: dict_get_def)
qed

lemma dependency_ancestors_keys:
  assumes "wf_dict deps" "finite_deps deps" "dependency_ancestors deps = Some (Inr (anc, bits))"
  shows "set (dict_keys bits) = set (dict_keys deps)"
proof -
  obtain order where "dependency_order deps = Some (Inr order)" "bits = order_bits order" using assms(3) by (auto simp: dependency_ancestors_def res_simps)
  moreover from this have "set order = set (dict_keys deps)" using dependency_order_result [OF assms(1,2)] by auto
  moreover have "fst ` set (order_bits order) = set order"
  proof -
    have keys: "map fst (map (\<lambda>(i, key). (key, push_bit i 1 :: int)) (enumerate 0 order)) = order" by (simp add: comp_def split_def)
    have "dom (map_of (order_bits order)) = set (map fst (map (\<lambda>(i, key). (key, push_bit i 1 :: int)) (enumerate 0 order)))"
      unfolding order_bits_def map_of_dict_of dom_map_of_conv_image_fst by (simp only: set_rev set_map)
    then have "dom (map_of (order_bits order)) = set order" unfolding keys .
    then show ?thesis by (simp add: dom_map_of_conv_image_fst)
  qed
  ultimately show ?thesis by simp
qed

lemma rank_ancestors_entry:
  "rank_ancestors d = Some (Inr la) \<Longrightarrow> map_of la rank = Some m \<Longrightarrow> \<exists>es. map_of d rank = Some es \<and> dependency_ancestors es = Some (Inr m)"
proof (induction d arbitrary: la)
  case (Cons e d)
  then show ?case by (cases e) (auto simp: res_simps split: bind_splits sum.splits if_splits)
qed simp


section \<open>Accepted bindings\<close>

lemma validate_bindings_Inr:
  assumes "validate_bindings prog plan = Some (Inr ())" "execution_dependencies prog = Some (Inr (deps, actual))"
  obtains masks la where "set (dict_keys actual) = ins_id ` set (instructions plan)" "dependency_ancestors deps = Some (Inr masks)"
    "rank_ancestors (lo_edges (local_order_of prog)) = Some (Inr la)" "distinct (map ins_id (instructions plan))"
    "\<And>op. op \<in> set (instructions plan) \<Longrightarrow> check_binding prog plan actual masks (local_order_of prog) la op = Inr ()"
proof -
  have c: "coverage_checks plan (deps, actual) = Inr ()" using assms by (auto simp: validate_bindings_def split: sum.splits dest: sym simp: bnd_Inr_iff bnd_Inl_iff)
  obtain masks where m: "dependency_ancestors deps = Some (Inr masks)" using assms c by (auto simp: validate_bindings_def split: sum.splits bind_splits)
  obtain la where la: "rank_ancestors (lo_edges (local_order_of prog)) = Some (Inr la)" "check_bindings prog plan (deps, actual) masks la = Inr ()"
    using assms c m by (auto simp: validate_bindings_def res_simps)
  show thesis
    by (rule that [OF _ m la(1)]) (use c la(2) in \<open>auto simp: coverage_checks_def check_bindings_def res_simps\<close>)
qed

lemma matched_endpoints:
  assumes "seen_endpoints ms = expected_endpoints eps"
  shows "mset (map (\<lambda>(b, s). (nb_rank b, nstep_kind s, nstep_src s, nstep_dst s)) ms) = mset (map (\<lambda>ep. (ep_rank ep, ep_kind ep, Some (ep_source ep), Some (ep_destination ep))) eps)"
  using arg_cong [OF assms, of mset] by (simp add: seen_endpoints_def expected_endpoints_def)

lemma one_step_per_rank:
  assumes "seen_endpoints (op_members k steps) = expected_endpoints eps" "native_endpoints op plan = Inr eps" "remote_transfer plan op"
    and "e \<in> set steps" "e' \<in> set steps" "shows_op k e" "shows_op k e'" "nb_rank (fst e) = nb_rank (fst e')"
  shows "e = e'"
proof -
  have "image_mset fst (mset (map (\<lambda>(b, s). (nb_rank b, nstep_kind s, nstep_src s, nstep_dst s)) (op_members k steps)))
      = image_mset fst (mset (map (\<lambda>ep. (ep_rank ep, ep_kind ep, Some (ep_source ep), Some (ep_destination ep))) eps))" by (rule arg_cong [OF matched_endpoints [OF assms(1)]])
  then have "mset (map (\<lambda>e. nb_rank (fst e)) (filter (shows_op k) steps)) = mset (map ep_rank eps)"
    by (simp add: op_members_def image_mset.compositionality comp_def split_def flip: mset_map)
  then have "distinct (map (\<lambda>e. nb_rank (fst e)) (filter (shows_op k) steps))" using native_endpoints_shape [OF assms(2,3)] mset_eq_imp_distinct_iff by blast
  then show ?thesis using assms(4-8) by (auto simp: distinct_map dest: inj_onD)
qed

lemma check_binding_Inr:
  assumes "check_binding prog plan actual (anc, bits) lo la op = Inr ()"
  obtains eps where "native_endpoints op plan = Inr eps" "seen_endpoints (dict_get actual (ins_id op) []) = expected_endpoints eps"
    "\<And>p. p \<in> ins_dependencies op \<Longrightarrow> p \<in> set (dict_keys bits) \<and> dict_get anc (ins_id op) 0 AND dict_get bits p 0 \<noteq> 0"
    "\<And>e. e \<in> set (dict_get actual (ins_id op) []) \<Longrightarrow> check_local lo la op e = Inr ()"
    "\<And>e. e \<in> set (dict_get actual (ins_id op) []) \<Longrightarrow> check_physical prog op e = Inr ()"
  using assms that by (auto simp: check_binding_def Let_def res_simps)

lemma local_edges_native:
  assumes "(b, i, s) \<in> set (steps_of_blocks (np_blocks prog))" "d \<in> local_edges b i s"
  shows "(d, step_place (b, i, s)) \<in> native_edges prog"
proof -
  have "b \<in> set (np_blocks prog)" "(i, s) \<in> set (enumerate 0 (nb_steps b))" using assms(1) by (auto simp: steps_of_blocks_def)
  moreover have "(d, step_place (b, i, s)) \<in> step_waits b (i, s)" using assms(2) by (auto simp: step_waits_def local_edges_def step_place_def split: if_splits)
  ultimately show ?thesis unfolding native_edges_def by blast
qed

lemma local_path:
  assumes "noted (steps_of_blocks (np_blocks prog)) lo" "rank_ancestors (lo_edges lo) = Some (Inr la)" "check_local lo la op (b, s) = Inr ()"
    and "p \<in> ins_dependencies op" "map_of (lo_locations lo) (p, nb_rank b) = Some key" "map_of (lo_locations lo) (ins_id op, nb_rank b) = Some here"
  shows "(key, here) \<in> (native_edges prog)\<^sup>+"
proof -
  obtain masks bits mask where m: "map_of la (nb_rank b) = Some (masks, bits)" "map_of masks here = Some mask" and nz: "mask AND dict_get bits key 0 \<noteq> 0"
    using assms(3-6) by (force simp: check_local_def Let_def res_simps)
  from rank_ancestors_entry [OF assms(2) m(1)] obtain es where es: "map_of (lo_edges lo) (nb_rank b) = Some es" "dependency_ancestors es = Some (Inr (masks, bits))" by blast
  have get: "dict_get (lo_edges lo) (nb_rank b) [] = es" using es(1) by (simp add: dict_get_def)
  note n = notedD [OF assms(1)]
  have wf: "wf_dict es" using n(4) [of "nb_rank b"] unfolding get .
  have fin: "finite_deps es" unfolding finite_deps_def
  proof (clarify)
    fix k ds assume "(k, ds) \<in> set es"
    then have "map_of (dict_get (lo_edges lo) (nb_rank b) []) k = Some ds" using wf by (simp add: get)
    from n(5) [OF this] show "finite ds" by (auto simp: local_edges_def)
  qed
  have mem: "k' \<in> set (dict_keys es)" if "map_of (lo_locations lo) (q, nb_rank b) = Some k'" for q k'
    using n(1) [OF that] notedD(3) [OF assms(1)] get by force
  have "dict_get masks here 0 AND dict_get bits key 0 \<noteq> 0" using nz m(2) by (simp add: dict_get_def)
  then have "(key, here) \<in> (edges (dict_keys es) (deps_of es))\<^sup>+"
    using dependency_ancestors_mask [OF wf fin es(2) mem [OF assms(6)] mem [OF assms(5)]] by blast
  moreover have "edges (dict_keys es) (deps_of es) \<subseteq> native_edges prog"
  proof clarify
    fix d1 d2 d3 k1 k2 k3 assume e: "((d1, d2, d3), (k1, k2, k3)) \<in> edges (dict_keys es) (deps_of es)"
    then obtain ds where ds: "map_of es (k1, k2, k3) = Some ds" "(d1, d2, d3) \<in> ds"
      by (auto simp: edges_def deps_of_def dict_get_def split: option.splits)
    from n(5) [of "nb_rank b", unfolded get, OF ds(1)] obtain b' i' s' where "(b', i', s') \<in> set (steps_of_blocks (np_blocks prog))" "(k1, k2, k3) = step_place (b', i', s')" "ds = local_edges b' i' s'" by blast
    with ds(2) local_edges_native show "((d1, d2, d3), (k1, k2, k3)) \<in> native_edges prog" by metis
  qed
  ultimately show ?thesis by (meson trancl_mono)
qed


definition in_storage :: "native_program \<Rightarrow> native_block \<Rightarrow> address option \<Rightarrow> bool" where
  "in_storage prog b a \<longleftrightarrow> (\<exists>x slots k. a = Some x \<and> addr_rank x = nb_rank b \<and> buffer_slots prog (addr_buffer x) = Some slots
     \<and> map_of slots (nb_rank b) = Some k \<and> 0 \<le> addr_offset x \<and> addr_offset x < k)"

lemma check_physical_Inr:
  "check_physical prog op (b, s) = Inr () \<Longrightarrow> (ins_kind op \<noteq> ''copy'' \<longrightarrow> nb_channel b = ins_channel op) \<and> (\<forall>a\<in>set (used_addresses s). in_storage prog b a)"
  by (fastforce simp: check_physical_def check_address_def in_storage_def Let_def res_simps split: option.splits if_splits)

lemma steps_ordered:
  assumes v: "validate_bindings prog plan = Some (Inr ())" and x: "execution_dependencies prog = Some (Inr (deps, actual))"
    and remote: "\<forall>op\<in>set (instructions plan). remote_transfer plan op" and op: "op \<in> set (instructions plan)" and d: "nstep_op s \<in> ins_dependencies op"
    and s: "map_of (program_steps prog) l = Some s" "nstep_kind s \<noteq> ''nop''" and s': "map_of (program_steps prog) l' = Some s'" "nstep_op s' = ins_id op" "nstep_kind s' \<noteq> ''nop''"
    and rank: "fst l = fst l'"
  shows "(l, l') \<in> (native_edges prog)\<^sup>+"
  using v x
proof (rule validate_bindings_Inr)
  let ?steps = "steps_of_blocks (np_blocks prog)" and ?lo = "local_order_of prog"
  fix masks la
  assume cover: "set (dict_keys actual) = ins_id ` set (instructions plan)" and m: "dependency_ancestors deps = Some (Inr masks)"
    and la: "rank_ancestors (lo_edges ?lo) = Some (Inr la)"
    and ok: "\<And>op. op \<in> set (instructions plan) \<Longrightarrow> check_binding prog plan actual masks ?lo la op = Inr ()"
  obtain anc bits where masks: "masks = (anc, bits)" by (cases masks)
  note ok' = ok [unfolded masks] and dep = execution_dependencies_members [OF x]
  note mem = dep(4)
  obtain eps where e1: "\<And>p. p \<in> ins_dependencies op \<Longrightarrow> p \<in> set (dict_keys bits)" and e2: "\<And>e. e \<in> set (dict_get actual (ins_id op) []) \<Longrightarrow> check_local ?lo la op e = Inr ()"
    using check_binding_Inr [OF ok' [OF op]] by metis
  have "nstep_op s \<in> ins_id ` set (instructions plan)" using e1 [OF d] dependency_ancestors_keys [OF dep(1,2) m [unfolded masks]] dep(3) cover by auto
  then obtain dop where dop: "dop \<in> set (instructions plan)" "ins_id dop = nstep_op s" by auto
  obtain b i where bi: "(b, i, s) \<in> set ?steps" "l = step_place (b, i, s)" by (rule program_step_mem [OF s(1)])
  obtain b' i' where bi': "(b', i', s') \<in> set ?steps" "l' = step_place (b', i', s')" by (rule program_step_mem [OF s'(1)])
  have r: "nb_rank b = nb_rank b'" using rank bi(2) bi'(2) by (simp add: step_place_def)
  have place: "map_of (lo_locations ?lo) (ins_id q, nb_rank c) = Some (step_place (c, j, t))"
    if q: "q \<in> set (instructions plan)" and c: "(c, j, t) \<in> set ?steps" "shows_op (ins_id q) (c, j, t)" for q c j t
  proof -
    obtain eps where eps: "native_endpoints q plan = Inr eps" "seen_endpoints (dict_get actual (ins_id q) []) = expected_endpoints eps" using check_binding_Inr [OF ok' [OF q]] by metis
    obtain key where key: "map_of (lo_locations ?lo) (ins_id q, nb_rank c) = Some key" using notedD(2) [OF local_order_noted c] by auto
    from notedD(1) [OF local_order_noted this] obtain e where e: "e \<in> set ?steps" "shows_op (ins_id q) e" "nb_rank (fst e) = nb_rank c" "key = step_place e" by blast
    have "e = (c, j, t)" by (rule one_step_per_rank [OF eps(2) [unfolded mem] eps(1) _ e(1) c(1) e(2) c(2)]) (use remote q e(3) in auto)
    with key e(4) show ?thesis by simp
  qed
  have k: "map_of (lo_locations ?lo) (nstep_op s, nb_rank b') = Some l" using place [OF dop(1) bi(1)] s(2) dop(2) bi(2) r by (simp add: shows_op_def)
  have h: "map_of (lo_locations ?lo) (ins_id op, nb_rank b') = Some l'" using place [OF op bi'(1)] s' bi'(2) by (simp add: shows_op_def)
  have "(b', s') \<in> set (dict_get actual (ins_id op) [])" unfolding mem op_members_def using bi'(1) s'(2,3) by (force simp: shows_op_def)
  from local_path [OF local_order_noted la e2 [OF this] d k h] show ?thesis .
qed

text \<open>
  C37.  The bindings that the admission accepts are those of the storage plan: every dependency of an instruction is kept by a chain of dependencies between native operations, and on
  every rank by the order in which the rank executes its threadblocks and waits; the steps of an instruction are exactly its endpoints with its addresses,
  on its channel, and the storage a step uses lies within the declared buffers of its rank.
\<close>

theorem validate_bindings_sound:
  assumes "validate_bindings prog plan = Some (Inr ())" "execution_dependencies prog = Some (Inr (deps, actual))"
    and "\<forall>op\<in>set (instructions plan). remote_transfer plan op" "op \<in> set (instructions plan)"
  shows "(\<forall>d\<in>ins_dependencies op. (d, ins_id op) \<in> (edges (dict_keys deps) (deps_of deps))\<^sup>+)
    \<and> (\<forall>l s l' s'. nstep_op s \<in> ins_dependencies op \<and> nstep_op s' = ins_id op \<and> map_of (program_steps prog) l = Some s \<and> map_of (program_steps prog) l' = Some s'
        \<and> nstep_kind s \<noteq> ''nop'' \<and> nstep_kind s' \<noteq> ''nop'' \<and> fst l = fst l' \<longrightarrow> (l, l') \<in> (native_edges prog)\<^sup>+)
    \<and> (\<exists>eps. native_endpoints op plan = Inr eps \<and> mset (map (\<lambda>(b, s). (nb_rank b, nstep_kind s, nstep_src s, nstep_dst s)) (dict_get actual (ins_id op) []))
        = mset (map (\<lambda>ep. (ep_rank ep, ep_kind ep, Some (ep_source ep), Some (ep_destination ep))) eps))
    \<and> (\<forall>(b, s)\<in>set (dict_get actual (ins_id op) []). (ins_kind op \<noteq> ''copy'' \<longrightarrow> nb_channel b = ins_channel op) \<and> (\<forall>a\<in>set (used_addresses s). in_storage prog b a))"
    (is "?global \<and> ?local \<and> ?ends \<and> ?store")
  using assms(1,2)
proof (rule validate_bindings_Inr)
  fix masks la
  assume cover: "set (dict_keys actual) = ins_id ` set (instructions plan)" and m: "dependency_ancestors deps = Some (Inr masks)"
    and ok: "\<And>op. op \<in> set (instructions plan) \<Longrightarrow> check_binding prog plan actual masks (local_order_of prog) la op = Inr ()"
  obtain anc bits where masks: "masks = (anc, bits)" by (cases masks)
  note dep = execution_dependencies_members [OF assms(2)]
  obtain eps where eps: "native_endpoints op plan = Inr eps" "seen_endpoints (dict_get actual (ins_id op) []) = expected_endpoints eps"
    and p: "\<And>p. p \<in> ins_dependencies op \<Longrightarrow> p \<in> set (dict_keys bits) \<and> dict_get anc (ins_id op) 0 AND dict_get bits p 0 \<noteq> 0"
    and ph: "\<And>e. e \<in> set (dict_get actual (ins_id op) []) \<Longrightarrow> check_physical prog op e = Inr ()"
    using check_binding_Inr [OF ok [OF assms(4), unfolded masks]] by metis
  have here: "ins_id op \<in> set (dict_keys deps)" using cover dep(3) assms(4) by simp
  note mask = dependency_ancestors_mask [OF dep(1,2) m [unfolded masks] here] and keys = dependency_ancestors_keys [OF dep(1,2) m [unfolded masks]]
  have ?global using p mask unfolding keys by blast
  moreover have ?local using steps_ordered [OF assms] by blast
  moreover have ?ends using eps matched_endpoints [OF eps(2)] by blast
  moreover have ?store using ph check_physical_Inr by blast
  ultimately show ?thesis by blast
qed

theorem validate_bindings_sound_witness:
  "((1, 0, 0), (1, 1, 0)) \<in> (native_edges broadcast_program)\<^sup>+"
proof -
  obtain deps actual where x: "execution_dependencies broadcast_program = Some (Inr (deps, actual))" using broadcast_program_checks by (auto simp: is_ok_iff)
  have r: "\<forall>op\<in>set (instructions broadcast_plan). remote_transfer broadcast_plan op"
    by (simp add: broadcast_plan_def broadcast_instruction_def remote_transfer_def input_address_def dict_item_def)
  have op: "broadcast_instruction ''b'' ''copy'' ''t'' ''u'' 1 (-1) {''a''} \<in> set (instructions broadcast_plan)" by (simp add: broadcast_plan_def)
  have s: "map_of (program_steps broadcast_program) (1, 0, 0) = Some (broadcast_step ''ar'' ''a'' ''r'' (Address 0 ''i'' 0) (Address 1 ''s'' 0) (-1) True)"
    "map_of (program_steps broadcast_program) (1, 1, 0) = Some (broadcast_step ''bc'' ''b'' ''cpy'' (Address 1 ''s'' 0) (Address 1 ''o'' 0) 0 False)" by code_simp+
  let ?s = "broadcast_step ''ar'' ''a'' ''r'' (Address 0 ''i'' 0) (Address 1 ''s'' 0) (-1) True" and ?s' = "broadcast_step ''bc'' ''b'' ''cpy'' (Address 1 ''s'' 0) (Address 1 ''o'' 0) 0 False"
  note ordered = validate_bindings_sound [OF broadcast_bindings x r op, THEN conjunct2, THEN conjunct1, rule_format, of ?s ?s' "(1, 0, 0)" "(1, 1, 0)"]
  show ?thesis by (rule ordered) (use s in \<open>simp add: broadcast_instruction_def broadcast_step_def\<close>)
qed

end
