(* ===== verification/Admission_Returns.thy ===== *)
theory Admission_Returns
  imports Admission_Order
begin

text \<open>
  The admission always returns: the order loops, the prediction and the rounds of the untimed replay end.  Also here: the ticks of the untimed replay,
  what exactly lets a candidate execute, and the launch limits that an admitted program keeps.
\<close>

section \<open>Ticks\<close>

definition start_tick :: "(string, work_operation) dict \<Rightarrow> (string, rat) dict \<Rightarrow> string \<Rightarrow> rat" where
  "start_tick work ends k = latest (map (\<lambda>p. dict_get ends p 0) (work_dependencies (op_at work k)))"

definition ticked :: "(string, work_operation) dict \<Rightarrow> string set \<Rightarrow> tick_times \<Rightarrow> bool" where
  "ticked work pending tt \<longleftrightarrow> pending \<subseteq> keyset work \<and> keyset (snd tt) = keyset work - pending
     \<and> (\<forall>k\<in>keyset work - pending. deps_at work k \<subseteq> keyset work - pending \<and> map_of (fst tt) k = Some (start_tick work (snd tt) k)
          \<and> map_of (snd tt) k = Some (start_tick work (snd tt) k + 1))"

lemma start_tick_update: "k \<notin> deps_at work j \<Longrightarrow> start_tick work (AList.update k t ends) j = start_tick work ends j"
proof -
  assume "k \<notin> deps_at work j"
  then have "map (\<lambda>p. dict_get (AList.update k t ends) p 0) (work_dependencies (op_at work j)) = map (\<lambda>p. dict_get ends p 0) (work_dependencies (op_at work j))" by auto
  then show ?thesis unfolding start_tick_def by (rule arg_cong)
qed

lemma tick_ticked:
  assumes t: "ticked work pending tt" and k: "key \<in> pending" "deps_at work key \<subseteq> keyset work - pending"
  shows "ticked work (pending - {key}) (tick work tt key)"
proof -
  obtain starts ends where tt: "tt = (starts, ends)" by (cases tt)
  let ?s = "start_tick work ends key"
  have new: "tick work tt key = (AList.update key ?s starts, AList.update key (?s + 1) ends)" by (simp add: tick_def tt start_tick_def Let_def)
  have old: "pending \<subseteq> keyset work" "keyset ends = keyset work - pending"
    "\<And>j. j \<in> keyset work - pending \<Longrightarrow> deps_at work j \<subseteq> keyset work - pending \<and> map_of starts j = Some (start_tick work ends j) \<and> map_of ends j = Some (start_tick work ends j + 1)"
    using t unfolding ticked_def tt by auto
  have keys: "keyset work - (pending - {key}) = insert key (keyset work - pending)" using old(1) k(1) by auto
  have "key \<notin> deps_at work j" if "j \<in> insert key (keyset work - pending)" for j using that old(3) k by blast
  then have same: "start_tick work (AList.update key (?s + 1) ends) j = start_tick work ends j" if "j \<in> insert key (keyset work - pending)" for j
    using start_tick_update that by blast
  have "deps_at work j \<subseteq> insert key (keyset work - pending) \<and> map_of (AList.update key ?s starts) j = Some (start_tick work ends j)
      \<and> map_of (AList.update key (?s + 1) ends) j = Some (start_tick work ends j + 1)" if "j \<in> insert key (keyset work - pending)" for j
    using that old(3) [of j] k by (auto simp: update_conv')
  then show ?thesis unfolding ticked_def new keys fst_conv snd_conv using old(1,2) same by (auto simp: keyset_def)
qed

lemma ticks_ticked:
  "ticked work pending tt \<Longrightarrow> distinct ks \<Longrightarrow> set ks \<subseteq> pending \<Longrightarrow> (\<And>k. k \<in> set ks \<Longrightarrow> deps_at work k \<subseteq> keyset work - pending)
     \<Longrightarrow> ticked work (pending - set ks) (foldl (tick work) tt ks)"
proof (induction ks arbitrary: pending tt)
  case (Cons k ks)
  have "ticked work (pending - {k}) (tick work tt k)" using tick_ticked [OF Cons.prems(1)] Cons.prems(3,4) by auto
  then have "ticked work (pending - {k} - set ks) (foldl (tick work) (tick work tt k) ks)"
  proof (rule Cons.IH)
    show "distinct ks" "set ks \<subseteq> pending - {k}" using Cons.prems(2,3) by auto
    show "deps_at work j \<subseteq> keyset work - (pending - {k})" if "j \<in> set ks" for j using Cons.prems(4) [of j] that by auto
  qed
  moreover have "pending - {k} - set ks = pending - set (k # ks)" by auto
  ultimately show ?case by (simp only: foldl_Cons)
qed simp

lemma ready_exists:
  assumes "acyclic (edges (dict_keys work) (deps_at work))" "pending \<subseteq> keyset work" "pending \<noteq> {}"
  shows "\<exists>k\<in>pending. deps_at work k \<inter> pending = {}"
proof -
  have "finite (edges (dict_keys work) (deps_at work))" by (rule finite_edges) simp
  then have "wf (edges (dict_keys work) (deps_at work))" using assms(1) by (rule finite_acyclic_wf)
  moreover obtain x where "x \<in> pending" using assms(3) by auto
  ultimately obtain z where "z \<in> pending" "\<And>y. (y, z) \<in> edges (dict_keys work) (deps_at work) \<Longrightarrow> y \<notin> pending" by (metis wfE_min)
  then show ?thesis using assms(2) by (auto simp: edges_def keyset_def subset_iff)
qed

lemma tick_loop_result:
  assumes "\<forall>k\<in>keyset work. deps_at work k \<subseteq> keyset work"
  shows "ticked work pending tt \<Longrightarrow> \<exists>r. tick_loop work pending tt = Some r \<and> (case r of Inl e \<Rightarrow> \<not> acyclic (edges (dict_keys work) (deps_at work)) | Inr tt' \<Rightarrow> ticked work {} tt')"
proof (induction "card pending" arbitrary: pending tt rule: less_induct)
  case less
  have sub: "pending \<subseteq> keyset work" and ends: "set (dict_keys (snd tt)) = keyset work - pending" using less.prems by (auto simp: ticked_def keyset_def)
  have fin: "finite pending" using sub by (rule finite_subset) (simp add: keyset_def)
  show ?case
  proof (cases "pending = {}")
    case True
    with less.prems show ?thesis by (simp add: tick_loop.simps [of work "{}"])
  next
    case False
    let ?ready = "tick_ready work pending (snd tt)"
    have ready: "set ?ready = {k \<in> pending. deps_at work k \<subseteq> keyset work - pending}" "distinct ?ready"
      using fin unfolding tick_ready_def ends by simp_all
    show ?thesis
    proof (cases "?ready = []")
      case True
      have "\<not> acyclic (edges (dict_keys work) (deps_at work))"
      proof
        assume "acyclic (edges (dict_keys work) (deps_at work))"
        from ready_exists [OF this sub False] obtain k where "k \<in> pending" "deps_at work k \<inter> pending = {}" by blast
        then have "k \<in> set ?ready" unfolding ready(1) using assms sub by blast
        with True show False by simp
      qed
      then show ?thesis using True False by (simp add: tick_loop.simps [of work pending])
    next
      case no: False
      have next_tt: "ticked work (pending - set ?ready) (foldl (tick work) tt ?ready)" by (rule ticks_ticked [OF less.prems ready(2)]) (auto simp: ready(1))
      obtain k where "k \<in> set ?ready" using no by (meson last_in_set)
      then have "pending - set ?ready \<subset> pending" unfolding ready(1) by blast
      then have "card (pending - set ?ready) < card pending" using fin by (rule psubset_card_mono [rotated])
      from less.hyps [OF this next_tt] show ?thesis using False no by (simp add: tick_loop.simps [of work pending] Let_def)
    qed
  qed
qed

lemma latest_ge: "x \<in> set ts \<Longrightarrow> x \<le> latest ts"
  by (auto simp: latest_def)

lemma ticked_acyclic:
  assumes "ticked work {} tt"
  shows "acyclic (edges (dict_keys work) (deps_at work))"
proof -
  let ?f = "\<lambda>k. dict_get (snd tt) k (0 :: rat)"
  have step: "?f d < ?f k" if "(d, k) \<in> edges (dict_keys work) (deps_at work)" for d k
  proof -
    have k: "k \<in> keyset work" "d \<in> deps_at work k" using that by (auto simp: edges_def keyset_def)
    have "?f d \<le> start_tick work (snd tt) k" unfolding start_tick_def using k(2) by (intro latest_ge) auto
    moreover have "?f k = start_tick work (snd tt) k + 1" using assms k(1) by (auto simp: ticked_def dict_get_def)
    ultimately show ?thesis by simp
  qed
  have "?f d < ?f k" if "(d, k) \<in> (edges (dict_keys work) (deps_at work))\<^sup>+" for d k
    using that by (induction rule: trancl_induct) (use step in \<open>force intro: less_trans\<close>)+
  then show ?thesis unfolding acyclic_def by blast
qed


lemma executable_table:
  assumes "constructed_executable ex"
  shows "dict_of (op_table (exec_operations ex)) = op_table (exec_operations ex)" "keyset (op_table (exec_operations ex)) = work_id ` set (exec_operations ex)"
    "\<forall>k\<in>keyset (op_table (exec_operations ex)). deps_at (op_table (exec_operations ex)) k \<subseteq> keyset (op_table (exec_operations ex))"
proof -
  note v = executable_valid [OF assms]
  show "dict_of (op_table (exec_operations ex)) = op_table (exec_operations ex)" using v(1) by (intro dict_of_distinct) (simp add: comp_def)
  show k: "keyset (op_table (exec_operations ex)) = work_id ` set (exec_operations ex)" by (auto simp: keyset_def image_iff)
  show "\<forall>k\<in>keyset (op_table (exec_operations ex)). deps_at (op_table (exec_operations ex)) k \<subseteq> keyset (op_table (exec_operations ex))"
    unfolding k using v(2) op_at_table [OF v(1)] by auto
qed

lemma work_edges:
  assumes "constructed_executable ex"
  shows "edges (dict_keys (op_table (exec_operations ex))) (deps_at (op_table (exec_operations ex))) = {(d, work_id op) |d op. op \<in> set (exec_operations ex) \<and> d \<in> set (work_dependencies op)}"
  using op_at_table [OF executable_valid(1) [OF assms]] by (force simp: edges_def)

lemma run_times_result:
  assumes "constructed_executable ex"
  shows "\<exists>r. run_times ex p = Some r \<and> (t_pred_us p = None \<longrightarrow>
     (case r of Inl e \<Rightarrow> \<not> acyclic {(d, work_id op) |d op. op \<in> set (exec_operations ex) \<and> d \<in> set (work_dependencies op)} | Inr tt \<Rightarrow> ticked (op_table (exec_operations ex)) {} tt))"
proof (cases "t_pred_us p = None")
  case True
  let ?W = "op_table (exec_operations ex)"
  note t = executable_table [OF assms]
  have "ticked ?W (keyset ?W) ([], [])" by (simp add: ticked_def keyset_def)
  from tick_loop_result [OF t(3) this] show ?thesis unfolding work_edges [OF assms] using True by (simp add: run_times_def t(1) keyset_def)
qed (auto simp: run_times_def Let_def)

text \<open>
  The rounds always end, with an error exactly when the dependencies have a cycle; otherwise every operation
  starts when the last of its dependencies has ended, at zero when it has none, and takes one tick.
\<close>

lemma untimed_ticks_exact:
  assumes "constructed_executable ex" "t_pred_us p = None"
  shows "\<exists>r. run_times ex p = Some r \<and> (is_ok r \<longleftrightarrow> acyclic {(d, work_id op) |d op. op \<in> set (exec_operations ex) \<and> d \<in> set (work_dependencies op)})
    \<and> (\<forall>starts ends. r = Inr (starts, ends) \<longrightarrow> (\<forall>op\<in>set (exec_operations ex). \<exists>t. map_of starts (work_id op) = Some t \<and> map_of ends (work_id op) = Some (t + 1)
         \<and> t = latest (map (\<lambda>d. dict_get ends d 0) (work_dependencies op))))"
proof -
  let ?W = "op_table (exec_operations ex)" and ?E = "{(d, work_id op) |d op. op \<in> set (exec_operations ex) \<and> d \<in> set (work_dependencies op)}"
  obtain r where r: "run_times ex p = Some r" "case r of Inl e \<Rightarrow> \<not> acyclic ?E | Inr tt \<Rightarrow> ticked ?W {} tt" using run_times_result [OF assms(1), of p] assms(2) by blast
  show ?thesis
  proof (cases r)
    case (Inl e)
    with r show ?thesis by simp
  next
    case (Inr tt)
    then have t: "ticked ?W {} tt" using r(2) by simp
    have "acyclic ?E" using ticked_acyclic [OF t] unfolding work_edges [OF assms(1)] .
    moreover have "map_of (fst tt) (work_id op) = Some (latest (map (\<lambda>d. dict_get (snd tt) d 0) (work_dependencies op)))
        \<and> map_of (snd tt) (work_id op) = Some (latest (map (\<lambda>d. dict_get (snd tt) d 0) (work_dependencies op)) + 1)" if "op \<in> set (exec_operations ex)" for op
      using t that executable_table(2) [OF assms(1)] op_at_table [OF executable_valid(1) [OF assms(1)] that] by (simp add: ticked_def start_tick_def)
    ultimately show ?thesis using r(1) Inr by auto
  qed
qed

section \<open>The admission returns\<close>

lemma execution_dependencies_returns: "\<exists>r. execution_dependencies prog = Some r"
proof (cases "bnd (for_each (scan_native_block (program_steps prog)) \<lparr>bs_previous = None, bs_waiting = {}, bs_dependencies = [], bs_by_op = []\<rparr> (np_blocks prog)) (\<lambda>sc.
           bnd (check_each check_members (bs_by_op sc)) (\<lambda>_. Inr sc))")
  case (Inl e)
  then show ?thesis by (simp add: execution_dependencies_def)
next
  case (Inr sc)
  then have "for_each (scan_native_block (program_steps prog)) \<lparr>bs_previous = None, bs_waiting = {}, bs_dependencies = [], bs_by_op = []\<rparr> (np_blocks prog) = Inr sc"
    by (auto simp: res_simps)
  from native_scan_scanned [OF this, of "[]"] have s: "scanned_steps (steps_of_blocks (np_blocks prog)) sc" by (simp add: scanned_steps_def op_members_def dict_get_def)
  let ?deps = "map (\<lambda>(k, _). (k, dict_get (bs_dependencies sc) k {})) (bs_by_op sc)"
  have "wf_dict ?deps" "finite_deps ?deps" using s by (auto simp: scanned_steps_def finite_deps_def comp_def split_def)
  then obtain r where "dependency_order ?deps = Some r" using dependency_order_result by blast
  with Inr show ?thesis by (simp add: execution_dependencies_def)
qed

lemma rank_ancestors_returns: "(\<And>rank es. (rank, es) \<in> set d \<Longrightarrow> wf_dict es \<and> finite_deps es) \<Longrightarrow> \<exists>r. rank_ancestors d = Some r"
proof (induction d)
  case (Cons e d)
  obtain rank es where e: "e = (rank, es)" by (cases e)
  have "wf_dict es" "finite_deps es" using Cons.prems [of rank es] e by auto
  then obtain r where r: "dependency_ancestors es = Some r" using dependency_ancestors_result by blast
  have "wf_dict es \<and> finite_deps es" if "(rank, es) \<in> set d" for rank es using Cons.prems [of rank es] that by simp
  from Cons.IH [OF this] show ?case using r by (cases r) (auto simp: e)
qed simp

lemma local_edges_wf: "wf_dict (lo_edges (local_order_of prog))"
proof -
  have "wf_dict (lo_edges lo) \<Longrightarrow> wf_dict (lo_edges (foldl (\<lambda>lo (b, e). note_step b lo e) lo steps))" for lo steps
    by (induction steps arbitrary: lo) (auto simp: note_step_def Let_def split: prod.splits)
  then show ?thesis unfolding local_order_steps by simp
qed

lemma validate_bindings_returns: "\<exists>r. validate_bindings prog plan = Some r"
proof -
  obtain r where r: "execution_dependencies prog = Some r" using execution_dependencies_returns by blast
  show ?thesis
  proof (cases "bnd r (\<lambda>pd. bnd (coverage_checks plan pd) (\<lambda>_. Inr pd))")
    case (Inl e)
    with r show ?thesis by (simp add: validate_bindings_def)
  next
    case (Inr pd)
    then have x: "execution_dependencies prog = Some (Inr (fst pd, snd pd))" using r by (auto simp: res_simps)
    note dep = execution_dependencies_members(1,2) [OF x]
    obtain m where m: "dependency_ancestors (fst pd) = Some m" using dependency_ancestors_result [OF dep] by blast
    have "wf_dict es \<and> finite_deps es" if "(rank, es) \<in> set (lo_edges (local_order_of prog))" for rank es
    proof -
      have get: "dict_get (lo_edges (local_order_of prog)) rank [] = es" using that local_edges_wf by (simp add: dict_get_def)
      note n = notedD [OF local_order_noted [of prog]]
      have wf: "wf_dict es" using n(4) [of rank] unfolding get .
      have "finite ds" if "(k, ds) \<in> set es" for k ds using n(5) [of rank, unfolded get] that wf by (fastforce simp: local_edges_def)
      with wf show ?thesis by (auto simp: finite_deps_def)
    qed
    then obtain la where "rank_ancestors (lo_edges (local_order_of prog)) = Some la" using rank_ancestors_returns by blast
    with r Inr m show ?thesis by (cases m) (simp_all add: validate_bindings_def)
  qed
qed

lemma work_operation_post_init_same: "work_operation_post_init w = Inr w' \<Longrightarrow> w' = w"
  unfolding work_operation_post_init_def ensure_Inr_iff by blast

lemma map_res_source: "map_res f xs = Inr ys \<Longrightarrow> y \<in> set ys \<Longrightarrow> \<exists>x\<in>set xs. f x = Inr y"
  unfolding map_res_Inr_iff by (induction rule: list_all2_induct) auto

lemma build_executable_constructed:
  assumes "build_executable prog plan inputs topo = Some (Inr ex)"
  shows "constructed_executable ex"
proof -
  obtain pd where pd: "assemble_executable prog plan inputs topo pd = Inr ex" using assms by (auto simp: build_executable_def res_simps)
  have work: "work_operation_post_init w = Inr w" if w: "native_work plan inputs topo deps e = Inr w" for deps e w
  proof -
    obtain w0 where "work_operation_post_init w0 = Inr w" using w by (cases e) (auto simp: native_work_def Let_def bnd_Inr_iff)
    with work_operation_post_init_same show ?thesis by blast
  qed
  have post: "work_operation_post_init w = Inr w" if w: "postscale_work prog sz e = Inr ws" "w \<in> set ws" for sz e ws w
  proof -
    obtain w0 where "work_operation_post_init w0 = Inr w" using w by (cases e) (auto simp: postscale_work_def Let_def bnd_Inr_iff split: if_splits)
    with work_operation_post_init_same show ?thesis by blast
  qed
  obtain ops outs where ops: "executable_post_init ops outs = Inr ex" "\<forall>w\<in>set ops. work_operation_post_init w = Inr w"
  proof -
    obtain deps ends where e: "pd = (deps, ends)" by (cases pd)
    obtain ws prods where ws: "map_res (native_work plan inputs topo deps) (dict_of (map (\<lambda>op. (ins_id op, op)) (instructions plan))) = Inr ws"
      and rest: "(if reduction_op (collective inputs) = Some ''avg'' then
         bnd (slice_bytes inputs) (\<lambda>sz.
         bnd (map_res (postscale_work prog sz) (sort_key fst (np_output_slots prog))) (\<lambda>post.
         executable_post_init (ws @ concat post) (Some (map work_id (concat post)))))
       else executable_post_init ws (Some (sorted_list_of_set prods))) = Inr ex"
      using pd unfolding assemble_executable_def e by (auto simp: Let_def bnd_Inr_iff ensure_Inr_iff)
    have w: "\<forall>w\<in>set ws. work_operation_post_init w = Inr w"
    proof
      fix w assume "w \<in> set ws"
      then obtain e where "native_work plan inputs topo deps e = Inr w" using map_res_source [OF ws] by blast
      then show "work_operation_post_init w = Inr w" by (rule work)
    qed
    show thesis
    proof (cases "reduction_op (collective inputs) = Some ''avg''")
      case True
      then obtain sz ps where ps: "map_res (postscale_work prog sz) (sort_key fst (np_output_slots prog)) = Inr ps" "executable_post_init (ws @ concat ps) (Some (map work_id (concat ps))) = Inr ex"
        using rest by (auto simp: bnd_Inr_iff)
      have "\<forall>w\<in>set (concat ps). work_operation_post_init w = Inr w"
      proof
        fix w assume "w \<in> set (concat ps)"
        then obtain us where us: "us \<in> set ps" "w \<in> set us" by auto
        then obtain e where "postscale_work prog sz e = Inr us" using map_res_source [OF ps(1)] by blast
        then show "work_operation_post_init w = Inr w" using us(2) by (rule post)
      qed
      with w ps(2) show thesis by (intro that [of "ws @ concat ps"]) auto
    next
      case False
      with rest w show thesis by (intro that [of ws]) auto
    qed
  qed
  then have "exec_operations ex = ops" by (auto simp: executable_post_init_def Let_def res_simps)
  with ops show ?thesis unfolding constructed_executable_def by blast
qed


lemma evaluate_program_returns:
  assumes "constructed_model isoparse (ctx_model ctx)"
  shows "\<exists>r. evaluate_program sha256 validate_xml side plan prog xml ctx = Some r"
proof (cases "xml_phase (bnd (check_supplied (sha256 xml) ctx side) (\<lambda>_. validate_xml xml prog (ctx_inputs ctx))) (pending_checks ''prerequisite pending'')")
  case (Inl e)
  then show ?thesis by (simp add: evaluate_program_def)
next
  case (Inr cs)
  obtain d where d: "execution_dependencies prog = Some d" using execution_dependencies_returns by blast
  obtain v where v: "validate_bindings prog plan = Some v" using validate_bindings_returns by blast
  have x: "build_executable prog plan (ctx_inputs ctx) (ctx_topology ctx) \<noteq> None" using d by (simp add: build_executable_def)
  then obtain n where n: "native_phase prog plan ctx cs = Some n"
    by (cases d; cases v) (auto simp: native_phase_def d v Let_def)
  show ?thesis
  proof (cases "bnd n (\<lambda>(cs, exo). bnd (launch_phase prog plan ctx cs) (\<lambda>(cs, capacity). Inr (compatibility_phase ctx cs, exo, capacity)))")
    case bad: (Inl e)
    then show ?thesis using Inr n by (simp add: evaluate_program_def)
  next
    case ok: (Inr res)
    obtain cs' exo capacity where res: "res = (cs', exo, capacity)" by (cases res)
    obtain cs0 where n': "n = Inr (cs0, exo)" using ok res by (auto simp: bnd_Inr_iff)
    have "\<exists>t. prediction_phase side plan exo ctx cs' = Some t"
    proof (cases exo)
      case None
      then show ?thesis by (simp add: prediction_phase_def)
    next
      case (Some ex)
      have "build_executable prog plan (ctx_inputs ctx) (ctx_topology ctx) = Some (Inr ex)"
        using n n' Some by (auto simp: native_phase_def native_failure_def map_option_case res_simps Let_def split: sum.splits if_splits bind_splits option.splits)
      from build_executable_constructed [OF this] have ex: "constructed_executable ex" .
      obtain q where q: "predict ex (model_context (ctx_model ctx)) (ctx_model ctx) = Some q" using predict_result [OF assms ex] by blast
      have "\<exists>r. build_version_schedule plan ex p (ctx_inputs ctx) = Some r" for p
      proof -
        obtain tt where "run_times ex p = Some tt" using run_times_result [OF ex, of p] by blast
        then show ?thesis by (auto simp: build_version_schedule_def split: sum.splits)
      qed
      then show ?thesis using q Some by (cases q) (auto simp: prediction_phase_def replay_phase_def)
    qed
    then show ?thesis using Inr n ok res by (auto simp: evaluate_program_def)
  qed
qed

text \<open>
  C38.  The admission always returns, and its verdict is exact: a candidate may be executed exactly when it passes every check, the checks of the parts being those of the other
  components: the XML document, the dependencies and bindings of the program, its executable, its launch limits, a prediction of every operation, and the replay of
  the schedule that this prediction gives.
\<close>

theorem admission_exact:
  assumes "constructed_model isoparse (ctx_model ctx)"
  shows "\<exists>r. evaluate_program sha256 validate_xml side plan prog xml ctx = Some r
    \<and> ((\<exists>b. r = Inr b \<and> can_execute b) \<longleftrightarrow> (\<exists>ex p v. admissible sha256 validate_xml side plan prog xml ctx ex p v))
    \<and> (\<forall>b. r = Inr b \<and> can_execute b \<longrightarrow> (\<exists>ex p v. admissible sha256 validate_xml side plan prog xml ctx ex p v
         \<and> cb_executable b = Some ex \<and> cb_prediction b = Some p \<and> cb_version b = Some v))"
proof -
  obtain r where r: "evaluate_program sha256 validate_xml side plan prog xml ctx = Some r" using evaluate_program_returns [OF assms] by blast
  have accepts: "\<exists>b. r = Inr b \<and> can_execute b" if "admissible sha256 validate_xml side plan prog xml ctx ex p v" for ex p v
    using evaluate_accepts [OF that] r by auto
  have verdict: "\<exists>ex p v. admissible sha256 validate_xml side plan prog xml ctx ex p v \<and> cb_executable b = Some ex \<and> cb_prediction b = Some p \<and> cb_version b = Some v"
    if "r = Inr b \<and> can_execute b" for b using can_execute_admissible [of sha256 validate_xml side plan prog xml ctx b] r that by simp
  show ?thesis
  proof (intro exI [of _ r] conjI allI impI iffI)
    show "evaluate_program sha256 validate_xml side plan prog xml ctx = Some r" by (rule r)
    show "\<exists>ex p v. admissible sha256 validate_xml side plan prog xml ctx ex p v" if "\<exists>b. r = Inr b \<and> can_execute b" using that verdict by blast
    show "\<exists>b. r = Inr b \<and> can_execute b" if "\<exists>ex p v. admissible sha256 validate_xml side plan prog xml ctx ex p v" using that accepts by blast
  qed (rule verdict)
qed

theorem admission_exact_witness:
  "\<exists>b. evaluate_program id (\<lambda>_ _ _. Inr ()) None broadcast_plan broadcast_program ''xml'' broadcast_context = Some (Inr b) \<and> can_execute b"
proof -
  have "cost_model_post_init broadcast_model = Inr broadcast_model" by code_simp
  moreover have "\<forall>(_, cs)\<in>set (services broadcast_model). \<forall>c\<in>set cs. service_cost_post_init (\<lambda>_. None) c = Inr c" by code_simp
  moreover have "profiles broadcast_model = []" by (simp add: broadcast_model_def)
  ultimately have m: "constructed_model (\<lambda>_. None) (ctx_model broadcast_context)" unfolding constructed_model_def broadcast_context_def by fastforce
  from admission_exact [OF m, of id "\<lambda>_ _ _. Inr ()" None broadcast_plan broadcast_program "''xml''"] broadcast_admissible show ?thesis by blast
qed


section \<open>Launch limits\<close>

lemma fold_min_less: "(c :: int) < fold min xs m \<longleftrightarrow> c < m \<and> (\<forall>x\<in>set xs. c < x)"
  by (induction xs arbitrary: m) auto

lemma check_channel_Inr:
  assumes "check_channel inputs topo blk k = Inr ()"
  shows "\<exists>e. map_of (topo_links topo) k = Some e \<and> 0 \<le> nb_channel blk \<and> nb_channel blk < dl_max_channels e \<and> nb_channel blk < solver_max_channels inputs
    \<and> (\<forall>r\<in>set (resource_ids e). \<exists>res. map_of (shared_resources topo) r = Some res \<and> nb_channel blk < sr_max_channels res)"
proof -
  obtain e m where e: "map_of (topo_links topo) k = Some e" "channel_limit inputs topo e = Inr m" "0 \<le> nb_channel blk" "nb_channel blk < m"
    using assms by (auto simp: check_channel_def link_def res_simps split: option.splits)
  obtain shared where s: "map_res (\<lambda>name. bnd (dict_item (shared_resources topo) name) (\<lambda>r. Inr (sr_max_channels r))) (resource_ids e) = Inr shared"
    "m = fold min (dl_max_channels e # shared) (solver_max_channels inputs)" using e(2) by (auto simp: channel_limit_def res_simps)
  have "\<exists>res. map_of (shared_resources topo) r = Some res \<and> sr_max_channels res \<in> set shared" if "r \<in> set (resource_ids e)" for r
    using s(1) that unfolding map_res_Inr_iff by (induction rule: list_all2_induct) (auto simp: res_simps)
  then show ?thesis using e s(2) by (fastforce simp: fold_min_less)
qed

lemma launch_checks_channel:
  assumes "launch_checks prog plan ctx report = Inr ()" "blk \<in> set (np_blocks prog)"
    and "0 \<le> nb_send_peer blk \<and> k = LinkKey (nb_rank blk) (nb_send_peer blk) \<or> 0 \<le> nb_recv_peer blk \<and> k = LinkKey (nb_recv_peer blk) (nb_rank blk)"
  shows "check_channel (ctx_inputs ctx) (ctx_topology ctx) blk k = Inr ()"
proof -
  have "launch_geometry prog plan ctx = Inr ()" using assms(1) by (auto simp: launch_checks_def Let_def bnd_Inr_iff)
  then obtain ks where ks: "block_links blk = Inr ks" "\<forall>k\<in>set ks. check_channel (ctx_inputs ctx) (ctx_topology ctx) blk k = Inr ()"
    using assms(2) by (auto simp: launch_geometry_def Let_def res_simps)
  have "k \<in> set ks" using ks(1) assms(3) by (auto simp: block_links_def link_key_post_init_def res_simps)
  with ks(2) show ?thesis by blast
qed

text \<open>
  C40.  A program that may be executed keeps every launch limit: a connection uses an existing link, on a channel below the limits of the link, of every resource
  the link shares and of the request; the program fits the runtime and its scratch bytes; and a slice fits the Simple buffer.
\<close>

theorem admitted_within_limits:
  assumes "evaluate_program sha256 validate_xml side plan prog xml ctx = Some (Inr b)" "can_execute b" "blk \<in> set (np_blocks prog)"
    and "0 \<le> nb_send_peer blk \<and> k = LinkKey (nb_rank blk) (nb_send_peer blk) \<or> 0 \<le> nb_recv_peer blk \<and> k = LinkKey (nb_recv_peer blk) (nb_rank blk)"
  shows "(\<exists>e. map_of (topo_links (ctx_topology ctx)) k = Some e \<and> 0 \<le> nb_channel blk \<and> nb_channel blk < dl_max_channels e \<and> nb_channel blk < solver_max_channels (ctx_inputs ctx)
        \<and> (\<forall>r\<in>set (resource_ids e). \<exists>res. map_of (shared_resources (ctx_topology ctx)) r = Some res \<and> nb_channel blk < sr_max_channels res))
    \<and> fits (native_shape prog) (ctx_limits ctx)
    \<and> scratch_fits (native_shape prog) (slice_size_bytes (hyper (ctx_inputs ctx))) (Some (EachRank (scratch_bytes_per_rank (ctx_inputs ctx))))
    \<and> (\<exists>n w sz. parse_int (ctx_buffsize ctx) = Inr n \<and> map_of datatype_bytes (datatype_name (collective (ctx_inputs ctx))) = Some w \<and> slice_bytes (ctx_inputs ctx) = Inr sz
        \<and> sz \<le> n div 8 div w * w * 4)"
proof -
  obtain ex p v where "admissible sha256 validate_xml side plan prog xml ctx ex p v" using can_execute_admissible [OF assms(1)] assms(2) by blast
  then obtain report where r: "native_capacity prog (ctx_limits ctx) (ctx_inputs ctx) = Inr report" "launch_checks prog plan ctx report = Inr ()"
    unfolding admissible_def by blast
  have "compatible report" using r(2) by (auto simp: launch_checks_def Let_def res_simps)
  then have "fits (native_shape prog) (ctx_limits ctx)" "scratch_fits (native_shape prog) (slice_size_bytes (hyper (ctx_inputs ctx))) (Some (EachRank (scratch_bytes_per_rank (ctx_inputs ctx))))"
    using check_capacity_report r(1) unfolding native_capacity_def by blast+
  moreover have "\<exists>n w sz. parse_int (ctx_buffsize ctx) = Inr n \<and> map_of datatype_bytes (datatype_name (collective (ctx_inputs ctx))) = Some w \<and> slice_bytes (ctx_inputs ctx) = Inr sz
      \<and> sz \<le> n div 8 div w * w * 4" using r(2) by (auto simp: launch_checks_def Let_def simple_payload_capacity_def not_less res_simps)
  moreover note check_channel_Inr [OF launch_checks_channel [OF r(2) assms(3,4)]]
  ultimately show ?thesis by blast
qed

theorem admitted_within_limits_witness:
  "\<exists>e. map_of (topo_links example_topology) (LinkKey 0 1) = Some e \<and> 0 < dl_max_channels e \<and> fits (native_shape broadcast_program) default_limits"
proof -
  obtain b where b: "evaluate_program id (\<lambda>_ _ _. Inr ()) None broadcast_plan broadcast_program ''xml'' broadcast_context = Some (Inr b)" "can_execute b"
    using evaluate_accepts [OF broadcast_admissible] by blast
  have blk: "hd (np_blocks broadcast_program) \<in> set (np_blocks broadcast_program)" by (simp add: broadcast_program_def)
  have k: "0 \<le> nb_send_peer (hd (np_blocks broadcast_program)) \<and> LinkKey 0 1 = LinkKey (nb_rank (hd (np_blocks broadcast_program))) (nb_send_peer (hd (np_blocks broadcast_program)))
      \<or> 0 \<le> nb_recv_peer (hd (np_blocks broadcast_program)) \<and> LinkKey 0 1 = LinkKey (nb_recv_peer (hd (np_blocks broadcast_program))) (nb_rank (hd (np_blocks broadcast_program)))"
    by (simp add: broadcast_program_def)
  have ctx: "ctx_topology broadcast_context = example_topology" "ctx_limits broadcast_context = default_limits" by (simp_all add: broadcast_context_def)
  from admitted_within_limits [OF b blk k] show ?thesis unfolding ctx by fastforce
qed

end
