(* ===== verification/Admission_Reload.thy ===== *)
theory Admission_Reload
  imports Admission_Returns
begin

text \<open>
  Reloading an admitted candidate: the sidecar that the admission writes is accepted when it is read back.
\<close>

lemma evaluate_program_sidecar:
  assumes "evaluate_program sha256 validate_xml None plan prog xml ctx = Some (Inr b)"
  shows "cb_sidecar b = Some (new_sidecar (sha256 xml) ctx prog plan (cb_version b))"
  using assms unfolding evaluate_program_def by (auto simp: res_simps split: sum.splits bind_splits prod.splits)

lemma admitted_sidecar_accepted:
  assumes "admissible sha256 validate_xml None plan prog xml ctx ex p v" "sd = new_sidecar (sha256 xml) ctx prog plan (Some v)"
  shows "admissible sha256 validate_xml (Some (sd\<lparr>sd_storage := st, sd_program := pr\<rparr>)) plan prog xml ctx ex p v"
proof -
  obtain report where "launch_checks prog plan ctx report = Inr ()" using assms(1) unfolding admissible_def by blast
  then obtain sz where "slice_bytes (ctx_inputs ctx) = Inr sz" by (auto simp: launch_checks_def Let_def bnd_Inr_iff)
  then have "slice_size_bytes (hyper (ctx_inputs ctx)) \<noteq> None" by (auto simp: slice_bytes_def split: option.splits)
  then have "check_supplied (sha256 xml) ctx (Some (sd\<lparr>sd_storage := st, sd_program := pr\<rparr>)) = Inr ()"
    by (simp add: check_supplied_def assms(2) new_sidecar_def request_contract_of_def)
  moreover have "check_recorded (Some (sd\<lparr>sd_storage := st, sd_program := pr\<rparr>)) v = Inr ()" by (simp add: check_recorded_def assms(2) new_sidecar_def)
  ultimately show ?thesis using assms(1) by (simp add: admissible_def)
qed

text \<open>
  C39.  A candidate that may be executed can be stored and loaded again: when the documents of its sidecar go through JSON text, checking the XML text with
  that sidecar in the same context gives a bundle that may be executed, with the same program, storage plan, prediction and schedule.
\<close>

theorem reloaded_bundle_executes:
  assumes "evaluate_program sha256 validate_xml None plan prog xml ctx = Some (Inr b)" "can_execute b" "cb_sidecar b = Some sd"
    and "storage_ok plan" "wf_dict (np_input_slots prog)" "wf_dict (np_output_slots prog)" "wf_dict (np_scratch_slots prog)"
    and "json_reload (sd_storage sd) = Inr st" "json_reload (sd_program sd) = Inr pr"
  shows "\<exists>b'. check_xml_bundle sha256 validate_xml xml (sd\<lparr>sd_storage := st, sd_program := pr\<rparr>) ctx = Some (Inr b') \<and> can_execute b'
    \<and> cb_program b' = Some prog \<and> cb_storage b' = Some plan \<and> cb_prediction b' = cb_prediction b \<and> cb_version b' = cb_version b"
proof -
  let ?sd = "sd\<lparr>sd_storage := st, sd_program := pr\<rparr>"
  obtain ex p v where a: "admissible sha256 validate_xml None plan prog xml ctx ex p v" and b: "cb_prediction b = Some p" "cb_version b = Some v"
    using can_execute_admissible [OF assms(1)] assms(2) by blast
  have sd: "sd = new_sidecar (sha256 xml) ctx prog plan (Some v)" using evaluate_program_sidecar [OF assms(1)] assms(3) b(2) by simp
  have st: "deserialize_storage st = Inr plan" using storage_reload [OF assms(4)] assms(8) by (simp add: sd new_sidecar_def)
  have pr: "deserialize_program pr = Inr prog" using program_reload [OF assms(5-7)] assms(9) by (simp add: sd new_sidecar_def)
  obtain b' where b': "evaluate_program sha256 validate_xml (Some ?sd) plan prog xml ctx = Some (Inr b')" "can_execute b'" "cb_version b' = Some v" "cb_prediction b' = Some p"
    using evaluate_accepts [OF admitted_sidecar_accepted [OF a sd]] by blast
  have "cb_program b' = Some prog" "cb_storage b' = Some plan" using evaluate_program_phases [OF b'(1)] by blast+
  moreover have "check_xml_bundle sha256 validate_xml xml ?sd ctx = Some (Inr b')" by (simp add: check_xml_bundle_def st pr b'(1) reject_artifact_def)
  ultimately show ?thesis using b b' by auto
qed

theorem reloaded_bundle_executes_witness:
  "\<exists>sd b. check_xml_bundle id (\<lambda>_ _ _. Inr ()) ''xml'' sd broadcast_context = Some (Inr b) \<and> can_execute b \<and> cb_storage b = Some broadcast_plan"
proof -
  obtain b where b: "evaluate_program id (\<lambda>_ _ _. Inr ()) None broadcast_plan broadcast_program ''xml'' broadcast_context = Some (Inr b)" "can_execute b"
    using evaluate_accepts [OF broadcast_admissible] by blast
  obtain sd where sd: "cb_sidecar b = Some sd" "sd = new_sidecar (id ''xml'') broadcast_context broadcast_program broadcast_plan (cb_version b)"
    using evaluate_program_sidecar [OF b(1)] by blast
  have ok: "storage_ok broadcast_plan" by (simp add: storage_ok_def broadcast_plan_def broadcast_value_def broadcast_instruction_def)
  have wf: "wf_dict (np_input_slots broadcast_program)" "wf_dict (np_output_slots broadcast_program)" "wf_dict (np_scratch_slots broadcast_program)"
    by (simp_all add: broadcast_program_def)
  obtain st pr where re: "json_reload (sd_storage sd) = Inr st" "json_reload (sd_program sd) = Inr pr"
    using storage_reload [OF ok] program_reload [OF wf] by (auto simp: sd(2) new_sidecar_def bnd_Inr_iff)
  from reloaded_bundle_executes [OF b sd(1) ok wf re] show ?thesis by blast
qed

end
