(* ===== verification/Cost_Projection.thy ===== *)
theory Cost_Projection
  imports Cost_Model
begin

text \<open>
  \<^verbatim>\<open>src/vericcl/performance/topology.py\<close>: the costs that a cost model gives the links and shared resources of a topology for a fixed slice size.
\<close>

section \<open>The costs of a topology\<close>

definition link_cost_key :: "int \<Rightarrow> int \<Rightarrow> bool \<Rightarrow> string" where
  "link_cost_key src dst reduction = (if reduction then ''rrc:'' else ''link:'') @ str_int src @ '':'' @ str_int dst"

definition project_link :: "cost_model \<Rightarrow> int \<Rightarrow> link_key \<times> topology_link \<Rightarrow> (link_key \<times> topology_link) res" where
  "project_link m n entry = (case entry of (k, edge) \<Rightarrow>
     let component = link_cost_key (lk_src_rank k) (lk_dst_rank k) False in
     case service_for m component n of
       None \<Rightarrow> Inl (SemanticError (''current model lacks the requested link/size component: '' @ component))
     | Some s \<Rightarrow> bnd (performance_curve_init (Finite (alpha_cost s)) (Finite (alpha_cost s + beta_cost s)) [] (Some (Finite (beta_cost s)))) (\<lambda>curve.
         bnd (topology_link_post_init (edge\<lparr>dl_performance := curve\<rparr>)) (\<lambda>edge. Inr (k, edge))))"

definition project_resource :: "cost_model \<Rightarrow> string \<times> shared_resource \<Rightarrow> (string \<times> shared_resource) res" where
  "project_resource m entry = (case entry of (rid, r) \<Rightarrow>
     case map_of (model_resources m) rid of
       None \<Rightarrow> Inl (SemanticError (''current model lacks the shared resource capacity: '' @ rid))
     | Some c \<Rightarrow> bnd (performance_curve_init (Finite 0) (Finite (1 / c)) [] (Some (Finite (1 / c)))) (\<lambda>curve.
         bnd (shared_resource_post_init (r\<lparr>sr_performance := curve\<rparr>) (Some (Finite c))) (\<lambda>r. Inr (rid, r))))"

definition project_topology :: "(topology \<Rightarrow> string) \<Rightarrow> topology \<Rightarrow> cost_model \<Rightarrow> int \<Rightarrow> topology res" where
  "project_topology compute_signature t m n =
     bnd (map_res (project_link m n) (topo_links t)) (\<lambda>ls.
     bnd (map_res (project_resource m) (shared_resources t)) (\<lambda>rs.
     topology_post_init compute_signature (t\<lparr>topo_links := ls, shared_resources := rs, isomorphism_signature := ''''\<rparr>)))"

text \<open>Entries that keep their keys are found under the same keys.\<close>

lemma map_res_entries:
  assumes "map_res f d = Inr d'" "\<And>e e'. f e = Inr e' \<Longrightarrow> fst e' = fst e"
  shows "map fst d' = map fst d" "map_of d' k = Some v' \<Longrightarrow> \<exists>v. map_of d k = Some v \<and> f (k, v) = Inr (k, v')" "map_of d k = Some v \<Longrightarrow> \<exists>v'. map_of d' k = Some v' \<and> f (k, v) = Inr (k, v')"
proof -
  have "list_all2 (\<lambda>e e'. f e = Inr e') d d'" using assms(1) by (simp add: map_res_Inr_iff)
  then have "map fst d' = map fst d \<and> (\<forall>v'. map_of d' k = Some v' \<longrightarrow> (\<exists>v. map_of d k = Some v \<and> f (k, v) = Inr (k, v')))
    \<and> (\<forall>v. map_of d k = Some v \<longrightarrow> (\<exists>v'. map_of d' k = Some v' \<and> f (k, v) = Inr (k, v')))"
  proof (induction rule: list_all2_induct)
    case (Cons e d e' d')
    have "fst e' = fst e" by (rule assms(2) [OF Cons.hyps(1)])
    moreover from this have "f (fst e, snd e) = Inr (fst e, snd e')" using Cons.hyps(1) by (metis prod.collapse)
    ultimately show ?case using Cons.IH by (cases e; cases e') auto
  qed simp
  then show "map fst d' = map fst d" "map_of d' k = Some v' \<Longrightarrow> \<exists>v. map_of d k = Some v \<and> f (k, v) = Inr (k, v')" "map_of d k = Some v \<Longrightarrow> \<exists>v'. map_of d' k = Some v' \<and> f (k, v) = Inr (k, v')" by blast+
qed

lemma project_link_Inr:
  assumes "project_link m n (k, e) = Inr (k', e')"
  shows "k' = k" "\<exists>s. service_for m (link_cost_key (lk_src_rank k) (lk_dst_rank k) False) n = Some s
    \<and> dl_performance e' = \<lparr>alpha_us = alpha_cost s, invbw_us = alpha_cost s + beta_cost s, bandwidth_bytes_per_us = [], beta_us_per_byte = Some (beta_cost s)\<rparr>"
    "dl_key e' = dl_key e \<and> dl_max_channels e' = dl_max_channels e \<and> resource_ids e' = sort (resource_ids e) \<and> physical_path e' = physical_path e"
  using assms by (auto simp: project_link_def Let_def bnd_Inr_iff ensure_Inr_iff performance_curve_init_def topology_link_post_init_def number_min_Inr_iff dict_of_def split: option.splits)

lemma project_resource_Inr:
  assumes "project_resource m (k, r) = Inr (k', r')"
  shows "k' = k" "\<exists>c. map_of (model_resources m) k = Some c \<and> capacity_bytes_per_us r' = Some c" "set (member_links r') = set (member_links r)"
  using assms by (auto simp: project_resource_def bnd_Inr_iff ensure_Inr_iff shared_resource_post_init_def number_min_Inr_iff split: option.splits)

text \<open>
  C35.  A projected topology has the links of the original one with their ports and resources, and each of them costs what the model says for the slice size; it is refused when the
  model lacks a link or a capacity.
\<close>

theorem project_topology_costs:
  assumes "project_topology sig t m n = Inr t'" "wf_dict (topo_links t)" "wf_dict (shared_resources t)"
  shows "(case map_of (topo_links t) k of None \<Rightarrow> map_of (topo_links t') k = None
    | Some e \<Rightarrow> \<exists>e' s. map_of (topo_links t') k = Some e' \<and> service_for m (link_cost_key (lk_src_rank k) (lk_dst_rank k) False) n = Some s
        \<and> alpha_us (dl_performance e') = alpha_cost s \<and> beta_effective_us (dl_performance e') = beta_cost s
        \<and> dl_max_channels e' = dl_max_channels e \<and> set (resource_ids e') = set (resource_ids e))
    \<and> (\<forall>rid r. map_of (shared_resources t') rid = Some r \<longrightarrow> capacity_bytes_per_us r = map_of (model_resources m) rid)"
proof -
  obtain ls rs where ls: "map_res (project_link m n) (topo_links t) = Inr ls"
    and rs: "map_res (project_resource m) (shared_resources t) = Inr rs" and t': "topology_post_init sig (t\<lparr>topo_links := ls, shared_resources := rs, isomorphism_signature := ''''\<rparr>) = Inr t'"
    using assms(1) by (auto simp: project_topology_def bnd_Inr_iff)
  have keep: "fst e' = fst e" if "project_link m n e = Inr e'" for e e' using project_link_Inr(1) that by (metis prod.collapse)
  note entries = map_res_entries [OF ls keep]
  have "wf_dict ls" using entries(1) assms(2) by simp
  then have same: "map_of (topo_links t') = map_of ls" using topology_fields(3) [OF t'] by (simp add: map_of_sort_key)
  have keep_r: "fst e' = fst e" if "project_resource m e = Inr e'" for e e' using project_resource_Inr(1) that by (metis prod.collapse)
  note entries_r = map_res_entries [OF rs keep_r]
  have "wf_dict rs" using entries_r(1) assms(3) by simp
  then have same_r: "map_of (shared_resources t') = map_of rs" using topology_fields(4) [OF t'] by (simp add: map_of_sort_key)
  have caps: "\<forall>rid r. map_of (shared_resources t') rid = Some r \<longrightarrow> capacity_bytes_per_us r = map_of (model_resources m) rid"
    unfolding same_r
  proof (intro allI impI)
    fix rid r assume r: "map_of rs rid = Some r"
    from entries_r(2) [OF _ r] obtain r0 where "project_resource m (rid, r0) = Inr (rid, r)" by auto
    from project_resource_Inr(2) [OF this] show "capacity_bytes_per_us r = map_of (model_resources m) rid" by auto
  qed
  show ?thesis
  proof (cases "map_of (topo_links t) k")
    case None
    have "map_of ls k = None" using entries(2) [where k = k] None by (cases "map_of ls k") auto
    then show ?thesis using None same caps by simp
  next
    case (Some e)
    then obtain e' where e': "map_of ls k = Some e'" "project_link m n (k, e) = Inr (k, e')" using entries(3) [OF _ Some] by auto
    from project_link_Inr [OF e'(2)] show ?thesis using Some same e'(1) caps by (auto simp: beta_effective_us_def)
  qed
qed

definition bus_model :: cost_model where
  "bus_model = \<lparr>model_version = ''v1'', services = [(''link:0:1'', [size_cost 1 None]), (''link:1:0'', [size_cost 1 None])], model_resources = [(''bus'', 1)], profiles = [], model_context = []\<rparr>"

theorem project_topology_costs_witness:
  "\<exists>t'. project_topology (\<lambda>_. '''') example_topology bus_model 64 = Inr t' \<and> (\<exists>e. map_of (topo_links t') (LinkKey 1 0) = Some e \<and> alpha_us (dl_performance e) = 1)"
proof -
  have bus: "map_of (model_resources bus_model) ''bus'' = Some 1" by (simp add: bus_model_def)
  have tiny: "\<not> 1 < tiny" by (simp add: tiny_def)
  have s: "service_for bus_model (link_cost_key 1 0 False) 64 = Some (size_cost 1 None)" "service_for bus_model (link_cost_key 0 1 False) 64 = Some (size_cost 1 None)" by code_simp+
  have "is_ok (project_topology (\<lambda>_. '''') example_topology bus_model 64)"
    by (simp add: project_topology_def project_link_def project_resource_def example_topology_def s Let_def performance_curve_init_def number_min_def tiny size_cost_def dict_of_def
      topology_link_post_init_def shared_resource_post_init_def exceeds_points_def bus topology_post_init_def normalize_links_def normalize_resources_def normalize_membership_def
      check_each_def check_link_def check_resource_def check_member_def check_link_resource_def integer_min_def nonempty_id_def less_eq_link_key_def upto.simps)
  then obtain t' where t': "project_topology (\<lambda>_. '''') example_topology bus_model 64 = Inr t'" by (auto simp: is_ok_iff)
  have "wf_dict (topo_links example_topology)" "wf_dict (shared_resources example_topology)" by (simp_all add: example_topology_def)
  moreover have "\<exists>e. map_of (topo_links example_topology) (LinkKey 1 0) = Some e" by (simp add: example_topology_def)
  ultimately show ?thesis using project_topology_costs [OF t', of "LinkKey 1 0"] by (auto simp: t' s size_cost_def)
qed
end
