(* ===== verification/Spec2Isabelle.thy ===== *)
theory Spec2Isabelle
  imports Races Checker Deadlock Storage_Delivers Native_Order Sidecar Budget_System Admission_Reload Cost_Projection
begin

text \<open>
  VeriCCL plans collective communication (all-reduce, all-gather, broadcast, and so on) for a cluster of GPUs, checks the plans and lowers them
  to the threadblock programs of the MSCCL runtime.  This development models the core of the Python package \<^verbatim>\<open>src/vericcl\<close> and proves what makes
  it correct: that accepted schedules compute the collective, that the checkers are exact, that storage planning and lowering keep
  the order the data needs, that the predicted times are those of a run the links can carry, that records survive their files, and that the
  budget manager never hands out more than it has.

  \<^bold>\<open>The program and its parts.\<close>
  A request is resolved (\<^verbatim>\<open>input/\<close>) to a collective, a topology, hyperparameters and constraints.  The planner, solver and composer search for a
  candidate: transfers of slices over links, either as fixed routes (\<^verbatim>\<open>semantics/atom.py\<close>) or as network operations.
  Candidates are not trusted.  \<^verbatim>\<open>semantics/state.py\<close> tracks which contributions every payload holds and
  \<^verbatim>\<open>semantics/checker.py\<close> compares the final ones with what \<^verbatim>\<open>semantics/collective.py\<close> demands;
  \<^verbatim>\<open>xml/v5_buffers.py\<close> gives every state version storage and orders the instructions;
  \<^verbatim>\<open>xml/v5_program.py\<close> distributes them to threadblocks with waits; \<^verbatim>\<open>semantics/versions.py\<close> and \<^verbatim>\<open>version_schedule.py\<close> replay the timed result byte range by byte
  range; \<^verbatim>\<open>xml/capacity.py\<close> compares it with the limits of the runtime, \<^verbatim>\<open>xml/deadlock.py\<close> runs threadblock programs, and \<^verbatim>\<open>xml/v5_lower.py\<close>
  writes the whole to a sidecar that can be read back.  \<^verbatim>\<open>performance/\<close> holds the cost model and predicts the time of a program
  by an event simulation with shared links.  All of this runs under leases of \<^verbatim>\<open>execution/budget.py\<close>.

  \<^bold>\<open>The theories.\<close>
  \<^item> \<^verbatim>\<open>Prelude\<close>: results that may raise (\<^verbatim>\<open>'a res\<close>, the left side is the exception), loops with early exit, dictionaries in insertion order,
    decimal strings, binary search, and two locales: runs of operations that may be refused, and systems whose steps commute.
  \<^item> \<^verbatim>\<open>Collective\<close>, \<^verbatim>\<open>Ranges\<close>: \<^verbatim>\<open>semantics/slice.py\<close>, \<^verbatim>\<open>collective.py\<close>, \<^verbatim>\<open>ranges.py\<close> and the fields of \<^verbatim>\<open>input/models.py\<close>
    that are read.  Renumbering stages keeps every ban (C4).
  \<^item> \<^verbatim>\<open>Versions\<close>, \<^verbatim>\<open>Ledger_Invariant\<close>, \<^verbatim>\<open>Version_Schedule\<close>, \<^verbatim>\<open>Replay\<close>, \<^verbatim>\<open>Races\<close>: the version ledger, its invariant, and the replay of a timed schedule.  An accepted
    schedule run on memory leaves exactly the demanded sums (C1), without races (C2) and within the constraints (C3).
  \<^item> \<^verbatim>\<open>Atom\<close>, \<^verbatim>\<open>Payload\<close>, \<^verbatim>\<open>Checker\<close>: fixed-route schedules (C5), the payload ledger (C6, C7) and the final-state checker (C8).
  \<^item> \<^verbatim>\<open>Endpoints\<close>, \<^verbatim>\<open>Threadblocks\<close>, \<^verbatim>\<open>Deadlock\<close>: \<^verbatim>\<open>xml/model.py\<close>, \<^verbatim>\<open>endpoints.py\<close>, \<^verbatim>\<open>threadblocks.py\<close>, \<^verbatim>\<open>deadlock.py\<close>.  Lowering
    gives matching endpoints (C9) and the deadlock simulation decides deadlock (C10).
  \<^item> \<^verbatim>\<open>Topo_Order\<close>, \<^verbatim>\<open>Topology\<close>, \<^verbatim>\<open>Capacity\<close>: the order loops with a heap and with a queue as instances of one worklist locale (C11, C12),
    \<^verbatim>\<open>topology/model.py\<close> (C13, C14), \<^verbatim>\<open>xml/capacity.py\<close> and \<^verbatim>\<open>granularity.py\<close> (C17, C18).
  \<^item> \<^verbatim>\<open>Storage_Plan\<close> models \<^verbatim>\<open>xml/v5_buffers.py\<close>; \<^verbatim>\<open>Storage_Safety\<close>, \<^verbatim>\<open>Storage_Correct\<close>, \<^verbatim>\<open>Storage_Outputs\<close>, \<^verbatim>\<open>Storage_Flow\<close>, \<^verbatim>\<open>Storage_Slots\<close> and \<^verbatim>\<open>Storage_Delivers\<close>
    follow its phases (values, reads and outputs; protection of readers; order; slots).  Every order the dependencies
    allow delivers the outputs (C15), the order and the scratch bounds are kept (C16), and a value nobody reads is the exception that C15 excludes (C19).
  \<^item> \<^verbatim>\<open>Native_Program\<close> models \<^verbatim>\<open>xml/v5_program.py\<close>; \<^verbatim>\<open>Native_Order\<close> shows that leaving out covered waits loses no order (C20).
  \<^item> \<^verbatim>\<open>Budget\<close> models \<^verbatim>\<open>execution/budget.py\<close>; \<^verbatim>\<open>Budget_System\<close> is its state machine with requests that wait (C21 to C23).
  \<^item> \<^verbatim>\<open>Sidecar\<close>: the documents of \<^verbatim>\<open>xml/v5_lower.py\<close> and their round trips (C24 to C26).
  \<^item> \<^verbatim>\<open>Prediction\<close> models the exact mode of \<^verbatim>\<open>performance/simulation.py\<close>; \<^verbatim>\<open>Prediction_Rates\<close> shows that the fair rates fill no link beyond its capacity,
    \<^verbatim>\<open>Prediction_Run\<close> holds the invariants of the event loop (which operations are placed, when they started, how much of their payload has moved),
    \<^verbatim>\<open>Prediction_Loop\<close> that every step makes progress, and \<^verbatim>\<open>Prediction_Correct\<close> the results: prediction returns (C27), leaves out exactly the work
    that lacks a cost or hangs on such work (C28), starts an operation exactly when it is ready (C29), moves its whole payload (C30) within the capacity of every shared resource (C31), and the
    total is the time the last one ends (C32).
  \<^item> \<^verbatim>\<open>Cost_Model\<close>, \<^verbatim>\<open>Cost_Projection\<close>: \<^verbatim>\<open>performance/model.py\<close>, \<^verbatim>\<open>profiles.py\<close> and \<^verbatim>\<open>topology.py\<close>.  A lookup finds the one
    cost that covers the payload (C33), an update changes what it names and nothing else (C34), and a projected topology carries the costs of the model (C35).
  \<^item> \<^verbatim>\<open>Admission\<close> models \<^verbatim>\<open>evaluate_program\<close>, \<^verbatim>\<open>lower_and_check\<close> and \<^verbatim>\<open>check_xml_bundle\<close> of \<^verbatim>\<open>xml/v5_lower.py\<close>, which join the parts above: lowering, bindings, launch limits,
    prediction and replay.  \<^verbatim>\<open>Admission_Correct\<close>: a candidate that may be executed leaves the collective in the runtime output buffers (C36).
    \<^verbatim>\<open>Admission_Order\<close>: an accepted program has the endpoints, addresses and order of its storage plan (C37).  \<^verbatim>\<open>Admission_Returns\<close>: the
    admission returns and its verdict is exact (C38), and what it admits keeps the launch limits (C40).  \<^verbatim>\<open>Admission_Reload\<close>: a stored candidate is admitted again (C39).

  \<^bold>\<open>How the code is modelled.\<close>
  A dataclass is a record and its \<^verbatim>\<open>__post_init__\<close> a function that returns the checked record or the exception; an enum or union is a datatype.
  A method of a mutable object takes the object and returns it updated.  Fields are given with their declared types, so tests
  with \<^verbatim>\<open>isinstance\<close> are not repeated.  Floating-point times are rationals and always finite: the arithmetic is exact, as in the exact mode of the
  code.  Dictionaries are association lists in insertion order; a loop over a Python set visits it in increasing order where the source
  leaves the order open.  A heap is a sorted list and a queue a list.  Leases do not expire inside the modelled loops.
  Digests of text (\<^verbatim>\<open>hashlib\<close>) are arguments.

  \<^bold>\<open>Loops.\<close>
  Loops over collections are folds.  Loops that run until nothing changes are \<^verbatim>\<open>partial_function\<close>s with result \<^verbatim>\<open>None\<close> when they never end, and each
  has a theorem that it returns: the order loops on every input (C11, C12), the deadlock simulation on every accepted program (C10),
  the event loop of the prediction and the spreading of missing costs on every executable program (C27),
  and the rounds of the untimed replay, with which the whole admission returns (C38).  No fuel is used.

  \<^bold>\<open>Not modelled.\<close>
  The search for candidates (planner, solver with SCIP, composer, tuning) is heuristic and its results are checked by the parts above.  XML text
  (lxml), files, processes, remote jobs, measurements and the GPU runtime are input and output.  The older fixed-route lowering
  (\<^verbatim>\<open>xml/buffers.py\<close>, \<^verbatim>\<open>liveness.py\<close>, \<^verbatim>\<open>list_scheduler.py\<close>, \<^verbatim>\<open>dependencies.py\<close>) is
  left out; its candidates are checked like the others.  The XML comparison of the admission and digests are parameters.  Of \<^verbatim>\<open>performance/\<close> the floating-point mode of the simulation, the rounding of its results to floats,
  the fitting of costs from measurements and the files of the cost model are not modelled.
\<close>

end
